(* ===== verification/LR_Prelude.thy ===== *)
theory LR_Prelude
  imports Main "HOL-Library.Word"
begin

unbundle bit_operations_syntax

text \<open>
  Shared vocabulary of the development: the machine types of the C sources, the
  little-endian byte encodings that the archive, bytecode and compression code use,
  and the generic list and arithmetic lemmas of the component proofs.

  A buffer is a list of bytes and a pointer into it is an offset. \<open>size_t\<close> values are
  natural numbers. An \<open>int\<close> that the code obtains by a cast is a signed 32-bit
  reading of the word, written \<open>to_i32\<close>.
\<close>

section \<open>Machine types\<close>

type_synonym byte = "8 word"
type_synonym u16 = "16 word"
type_synonym u32 = "32 word"
type_synonym u64 = "64 word"
type_synonym bytes = "byte list"

named_theorems lr_simps \<open>rewrite rules the component proofs share\<close>
named_theorems lr_len \<open>lengths of encoded data\<close>

definition to_i32 :: "nat \<Rightarrow> int" where
  "to_i32 n = sint (word_of_nat n :: u32)"

lemma to_i32_small [simp]: "n < 2 ^ 31 \<Longrightarrow> to_i32 n = int n"
  by (simp add: to_i32_def sint_uint unsigned_of_nat take_bit_nat_eq_self
      signed_take_bit_int_eq_self)

section \<open>Little-endian words\<close>

text \<open>
  \<open>put_u32\<close> and \<open>get_u32\<close> of \<^verbatim>\<open>src/engine/lr_bytecode_serialize.c\<close>: four bytes, least
  significant first.
\<close>

definition put_u32 :: "u32 \<Rightarrow> bytes" where
  "put_u32 v = [ucast (v AND 0xFF), ucast (drop_bit 8 v AND 0xFF),
                ucast (drop_bit 16 v AND 0xFF), ucast (drop_bit 24 v AND 0xFF)]"

definition le32 :: "byte \<Rightarrow> byte \<Rightarrow> byte \<Rightarrow> byte \<Rightarrow> u32" where
  "le32 a b c d = ucast a OR push_bit 8 (ucast b) OR push_bit 16 (ucast c) OR push_bit 24 (ucast d)"

definition get_u32 :: "bytes \<Rightarrow> nat \<Rightarrow> u32" where
  "get_u32 d p = le32 (d ! p) (d ! (p + 1)) (d ! (p + 2)) (d ! (p + 3))"

lemma length_put_u32 [simp, lr_len]: "length (put_u32 v) = 4"
  by (simp add: put_u32_def)

lemma mask_byte: "(0xFF :: 'a::len word) = mask 8"
  by (simp add: mask_eq_exp_minus_1)

lemma le32_bytes: "le32 (ucast (v AND 0xFF)) (ucast (drop_bit 8 v AND 0xFF))
    (ucast (drop_bit 16 v AND 0xFF)) (ucast (drop_bit 24 v AND 0xFF)) = v"
  unfolding le32_def mask_byte
proof (rule bit_word_eqI)
  fix n assume "n < LENGTH(32)"
  then consider "n < 8" | "8 \<le> n" "n < 16" | "16 \<le> n" "n < 24" | "24 \<le> n" "n < 32"
    by fastforce
  then show "bit ((ucast (ucast (v AND mask 8) :: byte) :: u32) OR
      push_bit 8 (ucast (ucast (drop_bit 8 v AND mask 8) :: byte)) OR
      push_bit 16 (ucast (ucast (drop_bit 16 v AND mask 8) :: byte)) OR
      push_bit 24 (ucast (ucast (drop_bit 24 v AND mask 8) :: byte))) n = bit v n"
    by cases (auto simp: bit_simps)
qed

lemma get_put_u32 [simp, lr_simps]: "get_u32 (pre @ put_u32 v @ rest) (length pre) = v"
proof -
  have "get_u32 (pre @ put_u32 v @ rest) (length pre)
      = le32 (ucast (v AND 0xFF)) (ucast (drop_bit 8 v AND 0xFF))
          (ucast (drop_bit 16 v AND 0xFF)) (ucast (drop_bit 24 v AND 0xFF))"
    by (simp add: get_u32_def put_u32_def nth_append)
  then show ?thesis by (simp add: le32_bytes)
qed

section \<open>Lists and arithmetic\<close>

lemma nth_append_at [simp]: "(pre @ x # rest) ! length pre = x"
  by (simp add: nth_append)

lemma take_drop_take: "a \<le> b \<Longrightarrow> take a xs @ take (b - a) (drop a xs) = take b xs"
  by (metis le_add_diff_inverse take_add)

lemma div_superadd: "(a::nat) div k + b div k \<le> (a + b) div k"
  by (metis div_add1_eq le_add1)

lemma unat_byte_of_nat [simp]: "n < 256 \<Longrightarrow> unat (word_of_nat n :: byte) = n"
  by (simp add: unat_of_nat)

end
