(* ===== verification/LR_Compress.thy ===== *)
theory LR_Compress
  imports LR_Prelude
begin

unbundle bit_operations_syntax

text \<open>
  The LZ4 block codec of \<^verbatim>\<open>src/lr_compress.c\<close>: \<open>lr_lz4_compress\<close>, \<open>lr_lz4_decompress\<close>
  and the two wrappers that add the size header.

  Pointers are offsets, the output buffer is the list of bytes written so far, the hash
  table is a function from the 14-bit hash to an \<open>int\<close> (\<open>-1\<close>: empty). A read of the
  decompressor past the end of its input, which C leaves undefined, is the error
  \<open>Lz4_OverRead\<close>; a match with offset 0, which reads bytes of \<open>dst\<close> before they are
  written, is \<open>Lz4_Uninit\<close>; \<open>return 0\<close> is \<open>Lz4_Bad\<close>. A failure carries the bytes that were written to \<open>dst\<close> until then.
\<close>

section \<open>Compression\<close>

definition lz4_hash :: "u32 \<Rightarrow> u32" where
  "lz4_hash val = drop_bit (32 - 14) (val * 2654435761)"

definition lz4_read32 :: "bytes \<Rightarrow> nat \<Rightarrow> u32" where
  "lz4_read32 src p = get_u32 src p"

definition LR_LZ4_COMPRESS_BOUND :: "nat \<Rightarrow> nat" where
  "LR_LZ4_COMPRESS_BOUND n = n + n div 255 + 16"

record lz4_state =
  ip :: nat
  anchor :: nat
  op :: bytes
  hash_table :: "u32 \<Rightarrow> int"
  stp :: nat
  search_match_nb :: nat

text \<open>The length extension: \<open>while (token >= 255) *op++ = 255; *op++ = token\<close>.\<close>

fun lz4_ext :: "nat \<Rightarrow> bytes" where
  "lz4_ext token = (if token \<ge> 255 then 255 # lz4_ext (token - 255) else [word_of_nat token])"

declare lz4_ext.simps [simp del]

definition lz4_lit_token :: "nat \<Rightarrow> bytes" where
  "lz4_lit_token lit_len =
     (if lit_len \<ge> 15 then push_bit 4 15 # lz4_ext (lit_len - 15)
      else [word_of_nat (lit_len * 16)])"

text \<open>The loop that extends a match of four bytes; \<open>matchlimit = iend - LZ4_MIN_MATCH\<close>.\<close>

function lz4_extend :: "bytes \<Rightarrow> nat \<Rightarrow> nat \<Rightarrow> nat \<Rightarrow> nat" where
  "lz4_extend src cur match ref_match =
     (if match < length src - 4 \<and> ref_match < cur \<and> src ! match = src ! ref_match
      then lz4_extend src cur (match + 1) (ref_match + 1) else match)"
  by pat_completeness auto
termination
  by (relation "measure (\<lambda>(src, cur, match, r). length src - match)") auto

declare lz4_extend.simps [simp del]

text \<open>
  One sequence: token, literals, 16-bit offset, and the match length in the low nibble of
  the token byte (kept at \<open>token_ptr\<close>), with its extension after the offset.
\<close>

definition lz4_put_seq :: "bytes \<Rightarrow> bytes \<Rightarrow> nat \<Rightarrow> nat \<Rightarrow> nat \<Rightarrow> bytes" where
  "lz4_put_seq out lits lit_len offset match_len =
     (let token_ptr = length out;
          out = out @ lz4_lit_token lit_len @ lits;
          out = out @ [word_of_nat (offset mod 256), word_of_nat (offset div 256 mod 256)];
          token = match_len - 4
      in if token < 15 then out[token_ptr := out ! token_ptr OR word_of_nat token]
         else out[token_ptr := out ! token_ptr OR 15] @ lz4_ext (token - 15))"

text \<open>The condition of the match test: the candidate is in the window and four bytes agree.\<close>

definition lz4_is_match :: "bytes \<Rightarrow> nat \<Rightarrow> int \<Rightarrow> bool" where
  "lz4_is_match src cur ref \<longleftrightarrow>
     0 \<le> ref \<and> int cur - ref \<le> 65535 \<and>
     src ! cur = src ! nat ref \<and> src ! (cur + 1) = src ! (nat ref + 1) \<and>
     src ! (cur + 2) = src ! (nat ref + 2) \<and> src ! (cur + 3) = src ! (nat ref + 3)"

text \<open>One iteration of the main loop; \<open>None\<close> is \<open>goto fail\<close>.\<close>

definition lz4_step :: "bytes \<Rightarrow> lz4_state \<Rightarrow> lz4_state option" where
  "lz4_step src st =
     (let h = lz4_hash (lz4_read32 src (ip st));
          ref = hash_table st h;
          st = st\<lparr>hash_table := (hash_table st)(h := to_i32 (ip st))\<rparr>
      in if lz4_is_match src (ip st) ref then
           (let match = lz4_extend src (ip st) (ip st + 4) (nat ref + 4);
                match_len = match - ip st;
                lit_len = ip st - anchor st
            in if length (op st) + 1 + lit_len > LR_LZ4_COMPRESS_BOUND (length src) then None
               else Some (st\<lparr>op := lz4_put_seq (op st) (take lit_len (drop (anchor st) src)) lit_len
                                     (ip st - nat ref) match_len,
                             ip := match, anchor := match,
                             search_match_nb := 0, stp := match_len\<rparr>))
         else Some (st\<lparr>ip := ip st + stp st,
                       search_match_nb := search_match_nb st + 1,
                       stp := (search_match_nb st + 1) div 2 + 1\<rparr>))"

text \<open>The loop \<open>while (ip < ilimit)\<close> with \<open>ilimit = iend - LZ4_LAST_LITERALS\<close>; the outer
  \<open>None\<close> is a run that never ends, the inner one \<open>goto fail\<close>.\<close>

partial_function (option) lz4_loop :: "bytes \<Rightarrow> lz4_state \<Rightarrow> lz4_state option option" where
  "lz4_loop src st =
     (if ip st + 5 < length src then
        (case lz4_step src st of None \<Rightarrow> Some None | Some st' \<Rightarrow> lz4_loop src st')
      else Some (Some st))"

definition lz4_init :: lz4_state where
  "lz4_init = \<lparr>ip = 0, anchor = 0, op = [], hash_table = (\<lambda>_. -1), stp = 1,
               search_match_nb = 1\<rparr>"

definition lz4_finish :: "bytes \<Rightarrow> lz4_state \<Rightarrow> bytes option" where
  "lz4_finish src st =
     (let lit_len = length src - anchor st
      in if lit_len > 0 then
           (if length (op st) + 1 + lit_len > LR_LZ4_COMPRESS_BOUND (length src) then None
            else Some (op st @ lz4_lit_token lit_len @ take lit_len (drop (anchor st) src)))
         else Some (op st))"

text \<open>\<open>Some None\<close> is \<open>return 0\<close>. \<open>table_ok\<close> is the outcome of the \<open>calloc\<close> of the table.\<close>

definition lr_lz4_compress :: "bool \<Rightarrow> bytes \<Rightarrow> bytes option option" where
  "lr_lz4_compress table_ok src =
     (if length src < 4 then Some None
      else if \<not> table_ok then Some None
      else case lz4_loop src lz4_init of
             None \<Rightarrow> None
           | Some None \<Rightarrow> Some None
           | Some (Some st) \<Rightarrow> Some (lz4_finish src st))"

section \<open>Decompression\<close>

datatype lz4_error = Lz4_Bad | Lz4_OverRead | Lz4_Uninit

text \<open>\<open>while ((extra = *ip++) == 255) len += 255; len += extra\<close>\<close>

function lz4_read_ext :: "bytes \<Rightarrow> nat \<Rightarrow> nat \<Rightarrow> (nat \<times> nat) option" where
  "lz4_read_ext src p len =
     (if p < length src then
        (if src ! p = 255 then lz4_read_ext src (p + 1) (len + 255)
         else Some (p + 1, len + unat (src ! p)))
      else None)"
  by pat_completeness auto
termination
  by (relation "measure (\<lambda>(src, p, len). length src - p)") auto

declare lz4_read_ext.simps [simp del]

definition lz4_read_len :: "bytes \<Rightarrow> nat \<Rightarrow> nat \<Rightarrow> nat \<Rightarrow> (nat \<times> nat) option" where
  "lz4_read_len src p nib base =
     (if nib = 15 then lz4_read_ext src p (nib + base) else Some (p, nib + base))"

text \<open>\<open>for (i = 0; i < match_len; i++) op[i] = match_src[i]\<close>, byte by byte.\<close>

fun lz4_copy :: "bytes \<Rightarrow> nat \<Rightarrow> nat \<Rightarrow> bytes" where
  "lz4_copy out offset 0 = out"
| "lz4_copy out offset (Suc n) = lz4_copy (out @ [out ! (length out - offset)]) offset n"

text \<open>
  One iteration of the decoding loop: the new input position and output, and whether the
  \<open>break\<close> after the literals was taken.
\<close>

definition lz4_dstep :: "bytes \<Rightarrow> nat \<Rightarrow> nat \<Rightarrow> bytes \<Rightarrow> (lz4_error \<times> bytes) + nat \<times> bytes \<times> bool" where
  "lz4_dstep src dst_len p out =
     (let token = unat (src ! p) in
      case lz4_read_len src (p + 1) (token div 16) 0 of
        None \<Rightarrow> Inl (Lz4_OverRead, out)
      | Some (p, lit_len) \<Rightarrow>
          if p + lit_len > length src \<or> length out + lit_len > dst_len then Inl (Lz4_Bad, out)
          else
            let out = out @ take lit_len (drop p src); p = p + lit_len in
            if p \<ge> length src then Inr (p, out, True)
            else if p + 2 > length src then Inl (Lz4_Bad, out)
            else
              let offset = unat (src ! p) + 256 * unat (src ! (p + 1)) in
              case lz4_read_len src (p + 2) (token mod 16) 4 of
                None \<Rightarrow> Inl (Lz4_OverRead, out)
              | Some (p, match_len) \<Rightarrow>
                  if offset > length out then Inl (Lz4_Bad, out)
                  else if length out + match_len > dst_len then Inl (Lz4_Bad, out)
                  else if offset = 0 then Inl (Lz4_Uninit, out)
                  else Inr (p, lz4_copy out offset match_len, False))"

lemma lz4_read_ext_progress: "lz4_read_ext src p len = Some (q, l) \<Longrightarrow> p < q \<and> q \<le> length src"
proof (induction src p len rule: lz4_read_ext.induct)
  case (1 src p len)
  show ?case
  proof (cases "p < length src \<and> src ! p = 255")
    case True
    with "1.IH" "1.prems" show ?thesis by (auto simp: lz4_read_ext.simps [of src p len])
  next
    case False
    with "1.prems" show ?thesis
      by (auto simp: lz4_read_ext.simps [of src p len] split: if_splits)
  qed
qed

lemma lz4_read_len_progress: "lz4_read_len src p nib base = Some (q, l) \<Longrightarrow> p \<le> q"
  by (auto simp: lz4_read_len_def dest: lz4_read_ext_progress split: if_splits)

lemma lz4_dstep_progress: "lz4_dstep src dst_len p out = Inr (q, out', b) \<Longrightarrow> p < q"
  unfolding lz4_dstep_def Let_def
  by (auto split: option.splits prod.splits if_splits dest!: lz4_read_len_progress)

function lz4_dloop :: "bytes \<Rightarrow> nat \<Rightarrow> nat \<Rightarrow> bytes \<Rightarrow> (lz4_error \<times> bytes) + bytes" where
  "lz4_dloop src dst_len p out =
     (if p < length src then
        (case lz4_dstep src dst_len p out of
           Inl e \<Rightarrow> Inl e
         | Inr (q, out', brk) \<Rightarrow> if brk then Inr out' else lz4_dloop src dst_len q out')
      else Inr out)"
  by pat_completeness auto
termination
  by (relation "measure (\<lambda>(src, n, p, out). length src - p)") (auto dest!: lz4_dstep_progress)

declare lz4_dloop.simps [simp del]

definition lr_lz4_decompress :: "bytes \<Rightarrow> nat \<Rightarrow> (lz4_error \<times> bytes) + bytes" where
  "lr_lz4_decompress src dst_len = lz4_dloop src dst_len 0 []"

section \<open>The wrappers with the size header\<close>

text \<open>
  \<open>copy_ok\<close>, \<open>buf_ok\<close> and \<open>table_ok\<close> are the outcomes of the \<open>malloc\<close>/\<open>calloc\<close> calls;
  \<open>over_ratio csize n\<close> is the floating-point test \<open>(double)csize / (double)n > min_ratio\<close>.
  The result holds the returned buffer (\<open>None\<close> is NULL), \<open>*was_compressed\<close> and \<open>*out_len\<close>.
\<close>

definition lr_compress_if_beneficial ::
  "bool \<Rightarrow> bool \<Rightarrow> bool \<Rightarrow> (nat \<Rightarrow> nat \<Rightarrow> bool) \<Rightarrow> bytes \<Rightarrow> (bytes option \<times> bool \<times> nat) option" where
  "lr_compress_if_beneficial copy_ok buf_ok table_ok over_ratio data =
     (let copy = (if copy_ok then Some data else None, False, length data)
      in if length data < 64 then Some copy
         else if \<not> buf_ok then Some copy
         else case lr_lz4_compress table_ok data of
                None \<Rightarrow> None
              | Some None \<Rightarrow> Some copy
              | Some (Some c) \<Rightarrow>
                  if length c = 0 \<or> over_ratio (length c) (length data) then Some copy
                  else Some (Some (put_u32 (word_of_nat (length data)) @ c), True, length c + 4))"

text \<open>\<open>Inr None\<close> is NULL; \<open>Inl\<close> is an undefined read of the decoder.\<close>

definition lr_decompress_if_needed ::
  "bool \<Rightarrow> bool \<Rightarrow> bytes \<Rightarrow> bool \<Rightarrow> lz4_error + bytes option" where
  "lr_decompress_if_needed copy_ok buf_ok data was_compressed =
     (if \<not> was_compressed then Inr (if copy_ok then Some data else None)
      else if length data < 4 then Inr None
      else
        let uncompressed_len = unat (get_u32 data 0) in
        if \<not> buf_ok then Inr None
        else case lr_lz4_decompress (drop 4 data) uncompressed_len of
               Inl (Lz4_Bad, _) \<Rightarrow> Inr (if uncompressed_len = 0 then Some [] else None)
             | Inl (e, _) \<Rightarrow> Inl e
             | Inr out \<Rightarrow> Inr (if length out = uncompressed_len then Some out else None))"

section \<open>Lengths and nibbles\<close>

definition lz4_tail :: "nat \<Rightarrow> bytes" where
  "lz4_tail n = (if n \<ge> 15 then lz4_ext (n - 15) else [])"

lemma length_lz4_ext [lr_len]: "length (lz4_ext n) = n div 255 + 1"
proof (induction n rule: lz4_ext.induct)
  case (1 n)
  then show ?case
    by (auto simp: lz4_ext.simps [of n] div_if [of n 255])
qed

lemma nibble_or: "a < 16 \<Longrightarrow> b < 16 \<Longrightarrow>
    (word_of_nat (a * 16) OR word_of_nat b :: byte) = word_of_nat (a * 16 + b)"
proof -
  assume b: "b < 16"
  have lo: "bit b n \<Longrightarrow> n < 4" for n
  proof (rule ccontr)
    assume "bit b n" "\<not> n < 4"
    then have "b div 2 ^ n = 0"
      using b power_increasing [of 4 n "2::nat"] by (simp add: div_eq_0_iff)
    with \<open>bit b n\<close> show False by (simp add: bit_iff_odd)
  qed
  have hi: "bit (a * 16) n \<Longrightarrow> 4 \<le> n" for n
  proof -
    assume "bit (a * 16) n"
    moreover have "a * 16 = push_bit 4 a" by (simp add: push_bit_eq_mult)
    ultimately show "4 \<le> n" by (simp add: bit_push_bit_iff)
  qed
  have "(a * 16) AND b = 0"
  proof (rule bit_eqI)
    show "bit (a * 16 AND b) n = bit 0 n" for n
      using lo [of n] hi [of n] by (auto simp: bit_and_iff)
  qed
  then have "(a * 16) OR b = a * 16 + b" by (simp add: disjunctive_add_eq_or)
  then show ?thesis by (metis of_nat_or_eq)
qed

lemma lz4_lit_token_eq: "lz4_lit_token n = word_of_nat (min n 15 * 16) # lz4_tail n"
  by (simp add: lz4_lit_token_def lz4_tail_def)

lemma lz4_put_seq_eq:
  "lz4_put_seq out lits ll off ml =
     out @ word_of_nat (min ll 15 * 16 + min (ml - 4) 15) # lz4_tail ll @ lits @
     [word_of_nat (off mod 256), word_of_nat (off div 256 mod 256)] @ lz4_tail (ml - 4)"
  using nibble_or [of "min ll 15" "min (ml - 4) 15"]
  by (auto simp: lz4_put_seq_def lz4_lit_token_eq lz4_tail_def Let_def min_def)

lemma lz4_read_ext_ext [lr_simps]:
  "lz4_read_ext (pre @ lz4_ext n @ rest) (length pre) len
     = Some (length pre + length (lz4_ext n), len + n)"
proof (induction n arbitrary: pre len rule: lz4_ext.induct)
  case (1 n)
  show ?case
  proof (cases "255 \<le> n")
    case True
    then have "lz4_ext n = 255 # lz4_ext (n - 255)" by (simp add: lz4_ext.simps [of n])
    with "1.IH" [OF True, of "pre @ [255]" "len + 255"] True show ?thesis
      by (subst lz4_read_ext.simps) (simp add: nth_append)
  next
    case False
    then have e: "lz4_ext n = [word_of_nat n]" by (simp add: lz4_ext.simps [of n])
    have u: "unat (word_of_nat n :: byte) = n" using False by simp
    moreover have "(word_of_nat n :: byte) \<noteq> 255"
    proof
      assume "(word_of_nat n :: byte) = 255"
      then have "unat (word_of_nat n :: byte) = 255" by simp
      with u False show False by simp
    qed
    ultimately show ?thesis by (subst lz4_read_ext.simps) (simp add: e)
  qed
qed

lemma lz4_read_len_tail [lr_simps]:
  "lz4_read_len (pre @ lz4_tail n @ rest) (length pre) (min n 15) base
     = Some (length pre + length (lz4_tail n), n + base)"
  by (auto simp: lz4_read_len_def lz4_tail_def lr_simps)

section \<open>Decoding what the compressor wrote\<close>

lemma lz4_copy_length: "length (lz4_copy out off n) = length out + n"
  by (induction n arbitrary: out) auto

text \<open>Copying a match reproduces the source wherever the source repeats at that distance.\<close>

lemma lz4_copy_take:
  assumes "0 < off" "off \<le> i" "i + n \<le> length src"
    and "\<And>k. k < n \<Longrightarrow> src ! (i + k) = src ! (i + k - off)"
  shows "lz4_copy (take i src) off n = take (i + n) src"
  using assms
proof (induction n arbitrary: i)
  case 0
  then show ?case by simp
next
  case (Suc n)
  have "take i src ! (i - off) = src ! i"
    using Suc.prems(4) [of 0] Suc.prems(1,2) by simp
  then have step: "take i src @ [take i src ! (length (take i src) - off)] = take (Suc i) src"
    using Suc.prems(3) by (simp add: take_Suc_conv_app_nth min_def)
  have "src ! (Suc i + k) = src ! (Suc i + k - off)" if "k < n" for k
    using Suc.prems(4) [of "Suc k"] that by simp
  then have "lz4_copy (take (Suc i) src) off n = take (Suc i + n) src"
    using Suc.prems(1-3) by (intro Suc.IH) auto
  then show ?case by (simp add: step del: length_take)
qed

lemma lz4_dstep_seq:
  assumes ml: "4 \<le> ml" and ll: "length lits = ll"
    and off: "0 < off" "off \<le> 65535" "off \<le> length acc + ll"
    and N: "length acc + ll + ml \<le> N"
  shows "lz4_dstep (lz4_put_seq pre lits ll off ml @ rest) N (length pre) acc
     = Inr (length (lz4_put_seq pre lits ll off ml), lz4_copy (acc @ lits) off ml, False)"
proof -
  define t where "t = min ll 15 * 16 + min (ml - 4) 15"
  define lo hi :: byte where "lo = word_of_nat (off mod 256)" and "hi = word_of_nat (off div 256 mod 256)"
  define src where "src = pre @ word_of_nat t # lz4_tail ll @ lits @ [lo, hi] @ lz4_tail (ml - 4) @ rest"
  have src: "lz4_put_seq pre lits ll off ml @ rest = src"
    by (simp add: lz4_put_seq_eq src_def t_def lo_def hi_def)
  have t: "unat (word_of_nat t :: byte) = t" "t div 16 = min ll 15" "t mod 16 = min (ml - 4) 15"
    using unat_byte_of_nat [of t] by (auto simp del: unat_byte_of_nat of_nat_add of_nat_mult simp: t_def)
  define p where "p = length pre + 1 + length (lz4_tail ll)"
  have r1: "lz4_read_len src (length pre + 1) (min ll 15) 0 = Some (p, ll)"
    using lz4_read_len_tail [of "pre @ [word_of_nat t]" ll "lits @ [lo, hi] @ lz4_tail (ml - 4) @ rest" 0]
    by (simp add: src_def p_def)
  have lits: "take ll (drop p src) = lits"
    using ll by (simp add: src_def p_def)
  have nths: "src ! length pre = word_of_nat t" "src ! (p + ll) = lo" "src ! (p + ll + 1) = hi"
    using ll by (simp_all add: src_def p_def nth_append)
  have offs: "unat lo + 256 * unat hi = off"
    using off by (simp add: lo_def hi_def)
  have r2: "lz4_read_len src (p + ll + 2) (min (ml - 4) 15) 4
      = Some (p + ll + 2 + length (lz4_tail (ml - 4)), ml)"
    using lz4_read_len_tail [of "pre @ word_of_nat t # lz4_tail ll @ lits @ [lo, hi]" "ml - 4" rest 4] ml ll
    by (simp add: src_def p_def add.assoc)
  have len: "p + ll + 2 + length (lz4_tail (ml - 4)) + length rest = length src"
    using ll by (simp add: src_def p_def)
  show ?thesis
    unfolding src lz4_dstep_def Let_def nths(1) t r1
    using len ll off N offs
    by (simp add: lits nths [simplified] r2 [simplified] lz4_put_seq_eq p_def [symmetric])
      (simp add: p_def)
qed

lemma lz4_dstep_last:
  assumes "length lits = ll" "length acc + ll \<le> N"
  shows "lz4_dstep (pre @ lz4_lit_token ll @ lits) N (length pre) acc
     = Inr (length (pre @ lz4_lit_token ll @ lits), acc @ lits, True)"
proof -
  define t where "t = min ll 15 * 16"
  define src where "src = pre @ word_of_nat t # lz4_tail ll @ lits"
  have src: "pre @ lz4_lit_token ll @ lits = src"
    by (simp add: lz4_lit_token_eq src_def t_def)
  have t: "unat (word_of_nat t :: byte) = t" "t div 16 = min ll 15"
    using unat_byte_of_nat [of t] by (auto simp del: unat_byte_of_nat of_nat_mult simp: t_def)
  have r1: "lz4_read_len src (length pre + 1) (min ll 15) 0
      = Some (length pre + 1 + length (lz4_tail ll), ll)"
    using lz4_read_len_tail [of "pre @ [word_of_nat t]" ll "lits" 0] by (simp add: src_def)
  have n: "src ! length pre = word_of_nat t" by (simp add: src_def)
  show ?thesis
    unfolding src lz4_dstep_def Let_def n t r1
    using assms by (simp add: src_def)
qed

section \<open>The loop invariant of the compressor\<close>

lemma lz4_extend_matches:
  "match \<le> lz4_extend src cur match r
   \<and> lz4_extend src cur match r \<le> max match (length src - 4)
   \<and> (\<forall>k. match + k < lz4_extend src cur match r \<longrightarrow> src ! (match + k) = src ! (r + k))"
proof (induction src cur match r rule: lz4_extend.induct)
  case (1 src cur match r)
  show ?case
  proof (cases "match < length src - 4 \<and> r < cur \<and> src ! match = src ! r")
    case True
    note IH = "1.IH" [OF True]
    have e: "lz4_extend src cur match r = lz4_extend src cur (match + 1) (r + 1)"
      using True by (simp add: lz4_extend.simps [of src cur match r])
    have "src ! (match + k) = src ! (r + k)"
      if "match + k < lz4_extend src cur (match + 1) (r + 1)" for k
    proof (cases k)
      case 0 then show ?thesis using True by simp
    next
      case (Suc j) then show ?thesis using IH that by (metis add.assoc plus_1_eq_Suc)
    qed
    then show ?thesis using IH True unfolding e by (auto simp: max_def split: if_splits)
  next
    case False
    then show ?thesis by (auto simp: lz4_extend.simps [of src cur match r])
  qed
qed

definition lz4_decodes :: "bytes \<Rightarrow> bytes \<Rightarrow> nat \<Rightarrow> bool" where
  "lz4_decodes src out a \<longleftrightarrow>
     (\<forall>rest. lz4_dloop (out @ rest) (length src) 0 []
           = lz4_dloop (out @ rest) (length src) (length out) (take a src))"

definition lz4_inv :: "bytes \<Rightarrow> lz4_state \<Rightarrow> bool" where
  "lz4_inv src st \<longleftrightarrow>
     anchor st \<le> ip st \<and> anchor st \<le> length src \<and> 1 \<le> stp st \<and>
     (\<forall>h. hash_table st h < int (ip st)) \<and>
     length (op st) \<le> anchor st + anchor st div 255 \<and>
     lz4_decodes src (op st) (anchor st)"

lemma lz4_inv_init: "lz4_inv src lz4_init"
  by (simp add: lz4_inv_def lz4_init_def lz4_decodes_def)

lemma lz4_decodes_seq:
  assumes dec: "lz4_decodes src out a" and "a \<le> i" "4 \<le> ml" "i + ml \<le> length src"
    and off: "0 < off" "off \<le> 65535" "off \<le> i"
    and rep: "\<And>k. k < ml \<Longrightarrow> src ! (i + k) = src ! (i + k - off)"
  shows "lz4_decodes src (lz4_put_seq out (take (i - a) (drop a src)) (i - a) off ml) (i + ml)"
  unfolding lz4_decodes_def
proof
  fix rest
  let ?lits = "take (i - a) (drop a src)"
  let ?seq = "lz4_put_seq out ?lits (i - a) off ml"
  obtain tl where tl: "?seq = out @ tl" "tl \<noteq> []" by (simp add: lz4_put_seq_eq)
  have copy: "lz4_copy (take a src @ ?lits) off ml = take (i + ml) src"
    using assms by (simp add: take_drop_take lz4_copy_take)
  have step: "lz4_dstep (?seq @ rest) (length src) (length out) (take a src)
      = Inr (length ?seq, take (i + ml) src, False)"
    unfolding copy [symmetric]
    using assms by (intro lz4_dstep_seq) auto
  have "lz4_dloop (?seq @ rest) (length src) 0 []
      = lz4_dloop (?seq @ rest) (length src) (length out) (take a src)"
    using dec tl by (simp add: lz4_decodes_def)
  also have "\<dots> = lz4_dloop (?seq @ rest) (length src) (length ?seq) (take (i + ml) src)"
    using tl(2) step by (subst lz4_dloop.simps) (simp add: tl(1))
  finally show "lz4_dloop (?seq @ rest) (length src) 0 []
      = lz4_dloop (?seq @ rest) (length src) (length ?seq) (take (i + ml) src)" .
qed

lemma length_lz4_tail: "length (lz4_tail n) \<le> n div 255 + 1"
  using div_le_mono [of "n - 15" n 255] by (simp add: lz4_tail_def lr_len)

lemma length_lz4_put_seq:
  assumes "length out \<le> a + a div 255" "length lits = ll" "4 \<le> ml"
  shows "length (lz4_put_seq out lits ll off ml) \<le> (a + ll + ml) + (a + ll + ml) div 255"
proof -
  have tail: "3 + length (lz4_tail (ml - 4)) \<le> ml - 1"
  proof (cases "ml - 4 < 15")
    case True
    then show ?thesis using assms(3) by (simp add: lz4_tail_def)
  next
    case False
    then have "length (lz4_tail (ml - 4)) \<le> (ml - 19) div 255 + 1"
      by (simp add: lz4_tail_def lr_len)
    moreover have "(ml - 19) div 255 \<le> ml - 19" by simp
    ultimately show ?thesis using False by linarith
  qed
  have "a div 255 + ll div 255 \<le> (a + ll + ml) div 255"
    using div_superadd [of a 255 ll] div_le_mono [of "a + ll" "a + ll + ml" 255] by linarith
  then show ?thesis
    using assms tail length_lz4_tail [of ll] by (simp add: lz4_put_seq_eq)
qed

lemma lz4_match_repeats:
  assumes m: "lz4_is_match src cur ref" and r: "ref < int cur"
    and k: "k < lz4_extend src cur (cur + 4) (nat ref + 4) - cur"
  shows "src ! (cur + k) = src ! (cur + k - (cur - nat ref))"
proof -
  have dist: "cur + k - (cur - nat ref) = nat ref + k"
    using m r by (simp add: lz4_is_match_def)
  have "src ! (cur + k) = src ! (nat ref + k)"
  proof (cases "k < 4")
    case True
    then have "k = 0 \<or> k = 1 \<or> k = 2 \<or> k = 3" by linarith
    then show ?thesis using m by (auto simp: lz4_is_match_def)
  next
    case False
    then obtain j where j: "k = 4 + j" by (metis le_Suc_ex linorder_not_le)
    with k lz4_extend_matches [of "cur + 4" src cur "nat ref + 4"]
    show ?thesis by (simp add: add.assoc)
  qed
  then show ?thesis by (simp add: dist)
qed

lemma lz4_bound_room:
  "length out \<le> a + a div 255 \<Longrightarrow> a \<le> i \<Longrightarrow> i \<le> n
   \<Longrightarrow> \<not> length out + 1 + (i - a) > LR_LZ4_COMPRESS_BOUND n"
  using div_le_mono [of a n 255] by (simp add: LR_LZ4_COMPRESS_BOUND_def)

lemma lz4_step_inv:
  assumes inv: "lz4_inv src st" and go: "ip st + 5 < length src" and n: "length src < 2 ^ 31"
  shows "\<exists>st'. lz4_step src st = Some st' \<and> lz4_inv src st' \<and> ip st < ip st'"
proof -
  define h where "h = lz4_hash (lz4_read32 src (ip st))"
  define ref where "ref = hash_table st h"
  define ht where "ht = (hash_table st)(h := to_i32 (ip st))"
  have ref: "ref < int (ip st)" using inv by (simp add: lz4_inv_def ref_def)
  have ht: "ht x < int i" if "ip st < i" for x i
  proof -
    have "hash_table st x < int (ip st)" using inv by (simp add: lz4_inv_def)
    then show ?thesis using that go n by (simp add: ht_def)
  qed
  show ?thesis
  proof (cases "lz4_is_match src (ip st) ref")
    case False
    then have "lz4_step src st = Some (st\<lparr>hash_table := ht, ip := ip st + stp st,
        search_match_nb := search_match_nb st + 1, stp := (search_match_nb st + 1) div 2 + 1\<rparr>)"
      by (simp add: lz4_step_def Let_def h_def ref_def ht_def)
    with inv ht [of "ip st + stp st"] show ?thesis by (simp add: lz4_inv_def)
  next
    case True
    define m where "m = lz4_extend src (ip st) (ip st + 4) (nat ref + 4)"
    define ml where "ml = m - ip st"
    define ll where "ll = ip st - anchor st"
    have m: "ip st + 4 \<le> m" "m \<le> length src"
      using lz4_extend_matches [of "ip st + 4" src "ip st" "nat ref + 4"] go
      by (auto simp: m_def max_def split: if_splits)
    have mml: "ip st + ml = m" "4 \<le> ml" using m by (auto simp: ml_def)
    have room: "\<not> length (op st) + 1 + ll > LR_LZ4_COMPRESS_BOUND (length src)"
      unfolding ll_def using inv go by (intro lz4_bound_room) (auto simp: lz4_inv_def)
    have off: "0 < ip st - nat ref" "ip st - nat ref \<le> 65535" "ip st - nat ref \<le> ip st"
      using True ref by (auto simp: lz4_is_match_def)
    have dec: "lz4_decodes src
        (lz4_put_seq (op st) (take ll (drop (anchor st) src)) ll (ip st - nat ref) ml) m"
      unfolding ll_def mml(1) [symmetric]
      using inv off mml m lz4_match_repeats [OF True ref]
      by (intro lz4_decodes_seq) (auto simp: lz4_inv_def ml_def m_def)
    have len: "length (lz4_put_seq (op st) (take ll (drop (anchor st) src)) ll (ip st - nat ref) ml)
        \<le> m + m div 255"
      using length_lz4_put_seq [of "op st" "anchor st" "take ll (drop (anchor st) src)" ll ml "ip st - nat ref"]
        inv go mml by (auto simp: lz4_inv_def ll_def)
    have "lz4_step src st = Some (st\<lparr>hash_table := ht,
        op := lz4_put_seq (op st) (take ll (drop (anchor st) src)) ll (ip st - nat ref) ml,
        ip := m, anchor := m, search_match_nb := 0, stp := ml\<rparr>)"
      using True room
      by (simp add: lz4_step_def Let_def h_def ref_def ht_def m_def ml_def ll_def)
    with dec len m mml ht show ?thesis by (auto simp: lz4_inv_def)
  qed
qed

lemma lz4_loop_ends:
  assumes "lz4_inv src st" "length src < 2 ^ 31"
  shows "\<exists>st'. lz4_loop src st = Some (Some st') \<and> lz4_inv src st'"
  using assms
proof (induction "length src - ip st" arbitrary: st rule: less_induct)
  case less
  show ?case
  proof (cases "ip st + 5 < length src")
    case True
    then obtain st' where st': "lz4_step src st = Some st'" "lz4_inv src st'" "ip st < ip st'"
      using lz4_step_inv less.prems by blast
    then have "\<exists>st''. lz4_loop src st' = Some (Some st'') \<and> lz4_inv src st''"
      using True less by simp
    with True st' show ?thesis by (simp add: lz4_loop.simps [of src st])
  next
    case False
    with less.prems show ?thesis by (simp add: lz4_loop.simps [of src st])
  qed
qed

lemma lz4_finish_decodes:
  assumes "lz4_inv src st"
  shows "\<exists>c. lz4_finish src st = Some c \<and> lr_lz4_decompress c (length src) = Inr src
    \<and> length c \<le> LR_LZ4_COMPRESS_BOUND (length src)"
proof -
  let ?a = "anchor st" let ?ll = "length src - ?a" let ?lits = "take ?ll (drop ?a src)"
  let ?c = "op st @ lz4_lit_token ?ll @ ?lits"
  have dec: "lz4_dloop (op st @ rest) (length src) 0 []
      = lz4_dloop (op st @ rest) (length src) (length (op st)) (take ?a src)" for rest
    using assms by (simp add: lz4_inv_def lz4_decodes_def)
  have room: "\<not> length (op st) + 1 + ?ll > LR_LZ4_COMPRESS_BOUND (length src)"
    using assms by (intro lz4_bound_room) (auto simp: lz4_inv_def)
  show ?thesis
  proof (cases "?ll > 0")
    case True
    have tok: "lz4_lit_token ?ll \<noteq> []" by (simp add: lz4_lit_token_eq)
    have "lz4_dstep ?c (length src) (length (op st)) (take ?a src)
        = Inr (length ?c, take ?a src @ ?lits, True)"
      using assms by (intro lz4_dstep_last) (auto simp: lz4_inv_def)
    then have "lz4_dloop ?c (length src) (length (op st)) (take ?a src) = Inr src"
      using tok by (subst lz4_dloop.simps) simp
    moreover have "length ?c = length (op st) + 1 + length (lz4_tail ?ll) + ?ll"
      by (simp add: lz4_lit_token_eq)
    then have "length ?c \<le> LR_LZ4_COMPRESS_BOUND (length src)"
      using assms length_lz4_tail [of ?ll] div_superadd [of ?a 255 ?ll]
      unfolding LR_LZ4_COMPRESS_BOUND_def lz4_inv_def by linarith
    ultimately show ?thesis
      using True room dec by (simp add: lz4_finish_def lr_lz4_decompress_def)
  next
    case False
    with assms have "?a = length src" by (simp add: lz4_inv_def)
    moreover have "lz4_dloop (op st) (length src) (length (op st)) src = Inr src"
      by (simp add: lz4_dloop.simps)
    ultimately show ?thesis
      using assms dec [of "[]"]
      by (simp add: lz4_finish_def lr_lz4_decompress_def lz4_inv_def LR_LZ4_COMPRESS_BOUND_def)
  qed
qed

lemma lr_lz4_compress_ok:
  assumes "4 \<le> length src" "length src < 2 ^ 31"
  shows "\<exists>c. lr_lz4_compress True src = Some (Some c) \<and> lr_lz4_decompress c (length src) = Inr src
    \<and> length c \<le> LR_LZ4_COMPRESS_BOUND (length src)"
proof -
  obtain st where "lz4_loop src lz4_init = Some (Some st)" "lz4_inv src st"
    using lz4_loop_ends [OF lz4_inv_init assms(2)] by blast
  with assms lz4_finish_decodes [of src st] show ?thesis
    by (auto simp: lr_lz4_compress_def)
qed

section \<open>Properties\<close>

text \<open>(C3) Round trip of the codec: an input of at least four bytes (and below 2 GiB, where the
  \<open>int\<close> positions of the hash table are exact) is always compressed, and decompressing the
  block with the original length gives the input back.\<close>

theorem lz4_roundtrip:
  assumes "4 \<le> length src" "length src < 2 ^ 31"
  shows "\<exists>c. lr_lz4_compress True src = Some (Some c) \<and> lr_lz4_decompress c (length src) = Inr src"
  using lr_lz4_compress_ok [OF assms] by blast

theorem lz4_roundtrip_witness:
  "\<exists>c. lr_lz4_compress True [1, 2, 3, 1, 2, 3, 1, 2, 3, 1, 2, 3] = Some (Some c)
     \<and> lr_lz4_decompress c (length [1, 2, 3, 1, 2, 3, 1, 2, 3, 1, 2, 3 :: byte])
         = Inr [1, 2, 3, 1, 2, 3, 1, 2, 3, 1, 2, 3]"
  by (rule lz4_roundtrip) simp_all

text \<open>(C15) The compressed block never exceeds \<open>LR_LZ4_COMPRESS_BOUND\<close>, the size of the buffer
  the caller provides, although the code's own check ignores the length extension bytes.\<close>

theorem lz4_compress_bound:
  assumes "lr_lz4_compress table_ok src = Some (Some c)" "length src < 2 ^ 31"
  shows "length c \<le> LR_LZ4_COMPRESS_BOUND (length src)"
  using assms lr_lz4_compress_ok [of src]
  by (cases table_ok) (auto simp: lr_lz4_compress_def split: if_splits)

theorem lz4_compress_bound_witness:
  "\<exists>c. lr_lz4_compress True [1, 1, 1, 1, 1, 1, 1, 1, 1] = Some (Some c)
     \<and> length c \<le> LR_LZ4_COMPRESS_BOUND (length [1, 1, 1, 1, 1, 1, 1, 1, 1 :: byte])"
proof -
  obtain c where c: "lr_lz4_compress True [1, 1, 1, 1, 1, 1, 1, 1, 1] = Some (Some c)"
    using lr_lz4_compress_ok [of "[1, 1, 1, 1, 1, 1, 1, 1, 1]"] by auto
  then show ?thesis using lz4_compress_bound [OF c] by auto
qed

lemma lz4_dstep_fits:
  "lz4_dstep src n p out = Inr (q, out', b) \<Longrightarrow> length out' \<le> n"
  "lz4_dstep src n p out = Inl (e, out') \<Longrightarrow> length out \<le> n \<Longrightarrow> length out' \<le> n"
  unfolding lz4_dstep_def Let_def
  by (auto simp: lz4_copy_length split: option.splits prod.splits if_splits)

abbreviation written :: "(lz4_error \<times> bytes) + bytes \<Rightarrow> bytes" where
  "written r \<equiv> (case r of Inl (e, out) \<Rightarrow> out | Inr out \<Rightarrow> out)"

lemma lz4_dloop_fits: "length out \<le> n \<Longrightarrow> length (written (lz4_dloop src n p out)) \<le> n"
proof (induction src n p out rule: lz4_dloop.induct)
  case (1 src n p out)
  show ?case
  proof (cases "p < length src")
    case True
    show ?thesis
    proof (cases "lz4_dstep src n p out")
      case (Inl x)
      then show ?thesis
        using True lz4_dstep_fits(2) "1.prems" by (cases x) (auto simp: lz4_dloop.simps [of src n p out])
    next
      case (Inr r)
      then obtain q out' b where d: "lz4_dstep src n p out = Inr (q, out', b)"
        by (cases r) auto
      then show ?thesis
        using True "1.IH" [OF True d refl refl] lz4_dstep_fits(1) [OF d]
        by (cases b) (auto simp: lz4_dloop.simps [of src n p out])
    qed
  next
    case False
    with "1.prems" show ?thesis by (simp add: lz4_dloop.simps [of src n p out])
  qed
qed

text \<open>(C13) On any input, well formed or not, and whether it succeeds or fails, the decompressor writes at most the
  \<open>dst_len\<close> bytes of its output buffer.\<close>

theorem lz4_decompress_fits:
  "length (case lr_lz4_decompress src dst_len of Inl (e, out) \<Rightarrow> out | Inr out \<Rightarrow> out) \<le> dst_len"
  unfolding lr_lz4_decompress_def by (rule lz4_dloop_fits) simp

lemma lz4_read_ext_runs_out: "lz4_read_ext (pre @ replicate k 255) (length pre) len = None"
proof (induction k arbitrary: pre len)
  case 0
  then show ?case by (simp add: lz4_read_ext.simps)
next
  case (Suc k)
  from Suc [of "pre @ [255]" "len + 255"] show ?case
    by (subst lz4_read_ext.simps) (simp add: nth_append)
qed

text \<open>The length-extension loop has no bound check: a block that ends inside a literal
  length (a token \<open>0xF0\<close> followed by any number of \<open>0xFF\<close> bytes) makes the decompressor
  read past the end of its input.\<close>

theorem lz4_decompress_overread:
  "lr_lz4_decompress (0xF0 # replicate k 0xFF) dst_len = Inl (Lz4_OverRead, [])"
proof -
  have "lz4_read_ext (0xF0 # replicate k 0xFF) 1 15 = None"
    using lz4_read_ext_runs_out [of "[0xF0]" k 15] by simp
  then show ?thesis
    by (simp add: lr_lz4_decompress_def lz4_dloop.simps lz4_dstep_def lz4_read_len_def)
qed

lemma compress_wrapper_ok:
  assumes "length data < 2 ^ 31"
  shows "\<exists>buf was n. lr_compress_if_beneficial True buf_ok table_ok over_ratio data = Some (Some buf, was, n)
     \<and> n = length buf \<and> lr_decompress_if_needed True True buf was = Inr (Some data)
     \<and> (\<not> was \<longrightarrow> buf = data) \<and> length buf \<le> LR_LZ4_COMPRESS_BOUND (length data) + 4"
proof -
  let ?comp = "lr_compress_if_beneficial True buf_ok table_ok over_ratio data"
  let ?n = "word_of_nat (length data) :: u32"
  have raw: "lr_decompress_if_needed True True data False = Inr (Some data)"
    by (simp add: lr_decompress_if_needed_def)
  consider "?comp = Some (Some data, False, length data)"
    | c where "?comp = Some (Some (put_u32 ?n @ c), True, length c + 4)"
        "lr_lz4_decompress c (length data) = Inr data" "length c \<le> LR_LZ4_COMPRESS_BOUND (length data)"
  proof (cases "64 \<le> length data \<and> buf_ok \<and> table_ok")
    case True
    then obtain c where "lr_lz4_compress True data = Some (Some c)"
        "lr_lz4_decompress c (length data) = Inr data" "length c \<le> LR_LZ4_COMPRESS_BOUND (length data)"
      using lr_lz4_compress_ok [of data] assms by auto
    with True that show ?thesis
      by (cases "length c = 0 \<or> over_ratio (length c) (length data)")
        (auto simp: lr_compress_if_beneficial_def)
  next
    case False
    then have "?comp = Some (Some data, False, length data)"
      by (auto simp: lr_compress_if_beneficial_def lr_lz4_compress_def Let_def)
    with that(1) show ?thesis .
  qed
  then show ?thesis
  proof cases
    case 1
    with raw show ?thesis by (auto simp: LR_LZ4_COMPRESS_BOUND_def)
  next
    case (2 c)
    have "unat ?n = length data" using assms by (simp add: unat_of_nat)
    moreover have "get_u32 (put_u32 ?n @ c) 0 = ?n" using get_put_u32 [of "[]" ?n c] by simp
    ultimately have "lr_decompress_if_needed True True (put_u32 ?n @ c) True = Inr (Some data)"
      using 2(2) by (simp add: lr_decompress_if_needed_def)
    with 2(1,3) show ?thesis by auto
  qed
qed

text \<open>(C14) Round trip of the wrappers: whatever the compressibility test decides, what
  \<open>lr_compress_if_beneficial\<close> returns is turned back into the original data by
  \<open>lr_decompress_if_needed\<close>, given the flag and when memory is available.\<close>

theorem lr_compress_wrapper_roundtrip:
  assumes "length data < 2 ^ 31"
  shows "\<exists>buf was n. lr_compress_if_beneficial True buf_ok table_ok over_ratio data = Some (Some buf, was, n)
     \<and> n = length buf \<and> lr_decompress_if_needed True True buf was = Inr (Some data)"
  using compress_wrapper_ok [OF assms] by blast

theorem lr_compress_wrapper_roundtrip_witness:
  "\<exists>buf was n. lr_compress_if_beneficial True True True (\<lambda>_ _. False) (replicate 100 7) = Some (Some buf, was, n)
     \<and> n = length buf \<and> lr_decompress_if_needed True True buf was = Inr (Some (replicate 100 7))"
  by (rule lr_compress_wrapper_roundtrip) simp

end
