(* ===== verification/LR_Value.thy ===== *)
theory LR_Value
  imports LR_Prelude
begin

unbundle bit_operations_syntax

text \<open>
  Tagged values (\<open>LRValue\<close> of \<^verbatim>\<open>src/engine/lr_engine.h\<close>) and the two key functions that
  \<^verbatim>\<open>src/lr_map.c\<close> and \<^verbatim>\<open>src/lr_set.c\<close> share: the SameValueZero comparison and the djb2 hash.

  A double is its 64-bit IEEE 754 pattern, so that equality and the byte-wise hash are
  both exact; a string is its bytes; an object or a symbol is its address.
\<close>

section \<open>Values\<close>

datatype lr_value =
    LR_UNDEFINED
  | LR_NULL
  | LR_BOOL bool
  | LR_INT32 u32
  | LR_FLOAT64 u64
  | LR_STRING bytes
  | LR_OBJECT u64
  | LR_SYMBOL u64
  | LR_EXCEPTION

section \<open>IEEE 754 comparison on bit patterns\<close>

definition f64_abs_bits :: "u64 \<Rightarrow> u64" where
  "f64_abs_bits d = d AND 0x7FFFFFFFFFFFFFFF"

definition f64_isnan :: "u64 \<Rightarrow> bool" where
  "f64_isnan d \<longleftrightarrow> f64_abs_bits d > 0x7FF0000000000000"

definition f64_eq :: "u64 \<Rightarrow> u64 \<Rightarrow> bool" where
  "f64_eq a b \<longleftrightarrow> \<not> f64_isnan a \<and> \<not> f64_isnan b \<and>
     (a = b \<or> (f64_abs_bits a = 0 \<and> f64_abs_bits b = 0))"

section \<open>SameValueZero\<close>

text \<open>Different tags compare unequal, and \<open>default: return 0\<close> covers the exception tag.\<close>

fun same_value_zero :: "lr_value \<Rightarrow> lr_value \<Rightarrow> bool" where
  "same_value_zero LR_UNDEFINED w = (case w of LR_UNDEFINED \<Rightarrow> True | _ \<Rightarrow> False)"
| "same_value_zero LR_NULL w = (case w of LR_NULL \<Rightarrow> True | _ \<Rightarrow> False)"
| "same_value_zero (LR_BOOL a) w = (case w of LR_BOOL b \<Rightarrow> a = b | _ \<Rightarrow> False)"
| "same_value_zero (LR_INT32 a) w = (case w of LR_INT32 b \<Rightarrow> a = b | _ \<Rightarrow> False)"
| "same_value_zero (LR_FLOAT64 a) w =
     (case w of LR_FLOAT64 b \<Rightarrow> if f64_isnan a \<and> f64_isnan b then True else f64_eq a b
      | _ \<Rightarrow> False)"
| "same_value_zero (LR_STRING a) w =
     (case w of LR_STRING b \<Rightarrow> if length a \<noteq> length b then False else a = b | _ \<Rightarrow> False)"
| "same_value_zero (LR_OBJECT a) w = (case w of LR_OBJECT b \<Rightarrow> a = b | _ \<Rightarrow> False)"
| "same_value_zero (LR_SYMBOL a) w = (case w of LR_SYMBOL b \<Rightarrow> a = b | _ \<Rightarrow> False)"
| "same_value_zero LR_EXCEPTION w = False"

section \<open>djb2\<close>

definition djb2_byte :: "byte \<Rightarrow> u32 \<Rightarrow> u32" where
  "djb2_byte b h = h * 33 + ucast b"

definition djb2 :: "bytes \<Rightarrow> u32 \<Rightarrow> u32" where
  "djb2 bs h = fold djb2_byte bs h"

text \<open>The byte loops: \<open>hash * 33 + (uint8_t)(h & 0xff); h >>= 8\<close>, least significant byte first.\<close>

fun le_bytes :: "nat \<Rightarrow> u64 \<Rightarrow> bytes" where
  "le_bytes 0 h = []"
| "le_bytes (Suc n) h = ucast (h AND 0xFF) # le_bytes n (drop_bit 8 h)"

fun hash_raw :: "lr_value \<Rightarrow> u32" where
  "hash_raw LR_UNDEFINED = 5381 * 33 + 0"
| "hash_raw LR_NULL = 5381 * 33 + 1"
| "hash_raw (LR_BOOL b) = 5381 * 33 + (if b then 2 else 3)"
| "hash_raw (LR_INT32 i) = djb2 (put_u32 i) 5381"
| "hash_raw (LR_FLOAT64 d) = djb2 (le_bytes 8 d) 5381"
| "hash_raw (LR_STRING s) = djb2 s 5381"
| "hash_raw (LR_OBJECT p) = djb2 (le_bytes 8 p) 5381"
| "hash_raw (LR_SYMBOL p) = djb2 (le_bytes 8 p) 5381"
| "hash_raw LR_EXCEPTION = 5381"

definition hash_value :: "lr_value \<Rightarrow> u32" where
  "hash_value v = hash_raw v AND 0x7FFFFFFF"

text \<open>The test every probe makes: equal stored hash and SameValueZero.\<close>

definition key_match :: "lr_value \<Rightarrow> lr_value \<Rightarrow> bool" where
  "key_match a b \<longleftrightarrow> hash_value a = hash_value b \<and> same_value_zero a b"

section \<open>Laws\<close>

lemma f64_eq_sym: "f64_eq a b \<Longrightarrow> f64_eq b a"
  by (auto simp: f64_eq_def)

lemma f64_eq_trans: "f64_eq a b \<Longrightarrow> f64_eq b c \<Longrightarrow> f64_eq a c"
  by (auto simp: f64_eq_def)

lemma same_value_zero_sym: "same_value_zero a b \<Longrightarrow> same_value_zero b a"
  by (cases a) (auto simp: f64_eq_sym split: if_splits lr_value.splits)

lemma same_value_zero_trans: "same_value_zero a b \<Longrightarrow> same_value_zero b c \<Longrightarrow> same_value_zero a c"
  by (cases a) (auto simp: f64_eq_def split: if_splits lr_value.splits)

lemma same_value_zero_refl: "v \<noteq> LR_EXCEPTION \<Longrightarrow> same_value_zero v v"
  by (cases v) (auto simp: f64_eq_def)

lemma key_match_sym: "key_match a b \<Longrightarrow> key_match b a"
  by (auto simp: key_match_def same_value_zero_sym)

lemma key_match_trans: "key_match a b \<Longrightarrow> key_match b c \<Longrightarrow> key_match a c"
  by (auto simp: key_match_def intro: same_value_zero_trans)

lemma key_match_refl: "v \<noteq> LR_EXCEPTION \<Longrightarrow> key_match v v"
  by (simp add: key_match_def same_value_zero_refl)

text \<open>SameValueZero on every value the engine can hold as a key is an equivalence: \<open>NaN\<close>
  equals \<open>NaN\<close>, the two zeros are equal, and no other two doubles with different bits are.\<close>

theorem same_value_zero_equivalence:
  "(v \<noteq> LR_EXCEPTION \<longrightarrow> same_value_zero v v)
   \<and> same_value_zero a b = same_value_zero b a
   \<and> (same_value_zero a b \<and> same_value_zero b c \<longrightarrow> same_value_zero a c)"
  using same_value_zero_refl same_value_zero_sym same_value_zero_trans by blast

theorem same_value_zero_equivalence_witness:
  "same_value_zero (LR_FLOAT64 0x8000000000000000) (LR_FLOAT64 0)
   \<and> same_value_zero (LR_FLOAT64 0) (LR_FLOAT64 0x8000000000000000)
   \<and> same_value_zero (LR_FLOAT64 0x7FF8000000000000) (LR_FLOAT64 0x7FF8000000000000)"
proof -
  have "same_value_zero (LR_FLOAT64 0x8000000000000000) (LR_FLOAT64 0)"
    by (simp add: f64_eq_def f64_isnan_def f64_abs_bits_def)
  then show ?thesis
    using same_value_zero_equivalence
      [of "LR_FLOAT64 0x7FF8000000000000" "LR_FLOAT64 0x8000000000000000" "LR_FLOAT64 0"]
    by blast
qed

text \<open>The hash is not compatible with SameValueZero: \<open>0\<close> and \<open>-0\<close> (as doubles) are
  SameValueZero-equal but hash differently, so a probe never matches one for the other.\<close>

theorem zero_keys_do_not_match:
  "same_value_zero (LR_FLOAT64 0) (LR_FLOAT64 0x8000000000000000)
   \<and> \<not> key_match (LR_FLOAT64 0) (LR_FLOAT64 0x8000000000000000)"
proof
  show "same_value_zero (LR_FLOAT64 0) (LR_FLOAT64 0x8000000000000000)"
    by (simp add: f64_eq_def f64_isnan_def f64_abs_bits_def)
  have "hash_value (LR_FLOAT64 0) \<noteq> hash_value (LR_FLOAT64 0x8000000000000000)"
    by code_simp
  then show "\<not> key_match (LR_FLOAT64 0) (LR_FLOAT64 0x8000000000000000)"
    by (simp add: key_match_def)
qed

end
