(* ===== verification/LR_Table.thy ===== *)
theory LR_Table
  imports LR_Value "HOL-Library.Multiset"
begin

unbundle bit_operations_syntax

text \<open>
  Linear probing in a table whose size is a power of two, the loop skeleton that
  \<^verbatim>\<open>src/lr_map.c\<close> and \<^verbatim>\<open>src/lr_set.c\<close> share, and the contract \<open>key_table\<close> of a table
  that is filled by insertions and read by key.
\<close>

section \<open>Slots\<close>

text \<open>\<open>hash & (capacity - 1)\<close> and \<open>idx = (idx + 1) & (capacity - 1)\<close>.\<close>

definition slot_of :: "u32 \<Rightarrow> nat \<Rightarrow> nat" where
  "slot_of h cap = unat (h AND (word_of_nat cap - 1))"

definition next_slot :: "nat \<Rightarrow> nat \<Rightarrow> nat" where
  "next_slot cap idx = unat ((word_of_nat idx + 1 :: u32) AND (word_of_nat cap - 1))"

text \<open>
  \<open>for (i = 0; i < n; i++) { if (P(idx)) ...; idx = (idx + 1) & (capacity - 1); }\<close>:
  the first slot of the probe sequence that satisfies the test.
\<close>

fun probe_find :: "(nat \<Rightarrow> bool) \<Rightarrow> nat \<Rightarrow> nat \<Rightarrow> nat \<Rightarrow> nat option" where
  "probe_find P cap idx 0 = None"
| "probe_find P cap idx (Suc n) =
     (if P idx then Some idx else probe_find P cap (next_slot cap idx) n)"

definition cap_ok :: "nat \<Rightarrow> bool" where
  "cap_ok cap \<longleftrightarrow> (\<exists>k. 1 \<le> k \<and> k \<le> 31 \<and> cap = 2 ^ k)"

section \<open>Laws of the probe sequence\<close>

lemma cap_okD:
  assumes "cap_ok cap"
  shows "0 < cap \<and> cap \<le> 2 ^ 31"
proof -
  obtain k where "k \<le> 31" "cap = 2 ^ k" using assms by (auto simp: cap_ok_def)
  then show ?thesis using power_increasing [of k 31 "2::nat"] by simp
qed

lemma unat_and_cap:
  assumes "cap_ok cap"
  shows "unat ((w :: u32) AND (word_of_nat cap - 1)) = unat w mod cap"
proof -
  obtain k where k: "k \<le> 31" "cap = 2 ^ k" using assms by (auto simp: cap_ok_def)
  then have "(word_of_nat cap - 1 :: u32) = mask k"
    by (simp add: mask_eq_exp_minus_1)
  then have "unat (w AND (word_of_nat cap - 1)) = unat (take_bit k w)"
    by (simp add: take_bit_eq_mask)
  also have "\<dots> = take_bit k (unat w)" by (rule unsigned_take_bit_eq)
  finally show ?thesis using k by (simp add: take_bit_eq_mod)
qed

lemma slot_of_mod: "cap_ok cap \<Longrightarrow> slot_of h cap = unat h mod cap"
  by (simp add: slot_of_def unat_and_cap)

lemma slot_of_less: "cap_ok cap \<Longrightarrow> slot_of h cap < cap"
  by (simp add: slot_of_mod cap_okD)

lemma next_slot_mod:
  assumes "cap_ok cap" "idx < cap"
  shows "next_slot cap idx = (idx + 1) mod cap"
proof -
  have "cap \<le> 2 ^ 31" using assms(1) cap_okD by blast
  then have "unat (word_of_nat (idx + 1) :: u32) = idx + 1"
    using assms(2) by (subst unat_of_nat) simp
  then have "unat (word_of_nat idx + 1 :: u32) = idx + 1"
    by (simp add: add.commute)
  then show ?thesis using assms(1) by (simp add: next_slot_def unat_and_cap)
qed

lemma probe_find_Some:
  assumes "cap_ok cap" "idx < cap" "probe_find P cap idx n = Some i"
  shows "\<exists>m<n. i = (idx + m) mod cap \<and> P i \<and> (\<forall>m'<m. \<not> P ((idx + m') mod cap))"
  using assms(2,3)
proof (induction n arbitrary: idx)
  case 0
  then show ?case by simp
next
  case (Suc n)
  show ?case
  proof (cases "P idx")
    case True
    with Suc.prems show ?thesis by (intro exI [of _ 0]) auto
  next
    case False
    let ?j = "(idx + 1) mod cap"
    have "?j < cap" using assms(1) cap_okD by simp
    moreover have "probe_find P cap ?j n = Some i"
      using Suc.prems False assms(1) by (simp add: next_slot_mod)
    ultimately obtain m where m: "m < n" "i = (?j + m) mod cap" "P i"
        "\<forall>m'<m. \<not> P ((?j + m') mod cap)"
      using Suc.IH by blast
    have sh: "(?j + q) mod cap = (idx + Suc q) mod cap" for q
      by (simp add: mod_add_left_eq)
    have "\<not> P ((idx + m') mod cap)" if "m' < Suc m" for m'
      using that False m(4) Suc.prems(1) sh by (cases m') auto
    with m sh show ?thesis by (intro exI [of _ "Suc m"]) auto
  qed
qed

lemma probe_find_None:
  assumes "cap_ok cap" "idx < cap" "probe_find P cap idx n = None"
  shows "\<forall>m<n. \<not> P ((idx + m) mod cap)"
  using assms(2,3)
proof (induction n arbitrary: idx)
  case 0
  then show ?case by simp
next
  case (Suc n)
  let ?j = "(idx + 1) mod cap"
  have "?j < cap" using assms(1) cap_okD by simp
  moreover have "\<not> P idx" "probe_find P cap ?j n = None"
    using Suc.prems assms(1) by (auto simp: next_slot_mod split: if_splits)
  ultimately have "\<forall>m<n. \<not> P ((?j + m) mod cap)" by (rule_tac Suc.IH)
  moreover have "(?j + q) mod cap = (idx + Suc q) mod cap" for q
    by (simp add: mod_add_left_eq)
  ultimately have "\<forall>m. m < n \<longrightarrow> \<not> P ((idx + Suc m) mod cap)" by simp
  with \<open>\<not> P idx\<close> Suc.prems(1) show ?case by (auto simp: less_Suc_eq_0_disj)
qed

text \<open>\<open>capacity\<close> steps visit every slot.\<close>

lemma probe_covers:
  assumes "(idx::nat) < cap" "i < cap"
  shows "\<exists>m<cap. i = (idx + m) mod cap"
proof (cases "idx \<le> i")
  case True
  with assms show ?thesis by (intro exI [of _ "i - idx"]) auto
next
  case False
  with assms have "(idx + (cap - idx + i)) mod cap = i" by simp
  with False assms show ?thesis by (intro exI [of _ "cap - idx + i"]) auto
qed

lemma probe_find_all_Some:
  assumes "cap_ok cap" "idx < cap" "probe_find P cap idx cap = Some i"
  shows "i < cap \<and> P i"
  using probe_find_Some [OF assms] assms cap_okD by auto

lemma probe_find_all_None:
  assumes "cap_ok cap" "idx < cap" "probe_find P cap idx cap = None" "i < cap"
  shows "\<not> P i"
  using probe_find_None [OF assms(1-3)] probe_covers [OF assms(2,4)] by blast

section \<open>Receivers and results of the prototype methods\<close>

text \<open>
  \<open>this_val\<close> of a method: not an object, an object without the opaque data pointer, or an
  object with it. A method returns a value, \<open>this_val\<close> itself, or throws a TypeError.
\<close>

datatype 'm receiver = NotObject | NoData | Data 'm

datatype js_ret = Ret lr_value | RetThis | TypeError string

text \<open>\<open>(argc > n) ? argv[n] : LR_VALUE_UNDEFINED\<close>\<close>

definition arg :: "lr_value list \<Rightarrow> nat \<Rightarrow> lr_value" where
  "arg argv n = (if n < length argv then argv ! n else LR_UNDEFINED)"

lemma arg_Cons [simp]: "arg (v # vs) 0 = v" "arg (v # vs) (Suc n) = arg vs n" "arg [] n = LR_UNDEFINED"
  by (simp_all add: arg_def)

text \<open>
  The argument of a constructor: missing, undefined or null; an array; an object with the
  iterator protocol, by the items it delivers before it is done, throws or has no \<open>next\<close>
  function; anything else. A constructor returns the object or an exception.
\<close>

datatype 'a iterable = Absent | Array_of "'a list" | Iterator_of "'a list" | Not_iterable

definition iterable_items :: "'a iterable \<Rightarrow> 'a list" where
  "iterable_items it =
     (case it of Absent \<Rightarrow> [] | Array_of xs \<Rightarrow> xs | Iterator_of xs \<Rightarrow> xs | Not_iterable \<Rightarrow> [])"

datatype 'm ctor = Constructed 'm | Ctor_exception

text \<open>Iterators: \<open>Next (Some x)\<close> is \<open>{value: x, done: false}\<close>, \<open>Next None\<close> is \<open>done: true\<close>.\<close>

datatype iter_kind = Iter_keys | Iter_values | Iter_entries

datatype iter_item = Item_value lr_value | Item_pair lr_value lr_value

datatype next_ret = Next "iter_item option" | Next_error string

section \<open>Contract of a keyed table\<close>

text \<open>
  Filling a table from a list of pairs: the table and the pairs that were stored. The
  constructors ignore a failed insertion and go on with the next pair.
\<close>

primrec put_all :: "('t \<Rightarrow> 'k \<Rightarrow> 'v \<Rightarrow> 't \<times> bool) \<Rightarrow> 't \<Rightarrow> ('k \<times> 'v) list \<Rightarrow> 't \<times> ('k \<times> 'v) list" where
  "put_all put t [] = (t, [])"
| "put_all put t (kv # kvs) =
     (let r = put t (fst kv) (snd kv); s = put_all put (fst r) kvs
      in (fst s, if snd r then kv # snd s else snd s))"

text \<open>
  What a client relies on: a successful insertion makes the value readable under every
  matching key and changes no other key, a failed one changes nothing, and the invariant
  is kept. \<open>mtch\<close> need not be reflexive.
\<close>

locale key_table =
  fixes lookup :: "'t \<Rightarrow> 'k \<Rightarrow> 'v option"
    and put :: "'t \<Rightarrow> 'k \<Rightarrow> 'v \<Rightarrow> 't \<times> bool"
    and mtch :: "'k \<Rightarrow> 'k \<Rightarrow> bool"
    and invar :: "'t \<Rightarrow> bool"
  assumes invar_put: "invar t \<Longrightarrow> invar (fst (put t k v))"
    and lookup_put: "invar t \<Longrightarrow> snd (put t k v) \<Longrightarrow>
          lookup (fst (put t k v)) k' = (if mtch k k' then Some v else lookup t k')"
    and lookup_put_fail: "invar t \<Longrightarrow> \<not> snd (put t k v) \<Longrightarrow>
          lookup (fst (put t k v)) k' = lookup t k'"
begin

lemma invar_put_all: "invar t \<Longrightarrow> invar (fst (put_all put t kvs))"
  by (induction kvs arbitrary: t) (auto simp: invar_put Let_def)

text \<open>A key reads the last stored pair that matches it.\<close>

lemma lookup_put_all:
  "invar t \<Longrightarrow> lookup (fst (put_all put t kvs)) k' =
     (case find (\<lambda>kv. mtch (fst kv) k') (rev (snd (put_all put t kvs))) of
        Some kv \<Rightarrow> Some (snd kv) | None \<Rightarrow> lookup t k')"
proof (induction kvs arbitrary: t)
  case Nil
  then show ?case by simp
next
  case (Cons kv kvs)
  let ?t = "fst (put t (fst kv) (snd kv))"
  have IH: "lookup (fst (put_all put ?t kvs)) k' =
     (case find (\<lambda>kv. mtch (fst kv) k') (rev (snd (put_all put ?t kvs))) of
        Some kv \<Rightarrow> Some (snd kv) | None \<Rightarrow> lookup ?t k')"
    using Cons by (simp add: invar_put)
  have app: "find P (xs @ [x]) = (case find P xs of Some y \<Rightarrow> Some y
      | None \<Rightarrow> if P x then Some x else None)" for P and x :: "'k \<times> 'v" and xs
    by (induction xs) auto
  show ?case
    using IH Cons.prems lookup_put [of t "fst kv" "snd kv" k'] lookup_put_fail [of t "fst kv" "snd kv" k']
    by (auto simp: Let_def app split: option.splits)
qed

end

end
