(* ===== verification/LR_Map.thy ===== *)
theory LR_Map
  imports LR_Table
begin

unbundle bit_operations_syntax

text \<open>
  The Map builtin, \<^verbatim>\<open>src/lr_map.c\<close>: an open-addressing hash table with tombstones
  (\<open>LRMapData\<close>), the \<open>map_data_\<close> operations and the methods of \<open>Map.prototype\<close>.

  Counters are natural numbers (\<open>count\<close> is only decremented for a live entry). The load
  factor test divides by a power of two, so its floating-point form is exact and is
  written with integers. \<open>alloc_ok\<close> is the outcome of the \<open>calloc\<close> of a resize; a
  doubled m_capacity that no longer fits \<open>int32_t\<close> counts as a failed one. The outer
  \<open>option\<close> of an operation is \<open>None\<close> where a C loop would not end.
\<close>

section \<open>Data\<close>

record map_entry =
  e_key :: lr_value
  e_value :: lr_value
  e_hash :: u32
  e_alive :: bool

record map_data =
  m_entries :: "map_entry list"
  m_count :: nat
  m_capacity :: nat
  m_iter_count :: u32

definition MAP_TOMBSTONE_HASH :: u32 where
  "MAP_TOMBSTONE_HASH = 0x80000000"

definition empty_entry :: map_entry where
  "empty_entry = \<lparr>e_key = LR_UNDEFINED, e_value = LR_UNDEFINED, e_hash = 0, e_alive = False\<rparr>"

definition is_tombstone :: "map_entry \<Rightarrow> bool" where
  "is_tombstone e \<longleftrightarrow> e_hash e = MAP_TOMBSTONE_HASH \<and> \<not> e_alive e"

definition map_data_new :: map_data where
  "map_data_new = \<lparr>m_entries = replicate 16 empty_entry, m_count = 0, m_capacity = 16, m_iter_count = 0\<rparr>"

section \<open>Resize and set\<close>

fun map_rehash :: "map_entry list \<Rightarrow> nat \<Rightarrow> map_entry list \<Rightarrow> nat \<Rightarrow> (map_entry list \<times> nat) option" where
  "map_rehash [] cap es n = Some (es, n)"
| "map_rehash (e # old) cap es n =
     (if e_alive e then
        (case probe_find (\<lambda>i. \<not> e_alive (es ! i)) cap (slot_of (e_hash e) cap) cap of
           None \<Rightarrow> None
         | Some i \<Rightarrow> map_rehash old cap (es[i := e]) (n + 1))
      else map_rehash old cap es n)"

definition map_data_resize :: "bool \<Rightarrow> map_data \<Rightarrow> nat \<Rightarrow> (map_data \<times> bool) option" where
  "map_data_resize alloc_ok md new_capacity =
     (if \<not> alloc_ok \<or> new_capacity \<ge> 2 ^ 31 then Some (md, False)
      else case map_rehash (m_entries md) new_capacity (replicate new_capacity empty_entry) 0 of
             None \<Rightarrow> None
           | Some (es, n) \<Rightarrow>
               Some (md\<lparr>m_entries := es, m_capacity := new_capacity, m_count := n\<rparr>, True))"

datatype map_slot = Insert_at nat | Update_at nat

text \<open>The scan of \<open>map_data_set\<close>; \<open>tomb\<close> is the first tombstone seen.\<close>

fun map_set_loop :: "map_entry list \<Rightarrow> nat \<Rightarrow> lr_value \<Rightarrow> u32 \<Rightarrow> nat option \<Rightarrow> nat \<Rightarrow> nat \<Rightarrow> map_slot option" where
  "map_set_loop es cap k h tomb idx 0 = None"
| "map_set_loop es cap k h tomb idx (Suc n) =
     (if is_tombstone (es ! idx) then
        map_set_loop es cap k h (case tomb of None \<Rightarrow> Some idx | Some t \<Rightarrow> Some t) (next_slot cap idx) n
      else if \<not> e_alive (es ! idx) then
        Some (Insert_at (case tomb of None \<Rightarrow> idx | Some t \<Rightarrow> t))
      else if e_hash (es ! idx) = h \<and> same_value_zero (e_key (es ! idx)) k then
        Some (Update_at idx)
      else map_set_loop es cap k h tomb (next_slot cap idx) n)"

definition map_store :: "map_data \<Rightarrow> lr_value \<Rightarrow> lr_value \<Rightarrow> map_data \<times> bool" where
  "map_store md k v =
     (let h = hash_value k in
      case map_set_loop (m_entries md) (m_capacity md) k h None (slot_of h (m_capacity md)) (m_capacity md) of
        Some (Insert_at t) \<Rightarrow>
          (md\<lparr>m_entries := (m_entries md)[t := \<lparr>e_key = k, e_value = v, e_hash = h, e_alive = True\<rparr>],
              m_count := m_count md + 1, m_iter_count := m_iter_count md + 1\<rparr>, True)
      | Some (Update_at i) \<Rightarrow>
          (md\<lparr>m_entries := (m_entries md)[i := (m_entries md ! i)\<lparr>e_value := v\<rparr>]\<rparr>, True)
      | None \<Rightarrow> (md, False))"

text \<open>The flag of the result is \<open>True\<close> for \<open>return 0\<close>, \<open>False\<close> for \<open>return -1\<close>.\<close>

definition map_data_set :: "bool \<Rightarrow> map_data \<Rightarrow> lr_value \<Rightarrow> lr_value \<Rightarrow> (map_data \<times> bool) option" where
  "map_data_set alloc_ok md k v =
     (if 4 * (m_count md + 1) > 3 * m_capacity md then
        (case map_data_resize alloc_ok md (m_capacity md * 2) of
           None \<Rightarrow> None
         | Some (md', False) \<Rightarrow> Some (md', False)
         | Some (md', True) \<Rightarrow> Some (map_store md' k v))
      else Some (map_store md k v))"

section \<open>Map.prototype\<close>

text \<open>The scan of \<open>get\<close>, \<open>has\<close> and \<open>delete\<close>.\<close>

definition map_find :: "map_data \<Rightarrow> lr_value \<Rightarrow> nat option" where
  "map_find md k =
     (let h = hash_value k in
      probe_find (\<lambda>i. e_alive (m_entries md ! i) \<and> e_hash (m_entries md ! i) = h
                      \<and> same_value_zero (e_key (m_entries md ! i)) k)
        (m_capacity md) (slot_of h (m_capacity md)) (m_capacity md))"

definition map_delete :: "map_data \<Rightarrow> lr_value \<Rightarrow> map_data \<times> bool" where
  "map_delete md k =
     (case map_find md k of
        Some i \<Rightarrow>
          (md\<lparr>m_entries := (m_entries md)[i := \<lparr>e_key = LR_UNDEFINED, e_value = LR_UNDEFINED,
                                         e_hash = MAP_TOMBSTONE_HASH, e_alive = False\<rparr>],
              m_count := m_count md - 1, m_iter_count := m_iter_count md + 1\<rparr>, True)
      | None \<Rightarrow> (md, False))"

definition map_clear_entry :: "map_entry \<Rightarrow> map_entry" where
  "map_clear_entry e =
     (if e_alive e then e\<lparr>e_key := LR_UNDEFINED, e_value := LR_UNDEFINED, e_alive := False\<rparr> else e)"

definition map_clear :: "map_data \<Rightarrow> map_data" where
  "map_clear md = md\<lparr>m_entries := map map_clear_entry (m_entries md), m_count := 0,
                     m_iter_count := m_iter_count md + 1\<rparr>"

text \<open>A Map object: its table and its own \<open>size\<close> property, which \<open>map_sync_size\<close> writes.\<close>

record map_obj =
  mdata :: map_data
  size_prop :: nat

definition map_sync_size :: "map_obj \<Rightarrow> map_obj" where
  "map_sync_size m = m\<lparr>size_prop := m_count (mdata m)\<rparr>"

definition js_map_set :: "bool \<Rightarrow> map_obj receiver \<Rightarrow> lr_value list \<Rightarrow> (js_ret \<times> map_obj receiver) option" where
  "js_map_set alloc_ok this argv =
     (case this of
        NotObject \<Rightarrow> Some (TypeError ''Method Map.prototype.set called on incompatible receiver'', this)
      | NoData \<Rightarrow> Some (TypeError ''Map.prototype.set called on non-Map object'', this)
      | Data m \<Rightarrow>
          (case map_data_set alloc_ok (mdata m) (arg argv 0) (arg argv 1) of
             None \<Rightarrow> None
           | Some (md, ok) \<Rightarrow> Some (RetThis, Data (map_sync_size (m\<lparr>mdata := md\<rparr>)))))"

definition js_map_get :: "map_obj receiver \<Rightarrow> lr_value list \<Rightarrow> js_ret" where
  "js_map_get this argv =
     (case this of
        NotObject \<Rightarrow> TypeError ''Method Map.prototype.get called on incompatible receiver''
      | NoData \<Rightarrow> Ret LR_UNDEFINED
      | Data m \<Rightarrow>
          (case map_find (mdata m) (arg argv 0) of
             Some i \<Rightarrow> Ret (e_value (m_entries (mdata m) ! i))
           | None \<Rightarrow> Ret LR_UNDEFINED))"

definition js_map_has :: "map_obj receiver \<Rightarrow> lr_value list \<Rightarrow> js_ret" where
  "js_map_has this argv =
     (case this of
        NotObject \<Rightarrow> TypeError ''Method Map.prototype.has called on incompatible receiver''
      | NoData \<Rightarrow> Ret (LR_BOOL False)
      | Data m \<Rightarrow> Ret (LR_BOOL (map_find (mdata m) (arg argv 0) \<noteq> None)))"

definition js_map_delete :: "map_obj receiver \<Rightarrow> lr_value list \<Rightarrow> js_ret \<times> map_obj receiver" where
  "js_map_delete this argv =
     (case this of
        NotObject \<Rightarrow> (TypeError ''Method Map.prototype.delete called on incompatible receiver'', this)
      | NoData \<Rightarrow> (Ret (LR_BOOL False), this)
      | Data m \<Rightarrow>
          (case map_delete (mdata m) (arg argv 0) of
             (md, True) \<Rightarrow> (Ret (LR_BOOL True), Data (map_sync_size (m\<lparr>mdata := md\<rparr>)))
           | (md, False) \<Rightarrow> (Ret (LR_BOOL False), this)))"

definition js_map_clear :: "map_obj receiver \<Rightarrow> js_ret \<times> map_obj receiver" where
  "js_map_clear this =
     (case this of
        NotObject \<Rightarrow> (TypeError ''Method Map.prototype.clear called on incompatible receiver'', this)
      | NoData \<Rightarrow> (Ret LR_UNDEFINED, this)
      | Data m \<Rightarrow> (Ret LR_UNDEFINED, Data (map_sync_size (m\<lparr>mdata := map_clear (mdata m)\<rparr>))))"

definition js_map_get_size :: "map_obj receiver \<Rightarrow> js_ret" where
  "js_map_get_size this =
     (case this of
        NotObject \<Rightarrow> TypeError ''Method Map.prototype.size called on incompatible receiver''
      | NoData \<Rightarrow> Ret (LR_INT32 0)
      | Data m \<Rightarrow> Ret (LR_INT32 (word_of_nat (m_count (mdata m)))))"

text \<open>
  The items that the constructor reads from its argument: \<open>Some (key, value)\<close> for an object
  item and \<open>None\<close> for any other, which is skipped.
\<close>

fun map_populate :: "bool \<Rightarrow> map_data \<Rightarrow> (lr_value \<times> lr_value) option list \<Rightarrow> map_data option" where
  "map_populate alloc_ok md [] = Some md"
| "map_populate alloc_ok md (None # items) = map_populate alloc_ok md items"
| "map_populate alloc_ok md (Some (k, v) # items) =
     (case map_data_set alloc_ok md k v of
        None \<Rightarrow> None
      | Some (md', ok) \<Rightarrow> map_populate alloc_ok md' items)"

text \<open>\<open>new_ok\<close> is the outcome of the allocations of \<open>map_data_new\<close>.\<close>

definition js_map_constructor ::
  "bool \<Rightarrow> bool \<Rightarrow> (lr_value \<times> lr_value) option iterable \<Rightarrow> map_obj ctor option" where
  "js_map_constructor new_ok alloc_ok it =
     (if \<not> new_ok then Some Ctor_exception
      else map_option (\<lambda>md. Constructed \<lparr>mdata = md, size_prop = m_count md\<rparr>)
             (map_populate alloc_ok map_data_new (iterable_items it)))"

section \<open>Iteration\<close>

record map_iterator =
  it_index :: nat
  it_kind :: iter_kind
  it_iter_count :: u32

definition map_iterator_data_new :: "map_data \<Rightarrow> iter_kind \<Rightarrow> map_iterator" where
  "map_iterator_data_new md kind = \<lparr>it_index = 0, it_kind = kind, it_iter_count = m_iter_count md\<rparr>"

definition map_item :: "iter_kind \<Rightarrow> map_entry \<Rightarrow> iter_item" where
  "map_item kind e =
     (case kind of Iter_keys \<Rightarrow> Item_value (e_key e) | Iter_values \<Rightarrow> Item_value (e_value e)
      | Iter_entries \<Rightarrow> Item_pair (e_key e) (e_value e))"

text \<open>\<open>while (it->index < md->capacity)\<close>: the next live entry, \<open>None\<close> for \<open>done: true\<close>.\<close>

function map_iter_scan :: "map_data \<Rightarrow> iter_kind \<Rightarrow> nat \<Rightarrow> iter_item option \<times> nat" where
  "map_iter_scan md kind i =
     (if i < m_capacity md then
        (if e_alive (m_entries md ! i) then (Some (map_item kind (m_entries md ! i)), i + 1)
         else map_iter_scan md kind (i + 1))
      else (None, i))"
  by pat_completeness auto
termination
  by (relation "measure (\<lambda>(md, kind, i). m_capacity md - i)") auto

declare map_iter_scan.simps [simp del]

definition map_iter_next :: "map_data \<Rightarrow> map_iterator \<Rightarrow> iter_item option \<times> map_iterator" where
  "map_iter_next md it =
     (case map_iter_scan md (it_kind it) (it_index it) of
        (r, i) \<Rightarrow> (r, it\<lparr>it_index := i\<rparr>))"

text \<open>\<open>md\<close> is \<open>None\<close> when the Map object has lost its data.\<close>

definition js_map_iterator_next ::
  "map_iterator receiver \<Rightarrow> map_data option \<Rightarrow> next_ret \<times> map_iterator receiver" where
  "js_map_iterator_next this md =
     (case this of
        NotObject \<Rightarrow> (Next_error ''Iterator next called on non-object'', this)
      | NoData \<Rightarrow> (Next_error ''Iterator has no data'', this)
      | Data it \<Rightarrow>
          (case md of
             None \<Rightarrow> (Next None, this)
           | Some d \<Rightarrow> (case map_iter_next d it of (r, it') \<Rightarrow> (Next r, Data it'))))"

text \<open>\<open>keys\<close>, \<open>values\<close> and \<open>entries\<close>.\<close>

definition create_map_iterator :: "string \<Rightarrow> iter_kind \<Rightarrow> map_obj receiver \<Rightarrow> string + map_iterator" where
  "create_map_iterator meth kind this =
     (case this of
        NotObject \<Rightarrow> Inl (''Method Map.prototype.'' @ meth @ '' called on incompatible receiver'')
      | NoData \<Rightarrow> Inr \<lparr>it_index = 0, it_kind = kind, it_iter_count = 0\<rparr>
      | Data m \<Rightarrow> Inr (map_iterator_data_new (mdata m) kind))"

text \<open>A \<open>for-of\<close> or spread over the iterator: \<open>next()\<close> until \<open>done\<close>.\<close>

fun map_iter_drain :: "nat \<Rightarrow> map_data \<Rightarrow> map_iterator \<Rightarrow> iter_item list option" where
  "map_iter_drain 0 md it = None"
| "map_iter_drain (Suc fuel) md it =
     (case map_iter_next md it of
        (None, it') \<Rightarrow> Some []
      | (Some x, it') \<Rightarrow> map_option ((#) x) (map_iter_drain fuel md it'))"

text \<open>
  \<open>forEach\<close>: the callback, applied to value, key and the Map, may change it, and the loop reads
  \<open>capacity\<close> and \<open>entries\<close> again at each turn; \<open>fuel\<close> bounds the turns (a callback that keeps
  growing the table keeps the loop going). \<open>w\<close> is the rest of the world.
\<close>

fun map_forEach_loop ::
  "nat \<Rightarrow> (lr_value \<Rightarrow> lr_value \<Rightarrow> 'w \<Rightarrow> map_obj \<Rightarrow> 'w \<times> map_obj) \<Rightarrow> nat \<Rightarrow> 'w \<Rightarrow> map_obj \<Rightarrow> ('w \<times> map_obj) option" where
  "map_forEach_loop 0 cb i w m = None"
| "map_forEach_loop (Suc fuel) cb i w m =
     (if i < m_capacity (mdata m) then
        (if e_alive (m_entries (mdata m) ! i) then
           (case cb (e_value (m_entries (mdata m) ! i)) (e_key (m_entries (mdata m) ! i)) w m of
              (w', m') \<Rightarrow> map_forEach_loop fuel cb (i + 1) w' m')
         else map_forEach_loop fuel cb (i + 1) w m)
      else Some (w, m))"

text \<open>\<open>callback\<close> is \<open>None\<close> when the first argument is missing or is not a function.\<close>

definition js_map_forEach ::
  "nat \<Rightarrow> map_obj receiver \<Rightarrow> (lr_value \<Rightarrow> lr_value \<Rightarrow> 'w \<Rightarrow> map_obj \<Rightarrow> 'w \<times> map_obj) option \<Rightarrow> 'w
     \<Rightarrow> (js_ret \<times> 'w \<times> map_obj receiver) option" where
  "js_map_forEach fuel this callback w =
     (case this of
        NotObject \<Rightarrow> Some (TypeError ''Method Map.prototype.forEach called on incompatible receiver'', w, this)
      | NoData \<Rightarrow> Some (Ret LR_UNDEFINED, w, this)
      | Data m \<Rightarrow>
          (case callback of
             None \<Rightarrow> Some (TypeError ''Callback must be a function'', w, this)
           | Some cb \<Rightarrow> map_option (\<lambda>(w', m'). (Ret LR_UNDEFINED, w', Data m')) (map_forEach_loop fuel cb 0 w m)))"

section \<open>Invariant\<close>

definition live :: "map_entry list \<Rightarrow> map_entry multiset" where
  "live es = filter_mset e_alive (mset es)"

definition fresh :: "map_entry \<Rightarrow> bool" where
  "fresh e \<longleftrightarrow> \<not> e_alive e \<and> e_hash e \<noteq> MAP_TOMBSTONE_HASH"

text \<open>Slot \<open>j\<close> is reached from the home slot of its hash without passing a fresh slot.\<close>

definition reached :: "map_entry list \<Rightarrow> nat \<Rightarrow> u32 \<Rightarrow> nat \<Rightarrow> bool" where
  "reached es cap h j \<longleftrightarrow>
     (\<exists>n. j = (slot_of h cap + n) mod cap \<and> (\<forall>m<n. \<not> fresh (es ! ((slot_of h cap + m) mod cap))))"

definition no_clash :: "map_entry multiset \<Rightarrow> bool" where
  "no_clash M \<longleftrightarrow> (\<forall>a b. {#a, b#} \<subseteq># M \<longrightarrow> \<not> key_match (e_key a) (e_key b))"

definition table_inv :: "map_entry list \<Rightarrow> nat \<Rightarrow> bool" where
  "table_inv es cap \<longleftrightarrow>
     cap_ok cap \<and> length es = cap \<and>
     (\<forall>e\<in>#live es. e_hash e = hash_value (e_key e)) \<and> no_clash (live es) \<and>
     (\<forall>j<cap. e_alive (es ! j) \<longrightarrow> reached es cap (e_hash (es ! j)) j)"

definition map_inv :: "map_data \<Rightarrow> bool" where
  "map_inv md \<longleftrightarrow> table_inv (m_entries md) (m_capacity md) \<and> m_count md = size (live (m_entries md))"

lemma live_update:
  assumes "i < length es"
  shows "live (es[i := e]) =
    live es - (if e_alive (es ! i) then {#es ! i#} else {#}) + (if e_alive e then {#e#} else {#})"
  using assms by (simp add: live_def mset_update)

lemma live_nth: "i < length es \<Longrightarrow> e_alive (es ! i) \<Longrightarrow> es ! i \<in># live es"
  by (simp add: live_def)

lemma live_in_nth: "e \<in># live es \<Longrightarrow> \<exists>i<length es. es ! i = e \<and> e_alive e"
  by (auto simp: live_def in_set_conv_nth)

lemma live_replicate_empty [simp]: "live (replicate n empty_entry) = {#}"
  by (induction n) (auto simp: live_def empty_entry_def)

lemma reached_update:
  assumes "reached es cap h j" "\<not> fresh e" "length es = cap" "0 < cap"
  shows "reached (es[i := e]) cap h j"
proof -
  obtain n where n: "j = (slot_of h cap + n) mod cap"
      "\<forall>m<n. \<not> fresh (es ! ((slot_of h cap + m) mod cap))"
    using assms(1) by (auto simp: reached_def)
  have "\<not> fresh (es[i := e] ! ((slot_of h cap + m) mod cap))" if "m < n" for m
    using n(2) that assms(2-4) by (cases "i = (slot_of h cap + m) mod cap") auto
  with n(1) show ?thesis by (auto simp: reached_def)
qed

lemma no_clash_subset: "no_clash N \<Longrightarrow> M \<subseteq># N \<Longrightarrow> no_clash M"
  unfolding no_clash_def by (meson subset_mset.trans)

lemma no_clash_add:
  assumes "no_clash M" "\<And>a. a \<in># M \<Longrightarrow> \<not> key_match (e_key a) (e_key e)"
  shows "no_clash (add_mset e M)"
  unfolding no_clash_def
proof (intro allI impI)
  fix a b assume sub: "{#a, b#} \<subseteq># add_mset e M"
  show "\<not> key_match (e_key a) (e_key b)"
  proof (cases "a = e \<or> b = e")
    case True
    then have "\<exists>c. c \<in># M \<and> {#a, b#} = {#c, e#}"
      using sub by (auto simp: add_mset_commute insert_subset_eq_iff)
    then obtain c where c: "c \<in># M" "{#a, b#} = {#c, e#}" by blast
    then have "a = c \<and> b = e \<or> a = e \<and> b = c"
      by (auto simp: add_eq_conv_ex)
    with assms(2) [OF c(1)] show ?thesis by (auto dest: key_match_sym)
  next
    case False
    have "{#a, b#} \<subseteq># M"
    proof (rule mset_subset_eqI)
      fix x
      show "count {#a, b#} x \<le> count M x"
        using mset_subset_eq_count [OF sub, of x] False by (cases "x = e") auto
    qed
    with assms(1) show ?thesis by (simp add: no_clash_def)
  qed
qed

lemma table_inv_update:
  assumes inv: "table_inv es cap" and i: "i < cap" and nf: "\<not> fresh e"
    and path: "e_alive e \<Longrightarrow> reached es cap (e_hash e) i"
    and hash: "e_alive e \<Longrightarrow> e_hash e = hash_value (e_key e)"
    and nc: "no_clash (live (es[i := e]))"
  shows "table_inv (es[i := e]) cap"
proof -
  have len: "length es = cap" "0 < cap" using inv i by (auto simp: table_inv_def)
  have "x \<in># live (es[i := e]) \<Longrightarrow> x \<in># live es \<or> x = e \<and> e_alive e" for x
    using i len by (auto simp: live_update dest: in_diffD split: if_splits)
  moreover have "reached (es[i := e]) cap (e_hash (es[i := e] ! j)) j"
    if "j < cap" "e_alive (es[i := e] ! j)" for j
    using that inv path nf len by (cases "j = i") (auto simp: table_inv_def intro: reached_update)
  ultimately show ?thesis using inv len nc hash by (auto simp: table_inv_def)
qed

section \<open>Scans\<close>

lemma map_find_Some:
  assumes "map_inv md" "map_find md k = Some i"
  shows "i < m_capacity md \<and> m_entries md ! i \<in># live (m_entries md)
    \<and> e_alive (m_entries md ! i) \<and> key_match (e_key (m_entries md ! i)) k"
proof -
  have inv: "cap_ok (m_capacity md)" "length (m_entries md) = m_capacity md"
      "\<forall>e\<in>#live (m_entries md). e_hash e = hash_value (e_key e)"
    using assms(1) by (auto simp: map_inv_def table_inv_def)
  from probe_find_all_Some [OF inv(1) slot_of_less [OF inv(1)] assms(2) [unfolded map_find_def Let_def]]
  have "i < m_capacity md" "e_alive (m_entries md ! i)" "e_hash (m_entries md ! i) = hash_value k"
      "same_value_zero (e_key (m_entries md ! i)) k" by auto
  with inv show ?thesis by (simp add: live_nth key_match_def)
qed

lemma map_find_None:
  assumes "map_inv md" "map_find md k = None" "e \<in># live (m_entries md)"
  shows "\<not> key_match (e_key e) k"
proof -
  have inv: "cap_ok (m_capacity md)" "length (m_entries md) = m_capacity md"
      "e_hash e = hash_value (e_key e)"
    using assms(1,3) by (auto simp: map_inv_def table_inv_def)
  obtain i where "i < m_capacity md" "m_entries md ! i = e" "e_alive e"
    using live_in_nth [OF assms(3)] inv by auto
  with probe_find_all_None [OF inv(1) slot_of_less [OF inv(1)] assms(2) [unfolded map_find_def Let_def]]
  show ?thesis using inv(3) by (auto simp: key_match_def)
qed

lemma map_set_loop_None:
  assumes "cap_ok cap" "idx < cap" "map_set_loop es cap k h tomb idx n = None" "m < n"
  shows "\<not> fresh (es ! ((idx + m) mod cap))"
  using assms(2-)
proof (induction n arbitrary: idx tomb m)
  case 0
  then show ?case by simp
next
  case (Suc n)
  let ?j = "(idx + 1) mod cap"
  have j: "?j < cap" using assms(1) cap_okD by simp
  have nx: "next_slot cap idx = ?j" using assms(1) Suc.prems(1) by (rule next_slot_mod)
  have nf: "\<not> fresh (es ! idx)" and ex: "\<exists>tomb. map_set_loop es cap k h tomb ?j n = None"
    using Suc.prems(2) nx by (auto simp: fresh_def is_tombstone_def split: if_splits)
  show ?case
  proof (cases m)
    case 0
    with nf Suc.prems(1) show ?thesis by simp
  next
    case (Suc m')
    then have "\<not> fresh (es ! ((?j + m') mod cap))"
      using ex Suc.IH [OF j] Suc.prems(3) by blast
    then show ?thesis using Suc by (simp add: mod_add_left_eq)
  qed
qed

lemma map_set_loop_Update:
  assumes "cap_ok cap" "idx < cap" "map_set_loop es cap k h tomb idx n = Some (Update_at i)"
  shows "i < cap \<and> e_alive (es ! i) \<and> e_hash (es ! i) = h \<and> same_value_zero (e_key (es ! i)) k"
  using assms(2-)
proof (induction n arbitrary: idx tomb)
  case 0
  then show ?case by simp
next
  case (Suc n)
  have "next_slot cap idx < cap"
    using assms(1) Suc.prems(1) cap_okD by (simp add: next_slot_mod)
  with Suc show ?case by (auto simp: is_tombstone_def split: if_splits)
qed

text \<open>An insertion: the scan stopped at a fresh slot after \<open>m\<close> slots that are neither fresh nor
  matching, and the chosen slot is not alive and lies at most \<open>m\<close> steps along.\<close>

lemma map_set_loop_Insert:
  assumes "cap_ok cap" "idx < cap" "map_set_loop es cap k h tomb idx n = Some (Insert_at t)"
  shows "\<exists>m<n. fresh (es ! ((idx + m) mod cap))
    \<and> (\<forall>m'<m. \<not> fresh (es ! ((idx + m') mod cap))
         \<and> \<not> (e_alive (es ! ((idx + m') mod cap)) \<and> e_hash (es ! ((idx + m') mod cap)) = h
              \<and> same_value_zero (e_key (es ! ((idx + m') mod cap))) k))
    \<and> (tomb = Some t \<or> (\<exists>q\<le>m. t = (idx + q) mod cap \<and> \<not> e_alive (es ! t)))"
  using assms(2-)
proof (induction n arbitrary: idx tomb)
  case 0
  then show ?case by simp
next
  case (Suc n)
  let ?j = "(idx + 1) mod cap"
  have j: "?j < cap" using assms(1) cap_okD by simp
  have nx: "next_slot cap idx = ?j" using assms(1) Suc.prems(1) by (rule next_slot_mod)
  have sh: "(?j + q) mod cap = (idx + Suc q) mod cap" for q by (simp add: mod_add_left_eq)
  have id: "idx mod cap = idx" using Suc.prems(1) by simp
  let ?ok = "\<lambda>i. \<not> fresh (es ! i) \<and> \<not> (e_alive (es ! i) \<and> e_hash (es ! i) = h \<and> same_value_zero (e_key (es ! i)) k)"
  show ?case
  proof (cases "fresh (es ! idx)")
    case True
    with Suc.prems have "(case tomb of None \<Rightarrow> idx | Some t \<Rightarrow> t) = t"
      by (auto simp: fresh_def is_tombstone_def)
    with True id show ?thesis
      by (intro exI [of _ 0]) (auto simp: fresh_def split: option.splits)
  next
    case False
    define tomb' where "tomb' = (if is_tombstone (es ! idx)
      then (case tomb of None \<Rightarrow> Some idx | Some t \<Rightarrow> Some t) else tomb)"
    have here: "?ok idx" and rec: "map_set_loop es cap k h tomb' ?j n = Some (Insert_at t)"
      using False Suc.prems(2) nx
      by (auto simp: tomb'_def fresh_def is_tombstone_def split: if_splits)
    obtain m where m: "m < n" "fresh (es ! ((idx + Suc m) mod cap))"
        "\<forall>m'<m. ?ok ((idx + Suc m') mod cap)"
        "tomb' = Some t \<or> (\<exists>q\<le>m. t = (idx + Suc q) mod cap \<and> \<not> e_alive (es ! t))"
      using Suc.IH [OF j rec] unfolding sh by blast
    have oks: "?ok ((idx + m') mod cap)" if "m' < Suc m" for m'
      using that here m(3) id by (cases m') auto
    have "tomb = Some t \<or> (\<exists>q\<le>Suc m. t = (idx + q) mod cap \<and> \<not> e_alive (es ! t))"
      using m(4)
    proof
      assume "tomb' = Some t"
      then consider "tomb = Some t" | "t = idx" "is_tombstone (es ! idx)"
        by (auto simp: tomb'_def split: if_splits option.splits)
      then show ?thesis using id by cases (auto simp: is_tombstone_def intro: exI [of _ 0])
    next
      assume "\<exists>q\<le>m. t = (idx + Suc q) mod cap \<and> \<not> e_alive (es ! t)"
      then show ?thesis by (metis Suc_le_mono)
    qed
    with m(1,2) oks show ?thesis by (intro exI [of _ "Suc m"]) auto
  qed
qed

section \<open>The table as a finite map\<close>

definition map_lookup :: "map_data \<Rightarrow> lr_value \<Rightarrow> lr_value option" where
  "map_lookup md k = map_option (\<lambda>i. e_value (m_entries md ! i)) (map_find md k)"

lemma no_clash_unique:
  assumes "no_clash M" "a \<in># M" "b \<in># M" "key_match (e_key a) k" "key_match (e_key b) k"
  shows "a = b"
proof (rule ccontr)
  assume "a \<noteq> b"
  with assms(2,3) have "{#a, b#} \<subseteq># M" by (simp add: insert_subset_eq_iff in_diff_count)
  with assms(1,4,5) show False unfolding no_clash_def by (meson key_match_sym key_match_trans)
qed

lemma map_lookup_iff:
  assumes "map_inv md"
  shows "map_lookup md k = Some v \<longleftrightarrow>
    (\<exists>e. e \<in># live (m_entries md) \<and> key_match (e_key e) k \<and> e_value e = v)"
proof (cases "map_find md k")
  case None
  with map_find_None [OF assms None] show ?thesis by (auto simp: map_lookup_def)
next
  case (Some i)
  have "no_clash (live (m_entries md))" using assms by (simp add: map_inv_def table_inv_def)
  with map_find_Some [OF assms Some] show ?thesis
    by (auto simp: map_lookup_def Some dest: no_clash_unique)
qed

lemma map_lookup_eqI:
  assumes "\<And>v. map_lookup md k = Some v \<longleftrightarrow> x = Some v"
  shows "map_lookup md k = x"
  using assms by (cases x; cases "map_lookup md k") auto

lemma map_lookup_None:
  assumes "map_inv md"
  shows "map_lookup md k = None \<longleftrightarrow> (\<forall>e. e \<in># live (m_entries md) \<longrightarrow> \<not> key_match (e_key e) k)"
  using map_lookup_iff [OF assms, of k] by (metis not_None_eq option.distinct(1))

lemma map_find_lookup: "map_find md k = None \<longleftrightarrow> map_lookup md k = None"
  by (simp add: map_lookup_def)

lemma pair_subset: "a \<in># M - {#b#} \<Longrightarrow> b \<in># M \<Longrightarrow> {#a, b#} \<subseteq># M"
  by (simp add: insert_subset_eq_iff add_mset_commute [of a b])

subsection \<open>Store\<close>

lemma reached_home:
  assumes "reached es cap h j" "slot_of h cap = idx" "fresh (es ! ((idx + m) mod cap))" "\<not> fresh (es ! j)"
  shows "\<exists>n<m. j = (idx + n) mod cap"
proof -
  obtain n where n: "j = (idx + n) mod cap" "\<forall>m<n. \<not> fresh (es ! ((idx + m) mod cap))"
    using assms(1,2) by (auto simp: reached_def)
  moreover have "n \<noteq> m" using n(1) assms(3,4) by auto
  ultimately show ?thesis using assms(3) by (metis linorder_neqE_nat)
qed

lemma map_store_Insert:
  assumes inv: "map_inv md"
    and ins: "map_set_loop (m_entries md) (m_capacity md) k (hash_value k) None
      (slot_of (hash_value k) (m_capacity md)) (m_capacity md) = Some (Insert_at t)"
  shows "t < m_capacity md \<and> \<not> e_alive (m_entries md ! t)
    \<and> reached (m_entries md) (m_capacity md) (hash_value k) t \<and> map_lookup md k = None"
proof -
  let ?es = "m_entries md" and ?cap = "m_capacity md" and ?h = "hash_value k"
  let ?s = "slot_of ?h ?cap"
  have ti: "cap_ok ?cap" "length ?es = ?cap" "\<forall>e\<in>#live ?es. e_hash e = hash_value (e_key e)"
      "\<forall>j<?cap. e_alive (?es ! j) \<longrightarrow> reached ?es ?cap (e_hash (?es ! j)) j"
    using inv by (auto simp: map_inv_def table_inv_def)
  obtain m q where m: "m < ?cap" "fresh (?es ! ((?s + m) mod ?cap))"
      "\<forall>m'<m. \<not> fresh (?es ! ((?s + m') mod ?cap))"
      "\<forall>m'<m. \<not> (e_alive (?es ! ((?s + m') mod ?cap)) \<and> e_hash (?es ! ((?s + m') mod ?cap)) = ?h
              \<and> same_value_zero (e_key (?es ! ((?s + m') mod ?cap))) k)"
      and q: "q \<le> m" "t = (?s + q) mod ?cap" "\<not> e_alive (?es ! t)"
    using map_set_loop_Insert [OF ti(1) slot_of_less [OF ti(1)] ins] by blast
  have "\<not> key_match (e_key e) k" if e: "e \<in># live ?es" for e
  proof
    assume km: "key_match (e_key e) k"
    obtain j where j: "j < ?cap" "?es ! j = e" "e_alive e" using live_in_nth [OF e] ti(2) by auto
    have h: "e_hash e = ?h" using ti(3) e km by (simp add: key_match_def)
    have "reached ?es ?cap ?h j" using ti(4) j h by auto
    then obtain n where "n < m" "j = (?s + n) mod ?cap"
      using reached_home [OF _ refl m(2)] j by (auto simp: fresh_def)
    with m(4) j h km show False by (auto simp: key_match_def)
  qed
  then have "map_lookup md k = None" using map_lookup_None [OF inv] by blast
  moreover have "reached ?es ?cap ?h t" using m(3) q by (auto simp: reached_def)
  ultimately show ?thesis using q ti(1) cap_okD by simp
qed

lemma map_store_inv:
  assumes "map_inv md"
  shows "map_inv (fst (map_store md k v))"
proof (cases "map_set_loop (m_entries md) (m_capacity md) k (hash_value k) None
      (slot_of (hash_value k) (m_capacity md)) (m_capacity md)")
  case None
  with assms show ?thesis by (simp add: map_store_def)
next
  case (Some r)
  let ?es = "m_entries md" and ?cap = "m_capacity md"
  have ti: "table_inv ?es ?cap" "length ?es = ?cap" "cap_ok ?cap" "no_clash (live ?es)"
      "\<forall>e\<in>#live ?es. e_hash e = hash_value (e_key e)"
      "\<forall>j<?cap. e_alive (?es ! j) \<longrightarrow> reached ?es ?cap (e_hash (?es ! j)) j"
      and cnt: "m_count md = size (live ?es)"
    using assms by (auto simp: map_inv_def table_inv_def)
  show ?thesis
  proof (cases r)
    case (Insert_at t)
    let ?e = "\<lparr>e_key = k, e_value = v, e_hash = hash_value k, e_alive = True\<rparr>"
    have t: "t < ?cap" "\<not> e_alive (?es ! t)" "reached ?es ?cap (hash_value k) t" "map_lookup md k = None"
      using map_store_Insert [OF assms] Some Insert_at by auto
    have lv: "live (?es[t := ?e]) = add_mset ?e (live ?es)"
      using t ti(2) by (simp add: live_update)
    have "no_clash (live (?es[t := ?e]))"
      unfolding lv using ti(4) t(4) map_lookup_None [OF assms] by (intro no_clash_add) auto
    then have "table_inv (?es[t := ?e]) ?cap"
      using ti(1) t by (intro table_inv_update) (auto simp: fresh_def)
    then show ?thesis using Some Insert_at lv cnt by (simp add: map_store_def map_inv_def)
  next
    case (Update_at i)
    let ?e = "(?es ! i)\<lparr>e_value := v\<rparr>"
    have i: "i < ?cap" "e_alive (?es ! i)" using map_set_loop_Update [OF ti(3) slot_of_less [OF ti(3)]]
      Some Update_at by blast+
    have mem: "?es ! i \<in># live ?es" using i ti(2) by (simp add: live_nth)
    have lv: "live (?es[i := ?e]) = add_mset ?e (live ?es - {#?es ! i#})"
      using i ti(2) by (simp add: live_update)
    have "no_clash (live (?es[i := ?e]))"
      unfolding lv
    proof (rule no_clash_add)
      show "no_clash (live ?es - {#?es ! i#})" using ti(4) by (rule no_clash_subset) simp
      fix a assume "a \<in># live ?es - {#?es ! i#}"
      then have "{#a, ?es ! i#} \<subseteq># live ?es" using mem
        by (simp add: pair_subset)
      with ti(4) show "\<not> key_match (e_key a) (e_key ?e)" by (simp add: no_clash_def)
    qed
    then have "table_inv (?es[i := ?e]) ?cap"
      using ti i mem by (intro table_inv_update) (auto simp: fresh_def)
    moreover have "size (live (?es[i := ?e])) = size (live ?es)"
      unfolding lv using mem by (metis insert_DiffM size_add_mset)
    ultimately show ?thesis using Some Update_at cnt by (simp add: map_store_def map_inv_def)
  qed
qed

lemma map_store_lookup:
  assumes inv: "map_inv md" and ok: "snd (map_store md k v)"
  shows "map_lookup (fst (map_store md k v)) k' = (if key_match k k' then Some v else map_lookup md k')"
proof -
  let ?es = "m_entries md" and ?cap = "m_capacity md"
  let ?es' = "m_entries (fst (map_store md k v))"
  have ti: "length ?es = ?cap" "cap_ok ?cap" "no_clash (live ?es)"
      "\<forall>e\<in>#live ?es. e_hash e = hash_value (e_key e)"
    using inv by (auto simp: map_inv_def table_inv_def)
  obtain r where r: "map_set_loop ?es ?cap k (hash_value k) None (slot_of (hash_value k) ?cap) ?cap = Some r"
    using ok by (cases "map_set_loop ?es ?cap k (hash_value k) None (slot_of (hash_value k) ?cap) ?cap")
      (auto simp: map_store_def)
  have "map_lookup (fst (map_store md k v)) k' = Some w \<longleftrightarrow>
      (if key_match k k' then w = v else map_lookup md k' = Some w)" for w
  proof (cases r)
    case (Insert_at t)
    let ?e = "\<lparr>e_key = k, e_value = v, e_hash = hash_value k, e_alive = True\<rparr>"
    have t: "t < ?cap" "\<not> e_alive (?es ! t)" "map_lookup md k = None"
      using map_store_Insert [OF inv] r Insert_at by auto
    have lv: "live ?es' = add_mset ?e (live ?es)"
      using t ti(1) r Insert_at by (simp add: map_store_def live_update)
    have "\<not> key_match (e_key e) k'" if "e \<in># live ?es" "key_match k k'" for e
      using that t(3) map_lookup_None [OF inv] by (meson key_match_sym key_match_trans)
    then show ?thesis
      unfolding map_lookup_iff [OF map_store_inv [OF inv]] map_lookup_iff [OF inv] lv by auto
  next
    case (Update_at i)
    let ?e = "(?es ! i)\<lparr>e_value := v\<rparr>"
    have i: "i < ?cap" "e_alive (?es ! i)" "e_hash (?es ! i) = hash_value k"
        "same_value_zero (e_key (?es ! i)) k"
      using map_set_loop_Update [OF ti(2) slot_of_less [OF ti(2)]] r Update_at by blast+
    have mem: "?es ! i \<in># live ?es" using i ti(1) by (simp add: live_nth)
    have kmi: "key_match (e_key (?es ! i)) k" using i ti(4) mem by (auto simp: key_match_def)
    have lv: "live ?es' = add_mset ?e (live ?es - {#?es ! i#})"
      using i ti(1) r Update_at by (simp add: map_store_def live_update)
    have km: "key_match (e_key (?es ! i)) k' = key_match k k'"
      using kmi by (meson key_match_sym key_match_trans)
    have oth: "\<not> key_match (e_key e) k'" if "e \<in># live ?es - {#?es ! i#}" "key_match k k'" for e
    proof
      assume a: "key_match (e_key e) k'"
      have "{#e, ?es ! i#} \<subseteq># live ?es" using mem that(1)
        by (simp add: pair_subset)
      with ti(3) a km that(2) show False unfolding no_clash_def by (meson key_match_sym key_match_trans)
    qed
    have rest: "e \<in># live ?es - {#?es ! i#} \<longleftrightarrow> e \<in># live ?es"
      if "key_match (e_key e) k'" "\<not> key_match k k'" for e
    proof -
      have "e \<noteq> ?es ! i" using that km by auto
      then show ?thesis by (simp add: in_diff_count)
    qed
    have new: "map_lookup (fst (map_store md k v)) k' = Some w \<longleftrightarrow>
        (key_match k k' \<and> w = v) \<or> (\<exists>e. e \<in># live ?es - {#?es ! i#} \<and> key_match (e_key e) k' \<and> e_value e = w)"
      unfolding map_lookup_iff [OF map_store_inv [OF inv]] lv using km by auto
    show ?thesis
      unfolding new map_lookup_iff [OF inv] using oth rest by (cases "key_match k k'") (simp_all, blast+)
  qed
  then show ?thesis by (intro map_lookup_eqI) auto
qed

text \<open>A store fails only for an absent key, in a table without a fresh slot.\<close>

lemma map_store_fail:
  assumes inv: "map_inv md" and f: "\<not> snd (map_store md k v)"
  shows "fst (map_store md k v) = md \<and> (\<forall>i<m_capacity md. \<not> fresh (m_entries md ! i))"
proof -
  let ?s = "slot_of (hash_value k) (m_capacity md)"
  have c: "cap_ok (m_capacity md)" using inv by (simp add: map_inv_def table_inv_def)
  have n: "map_set_loop (m_entries md) (m_capacity md) k (hash_value k) None ?s (m_capacity md) = None"
    using f by (cases "map_set_loop (m_entries md) (m_capacity md) k (hash_value k) None ?s (m_capacity md)")
      (auto simp: map_store_def split: map_slot.splits)
  have "\<not> fresh (m_entries md ! i)" if i: "i < m_capacity md" for i
  proof -
    obtain m where "m < m_capacity md" "i = (?s + m) mod m_capacity md"
      using probe_covers [OF slot_of_less [OF c] i] by metis
    then show ?thesis using map_set_loop_None [OF c slot_of_less [OF c] n, of m] by simp
  qed
  with n show ?thesis by (simp add: map_store_def)
qed

lemma map_set_loop_find:
  "map_set_loop es cap k h tomb idx n = None \<Longrightarrow>
    probe_find (\<lambda>i. e_alive (es ! i) \<and> e_hash (es ! i) = h \<and> same_value_zero (e_key (es ! i)) k) cap idx n = None"
  by (induction n arbitrary: idx tomb) (auto simp: is_tombstone_def split: if_splits)

lemma map_set_loop_Insert_fresh:
  assumes "cap_ok cap" "idx < cap" "map_set_loop es cap k h tomb idx n = Some (Insert_at t)"
  shows "\<exists>i<cap. fresh (es ! i)"
  using assms(2,3)
proof (induction n arbitrary: idx tomb)
  case (Suc n)
  have "next_slot cap idx < cap" using next_slot_mod [OF assms(1) Suc.prems(1)] cap_okD [OF assms(1)] by simp
  then show ?case using Suc by (auto simp: is_tombstone_def fresh_def split: if_splits)
qed simp

text \<open>A store succeeds exactly when the key is there or some slot was never used.\<close>

lemma map_store_succeeds:
  assumes inv: "map_inv md"
  shows "snd (map_store md k v) \<longleftrightarrow> map_lookup md k \<noteq> None \<or> (\<exists>i<m_capacity md. fresh (m_entries md ! i))"
proof -
  let ?s = "slot_of (hash_value k) (m_capacity md)"
  have c: "cap_ok (m_capacity md)" using inv by (simp add: map_inv_def table_inv_def)
  show ?thesis
  proof (cases "map_set_loop (m_entries md) (m_capacity md) k (hash_value k) None ?s (m_capacity md)")
    case None
    then have "\<not> snd (map_store md k v)" "map_lookup md k = None"
      using map_set_loop_find [OF None] by (simp_all add: map_store_def map_lookup_def map_find_def Let_def)
    then show ?thesis using map_store_fail [OF inv] by blast
  next
    case (Some r)
    then have "snd (map_store md k v)" by (auto simp: map_store_def split: map_slot.split)
    moreover have "map_lookup md k \<noteq> None \<or> (\<exists>i<m_capacity md. fresh (m_entries md ! i))"
    proof (cases r)
      case (Insert_at t)
      then show ?thesis using map_set_loop_Insert_fresh [OF c slot_of_less [OF c]] Some by blast
    next
      case (Update_at i)
      then have i: "i < m_capacity md" "e_alive (m_entries md ! i)" "e_hash (m_entries md ! i) = hash_value k"
          "same_value_zero (e_key (m_entries md ! i)) k"
        using map_set_loop_Update [OF c slot_of_less [OF c]] Some by blast+
      then have mem: "m_entries md ! i \<in># live (m_entries md)" using inv by (simp add: map_inv_def table_inv_def live_nth)
      moreover have "\<forall>e\<in>#live (m_entries md). e_hash e = hash_value (e_key e)"
        using inv by (simp add: map_inv_def table_inv_def)
      ultimately have "key_match (e_key (m_entries md ! i)) k" using i by (auto simp: key_match_def)
      then show ?thesis using mem map_lookup_None [OF inv, of k] by blast
    qed
    ultimately show ?thesis by blast
  qed
qed

subsection \<open>Resize\<close>

lemma live_Cons: "live (e # es) = (if e_alive e then add_mset e (live es) else live es)"
  by (simp add: live_def)

lemma live_full:
  assumes "\<forall>i<length es. e_alive (es ! i)"
  shows "size (live es) = length es"
proof -
  have "filter e_alive es = es" using assms by (simp add: filter_id_conv all_set_conv_all_nth)
  then have "live es = mset es" by (simp add: live_def mset_filter [symmetric])
  then show ?thesis by simp
qed

lemma map_rehash_correct:
  assumes "table_inv es cap" "no_clash (live es + live old)" "size (live es) + size (live old) < cap"
    "\<forall>e\<in>#live old. e_hash e = hash_value (e_key e)" "\<forall>i<cap. e_alive (es ! i) \<or> fresh (es ! i)"
  shows "\<exists>es'. map_rehash old cap es n = Some (es', n + size (live old)) \<and> table_inv es' cap
    \<and> live es' = live es + live old \<and> (\<forall>i<cap. e_alive (es' ! i) \<or> fresh (es' ! i))"
  using assms
proof (induction old arbitrary: es n)
  case Nil
  then show ?case by (simp add: live_def)
next
  case (Cons e old)
  show ?case
  proof (cases "e_alive e")
    case False
    with Cons show ?thesis by (simp add: live_Cons)
  next
    case True
    have c: "cap_ok cap" and len: "length es = cap" using Cons.prems(1) by (auto simp: table_inv_def)
    have "size (live es) < length es" using Cons.prems(3) len by simp
    then have "\<exists>i<cap. \<not> e_alive (es ! i)" using live_full len by fastforce
    then obtain i where i: "probe_find (\<lambda>i. \<not> e_alive (es ! i)) cap (slot_of (e_hash e) cap) cap = Some i"
      using probe_find_all_None [OF c slot_of_less [OF c]] by (metis not_None_eq)
    from probe_find_Some [OF c slot_of_less [OF c] i] obtain m where
      m: "i = (slot_of (e_hash e) cap + m) mod cap" "\<not> e_alive (es ! i)"
        "\<forall>m'<m. e_alive (es ! ((slot_of (e_hash e) cap + m') mod cap))" by auto
    have icap: "i < cap" using m(1) c cap_okD by simp
    have lv: "live (es[i := e]) = add_mset e (live es)"
      using icap len m(2) True by (simp add: live_update)
    have "reached es cap (e_hash e) i" using m(1,3) by (auto simp: reached_def fresh_def)
    moreover have "no_clash (live (es[i := e]))"
      unfolding lv by (rule no_clash_subset [OF Cons.prems(2)]) (simp add: live_Cons True)
    ultimately have ti: "table_inv (es[i := e]) cap"
      using Cons.prems(1,4) icap True by (intro table_inv_update) (auto simp: fresh_def live_Cons)
    have "\<forall>j<cap. e_alive (es[i := e] ! j) \<or> fresh (es[i := e] ! j)"
      using Cons.prems(5) True len by (metis nth_list_update_eq nth_list_update_neq)
    then have "\<exists>es'. map_rehash old cap (es[i := e]) (n + 1) = Some (es', n + 1 + size (live old))
        \<and> table_inv es' cap \<and> live es' = live (es[i := e]) + live old
        \<and> (\<forall>i<cap. e_alive (es' ! i) \<or> fresh (es' ! i))"
      using ti Cons.prems True by (intro Cons.IH) (auto simp: lv live_Cons)
    then show ?thesis using True i by (simp add: lv live_Cons)
  qed
qed

lemma table_inv_empty: "cap_ok cap \<Longrightarrow> table_inv (replicate cap empty_entry) cap"
  by (simp add: table_inv_def no_clash_def) (simp add: empty_entry_def)

lemma cap_ok_double: "cap_ok cap \<Longrightarrow> 2 * cap < 2 ^ 31 \<Longrightarrow> cap_ok (2 * cap)"
proof -
  assume a: "cap_ok cap" "2 * cap < 2 ^ 31"
  then obtain k where k: "1 \<le> k" "cap = 2 ^ k" by (auto simp: cap_ok_def)
  then have "(2::nat) ^ Suc k < 2 ^ 31" using a(2) by simp
  then have "Suc k < 31" using power_less_imp_less_exp [of "2::nat" "Suc k" 31] by simp
  with k show "cap_ok (2 * cap)" unfolding cap_ok_def by (intro exI [of _ "Suc k"]) simp
qed

text \<open>Doubling the table ends, keeps every live entry, drops the tombstones.\<close>

lemma map_data_resize_correct:
  assumes inv: "map_inv md" and ok: "alloc_ok" "2 * m_capacity md < 2 ^ 31"
  shows "\<exists>md'. map_data_resize alloc_ok md (m_capacity md * 2) = Some (md', True) \<and> map_inv md'
    \<and> live (m_entries md') = live (m_entries md) \<and> m_capacity md' = 2 * m_capacity md
    \<and> (\<exists>i<m_capacity md'. fresh (m_entries md' ! i))"
proof -
  let ?es = "m_entries md" and ?cap = "2 * m_capacity md"
  let ?new = "replicate ?cap empty_entry"
  have ti: "cap_ok (m_capacity md)" "length ?es = m_capacity md" "no_clash (live ?es)"
      "\<forall>e\<in>#live ?es. e_hash e = hash_value (e_key e)"
    using inv by (auto simp: map_inv_def table_inv_def)
  have cap: "cap_ok ?cap" using cap_ok_double [OF ti(1)] ok by simp
  have "size (live ?es) \<le> size (mset ?es)" unfolding live_def by (rule size_mset_mono) simp
  then have sz: "size (live ?es) < ?cap" using ti(1,2) cap_okD by fastforce
  have "\<forall>i<?cap. e_alive (?new ! i) \<or> fresh (?new ! i)"
    by (simp add: fresh_def empty_entry_def MAP_TOMBSTONE_HASH_def)
  then obtain es' where es': "map_rehash ?es ?cap ?new 0 = Some (es', size (live ?es))"
      "table_inv es' ?cap" "live es' = live ?es" "\<forall>i<?cap. e_alive (es' ! i) \<or> fresh (es' ! i)"
    using map_rehash_correct [OF table_inv_empty [OF cap], of ?es 0] ti(3,4) sz by auto
  have "length es' = ?cap" using es'(2) by (simp add: table_inv_def)
  then have "\<exists>i<?cap. \<not> e_alive (es' ! i)" using live_full [of es'] es'(3) sz by fastforce
  then have "\<exists>i<?cap. fresh (es' ! i)" using es'(4) by blast
  with es' ok show ?thesis
    by (simp add: map_data_resize_def map_inv_def mult.commute [of _ 2])
qed

subsection \<open>Set, delete, clear\<close>

lemma map_lookup_live_cong:
  assumes "map_inv md" "map_inv md'" "live (m_entries md') = live (m_entries md)"
  shows "map_lookup md' k = map_lookup md k"
  using map_lookup_iff [OF assms(1)] map_lookup_iff [OF assms(2)] assms(3)
  by (intro map_lookup_eqI) auto

text \<open>The table that the scan of \<open>map_data_set\<close> runs on.\<close>

lemma map_data_set_cases:
  assumes "map_inv md"
  obtains (stored) md1 where "map_data_set alloc_ok md k v = Some (map_store md1 k v)" "map_inv md1"
      "live (m_entries md1) = live (m_entries md)"
      "md1 = md \<and> 4 * (m_count md + 1) \<le> 3 * m_capacity md \<or> (\<exists>i<m_capacity md1. fresh (m_entries md1 ! i))"
    | (failed) "map_data_set alloc_ok md k v = Some (md, False)" "\<not> alloc_ok \<or> 2 * m_capacity md \<ge> 2 ^ 31"
proof (cases "4 * (m_count md + 1) > 3 * m_capacity md")
  case False
  then show ?thesis using stored [of md] assms by (simp add: map_data_set_def)
next
  case True
  show ?thesis
  proof (cases "alloc_ok \<and> 2 * m_capacity md < 2 ^ 31")
    case ok: True
    then obtain md' where "map_data_resize alloc_ok md (m_capacity md * 2) = Some (md', True)" "map_inv md'"
        "live (m_entries md') = live (m_entries md)" "\<exists>i<m_capacity md'. fresh (m_entries md' ! i)"
      using map_data_resize_correct [OF assms, of alloc_ok] by blast
    then show ?thesis using True stored [of md'] by (simp add: map_data_set_def)
  next
    case bad: False
    then have "map_data_set alloc_ok md k v = Some (md, False)"
      using True by (auto simp: map_data_set_def map_data_resize_def)
    then show ?thesis using bad failed by auto
  qed
qed

text \<open>\<open>map_data_set\<close> as a total function: it always returns (\<open>map_data_set_total\<close>).\<close>

definition map_put :: "bool \<Rightarrow> map_data \<Rightarrow> lr_value \<Rightarrow> lr_value \<Rightarrow> map_data \<times> bool" where
  "map_put alloc_ok md k v = (case map_data_set alloc_ok md k v of Some r \<Rightarrow> r | None \<Rightarrow> (md, False))"

lemma map_data_set_total: "map_inv md \<Longrightarrow> map_data_set alloc_ok md k v = Some (map_put alloc_ok md k v)"
  by (erule map_data_set_cases [where alloc_ok = alloc_ok and k = k and v = v]) (simp_all add: map_put_def)

lemma map_put_inv: "map_inv md \<Longrightarrow> map_inv (fst (map_put alloc_ok md k v))"
  by (rule map_data_set_cases [where md = md and alloc_ok = alloc_ok and k = k and v = v])
     (simp_all add: map_put_def map_store_inv)

lemma map_put_lookup:
  assumes "map_inv md" "snd (map_put alloc_ok md k v)"
  shows "map_lookup (fst (map_put alloc_ok md k v)) k' = (if key_match k k' then Some v else map_lookup md k')"
  using assms(1)
proof (cases rule: map_data_set_cases [where alloc_ok = alloc_ok and k = k and v = v])
  case (stored md1)
  then have "snd (map_store md1 k v)" using assms(2) by (simp add: map_put_def)
  with stored assms(1) show ?thesis
    by (simp add: map_put_def map_store_lookup map_lookup_live_cong [of md md1])
next
  case failed
  then show ?thesis using assms(2) by (simp add: map_put_def)
qed

lemma map_put_fail:
  assumes "map_inv md" "\<not> snd (map_put alloc_ok md k v)"
  shows "fst (map_put alloc_ok md k v) = md \<and>
    (\<not> alloc_ok \<or> 2 * m_capacity md \<ge> 2 ^ 31 \<or> (\<forall>i<m_capacity md. \<not> fresh (m_entries md ! i)))"
  using assms(1)
proof (cases rule: map_data_set_cases [where alloc_ok = alloc_ok and k = k and v = v])
  case (stored md1)
  then have "\<not> snd (map_store md1 k v)" using assms(2) by (simp add: map_put_def)
  from map_store_fail [OF stored(2) this] stored(1,4) show ?thesis by (auto simp: map_put_def)
next
  case failed
  then show ?thesis by (auto simp: map_put_def)
qed

text \<open>When \<open>set\<close> stores: above the load factor, exactly when the table can be doubled; else exactly when the key is there
  or some slot was never used (tombstones do not count).\<close>

definition set_stores :: "bool \<Rightarrow> map_data \<Rightarrow> lr_value \<Rightarrow> bool" where
  "set_stores alloc_ok md k \<longleftrightarrow>
     (if 4 * (m_count md + 1) > 3 * m_capacity md then alloc_ok \<and> 2 * m_capacity md < 2 ^ 31
      else map_lookup md k \<noteq> None \<or> (\<exists>i<m_capacity md. fresh (m_entries md ! i)))"

lemma map_put_stores:
  assumes inv: "map_inv md"
  shows "snd (map_put alloc_ok md k v) = set_stores alloc_ok md k"
proof (cases "4 * (m_count md + 1) > 3 * m_capacity md")
  case False
  then have "map_put alloc_ok md k v = map_store md k v" by (simp add: map_put_def map_data_set_def)
  then show ?thesis using False map_store_succeeds [OF inv] by (simp add: set_stores_def)
next
  case full: True
  show ?thesis
  proof (cases "alloc_ok \<and> 2 * m_capacity md < 2 ^ 31")
    case False
    then have "map_data_set alloc_ok md k v = Some (md, False)"
      using full by (auto simp: map_data_set_def map_data_resize_def)
    then show ?thesis using full False by (auto simp: map_put_def set_stores_def)
  next
    case True
    then obtain md1 where "map_data_set alloc_ok md k v = Some (map_store md1 k v)" "map_inv md1"
        "\<exists>i<m_capacity md1. fresh (m_entries md1 ! i)"
      using full by (cases rule: map_data_set_cases [OF inv, where alloc_ok = alloc_ok and k = k and v = v]) auto
    then show ?thesis using full True map_store_succeeds [of md1] by (simp add: map_put_def set_stores_def)
  qed
qed

lemma map_data_new_inv: "map_inv map_data_new"
proof -
  have "cap_ok 16" unfolding cap_ok_def by (intro exI [of _ 4]) simp
  then show ?thesis by (simp add: map_inv_def map_data_new_def table_inv_empty)
qed

lemma map_data_new_lookup [simp]: "map_lookup map_data_new k = None"
  by (subst map_lookup_None [OF map_data_new_inv]) (simp add: map_data_new_def)

interpretation map_table: key_table map_lookup "map_put alloc_ok" key_match map_inv
  by unfold_locales (simp_all add: map_put_inv map_put_lookup map_put_fail)

lemma map_delete_inv: "map_inv md \<Longrightarrow> map_inv (fst (map_delete md k))"
  and map_delete_lookup: "map_inv md \<Longrightarrow>
    map_lookup (fst (map_delete md k)) k' = (if key_match k k' then None else map_lookup md k')"
  and map_delete_found: "map_inv md \<Longrightarrow> snd (map_delete md k) \<longleftrightarrow> map_lookup md k \<noteq> None"
proof -
  assume inv: "map_inv md"
  let ?es = "m_entries md" and ?cap = "m_capacity md"
  let ?tomb = "\<lparr>e_key = LR_UNDEFINED, e_value = LR_UNDEFINED, e_hash = MAP_TOMBSTONE_HASH, e_alive = False\<rparr>"
  have ti: "table_inv ?es ?cap" "length ?es = ?cap" "no_clash (live ?es)" and cnt: "m_count md = size (live ?es)"
    using inv by (auto simp: map_inv_def table_inv_def)
  show "snd (map_delete md k) \<longleftrightarrow> map_lookup md k \<noteq> None"
    by (simp add: map_delete_def map_lookup_def split: option.splits)
  have "map_inv (fst (map_delete md k)) \<and> map_lookup (fst (map_delete md k)) k' =
      (if key_match k k' then None else map_lookup md k')"
  proof (cases "map_find md k")
    case None
    then have "map_lookup md k' = None" if "key_match k k'"
      using that map_find_None [OF inv None] map_lookup_None [OF inv]
      by (meson key_match_sym key_match_trans)
    with None inv show ?thesis by (simp add: map_delete_def)
  next
    case (Some i)
    have i: "i < ?cap" "?es ! i \<in># live ?es" "e_alive (?es ! i)" "key_match (e_key (?es ! i)) k"
      using map_find_Some [OF inv Some] by auto
    have lv: "live (?es[i := ?tomb]) = live ?es - {#?es ! i#}"
      using i ti(2) by (simp add: live_update)
    have "table_inv (?es[i := ?tomb]) ?cap"
      using ti(1) i(1) no_clash_subset [OF ti(3)] by (intro table_inv_update) (auto simp: fresh_def lv)
    then have inv': "map_inv (fst (map_delete md k))"
      using Some i(2) lv cnt by (simp add: map_delete_def map_inv_def size_Diff_singleton)
    have lv': "live (m_entries (fst (map_delete md k))) = live ?es - {#?es ! i#}"
      using Some lv by (simp add: map_delete_def)
    have km: "key_match (e_key (?es ! i)) k' = key_match k k'"
      using i(4) by (meson key_match_sym key_match_trans)
    have gone: "\<not> key_match (e_key e) k'" if "e \<in># live ?es - {#?es ! i#}" "key_match k k'" for e
      using pair_subset [OF that(1) i(2)] ti(3) km that(2) unfolding no_clash_def
      by (meson key_match_sym key_match_trans)
    have kept: "e \<in># live ?es - {#?es ! i#} \<longleftrightarrow> e \<in># live ?es"
      if "key_match (e_key e) k'" "\<not> key_match k k'" for e
      using that km by (cases "e = ?es ! i") (auto simp: in_diff_count)
    have "map_lookup (fst (map_delete md k)) k' = Some w \<longleftrightarrow>
        \<not> key_match k k' \<and> map_lookup md k' = Some w" for w
      unfolding map_lookup_iff [OF inv'] map_lookup_iff [OF inv] lv'
      using gone kept by (cases "key_match k k'") (simp_all, blast+)
    then show ?thesis using inv' by (intro conjI map_lookup_eqI) auto
  qed
  then show "map_inv (fst (map_delete md k))"
    and "map_lookup (fst (map_delete md k)) k' = (if key_match k k' then None else map_lookup md k')"
    by auto
qed

lemma map_clear_entry_dead [simp]: "\<not> e_alive (map_clear_entry e)"
  by (simp add: map_clear_entry_def)

lemma live_clear: "live (map map_clear_entry es) = {#}"
  by (induction es) (simp_all add: live_def)

lemma map_clear_inv:
  assumes "map_inv md"
  shows "map_inv (map_clear md)"
  using assms by (simp add: map_inv_def table_inv_def map_clear_def live_clear no_clash_def)

lemma map_clear_lookup: "map_inv md \<Longrightarrow> map_lookup (map_clear md) k = None"
  by (subst map_lookup_None [OF map_clear_inv]) (simp_all add: map_clear_def live_clear)

section \<open>Map objects\<close>

lemma js_map_get_lookup: "js_map_get (Data m) [k] =
    Ret (case map_lookup (mdata m) k of Some v \<Rightarrow> v | None \<Rightarrow> LR_UNDEFINED)"
  by (simp add: js_map_get_def map_lookup_def split: option.splits)

lemma js_map_has_lookup: "js_map_has (Data m) [k] = Ret (LR_BOOL (map_lookup (mdata m) k \<noteq> None))"
  by (simp add: js_map_has_def map_find_lookup)

lemma map_populate_put_all:
  assumes "map_inv md"
  shows "map_populate alloc_ok md items =
    Some (fst (put_all (map_put alloc_ok) md (List.map_filter id items)))"
  using assms
proof (induction alloc_ok md items rule: map_populate.induct)
  case (3 alloc_ok md k v items)
  let ?r = "map_put alloc_ok md k v"
  have "map_data_set alloc_ok md k v = Some ?r" by (rule map_data_set_total [OF 3(2)])
  with 3 show ?case
    by (cases ?r) (simp add: map_filter_simps Let_def, metis fst_conv map_put_inv)
qed (simp_all add: map_filter_simps)

text \<open>The methods that change a Map, as labelled steps.\<close>

datatype map_op = Map_set bool lr_value lr_value | Map_delete lr_value | Map_clear

inductive map_step :: "map_obj \<Rightarrow> map_op \<Rightarrow> map_obj \<Rightarrow> bool" where
  "js_map_set alloc_ok (Data m) [k, v] = Some (RetThis, Data m') \<Longrightarrow> map_step m (Map_set alloc_ok k v) m'"
| "js_map_delete (Data m) [k] = (r, Data m') \<Longrightarrow> map_step m (Map_delete k) m'"
| "js_map_clear (Data m) = (r, Data m') \<Longrightarrow> map_step m Map_clear m'"

inductive_cases map_step_cases: "map_step m op m'"

inductive map_reachable :: "map_obj \<Rightarrow> bool" where
  "js_map_constructor new_ok alloc_ok it = Some (Constructed m) \<Longrightarrow> map_reachable m"
| "map_reachable m \<Longrightarrow> map_step m op m' \<Longrightarrow> map_reachable m'"

definition map_obj_inv :: "map_obj \<Rightarrow> bool" where
  "map_obj_inv m \<longleftrightarrow> map_inv (mdata m) \<and> size_prop m = m_count (mdata m)"

lemma js_map_set_put:
  assumes "map_inv (mdata m)"
  shows "js_map_set alloc_ok (Data m) [k, v] =
    Some (RetThis, Data \<lparr>mdata = fst (map_put alloc_ok (mdata m) k v),
                         size_prop = m_count (fst (map_put alloc_ok (mdata m) k v))\<rparr>)"
  by (cases "map_put alloc_ok (mdata m) k v")
     (simp add: js_map_set_def map_data_set_total [OF assms] map_sync_size_def)

lemma js_map_delete_eq:
  "js_map_delete (Data m) [k] = (Ret (LR_BOOL (snd (map_delete (mdata m) k))),
     Data (if snd (map_delete (mdata m) k)
           then \<lparr>mdata = fst (map_delete (mdata m) k), size_prop = m_count (fst (map_delete (mdata m) k))\<rparr>
           else m))"
  by (cases "map_delete (mdata m) k") (auto simp: js_map_delete_def map_sync_size_def split: bool.splits)

lemma map_delete_unchanged: "\<not> snd (map_delete md k) \<Longrightarrow> fst (map_delete md k) = md"
  by (simp add: map_delete_def split: option.splits)

lemma map_step_inv:
  assumes "map_step m op m'" "map_obj_inv m"
  shows "map_obj_inv m'"
  using assms
proof (cases rule: map_step.cases)
  case (1 alloc_ok k v)
  then show ?thesis using assms(2) by (auto simp: js_map_set_put map_obj_inv_def map_put_inv)
next
  case (2 k r)
  then show ?thesis using assms(2) by (auto simp: js_map_delete_eq map_obj_inv_def map_delete_inv split: if_splits)
next
  case (3 r)
  then show ?thesis using assms(2)
    by (auto simp: js_map_clear_def map_obj_inv_def map_clear_inv map_sync_size_def)
qed

lemma js_map_constructor_inv:
  "js_map_constructor new_ok alloc_ok it = Some (Constructed m) \<Longrightarrow> map_obj_inv m"
  by (auto split: if_splits simp: js_map_constructor_def map_populate_put_all map_data_new_inv map_obj_inv_def
      map_table.invar_put_all)

lemma map_reachable_obj_inv: "map_reachable m \<Longrightarrow> map_obj_inv m"
  by (induction rule: map_reachable.induct) (blast intro: js_map_constructor_inv map_step_inv)+

section \<open>Iteration\<close>

lemma map_iter_scan_spec:
  assumes "length (m_entries md) = m_capacity md"
  shows "case map_iter_scan md kind i of
      (None, j) \<Rightarrow> filter e_alive (drop i (m_entries md)) = []
    | (Some x, j) \<Rightarrow> i < j \<and> j \<le> m_capacity md \<and>
        map (map_item kind) (filter e_alive (drop i (m_entries md))) =
        x # map (map_item kind) (filter e_alive (drop j (m_entries md)))"
  using assms
proof (induction md kind i rule: map_iter_scan.induct)
  case (1 md kind i)
  show ?case
  proof (cases "i < m_capacity md")
    case True
    then have "drop i (m_entries md) = m_entries md ! i # drop (Suc i) (m_entries md)"
      using 1(2) by (simp add: Cons_nth_drop_Suc)
    then show ?thesis using 1 True by (subst map_iter_scan.simps) (auto split: prod.splits option.splits)
  next
    case False
    then show ?thesis using 1(2) by (subst map_iter_scan.simps) simp
  qed
qed

lemma map_iter_drain_spec:
  assumes "length (m_entries md) = m_capacity md" "m_capacity md - it_index it < fuel"
  shows "map_iter_drain fuel md it =
    Some (map (map_item (it_kind it)) (filter e_alive (drop (it_index it) (m_entries md))))"
  using assms(2)
proof (induction fuel arbitrary: it)
  case 0
  then show ?case by simp
next
  case (Suc fuel)
  show ?case
  proof (cases "map_iter_scan md (it_kind it) (it_index it)")
    case (Pair r j)
    show ?thesis
    proof (cases r)
      case None
      with Pair map_iter_scan_spec [OF assms(1), where kind = "it_kind it" and i = "it_index it"] show ?thesis
        by (simp add: map_iter_next_def)
    next
      case (Some x)
      have sp: "it_index it < j" "j \<le> m_capacity md"
          "map (map_item (it_kind it)) (filter e_alive (drop (it_index it) (m_entries md))) =
           x # map (map_item (it_kind it)) (filter e_alive (drop j (m_entries md)))"
        using Pair Some map_iter_scan_spec [OF assms(1), where kind = "it_kind it" and i = "it_index it"] by auto
      have "m_capacity md - it_index (it\<lparr>it_index := j\<rparr>) < fuel" using sp Suc.prems by simp
      from Suc.IH [OF this] show ?thesis using Pair Some sp(3)
        by (simp add: map_iter_next_def)
    qed
  qed
qed

lemma map_forEach_spec:
  assumes "length (m_entries (mdata m)) = m_capacity (mdata m)" "m_capacity (mdata m) - i < fuel"
  shows "map_forEach_loop fuel (\<lambda>v k w m. (f v k w, m)) i w m =
    Some (fold (\<lambda>e. f (e_value e) (e_key e)) (filter e_alive (drop i (m_entries (mdata m)))) w, m)"
  using assms(2)
proof (induction fuel arbitrary: i w)
  case 0
  then show ?case by simp
next
  case (Suc fuel)
  show ?case
  proof (cases "i < m_capacity (mdata m)")
    case True
    then have "drop i (m_entries (mdata m)) = m_entries (mdata m) ! i # drop (Suc i) (m_entries (mdata m))"
      using assms(1) by (simp add: Cons_nth_drop_Suc)
    then show ?thesis using Suc.IH [of "Suc i"] Suc.prems True by auto
  next
    case False
    then show ?thesis using assms(1) by simp
  qed
qed

lemma map_new_reachable: "map_reachable \<lparr>mdata = map_data_new, size_prop = 0\<rparr>"
proof -
  have "js_map_constructor True True Absent = Some (Constructed \<lparr>mdata = map_data_new, size_prop = 0\<rparr>)"
    by (simp add: js_map_constructor_def iterable_items_def map_data_new_def)
  then show ?thesis by (rule map_reachable.intros)
qed

section \<open>Properties\<close>

text \<open>(C16) Every Map object that the constructor and the mutating methods can produce satisfies the
  table invariant (power-of-two capacity, every live entry stored under the hash of its key
  and reachable from its home slot without crossing a never-used slot, no two live entries
  with matching keys), and its \<open>size\<close> property, the internal count and the number of live
  entries agree.\<close>

theorem map_reachable_invariant:
  assumes "map_reachable m"
  shows "map_inv (mdata m) \<and> size_prop m = size (live (m_entries (mdata m)))
    \<and> js_map_get_size (Data m) = Ret (LR_INT32 (word_of_nat (size_prop m)))"
  using map_reachable_obj_inv [OF assms]
  by (auto simp: map_obj_inv_def map_inv_def js_map_get_size_def)

theorem map_reachable_invariant_witness:
  "map_inv map_data_new \<and> js_map_get_size (Data \<lparr>mdata = map_data_new, size_prop = 0\<rparr>) = Ret (LR_INT32 0)"
proof -
  from map_reachable_invariant [OF map_new_reachable] show ?thesis by simp
qed

text \<open>What a Map promises: a function from keys to values, up to matching keys. A \<open>set\<close> that does not store leaves the map as it
  was (and reports success to the script all the same).\<close>

definition amap_step :: "map_obj \<Rightarrow> map_op \<Rightarrow> (lr_value \<Rightarrow> lr_value option) \<Rightarrow> (lr_value \<Rightarrow> lr_value option) \<Rightarrow> bool" where
  "amap_step m op f g =
     (case op of
        Map_set alloc_ok k v \<Rightarrow>
          g = (if set_stores alloc_ok (mdata m) k then \<lambda>k'. if key_match k k' then Some v else f k' else f)
      | Map_delete k \<Rightarrow> g = (\<lambda>k'. if key_match k k' then None else f k')
      | Map_clear \<Rightarrow> g = (\<lambda>_. None))"

text \<open>(C4) The hash table refines a finite map: each method step of a reachable Map is a step of the abstract map under
  \<open>map_lookup\<close>, and \<open>get\<close> and \<open>has\<close> read that map. \<open>delete\<close> and \<open>clear\<close> always take effect. \<open>set\<close> takes effect exactly when
  \<open>set_stores\<close> says so: above the load factor when the table can be doubled, below it when the key is already there or a slot
  was never used; in every other state of the table it silently leaves the map as it was.\<close>

theorem map_refines_finite_map:
  assumes "map_reachable m" "map_step m op m'"
  shows "amap_step m op (map_lookup (mdata m)) (map_lookup (mdata m'))
    \<and> js_map_get (Data m') [k] = Ret (case map_lookup (mdata m') k of Some v \<Rightarrow> v | None \<Rightarrow> LR_UNDEFINED)
    \<and> js_map_has (Data m') [k] = Ret (LR_BOOL (map_lookup (mdata m') k \<noteq> None))"
proof -
  have inv: "map_inv (mdata m)" using map_reachable_obj_inv [OF assms(1)] by (simp add: map_obj_inv_def)
  have "amap_step m op (map_lookup (mdata m)) (map_lookup (mdata m'))"
    using assms(2)
  proof (cases rule: map_step.cases)
    case (1 alloc_ok k v)
    then have "mdata m' = fst (map_put alloc_ok (mdata m) k v)" using inv by (auto simp: js_map_set_put)
    then show ?thesis using 1(1) map_put_lookup [OF inv, of alloc_ok k v] map_put_fail [OF inv, of alloc_ok k v]
        map_put_stores [OF inv, of alloc_ok k v]
      by (cases "set_stores alloc_ok (mdata m) k") (auto simp: amap_step_def)
  next
    case (2 k r)
    then have "mdata m' = fst (map_delete (mdata m) k)"
      by (auto simp: js_map_delete_eq map_delete_unchanged split: if_splits)
    then show ?thesis using 2(1) map_delete_lookup [OF inv] by (auto simp: amap_step_def)
  next
    case (3 r)
    then have "mdata m' = map_clear (mdata m)" by (auto simp: js_map_clear_def map_sync_size_def)
    then show ?thesis using 3(1) map_clear_lookup [OF inv] by (auto simp: amap_step_def)
  qed
  then show ?thesis by (simp add: js_map_get_lookup js_map_has_lookup)
qed

theorem map_refines_finite_map_witness:
  "\<exists>m'. map_step \<lparr>mdata = map_data_new, size_prop = 0\<rparr> (Map_set True (LR_BOOL True) LR_NULL) m'
    \<and> js_map_get (Data m') [LR_BOOL True] = Ret LR_NULL"
proof -
  let ?m = "\<lparr>mdata = map_data_new, size_prop = 0\<rparr>"
  let ?m' = "\<lparr>mdata = fst (map_put True map_data_new (LR_BOOL True) LR_NULL),
              size_prop = m_count (fst (map_put True map_data_new (LR_BOOL True) LR_NULL))\<rparr>"
  have r: "map_reachable ?m" by (rule map_new_reachable)
  have st: "map_step ?m (Map_set True (LR_BOOL True) LR_NULL) ?m'"
    by (rule map_step.intros) (simp add: js_map_set_put map_data_new_inv)
  have "fresh (m_entries map_data_new ! 0)" "m_capacity map_data_new = 16" "m_count map_data_new = 0"
    by (simp_all add: map_data_new_def fresh_def empty_entry_def MAP_TOMBSTONE_HASH_def)
  then have "set_stores True (mdata ?m) (LR_BOOL True)" by (auto simp: set_stores_def intro!: exI [of _ "0::nat"])
  then have "map_lookup (mdata ?m') (LR_BOOL True) = Some LR_NULL"
    using map_refines_finite_map [OF r st, of "LR_BOOL True"] key_match_refl [of "LR_BOOL True"]
    by (simp add: amap_step_def)
  with st show ?thesis by (auto simp: js_map_get_lookup)
qed

text \<open>\<open>new Map(pairs)\<close>: the constructor returns, non-object elements are skipped, and a key
  reads the value of the last stored pair whose key matches it.\<close>

theorem js_map_constructor_last_wins:
  "\<exists>m. js_map_constructor True alloc_ok it = Some (Constructed m) \<and>
    js_map_get (Data m) [k] =
      Ret (case find (\<lambda>kv. key_match (fst kv) k)
                  (rev (snd (put_all (map_put alloc_ok) map_data_new (List.map_filter id (iterable_items it))))) of
             Some kv \<Rightarrow> snd kv | None \<Rightarrow> LR_UNDEFINED)"
  using map_table.lookup_put_all [OF map_data_new_inv]
  by (auto simp: js_map_constructor_def map_populate_put_all map_data_new_inv js_map_get_lookup
      split: option.splits)

text \<open>(C17) \<open>set\<close> is not lost when the table could grow (the allocation would succeed and twice the capacity is below
  \<open>2^31\<close>) and also has a never-used slot: the key reads back the new value, every key that does not match is unchanged.\<close>

theorem js_map_set_get:
  assumes "map_reachable m" "alloc_ok" "2 * m_capacity (mdata m) < 2 ^ 31"
    "i < m_capacity (mdata m)" "fresh (m_entries (mdata m) ! i)"
  shows "\<exists>m'. js_map_set alloc_ok (Data m) [k, v] = Some (RetThis, Data m') \<and>
    js_map_get (Data m') [k'] = (if key_match k k' then Ret v else js_map_get (Data m) [k'])"
proof -
  have inv: "map_inv (mdata m)" using map_reachable_obj_inv [OF assms(1)] by (simp add: map_obj_inv_def)
  have "snd (map_put alloc_ok (mdata m) k v)"
    using map_put_fail [OF inv, of alloc_ok k v] assms(2-) by auto
  from map_put_lookup [OF inv this] show ?thesis
    by (auto simp: js_map_set_put [OF inv] js_map_get_lookup)
qed

theorem js_map_set_get_witness:
  "\<exists>m'. js_map_set True (Data \<lparr>mdata = map_data_new, size_prop = 0\<rparr>) [LR_NULL, LR_BOOL True]
      = Some (RetThis, Data m') \<and> js_map_get (Data m') [LR_NULL] = Ret (LR_BOOL True)"
proof -
  let ?m = "\<lparr>mdata = map_data_new, size_prop = 0\<rparr>"
  have "map_reachable ?m" by (rule map_new_reachable)
  moreover have "fresh (m_entries (mdata ?m) ! 0)"
    by (simp add: map_data_new_def fresh_def empty_entry_def MAP_TOMBSTONE_HASH_def)
  ultimately show ?thesis
    using js_map_set_get [of ?m True 0 LR_NULL "LR_BOOL True" LR_NULL] key_match_refl [of LR_NULL]
    by (simp add: map_data_new_def)
qed

text \<open>\<open>for (i = 0; i < n; i++) { m.set(i, null); m.delete(i); }\<close>\<close>

fun map_churn :: "nat \<Rightarrow> map_data \<Rightarrow> map_data option" where
  "map_churn 0 md = Some md"
| "map_churn (Suc n) md =
     (case map_churn n md of
        None \<Rightarrow> None
      | Some md1 \<Rightarrow>
          (case map_data_set True md1 (LR_INT32 (word_of_nat n)) LR_NULL of
             None \<Rightarrow> None
           | Some (md2, ok) \<Rightarrow> Some (fst (map_delete md2 (LR_INT32 (word_of_nat n))))))"

text \<open>Tombstones are never reclaimed below the load factor, which counts live entries only:
  after sixteen insertions and deletions an empty Map has no never-used slot, and \<open>set\<close>
  returns the Map without storing the key.\<close>

theorem map_set_lost_after_churn:
  "(case map_churn 16 map_data_new of
      Some md \<Rightarrow> m_count md = 0 \<and> map_data_set True md (LR_INT32 16) LR_NULL = Some (md, False)
    | None \<Rightarrow> False)"
  by code_simp

text \<open>(C18) An iterator over an unchanged Map yields, in table order, exactly one item for every live
  entry and then \<open>done\<close>, and \<open>forEach\<close> with a callback that leaves the Map alone visits the same
  entries in the same order; \<open>capacity + 1\<close> turns are enough.\<close>

theorem map_iteration_complete:
  assumes "map_reachable m" "m_capacity (mdata m) < fuel"
  shows "map_iter_drain fuel (mdata m) (map_iterator_data_new (mdata m) kind) =
      Some (map (map_item kind) (filter e_alive (m_entries (mdata m))))
    \<and> js_map_forEach fuel (Data m) (Some (\<lambda>v k w m. (f v k w, m))) w =
      Some (Ret LR_UNDEFINED, fold (\<lambda>e. f (e_value e) (e_key e)) (filter e_alive (m_entries (mdata m))) w, Data m)"
proof -
  have "length (m_entries (mdata m)) = m_capacity (mdata m)"
    using map_reachable_obj_inv [OF assms(1)] by (simp add: map_obj_inv_def map_inv_def table_inv_def)
  then show ?thesis
    using assms(2) by (simp add: map_iter_drain_spec map_forEach_spec map_iterator_data_new_def js_map_forEach_def)
qed

theorem map_iteration_complete_witness:
  "map_iter_drain 17 map_data_new (map_iterator_data_new map_data_new Iter_keys) = Some []"
proof -
  let ?m = "\<lparr>mdata = map_data_new, size_prop = 0\<rparr>"
  have "map_reachable ?m" by (rule map_new_reachable)
  from map_iteration_complete [OF this, of 17 Iter_keys "\<lambda>_ _ w. w" "()"] show ?thesis
    by (simp add: map_data_new_def empty_entry_def)
qed

end
