(* ===== verification/LR_Set.thy ===== *)
theory LR_Set
  imports LR_Map
begin

text \<open>
  The Set builtin, \<^verbatim>\<open>src/lr_set.c\<close>. The table is the one of the Map without values and without
  tombstones: \<open>delete\<close> clears the \<open>alive\<close> flag and \<open>add\<close> takes the first slot that is not alive.
  The outer \<open>option\<close> is \<open>None\<close> where a loop would not end.
\<close>

section \<open>Data\<close>

text \<open>The file has its own copies of the two key functions, with the same bodies as the Map's.\<close>

definition set_same_value_zero :: "lr_value \<Rightarrow> lr_value \<Rightarrow> bool" where
  [simp]: "set_same_value_zero a b = same_value_zero a b"

definition set_hash_value :: "lr_value \<Rightarrow> u32" where
  [simp]: "set_hash_value v = hash_value v"

record set_entry =
  s_value :: lr_value
  s_hash :: u32
  s_alive :: bool

record set_data =
  s_entries :: "set_entry list"
  s_count :: nat
  s_capacity :: nat
  s_iter_count :: u32

definition empty_set_entry :: set_entry where
  "empty_set_entry = \<lparr>s_value = LR_UNDEFINED, s_hash = 0, s_alive = False\<rparr>"

definition set_data_new :: set_data where
  "set_data_new = \<lparr>s_entries = replicate 16 empty_set_entry, s_count = 0, s_capacity = 16, s_iter_count = 0\<rparr>"

section \<open>Resize and add\<close>

fun set_rehash :: "set_entry list \<Rightarrow> nat \<Rightarrow> set_entry list \<Rightarrow> nat \<Rightarrow> (set_entry list \<times> nat) option" where
  "set_rehash [] cap es n = Some (es, n)"
| "set_rehash (e # old) cap es n =
     (if s_alive e then
        (case probe_find (\<lambda>i. \<not> s_alive (es ! i)) cap (slot_of (s_hash e) cap) cap of
           None \<Rightarrow> None
         | Some i \<Rightarrow> set_rehash old cap (es[i := e]) (n + 1))
      else set_rehash old cap es n)"

definition set_data_resize :: "bool \<Rightarrow> set_data \<Rightarrow> nat \<Rightarrow> (set_data \<times> bool) option" where
  "set_data_resize alloc_ok sd new_capacity =
     (if \<not> alloc_ok \<or> new_capacity \<ge> 2 ^ 31 then Some (sd, False)
      else case set_rehash (s_entries sd) new_capacity (replicate new_capacity empty_set_entry) 0 of
             None \<Rightarrow> None
           | Some (es, n) \<Rightarrow>
               Some (sd\<lparr>s_entries := es, s_capacity := new_capacity, s_count := n\<rparr>, True))"

text \<open>
  The \<open>while (1)\<close> of \<open>set_data_add\<close> visits the slots cyclically: if none of \<open>capacity\<close>
  consecutive slots ends it, nothing does.
\<close>

definition set_store :: "set_data \<Rightarrow> lr_value \<Rightarrow> (set_data \<times> bool) option" where
  "set_store sd v =
     (let h = set_hash_value v in
      case probe_find (\<lambda>i. \<not> s_alive (s_entries sd ! i) \<or>
               s_hash (s_entries sd ! i) = h \<and> set_same_value_zero (s_value (s_entries sd ! i)) v)
             (s_capacity sd) (slot_of h (s_capacity sd)) (s_capacity sd) of
        None \<Rightarrow> None
      | Some i \<Rightarrow>
          if \<not> s_alive (s_entries sd ! i) then
            Some (sd\<lparr>s_entries := (s_entries sd)[i := \<lparr>s_value = v, s_hash = h, s_alive = True\<rparr>],
                     s_count := s_count sd + 1, s_iter_count := s_iter_count sd + 1\<rparr>, True)
          else Some (sd, True))"

definition set_data_add :: "bool \<Rightarrow> set_data \<Rightarrow> lr_value \<Rightarrow> (set_data \<times> bool) option" where
  "set_data_add alloc_ok sd v =
     (if 4 * (s_count sd + 1) > 3 * s_capacity sd then
        (case set_data_resize alloc_ok sd (s_capacity sd * 2) of
           None \<Rightarrow> None
         | Some (sd', False) \<Rightarrow> Some (sd', False)
         | Some (sd', True) \<Rightarrow> set_store sd' v)
      else set_store sd v)"

section \<open>Set.prototype\<close>

definition set_find :: "set_data \<Rightarrow> lr_value \<Rightarrow> nat option" where
  "set_find sd v =
     (let h = set_hash_value v in
      probe_find (\<lambda>i. s_alive (s_entries sd ! i) \<and> s_hash (s_entries sd ! i) = h
                      \<and> set_same_value_zero (s_value (s_entries sd ! i)) v)
        (s_capacity sd) (slot_of h (s_capacity sd)) (s_capacity sd))"

definition set_clear_entry :: "set_entry \<Rightarrow> set_entry" where
  "set_clear_entry e = (if s_alive e then e\<lparr>s_value := LR_UNDEFINED, s_alive := False\<rparr> else e)"

definition set_delete :: "set_data \<Rightarrow> lr_value \<Rightarrow> set_data \<times> bool" where
  "set_delete sd v =
     (case set_find sd v of
        Some i \<Rightarrow>
          (sd\<lparr>s_entries := (s_entries sd)[i := (s_entries sd ! i)\<lparr>s_value := LR_UNDEFINED, s_alive := False\<rparr>],
              s_count := s_count sd - 1, s_iter_count := s_iter_count sd + 1\<rparr>, True)
      | None \<Rightarrow> (sd, False))"

definition set_clear :: "set_data \<Rightarrow> set_data" where
  "set_clear sd = sd\<lparr>s_entries := map set_clear_entry (s_entries sd), s_count := 0,
                     s_iter_count := s_iter_count sd + 1\<rparr>"

record set_obj =
  sdata :: set_data
  s_size_prop :: nat

definition set_sync_size :: "set_obj \<Rightarrow> set_obj" where
  "set_sync_size m = m\<lparr>s_size_prop := s_count (sdata m)\<rparr>"

definition js_set_add :: "bool \<Rightarrow> set_obj receiver \<Rightarrow> lr_value list \<Rightarrow> (js_ret \<times> set_obj receiver) option" where
  "js_set_add alloc_ok this argv =
     (case this of
        NotObject \<Rightarrow> Some (TypeError ''Method Set.prototype.add called on incompatible receiver'', this)
      | NoData \<Rightarrow> Some (TypeError ''Set.prototype.add called on non-Set object'', this)
      | Data m \<Rightarrow>
          (case set_data_add alloc_ok (sdata m) (arg argv 0) of
             None \<Rightarrow> None
           | Some (sd, ok) \<Rightarrow> Some (RetThis, Data (set_sync_size (m\<lparr>sdata := sd\<rparr>)))))"

definition js_set_has :: "set_obj receiver \<Rightarrow> lr_value list \<Rightarrow> js_ret" where
  "js_set_has this argv =
     (case this of
        NotObject \<Rightarrow> TypeError ''Method Set.prototype.has called on incompatible receiver''
      | NoData \<Rightarrow> Ret (LR_BOOL False)
      | Data m \<Rightarrow> Ret (LR_BOOL (set_find (sdata m) (arg argv 0) \<noteq> None)))"

definition js_set_delete :: "set_obj receiver \<Rightarrow> lr_value list \<Rightarrow> js_ret \<times> set_obj receiver" where
  "js_set_delete this argv =
     (case this of
        NotObject \<Rightarrow> (TypeError ''Method Set.prototype.delete called on incompatible receiver'', this)
      | NoData \<Rightarrow> (Ret (LR_BOOL False), this)
      | Data m \<Rightarrow>
          (case set_delete (sdata m) (arg argv 0) of
             (sd, True) \<Rightarrow> (Ret (LR_BOOL True), Data (set_sync_size (m\<lparr>sdata := sd\<rparr>)))
           | (sd, False) \<Rightarrow> (Ret (LR_BOOL False), this)))"

definition js_set_clear :: "set_obj receiver \<Rightarrow> js_ret \<times> set_obj receiver" where
  "js_set_clear this =
     (case this of
        NotObject \<Rightarrow> (TypeError ''Method Set.prototype.clear called on incompatible receiver'', this)
      | NoData \<Rightarrow> (Ret LR_UNDEFINED, this)
      | Data m \<Rightarrow> (Ret LR_UNDEFINED, Data (set_sync_size (m\<lparr>sdata := set_clear (sdata m)\<rparr>))))"

definition js_set_get_size :: "set_obj receiver \<Rightarrow> js_ret" where
  "js_set_get_size this =
     (case this of
        NotObject \<Rightarrow> TypeError ''Method Set.prototype.size called on incompatible receiver''
      | NoData \<Rightarrow> Ret (LR_INT32 0)
      | Data m \<Rightarrow> Ret (LR_INT32 (word_of_nat (s_count (sdata m)))))"

fun set_populate :: "bool \<Rightarrow> set_data \<Rightarrow> lr_value list \<Rightarrow> set_data option" where
  "set_populate alloc_ok sd [] = Some sd"
| "set_populate alloc_ok sd (v # items) =
     (case set_data_add alloc_ok sd v of
        None \<Rightarrow> None
      | Some (sd', ok) \<Rightarrow> set_populate alloc_ok sd' items)"

definition js_set_constructor :: "bool \<Rightarrow> bool \<Rightarrow> lr_value iterable \<Rightarrow> set_obj ctor option" where
  "js_set_constructor new_ok alloc_ok it =
     (if \<not> new_ok then Some Ctor_exception
      else map_option (\<lambda>sd. Constructed \<lparr>sdata = sd, s_size_prop = s_count sd\<rparr>)
             (set_populate alloc_ok set_data_new (iterable_items it)))"

section \<open>Iteration\<close>

text \<open>\<open>kind\<close> is 0 for \<open>keys\<close> and \<open>values\<close>, 1 for \<open>entries\<close>.\<close>

record set_iterator =
  sit_index :: nat
  sit_entries :: bool
  sit_iter_count :: u32

definition set_iterator_data_new :: "set_data \<Rightarrow> bool \<Rightarrow> set_iterator" where
  "set_iterator_data_new sd kind = \<lparr>sit_index = 0, sit_entries = kind, sit_iter_count = s_iter_count sd\<rparr>"

definition set_item :: "bool \<Rightarrow> set_entry \<Rightarrow> iter_item" where
  "set_item kind e = (if kind then Item_pair (s_value e) (s_value e) else Item_value (s_value e))"

function set_iter_scan :: "set_data \<Rightarrow> bool \<Rightarrow> nat \<Rightarrow> iter_item option \<times> nat" where
  "set_iter_scan sd kind i =
     (if i < s_capacity sd then
        (if s_alive (s_entries sd ! i) then (Some (set_item kind (s_entries sd ! i)), i + 1)
         else set_iter_scan sd kind (i + 1))
      else (None, i))"
  by pat_completeness auto
termination
  by (relation "measure (\<lambda>(sd, kind, i). s_capacity sd - i)") auto

declare set_iter_scan.simps [simp del]

definition set_iter_next :: "set_data \<Rightarrow> set_iterator \<Rightarrow> iter_item option \<times> set_iterator" where
  "set_iter_next sd it =
     (case set_iter_scan sd (sit_entries it) (sit_index it) of (r, i) \<Rightarrow> (r, it\<lparr>sit_index := i\<rparr>))"

definition js_set_iterator_next ::
  "set_iterator receiver \<Rightarrow> set_data option \<Rightarrow> next_ret \<times> set_iterator receiver" where
  "js_set_iterator_next this sd =
     (case this of
        NotObject \<Rightarrow> (Next_error ''Iterator next called on non-object'', this)
      | NoData \<Rightarrow> (Next_error ''Iterator has no data'', this)
      | Data it \<Rightarrow>
          (case sd of
             None \<Rightarrow> (Next None, this)
           | Some d \<Rightarrow> (case set_iter_next d it of (r, it') \<Rightarrow> (Next r, Data it'))))"

definition create_set_iterator :: "string \<Rightarrow> bool \<Rightarrow> set_obj receiver \<Rightarrow> string + set_iterator" where
  "create_set_iterator meth kind this =
     (case this of
        NotObject \<Rightarrow> Inl (''Method Set.prototype.'' @ meth @ '' called on incompatible receiver'')
      | NoData \<Rightarrow> Inr \<lparr>sit_index = 0, sit_entries = kind, sit_iter_count = 0\<rparr>
      | Data m \<Rightarrow> Inr (set_iterator_data_new (sdata m) kind))"

fun set_iter_drain :: "nat \<Rightarrow> set_data \<Rightarrow> set_iterator \<Rightarrow> iter_item list option" where
  "set_iter_drain 0 sd it = None"
| "set_iter_drain (Suc fuel) sd it =
     (case set_iter_next sd it of
        (None, it') \<Rightarrow> Some []
      | (Some x, it') \<Rightarrow> map_option ((#) x) (set_iter_drain fuel sd it'))"

text \<open>\<open>forEach\<close>, as for the Map.\<close>

fun set_forEach_loop ::
  "nat \<Rightarrow> (lr_value \<Rightarrow> lr_value \<Rightarrow> 'w \<Rightarrow> set_obj \<Rightarrow> 'w \<times> set_obj) \<Rightarrow> nat \<Rightarrow> 'w \<Rightarrow> set_obj \<Rightarrow> ('w \<times> set_obj) option" where
  "set_forEach_loop 0 cb i w m = None"
| "set_forEach_loop (Suc fuel) cb i w m =
     (if i < s_capacity (sdata m) then
        (if s_alive (s_entries (sdata m) ! i) then
           (case cb (s_value (s_entries (sdata m) ! i)) (s_value (s_entries (sdata m) ! i)) w m of
              (w', m') \<Rightarrow> set_forEach_loop fuel cb (i + 1) w' m')
         else set_forEach_loop fuel cb (i + 1) w m)
      else Some (w, m))"

definition js_set_forEach ::
  "nat \<Rightarrow> set_obj receiver \<Rightarrow> (lr_value \<Rightarrow> lr_value \<Rightarrow> 'w \<Rightarrow> set_obj \<Rightarrow> 'w \<times> set_obj) option \<Rightarrow> 'w
     \<Rightarrow> (js_ret \<times> 'w \<times> set_obj receiver) option" where
  "js_set_forEach fuel this callback w =
     (case this of
        NotObject \<Rightarrow> Some (TypeError ''Method Set.prototype.forEach called on incompatible receiver'', w, this)
      | NoData \<Rightarrow> Some (Ret LR_UNDEFINED, w, this)
      | Data m \<Rightarrow>
          (case callback of
             None \<Rightarrow> Some (TypeError ''Callback must be a function'', w, this)
           | Some cb \<Rightarrow> map_option (\<lambda>(w', m'). (Ret LR_UNDEFINED, w', Data m')) (set_forEach_loop fuel cb 0 w m)))"

section \<open>A Set as a Map without values\<close>

definition entry_as_map :: "set_entry \<Rightarrow> map_entry" where
  "entry_as_map e = \<lparr>e_key = s_value e, e_value = LR_UNDEFINED, e_hash = s_hash e, e_alive = s_alive e\<rparr>"

definition set_as_map :: "set_data \<Rightarrow> map_data" where
  "set_as_map sd = \<lparr>m_entries = map entry_as_map (s_entries sd), m_count = s_count sd,
                    m_capacity = s_capacity sd, m_iter_count = s_iter_count sd\<rparr>"

lemma entry_as_map_sel [simp]:
  "e_key (entry_as_map e) = s_value e" "e_value (entry_as_map e) = LR_UNDEFINED"
  "e_hash (entry_as_map e) = s_hash e" "e_alive (entry_as_map e) = s_alive e"
  by (simp_all add: entry_as_map_def)

lemma set_as_map_sel [simp]:
  "m_entries (set_as_map sd) = map entry_as_map (s_entries sd)" "m_count (set_as_map sd) = s_count sd"
  "m_capacity (set_as_map sd) = s_capacity sd" "m_iter_count (set_as_map sd) = s_iter_count sd"
  by (simp_all add: set_as_map_def)

text \<open>Basic invariant: what every sequence of operations keeps.\<close>

definition set_inv :: "set_data \<Rightarrow> bool" where
  "set_inv sd \<longleftrightarrow> cap_ok (s_capacity sd) \<and> length (s_entries sd) = s_capacity sd \<and>
     (\<forall>e\<in>set (s_entries sd). s_hash e \<noteq> MAP_TOMBSTONE_HASH) \<and>
     (\<forall>e\<in>set (s_entries sd). s_alive e \<longrightarrow> s_hash e = hash_value (s_value e)) \<and>
     s_count sd = length (filter s_alive (s_entries sd))"

definition set_mem :: "set_data \<Rightarrow> lr_value \<Rightarrow> bool" where
  "set_mem sd v \<longleftrightarrow> (\<exists>e\<in>set (s_entries sd). s_alive e \<and> key_match (s_value e) v)"

lemma hash_value_not_tombstone [simp]: "hash_value v \<noteq> MAP_TOMBSTONE_HASH"
proof
  assume "hash_value v = MAP_TOMBSTONE_HASH"
  then have "bit (hash_raw v AND (0x7FFFFFFF :: u32)) 31 = bit (0x80000000 :: u32) 31"
    unfolding hash_value_def MAP_TOMBSTONE_HASH_def by metis
  then show False by (simp add: bit_and_iff)
qed

lemma probe_find_cong:
  assumes "cap_ok cap" "idx < cap" "\<And>i. i < cap \<Longrightarrow> P i = Q i"
  shows "probe_find P cap idx n = probe_find Q cap idx n"
  using assms(2)
proof (induction n arbitrary: idx)
  case (Suc n)
  have "next_slot cap idx < cap" using assms(1) Suc.prems cap_okD by (simp add: next_slot_mod)
  with Suc assms(3) show ?case by simp
qed simp

lemma set_find_mem:
  assumes "set_inv sd"
  shows "set_find sd v \<noteq> None \<longleftrightarrow> set_mem sd v"
proof -
  let ?P = "\<lambda>i. s_alive (s_entries sd ! i) \<and> s_hash (s_entries sd ! i) = hash_value v
              \<and> same_value_zero (s_value (s_entries sd ! i)) v"
  have c: "cap_ok (s_capacity sd)" and len: "length (s_entries sd) = s_capacity sd"
    and h: "\<And>e. e \<in> set (s_entries sd) \<Longrightarrow> s_alive e \<Longrightarrow> s_hash e = hash_value (s_value e)"
    using assms by (auto simp: set_inv_def)
  have "set_mem sd v \<longleftrightarrow> (\<exists>i < s_capacity sd. ?P i)"
    using h by (auto simp: set_mem_def in_set_conv_nth len key_match_def; metis len nth_mem)
  moreover have "set_find sd v \<noteq> None \<longleftrightarrow> (\<exists>i < s_capacity sd. ?P i)"
  proof (cases "set_find sd v")
    case None
    then have "\<not> ?P i" if "i < s_capacity sd" for i
      using probe_find_all_None [OF c slot_of_less [OF c], of ?P] that by (simp add: set_find_def Let_def)
    with None show ?thesis by blast
  next
    case (Some i)
    then have "probe_find ?P (s_capacity sd) (slot_of (hash_value v) (s_capacity sd)) (s_capacity sd) = Some i"
      by (simp add: set_find_def Let_def)
    then have "i < s_capacity sd \<and> ?P i" by (rule probe_find_all_Some [OF c slot_of_less [OF c]])
    with Some show ?thesis by blast
  qed
  ultimately show ?thesis by simp
qed

lemma filter_mset_update:
  "i < length xs \<Longrightarrow> mset (filter P (xs[i := x])) =
     mset (filter P xs) - (if P (xs ! i) then {#xs ! i#} else {#}) + (if P x then {#x#} else {#})"
  by (simp add: mset_update)

lemma filter_full_length: "\<forall>i<length xs. P (xs ! i) \<Longrightarrow> length (filter P xs) = length xs"
  by (metis filter_True in_set_conv_nth)

lemma set_rehash_correct:
  assumes "cap_ok cap" "length es = cap"
    "length (filter s_alive es) + length (filter s_alive old) < cap"
  shows "\<exists>es'. set_rehash old cap es n = Some (es', n + length (filter s_alive old)) \<and> length es' = cap
    \<and> mset (filter s_alive es') = mset (filter s_alive es) + mset (filter s_alive old)
    \<and> set es' \<subseteq> set es \<union> set old"
  using assms(2,3)
proof (induction old arbitrary: es n)
  case Nil
  then show ?case by simp
next
  case (Cons e old)
  show ?case
  proof (cases "s_alive e")
    case False
    from False Cons.prems have "length (filter s_alive es) + length (filter s_alive old) < cap" by simp
    from Cons.IH [OF Cons.prems(1) this, of n] False show ?thesis by auto
  next
    case True
    have "\<exists>i<cap. \<not> s_alive (es ! i)"
      using filter_full_length [of es s_alive] Cons.prems by fastforce
    then obtain i where i: "probe_find (\<lambda>i. \<not> s_alive (es ! i)) cap (slot_of (s_hash e) cap) cap = Some i"
      using probe_find_all_None [OF assms(1) slot_of_less [OF assms(1)]] by (metis not_None_eq)
    have ic: "i < cap" "\<not> s_alive (es ! i)"
      using probe_find_all_Some [OF assms(1) slot_of_less [OF assms(1)] i] by auto
    have ms: "mset (filter s_alive (es[i := e])) = add_mset e (mset (filter s_alive es))"
      using ic True Cons.prems(1) by (simp add: filter_mset_update del: mset_filter)
    have "length (filter s_alive (es[i := e])) = Suc (length (filter s_alive es))"
      using arg_cong [OF ms, of size] by (simp del: mset_filter)
    then have le: "length (filter s_alive (es[i := e])) + length (filter s_alive old) < cap"
      using Cons.prems(2) True by simp
    have "length (es[i := e]) = cap" using Cons.prems(1) by simp
    from Cons.IH [OF this le, of "n + 1"] obtain es' where es':
      "set_rehash old cap (es[i := e]) (n + 1) = Some (es', n + 1 + length (filter s_alive old))"
      "length es' = cap" "mset (filter s_alive es') = mset (filter s_alive (es[i := e])) + mset (filter s_alive old)"
      "set es' \<subseteq> set (es[i := e]) \<union> set old" by blast
    moreover have "set (es[i := e]) \<subseteq> insert e (set es)" by (rule set_update_subset_insert)
    ultimately show ?thesis using True i ms by (auto simp del: mset_filter)
  qed
qed

text \<open>Growing keeps the live entries, up to their order.\<close>

lemma set_data_resize_correct:
  assumes inv: "set_inv sd" and ok: "alloc_ok" "2 * s_capacity sd < 2 ^ 31"
  shows "\<exists>sd'. set_data_resize alloc_ok sd (s_capacity sd * 2) = Some (sd', True) \<and> set_inv sd'
    \<and> set_mem sd' = set_mem sd \<and> s_count sd' < s_capacity sd'"
proof -
  let ?cap = "2 * s_capacity sd"
  let ?new = "replicate ?cap empty_set_entry"
  have c: "cap_ok (s_capacity sd)" and len: "length (s_entries sd) = s_capacity sd"
    using inv by (auto simp: set_inv_def)
  have new: "filter s_alive ?new = []" by (simp add: empty_set_entry_def)
  have "length (filter s_alive (s_entries sd)) \<le> s_capacity sd" using len length_filter_le by metis
  then have sz: "length (filter s_alive ?new) + length (filter s_alive (s_entries sd)) < ?cap"
    unfolding new using c cap_okD by fastforce
  obtain es' where es': "set_rehash (s_entries sd) ?cap ?new 0 = Some (es', length (filter s_alive (s_entries sd)))"
      "length es' = ?cap" "mset (filter s_alive es') = mset (filter s_alive (s_entries sd))"
      "set es' \<subseteq> set ?new \<union> set (s_entries sd)"
    using set_rehash_correct [OF cap_ok_double [OF c ok(2)] length_replicate sz, of 0]
    unfolding new by (auto simp del: mset_filter)
  let ?sd = "sd\<lparr>s_entries := es', s_capacity := ?cap, s_count := length (filter s_alive (s_entries sd))\<rparr>"
  have live: "{e \<in> set es'. s_alive e} = {e \<in> set (s_entries sd). s_alive e}"
    using arg_cong [OF es'(3), of set_mset] by (simp only: set_mset_mset set_filter)
  have "length (filter s_alive es') = length (filter s_alive (s_entries sd))"
    using arg_cong [OF es'(3), of size] by (simp only: size_mset)
  moreover have "\<forall>e\<in>set es'. s_hash e \<noteq> MAP_TOMBSTONE_HASH"
    using es'(4) inv by (auto simp: set_inv_def empty_set_entry_def MAP_TOMBSTONE_HASH_def)
  moreover have "\<forall>e\<in>set es'. s_alive e \<longrightarrow> s_hash e = hash_value (s_value e)"
    using live inv by (auto simp: set_inv_def)
  ultimately have "set_inv ?sd" using cap_ok_double [OF c ok(2)] es'(2) by (simp add: set_inv_def)
  moreover have "set_mem ?sd = set_mem sd" using live by (fastforce simp: set_mem_def)
  moreover have "s_count ?sd < s_capacity ?sd" using sz new by simp
  ultimately show ?thesis using es'(1) ok
    by (intro exI [of _ ?sd]) (simp add: set_data_resize_def mult.commute [of _ 2])
qed

subsection \<open>Add\<close>

lemma set_store_correct:
  assumes inv: "set_inv sd" and room: "s_count sd < s_capacity sd"
  shows "\<exists>sd'. set_store sd v = Some (sd', True) \<and> set_inv sd'
    \<and> (\<forall>w. set_mem sd' w \<longleftrightarrow> key_match v w \<or> set_mem sd w)"
proof -
  let ?es = "s_entries sd" and ?cap = "s_capacity sd"
  let ?P = "\<lambda>i. \<not> s_alive (?es ! i) \<or> s_hash (?es ! i) = hash_value v \<and> same_value_zero (s_value (?es ! i)) v"
  have c: "cap_ok ?cap" and len: "length ?es = ?cap" and cnt: "s_count sd = length (filter s_alive ?es)"
    and h: "\<And>e. e \<in> set ?es \<Longrightarrow> s_alive e \<Longrightarrow> s_hash e = hash_value (s_value e)"
    using inv by (auto simp: set_inv_def)
  have "\<exists>i<?cap. \<not> s_alive (?es ! i)"
    using filter_full_length [of ?es s_alive] room cnt len by fastforce
  then have "probe_find ?P ?cap (slot_of (hash_value v) ?cap) ?cap \<noteq> None"
    using probe_find_all_None [OF c slot_of_less [OF c], of ?P] by meson
  then obtain i where i: "probe_find ?P ?cap (slot_of (hash_value v) ?cap) ?cap = Some i" by blast
  have ic: "i < ?cap" "?P i" using probe_find_all_Some [OF c slot_of_less [OF c] i] by auto
  show ?thesis
  proof (cases "s_alive (?es ! i)")
    case True
    then have "set_store sd v = Some (sd, True)" using i by (simp add: set_store_def)
    moreover have "?es ! i \<in> set ?es" using ic len by simp
    moreover have "key_match (s_value (?es ! i)) v"
      using True ic(2) h [OF \<open>?es ! i \<in> set ?es\<close>] by (simp add: key_match_def)
    ultimately show ?thesis using True inv key_match_trans by (auto simp: set_mem_def)
  next
    case False
    let ?e = "\<lparr>s_value = v, s_hash = hash_value v, s_alive = True\<rparr>"
    let ?sd = "sd\<lparr>s_entries := ?es[i := ?e], s_count := s_count sd + 1, s_iter_count := s_iter_count sd + 1\<rparr>"
    have st: "set_store sd v = Some (?sd, True)" using i False by (simp add: set_store_def)
    have ms: "mset (filter s_alive (?es[i := ?e])) = add_mset ?e (mset (filter s_alive ?es))"
      using ic False len by (simp add: filter_mset_update del: mset_filter)
    have live: "{e \<in> set (?es[i := ?e]). s_alive e} = insert ?e {e \<in> set ?es. s_alive e}"
      using arg_cong [OF ms, of set_mset] by (simp only: set_mset_mset set_filter set_mset_add_mset_insert)
    have "length (filter s_alive (?es[i := ?e])) = s_count sd + 1"
      using arg_cong [OF ms, of size] cnt by (simp only: size_mset size_add_mset)
    moreover have "s_hash e \<noteq> MAP_TOMBSTONE_HASH" if "e \<in> set (?es[i := ?e])" for e
    proof -
      have "e = ?e \<or> e \<in> set ?es" using subsetD [OF set_update_subset_insert that] by blast
      then show ?thesis using inv by (auto simp: set_inv_def)
    qed
    moreover have "s_hash e = hash_value (s_value e)" if "e \<in> set (?es[i := ?e])" "s_alive e" for e
    proof -
      have "e = ?e \<or> e \<in> set ?es" using subsetD [OF set_update_subset_insert that(1)] by blast
      then show ?thesis using h [OF _ that(2)] by auto
    qed
    ultimately have "set_inv ?sd" using c len by (simp add: set_inv_def)
    moreover have "set_mem ?sd w \<longleftrightarrow> key_match v w \<or> set_mem sd w" for w
    proof -
      have "set_mem ?sd w \<longleftrightarrow> (\<exists>e\<in>{e \<in> set (?es[i := ?e]). s_alive e}. key_match (s_value e) w)"
        by (auto simp: set_mem_def)
      then show ?thesis unfolding live by (auto simp: set_mem_def)
    qed
    ultimately show ?thesis using st by blast
  qed
qed

lemma set_data_add_correct:
  assumes inv: "set_inv sd"
  shows "\<exists>sd' ok. set_data_add alloc_ok sd v = Some (sd', ok) \<and> set_inv sd'
    \<and> (ok \<longrightarrow> (\<forall>w. set_mem sd' w \<longleftrightarrow> key_match v w \<or> set_mem sd w))
    \<and> (\<not> ok \<longrightarrow> sd' = sd \<and> (\<not> alloc_ok \<or> 2 * s_capacity sd \<ge> 2 ^ 31))"
proof (cases "4 * (s_count sd + 1) > 3 * s_capacity sd")
  case False
  then have "s_count sd < s_capacity sd" by simp
  from set_store_correct [OF inv this, of v] False show ?thesis by (auto simp: set_data_add_def)
next
  case True
  show ?thesis
  proof (cases "alloc_ok \<and> 2 * s_capacity sd < 2 ^ 31")
    case ok: True
    then obtain sd' where sd': "set_data_resize alloc_ok sd (s_capacity sd * 2) = Some (sd', True)"
        "set_inv sd'" "set_mem sd' = set_mem sd" "s_count sd' < s_capacity sd'"
      using set_data_resize_correct [OF inv] by blast
    from set_store_correct [OF sd'(2,4), of v] sd'(1,3) True show ?thesis
      by (auto simp: set_data_add_def)
  next
    case bad: False
    then have "set_data_resize alloc_ok sd (s_capacity sd * 2) = Some (sd, False)"
      by (simp add: set_data_resize_def mult.commute [of _ 2] not_less)
    then have "set_data_add alloc_ok sd v = Some (sd, False)" using True by (simp add: set_data_add_def)
    with bad inv show ?thesis by (metis not_less)
  qed
qed

definition set_put :: "bool \<Rightarrow> set_data \<Rightarrow> lr_value \<Rightarrow> unit \<Rightarrow> set_data \<times> bool" where
  "set_put alloc_ok sd v u = (case set_data_add alloc_ok sd v of Some r \<Rightarrow> r | None \<Rightarrow> (sd, False))"

definition set_lookup :: "set_data \<Rightarrow> lr_value \<Rightarrow> unit option" where
  "set_lookup sd v = (if set_mem sd v then Some () else None)"

lemma set_put_total: "set_inv sd \<Longrightarrow> set_data_add alloc_ok sd v = Some (set_put alloc_ok sd v ())"
  using set_data_add_correct [of sd alloc_ok v] by (auto simp: set_put_def)

interpretation set_table: key_table set_lookup "set_put alloc_ok" key_match set_inv
proof
  fix sd v w u
  assume inv: "set_inv sd"
  obtain sd' ok where r: "set_put alloc_ok sd v u = (sd', ok)" "set_inv sd'"
      "ok \<longrightarrow> (\<forall>w. set_mem sd' w \<longleftrightarrow> key_match v w \<or> set_mem sd w)" "\<not> ok \<longrightarrow> sd' = sd"
    using set_data_add_correct [OF inv, of alloc_ok v] unfolding set_put_def by fastforce
  show "set_inv (fst (set_put alloc_ok sd v u))" using r by simp
  show "set_lookup (fst (set_put alloc_ok sd v u)) w = (if key_match v w then Some u else set_lookup sd w)"
    if "snd (set_put alloc_ok sd v u)"
    using that r by (simp add: set_lookup_def)
  show "set_lookup (fst (set_put alloc_ok sd v u)) w = set_lookup sd w"
    if "\<not> snd (set_put alloc_ok sd v u)"
    using that r by simp
qed

subsection \<open>Delete and clear\<close>

lemma set_find_Some:
  assumes "set_inv sd" "set_find sd v = Some i"
  shows "i < s_capacity sd \<and> s_alive (s_entries sd ! i) \<and> key_match (s_value (s_entries sd ! i)) v"
proof -
  let ?P = "\<lambda>i. s_alive (s_entries sd ! i) \<and> s_hash (s_entries sd ! i) = hash_value v
              \<and> same_value_zero (s_value (s_entries sd ! i)) v"
  have c: "cap_ok (s_capacity sd)" and len: "length (s_entries sd) = s_capacity sd"
    and h: "\<And>e. e \<in> set (s_entries sd) \<Longrightarrow> s_alive e \<Longrightarrow> s_hash e = hash_value (s_value e)"
    using assms by (auto simp: set_inv_def)
  have "probe_find ?P (s_capacity sd) (slot_of (hash_value v) (s_capacity sd)) (s_capacity sd) = Some i"
    using assms(2) by (simp add: set_find_def Let_def)
  then have i: "i < s_capacity sd \<and> ?P i" by (rule probe_find_all_Some [OF c slot_of_less [OF c]])
  with h [of "s_entries sd ! i"] len show ?thesis by (simp add: key_match_def)
qed

lemma set_delete_correct:
  assumes inv: "set_inv sd"
  shows "set_inv (fst (set_delete sd v)) \<and> (\<not> key_match v w \<longrightarrow> set_mem (fst (set_delete sd v)) w = set_mem sd w)
    \<and> snd (set_delete sd v) = set_mem sd v"
proof (cases "set_find sd v")
  case None
  then show ?thesis using inv set_find_mem [OF inv, of v] by (simp add: set_delete_def)
next
  case (Some i)
  let ?es = "s_entries sd" and ?cap = "s_capacity sd"
  let ?e = "(?es ! i)\<lparr>s_value := LR_UNDEFINED, s_alive := False\<rparr>"
  have i: "i < ?cap" "s_alive (?es ! i)" "key_match (s_value (?es ! i)) v"
    using set_find_Some [OF inv Some] by auto
  have len: "length ?es = ?cap" and cnt: "s_count sd = length (filter s_alive ?es)"
    using inv by (auto simp: set_inv_def)
  have mem: "?es ! i \<in># mset (filter s_alive ?es)" using i len by simp
  have ms: "mset (filter s_alive (?es[i := ?e])) = mset (filter s_alive ?es) - {#?es ! i#}"
    using i len by (simp add: filter_mset_update del: mset_filter)
  have "length (filter s_alive (?es[i := ?e])) = s_count sd - 1"
    using arg_cong [OF ms, of size] mem cnt by (simp only: size_mset size_Diff_singleton)
  moreover have nt: "s_hash e \<noteq> MAP_TOMBSTONE_HASH \<and> (s_alive e \<longrightarrow> e \<in> set ?es)" if "e \<in> set (?es[i := ?e])" for e
  proof -
    have "e = ?e \<or> e \<in> set ?es" using subsetD [OF set_update_subset_insert that] by blast
    moreover have "s_hash (?es ! i) \<noteq> MAP_TOMBSTONE_HASH" using inv i(1) len by (simp add: set_inv_def)
    ultimately show ?thesis using inv by (auto simp: set_inv_def)
  qed
  ultimately have "set_inv (fst (set_delete sd v))"
    using inv Some by (simp add: set_delete_def set_inv_def)
  moreover have "set_mem (fst (set_delete sd v)) w = set_mem sd w" if "\<not> key_match v w"
  proof -
    have "\<not> key_match (s_value (?es ! i)) w" using that i(3) key_match_sym key_match_trans by blast
    then have "e \<in> set (?es[i := ?e])" if "e \<in> set ?es" "key_match (s_value e) w" for e
      using that by (metis in_set_conv_nth length_list_update nth_list_update_neq)
    with nt Some show ?thesis by (auto simp: set_mem_def set_delete_def)
  qed
  ultimately show ?thesis using Some set_find_mem [OF inv, of v] by (simp add: set_delete_def)
qed

lemma set_clear_entry_sel [simp]: "\<not> s_alive (set_clear_entry e)" "s_hash (set_clear_entry e) = s_hash e"
  by (simp_all add: set_clear_entry_def)

lemma set_clear_correct: "set_inv sd \<Longrightarrow> set_inv (set_clear sd) \<and> \<not> set_mem (set_clear sd) w"
  by (auto simp: set_inv_def set_clear_def set_mem_def filter_empty_conv)

lemma set_data_new_inv: "set_inv set_data_new"
proof -
  have "cap_ok 16" unfolding cap_ok_def by (intro exI [of _ 4]) simp
  then show ?thesis
    by (simp add: set_inv_def set_data_new_def empty_set_entry_def MAP_TOMBSTONE_HASH_def)
qed

lemma set_new_mem [simp]: "\<not> set_mem set_data_new v"
  by (simp add: set_mem_def set_data_new_def empty_set_entry_def)

section \<open>Without deletions a Set is a Map\<close>

lemma map_set_loop_probe:
  assumes "cap_ok cap" "idx < cap" "length es = cap" "\<forall>e\<in>set es. e_hash e \<noteq> MAP_TOMBSTONE_HASH"
  shows "map_set_loop es cap k h None idx n =
    (case probe_find (\<lambda>i. \<not> e_alive (es ! i) \<or> e_hash (es ! i) = h \<and> same_value_zero (e_key (es ! i)) k) cap idx n of
       None \<Rightarrow> None | Some i \<Rightarrow> Some (if e_alive (es ! i) then Update_at i else Insert_at i))"
  using assms(2)
proof (induction n arbitrary: idx)
  case (Suc n)
  have "next_slot cap idx < cap" using assms(1) Suc.prems cap_okD by (simp add: next_slot_mod)
  moreover have "\<not> is_tombstone (es ! idx)" using assms(3,4) Suc.prems by (simp add: is_tombstone_def)
  ultimately show ?case using Suc.IH by simp
qed simp

lemma set_rehash_as_map:
  assumes "cap_ok cap" "length es = cap"
  shows "map_rehash (map entry_as_map old) cap (map entry_as_map es) n =
    map_option (\<lambda>(es, n). (map entry_as_map es, n)) (set_rehash old cap es n)"
  using assms(2)
proof (induction old arbitrary: es n)
  case (Cons e old)
  have "probe_find (\<lambda>i. \<not> e_alive (map entry_as_map es ! i)) cap (slot_of (s_hash e) cap) cap =
      probe_find (\<lambda>i. \<not> s_alive (es ! i)) cap (slot_of (s_hash e) cap) cap"
    using Cons.prems by (intro probe_find_cong [OF assms(1) slot_of_less [OF assms(1)]]) simp
  then show ?case using Cons
    by (auto simp: map_update [symmetric] split: option.splits)
qed simp

lemma set_data_resize_as_map:
  assumes "cap_ok new_capacity"
  shows "map_data_resize alloc_ok (set_as_map sd) new_capacity =
    map_option (\<lambda>(sd, ok). (set_as_map sd, ok)) (set_data_resize alloc_ok sd new_capacity)"
proof -
  have "map entry_as_map (replicate new_capacity empty_set_entry) = replicate new_capacity empty_entry"
    by (simp add: entry_as_map_def empty_set_entry_def empty_entry_def)
  with set_rehash_as_map [OF assms, of "replicate new_capacity empty_set_entry" "s_entries sd" 0]
  show ?thesis
    by (auto simp: map_data_resize_def set_data_resize_def set_as_map_def split: option.splits)
qed

lemma set_store_as_map:
  assumes inv: "set_inv sd" and r: "set_store sd v = Some (sd', ok)"
  shows "map_store (set_as_map sd) v LR_UNDEFINED = (set_as_map sd', ok)"
proof -
  let ?es = "s_entries sd" and ?cap = "s_capacity sd"
  let ?P = "\<lambda>i. \<not> s_alive (?es ! i) \<or> s_hash (?es ! i) = hash_value v \<and> same_value_zero (s_value (?es ! i)) v"
  have c: "cap_ok ?cap" and len: "length ?es = ?cap" and nt: "\<forall>e\<in>set ?es. s_hash e \<noteq> MAP_TOMBSTONE_HASH"
    using inv by (auto simp: set_inv_def)
  let ?Q = "\<lambda>i. \<not> e_alive (map entry_as_map ?es ! i) \<or> e_hash (map entry_as_map ?es ! i) = hash_value v
              \<and> same_value_zero (e_key (map entry_as_map ?es ! i)) v"
  have pq: "probe_find ?Q ?cap (slot_of (hash_value v) ?cap) ?cap = probe_find ?P ?cap (slot_of (hash_value v) ?cap) ?cap"
    using len by (intro probe_find_cong [OF c slot_of_less [OF c]]) simp
  obtain i where i: "probe_find ?P ?cap (slot_of (hash_value v) ?cap) ?cap = Some i"
    using r by (cases "probe_find ?P ?cap (slot_of (hash_value v) ?cap) ?cap") (simp_all add: set_store_def Let_def)
  have ic: "i < ?cap" using probe_find_all_Some [OF c slot_of_less [OF c] i] by blast
  have "map_set_loop (map entry_as_map ?es) ?cap v (hash_value v) None (slot_of (hash_value v) ?cap) ?cap =
      Some (if s_alive (?es ! i) then Update_at i else Insert_at i)"
    using map_set_loop_probe [OF c slot_of_less [OF c], of "map entry_as_map ?es"] pq i ic len nt by simp
  moreover have "(map entry_as_map ?es)[i := (entry_as_map (?es ! i))\<lparr>e_value := LR_UNDEFINED\<rparr>] = map entry_as_map ?es"
    using ic len by (simp add: entry_as_map_def list_update_same_conv)
  ultimately show ?thesis
    using r i ic len by (auto simp: map_store_def set_store_def set_as_map_def map_update entry_as_map_def Let_def split: if_splits)
qed

lemma set_data_add_as_map:
  assumes inv: "set_inv sd"
  shows "map_put alloc_ok (set_as_map sd) v LR_UNDEFINED =
    (set_as_map (fst (set_put alloc_ok sd v ())), snd (set_put alloc_ok sd v ()))"
proof -
  have c: "cap_ok (s_capacity sd)" using inv by (simp add: set_inv_def)
  have add: "set_data_add alloc_ok sd v = Some (set_put alloc_ok sd v ())" by (rule set_put_total [OF inv])
  show ?thesis
  proof (cases "4 * (s_count sd + 1) > 3 * s_capacity sd")
    case False
    then have "set_store sd v = Some (set_put alloc_ok sd v ())" using add by (simp add: set_data_add_def)
    then have "map_store (set_as_map sd) v LR_UNDEFINED =
        (set_as_map (fst (set_put alloc_ok sd v ())), snd (set_put alloc_ok sd v ()))"
      by (intro set_store_as_map [OF inv]) simp
    with False show ?thesis by (simp add: map_put_def map_data_set_def)
  next
    case True
    show ?thesis
    proof (cases "alloc_ok \<and> 2 * s_capacity sd < 2 ^ 31")
      case ok: True
      then obtain sd1 where sd1: "set_data_resize alloc_ok sd (s_capacity sd * 2) = Some (sd1, True)" "set_inv sd1"
        using set_data_resize_correct [OF inv] by blast
      have "map_data_resize alloc_ok (set_as_map sd) (s_capacity sd * 2) = Some (set_as_map sd1, True)"
        using set_data_resize_as_map [of "s_capacity sd * 2" alloc_ok sd] cap_ok_double [OF c] ok sd1(1)
        by (simp add: mult.commute)
      moreover have "set_store sd1 v = Some (set_put alloc_ok sd v ())"
        using add True sd1(1) by (simp add: set_data_add_def)
      then have "map_store (set_as_map sd1) v LR_UNDEFINED =
          (set_as_map (fst (set_put alloc_ok sd v ())), snd (set_put alloc_ok sd v ()))"
        by (intro set_store_as_map [OF sd1(2)]) simp
      ultimately show ?thesis using True by (simp add: map_put_def map_data_set_def)
    next
      case bad: False
      then have "set_data_resize alloc_ok sd (s_capacity sd * 2) = Some (sd, False)"
        "map_data_resize alloc_ok (set_as_map sd) (s_capacity sd * 2) = Some (set_as_map sd, False)"
        by (simp_all add: set_data_resize_def map_data_resize_def mult.commute [of _ 2] not_less)
      with True show ?thesis by (simp add: map_put_def map_data_set_def set_put_def set_data_add_def)
    qed
  qed
qed

lemma set_clear_as_map: "set_as_map (set_clear sd) = map_clear (set_as_map sd)"
  by (simp add: set_as_map_def set_clear_def map_clear_def map_clear_entry_def set_clear_entry_def entry_as_map_def)

lemma map_inv_distinct:
  assumes "map_inv md" "i < m_capacity md" "j < m_capacity md" "i \<noteq> j"
    "e_alive (m_entries md ! i)" "e_alive (m_entries md ! j)"
  shows "\<not> key_match (e_key (m_entries md ! i)) (e_key (m_entries md ! j))"
proof -
  let ?es = "m_entries md"
  have len: "length ?es = m_capacity md" and nc: "no_clash (live ?es)"
    using assms(1) by (auto simp: map_inv_def table_inv_def)
  have "live (?es[j := empty_entry]) = live ?es - {#?es ! j#}"
    using assms len by (simp add: live_update empty_entry_def)
  moreover have "?es ! i \<in># live (?es[j := empty_entry])"
    using live_nth [of i "?es[j := empty_entry]"] assms len by simp
  ultimately have "{#?es ! i, ?es ! j#} \<subseteq># live ?es"
    using assms len by (intro pair_subset) (auto simp: live_nth)
  with nc show ?thesis by (simp add: no_clash_def)
qed

section \<open>Set objects\<close>

datatype set_op = Set_add bool lr_value | Set_delete lr_value | Set_clear

inductive set_step :: "set_obj \<Rightarrow> set_op \<Rightarrow> set_obj \<Rightarrow> bool" where
  "js_set_add alloc_ok (Data m) [v] = Some (RetThis, Data m') \<Longrightarrow> set_step m (Set_add alloc_ok v) m'"
| "js_set_delete (Data m) [v] = (r, Data m') \<Longrightarrow> set_step m (Set_delete v) m'"
| "js_set_clear (Data m) = (r, Data m') \<Longrightarrow> set_step m Set_clear m'"

text \<open>Sets reachable by steps whose operation satisfies \<open>allowed\<close>.\<close>

inductive set_reachable :: "(set_op \<Rightarrow> bool) \<Rightarrow> set_obj \<Rightarrow> bool" for allowed where
  "js_set_constructor new_ok alloc_ok it = Some (Constructed m) \<Longrightarrow> set_reachable allowed m"
| "set_reachable allowed m \<Longrightarrow> set_step m op m' \<Longrightarrow> allowed op \<Longrightarrow> set_reachable allowed m'"

definition no_delete :: "set_op \<Rightarrow> bool" where
  "no_delete op \<longleftrightarrow> (case op of Set_delete v \<Rightarrow> False | _ \<Rightarrow> True)"

lemma js_set_add_put:
  assumes "set_inv (sdata m)"
  shows "js_set_add alloc_ok (Data m) [v] =
    Some (RetThis, Data \<lparr>sdata = fst (set_put alloc_ok (sdata m) v ()),
                         s_size_prop = s_count (fst (set_put alloc_ok (sdata m) v ()))\<rparr>)"
  by (cases "set_put alloc_ok (sdata m) v ()")
     (simp add: js_set_add_def set_put_total [OF assms] set_sync_size_def)

lemma js_set_delete_eq:
  "js_set_delete (Data m) [v] = (Ret (LR_BOOL (snd (set_delete (sdata m) v))),
     Data (if snd (set_delete (sdata m) v)
           then \<lparr>sdata = fst (set_delete (sdata m) v), s_size_prop = s_count (fst (set_delete (sdata m) v))\<rparr>
           else m))"
  by (cases "set_delete (sdata m) v") (auto simp: js_set_delete_def set_sync_size_def split: bool.splits)

lemma set_populate_put_all:
  assumes "set_inv sd"
  shows "set_populate alloc_ok sd items = Some (fst (put_all (set_put alloc_ok) sd (map (\<lambda>v. (v, ())) items)))"
  using assms
proof (induction alloc_ok sd items rule: set_populate.induct)
  case (2 alloc_ok sd v items)
  let ?r = "set_put alloc_ok sd v ()"
  have "set_data_add alloc_ok sd v = Some ?r" by (rule set_put_total [OF 2(2)])
  moreover have "set_inv (fst ?r)" using 2(2) by (rule set_table.invar_put)
  ultimately show ?case using 2(1) [of ?r "fst ?r" "snd ?r"] by (cases ?r) (simp add: Let_def)
qed simp

lemma put_all_as_map:
  assumes "set_inv sd" "map_inv (set_as_map sd)"
  shows "map_inv (set_as_map (fst (put_all (set_put alloc_ok) sd kvs)))"
  using assms
proof (induction kvs arbitrary: sd)
  case (Cons kv kvs)
  let ?sd = "fst (set_put alloc_ok sd (fst kv) (snd kv))"
  have "map_inv (set_as_map ?sd)"
    using map_put_inv [OF Cons.prems(2), of alloc_ok "fst kv" LR_UNDEFINED] set_data_add_as_map [OF Cons.prems(1)]
    by simp
  with Cons.IH [of ?sd] Cons.prems show ?case by (simp add: Let_def set_table.invar_put)
qed simp

lemma set_new_as_map: "map_inv (set_as_map set_data_new)"
proof -
  have "set_as_map set_data_new = map_data_new"
    by (simp add: set_as_map_def set_data_new_def map_data_new_def entry_as_map_def empty_set_entry_def empty_entry_def)
  then show ?thesis by (simp add: map_data_new_inv)
qed

lemma set_reachable_inv:
  "set_reachable allowed m \<Longrightarrow> set_inv (sdata m) \<and> s_size_prop m = s_count (sdata m)"
proof (induction rule: set_reachable.induct)
  case (1 new_ok alloc_ok it m)
  then show ?case
    by (auto split: if_splits simp: js_set_constructor_def set_populate_put_all set_data_new_inv set_table.invar_put_all)
next
  case (2 m op m')
  from 2(2) show ?case
  proof (cases rule: set_step.cases)
    case (1 alloc_ok v)
    then show ?thesis using 2 by (auto simp: js_set_add_put set_table.invar_put)
  next
    case (2 v r)
    then show ?thesis using \<open>set_inv (sdata m) \<and> _\<close> set_delete_correct [of "sdata m" v]
      by (auto simp: js_set_delete_eq split: if_splits)
  next
    case (3 r)
    then show ?thesis using \<open>set_inv (sdata m) \<and> _\<close> set_clear_correct [of "sdata m"]
      by (auto simp: js_set_clear_def set_sync_size_def)
  qed
qed

lemma set_reachable_no_delete: "set_reachable no_delete m \<Longrightarrow> map_inv (set_as_map (sdata m))"
proof (induction rule: set_reachable.induct)
  case (1 new_ok alloc_ok it m)
  then show ?case
    by (auto split: if_splits simp: js_set_constructor_def set_populate_put_all set_data_new_inv
        put_all_as_map [OF set_data_new_inv set_new_as_map])
next
  case (2 m op m')
  have inv: "set_inv (sdata m)" using set_reachable_inv [OF 2(1)] by simp
  from 2(2) show ?case
  proof (cases rule: set_step.cases)
    case (1 alloc_ok v)
    then show ?thesis using map_put_inv [OF 2(4), of alloc_ok v LR_UNDEFINED] inv
      by (auto simp: js_set_add_put set_data_add_as_map)
  next
    case (2 v r)
    then show ?thesis using \<open>no_delete op\<close> by (simp add: no_delete_def)
  next
    case (3 r)
    then show ?thesis using map_clear_inv [OF 2(4)]
      by (auto simp: js_set_clear_def set_sync_size_def set_clear_as_map)
  qed
qed

text \<open>No two live slots hold matching values.\<close>

definition set_distinct :: "set_data \<Rightarrow> bool" where
  "set_distinct sd \<longleftrightarrow>
     (\<forall>i < s_capacity sd. \<forall>j < s_capacity sd. i \<noteq> j \<longrightarrow> s_alive (s_entries sd ! i) \<longrightarrow> s_alive (s_entries sd ! j) \<longrightarrow>
        \<not> key_match (s_value (s_entries sd ! i)) (s_value (s_entries sd ! j)))"

lemma set_distinct_as_map:
  assumes "set_inv sd" "map_inv (set_as_map sd)"
  shows "set_distinct sd"
  unfolding set_distinct_def
proof (intro allI impI)
  fix i j
  assume a: "i < s_capacity sd" "j < s_capacity sd" "i \<noteq> j" "s_alive (s_entries sd ! i)" "s_alive (s_entries sd ! j)"
  have "length (s_entries sd) = s_capacity sd" using assms(1) by (simp add: set_inv_def)
  then show "\<not> key_match (s_value (s_entries sd ! i)) (s_value (s_entries sd ! j))"
    using map_inv_distinct [OF assms(2), of i j] a by simp
qed

lemma set_delete_distinct:
  assumes inv: "set_inv sd" and d: "set_distinct sd"
  shows "set_mem (fst (set_delete sd v)) w \<longleftrightarrow> \<not> key_match v w \<and> set_mem sd w"
proof (cases "key_match v w")
  case False
  then show ?thesis using set_delete_correct [OF inv] by simp
next
  case True
  have len: "length (s_entries sd) = s_capacity sd" using inv by (simp add: set_inv_def)
  have "\<not> set_mem (fst (set_delete sd v)) w"
  proof (cases "set_find sd v")
    case None
    then have "\<not> set_mem sd v" using set_find_mem [OF inv, of v] by simp
    then have "\<not> set_mem sd w" using True key_match_sym key_match_trans unfolding set_mem_def by meson
    with None show ?thesis by (simp add: set_delete_def)
  next
    case (Some i)
    have i: "i < s_capacity sd" "s_alive (s_entries sd ! i)" "key_match (s_value (s_entries sd ! i)) v"
      using set_find_Some [OF inv Some] by auto
    have "\<not> key_match (s_value (s_entries sd ! j)) w" if j: "j < s_capacity sd" "j \<noteq> i" "s_alive (s_entries sd ! j)" for j
    proof
      assume "key_match (s_value (s_entries sd ! j)) w"
      then have "key_match (s_value (s_entries sd ! j)) (s_value (s_entries sd ! i))"
        using True i(3) key_match_sym key_match_trans by meson
      with d i j show False unfolding set_distinct_def by blast
    qed
    note others = this
    define es where "es = (s_entries sd)[i := (s_entries sd ! i)\<lparr>s_value := LR_UNDEFINED, s_alive := False\<rparr>]"
    have "\<not> (s_alive e \<and> key_match (s_value e) w)" if e: "e \<in> set es" for e
    proof -
      obtain j where j: "j < s_capacity sd" "e = es ! j"
        using e len by (auto simp: es_def in_set_conv_nth)
      then show ?thesis using others [of j] len by (cases "j = i") (auto simp: es_def)
    qed
    then show ?thesis using Some by (auto simp: set_mem_def set_delete_def es_def)
  qed
  with True show ?thesis by simp
qed

lemma js_set_has_mem: "set_inv (sdata m) \<Longrightarrow> js_set_has (Data m) [v] = Ret (LR_BOOL (set_mem (sdata m) v))"
  using set_find_mem [of "sdata m" v] by (simp add: js_set_has_def)

lemma set_new_reachable: "set_reachable allowed \<lparr>sdata = set_data_new, s_size_prop = 0\<rparr>"
proof -
  have "js_set_constructor True True Absent = Some (Constructed \<lparr>sdata = set_data_new, s_size_prop = 0\<rparr>)"
    by (simp add: js_set_constructor_def iterable_items_def set_data_new_def)
  then show ?thesis by (rule set_reachable.intros)
qed

lemma set_iter_scan_spec:
  assumes "length (s_entries sd) = s_capacity sd"
  shows "case set_iter_scan sd kind i of
      (None, j) \<Rightarrow> filter s_alive (drop i (s_entries sd)) = []
    | (Some x, j) \<Rightarrow> i < j \<and> j \<le> s_capacity sd \<and>
        map (set_item kind) (filter s_alive (drop i (s_entries sd))) =
        x # map (set_item kind) (filter s_alive (drop j (s_entries sd)))"
  using assms
proof (induction sd kind i rule: set_iter_scan.induct)
  case (1 sd kind i)
  show ?case
  proof (cases "i < s_capacity sd")
    case True
    then have "drop i (s_entries sd) = s_entries sd ! i # drop (Suc i) (s_entries sd)"
      using 1(2) by (simp add: Cons_nth_drop_Suc)
    then show ?thesis using 1 True by (subst set_iter_scan.simps) (auto split: prod.splits option.splits)
  next
    case False
    then show ?thesis using 1(2) by (subst set_iter_scan.simps) simp
  qed
qed

lemma set_iter_drain_spec:
  assumes "length (s_entries sd) = s_capacity sd" "s_capacity sd - sit_index it < fuel"
  shows "set_iter_drain fuel sd it =
    Some (map (set_item (sit_entries it)) (filter s_alive (drop (sit_index it) (s_entries sd))))"
  using assms(2)
proof (induction fuel arbitrary: it)
  case (Suc fuel)
  obtain r j where rj: "set_iter_scan sd (sit_entries it) (sit_index it) = (r, j)" by fastforce
  note spec = set_iter_scan_spec [OF assms(1), where kind = "sit_entries it" and i = "sit_index it"]
  show ?case
  proof (cases r)
    case None
    with rj spec show ?thesis by (simp add: set_iter_next_def)
  next
    case (Some x)
    then have sp: "sit_index it < j" "j \<le> s_capacity sd" using rj spec by auto
    have "s_capacity sd - sit_index (it\<lparr>sit_index := j\<rparr>) < fuel" using sp Suc.prems by simp
    from Suc.IH [OF this] show ?thesis using rj Some spec by (simp add: set_iter_next_def)
  qed
qed simp

section \<open>Properties\<close>

text \<open>(C19) Every Set object that the constructor, \<open>add\<close>, \<open>delete\<close> and \<open>clear\<close> can produce keeps its
  \<open>size\<close> property equal to the count of live slots, with every live slot under the hash of its value; the
  unbounded probe loop of \<open>add\<close> always ends, and after it \<open>has\<close> answers true exactly for the values that
  match the new one or were there before (if the table could not grow, nothing changed).\<close>

theorem set_add_has:
  assumes "set_reachable allowed m"
  shows "s_size_prop m = length (filter s_alive (s_entries (sdata m))) \<and>
    (\<exists>m'. js_set_add alloc_ok (Data m) [v] = Some (RetThis, Data m') \<and>
      (js_set_has (Data m') [w] = Ret (LR_BOOL (key_match v w \<or> js_set_has (Data m) [w] = Ret (LR_BOOL True)))
       \<or> sdata m' = sdata m \<and> (\<not> alloc_ok \<or> 2 * s_capacity (sdata m) \<ge> 2 ^ 31)))"
proof -
  have inv: "set_inv (sdata m)" and sz: "s_size_prop m = s_count (sdata m)"
    using set_reachable_inv [OF assms] by auto
  obtain sd' ok where sd': "set_data_add alloc_ok (sdata m) v = Some (sd', ok)" "set_inv sd'"
      "ok \<longrightarrow> (\<forall>w. set_mem sd' w \<longleftrightarrow> key_match v w \<or> set_mem (sdata m) w)"
      "\<not> ok \<longrightarrow> sd' = sdata m \<and> (\<not> alloc_ok \<or> 2 * s_capacity (sdata m) \<ge> 2 ^ 31)"
    using set_data_add_correct [OF inv] by blast
  then have put: "set_put alloc_ok (sdata m) v () = (sd', ok)" by (simp add: set_put_def)
  let ?m = "\<lparr>sdata = sd', s_size_prop = s_count sd'\<rparr>"
  have "js_set_add alloc_ok (Data m) [v] = Some (RetThis, Data ?m)"
    using js_set_add_put [OF inv, of alloc_ok v] put by simp
  moreover have "js_set_has (Data ?m) [w] = Ret (LR_BOOL (set_mem sd' w))"
    using js_set_has_mem [of ?m w] sd'(2) by simp
  moreover have "s_size_prop m = length (filter s_alive (s_entries (sdata m)))"
    using inv sz by (simp add: set_inv_def)
  ultimately show ?thesis using sd'(3,4) by (cases ok) (auto simp: js_set_has_mem [OF inv])
qed

theorem set_add_has_witness:
  "\<exists>m'. js_set_add True (Data \<lparr>sdata = set_data_new, s_size_prop = 0\<rparr>) [LR_NULL] = Some (RetThis, Data m')
    \<and> js_set_has (Data m') [LR_NULL] = Ret (LR_BOOL True)"
  using set_add_has [OF set_new_reachable [of "\<lambda>_. True"], of True LR_NULL LR_NULL] key_match_refl [of LR_NULL]
  by (auto simp: set_data_new_def)

text \<open>(C20) While nothing is deleted a Set behaves like the Map with the same keys: no two live slots hold
  matching values, so \<open>size\<close> counts distinct values, and the first \<open>delete\<close> removes exactly the values that
  match its argument.\<close>

theorem set_no_duplicates:
  assumes "set_reachable no_delete m"
  shows "set_distinct (sdata m) \<and>
    (\<exists>m'. js_set_delete (Data m) [v] = (js_set_has (Data m) [v], Data m') \<and>
      js_set_has (Data m') [w] = Ret (LR_BOOL (\<not> key_match v w \<and> js_set_has (Data m) [w] = Ret (LR_BOOL True))))"
proof -
  have inv: "set_inv (sdata m)" using set_reachable_inv [OF assms] by simp
  have d: "set_distinct (sdata m)" by (rule set_distinct_as_map [OF inv set_reachable_no_delete [OF assms]])
  let ?m = "if snd (set_delete (sdata m) v)
    then \<lparr>sdata = fst (set_delete (sdata m) v), s_size_prop = s_count (fst (set_delete (sdata m) v))\<rparr> else m"
  have "sdata ?m = fst (set_delete (sdata m) v)" by (simp add: set_delete_def split: option.splits)
  then have "js_set_has (Data ?m) [w] = Ret (LR_BOOL (\<not> key_match v w \<and> set_mem (sdata m) w))"
    using set_delete_distinct [OF inv d, of v w] set_delete_correct [OF inv, of v] js_set_has_mem [of ?m w] by simp
  moreover have "js_set_delete (Data m) [v] = (js_set_has (Data m) [v], Data ?m)"
    using js_set_delete_eq [of m v] set_delete_correct [OF inv, of v] by (simp add: js_set_has_mem [OF inv])
  ultimately show ?thesis using d by (auto simp: js_set_has_mem [OF inv])
qed

theorem set_no_duplicates_witness:
  "set_distinct set_data_new \<and>
    (\<exists>m'. js_set_delete (Data \<lparr>sdata = set_data_new, s_size_prop = 0\<rparr>) [LR_NULL] =
       (js_set_has (Data \<lparr>sdata = set_data_new, s_size_prop = 0\<rparr>) [LR_NULL], Data m'))"
  using set_no_duplicates [OF set_new_reachable, of LR_NULL LR_NULL] by auto

text \<open>A \<open>delete\<close> breaks the search path of \<open>add\<close>, which stops at the first dead slot: after
  \<open>add(0); add(16); delete(0); add(16)\<close> (0 and 16 share a home slot) the value 16 is stored twice, \<open>size\<close>
  is 2, and after \<open>delete(16)\<close> the Set still has 16.\<close>

theorem set_add_after_delete_duplicates:
  "(case set_populate True set_data_new [LR_INT32 0, LR_INT32 16] of
      None \<Rightarrow> False
    | Some sd1 \<Rightarrow>
        (case set_data_add True (fst (set_delete sd1 (LR_INT32 0))) (LR_INT32 16) of
           None \<Rightarrow> False
         | Some (sd2, ok) \<Rightarrow> ok \<and> s_count sd2 = 2 \<and>
             set_find (fst (set_delete sd2 (LR_INT32 16))) (LR_INT32 16) \<noteq> None))"
  by code_simp

text \<open>\<open>new Set(items)\<close> returns, and \<open>has\<close> answers true exactly for the values that match an item that
  was stored.\<close>

theorem js_set_constructor_members:
  "\<exists>m. js_set_constructor True alloc_ok it = Some (Constructed m) \<and>
    js_set_has (Data m) [w] = Ret (LR_BOOL (\<exists>v\<in>fst ` set (snd (put_all (set_put alloc_ok) set_data_new
      (map (\<lambda>v. (v, ())) (iterable_items it)))). key_match v w))"
proof -
  let ?kvs = "map (\<lambda>v. (v, ())) (iterable_items it)"
  let ?r = "put_all (set_put alloc_ok) set_data_new ?kvs"
  let ?m = "\<lparr>sdata = fst ?r, s_size_prop = s_count (fst ?r)\<rparr>"
  have "set_mem (fst ?r) w \<longleftrightarrow> set_lookup (fst ?r) w \<noteq> None" by (simp add: set_lookup_def)
  also have "\<dots> \<longleftrightarrow> find (\<lambda>kv. key_match (fst kv) w) (rev (snd ?r)) \<noteq> None"
    unfolding set_table.lookup_put_all [OF set_data_new_inv] by (simp add: set_lookup_def split: option.splits)
  also have "\<dots> \<longleftrightarrow> (\<exists>v\<in>fst ` set (snd ?r). key_match v w)"
    by (simp add: find_None_iff) (metis fst_conv old.unit.exhaust surj_pair)
  finally show ?thesis
    using js_set_has_mem [of ?m w] set_table.invar_put_all [OF set_data_new_inv]
    by (intro exI [of _ ?m]) (simp add: js_set_constructor_def set_populate_put_all set_data_new_inv)
qed

text \<open>An iterator over an unchanged Set yields one item per live slot, in table order, then \<open>done\<close>.\<close>

theorem set_iteration_complete:
  assumes "set_reachable allowed m" "s_capacity (sdata m) < fuel"
  shows "set_iter_drain fuel (sdata m) (set_iterator_data_new (sdata m) kind) =
      Some (map (set_item kind) (filter s_alive (s_entries (sdata m))))"
  using assms set_reachable_inv [OF assms(1)]
  by (simp add: set_iter_drain_spec set_iterator_data_new_def set_inv_def)

theorem set_iteration_complete_witness:
  "set_iter_drain 17 set_data_new (set_iterator_data_new set_data_new True) = Some []"
  using set_iteration_complete [OF set_new_reachable [of "\<lambda>_. True"], of 17 True]
  by (simp add: set_data_new_def empty_set_entry_def)

end
