(* ===== verification/LR_Bytecode.thy ===== *)
theory LR_Bytecode
  imports LR_Value
begin

unbundle bit_operations_syntax

text \<open>
  Bytecode programs: the opcode table and the instruction lengths derived from it
  (\<^verbatim>\<open>src/engine/lr_bytecode.h\<close>, \<^verbatim>\<open>lr_bytecode_disasm.c\<close>), the binary image that the archive stores
  (\<^verbatim>\<open>lr_bytecode_serialize.c\<close>), the program handles and the purity scan (\<^verbatim>\<open>lr_bytecode_cache.c\<close>).

  An opcode is its byte. A string constant is its bytes without the terminating zero.
\<close>

section \<open>Opcodes\<close>

definition BC_STORE_VAR :: byte where "BC_STORE_VAR = 16"
definition BC_INC_LOCAL :: byte where "BC_INC_LOCAL = 19"
definition BC_INC_LOCAL_DISCARD :: byte where "BC_INC_LOCAL_DISCARD = 20"
definition BC_INC_VAR :: byte where "BC_INC_VAR = 21"
definition BC_DECLARE_VAR :: byte where "BC_DECLARE_VAR = 22"
definition BC_TYPEOF_VAR :: byte where "BC_TYPEOF_VAR = 23"
definition BC_PUSH_THIS :: byte where "BC_PUSH_THIS = 6"
definition BC_POP :: byte where "BC_POP = 10"
definition BC_ADD :: byte where "BC_ADD = 26"
definition BC_IN :: byte where "BC_IN = 46"
definition BC_INSTANCEOF :: byte where "BC_INSTANCEOF = 47"
definition BC_JUMP :: byte where "BC_JUMP = 54"
definition BC_JUMP_IF_FALSE :: byte where "BC_JUMP_IF_FALSE = 55"
definition BC_CALL_METHOD :: byte where "BC_CALL_METHOD = 63"
definition BC_CALL_ELEM :: byte where "BC_CALL_ELEM = 64"
definition BC_NEW :: byte where "BC_NEW = 65"
definition BC_GET_PROP :: byte where "BC_GET_PROP = 71"
definition BC_LOAD_PROP :: byte where "BC_LOAD_PROP = 72"
definition BC_LOAD_PROP_ADD :: byte where "BC_LOAD_PROP_ADD = 73"
definition BC_SET_PROP :: byte where "BC_SET_PROP = 74"
definition BC_GET_ELEM :: byte where "BC_GET_ELEM = 75"
definition BC_SET_ELEM :: byte where "BC_SET_ELEM = 76"
definition BC_DELETE_PROP :: byte where "BC_DELETE_PROP = 77"
definition BC_DELETE_ELEM :: byte where "BC_DELETE_ELEM = 78"
definition BC_ITER_INIT :: byte where "BC_ITER_INIT = 79"
definition BC_ITER_NEXT :: byte where "BC_ITER_NEXT = 80"
definition BC_ITER_CLOSE :: byte where "BC_ITER_CLOSE = 81"
definition BC_EVAL_NODE :: byte where "BC_EVAL_NODE = 84"
definition BC_EVAL_NODE_POP :: byte where "BC_EVAL_NODE_POP = 85"
definition BC_THROW :: byte where "BC_THROW = 88"
definition BC_STOP :: byte where "BC_STOP = 0"
definition BC_NOP :: byte where "BC_NOP = 1"
definition BC_PUSH_UNDEFINED :: byte where "BC_PUSH_UNDEFINED = 2"
definition BC_PUSH_NULL :: byte where "BC_PUSH_NULL = 3"
definition BC_PUSH_TRUE :: byte where "BC_PUSH_TRUE = 4"
definition BC_PUSH_FALSE :: byte where "BC_PUSH_FALSE = 5"
definition BC_PUSH_INT32 :: byte where "BC_PUSH_INT32 = 7"
definition BC_PUSH_FLOAT64 :: byte where "BC_PUSH_FLOAT64 = 8"
definition BC_PUSH_STRING :: byte where "BC_PUSH_STRING = 9"
definition BC_DUP :: byte where "BC_DUP = 11"
definition BC_DUP2 :: byte where "BC_DUP2 = 12"
definition BC_SWAP :: byte where "BC_SWAP = 13"
definition BC_ROT3 :: byte where "BC_ROT3 = 14"
definition BC_LOAD_VAR :: byte where "BC_LOAD_VAR = 15"
definition BC_LOAD_LOCAL :: byte where "BC_LOAD_LOCAL = 17"
definition BC_STORE_LOCAL :: byte where "BC_STORE_LOCAL = 18"
definition BC_ADD_SELF :: byte where "BC_ADD_SELF = 24"
definition BC_MUL_SELF :: byte where "BC_MUL_SELF = 25"
definition BC_SUB :: byte where "BC_SUB = 27"
definition BC_MUL :: byte where "BC_MUL = 28"
definition BC_NEG :: byte where "BC_NEG = 48"
definition BC_POS :: byte where "BC_POS = 49"
definition BC_NOT :: byte where "BC_NOT = 50"
definition BC_BIT_NOT :: byte where "BC_BIT_NOT = 51"
definition BC_TYPEOF :: byte where "BC_TYPEOF = 52"
definition BC_VOID :: byte where "BC_VOID = 53"
definition BC_JUMP_IF_TRUE :: byte where "BC_JUMP_IF_TRUE = 56"
definition BC_JUMP_IF_FALSE_KEEP :: byte where "BC_JUMP_IF_FALSE_KEEP = 57"
definition BC_JUMP_IF_TRUE_KEEP :: byte where "BC_JUMP_IF_TRUE_KEEP = 58"
definition BC_JUMP_IF_NOT_NULLISH :: byte where "BC_JUMP_IF_NOT_NULLISH = 59"
definition BC_JUMP_IF_LOCAL_LT_IMM :: byte where "BC_JUMP_IF_LOCAL_LT_IMM = 60"
definition BC_LOOP_TICK :: byte where "BC_LOOP_TICK = 61"
definition BC_CALL :: byte where "BC_CALL = 62"
definition BC_RETURN :: byte where "BC_RETURN = 66"
definition BC_NEW_OBJECT :: byte where "BC_NEW_OBJECT = 67"
definition BC_NEW_ARRAY :: byte where "BC_NEW_ARRAY = 68"
definition BC_DEF_PROP :: byte where "BC_DEF_PROP = 69"
definition BC_DEF_ELEM :: byte where "BC_DEF_ELEM = 70"
definition BC_SCOPE_ENTER :: byte where "BC_SCOPE_ENTER = 82"
definition BC_SCOPE_LEAVE :: byte where "BC_SCOPE_LEAVE = 83"
definition BC_SET_RESULT :: byte where "BC_SET_RESULT = 86"
definition BC_CLEAR_RESULT :: byte where "BC_CLEAR_RESULT = 87"
definition BC_TO_STRING :: byte where "BC_TO_STRING = 89"
definition BC_TO_NUMBER :: byte where "BC_TO_NUMBER = 90"
definition BC_TO_BOOL :: byte where "BC_TO_BOOL = 91"

lemmas bc_opcode_defs =
  BC_STORE_VAR_def BC_INC_LOCAL_def BC_INC_LOCAL_DISCARD_def BC_INC_VAR_def BC_DECLARE_VAR_def
  BC_TYPEOF_VAR_def BC_PUSH_THIS_def BC_POP_def BC_ADD_def BC_IN_def BC_INSTANCEOF_def BC_JUMP_def
  BC_JUMP_IF_FALSE_def BC_CALL_METHOD_def BC_CALL_ELEM_def BC_NEW_def BC_GET_PROP_def
  BC_LOAD_PROP_def BC_LOAD_PROP_ADD_def BC_SET_PROP_def BC_GET_ELEM_def BC_SET_ELEM_def
  BC_DELETE_PROP_def BC_DELETE_ELEM_def BC_ITER_INIT_def BC_ITER_NEXT_def BC_ITER_CLOSE_def
  BC_EVAL_NODE_def BC_EVAL_NODE_POP_def BC_THROW_def
  BC_STOP_def BC_NOP_def BC_PUSH_UNDEFINED_def BC_PUSH_NULL_def BC_PUSH_TRUE_def
  BC_PUSH_FALSE_def BC_PUSH_INT32_def BC_PUSH_FLOAT64_def BC_PUSH_STRING_def BC_DUP_def
  BC_DUP2_def BC_SWAP_def BC_ROT3_def BC_LOAD_VAR_def BC_LOAD_LOCAL_def
  BC_STORE_LOCAL_def BC_ADD_SELF_def BC_MUL_SELF_def BC_SUB_def BC_MUL_def
  BC_NEG_def BC_POS_def BC_NOT_def BC_BIT_NOT_def BC_TYPEOF_def
  BC_VOID_def BC_JUMP_IF_TRUE_def BC_JUMP_IF_FALSE_KEEP_def BC_JUMP_IF_TRUE_KEEP_def BC_JUMP_IF_NOT_NULLISH_def
  BC_JUMP_IF_LOCAL_LT_IMM_def BC_LOOP_TICK_def BC_CALL_def BC_RETURN_def BC_NEW_OBJECT_def
  BC_NEW_ARRAY_def BC_DEF_PROP_def BC_DEF_ELEM_def BC_SCOPE_ENTER_def BC_SCOPE_LEAVE_def
  BC_SET_RESULT_def BC_CLEAR_RESULT_def BC_TO_STRING_def BC_TO_NUMBER_def BC_TO_BOOL_def

text \<open>
  The cases of \<open>bc_info\<close> in the order of the enumeration: name and operand encoding (0 none,
  1 u16, 2 i32, 3 u16 u16, 4 u16 u8, 5 u16 i32 i32). The switch has no case for
  \<open>BC_LOAD_PROP_ADD\<close> (73), which gets the default.
\<close>

definition bc_info_table :: "(string \<times> nat) list" where
  "bc_info_table = [
    (''STOP'', 0), (''NOP'', 0), (''PUSH_UNDEFINED'', 0), (''PUSH_NULL'', 0), (''PUSH_TRUE'', 0),
    (''PUSH_FALSE'', 0), (''PUSH_THIS'', 0), (''PUSH_INT32'', 2), (''PUSH_FLOAT64'', 1),
    (''PUSH_STRING'', 1), (''POP'', 0), (''DUP'', 0), (''DUP2'', 0), (''SWAP'', 0), (''ROT3'', 0),
    (''LOAD_VAR'', 1), (''STORE_VAR'', 1), (''LOAD_LOCAL'', 1), (''STORE_LOCAL'', 1),
    (''INC_LOCAL'', 1), (''INC_LOCAL_DISCARD'', 1), (''INC_VAR'', 1), (''DECLARE_VAR'', 4),
    (''TYPEOF_VAR'', 1), (''ADD_SELF'', 1), (''MUL_SELF'', 1), (''ADD'', 0), (''SUB'', 0),
    (''MUL'', 0), (''DIV'', 0), (''MOD'', 0), (''POW'', 0), (''LT'', 0), (''GT'', 0), (''LE'', 0),
    (''GE'', 0), (''EQ'', 0), (''NE'', 0), (''STRICT_EQ'', 0), (''STRICT_NE'', 0), (''SHL'', 0),
    (''SHR'', 0), (''SAR'', 0), (''BIT_AND'', 0), (''BIT_OR'', 0), (''BIT_XOR'', 0), (''IN'', 0),
    (''INSTANCEOF'', 0), (''NEG'', 0), (''POS'', 0), (''NOT'', 0), (''BIT_NOT'', 0),
    (''TYPEOF'', 0), (''VOID'', 0), (''JUMP'', 2), (''JUMP_IF_FALSE'', 2), (''JUMP_IF_TRUE'', 2),
    (''JUMP_IF_FALSE_KEEP'', 2), (''JUMP_IF_TRUE_KEEP'', 2), (''JUMP_IF_NOT_NULLISH'', 2),
    (''JUMP_IF_LOCAL_LT_IMM'', 5), (''LOOP_TICK'', 0), (''CALL'', 1), (''CALL_METHOD'', 3),
    (''CALL_ELEM'', 1), (''NEW'', 1), (''RETURN'', 0), (''NEW_OBJECT'', 0), (''NEW_ARRAY'', 1),
    (''DEF_PROP'', 1), (''DEF_ELEM'', 0), (''GET_PROP'', 1), (''LOAD_PROP'', 3), (''?'', 0),
    (''SET_PROP'', 1), (''GET_ELEM'', 0), (''SET_ELEM'', 0), (''DELETE_PROP'', 1),
    (''DELETE_ELEM'', 0), (''ITER_INIT'', 0), (''ITER_NEXT'', 2), (''ITER_CLOSE'', 0),
    (''SCOPE_ENTER'', 0), (''SCOPE_LEAVE'', 0), (''EVAL_NODE'', 1), (''EVAL_NODE_POP'', 1),
    (''SET_RESULT'', 0), (''CLEAR_RESULT'', 0), (''THROW'', 0), (''TO_STRING'', 0),
    (''TO_NUMBER'', 0), (''TO_BOOL'', 0)]"

definition bc_info :: "byte \<Rightarrow> string \<times> nat" where
  "bc_info op = (if unat op < length bc_info_table then bc_info_table ! unat op else (''?'', 0))"

definition bc_op_total_len :: "byte \<Rightarrow> nat" where
  "bc_op_total_len op =
     (let k = snd (bc_info op) in
      if k = 0 then 1 else if k = 1 then 3 else if k = 2 then 5 else if k = 3 then 5
      else if k = 4 then 4 else if k = 5 then 11 else 1)"

section \<open>Programs\<close>

text \<open>\<open>Pool_other\<close> is a constant whose kind byte is none of the four.\<close>

datatype bc_const_val =
    Pool_int32 u32
  | Pool_float64 u64
  | Pool_string bytes
  | Pool_node nat
  | Pool_other byte

record bc_const =
  c_val :: bc_const_val
  c_str_hash :: u32

record bc_program =
  p_code :: bytes
  p_code_null :: bool
  p_pool :: "bc_const list"
  p_max_stack :: nat
  p_node_refs :: nat
  p_compiled :: bool
  p_prog_id :: u32
  p_ref_count :: nat

text \<open>\<open>bc_new_program\<close>: the per-thread counter skips 0 when it wraps around.\<close>

definition bc_new_program :: "u32 \<Rightarrow> u32 \<times> bc_program" where
  "bc_new_program counter =
     (let i = (if counter + 1 = 0 then counter + 2 else counter + 1) in
      (i, \<lparr>p_code = [], p_code_null = True, p_pool = [], p_max_stack = 0, p_node_refs = 0, p_compiled = False,
           p_prog_id = i, p_ref_count = 1\<rparr>))"

definition bc_retain_program :: "bc_program \<Rightarrow> bc_program" where
  "bc_retain_program p = p\<lparr>p_ref_count := p_ref_count p + 1\<rparr>"

text \<open>\<open>None\<close>: the last owner let go and the program was freed.\<close>

definition bc_free_program :: "bc_program \<Rightarrow> bc_program option" where
  "bc_free_program p = (if p_ref_count p > 1 then Some (p\<lparr>p_ref_count := p_ref_count p - 1\<rparr>) else None)"

definition bc_program_is_restorable :: "bc_program \<Rightarrow> bool" where
  "bc_program_is_restorable p \<longleftrightarrow> p_node_refs p = 0"

section \<open>Purity scan\<close>

definition bc_impure_op :: "byte \<Rightarrow> bool" where
  "bc_impure_op b \<longleftrightarrow> b \<in> set
     [BC_STORE_VAR, BC_DECLARE_VAR, BC_TYPEOF_VAR, BC_INC_VAR, BC_INC_LOCAL, BC_INC_LOCAL_DISCARD,
      BC_CALL_METHOD, BC_CALL_ELEM, BC_NEW, BC_GET_PROP, BC_LOAD_PROP, BC_LOAD_PROP_ADD, BC_SET_PROP,
      BC_GET_ELEM, BC_SET_ELEM, BC_DELETE_PROP, BC_DELETE_ELEM, BC_IN, BC_INSTANCEOF, BC_PUSH_THIS,
      BC_ITER_INIT, BC_ITER_NEXT, BC_ITER_CLOSE, BC_EVAL_NODE, BC_EVAL_NODE_POP, BC_THROW]"

definition bc_code_is_pure :: "bytes \<Rightarrow> bool" where
  "bc_code_is_pure code \<longleftrightarrow> (\<forall>b\<in>set code. \<not> bc_impure_op b)"

section \<open>Disassembler\<close>

text \<open>
  The listing of \<open>bc_disassemble\<close> before it is formatted: offset, name and decoded operands of every
  line (\<open>Dis_i32\<close> and \<open>Dis_jump_local\<close> end with the jump target). \<open>None\<close>: an operand is read past
  the end of the code.
\<close>

datatype dis_args =
    Dis_none
  | Dis_u16 nat
  | Dis_i32 int int
  | Dis_u16_u16 nat nat
  | Dis_u16_u8 nat nat
  | Dis_jump_local nat int int int

type_synonym dis_line = "nat \<times> string \<times> dis_args"

definition get_u16 :: "bytes \<Rightarrow> nat \<Rightarrow> nat" where
  "get_u16 code p = unat (ucast (code ! p) OR push_bit 8 (ucast (code ! (p + 1))) :: u16)"

definition get_i32 :: "bytes \<Rightarrow> nat \<Rightarrow> int" where
  "get_i32 code p = sint (get_u32 code p)"

definition bc_dis_args :: "bytes \<Rightarrow> nat \<Rightarrow> nat \<Rightarrow> dis_args" where
  "bc_dis_args code k pc =
     (if k = 1 then Dis_u16 (get_u16 code pc)
      else if k = 2 then Dis_i32 (get_i32 code pc) (int (pc + 4) + get_i32 code pc)
      else if k = 3 then Dis_u16_u16 (get_u16 code pc) (get_u16 code (pc + 2))
      else if k = 4 then Dis_u16_u8 (get_u16 code pc) (unat (code ! (pc + 2)))
      else if k = 5 then
        Dis_jump_local (get_u16 code pc) (get_i32 code (pc + 2)) (get_i32 code (pc + 6))
          (int (pc + 10) + get_i32 code (pc + 6))
      else Dis_none)"

lemma bc_op_total_len_pos [simp]: "0 < bc_op_total_len op"
  by (simp add: bc_op_total_len_def Let_def)

function bc_disassemble :: "bytes \<Rightarrow> nat \<Rightarrow> dis_line list option" where
  "bc_disassemble code pc =
     (if pc < length code then
        (if length code < pc + bc_op_total_len (code ! pc) then None
         else map_option ((#) (pc, fst (bc_info (code ! pc)), bc_dis_args code (snd (bc_info (code ! pc))) (pc + 1)))
                (bc_disassemble code (pc + bc_op_total_len (code ! pc))))
      else Some [])"
  by pat_completeness auto
termination
  by (relation "measure (\<lambda>(code, pc). length code - pc)") (auto simp: diff_less_mono2)

declare bc_disassemble.simps [simp del]

section \<open>The binary image\<close>

definition BC_SER_MAGIC :: bytes where
  "BC_SER_MAGIC = [0x4C, 0x52, 0x42, 0x43]"

definition BC_SER_VERSION :: u32 where
  "BC_SER_VERSION = 2"

definition BC_SER_FLAG_NODE_REFS :: u32 where
  "BC_SER_FLAG_NODE_REFS = 1"

text \<open>The first pass of \<open>bc_serialize\<close>: the size of the buffer.\<close>

definition bc_const_size :: "bc_const \<Rightarrow> nat" where
  "bc_const_size k =
     1 + (case c_val k of Pool_int32 _ \<Rightarrow> 4 | Pool_float64 _ \<Rightarrow> 8 | Pool_string s \<Rightarrow> 4 + length s + 1
          | Pool_node _ \<Rightarrow> 0 | Pool_other _ \<Rightarrow> 0)"

definition bc_ser_total :: "bc_program \<Rightarrow> nat" where
  "bc_ser_total p = 4 + 4 + 4 + 4 + 4 + length (p_code p) + sum_list (map bc_const_size (p_pool p))"

definition ser_const :: "bc_const \<Rightarrow> bytes" where
  "ser_const k =
     (case c_val k of
        Pool_int32 i \<Rightarrow> 0 # put_u32 i
      | Pool_float64 d \<Rightarrow> 1 # le_bytes 8 d
      | Pool_string s \<Rightarrow> 2 # put_u32 (word_of_nat (length s)) @ s @ [0]
      | Pool_node _ \<Rightarrow> [3]
      | Pool_other b \<Rightarrow> [b])"

text \<open>The second pass; \<open>None\<close> for a null code pointer or a failed \<open>malloc\<close>.\<close>

definition bc_serialize :: "bool \<Rightarrow> bc_program \<Rightarrow> bytes option" where
  "bc_serialize alloc_ok p =
     (if p_code_null p \<or> \<not> alloc_ok then None
      else Some (BC_SER_MAGIC @ put_u32 BC_SER_VERSION
                 @ put_u32 (if p_node_refs p \<noteq> 0 then BC_SER_FLAG_NODE_REFS else 0)
                 @ put_u32 (word_of_nat (length (p_code p))) @ put_u32 (word_of_nat (length (p_pool p)))
                 @ p_code p @ concat (map ser_const (p_pool p))))"

text \<open>
  Loading: \<open>Rejected\<close> is a NULL result, \<open>Out_of_bounds\<close> a write past an allocated block and
  \<open>Null_deref\<close> a read through a null pointer: when the constant pool could not be allocated,
  \<open>bc_free_program\<close> still walks the \<open>pool_count\<close> entries of the null pool.
  The \<open>int32_t\<close> capacities wrap; a negative one becomes, as a \<open>size_t\<close>, a size no allocator can give.
  \<open>alloc\<close> says which allocations succeed: 0 is the program, 1 its code, 2 its pool and \<open>3 + i\<close> the string of
  constant \<open>i\<close>.
\<close>

datatype bc_load = Rejected | Loaded bc_program | Out_of_bounds | Null_deref

datatype bc_item = Item_bad | Item bc_const_val nat

definition get_u64 :: "bytes \<Rightarrow> nat \<Rightarrow> u64" where
  "get_u64 d p = ucast (get_u32 d p) OR push_bit 32 (ucast (get_u32 d (p + 4)))"

text \<open>One constant at \<open>pos\<close>: its value and the position after it.\<close>

definition bc_read_item :: "bytes \<Rightarrow> nat \<Rightarrow> bc_item" where
  "bc_read_item d pos =
     (if pos \<ge> length d then Item_bad
      else let kind = d ! pos; pos = pos + 1 in
        if kind = 0 then
          (if pos + 4 > length d then Item_bad else Item (Pool_int32 (get_u32 d pos)) (pos + 4))
        else if kind = 1 then
          (if pos + 8 > length d then Item_bad else Item (Pool_float64 (get_u64 d pos)) (pos + 8))
        else if kind = 2 then
          (if pos + 4 > length d then Item_bad
           else let sl = unat (get_u32 d pos); pos = pos + 4 in
             if pos + sl + 1 > length d then Item_bad
             else Item (Pool_string (takeWhile (\<lambda>b. b \<noteq> 0) (take sl (drop pos d)))) (pos + sl + 1))
        else if kind = 3 then Item_bad
        else Item (Pool_other kind) pos)"

definition is_pool_string :: "bc_const_val \<Rightarrow> bool" where
  "is_pool_string v = (case v of Pool_string s \<Rightarrow> True | _ \<Rightarrow> False)"

text \<open>The loop over the constants; \<open>cap\<close> is the number of allocated pool slots.\<close>

fun bc_read_pool :: "(nat \<Rightarrow> bool) \<Rightarrow> bytes \<Rightarrow> nat \<Rightarrow> nat \<Rightarrow> nat \<Rightarrow> bc_const list \<Rightarrow> (bc_const list) option option" where
  "bc_read_pool alloc d pos cap 0 acc = Some (Some acc)"
| "bc_read_pool alloc d pos cap (Suc n) acc =
     (if pos \<ge> length d then Some None
      else if length acc \<ge> cap then None
      else case bc_read_item d pos of
             Item_bad \<Rightarrow> Some None
           | Item v pos' \<Rightarrow>
               if is_pool_string v \<and> \<not> alloc (3 + length acc) then Some None
               else bc_read_pool alloc d pos' cap n (acc @ [\<lparr>c_val = v, c_str_hash = 0\<rparr>]))"

definition bc_deserialize :: "(nat \<Rightarrow> bool) \<Rightarrow> bytes \<Rightarrow> u32 \<Rightarrow> bc_load" where
  "bc_deserialize alloc d counter =
     (if length d < 20 \<or> take 4 d \<noteq> BC_SER_MAGIC then Rejected
      else if get_u32 d 4 \<noteq> BC_SER_VERSION then Rejected
      else if get_u32 d 8 AND BC_SER_FLAG_NODE_REFS \<noteq> 0 then Rejected
      else
        let code_len = get_u32 d 12; pool_count = get_u32 d 16;
            code_cap = sint (code_len + 16); pool_cap = sint (pool_count + 8) in
        if 20 + unat code_len > length d then Rejected
        else if \<not> alloc 0 then Rejected
        else if \<not> alloc 1 \<or> code_cap < 0 then Rejected
        else if unat code_len > nat code_cap then Out_of_bounds
        else if \<not> alloc 2 \<or> pool_cap < 0 then (if 0 < sint pool_count then Null_deref else Rejected)
        else case bc_read_pool alloc d (20 + unat code_len) (nat pool_cap) (unat pool_count) [] of
               None \<Rightarrow> Out_of_bounds
             | Some None \<Rightarrow> Rejected
             | Some (Some pool) \<Rightarrow>
                 Loaded \<lparr>p_code = take (unat code_len) (drop 20 d), p_code_null = False, p_pool = pool, p_max_stack = 64,
                         p_node_refs = 0, p_compiled = True, p_prog_id = fst (bc_new_program counter),
                         p_ref_count = 1\<rparr>)"

section \<open>Round trip\<close>

lemma length_le_bytes [simp]: "length (le_bytes n d) = n"
  by (induction n arbitrary: d) auto

lemma le_bytes_8: "le_bytes 8 d = put_u32 (ucast d) @ put_u32 (ucast (drop_bit 32 d))"
proof -
  have u: "(ucast (drop_bit k d AND 0xFF) :: byte) = ucast (drop_bit k (ucast d :: u32) AND 0xFF)"
    if "k \<le> 24" for k
    unfolding mask_byte using that by (intro bit_word_eqI) (auto simp: bit_simps)
  have u': "(ucast (drop_bit (k + 32) d AND 0xFF) :: byte) = ucast (drop_bit k (ucast (drop_bit 32 d) :: u32) AND 0xFF)"
    if "k \<le> 24" for k
    unfolding mask_byte using that by (intro bit_word_eqI) (auto simp: bit_simps ac_simps)
  show ?thesis
    using u [of 0] u [of 8] u [of 16] u [of 24] u' [of 0] u' [of 8] u' [of 16] u' [of 24]
    by (simp add: put_u32_def eval_nat_numeral)
qed

lemma get_put_u32_at: "n = length pre \<Longrightarrow> get_u32 (pre @ put_u32 v @ rest) n = v"
  by simp

lemma get_u64_le_bytes: "get_u64 (pre @ le_bytes 8 d @ rest) (length pre) = d"
proof -
  have "get_u32 (pre @ le_bytes 8 d @ rest) (length pre) = ucast d"
    using get_put_u32 [of pre "ucast d" "put_u32 (ucast (drop_bit 32 d)) @ rest"] by (simp add: le_bytes_8)
  moreover have "get_u32 (pre @ le_bytes 8 d @ rest) (length pre + 4) = ucast (drop_bit 32 d)"
    using get_put_u32_at [of "length pre + 4" "pre @ put_u32 (ucast d)" "ucast (drop_bit 32 d)" rest]
    by (simp add: le_bytes_8)
  ultimately show ?thesis
    unfolding get_u64_def by (intro bit_word_eqI) (auto simp: bit_simps)
qed

text \<open>A constant that the image can carry.\<close>

definition const_ok :: "bc_const \<Rightarrow> bool" where
  "const_ok k =
     (case c_val k of
        Pool_string s \<Rightarrow> 0 \<notin> set s \<and> length s < 2 ^ 32
      | Pool_node _ \<Rightarrow> False
      | Pool_other b \<Rightarrow> b > 3
      | _ \<Rightarrow> True)"

lemma length_ser_const: "length (ser_const k) = bc_const_size k"
  by (simp add: ser_const_def bc_const_size_def split: bc_const_val.splits)

lemma bc_read_item_ser:
  assumes "const_ok k"
  shows "bc_read_item (pre @ ser_const k @ rest) (length pre) = Item (c_val k) (length pre + bc_const_size k)"
proof (cases "c_val k")
  case (Pool_int32 i)
  then show ?thesis
    using get_put_u32_at [of "length pre + 1" "pre @ [0]" i rest]
    by (simp add: bc_read_item_def ser_const_def bc_const_size_def)
next
  case (Pool_float64 d)
  then show ?thesis
    using get_u64_le_bytes [of "pre @ [1]" d rest]
    by (simp add: bc_read_item_def ser_const_def bc_const_size_def)
next
  case (Pool_string s)
  define d where "d = (pre @ [2]) @ put_u32 (word_of_nat (length s)) @ s @ 0 # rest"
  have s: "0 \<notin> set s" "length s < 2 ^ 32" using assms Pool_string by (auto simp: const_ok_def)
  have d: "pre @ ser_const k @ rest = d" using Pool_string by (simp add: ser_const_def d_def)
  have g: "get_u32 d (Suc (length pre)) = word_of_nat (length s)"
    unfolding d_def by (rule get_put_u32_at) simp
  have u: "unat (word_of_nat (length s) :: u32) = length s" using s(2) by (simp add: unat_of_nat)
  have t: "take (length s) (drop (Suc (length pre) + 4) d) = s" unfolding d_def by simp
  have w: "takeWhile (\<lambda>b. b \<noteq> 0) s = s" unfolding takeWhile_eq_all_conv using s(1) by auto
  have n: "d ! length pre = 2" "length d = length pre + 6 + length s + length rest"
    unfolding d_def by (simp_all add: nth_append)
  have "bc_read_item d (length pre) = Item (Pool_string s) (Suc (length pre) + 4 + length s + 1)"
    unfolding bc_read_item_def Let_def Suc_eq_plus1 [symmetric] g u t w n by simp
  then show ?thesis unfolding d using Pool_string by (simp add: bc_const_size_def)
next
  case (Pool_node n)
  then show ?thesis using assms by (simp add: const_ok_def)
next
  case (Pool_other b)
  then have "b > 3" using assms by (simp add: const_ok_def)
  then have "b \<noteq> 0" "b \<noteq> 1" "b \<noteq> 2" "b \<noteq> 3" by auto
  with Pool_other show ?thesis
    by (simp add: bc_read_item_def ser_const_def bc_const_size_def)
qed

text \<open>The precomputed string hash is not part of the image; a loaded constant has hash 0.\<close>

definition strip_hash :: "bc_const \<Rightarrow> bc_const" where
  "strip_hash k = \<lparr>c_val = c_val k, c_str_hash = 0\<rparr>"

lemma bc_read_pool_ser:
  assumes "\<forall>k\<in>set ks. const_ok k" "length acc + length ks \<le> cap"
  shows "bc_read_pool (\<lambda>_. True) (pre @ concat (map ser_const ks)) (length pre) cap (length ks) acc =
    Some (Some (acc @ map strip_hash ks))"
  using assms
proof (induction ks arbitrary: pre acc)
  case (Cons k ks)
  have i: "bc_read_item (pre @ ser_const k @ concat (map ser_const ks)) (length pre) =
      Item (c_val k) (length pre + bc_const_size k)"
    using Cons.prems by (intro bc_read_item_ser) simp
  have "bc_const_size k \<noteq> 0" by (simp add: bc_const_size_def)
  moreover have "bc_read_pool (\<lambda>_. True) ((pre @ ser_const k) @ concat (map ser_const ks)) (length (pre @ ser_const k)) cap
      (length ks) (acc @ [strip_hash k]) = Some (Some ((acc @ [strip_hash k]) @ map strip_hash ks))"
    using Cons.prems by (intro Cons.IH) auto
  ultimately show ?case using i Cons.prems by (simp add: length_ser_const strip_hash_def)
qed simp

definition program_ok :: "bc_program \<Rightarrow> bool" where
  "program_ok p \<longleftrightarrow> \<not> p_code_null p \<and> p_node_refs p = 0 \<and> (\<forall>k\<in>set (p_pool p). const_ok k)
     \<and> length (p_code p) + 16 < 2 ^ 31 \<and> length (p_pool p) + 8 < 2 ^ 31"

lemma bc_image_fields:
  fixes code rest :: bytes
  assumes "d = BC_SER_MAGIC @ put_u32 a @ put_u32 b @ put_u32 c @ put_u32 e @ rest"
  shows "take 4 d = BC_SER_MAGIC" "get_u32 d 4 = a" "get_u32 d 8 = b" "get_u32 d 12 = c" "get_u32 d 16 = e"
    "drop 20 d = rest" "length d = 20 + length rest"
proof -
  have m: "length BC_SER_MAGIC = 4" by (simp add: BC_SER_MAGIC_def)
  show "take 4 d = BC_SER_MAGIC" "drop 20 d = rest" "length d = 20 + length rest"
    using m by (simp_all add: assms)
  show "get_u32 d 4 = a" unfolding assms using m by (intro get_put_u32_at) simp
  show "get_u32 d 8 = b"
    using m get_put_u32_at [of 8 "BC_SER_MAGIC @ put_u32 a" b "put_u32 c @ put_u32 e @ rest"] by (simp add: assms)
  show "get_u32 d 12 = c"
    using m get_put_u32_at [of 12 "BC_SER_MAGIC @ put_u32 a @ put_u32 b" c "put_u32 e @ rest"] by (simp add: assms)
  show "get_u32 d 16 = e"
    using m get_put_u32_at [of 16 "BC_SER_MAGIC @ put_u32 a @ put_u32 b @ put_u32 c" e rest] by (simp add: assms)
qed

lemma sint_plus_small:
  assumes "n + k < 2 ^ 31"
  shows "sint (word_of_nat n + word_of_nat k :: u32) = int (n + k)"
  using to_i32_small [OF assms] by (simp add: to_i32_def)

text \<open>(C21) Loading the image of a program gives back its code and its constants (with the string hashes
  reset), for every program without AST references whose sizes fit the 32-bit capacities; \<open>NaN\<close> payloads and
  signed zeros included.\<close>

theorem bc_serialize_roundtrip:
  assumes "program_ok p"
  shows "\<exists>d. bc_serialize True p = Some d \<and>
    bc_deserialize (\<lambda>_. True) d counter =
      Loaded \<lparr>p_code = p_code p, p_code_null = False, p_pool = map strip_hash (p_pool p), p_max_stack = 64,
              p_node_refs = 0, p_compiled = True, p_prog_id = fst (bc_new_program counter), p_ref_count = 1\<rparr>"
proof -
  let ?code = "p_code p" and ?pool = "p_pool p"
  let ?cl = "word_of_nat (length ?code) :: u32" and ?pl = "word_of_nat (length ?pool) :: u32"
  define d where "d = BC_SER_MAGIC @ put_u32 BC_SER_VERSION @ put_u32 0 @ put_u32 ?cl @ put_u32 ?pl
    @ ?code @ concat (map ser_const ?pool)"
  have sz: "length ?code + 16 < 2 ^ 31" "length ?pool + 8 < 2 ^ 31" using assms by (auto simp: program_ok_def)
  note f = bc_image_fields [OF d_def]
  have u: "unat ?cl = length ?code" "unat ?pl = length ?pool" using sz by (simp_all add: unat_of_nat)
  have caps: "sint (?cl + 16) = int (length ?code + 16)" "sint (?pl + 8) = int (length ?pool + 8)"
    using sint_plus_small [OF sz(1)] sint_plus_small [OF sz(2)] by simp_all
  define pre where "pre = BC_SER_MAGIC @ put_u32 BC_SER_VERSION @ put_u32 0 @ put_u32 ?cl @ put_u32 ?pl @ ?code"
  have pre: "d = pre @ concat (map ser_const ?pool)" "length pre = 20 + length ?code"
    by (simp_all add: d_def pre_def BC_SER_MAGIC_def)
  have "bc_read_pool (\<lambda>_. True) d (20 + length ?code) (length ?pool + 8) (length ?pool) [] = Some (Some (map strip_hash ?pool))"
    using bc_read_pool_ser [of ?pool "[]" "length ?pool + 8" pre] assms pre by (simp add: program_ok_def)
  then have "bc_deserialize (\<lambda>_. True) d counter =
      Loaded \<lparr>p_code = ?code, p_code_null = False, p_pool = map strip_hash ?pool, p_max_stack = 64,
              p_node_refs = 0, p_compiled = True, p_prog_id = fst (bc_new_program counter), p_ref_count = 1\<rparr>"
    by (simp add: bc_deserialize_def f u caps nat_add_distrib Let_def)
  moreover have "bc_serialize True p = Some d" using assms by (simp add: bc_serialize_def d_def program_ok_def)
  ultimately show ?thesis by blast
qed

theorem bc_serialize_roundtrip_witness:
  "\<exists>d. bc_serialize True \<lparr>p_code = [0], p_code_null = False,
        p_pool = [\<lparr>c_val = Pool_string [0x61], c_str_hash = 97\<rparr>, \<lparr>c_val = Pool_float64 1, c_str_hash = 0\<rparr>],
        p_max_stack = 64, p_node_refs = 0, p_compiled = True, p_prog_id = 1, p_ref_count = 1\<rparr> = Some d \<and>
    bc_deserialize (\<lambda>_. True) d 6 = Loaded \<lparr>p_code = [0], p_code_null = False,
        p_pool = [\<lparr>c_val = Pool_string [0x61], c_str_hash = 0\<rparr>, \<lparr>c_val = Pool_float64 1, c_str_hash = 0\<rparr>],
        p_max_stack = 64, p_node_refs = 0, p_compiled = True, p_prog_id = 7, p_ref_count = 1\<rparr>"
  using bc_serialize_roundtrip [of "\<lparr>p_code = [0], p_code_null = False,
        p_pool = [\<lparr>c_val = Pool_string [0x61], c_str_hash = 97\<rparr>, \<lparr>c_val = Pool_float64 1, c_str_hash = 0\<rparr>],
        p_max_stack = 64, p_node_refs = 0, p_compiled = True, p_prog_id = 1, p_ref_count = 1\<rparr>" 6]
  by (simp add: program_ok_def const_ok_def strip_hash_def bc_new_program_def)

text \<open>The image is exactly as long as the buffer the first pass allocates, so the second pass never
  writes past it.\<close>

theorem bc_serialize_fills_buffer:
  "bc_serialize alloc_ok p = Some d \<longrightarrow> length d = bc_ser_total p"
  by (auto simp: bc_serialize_def bc_ser_total_def length_concat comp_def length_ser_const BC_SER_MAGIC_def
      split: if_splits)

theorem bc_serialize_fills_buffer_witness:
  "bc_serialize True \<lparr>p_code = [0], p_code_null = False, p_pool = [\<lparr>c_val = Pool_node 0, c_str_hash = 0\<rparr>],
      p_max_stack = 64, p_node_refs = 1, p_compiled = True, p_prog_id = 1, p_ref_count = 1\<rparr> \<noteq> None \<and>
   (\<forall>d. bc_serialize True \<lparr>p_code = [0], p_code_null = False, p_pool = [\<lparr>c_val = Pool_node 0, c_str_hash = 0\<rparr>],
      p_max_stack = 64, p_node_refs = 1, p_compiled = True, p_prog_id = 1, p_ref_count = 1\<rparr> = Some d \<longrightarrow> length d = 22)"
proof -
  let ?p = "\<lparr>p_code = [0], p_code_null = False, p_pool = [\<lparr>c_val = Pool_node 0, c_str_hash = 0\<rparr>],
      p_max_stack = 64, p_node_refs = 1, p_compiled = True, p_prog_id = 1, p_ref_count = 1\<rparr>"
  have "bc_ser_total ?p = 22" by (simp add: bc_ser_total_def bc_const_size_def)
  with bc_serialize_fills_buffer [of True ?p] show ?thesis by (auto simp: bc_serialize_def)
qed

section \<open>Hostile images\<close>

lemma bc_read_pool_in_bounds: "length acc + n \<le> cap \<Longrightarrow> bc_read_pool alloc d pos cap n acc \<noteq> None"
  by (induction alloc d pos cap n acc rule: bc_read_pool.induct) (auto split: bc_item.splits)

lemma sint_nonneg_eq_uint:
  assumes "0 \<le> sint (v :: u32)"
  shows "sint v = uint v"
proof -
  have nb: "\<not> bit (uint v) 31" using assms bit_last_iff [of v] by (simp add: bit_uint_iff)
  have "uint v = take_bit (Suc 31) (uint v)" using uint_bounded [of v] by (simp add: take_bit_int_eq_self)
  also have "\<dots> = take_bit 31 (uint v)" using nb by (simp only: take_bit_Suc_from_most) simp
  finally show ?thesis using nb by (simp add: sint_uint signed_take_bit_eq_if_positive)
qed

lemma sint_plus_cap:
  assumes "unat (w :: u32) + unat k < 2 ^ 32" "0 \<le> sint (w + k)"
  shows "nat (sint (w + k)) = unat w + unat k"
  using assms sint_nonneg_eq_uint [OF assms(2)] by (simp add: unat_word_ariths nat_uint_eq)

text \<open>(C22) Loading never writes outside its buffers and never reads through a null pointer, whatever the
  contents of the image and whichever allocations fail, for an image below 2 GiB whose \<open>pool_count\<close> field is
  below \<open>2^32 - 8\<close> and, when it is positive as an \<open>int32_t\<close>, below \<open>2^31 - 8\<close> with the pool itself allocated:
  it is rejected or loaded. Both conditions are needed: see the next two theorems.\<close>

theorem bc_deserialize_in_bounds:
  assumes "length d + 16 < 2 ^ 31" "unat (get_u32 d 16) + 8 < 2 ^ 32"
    "0 < sint (get_u32 d 16) \<Longrightarrow> alloc 2 \<and> unat (get_u32 d 16) + 8 < 2 ^ 31"
  shows "bc_deserialize alloc d counter \<notin> {Out_of_bounds, Null_deref}"
proof -
  let ?c = "get_u32 d 12" and ?n = "get_u32 d 16"
  have code: "nat (sint (?c + 16)) = unat ?c + 16" if "20 + unat ?c \<le> length d" "0 \<le> sint (?c + 16)"
    using sint_plus_cap [of ?c 16] that assms(1) by simp
  have pool: "bc_read_pool alloc d (20 + unat ?c) (nat (sint (?n + 8))) (unat ?n) [] \<noteq> None" if "0 \<le> sint (?n + 8)"
    using sint_plus_cap [of ?n 8] that assms(2) by (intro bc_read_pool_in_bounds) simp
  have null: "alloc 2 \<and> 0 \<le> sint (?n + 8)" if "0 < sint ?n"
    using assms(3) [OF that] sint_plus_small [of "unat ?n" 8] by simp
  have "bc_deserialize alloc d counter \<noteq> Out_of_bounds"
  proof
    assume "bc_deserialize alloc d counter = Out_of_bounds"
    then have "20 + unat ?c \<le> length d \<and> 0 \<le> sint (?c + 16) \<and> nat (sint (?c + 16)) < unat ?c
        \<or> 0 \<le> sint (?n + 8) \<and> bc_read_pool alloc d (20 + unat ?c) (nat (sint (?n + 8))) (unat ?n) [] = None"
      unfolding bc_deserialize_def Let_def
      by (simp add: not_less split: if_splits option.splits)
    with code pool show False by linarith
  qed
  moreover have "bc_deserialize alloc d counter \<noteq> Null_deref"
    using null by (auto simp: bc_deserialize_def Let_def not_less split: option.splits)
  ultimately show ?thesis by simp
qed

theorem bc_deserialize_in_bounds_witness:
  "bc_deserialize (\<lambda>i. i \<noteq> 3) (BC_SER_MAGIC @ put_u32 BC_SER_VERSION @ put_u32 0 @ put_u32 0 @ put_u32 1 @ [2] @ replicate 20 0) 0
   \<notin> {Out_of_bounds, Null_deref}"
proof -
  define d where "d = BC_SER_MAGIC @ put_u32 BC_SER_VERSION @ put_u32 0 @ put_u32 0 @ put_u32 1 @ [2] @ replicate 20 0"
  note f = bc_image_fields [OF d_def]
  have "bc_deserialize (\<lambda>i. i \<noteq> 3) d 0 \<notin> {Out_of_bounds, Null_deref}"
    by (rule bc_deserialize_in_bounds) (simp_all add: f)
  then show ?thesis unfolding d_def .
qed

text \<open>Twenty bytes are enough to make the loader read through the null pool: any positive count from
  \<open>2^31 - 8\<close> on wraps the capacity to a negative number, the allocation fails, and \<open>bc_free_program\<close> walks the
  pool.\<close>

theorem bc_deserialize_null_pool:
  assumes "2 ^ 31 - 8 \<le> n" "n < 2 ^ 31"
  shows "bc_deserialize (\<lambda>_. True) (BC_SER_MAGIC @ put_u32 BC_SER_VERSION @ put_u32 0 @ put_u32 0
    @ put_u32 (word_of_nat n) @ rest) counter = Null_deref"
proof -
  define d where "d = BC_SER_MAGIC @ put_u32 BC_SER_VERSION @ put_u32 0 @ put_u32 0 @ put_u32 (word_of_nat n) @ rest"
  note f = bc_image_fields [OF d_def]
  have "sint (word_of_nat n :: u32) = int n"
    using sint_plus_small [of n 0] assms(2) by simp
  moreover have "sint (word_of_nat n + 8 :: u32) < 0"
  proof -
    obtain k where k: "n = 2147483640 + k" "k < 8"
      using assms le_Suc_ex [of 2147483640 n] by auto
    have "k \<in> {0, 1, 2, 3, 4, 5, 6, 7}" using k(2) by auto
    then show ?thesis unfolding k(1) by (elim insertE emptyE; simp)
  qed
  ultimately have "bc_deserialize (\<lambda>_. True) d counter = Null_deref"
    using assms by (simp add: bc_deserialize_def f Let_def)
  then show ?thesis by (simp only: d_def)
qed

theorem bc_deserialize_null_pool_witness:
  "bc_deserialize (\<lambda>_. True) (BC_SER_MAGIC @ put_u32 BC_SER_VERSION @ put_u32 0 @ put_u32 0
    @ put_u32 (word_of_nat 2147483647) @ []) 0 = Null_deref"
  by (rule bc_deserialize_null_pool) simp_all

lemma bc_read_pool_overflow:
  assumes "\<forall>k\<in>set ks. const_ok k" "length acc \<le> cap" "cap < length acc + length ks" "length ks \<le> n"
  shows "bc_read_pool (\<lambda>_. True) (pre @ concat (map ser_const ks)) (length pre) cap n acc = None"
  using assms
proof (induction ks arbitrary: pre acc n)
  case (Cons k ks)
  obtain n' where n: "n = Suc n'" "length ks \<le> n'" using Cons.prems(4) by (cases n) auto
  have i: "bc_read_item (pre @ ser_const k @ concat (map ser_const ks)) (length pre) =
      Item (c_val k) (length pre + bc_const_size k)"
    using Cons.prems by (intro bc_read_item_ser) simp
  have "bc_const_size k \<noteq> 0" by (simp add: bc_const_size_def)
  moreover have "bc_read_pool (\<lambda>_. True) ((pre @ ser_const k) @ concat (map ser_const ks)) (length (pre @ ser_const k)) cap
      n' (acc @ [strip_hash k]) = None" if "length acc < cap"
    using Cons.prems n that by (intro Cons.IH) auto
  ultimately show ?case using i n Cons.prems by (auto simp: length_ser_const strip_hash_def)
qed simp

text \<open>A \<open>pool_count\<close> field of \<open>2^32 - 1\<close> makes the 32-bit capacity wrap to 7, and an image that goes on
  with eight or more constants is written past the allocated pool.\<close>

theorem bc_deserialize_pool_overflow:
  assumes "\<forall>k\<in>set ks. const_ok k" "8 \<le> length ks" "length ks < 2 ^ 31" "length code + 16 < 2 ^ 31"
  shows "bc_deserialize (\<lambda>_. True) (BC_SER_MAGIC @ put_u32 BC_SER_VERSION @ put_u32 0 @ put_u32 (word_of_nat (length code))
    @ put_u32 0xFFFFFFFF @ code @ concat (map ser_const ks)) counter = Out_of_bounds"
proof -
  let ?cl = "word_of_nat (length code) :: u32"
  define d where "d = BC_SER_MAGIC @ put_u32 BC_SER_VERSION @ put_u32 0 @ put_u32 ?cl @ put_u32 0xFFFFFFFF
    @ code @ concat (map ser_const ks)"
  note f = bc_image_fields [OF d_def]
  have u: "unat ?cl = length code" using assms(4) by (simp add: unat_of_nat)
  have cap: "sint (?cl + 16) = int (length code + 16)" using sint_plus_small [OF assms(4)] by simp
  define pre where "pre = BC_SER_MAGIC @ put_u32 BC_SER_VERSION @ put_u32 0 @ put_u32 ?cl @ put_u32 0xFFFFFFFF @ code"
  have pre: "d = pre @ concat (map ser_const ks)" "length pre = 20 + length code"
    by (simp_all add: d_def pre_def BC_SER_MAGIC_def)
  have "bc_read_pool (\<lambda>_. True) d (20 + length code) 7 (unat (0xFFFFFFFF :: u32)) [] = None"
    using bc_read_pool_overflow [of ks "[]" 7 "unat (0xFFFFFFFF :: u32)" pre] assms pre by simp
  then have "bc_deserialize (\<lambda>_. True) d counter = Out_of_bounds"
    by (simp add: bc_deserialize_def f u cap nat_add_distrib Let_def)
  then show ?thesis by (simp only: d_def)
qed

theorem bc_deserialize_pool_overflow_witness:
  "bc_deserialize (\<lambda>_. True) (BC_SER_MAGIC @ put_u32 BC_SER_VERSION @ put_u32 0 @ put_u32 (word_of_nat (length ([0] :: bytes)))
    @ put_u32 0xFFFFFFFF @ [0] @ concat (map ser_const (replicate 8 \<lparr>c_val = Pool_int32 0, c_str_hash = 0\<rparr>))) 0
   = Out_of_bounds"
  by (rule bc_deserialize_pool_overflow) (simp_all add: const_ok_def)

end
