(* ===== verification/LR_Emit.thy ===== *)
theory LR_Emit
  imports LR_Bytecode
begin

unbundle bit_operations_syntax

text \<open>
  The code generator's output side: \<^verbatim>\<open>src/engine/lr_bytecode_emit.c\<close> (instruction stream with the
  LOAD_PROP/ADD peephole, jumps and their patching, constant pool) and the loop and local-slot
  bookkeeping of \<^verbatim>\<open>src/engine/lr_bytecode_compile.c\<close>.

  \<open>mem\<close> is the outcome of the allocations of a call. \<open>int\<close> offsets are natural numbers where the code
  only adds to them, integers where it tests their sign. \<open>c_scope_overrun\<close> is set when \<open>local_scope_stack\<close> (64
  entries, written and never read) is written past its end; \<open>uses_this\<close> and \<open>uses_super\<close> are flags of the program.
\<close>

section \<open>Compiler state\<close>

record bc_loop =
  l_label :: "string option"
  l_is_switch :: bool
  l_brk :: "nat list"
  l_cont :: "nat list"

record bc_comp =
  c_code :: bytes
  c_code_cap :: int
  c_pool :: "bc_const list"
  c_pool_cap :: int
  c_node_refs :: nat
  c_ok :: bool
  c_stack_depth :: int
  c_max_stack_depth :: int
  c_cur_inst_start :: int
  c_inst_written :: nat
  c_inst_total :: nat
  c_loops :: "bc_loop list"
  c_pending_label :: "string option"
  c_locals :: "string list"
  c_local_scope_depth :: nat
  c_disable_local_slots :: bool
  c_var_local_count :: nat
  c_local_base :: nat
  c_scope_overrun :: bool
  c_uses_this :: bool
  c_uses_super :: bool

definition bc_comp_init :: bc_comp where
  "bc_comp_init = \<lparr>c_code = [], c_code_cap = 0, c_pool = [], c_pool_cap = 0, c_node_refs = 0, c_ok = True,
     c_stack_depth = 0, c_max_stack_depth = 0, c_cur_inst_start = 0, c_inst_written = 0, c_inst_total = 0,
     c_loops = [], c_pending_label = None, c_locals = [], c_local_scope_depth = 0,
     c_disable_local_slots = False, c_var_local_count = 0, c_local_base = 0, c_scope_overrun = False,
     c_uses_this = False, c_uses_super = False\<rparr>"

definition update_stack :: "bc_comp \<Rightarrow> int \<Rightarrow> bc_comp" where
  "update_stack c delta =
     (let d = c_stack_depth c + delta in
      c\<lparr>c_stack_depth := d, c_max_stack_depth := (if d > c_max_stack_depth c then d else c_max_stack_depth c)\<rparr>)"

section \<open>Emission\<close>

definition bc_ensure :: "bool \<Rightarrow> bc_comp \<Rightarrow> nat \<Rightarrow> bc_comp" where
  "bc_ensure mem c extra =
     (if int (length (c_code c) + extra) \<le> c_code_cap c then c
      else let cap = (if c_code_cap c \<noteq> 0 then c_code_cap c * 2 else 256);
               cap = (if int (length (c_code c) + extra) > cap then int (length (c_code c) + extra) + 64 else cap)
           in if mem then c\<lparr>c_code_cap := cap\<rparr> else c\<lparr>c_ok := False\<rparr>)"

definition fusible :: "bc_comp \<Rightarrow> bool" where
  "fusible c \<longleftrightarrow> c_cur_inst_start c \<ge> 0 \<and> int (length (c_code c)) - c_cur_inst_start c = 5
     \<and> c_code c ! nat (c_cur_inst_start c) = BC_LOAD_PROP"

definition emit :: "bool \<Rightarrow> bc_comp \<Rightarrow> byte \<Rightarrow> bc_comp" where
  "emit mem c b =
     (if \<not> c_ok c then c
      else if b = BC_ADD \<and> fusible c then
        update_stack (c\<lparr>c_code := (c_code c)[nat (c_cur_inst_start c) := BC_LOAD_PROP_ADD]\<rparr>) (-1)
      else
        let c1 = (if c_inst_written c \<ge> c_inst_total c
                  then c\<lparr>c_cur_inst_start := int (length (c_code c)), c_inst_total := bc_op_total_len b,
                         c_inst_written := 0\<rparr>
                  else c);
            c2 = bc_ensure mem (c1\<lparr>c_inst_written := c_inst_written c1 + 1\<rparr>) 1
        in if \<not> c_ok c2 then c2 else c2\<lparr>c_code := c_code c2 @ [b]\<rparr>)"

definition count_operand :: "bc_comp \<Rightarrow> nat \<Rightarrow> bc_comp" where
  "count_operand c n =
     (let w = c_inst_written c + n in
      c\<lparr>c_inst_written := (if w > c_inst_total c then c_inst_total c else w)\<rparr>)"

definition put_u16 :: "int \<Rightarrow> bytes" where
  "put_u16 v = [word_of_int v, word_of_int (drop_bit 8 v)]"

definition emit16 :: "bool \<Rightarrow> bc_comp \<Rightarrow> int \<Rightarrow> bc_comp" where
  "emit16 mem c v =
     (if \<not> c_ok c then c
      else if v < 0 \<or> v > 0xFFFF then c\<lparr>c_ok := False\<rparr>
      else let c1 = bc_ensure mem c 2
           in if \<not> c_ok c1 then c1 else count_operand (c1\<lparr>c_code := c_code c1 @ put_u16 v\<rparr>) 2)"

definition emit32 :: "bool \<Rightarrow> bc_comp \<Rightarrow> int \<Rightarrow> bc_comp" where
  "emit32 mem c v =
     (if \<not> c_ok c then c
      else let c1 = bc_ensure mem c 4
           in if \<not> c_ok c1 then c1 else count_operand (c1\<lparr>c_code := c_code c1 @ put_u32 (word_of_int v)\<rparr>) 4)"

definition here :: "bc_comp \<Rightarrow> nat" where
  "here c = length (c_code c)"

definition emit_jump :: "bool \<Rightarrow> bc_comp \<Rightarrow> byte \<Rightarrow> bc_comp \<times> nat" where
  "emit_jump mem c b = (let c1 = emit mem c b; pos = here c1 in (emit32 mem c1 0, pos))"

definition patch_jump_to :: "bc_comp \<Rightarrow> nat \<Rightarrow> nat \<Rightarrow> bc_comp" where
  "patch_jump_to c pos target =
     (if \<not> c_ok c \<or> pos + 4 > length (c_code c) then c
      else c\<lparr>c_code := take pos (c_code c) @ put_u32 (word_of_int (int target - int (pos + 4)))
                       @ drop (pos + 4) (c_code c)\<rparr>)"

definition patch_here :: "bc_comp \<Rightarrow> nat \<Rightarrow> bc_comp" where
  "patch_here c pos = patch_jump_to c pos (here c)"

section \<open>Constant pool\<close>

definition pool_reserve :: "bool \<Rightarrow> bc_comp \<Rightarrow> bc_comp \<times> bool" where
  "pool_reserve mem c =
     (if int (length (c_pool c)) < c_pool_cap c then (c, True)
      else if mem then (c\<lparr>c_pool_cap := (if c_pool_cap c \<noteq> 0 then c_pool_cap c * 2 else 32)\<rparr>, True)
      else (c\<lparr>c_ok := False\<rparr>, False))"

text \<open>The index of the first constant that satisfies the test.\<close>

fun pool_index :: "(bc_const_val \<Rightarrow> bool) \<Rightarrow> bc_const list \<Rightarrow> nat \<Rightarrow> nat option" where
  "pool_index P [] i = None"
| "pool_index P (k # ks) i = (if P (c_val k) then Some i else pool_index P ks (i + 1))"

definition pool_push :: "bool \<Rightarrow> bc_comp \<Rightarrow> bc_const \<Rightarrow> bc_comp \<times> nat" where
  "pool_push bad c k =
     (let idx = length (c_pool c); c1 = c\<lparr>c_pool := c_pool c @ [k]\<rparr>
      in (if bad \<or> int idx > 0xFFFF then c1\<lparr>c_ok := False\<rparr> else c1, idx))"

definition pool_add_f64 :: "bool \<Rightarrow> bc_comp \<Rightarrow> u64 \<Rightarrow> bc_comp \<times> nat" where
  "pool_add_f64 mem c d =
     (if \<not> c_ok c then (c, 0)
      else case pool_reserve mem c of
        (c1, False) \<Rightarrow> (c1, 0)
      | (c1, True) \<Rightarrow>
          (case pool_index (\<lambda>v. case v of Pool_float64 x \<Rightarrow> f64_eq x d | _ \<Rightarrow> False) (c_pool c1) 0 of
             Some i \<Rightarrow> (c1, i)
           | None \<Rightarrow> pool_push False c1 \<lparr>c_val = Pool_float64 d, c_str_hash = 0\<rparr>))"

text \<open>\<open>h = (h << 5) - h + byte\<close>\<close>

definition str_hash31 :: "bytes \<Rightarrow> u32" where
  "str_hash31 s = fold (\<lambda>b h. push_bit 5 h - h + ucast b) s 0"

definition pool_add_str :: "bool \<Rightarrow> bc_comp \<Rightarrow> bytes \<Rightarrow> bc_comp \<times> nat" where
  "pool_add_str mem c s =
     (if \<not> c_ok c then (c, 0)
      else case pool_reserve mem c of
        (c1, False) \<Rightarrow> (c1, 0)
      | (c1, True) \<Rightarrow>
          (case pool_index (\<lambda>v. v = Pool_string s) (c_pool c1) 0 of
             Some i \<Rightarrow> (c1, i)
           | None \<Rightarrow> pool_push (\<not> mem) c1 \<lparr>c_val = Pool_string s, c_str_hash = str_hash31 s\<rparr>))"

text \<open>The cases of the inline \<open>Math\<close> dispatch of the executor: the hash it switches on and the function it calls.\<close>

definition math_dispatch :: "(u32 \<times> string) list" where
  "math_dispatch =
    [(0x0035FD20, ''sqrt''), (0x0001BCD8, ''sin''), (0x00018187, ''cos''), (0x05D0240C, ''floor''),
     (0x002E8905, ''ceil''), (0x067AB18E, ''round''), (0x00017872, ''abs''), (0x0001BFA1, ''tan''),
     (0x0001A344, ''log''), (0x00018A1D, ''exp''), (0x002DD4D7, ''asin''), (0x002D9986, ''acos''),
     (0x002DD7A0, ''atan''), (0x0035DE90, ''sinh''), (0x002EAFC1, ''cosh''), (0x003634E7, ''tanh''),
     (0x002E7EE1, ''cbrt''), (0x0032C56E, ''log2''), (0x0625E863, ''log10''), (0x0625E8A3, ''log1p''),
     (0x05C78441, ''expm1''), (0xB48900E8, ''fround''), (0x06983DAC, ''trunc''), (0x0035DDBD, ''sign'')]"

definition pool_add_node :: "bool \<Rightarrow> bc_comp \<Rightarrow> nat \<Rightarrow> bc_comp \<times> nat" where
  "pool_add_node mem c node =
     (if \<not> c_ok c then (c, 0)
      else case pool_reserve mem c of
        (c1, False) \<Rightarrow> (c1, 0)
      | (c1, True) \<Rightarrow>
          pool_push False (c1\<lparr>c_node_refs := c_node_refs c1 + 1\<rparr>) \<lparr>c_val = Pool_node node, c_str_hash = 0\<rparr>)"

section \<open>Loops and local slots\<close>

definition loop_push :: "bc_comp \<Rightarrow> bool \<Rightarrow> bc_comp" where
  "loop_push c is_switch =
     c\<lparr>c_loops := \<lparr>l_label = c_pending_label c, l_is_switch = is_switch, l_brk = [], l_cont = []\<rparr> # c_loops c,
       c_pending_label := None\<rparr>"

definition patch_list :: "bc_comp \<Rightarrow> nat list \<Rightarrow> nat \<Rightarrow> bc_comp" where
  "patch_list c xs target = fold (\<lambda>pos c. patch_jump_to c pos target) xs c"

definition loop_pop :: "bc_comp \<Rightarrow> nat \<Rightarrow> nat \<Rightarrow> bc_comp" where
  "loop_pop c break_target continue_target =
     (case c_loops c of
        [] \<Rightarrow> c
      | lp # rest \<Rightarrow>
          let c1 = patch_list c (l_brk lp) break_target;
              c2 = (if l_is_switch lp then c1 else patch_list c1 (l_cont lp) continue_target)
          in c2\<lparr>c_loops := rest\<rparr>)"

text \<open>\<open>need_loop\<close> for \<open>continue\<close>: an unlabelled one skips switches. The result is the depth of the loop.\<close>

fun find_target :: "bc_loop list \<Rightarrow> string option \<Rightarrow> bool \<Rightarrow> nat option" where
  "find_target [] label need_loop = None"
| "find_target (lp # rest) label need_loop =
     (if (case label of
            None \<Rightarrow> \<not> need_loop \<or> \<not> l_is_switch lp
          | Some l \<Rightarrow> l_label lp = Some l)
      then Some 0 else map_option Suc (find_target rest label need_loop))"

definition find_local_slot :: "bc_comp \<Rightarrow> string \<Rightarrow> nat option" where
  "find_local_slot c name =
     (if c_local_scope_depth c \<noteq> 0 \<or> c_disable_local_slots c then None
      else find (\<lambda>i. c_locals c ! i = name) [0..<length (c_locals c)])"

definition register_local_name :: "bc_comp \<Rightarrow> string \<Rightarrow> bc_comp" where
  "register_local_name c name =
     (if length (c_locals c) \<ge> 256 \<or> name \<in> set (c_locals c) then c
      else c\<lparr>c_locals := c_locals c @ [name]\<rparr>)"

section \<open>Branching expressions\<close>

text \<open>
  The conditional and the short-circuit operators of \<open>cexpr\<close>, over the emitters of their
  subexpressions; \<open>op\<close> is the keep-jump of the operator.
\<close>

definition cexpr_conditional ::
  "(bc_comp \<Rightarrow> bc_comp) \<Rightarrow> (bc_comp \<Rightarrow> bc_comp) \<Rightarrow> (bc_comp \<Rightarrow> bc_comp) \<Rightarrow> bc_comp \<Rightarrow> bc_comp" where
  "cexpr_conditional cond consequent alternate c =
     (let c1 = cond c;
          (c2, jfalse) = emit_jump True c1 BC_JUMP_IF_FALSE;
          c3 = consequent c2;
          (c4, jend) = emit_jump True c3 BC_JUMP;
          c5 = patch_here c4 jfalse;
          c6 = alternate c5
      in patch_here c6 jend)"

definition cexpr_logical :: "byte \<Rightarrow> (bc_comp \<Rightarrow> bc_comp) \<Rightarrow> (bc_comp \<Rightarrow> bc_comp) \<Rightarrow> bc_comp \<Rightarrow> bc_comp" where
  "cexpr_logical op left right c =
     (let (c1, j) = emit_jump True (left c) op;
          c2 = right (emit True c1 BC_POP)
      in patch_here c2 j)"

definition cexpr_binary :: "byte \<Rightarrow> (bc_comp \<Rightarrow> bc_comp) \<Rightarrow> (bc_comp \<Rightarrow> bc_comp) \<Rightarrow> bc_comp \<Rightarrow> bc_comp" where
  "cexpr_binary bop left right c = emit True (right (left c)) bop"

section \<open>Whole instructions\<close>

text \<open>An instruction as the compiler emits it: its opcode, then one call per operand.\<close>

datatype operand = U8 byte | U16 int | I32 int

type_synonym insn = "byte \<times> operand list"

definition enc_operand :: "operand \<Rightarrow> bytes" where
  "enc_operand a = (case a of U8 b \<Rightarrow> [b] | U16 v \<Rightarrow> put_u16 v | I32 v \<Rightarrow> put_u32 (word_of_int v))"

definition enc_insn :: "insn \<Rightarrow> bytes" where
  "enc_insn i = fst i # concat (map enc_operand (snd i))"

definition emit_operand :: "bool \<Rightarrow> operand \<Rightarrow> bc_comp \<Rightarrow> bc_comp" where
  "emit_operand mem a c = (case a of U8 b \<Rightarrow> emit mem c b | U16 v \<Rightarrow> emit16 mem c v | I32 v \<Rightarrow> emit32 mem c v)"

definition emit_insn :: "bool \<Rightarrow> insn \<Rightarrow> bc_comp \<Rightarrow> bc_comp" where
  "emit_insn mem i c = fold (emit_operand mem) (snd i) (emit mem c (fst i))"

definition operand_ok :: "operand \<Rightarrow> bool" where
  "operand_ok a = (case a of U16 v \<Rightarrow> 0 \<le> v \<and> v \<le> 0xFFFF | _ \<Rightarrow> True)"

definition insn_ok :: "insn \<Rightarrow> bool" where
  "insn_ok i \<longleftrightarrow> length (enc_insn i) = bc_op_total_len (fst i) \<and> list_all operand_ok (snd i)
     \<and> fst i \<noteq> BC_LOAD_PROP_ADD"

text \<open>
  What the peephole means on whole instructions: an ADD that directly follows a LOAD_PROP is merged
  into it.
\<close>

definition fuse_step :: "insn list \<Rightarrow> insn \<Rightarrow> insn list" where
  "fuse_step acc i =
     (if i = (BC_ADD, []) \<and> acc \<noteq> [] \<and> fst (last acc) = BC_LOAD_PROP
      then butlast acc @ [(BC_LOAD_PROP_ADD, snd (last acc))]
      else acc @ [i])"

definition fuse :: "insn list \<Rightarrow> insn list" where
  "fuse is = foldl fuse_step [] is"

lemma enc_operand_nonempty [simp]: "enc_operand a \<noteq> []"
proof
  assume "enc_operand a = []"
  then have "length (enc_operand a) = 0" by simp
  then show False by (cases a) (simp_all add: enc_operand_def put_u16_def)
qed

lemma bc_ensure_True [simp]:
  "c_code (bc_ensure True c n) = c_code c" "c_ok (bc_ensure True c n) = c_ok c"
  "c_cur_inst_start (bc_ensure True c n) = c_cur_inst_start c"
  "c_inst_written (bc_ensure True c n) = c_inst_written c" "c_inst_total (bc_ensure True c n) = c_inst_total c"
  by (simp_all add: bc_ensure_def Let_def)

lemma total_len_opcodes:
  "bc_op_total_len BC_LOAD_PROP = 5" "bc_op_total_len BC_ADD = 1"
  by (simp_all add: bc_op_total_len_def bc_info_def bc_info_table_def BC_LOAD_PROP_def BC_ADD_def)

text \<open>In the middle of an instruction: its opcode is where the tracker says, and the tracker counts its bytes.\<close>

definition mid_inst :: "bc_comp \<Rightarrow> byte \<Rightarrow> bool" where
  "mid_inst c op \<longleftrightarrow> c_ok c \<and> 0 \<le> c_cur_inst_start c \<and> c_inst_total c = bc_op_total_len op
     \<and> int (length (c_code c)) - c_cur_inst_start c = int (c_inst_written c)
     \<and> nat (c_cur_inst_start c) < length (c_code c) \<and> c_code c ! nat (c_cur_inst_start c) = op"

lemma emit_operand_mid:
  assumes "mid_inst c op" "operand_ok a" "c_inst_written c + length (enc_operand a) \<le> c_inst_total c"
  shows "mid_inst (emit_operand True a c) op \<and> c_code (emit_operand True a c) = c_code c @ enc_operand a
    \<and> c_inst_written (emit_operand True a c) = c_inst_written c + length (enc_operand a)
    \<and> c_cur_inst_start (emit_operand True a c) = c_cur_inst_start c"
proof (cases a)
  case (U8 b)
  have "\<not> fusible c"
    using assms U8 by (auto simp: mid_inst_def fusible_def enc_operand_def total_len_opcodes)
  then show ?thesis
    using assms U8 by (auto simp: mid_inst_def emit_operand_def emit_def enc_operand_def Let_def nth_append)
next
  case (U16 v)
  then show ?thesis
    using assms by (auto simp: mid_inst_def emit_operand_def emit16_def enc_operand_def put_u16_def operand_ok_def
        count_operand_def Let_def nth_append)
next
  case (I32 v)
  then show ?thesis
    using assms by (auto simp: mid_inst_def emit_operand_def emit32_def enc_operand_def
        count_operand_def Let_def nth_append)
qed

lemma emit_operands_mid:
  assumes "mid_inst c op" "list_all operand_ok as"
    "c_inst_written c + length (concat (map enc_operand as)) \<le> c_inst_total c"
  shows "mid_inst (fold (emit_operand True) as c) op
    \<and> c_code (fold (emit_operand True) as c) = c_code c @ concat (map enc_operand as)
    \<and> c_inst_written (fold (emit_operand True) as c) = c_inst_written c + length (concat (map enc_operand as))
    \<and> c_cur_inst_start (fold (emit_operand True) as c) = c_cur_inst_start c"
  using assms
proof (induction as arbitrary: c)
  case (Cons a as)
  have one: "mid_inst (emit_operand True a c) op" "c_code (emit_operand True a c) = c_code c @ enc_operand a"
      "c_inst_written (emit_operand True a c) = c_inst_written c + length (enc_operand a)"
      "c_cur_inst_start (emit_operand True a c) = c_cur_inst_start c"
    using emit_operand_mid [OF Cons.prems(1), of a] Cons.prems by auto
  moreover have "c_inst_total (emit_operand True a c) = c_inst_total c"
    using one(1) Cons.prems(1) by (simp add: mid_inst_def)
  ultimately show ?case using Cons.IH [OF one(1)] Cons.prems by auto
qed simp

text \<open>At an instruction boundary, with \<open>acc\<close> the instructions emitted so far.\<close>

definition at_boundary :: "bc_comp \<Rightarrow> insn list \<Rightarrow> bool" where
  "at_boundary c acc \<longleftrightarrow> c_ok c \<and> c_code c = concat (map enc_insn acc) \<and> c_inst_written c = c_inst_total c
     \<and> c_cur_inst_start c = int (length (concat (map enc_insn (butlast acc))))"

lemma at_boundary_init: "at_boundary bc_comp_init []"
  by (simp add: at_boundary_def bc_comp_init_def)

lemma at_boundary_last:
  assumes "at_boundary c acc" "acc \<noteq> []"
  shows "c_code c = concat (map enc_insn (butlast acc)) @ enc_insn (last acc)"
proof -
  have "c_code c = concat (map enc_insn (butlast acc @ [last acc]))"
    using assms(1) unfolding append_butlast_last_id [OF assms(2)] by (simp add: at_boundary_def)
  then show ?thesis by simp
qed

lemma at_boundary_start_insn:
  assumes at: "at_boundary c acc" and nf: "\<not> (fst i = BC_ADD \<and> fusible c)" and ok: "insn_ok i"
  shows "at_boundary (emit_insn True i c) (acc @ [i])"
proof -
  let ?c = "emit True c (fst i)"
  have e: "c_code ?c = c_code c @ [fst i]" "c_inst_written ?c = 1" "c_inst_total ?c = bc_op_total_len (fst i)"
      "c_cur_inst_start ?c = int (length (c_code c))" "c_ok ?c"
    using at nf by (auto simp: at_boundary_def emit_def Let_def)
  then have mid: "mid_inst ?c (fst i)" by (simp add: mid_inst_def)
  have len: "c_inst_written ?c + length (concat (map enc_operand (snd i))) = c_inst_total ?c"
    using e ok by (simp add: insn_ok_def enc_insn_def)
  have "list_all operand_ok (snd i)" using ok by (simp add: insn_ok_def)
  from emit_operands_mid [OF mid this] len e at show ?thesis
    by (auto simp: emit_insn_def at_boundary_def enc_insn_def mid_inst_def)
qed

lemma fusible_boundary:
  assumes at: "at_boundary c acc" and ok: "\<forall>i\<in>set acc. length (enc_insn i) = (if fst i = BC_LOAD_PROP then 5 else length (enc_insn i))"
  shows "fusible c \<longleftrightarrow> acc \<noteq> [] \<and> fst (last acc) = BC_LOAD_PROP"
proof (cases "acc = []")
  case True
  then show ?thesis using at by (simp add: at_boundary_def fusible_def)
next
  case False
  have code: "c_code c = concat (map enc_insn (butlast acc)) @ enc_insn (last acc)"
    by (rule at_boundary_last [OF at False])
  have st: "c_cur_inst_start c = int (length (concat (map enc_insn (butlast acc))))"
    using at by (simp add: at_boundary_def)
  have "c_code c ! nat (c_cur_inst_start c) = fst (last acc)"
    unfolding code st nat_int by (simp only: enc_insn_def nth_append_at)
  moreover have "int (length (c_code c)) - c_cur_inst_start c = int (length (enc_insn (last acc)))"
    unfolding code st by simp
  moreover have "fst (last acc) = BC_LOAD_PROP \<Longrightarrow> length (enc_insn (last acc)) = 5"
    using ok False by (metis last_in_set)
  ultimately show ?thesis using False st by (auto simp: fusible_def)
qed

definition lp_len :: "insn \<Rightarrow> bool" where
  "lp_len i \<longleftrightarrow> (fst i = BC_LOAD_PROP \<longrightarrow> length (enc_insn i) = 5)"

lemma insn_ok_lp_len: "insn_ok i \<Longrightarrow> lp_len i"
  by (auto simp: insn_ok_def lp_len_def total_len_opcodes)

lemma opcodes_distinct [simp]:
  "BC_LOAD_PROP_ADD \<noteq> BC_LOAD_PROP" "BC_LOAD_PROP \<noteq> BC_LOAD_PROP_ADD" "BC_ADD \<noteq> BC_LOAD_PROP"
  by (simp_all add: bc_opcode_defs)

lemma at_boundary_fuse:
  assumes at: "at_boundary c acc" and ne: "acc \<noteq> []" and fu: "fusible c"
  shows "at_boundary (emit_insn True (BC_ADD, []) c) (butlast acc @ [(BC_LOAD_PROP_ADD, snd (last acc))])"
proof -
  let ?pre = "concat (map enc_insn (butlast acc))"
  have code: "c_code c = ?pre @ enc_insn (last acc)" by (rule at_boundary_last [OF at ne])
  have st: "nat (c_cur_inst_start c) = length ?pre" using at by (simp add: at_boundary_def)
  have "(c_code c)[nat (c_cur_inst_start c) := BC_LOAD_PROP_ADD] =
      ?pre @ enc_insn (BC_LOAD_PROP_ADD, snd (last acc))"
    unfolding code st by (simp add: enc_insn_def)
  then show ?thesis
    using at fu by (simp add: emit_insn_def emit_def at_boundary_def update_stack_def Let_def)
qed

lemma emit_insn_fuse:
  assumes at: "at_boundary c acc" and acc: "\<forall>j\<in>set acc. lp_len j" and ok: "insn_ok i"
  shows "at_boundary (emit_insn True i c) (fuse_step acc i) \<and> (\<forall>j\<in>set (fuse_step acc i). lp_len j)"
proof -
  have f: "fusible c \<longleftrightarrow> acc \<noteq> [] \<and> fst (last acc) = BC_LOAD_PROP"
    using acc by (intro fusible_boundary [OF at]) (auto simp: lp_len_def)
  show ?thesis
  proof (cases "i = (BC_ADD, []) \<and> acc \<noteq> [] \<and> fst (last acc) = BC_LOAD_PROP")
    case True
    then have "fuse_step acc i = butlast acc @ [(BC_LOAD_PROP_ADD, snd (last acc))]" by (simp add: fuse_step_def)
    moreover have "lp_len (BC_LOAD_PROP_ADD, snd (last acc))" by (simp add: lp_len_def)
    ultimately show ?thesis using True f at_boundary_fuse [OF at] acc by (auto dest: in_set_butlastD)
  next
    case False
    have "snd i = []" if "fst i = BC_ADD"
      using ok that by (cases "snd i") (auto simp: insn_ok_def total_len_opcodes enc_insn_def)
    then have "\<not> (fst i = BC_ADD \<and> fusible c)" using False f by (metis prod.collapse)
    from at_boundary_start_insn [OF at this ok] False insn_ok_lp_len [OF ok] acc show ?thesis
      by (auto simp: fuse_step_def)
  qed
qed

text \<open>(C7) Emitting any sequence of well-formed instructions produces the encoding of that sequence with every
  ADD that directly follows a LOAD_PROP merged into a LOAD_PROP_ADD, and nothing else changed: the peephole
  never rewrites an operand byte and the boundary tracker is exact.\<close>

theorem emit_encodes_fused:
  assumes "list_all insn_ok is"
  shows "c_ok (fold (emit_insn True) is bc_comp_init) \<and>
    c_code (fold (emit_insn True) is bc_comp_init) = concat (map enc_insn (fuse is))"
proof -
  have "at_boundary (fold (emit_insn True) is c) (foldl fuse_step acc is)"
    if "at_boundary c acc" "\<forall>j\<in>set acc. lp_len j" "list_all insn_ok is" for c acc "is"
    using that
  proof (induction "is" arbitrary: c acc)
    case (Cons i "is")
    have "insn_ok i" "list_all insn_ok is" using Cons.prems(3) by auto
    with Cons.IH emit_insn_fuse [OF Cons.prems(1,2), of i] show ?case by simp
  qed simp
  from this [OF at_boundary_init _ assms] show ?thesis by (simp add: at_boundary_def fuse_def)
qed

theorem emit_encodes_fused_witness:
  "c_code (fold (emit_insn True) [(BC_LOAD_PROP, [U16 1, U16 0]), (BC_ADD, []), (BC_ADD, [])] bc_comp_init) =
    [BC_LOAD_PROP_ADD, 1, 0, 0, 0, BC_ADD]"
proof -
  let ?is = "[(BC_LOAD_PROP, [U16 1, U16 0]), (BC_ADD, []), (BC_ADD, [])]"
  have "list_all insn_ok ?is"
    by (simp add: insn_ok_def total_len_opcodes enc_insn_def enc_operand_def put_u16_def operand_ok_def)
       (simp add: bc_opcode_defs)
  from emit_encodes_fused [OF this] show ?thesis
    by (simp add: fuse_def fuse_step_def enc_insn_def enc_operand_def put_u16_def)
qed

section \<open>Disassembling emitted code\<close>

text \<open>The listing line of an instruction at offset \<open>pc\<close>, by its operands.\<close>

definition insn_args :: "nat \<Rightarrow> operand list \<Rightarrow> dis_args" where
  "insn_args pc as =
     (case as of
        [U16 a] \<Rightarrow> Dis_u16 (nat a)
      | [I32 v] \<Rightarrow> Dis_i32 v (int (pc + 5) + v)
      | [U16 a, U16 b] \<Rightarrow> Dis_u16_u16 (nat a) (nat b)
      | [U16 a, U8 b] \<Rightarrow> Dis_u16_u8 (nat a) (unat b)
      | [U16 a, I32 v, I32 w] \<Rightarrow> Dis_jump_local (nat a) v w (int (pc + 11) + w)
      | _ \<Rightarrow> Dis_none)"

fun insn_lines :: "nat \<Rightarrow> insn list \<Rightarrow> dis_line list" where
  "insn_lines pc [] = []"
| "insn_lines pc (i # is) =
     (pc, fst (bc_info (fst i)), insn_args pc (snd i)) # insn_lines (pc + length (enc_insn i)) is"

text \<open>Operands of the kinds that the table announces for the opcode, in range.\<close>

definition insn_typed :: "insn \<Rightarrow> bool" where
  "insn_typed i \<longleftrightarrow>
     (case snd (bc_info (fst i)) of
        0 \<Rightarrow> snd i = []
      | Suc 0 \<Rightarrow> (\<exists>a. snd i = [U16 a] \<and> 0 \<le> a \<and> a \<le> 0xFFFF)
      | Suc (Suc 0) \<Rightarrow> (\<exists>v. snd i = [I32 v] \<and> - (2 ^ 31) \<le> v \<and> v < 2 ^ 31)
      | Suc (Suc (Suc 0)) \<Rightarrow> (\<exists>a b. snd i = [U16 a, U16 b] \<and> 0 \<le> a \<and> a \<le> 0xFFFF \<and> 0 \<le> b \<and> b \<le> 0xFFFF)
      | Suc (Suc (Suc (Suc 0))) \<Rightarrow> (\<exists>a b. snd i = [U16 a, U8 b] \<and> 0 \<le> a \<and> a \<le> 0xFFFF)
      | _ \<Rightarrow> (\<exists>a v w. snd i = [U16 a, I32 v, I32 w] \<and> 0 \<le> a \<and> a \<le> 0xFFFF
               \<and> - (2 ^ 31) \<le> v \<and> v < 2 ^ 31 \<and> - (2 ^ 31) \<le> w \<and> w < 2 ^ 31))"

lemma get_u16_put: "0 \<le> a \<Longrightarrow> a \<le> 0xFFFF \<Longrightarrow> n = length pre \<Longrightarrow> get_u16 (pre @ put_u16 a @ rest) n = nat a"
proof -
  assume a: "0 \<le> a" "a \<le> 0xFFFF" "n = length pre"
  have "(ucast (word_of_int a :: byte) OR push_bit 8 (ucast (word_of_int (drop_bit 8 a) :: byte)) :: u16) = word_of_int a"
    by (rule bit_word_eqI) (auto simp: bit_simps)
  moreover have "unat (word_of_int a :: u16) = nat a"
    using a by (simp add: unsigned_of_int take_bit_int_eq_self)
  ultimately show ?thesis using a(3) by (simp add: get_u16_def put_u16_def nth_append)
qed

lemma get_i32_put:
  assumes "- (2 ^ 31) \<le> v" "v < 2 ^ 31" "n = length pre"
  shows "get_i32 (pre @ put_u32 (word_of_int v) @ rest) n = v"
proof -
  have "sint (word_of_int v :: u32) = v"
    using assms by (simp add: sint_sbintrunc' signed_take_bit_int_eq_self)
  then show ?thesis using assms(3) by (simp add: get_i32_def)
qed

lemma bc_info_kinds: "snd (bc_info op) \<in> {0, 1, 2, 3, 4, 5}"
proof -
  have "\<forall>x\<in>set bc_info_table. snd x \<in> {0, 1, 2, 3, 4, 5}" by (simp add: bc_info_table_def)
  then show ?thesis by (simp add: bc_info_def)
qed

lemma insn_typed_cases:
  assumes "insn_typed i"
  obtains "snd (bc_info (fst i)) = 0" "snd i = []"
    | a where "snd (bc_info (fst i)) = 1" "snd i = [U16 a]" "0 \<le> a" "a \<le> 0xFFFF"
    | v where "snd (bc_info (fst i)) = 2" "snd i = [I32 v]" "- (2 ^ 31) \<le> v" "v < 2 ^ 31"
    | a b where "snd (bc_info (fst i)) = 3" "snd i = [U16 a, U16 b]" "0 \<le> a" "a \<le> 0xFFFF" "0 \<le> b" "b \<le> 0xFFFF"
    | a b where "snd (bc_info (fst i)) = 4" "snd i = [U16 a, U8 b]" "0 \<le> a" "a \<le> 0xFFFF"
    | a v w where "snd (bc_info (fst i)) = 5" "snd i = [U16 a, I32 v, I32 w]" "0 \<le> a" "a \<le> 0xFFFF"
        "- (2 ^ 31) \<le> v" "v < 2 ^ 31" "- (2 ^ 31) \<le> w" "w < 2 ^ 31"
  using bc_info_kinds [of "fst i"] assms
  by (auto simp: insn_typed_def eval_nat_numeral)

lemma length_put_u16 [simp]: "length (put_u16 v) = 2"
  by (simp add: put_u16_def)

lemma insn_typed_len: "insn_typed i \<Longrightarrow> length (enc_insn i) = bc_op_total_len (fst i)"
  by (erule insn_typed_cases) (simp_all add: enc_insn_def enc_operand_def bc_op_total_len_def)

lemma dis_args_insn:
  assumes "insn_typed i"
  shows "bc_dis_args (pre @ enc_insn i @ rest) (snd (bc_info (fst i))) (length pre + 1) = insn_args (length pre) (snd i)"
  using assms
proof (cases rule: insn_typed_cases)
  case 1
  then show ?thesis by (simp add: bc_dis_args_def insn_args_def)
next
  case (2 a)
  then show ?thesis using get_u16_put [of a "length pre + 1" "pre @ [fst i]" rest]
    by (simp add: bc_dis_args_def insn_args_def enc_insn_def enc_operand_def)
next
  case (3 v)
  then show ?thesis using get_i32_put [of v "length pre + 1" "pre @ [fst i]" rest]
    by (simp add: bc_dis_args_def insn_args_def enc_insn_def enc_operand_def)
next
  case (4 a b)
  then show ?thesis using get_u16_put [of a "length pre + 1" "pre @ [fst i]" "put_u16 b @ rest"]
      get_u16_put [of b "length pre + 1 + 2" "pre @ [fst i] @ put_u16 a" rest]
    by (simp add: bc_dis_args_def insn_args_def enc_insn_def enc_operand_def)
next
  case (5 a b)
  then show ?thesis using get_u16_put [of a "length pre + 1" "pre @ [fst i]" "[b] @ rest"]
    by (simp add: bc_dis_args_def insn_args_def enc_insn_def enc_operand_def nth_append)
next
  case (6 a v w)
  then show ?thesis
    using get_u16_put [of a "length pre + 1" "pre @ [fst i]" "put_u32 (word_of_int v) @ put_u32 (word_of_int w) @ rest"]
      get_i32_put [of v "length pre + 1 + 2" "pre @ [fst i] @ put_u16 a" "put_u32 (word_of_int w) @ rest"]
      get_i32_put [of w "length pre + 1 + 6" "pre @ [fst i] @ put_u16 a @ put_u32 (word_of_int v)" rest]
    by (simp add: bc_dis_args_def insn_args_def enc_insn_def enc_operand_def)
qed

lemma bc_disassemble_insns:
  "list_all insn_typed is \<Longrightarrow>
    bc_disassemble (pre @ concat (map enc_insn is)) (length pre) = Some (insn_lines (length pre) is)"
proof (induction "is" arbitrary: pre)
  case Nil
  then show ?case by (subst bc_disassemble.simps) simp
next
  case (Cons i "is")
  let ?rest = "concat (map enc_insn is)"
  let ?code = "pre @ enc_insn i @ ?rest"
  have ty: "insn_typed i" using Cons.prems by simp
  have op: "?code ! length pre = fst i" by (simp add: enc_insn_def)
  have len: "bc_op_total_len (fst i) = length (enc_insn i)" using insn_typed_len [OF ty] by simp
  have "bc_disassemble ((pre @ enc_insn i) @ ?rest) (length (pre @ enc_insn i)) =
      Some (insn_lines (length (pre @ enc_insn i)) is)"
    using Cons.prems by (intro Cons.IH) simp
  moreover have "length pre < length ?code" by (simp add: enc_insn_def)
  moreover have "\<not> length ?code < length pre + length (enc_insn i)" by simp
  ultimately have "bc_disassemble ?code (length pre) = Some (insn_lines (length pre) (i # is))"
    by (subst bc_disassemble.simps) (simp only: op len dis_args_insn [OF ty] if_True if_False option.map
        length_append insn_lines.simps append_assoc)
  then show ?case by simp
qed

text \<open>The disassembler lists instructions one by one, at their offsets, with the operands and jump targets they were
  built from, when their operands are of the kinds its table gives for their opcodes.\<close>

theorem bc_disassemble_encoded:
  assumes "list_all insn_typed is"
  shows "bc_disassemble (concat (map enc_insn is)) 0 = Some (insn_lines 0 is)"
  using bc_disassemble_insns [OF assms, of "[]"] by simp

theorem bc_disassemble_encoded_witness:
  "bc_disassemble (concat (map enc_insn [(BC_JUMP, [I32 (-5)]), (BC_ADD, [])])) 0 =
    Some [(0, ''JUMP'', Dis_i32 (-5) 0), (5, ''ADD'', Dis_none)]"
proof -
  have i: "bc_info BC_JUMP = (''JUMP'', 2)" "bc_info BC_ADD = (''ADD'', 0)"
    by (simp_all add: bc_info_def bc_info_table_def bc_opcode_defs)
  have "list_all insn_typed [(BC_JUMP, [I32 (-5)]), (BC_ADD, [])]"
    by (simp add: insn_typed_def i eval_nat_numeral)
  from bc_disassemble_encoded [OF this] show ?thesis
    by (simp add: insn_args_def i enc_insn_def enc_operand_def)
qed

text \<open>The table has no entry for the fused opcode: the listing of \<open>LOAD_PROP 1, 26; ADD\<close> as emitted shows
  an unknown one-byte instruction and then reads the operand bytes as opcodes.\<close>

theorem fused_code_is_misread:
  "bc_disassemble (c_code (fold (emit_insn True) [(BC_LOAD_PROP, [U16 1, U16 26]), (BC_ADD, [])] bc_comp_init)) 0 =
    Some [(0, ''?'', Dis_none), (1, ''NOP'', Dis_none), (2, ''STOP'', Dis_none), (3, ''ADD'', Dis_none),
          (4, ''STOP'', Dis_none)]"
  by code_simp

section \<open>Jumps\<close>

lemma patch_jump_to_nth:
  assumes "i < pos \<or> pos + 4 \<le> i" "i < length (c_code c)"
  shows "c_code (patch_jump_to c pos target) ! i = c_code c ! i"
  using assms by (auto simp: patch_jump_to_def nth_append min_def)

lemma patch_jump_to_sel [simp]:
  "length (c_code (patch_jump_to c pos target)) = length (c_code c)"
  "c_ok (patch_jump_to c pos target) = c_ok c" "c_loops (patch_jump_to c pos target) = c_loops c"
  by (auto simp: patch_jump_to_def)

text \<open>The target of the jump whose operand is at \<open>pos\<close>.\<close>

definition jump_target :: "bytes \<Rightarrow> nat \<Rightarrow> int" where
  "jump_target code pos = get_i32 code pos + int (pos + 4)"

definition near :: "nat \<Rightarrow> nat \<Rightarrow> bool" where
  "near pos target \<longleftrightarrow> - (2 ^ 31) \<le> int target - int (pos + 4) \<and> int target - int (pos + 4) < 2 ^ 31"

lemma jump_target_patched:
  assumes "c_ok c" "pos + 4 \<le> length (c_code c)" "near pos target"
  shows "jump_target (c_code (patch_jump_to c pos target)) pos = int target"
proof -
  have "get_i32 (take pos (c_code c) @ put_u32 (word_of_int (int target - int (pos + 4))) @ drop (pos + 4) (c_code c)) pos
      = int target - int (pos + 4)"
    using assms by (intro get_i32_put) (auto simp: near_def)
  then show ?thesis using assms by (simp add: jump_target_def patch_jump_to_def)
qed

lemma jump_target_cong:
  assumes "\<forall>i. pos \<le> i \<and> i < pos + 4 \<longrightarrow> code ! i = code' ! i"
  shows "jump_target code pos = jump_target code' pos"
  using assms by (simp add: jump_target_def get_i32_def get_u32_def)

lemma jump_target_other:
  assumes "pos + 4 \<le> q \<or> q + 4 \<le> pos" "q + 4 \<le> length (c_code c)"
  shows "jump_target (c_code (patch_jump_to c pos target)) q = jump_target (c_code c) q"
  using assms by (intro jump_target_cong) (auto intro!: patch_jump_to_nth)

text \<open>Jump operands that do not overlap and lie inside the code.\<close>

definition slots_ok :: "nat list \<Rightarrow> nat \<Rightarrow> bool" where
  "slots_ok ps n \<longleftrightarrow> (\<forall>p\<in>set ps. p + 4 \<le> n) \<and> (\<forall>p\<in>set ps. \<forall>q\<in>set ps. p \<noteq> q \<longrightarrow> p + 4 \<le> q \<or> q + 4 \<le> p)"

lemma patch_list_sel [simp]:
  "length (c_code (patch_list c ps target)) = length (c_code c)" "c_ok (patch_list c ps target) = c_ok c"
  "c_loops (patch_list c ps target) = c_loops c"
  by (induction ps arbitrary: c) (simp_all add: patch_list_def)

lemma patch_list_keeps:
  assumes "\<forall>p\<in>set ps. p + 4 \<le> q \<or> q + 4 \<le> p" "q + 4 \<le> length (c_code c)"
  shows "jump_target (c_code (patch_list c ps target)) q = jump_target (c_code c) q"
  using assms
proof (induction ps arbitrary: c)
  case (Cons p ps)
  then show ?case using jump_target_other [of p q c target] by (simp add: patch_list_def)
qed (simp add: patch_list_def)

lemma patch_list_resolves:
  assumes "slots_ok ps (length (c_code c))" "c_ok c" "q \<in> set ps" "\<forall>p\<in>set ps. near p target"
  shows "jump_target (c_code (patch_list c ps target)) q = int target"
  using assms
proof (induction ps arbitrary: c)
  case (Cons p ps)
  let ?c = "patch_jump_to c p target"
  have eq: "patch_list c (p # ps) target = patch_list ?c ps target" by (simp add: patch_list_def)
  show ?case
  proof (cases "q \<in> set ps")
    case True
    have "slots_ok ps (length (c_code ?c))" using Cons.prems(1) by (auto simp: slots_ok_def)
    with Cons.IH [of ?c] True Cons.prems show ?thesis by (simp add: eq)
  next
    case False
    then have q: "q = p" using Cons.prems(3) by simp
    have "\<forall>r\<in>set ps. r + 4 \<le> q \<or> q + 4 \<le> r" using Cons.prems(1) False q by (auto simp: slots_ok_def)
    moreover have "q + 4 \<le> length (c_code c)" using Cons.prems(1) q by (simp add: slots_ok_def)
    ultimately show ?thesis
      using patch_list_keeps [of ps q ?c target] jump_target_patched [of c p target] Cons.prems q by (simp add: eq)
  qed
qed simp

text \<open>Leaving a loop resolves every pending \<open>break\<close> to the break target and, for a loop (not a switch), every
  pending \<open>continue\<close> to the continue target, and removes the loop from the stack.\<close>

theorem loop_pop_resolves:
  assumes "c_loops c = lp # rest" "c_ok c" "slots_ok (l_brk lp @ l_cont lp) (length (c_code c))"
    "set (l_brk lp) \<inter> set (l_cont lp) = {}"
    "\<forall>p\<in>set (l_brk lp). near p brk" "\<forall>p\<in>set (l_cont lp). near p cont"
  shows "(\<forall>p\<in>set (l_brk lp). jump_target (c_code (loop_pop c brk cont)) p = int brk)
    \<and> (\<not> l_is_switch lp \<longrightarrow> (\<forall>p\<in>set (l_cont lp). jump_target (c_code (loop_pop c brk cont)) p = int cont))
    \<and> c_loops (loop_pop c brk cont) = rest"
proof -
  let ?c1 = "patch_list c (l_brk lp) brk"
  have sb: "slots_ok (l_brk lp) (length (c_code c))" and sc: "slots_ok (l_cont lp) (length (c_code ?c1))"
    using assms(3) by (auto simp: slots_ok_def)
  have b: "jump_target (c_code ?c1) p = int brk" if "p \<in> set (l_brk lp)" for p
    using patch_list_resolves [OF sb assms(2) that assms(5)] .
  have b': "jump_target (c_code (patch_list ?c1 (l_cont lp) cont)) p = int brk" if p: "p \<in> set (l_brk lp)" for p
  proof -
    have "q + 4 \<le> p \<or> p + 4 \<le> q" if "q \<in> set (l_cont lp)" for q
    proof -
      have "p \<noteq> q" using assms(4) p that by auto
      then show ?thesis using assms(3) p that unfolding slots_ok_def by auto
    qed
    then have "\<forall>q\<in>set (l_cont lp). q + 4 \<le> p \<or> p + 4 \<le> q" by blast
    moreover have "p + 4 \<le> length (c_code ?c1)" using sb p by (simp add: slots_ok_def)
    ultimately show ?thesis using patch_list_keeps b [OF p] by simp
  qed
  have k: "jump_target (c_code (patch_list ?c1 (l_cont lp) cont)) p = int cont" if "p \<in> set (l_cont lp)" for p
    using patch_list_resolves [OF sc _ that assms(6)] assms(2) by simp
  show ?thesis using assms(1) b b' k by (simp add: loop_pop_def Let_def)
qed

theorem loop_pop_resolves_witness:
  "jump_target (c_code (loop_pop (bc_comp_init\<lparr>c_code := replicate 12 0,
     c_loops := [\<lparr>l_label = None, l_is_switch = False, l_brk = [1], l_cont = [6]\<rparr>]\<rparr>) 12 0)) 6 = 0"
proof -
  let ?c = "bc_comp_init\<lparr>c_code := replicate 12 0,
     c_loops := [\<lparr>l_label = None, l_is_switch = False, l_brk = [1], l_cont = [6]\<rparr>]\<rparr>"
  have "(\<not> False \<longrightarrow> (\<forall>p\<in>set [6]. jump_target (c_code (loop_pop ?c 12 0)) p = int 0))"
    using loop_pop_resolves [of ?c "\<lparr>l_label = None, l_is_switch = False, l_brk = [1], l_cont = [6]\<rparr>" "[]" 12 0]
    by (simp add: bc_comp_init_def slots_ok_def near_def)
  then show ?thesis by simp
qed

text \<open>The peephole ignores jump targets: in \<open>a + (b ? c : o.x)\<close> the ADD is merged into the property load of
  the alternative, while the jump that ends the consequent already points past it; the consequent
  reaches the end of the code without an ADD.\<close>

theorem fused_add_skipped_by_jump:
  "(let code = c_code (cexpr_binary BC_ADD (emit_insn True (17, [U16 1]))
        (cexpr_conditional (emit_insn True (17, [U16 2])) (emit_insn True (17, [U16 3]))
           (emit_insn True (BC_LOAD_PROP, [U16 4, U16 0]))) bc_comp_init)
    in code = [17, 1, 0, 17, 2, 0, BC_JUMP_IF_FALSE, 8, 0, 0, 0, 17, 3, 0, BC_JUMP, 5, 0, 0, 0,
               BC_LOAD_PROP_ADD, 4, 0, 0, 0]
       \<and> jump_target code 15 = int (length code))"
  by code_simp

section \<open>Pool\<close>

lemma pool_index_Some:
  "pool_index P ks i = Some j \<Longrightarrow> i \<le> j \<and> j < i + length ks \<and> P (c_val (ks ! (j - i)))
     \<and> (\<forall>m<j - i. \<not> P (c_val (ks ! m)))"
proof (induction P ks i rule: pool_index.induct)
  case (2 P k ks i)
  show ?case
  proof (cases "P (c_val k)")
    case True
    with 2(2) show ?thesis by simp
  next
    case False
    with 2 have IH: "i + 1 \<le> j" "j < i + 1 + length ks" "P (c_val (ks ! (j - (i + 1))))"
        "\<forall>m<j - (i + 1). \<not> P (c_val (ks ! m))" by auto
    have "j - i = Suc (j - (i + 1))" using IH(1) by simp
    with IH False show ?thesis by (auto simp: nth_Cons' less_Suc_eq_0_disj)
  qed
qed simp

lemma pool_index_None: "pool_index P ks i = None \<longleftrightarrow> (\<forall>k\<in>set ks. \<not> P (c_val k))"
  by (induction P ks i rule: pool_index.induct) auto

lemma pool_index_append:
  "pool_index P ks i = None \<Longrightarrow> pool_index P (ks @ [k]) i = (if P (c_val k) then Some (i + length ks) else None)"
  by (induction P ks i rule: pool_index.induct) (auto split: if_splits)

lemma pool_reserve_True [simp]:
  "snd (pool_reserve True c)" "c_pool (fst (pool_reserve True c)) = c_pool c"
  "c_ok (fst (pool_reserve True c)) = c_ok c"
  by (simp_all add: pool_reserve_def)

text \<open>Interning a string: the returned index names that string in the new pool, older constants keep their
  indices, a string that is present is not added again (so the second call returns the same index and
  changes nothing but the capacity), and compilation is abandoned exactly when the index does not fit 16 bits.\<close>

theorem pool_add_str_interns:
  assumes "c_ok c" "length (c_pool c) \<le> 0x10000" "pool_add_str True c s = (c', i)"
  shows "i < length (c_pool c') \<and> c_val (c_pool c' ! i) = Pool_string s
    \<and> take (length (c_pool c)) (c_pool c') = c_pool c \<and> (c_ok c' \<longleftrightarrow> i \<le> 0xFFFF)
    \<and> (c_ok c' \<longrightarrow> snd (pool_add_str True c' s) = i \<and> c_pool (fst (pool_add_str True c' s)) = c_pool c')"
proof -
  let ?P = "\<lambda>v. v = Pool_string s"
  obtain c1 where r: "pool_reserve True c = (c1, True)" and c1: "c_pool c1 = c_pool c" "c_ok c1"
    using pool_reserve_True [of c] assms(1) by (cases "pool_reserve True c") auto
  have again: "snd (pool_add_str True c' s) = j \<and> c_pool (fst (pool_add_str True c' s)) = c_pool c'"
    if "c_ok c'" "pool_index ?P (c_pool c') 0 = Some j" for j
    using that pool_reserve_True [of c'] by (cases "pool_reserve True c'") (auto simp: pool_add_str_def)
  show ?thesis
  proof (cases "pool_index ?P (c_pool c) 0")
    case (Some j)
    then have "c' = c1" "i = j" using assms r c1 by (auto simp: pool_add_str_def)
    then show ?thesis using pool_index_Some [OF Some] c1 again [of j] Some assms(2) by auto
  next
    case None
    let ?k = "\<lparr>c_val = Pool_string s, c_str_hash = str_hash31 s\<rparr>"
    have "pool_push False c1 ?k = (c', i)" using assms r c1 None by (simp add: pool_add_str_def)
    then have c': "c_pool c' = c_pool c @ [?k]" "i = length (c_pool c)" "c_ok c' \<longleftrightarrow> i \<le> 0xFFFF"
      using c1 by (auto simp: pool_push_def Let_def split: if_splits)
    have "pool_index ?P (c_pool c') 0 = Some i" unfolding c' using pool_index_append [OF None, of ?k] by simp
    then show ?thesis using c' again [of i] by auto
  qed
qed

theorem pool_add_str_interns_witness:
  "(case pool_add_str True bc_comp_init [0x61] of (c', i) \<Rightarrow>
      i = 0 \<and> c_val (c_pool c' ! i) = Pool_string [0x61] \<and> snd (pool_add_str True c' [0x61]) = 0)"
proof -
  obtain c' i where r: "pool_add_str True bc_comp_init [0x61] = (c', i)" by fastforce
  then have "i = 0" "c_ok c'"
    by (auto simp: pool_add_str_def bc_comp_init_def pool_reserve_def pool_push_def Let_def)
  with pool_add_str_interns [OF _ _ r] r show ?thesis by (simp add: bc_comp_init_def)
qed

text \<open>The hash that \<open>pool_add_str\<close> precomputes sends each function name to the case of the executor's \<open>Math\<close>
  switch that calls that function, and no two cases collide.\<close>

theorem math_dispatch_hashes:
  "list_all (\<lambda>(h, name). str_hash31 (map of_char name) = h) math_dispatch \<and> distinct (map fst math_dispatch)"
  by code_simp

lemma find_upt_Some:
  "find P [0..<n] = Some i \<longleftrightarrow> i < n \<and> P i \<and> (\<forall>j<i. \<not> P j)"
  by (auto simp: find_Some_iff)

text \<open>Local slots: registering a name makes it resolve to a slot that holds it (unless the 256 slots are used
  up), a name that already has a slot keeps it, and no two slots hold the same name.\<close>

theorem register_local_name_slot:
  assumes "distinct (c_locals c)" "length (c_locals c) < 256" "c_local_scope_depth c = 0" "\<not> c_disable_local_slots c"
  shows "distinct (c_locals (register_local_name c name)) \<and>
    (\<exists>i. find_local_slot (register_local_name c name) name = Some i \<and> c_locals (register_local_name c name) ! i = name) \<and>
    (\<forall>other i. find_local_slot c other = Some i \<longrightarrow> find_local_slot (register_local_name c name) other = Some i)"
proof (cases "name \<in> set (c_locals c)")
  case True
  then obtain i where "i < length (c_locals c)" "c_locals c ! i = name" by (auto simp: in_set_conv_nth)
  then have "find (\<lambda>i. c_locals c ! i = name) [0..<length (c_locals c)] = Some i"
    using assms(1) by (auto simp: find_upt_Some nth_eq_iff_index_eq)
  with True assms show ?thesis by (auto simp: register_local_name_def find_local_slot_def find_upt_Some)
next
  case False
  let ?ns = "c_locals c @ [name]"
  have reg: "c_locals (register_local_name c name) = ?ns"
    "c_local_scope_depth (register_local_name c name) = 0" "\<not> c_disable_local_slots (register_local_name c name)"
    using False assms by (simp_all add: register_local_name_def)
  have old: "find (\<lambda>i. ?ns ! i = other) [0..<length ?ns] = Some i"
    if "find (\<lambda>i. c_locals c ! i = other) [0..<length (c_locals c)] = Some i" for other i
    using that unfolding find_upt_Some by (auto simp: nth_append)
  have "find (\<lambda>i. ?ns ! i = name) [0..<length ?ns] = Some (length (c_locals c))"
    unfolding find_upt_Some using False by (auto simp: nth_append)
  with old reg False assms show ?thesis by (auto simp: find_local_slot_def simp del: upt_Suc)
qed

theorem register_local_name_slot_witness:
  "find_local_slot (register_local_name bc_comp_init ''x'') ''x'' \<noteq> None"
  using register_local_name_slot [of bc_comp_init "''x''"] by (auto simp: bc_comp_init_def)

end
