(* ===== verification/LR_GC.thy ===== *)
theory LR_GC
  imports LR_Prelude
begin

unbundle bit_operations_syntax

text \<open>
  The garbage-collection controller, \<^verbatim>\<open>src/lr_gc.c\<close>: configuration, the bump-pointer nursery, minor,
  major and full collections, the incremental phase machine, idle work and the allocation hooks.

  The collector of the engine heap (\<open>lr_gc_run\<close>) is the argument \<open>run\<close>, a function on the heap \<open>heap\<close>;
  \<open>has_rt\<close> says whether the context has a runtime. The clock is the argument \<open>clk\<close>: reading number \<open>n\<close>
  of \<open>lr_gc_now_ns\<close> returns \<open>clk n\<close>. Byte counts of type \<open>size_t\<close> are 64-bit words; the 64-bit event
  counters and times are integers. The pointers of a nursery block are 64-bit addresses and wrap as the
  code's do; the result of \<open>malloc\<close> is an argument. The list of blocks starts with \<open>nursery_head\<close>. The mutex only guards copies of whole records.
\<close>

section \<open>Data\<close>

record gc_config =
  generational_enabled :: bool
  nursery_size :: u64
  promotion_age :: int
  minor_gc_interval_ms :: int
  incremental_enabled :: bool
  pause_target_ns :: int
  mark_step_size :: int
  sweep_step_size :: int
  gc_time_ratio :: u64 \<comment> \<open>the bits of a double\<close>
  major_gc_interval_ms :: int
  allocation_threshold :: u64
  idle_gc_enabled :: bool
  idle_gc_step_ms :: int
  stress_mode :: bool

record gc_stats =
  minor_gc_count :: int
  major_gc_count :: int
  full_gc_count :: int
  total_gc_time_ns :: int
  last_gc_time_ns :: int
  max_gc_time_ns :: int
  total_mark_time_ns :: int
  total_sweep_time_ns :: int
  incremental_steps :: int
  idle_gc_steps :: int
  nursery_bytes_allocated :: u64
  nursery_bytes_freed :: u64
  promoted_bytes :: u64
  swept_bytes :: u64
  nursery_current_size :: u64
  nursery_peak_size :: u64
  pause_histogram :: "int list"

record nursery_block =
  b_base :: u64
  b_top :: u64
  b_end :: u64

definition b_used :: "nursery_block \<Rightarrow> u64" where
  "b_used b = b_top b - b_base b"

definition b_size :: "nursery_block \<Rightarrow> u64" where
  "b_size b = b_end b - b_base b"

datatype gc_phase = Phase_idle | Phase_mark_roots | Phase_mark | Phase_remark | Phase_sweep | Phase_complete

record 'h gc_context =
  config :: gc_config
  stats :: gc_stats
  nursery_blocks :: "nursery_block list"
  nursery_current :: bool
  nursery_age :: int
  phase :: gc_phase
  phase_in_progress :: bool
  mark_worklist :: "nat list"
  mark_entries :: int
  mark_entries_done :: int
  bytes_since_last_gc :: u64
  last_gc_check_time :: int
  last_major_gc_time :: int
  has_rt :: bool
  heap :: 'h
  clock_reads :: nat

text \<open>The current block is always the head of the list: \<open>nursery_current\<close> says whether there is one.\<close>

definition lr_gc_config_default :: gc_config where
  "lr_gc_config_default = \<lparr>generational_enabled = True, nursery_size = 4 * 1024 * 1024, promotion_age = 3,
     minor_gc_interval_ms = 10, incremental_enabled = True, pause_target_ns = 5000000, mark_step_size = 1024,
     sweep_step_size = 2048, gc_time_ratio = 0x3FA999999999999A, major_gc_interval_ms = 5000, allocation_threshold = 256 * 1024,
     idle_gc_enabled = True, idle_gc_step_ms = 2, stress_mode = False\<rparr>"

definition gc_stats_zero :: gc_stats where
  "gc_stats_zero = \<lparr>minor_gc_count = 0, major_gc_count = 0, full_gc_count = 0, total_gc_time_ns = 0,
     last_gc_time_ns = 0, max_gc_time_ns = 0, total_mark_time_ns = 0, total_sweep_time_ns = 0,
     incremental_steps = 0, idle_gc_steps = 0, nursery_bytes_allocated = 0, nursery_bytes_freed = 0,
     promoted_bytes = 0, swept_bytes = 0, nursery_current_size = 0, nursery_peak_size = 0,
     pause_histogram = replicate 10 0\<rparr>"

definition lr_gc_init :: "bool \<Rightarrow> 'h \<Rightarrow> 'h gc_context" where
  "lr_gc_init rt h = \<lparr>config = lr_gc_config_default, stats = gc_stats_zero, nursery_blocks = [],
     nursery_current = False, nursery_age = 0, phase = Phase_idle, phase_in_progress = False,
     mark_worklist = [], mark_entries = 0, mark_entries_done = 0, bytes_since_last_gc = 0,
     last_gc_check_time = 0, last_major_gc_time = 0, has_rt = rt, heap = h, clock_reads = 0\<rparr>"

definition lr_gc_configure :: "'h gc_context \<Rightarrow> gc_config option \<Rightarrow> 'h gc_context" where
  "lr_gc_configure gc cfg = (case cfg of None \<Rightarrow> gc | Some k \<Rightarrow> gc\<lparr>config := k\<rparr>)"

definition lr_gc_ctx_reset_stats :: "'h gc_context \<Rightarrow> 'h gc_context" where
  "lr_gc_ctx_reset_stats gc = gc\<lparr>stats := gc_stats_zero\<rparr>"

definition lr_gc_now_ns :: "(nat \<Rightarrow> int) \<Rightarrow> 'h gc_context \<Rightarrow> int \<times> 'h gc_context" where
  "lr_gc_now_ns clk gc = (clk (clock_reads gc), gc\<lparr>clock_reads := clock_reads gc + 1\<rparr>)"

section \<open>Nursery\<close>

definition align8 :: "u64 \<Rightarrow> u64" where
  "align8 n = (n + 7) AND NOT 7"

definition nursery_account :: "u64 \<Rightarrow> gc_stats \<Rightarrow> gc_stats" where
  "nursery_account n s =
     (let cur = nursery_current_size s + n in
      s\<lparr>nursery_bytes_allocated := nursery_bytes_allocated s + n, nursery_current_size := cur,
        nursery_peak_size := (if cur > nursery_peak_size s then cur else nursery_peak_size s)\<rparr>)"

text \<open>
  The size of a new block, and the allocation. \<open>addr\<close> is the address of the new block, \<open>None\<close> when one of the two
  allocations for it fails. The test \<open>top + size <= end\<close> is on 64-bit addresses: the sum can wrap.
\<close>

definition block_request :: "gc_config \<Rightarrow> u64 \<Rightarrow> u64" where
  "block_request k sz = (if sz > nursery_size k then sz else nursery_size k)"

definition lr_gc_nursery_alloc :: "u64 option \<Rightarrow> 'h gc_context \<Rightarrow> u64 \<Rightarrow> u64 option \<times> 'h gc_context" where
  "lr_gc_nursery_alloc addr gc n =
     (if \<not> generational_enabled (config gc) then (None, gc)
      else
        let sz = align8 n;
            fresh_block =
              (case addr of
                 None \<Rightarrow> (None, gc)
               | Some p \<Rightarrow>
                   (Some p, gc\<lparr>nursery_blocks :=
                                 \<lparr>b_base = p, b_top = p + sz, b_end = p + block_request (config gc) sz\<rparr> # nursery_blocks gc,
                               nursery_current := True, stats := nursery_account sz (stats gc)\<rparr>))
        in if nursery_current gc then
             (case nursery_blocks gc of
                [] \<Rightarrow> fresh_block
              | b # bs \<Rightarrow>
                  if b_top b + sz \<le> b_end b
                  then (Some (b_top b),
                        gc\<lparr>nursery_blocks := b\<lparr>b_top := b_top b + sz\<rparr> # bs,
                           stats := nursery_account sz (stats gc)\<rparr>)
                  else fresh_block)
           else fresh_block)"

definition lr_gc_track_allocation :: "'h gc_context \<Rightarrow> u64 \<Rightarrow> 'h gc_context" where
  "lr_gc_track_allocation gc n = gc\<lparr>bytes_since_last_gc := bytes_since_last_gc gc + n\<rparr>"

definition lr_gc_after_alloc :: "'h gc_context \<Rightarrow> u64 \<Rightarrow> 'h gc_context" where
  "lr_gc_after_alloc gc n =
     gc\<lparr>bytes_since_last_gc := bytes_since_last_gc gc + n, stats := nursery_account n (stats gc)\<rparr>"

text \<open>The loop that resets every bump pointer and adds what was used to \<open>nursery_bytes_freed\<close>.\<close>

definition clear_nursery :: "'h gc_context \<Rightarrow> 'h gc_context" where
  "clear_nursery gc =
     gc\<lparr>nursery_blocks := map (\<lambda>b. b\<lparr>b_top := b_base b\<rparr>) (nursery_blocks gc),
        stats := (stats gc)\<lparr>nursery_bytes_freed :=
          fold (\<lambda>b n. n + b_used b) (nursery_blocks gc) (nursery_bytes_freed (stats gc))\<rparr>\<rparr>"

section \<open>Pauses\<close>

definition pause_bucket :: "int \<Rightarrow> nat" where
  "pause_bucket pause_ms =
     (if pause_ms < 1 then 0 else if pause_ms < 2 then 1 else if pause_ms < 5 then 2
      else if pause_ms < 10 then 3 else if pause_ms < 20 then 4 else if pause_ms < 50 then 5
      else if pause_ms < 100 then 6 else if pause_ms < 200 then 7 else if pause_ms < 500 then 8 else 9)"

text \<open>C division truncates towards zero.\<close>

definition cdiv :: "int \<Rightarrow> int \<Rightarrow> int" where
  "cdiv a b = (if a < 0 then - ((- a) div b) else a div b)"

definition lr_gc_record_pause :: "'h gc_context \<Rightarrow> int \<Rightarrow> 'h gc_context" where
  "lr_gc_record_pause gc pause_ns =
     (let s = stats gc; b = pause_bucket (cdiv pause_ns 1000000) in
      gc\<lparr>stats := s\<lparr>last_gc_time_ns := pause_ns, total_gc_time_ns := total_gc_time_ns s + pause_ns,
           max_gc_time_ns := (if pause_ns > max_gc_time_ns s then pause_ns else max_gc_time_ns s),
           pause_histogram := (pause_histogram s)[b := pause_histogram s ! b + 1]\<rparr>\<rparr>)"

section \<open>Collections\<close>

definition run_engine :: "('h \<Rightarrow> 'h) \<Rightarrow> 'h gc_context \<Rightarrow> 'h gc_context" where
  "run_engine run gc = (if has_rt gc then gc\<lparr>heap := run (heap gc)\<rparr> else gc)"

definition record_elapsed :: "(nat \<Rightarrow> int) \<Rightarrow> int \<Rightarrow> 'h gc_context \<Rightarrow> 'h gc_context" where
  "record_elapsed clk start gc =
     (case lr_gc_now_ns clk gc of (t, gc') \<Rightarrow> lr_gc_record_pause gc' (t - start))"

definition lr_gc_minor :: "('h \<Rightarrow> 'h) \<Rightarrow> (nat \<Rightarrow> int) \<Rightarrow> 'h gc_context \<Rightarrow> 'h gc_context" where
  "lr_gc_minor run clk gc =
     (let (start, gc1) = lr_gc_now_ns clk gc;
          gc2 = gc1\<lparr>stats := (stats gc1)\<lparr>minor_gc_count := minor_gc_count (stats gc1) + 1\<rparr>\<rparr>;
          gc3 = clear_nursery (run_engine run gc2);
          gc4 = gc3\<lparr>stats := (stats gc3)\<lparr>nursery_current_size := 0\<rparr>, nursery_age := nursery_age gc3 + 1\<rparr>;
          gc5 = (if nursery_age gc4 \<ge> promotion_age (config gc4)
                 then gc4\<lparr>stats := (stats gc4)\<lparr>promoted_bytes := promoted_bytes (stats gc4)
                             + (nursery_bytes_allocated (stats gc4) - nursery_bytes_freed (stats gc4))\<rparr>,
                          nursery_age := 0\<rparr>
                 else gc4);
          gc6 = gc5\<lparr>bytes_since_last_gc := 0\<rparr>
      in record_elapsed clk start gc6)"

definition lr_gc_full :: "('h \<Rightarrow> 'h) \<Rightarrow> (nat \<Rightarrow> int) \<Rightarrow> 'h gc_context \<Rightarrow> 'h gc_context" where
  "lr_gc_full run clk gc =
     (let (start, gc1) = lr_gc_now_ns clk gc;
          gc2 = gc1\<lparr>stats := (stats gc1)\<lparr>full_gc_count := full_gc_count (stats gc1) + 1\<rparr>\<rparr>;
          gc3 = clear_nursery (run_engine run gc2);
          gc4 = gc3\<lparr>stats := (stats gc3)\<lparr>nursery_current_size := 0\<rparr>, nursery_age := 0, bytes_since_last_gc := 0\<rparr>
      in record_elapsed clk start gc4)"

section \<open>Incremental collection\<close>

definition lr_gc_incremental_start :: "'h gc_context \<Rightarrow> 'h gc_context" where
  "lr_gc_incremental_start gc =
     gc\<lparr>phase := Phase_mark_roots, phase_in_progress := True, mark_entries := 0, mark_entries_done := 0,
        mark_worklist := []\<rparr>"

definition add_mark_time :: "(nat \<Rightarrow> int) \<Rightarrow> int \<Rightarrow> 'h gc_context \<Rightarrow> 'h gc_context" where
  "add_mark_time clk step_start gc =
     (case lr_gc_now_ns clk gc of (t, gc') \<Rightarrow>
        gc'\<lparr>stats := (stats gc')\<lparr>total_mark_time_ns := total_mark_time_ns (stats gc') + (t - step_start)\<rparr>\<rparr>)"

definition add_sweep_time :: "(nat \<Rightarrow> int) \<Rightarrow> int \<Rightarrow> 'h gc_context \<Rightarrow> 'h gc_context" where
  "add_sweep_time clk step_start gc =
     (case lr_gc_now_ns clk gc of (t, gc') \<Rightarrow>
        gc'\<lparr>stats := (stats gc')\<lparr>total_sweep_time_ns := total_sweep_time_ns (stats gc') + (t - step_start)\<rparr>\<rparr>)"

text \<open>The marking loop walks at most \<open>mark_step_size\<close> entries from the head of the worklist.\<close>

definition mark_step :: "'h gc_context \<Rightarrow> 'h gc_context" where
  "mark_step gc =
     (let n = min (length (mark_worklist gc)) (nat (mark_step_size (config gc)));
          gc1 = gc\<lparr>mark_entries_done := mark_entries_done gc + int n\<rparr>
      in if mark_entries_done gc1 \<ge> mark_entries gc1 then gc1\<lparr>phase := Phase_sweep\<rparr> else gc1)"

text \<open>The sweep loop visits at most \<open>sweep_step_size\<close> blocks, each time from the head of the list.\<close>

definition sweep_step :: "'h gc_context \<Rightarrow> 'h gc_context" where
  "sweep_step gc =
     (let n = nat (sweep_step_size (config gc));
          gc1 = gc\<lparr>stats := (stats gc)\<lparr>swept_bytes :=
             fold (\<lambda>b s. s + b_used b) (take n (nursery_blocks gc)) (swept_bytes (stats gc))\<rparr>\<rparr>
      in if length (nursery_blocks gc) \<le> n then gc1\<lparr>phase := Phase_complete\<rparr> else gc1)"

definition lr_gc_incremental_step ::
  "('h \<Rightarrow> 'h) \<Rightarrow> (nat \<Rightarrow> int) \<Rightarrow> 'h gc_context \<Rightarrow> bool \<times> 'h gc_context" where
  "lr_gc_incremental_step run clk gc =
     (if \<not> phase_in_progress gc then (False, gc)
      else
        let (t0, gc0) = lr_gc_now_ns clk gc in
        case phase gc0 of
          Phase_idle \<Rightarrow> (False, gc0\<lparr>phase_in_progress := False\<rparr>)
        | Phase_mark_roots \<Rightarrow>
            let gc1 = run_engine run gc0
            in (True, add_mark_time clk t0 (gc1\<lparr>mark_entries_done := mark_entries gc1, phase := Phase_mark\<rparr>))
        | Phase_mark \<Rightarrow> (True, add_mark_time clk t0 (mark_step gc0))
        | Phase_remark \<Rightarrow> (True, gc0\<lparr>phase := Phase_sweep\<rparr>)
        | Phase_sweep \<Rightarrow> (True, add_sweep_time clk t0 (sweep_step gc0))
        | Phase_complete \<Rightarrow> (False, gc0\<lparr>phase := Phase_idle, phase_in_progress := False\<rparr>))"

definition lr_gc_phase_name :: "'h gc_context \<Rightarrow> string" where
  "lr_gc_phase_name gc =
     (case phase gc of Phase_idle \<Rightarrow> ''idle'' | Phase_mark_roots \<Rightarrow> ''mark-roots'' | Phase_mark \<Rightarrow> ''mark''
      | Phase_remark \<Rightarrow> ''remark'' | Phase_sweep \<Rightarrow> ''sweep'' | Phase_complete \<Rightarrow> ''complete'')"

section \<open>Major collections, idle work, allocation hooks\<close>

text \<open>
  The step loop of \<open>lr_gc_major\<close>: \<open>(True, _)\<close> when the cycle completed, \<open>(False, _)\<close> when the pause target
  was reached and the function returned from inside the loop. \<open>None\<close>: \<open>fuel\<close> steps were not enough.
\<close>

fun major_loop ::
  "nat \<Rightarrow> ('h \<Rightarrow> 'h) \<Rightarrow> (nat \<Rightarrow> int) \<Rightarrow> int \<Rightarrow> int \<Rightarrow> int \<Rightarrow> 'h gc_context \<Rightarrow> (bool \<times> 'h gc_context) option" where
  "major_loop 0 run clk start step_start steps gc = None"
| "major_loop (Suc fuel) run clk start step_start steps gc =
     (case lr_gc_incremental_step run clk gc of
        (False, gc1) \<Rightarrow>
          Some (True, gc1\<lparr>stats := (stats gc1)\<lparr>incremental_steps := incremental_steps (stats gc1) + steps\<rparr>\<rparr>)
      | (True, gc1) \<Rightarrow>
          (case lr_gc_now_ns clk gc1 of (t, gc2) \<Rightarrow>
             if t - step_start \<ge> pause_target_ns (config gc2) then
               let gc3 = gc2\<lparr>stats := (stats gc2)\<lparr>incremental_steps := incremental_steps (stats gc2) + (steps + 1),
                               total_mark_time_ns := total_mark_time_ns (stats gc2) + (t - step_start)\<rparr>\<rparr>
               in Some (False, record_elapsed clk start gc3)
             else major_loop fuel run clk start step_start (steps + 1) gc2))"

definition lr_gc_major :: "nat \<Rightarrow> ('h \<Rightarrow> 'h) \<Rightarrow> (nat \<Rightarrow> int) \<Rightarrow> 'h gc_context \<Rightarrow> 'h gc_context option" where
  "lr_gc_major fuel run clk gc =
     (let (start, gc1) = lr_gc_now_ns clk gc;
          gc2 = lr_gc_minor run clk (gc1\<lparr>stats := (stats gc1)\<lparr>major_gc_count := major_gc_count (stats gc1) + 1\<rparr>\<rparr>);
          finish = (\<lambda>g. record_elapsed clk start (g\<lparr>bytes_since_last_gc := 0\<rparr>))
      in if incremental_enabled (config gc2) then
           (case lr_gc_now_ns clk (lr_gc_incremental_start gc2) of (step_start, gc3) \<Rightarrow>
              (case major_loop fuel run clk start step_start 0 gc3 of
                 None \<Rightarrow> None
               | Some (True, gc4) \<Rightarrow> Some (finish gc4)
               | Some (False, gc4) \<Rightarrow> Some gc4))
         else Some (finish (run_engine run gc2)))"

fun idle_loop :: "nat \<Rightarrow> ('h \<Rightarrow> 'h) \<Rightarrow> (nat \<Rightarrow> int) \<Rightarrow> int \<Rightarrow> 'h gc_context \<Rightarrow> 'h gc_context option" where
  "idle_loop 0 run clk deadline gc = None"
| "idle_loop (Suc fuel) run clk deadline gc =
     (case lr_gc_incremental_step run clk gc of
        (False, gc1) \<Rightarrow> Some gc1
      | (True, gc1) \<Rightarrow>
          (case lr_gc_now_ns clk (gc1\<lparr>stats := (stats gc1)\<lparr>idle_gc_steps := idle_gc_steps (stats gc1) + 1\<rparr>\<rparr>) of
             (now, gc2) \<Rightarrow> if now \<ge> deadline then Some gc2 else idle_loop fuel run clk deadline gc2))"

definition lr_gc_idle_work :: "nat \<Rightarrow> ('h \<Rightarrow> 'h) \<Rightarrow> (nat \<Rightarrow> int) \<Rightarrow> 'h gc_context \<Rightarrow> 'h gc_context option" where
  "lr_gc_idle_work fuel run clk gc =
     (if \<not> idle_gc_enabled (config gc) then Some gc
      else if phase_in_progress gc then
        (case lr_gc_now_ns clk gc of (start, gc1) \<Rightarrow>
           idle_loop fuel run clk (start + idle_gc_step_ms (config gc1) * 1000000) gc1)
      else
        (case lr_gc_now_ns clk gc of (now, gc1) \<Rightarrow>
           if now - last_gc_check_time gc1 \<ge> major_gc_interval_ms (config gc1) * 1000000 \<and> bytes_since_last_gc gc1 > 0
           then map_option (\<lambda>g. g\<lparr>last_gc_check_time := now\<rparr>) (lr_gc_major fuel run clk gc1)
           else Some gc1))"

definition lr_gc_before_alloc :: "nat \<Rightarrow> ('h \<Rightarrow> 'h) \<Rightarrow> (nat \<Rightarrow> int) \<Rightarrow> 'h gc_context \<Rightarrow> 'h gc_context option" where
  "lr_gc_before_alloc fuel run clk gc =
     (if stress_mode (config gc) then Some (lr_gc_full run clk gc)
      else
        let gc1 = (if phase_in_progress gc then snd (lr_gc_incremental_step run clk gc) else gc)
        in if bytes_since_last_gc gc1 \<ge> allocation_threshold (config gc1) then
             (case lr_gc_now_ns clk gc1 of (now, gc2) \<Rightarrow>
                if now - last_gc_check_time gc2 \<ge> minor_gc_interval_ms (config gc2) * 1000000 then
                  let gc3 = (lr_gc_minor run clk gc2)\<lparr>last_gc_check_time := now\<rparr>
                  in if now - last_major_gc_time gc3 \<ge> major_gc_interval_ms (config gc3) * 1000000 then
                       (if incremental_enabled (config gc3)
                        then Some ((snd (lr_gc_incremental_step run clk (lr_gc_incremental_start gc3)))
                                     \<lparr>last_major_gc_time := now\<rparr>)
                        else map_option (\<lambda>g. g\<lparr>last_major_gc_time := now\<rparr>) (lr_gc_major fuel run clk gc3))
                     else Some gc3
                else Some gc2)
           else Some gc1)"

section \<open>Nursery properties\<close>

text \<open>The bump pointers are 8-aligned and inside their blocks, which lie in the lower half of the address space; a
  current block exists when one is announced.\<close>

definition block_ok :: "nursery_block \<Rightarrow> bool" where
  "block_ok b \<longleftrightarrow> b_base b \<le> b_top b \<and> b_top b \<le> b_end b \<and> unat (b_end b) < 2 ^ 63
     \<and> 8 dvd unat (b_base b) \<and> 8 dvd unat (b_top b)"

definition nursery_inv :: "'h gc_context \<Rightarrow> bool" where
  "nursery_inv gc \<longleftrightarrow> (\<forall>b\<in>set (nursery_blocks gc). block_ok b) \<and> (nursery_current gc \<longleftrightarrow> nursery_blocks gc \<noteq> [])"

lemma unat_align8:
  assumes "unat n + 7 < 2 ^ 64"
  shows "unat (align8 n) = (unat n + 7) div 8 * 8"
proof -
  have m: "(7 :: u64) = mask 3" by (simp add: mask_eq_exp_minus_1)
  have a: "align8 n = push_bit 3 (drop_bit 3 (n + 7))"
    unfolding align8_def m by (rule bit_word_eqI) (auto simp: bit_simps)
  have u: "unat (n + 7) = unat n + 7" using assms by (simp add: unat_word_ariths)
  have "unat (align8 n) = take_bit 64 (push_bit 3 (unat (drop_bit 3 (n + 7))))"
    unfolding a by (subst unsigned_push_bit_eq) simp
  also have "unat (drop_bit 3 (n + 7)) = drop_bit 3 (unat n + 7)"
    using assms by (subst unsigned_drop_bit_eq) (simp add: u take_bit_nat_eq_self)
  finally have "unat (align8 n) = (unat n + 7) div 8 * 8 mod 2 ^ 64"
    by (simp add: take_bit_eq_mod push_bit_eq_mult drop_bit_eq_div)
  moreover have "(unat n + 7) div 8 * 8 < 2 ^ 64" using assms by linarith
  ultimately show ?thesis by simp
qed

lemma unat_add_small: "unat a + unat b < 2 ^ 64 \<Longrightarrow> unat (a + b :: u64) = unat a + unat b"
  by (simp add: unat_word_ariths)

text \<open>What \<open>malloc\<close> promises of the address of a new block: aligned, and room for the request in the lower half of the
  address space.\<close>

definition block_addr_ok :: "u64 option \<Rightarrow> u64 \<Rightarrow> bool" where
  "block_addr_ok addr m \<longleftrightarrow> (case addr of None \<Rightarrow> True | Some p \<Rightarrow> 8 dvd unat p \<and> unat p + unat m < 2 ^ 63)"

text \<open>(C29) A nursery allocation of fewer than \<open>2^63 - 7\<close> bytes, in a process whose blocks lie in the lower half of the address
  space, returns an 8-aligned region of the current block that holds the requested bytes, starts where the previous
  allocations of the block end (or at the base of a new block), and stays inside the block; the other blocks keep their
  contents and the nursery stays well-formed.\<close>

theorem nursery_alloc_region:
  assumes "nursery_inv gc" "unat n + 7 < 2 ^ 63" "block_addr_ok addr (block_request (config gc) (align8 n))"
    "lr_gc_nursery_alloc addr gc n = (Some r, gc')"
  shows "nursery_inv gc' \<and> 8 dvd unat r \<and>
    (\<exists>b bs. nursery_blocks gc' = b # bs \<and> b_base b \<le> r \<and> unat r + unat n \<le> unat (b_top b) \<and> b_top b \<le> b_end b
       \<and> (bs = nursery_blocks gc \<and> r = b_base b \<and> addr = Some r
          \<or> (\<exists>b0. nursery_blocks gc = b0 # bs \<and> r = b_top b0 \<and> b_base b0 = b_base b \<and> b_end b0 = b_end b)))"
proof -
  let ?sz = "align8 n"
  let ?bs = "block_request (config gc) ?sz"
  have al: "unat ?sz = (unat n + 7) div 8 * 8" by (rule unat_align8) (use assms(2) in simp)
  then have sz: "8 dvd unat ?sz" "unat n \<le> unat ?sz" "unat ?sz < 2 ^ 63" using assms(2) by (simp, linarith, linarith)
  have bs: "unat ?sz \<le> unat ?bs" by (simp add: block_request_def word_le_nat_alt word_less_nat_alt)
  consider (bump) b0 rest where "nursery_blocks gc = b0 # rest" "b_top b0 + ?sz \<le> b_end b0" "r = b_top b0"
      "nursery_blocks gc' = b0\<lparr>b_top := b_top b0 + ?sz\<rparr> # rest" "nursery_current gc'"
    | (new) "addr = Some r" "nursery_blocks gc' = \<lparr>b_base = r, b_top = r + ?sz, b_end = r + ?bs\<rparr> # nursery_blocks gc"
        "nursery_current gc'"
    using assms(1,4) by (auto simp: lr_gc_nursery_alloc_def Let_def nursery_inv_def split: if_splits list.splits option.splits)
  then show ?thesis
  proof cases
    case bump
    then have b0: "block_ok b0" using assms(1) by (simp add: nursery_inv_def)
    then have "unat (b_top b0) < 2 ^ 63" by (auto simp: block_ok_def word_le_nat_alt)
    then have u: "unat (b_top b0 + ?sz) = unat (b_top b0) + unat ?sz" using sz(3) by (intro unat_add_small) simp
    then have "b_base b0 \<le> b_top b0 + ?sz" "8 dvd unat (b_top b0 + ?sz)"
      using b0 sz by (auto simp: block_ok_def word_le_nat_alt)
    then show ?thesis using bump assms(1) b0 u sz by (auto simp: nursery_inv_def block_ok_def)
  next
    case new
    have p: "8 dvd unat r" "unat r + unat ?bs < 2 ^ 63" using assms(3) new(1) by (simp_all add: block_addr_ok_def)
    then have u: "unat (r + ?sz) = unat r + unat ?sz" "unat (r + ?bs) = unat r + unat ?bs"
      using bs by (simp_all add: unat_add_small)
    then have "block_ok \<lparr>b_base = r, b_top = r + ?sz, b_end = r + ?bs\<rparr>"
      using p sz bs by (simp add: block_ok_def word_le_nat_alt)
    then show ?thesis using new assms(1) sz u bs p by (auto simp: nursery_inv_def block_ok_def word_le_nat_alt)
  qed
qed

theorem nursery_alloc_region_witness:
  "\<exists>gc'. lr_gc_nursery_alloc (Some 0x10000) (lr_gc_init False ()) 13 = (Some 0x10000, gc') \<and> nursery_inv gc'"
proof -
  let ?gc = "lr_gc_init False ()"
  have inv: "nursery_inv ?gc" by (simp add: nursery_inv_def lr_gc_init_def)
  have req: "block_request (config ?gc) (align8 13) = 4194304"
    by (simp add: block_request_def lr_gc_init_def lr_gc_config_default_def align8_def)
  have ad: "block_addr_ok (Some 0x10000) (block_request (config ?gc) (align8 13))"
    unfolding req by (simp add: block_addr_ok_def)
  obtain gc' where r: "lr_gc_nursery_alloc (Some 0x10000) ?gc 13 = (Some 0x10000, gc')"
    by (simp add: lr_gc_nursery_alloc_def lr_gc_init_def lr_gc_config_default_def Let_def)
  from nursery_alloc_region [OF inv _ ad r] r show ?thesis by simp
qed

text \<open>A request within 7 bytes of \<open>SIZE_MAX\<close> wraps to size 0: the allocator returns a pointer without
  reserving a byte.\<close>

theorem nursery_alloc_wraps:
  "\<exists>gc'. lr_gc_nursery_alloc (Some p) (lr_gc_init False ()) 0xFFFFFFFFFFFFFFFF = (Some p, gc')
    \<and> map b_used (nursery_blocks gc') = [0]"
  by (simp add: lr_gc_nursery_alloc_def lr_gc_init_def lr_gc_config_default_def align8_def b_used_def Let_def)

text \<open>A request of \<open>2^64 - k\<close> bytes, \<open>k\<close> a multiple of eight, wraps the sum \<open>top + size\<close> to \<open>top - k\<close>: it succeeds and moves the bump
  pointer back over the last \<open>k\<close> bytes handed out, which the next allocation hands out again.\<close>

theorem nursery_alloc_rewinds:
  assumes "nursery_current gc" "generational_enabled (config gc)" "nursery_blocks gc = b # bs" "block_ok b"
    "unat k \<le> unat (b_top b)" "0 < k" "align8 (- k) = - k"
  shows "\<exists>gc'. lr_gc_nursery_alloc addr gc (- k) = (Some (b_top b), gc') \<and> nursery_blocks gc' = b\<lparr>b_top := b_top b - k\<rparr> # bs"
proof -
  have "k \<le> b_top b" using assms(5) by (simp add: word_le_nat_alt)
  then have "b_top b - k \<le> b_top b" by (simp add: word_le_nat_alt unat_sub)
  also have "\<dots> \<le> b_end b" using assms(4) by (simp add: block_ok_def)
  finally show ?thesis using assms(1-3,7) by (simp add: lr_gc_nursery_alloc_def Let_def)
qed

theorem nursery_alloc_rewinds_witness:
  "\<exists>gc'. lr_gc_nursery_alloc None ((lr_gc_init False ())\<lparr>nursery_current := True,
      nursery_blocks := [\<lparr>b_base = 0x10000, b_top = 0x10010, b_end = 0x20000\<rparr>]\<rparr>) (- 16) = (Some 0x10010, gc')
    \<and> nursery_blocks gc' = [\<lparr>b_base = 0x10000, b_top = 0x10000, b_end = 0x20000\<rparr>]"
  using nursery_alloc_rewinds [of "(lr_gc_init False ())\<lparr>nursery_current := True,
      nursery_blocks := [\<lparr>b_base = 0x10000, b_top = 0x10010, b_end = 0x20000\<rparr>]\<rparr>"
      "\<lparr>b_base = 0x10000, b_top = 0x10010, b_end = 0x20000\<rparr>" "[]" 16 None]
  by (simp add: lr_gc_init_def lr_gc_config_default_def block_ok_def align8_def)

section \<open>Phases\<close>

lemmas gc_step_defs = lr_gc_incremental_step_def lr_gc_now_ns_def add_mark_time_def add_sweep_time_def
  mark_step_def sweep_step_def run_engine_def

lemma step_keeps:
  "nursery_blocks (snd (lr_gc_incremental_step run clk gc)) = nursery_blocks gc"
  "config (snd (lr_gc_incremental_step run clk gc)) = config gc"
  by (auto simp: gc_step_defs Let_def split: gc_phase.splits)

lemma step_phase:
  "phase (snd (lr_gc_incremental_step run clk gc)) =
     (if \<not> phase_in_progress gc then phase gc
      else case phase gc of
        Phase_idle \<Rightarrow> Phase_idle
      | Phase_mark_roots \<Rightarrow> Phase_mark
      | Phase_mark \<Rightarrow>
          (if mark_entries_done gc + int (min (length (mark_worklist gc)) (nat (mark_step_size (config gc)))) \<ge> mark_entries gc
           then Phase_sweep else Phase_mark)
      | Phase_remark \<Rightarrow> Phase_sweep
      | Phase_sweep \<Rightarrow>
          (if length (nursery_blocks gc) \<le> nat (sweep_step_size (config gc)) then Phase_complete else Phase_sweep)
      | Phase_complete \<Rightarrow> Phase_idle)"
  by (auto simp: gc_step_defs Let_def split: gc_phase.splits)

lemma step_more:
  "fst (lr_gc_incremental_step run clk gc) \<longleftrightarrow> phase_in_progress gc \<and> phase gc \<noteq> Phase_idle \<and> phase gc \<noteq> Phase_complete"
  by (auto simp: gc_step_defs Let_def split: gc_phase.splits)

lemma step_progress:
  "phase_in_progress (snd (lr_gc_incremental_step run clk gc)) \<longleftrightarrow>
     phase_in_progress gc \<and> phase gc \<noteq> Phase_idle \<and> phase gc \<noteq> Phase_complete"
  by (auto simp: gc_step_defs Let_def split: gc_phase.splits)

lemma step_mark_state:
  "mark_entries (snd (lr_gc_incremental_step run clk gc)) = mark_entries gc"
  "mark_worklist (snd (lr_gc_incremental_step run clk gc)) = mark_worklist gc"
  "phase_in_progress gc \<Longrightarrow> phase gc = Phase_mark_roots \<Longrightarrow>
     mark_entries_done (snd (lr_gc_incremental_step run clk gc)) = mark_entries gc"
  by (auto simp: gc_step_defs Let_def split: gc_phase.splits)

lemmas step_facts = step_keeps step_phase step_more step_progress step_mark_state

fun gc_steps :: "nat \<Rightarrow> ('h \<Rightarrow> 'h) \<Rightarrow> (nat \<Rightarrow> int) \<Rightarrow> 'h gc_context \<Rightarrow> bool list \<times> 'h gc_context" where
  "gc_steps 0 run clk gc = ([], gc)"
| "gc_steps (Suc n) run clk gc =
     (case lr_gc_incremental_step run clk gc of (m, gc1) \<Rightarrow>
        (case gc_steps n run clk gc1 of (ms, gc2) \<Rightarrow> (m # ms, gc2)))"

text \<open>(C28) An incremental cycle over a nursery of at most \<open>sweep_step_size\<close> blocks is mark-roots, mark, sweep, complete:
  exactly three calls report more work, the fourth reports none and leaves the collector idle.\<close>

theorem incremental_cycle_ends:
  assumes "length (nursery_blocks gc) \<le> nat (sweep_step_size (config gc))"
  shows "fst (gc_steps 4 run clk (lr_gc_incremental_start gc)) = [True, True, True, False]
    \<and> phase (snd (gc_steps 4 run clk (lr_gc_incremental_start gc))) = Phase_idle
    \<and> \<not> phase_in_progress (snd (gc_steps 4 run clk (lr_gc_incremental_start gc)))"
proof -
  define g0 where "g0 = lr_gc_incremental_start gc"
  define g1 where "g1 = snd (lr_gc_incremental_step run clk g0)"
  define g2 where "g2 = snd (lr_gc_incremental_step run clk g1)"
  define g3 where "g3 = snd (lr_gc_incremental_step run clk g2)"
  define g4 where "g4 = snd (lr_gc_incremental_step run clk g3)"
  have 0: "phase g0 = Phase_mark_roots" "phase_in_progress g0" "mark_entries g0 = 0"
      "nursery_blocks g0 = nursery_blocks gc" "config g0 = config gc" "mark_worklist g0 = []"
    by (simp_all add: g0_def lr_gc_incremental_start_def)
  have 1: "phase g1 = Phase_mark" "phase_in_progress g1" "mark_entries g1 = 0" "mark_entries_done g1 = 0"
      "nursery_blocks g1 = nursery_blocks gc" "config g1 = config gc" "mark_worklist g1 = []"
    using 0 by (simp_all add: g1_def step_facts)
  have 2: "phase g2 = Phase_sweep" "phase_in_progress g2" "nursery_blocks g2 = nursery_blocks gc" "config g2 = config gc"
    using 1 by (simp_all add: g2_def step_facts)
  have 3: "phase g3 = Phase_complete" "phase_in_progress g3"
    using 2 assms by (simp_all add: g3_def step_facts)
  have 4: "phase g4 = Phase_idle" "\<not> phase_in_progress g4"
    using 3 by (simp_all add: g4_def step_facts)
  have p: "lr_gc_incremental_step run clk g0 = (True, g1)" "lr_gc_incremental_step run clk g1 = (True, g2)"
      "lr_gc_incremental_step run clk g2 = (True, g3)" "lr_gc_incremental_step run clk g3 = (False, g4)"
    using 0 1 2 3 step_more [of run clk g0] step_more [of run clk g1] step_more [of run clk g2] step_more [of run clk g3]
    by (auto simp: prod_eq_iff g1_def g2_def g3_def g4_def)
  have "gc_steps 4 run clk g0 = ([True, True, True, False], g4)"
    by (simp add: eval_nat_numeral p)
  with 4 show ?thesis by (simp add: g0_def)
qed

theorem incremental_cycle_ends_witness:
  "fst (gc_steps 4 id (\<lambda>n. int n) (lr_gc_incremental_start (lr_gc_init True ()))) = [True, True, True, False]"
  using incremental_cycle_ends [of "lr_gc_init True ()" id "\<lambda>n. int n"]
  by (simp add: lr_gc_init_def lr_gc_config_default_def)

text \<open>The sweep restarts at the head of the block list in every step and keeps no cursor, so a nursery of more
  than \<open>sweep_step_size\<close> blocks is swept over and over: the phase never leaves sweep, however many steps are taken.\<close>

theorem sweep_never_ends:
  assumes "phase gc = Phase_sweep" "phase_in_progress gc"
    "nat (sweep_step_size (config gc)) < length (nursery_blocks gc)"
  shows "phase (snd (gc_steps n run clk gc)) = Phase_sweep \<and> list_all id (fst (gc_steps n run clk gc))"
  using assms
proof (induction n arbitrary: gc)
  case (Suc n)
  let ?g = "snd (lr_gc_incremental_step run clk gc)"
  have g: "phase ?g = Phase_sweep" "phase_in_progress ?g" "nat (sweep_step_size (config ?g)) < length (nursery_blocks ?g)"
    using Suc.prems by (simp_all add: step_facts)
  have "fst (lr_gc_incremental_step run clk gc)" using Suc.prems by (simp add: step_facts)
  with Suc.IH [OF g] show ?case by (auto split: prod.splits)
qed simp

theorem sweep_never_ends_witness:
  "phase (snd (gc_steps 100 id (\<lambda>n. int n) ((lr_gc_init True ())\<lparr>phase := Phase_sweep, phase_in_progress := True,
     config := lr_gc_config_default\<lparr>sweep_step_size := 1\<rparr>,
     nursery_blocks := [\<lparr>b_base = 64, b_top = 64, b_end = 72\<rparr>, \<lparr>b_base = 128, b_top = 128, b_end = 136\<rparr>]\<rparr>))) = Phase_sweep"
  using sweep_never_ends [of "(lr_gc_init True ())\<lparr>phase := Phase_sweep, phase_in_progress := True,
     config := lr_gc_config_default\<lparr>sweep_step_size := 1\<rparr>,
     nursery_blocks := [\<lparr>b_base = 64, b_top = 64, b_end = 72\<rparr>, \<lparr>b_base = 128, b_top = 128, b_end = 136\<rparr>]\<rparr>" 100 id "\<lambda>n. int n"]
  by simp

section \<open>Collections and their statistics\<close>

lemmas gc_defs = lr_gc_now_ns_def record_elapsed_def lr_gc_record_pause_def run_engine_def clear_nursery_def

lemma sum_list_bump:
  fixes xs :: "int list"
  assumes "b < length xs"
  shows "sum_list (xs[b := xs ! b + 1]) = sum_list xs + 1"
  using assms by (induction xs arbitrary: b) (auto split: nat.splits)

lemma pause_bucket_less: "pause_bucket p < 10"
  by (simp add: pause_bucket_def)

text \<open>Each recorded pause is counted in exactly one of the ten buckets, the one whose interval of milliseconds
  contains it, and the maximum never falls below a recorded pause.\<close>

theorem record_pause_histogram:
  assumes "length (pause_histogram (stats gc)) = 10"
  shows "length (pause_histogram (stats (lr_gc_record_pause gc p))) = 10
    \<and> sum_list (pause_histogram (stats (lr_gc_record_pause gc p))) = sum_list (pause_histogram (stats gc)) + 1
    \<and> (\<forall>i<10. pause_histogram (stats (lr_gc_record_pause gc p)) ! i =
         pause_histogram (stats gc) ! i + (if i = pause_bucket (cdiv p 1000000) then 1 else 0))
    \<and> (let bounds = [1, 2, 5, 10, 20, 50, 100, 200, 500]; b = pause_bucket (cdiv p 1000000) in
         (b < 9 \<longrightarrow> cdiv p 1000000 < bounds ! b) \<and> (0 < b \<longrightarrow> bounds ! (b - 1) \<le> cdiv p 1000000))
    \<and> p \<le> max_gc_time_ns (stats (lr_gc_record_pause gc p))
    \<and> max_gc_time_ns (stats gc) \<le> max_gc_time_ns (stats (lr_gc_record_pause gc p))"
proof -
  have b: "pause_bucket (cdiv p 1000000) < length (pause_histogram (stats gc))"
    using assms pause_bucket_less by simp
  have bnd: "let bounds = [1, 2, 5, 10, 20, 50, 100, 200, 500]; b = pause_bucket (cdiv p 1000000) in
         (b < 9 \<longrightarrow> cdiv p 1000000 < bounds ! b) \<and> (0 < b \<longrightarrow> bounds ! (b - 1) \<le> cdiv p 1000000)"
    by (simp add: pause_bucket_def Let_def)
  show ?thesis
    using assms b bnd by (simp add: lr_gc_record_pause_def Let_def sum_list_bump nth_list_update)
qed

theorem record_pause_histogram_witness:
  "pause_histogram (stats (lr_gc_record_pause (lr_gc_init False ()) 7000000)) ! 3 = 1"
proof -
  have "length (pause_histogram (stats (lr_gc_init False ()))) = 10"
    by (simp add: lr_gc_init_def gc_stats_zero_def)
  from record_pause_histogram [OF this, of 7000000]
  have "pause_histogram (stats (lr_gc_record_pause (lr_gc_init False ()) 7000000)) ! 3 =
      pause_histogram (stats (lr_gc_init False ())) ! 3 + (if 3 = pause_bucket (cdiv 7000000 1000000) then 1 else 0)"
    by simp
  then show ?thesis by (simp add: lr_gc_init_def gc_stats_zero_def pause_bucket_def cdiv_def)
qed

text \<open>The bytes in use in the nursery.\<close>

definition nursery_used :: "'h gc_context \<Rightarrow> u64" where
  "nursery_used gc = sum_list (map b_used (nursery_blocks gc))"

lemma fold_used: "fold (\<lambda>b n. n + b_used b) bs (m :: u64) = m + sum_list (map b_used bs)"
  by (induction bs arbitrary: m) (simp_all add: ac_simps)

text \<open>A minor collection runs the engine's collector once, empties every nursery block while keeping the blocks,
  accounts exactly the bytes that were in use as freed, restarts the allocation budget, leaves the incremental
  phase alone and keeps the age below the promotion age.\<close>

theorem gc_minor_effect:
  assumes "nursery_inv gc" "0 < promotion_age (config gc)" "nursery_age gc < promotion_age (config gc)"
  shows "nursery_inv (lr_gc_minor run clk gc)
    \<and> map b_used (nursery_blocks (lr_gc_minor run clk gc)) = replicate (length (nursery_blocks gc)) 0
    \<and> map b_size (nursery_blocks (lr_gc_minor run clk gc)) = map b_size (nursery_blocks gc)
    \<and> nursery_bytes_freed (stats (lr_gc_minor run clk gc)) = nursery_bytes_freed (stats gc) + nursery_used gc
    \<and> bytes_since_last_gc (lr_gc_minor run clk gc) = 0
    \<and> nursery_age (lr_gc_minor run clk gc) < promotion_age (config gc)
    \<and> phase (lr_gc_minor run clk gc) = phase gc
    \<and> heap (lr_gc_minor run clk gc) = (if has_rt gc then run (heap gc) else heap gc)
    \<and> minor_gc_count (stats (lr_gc_minor run clk gc)) = minor_gc_count (stats gc) + 1"
proof -
  have "\<forall>b\<in>set (nursery_blocks gc). block_ok (b\<lparr>b_top := b_base b\<rparr>)"
    using assms(1) by (auto simp: nursery_inv_def block_ok_def)
  moreover have "b_size (b\<lparr>b_top := b_base b\<rparr>) = b_size b" "b_used (b\<lparr>b_top := b_base b\<rparr>) = 0" for b
    by (simp_all add: b_size_def b_used_def)
  ultimately show ?thesis
    using assms
    by (simp add: lr_gc_minor_def gc_defs Let_def nursery_inv_def nursery_used_def fold_used comp_def map_replicate_const)
qed

theorem gc_minor_effect_witness:
  "map b_used (nursery_blocks (lr_gc_minor id (\<lambda>n. int n)
     ((lr_gc_init True ())\<lparr>nursery_blocks := [\<lparr>b_base = 64, b_top = 80, b_end = 128\<rparr>], nursery_current := True\<rparr>))) = [0]"
  using gc_minor_effect [of "(lr_gc_init True ())\<lparr>nursery_blocks := [\<lparr>b_base = 64, b_top = 80, b_end = 128\<rparr>], nursery_current := True\<rparr>"
      id "\<lambda>n. int n"]
  by (simp add: nursery_inv_def lr_gc_init_def lr_gc_config_default_def block_ok_def)

text \<open>Resetting the statistics zeroes the allocated count but not the blocks: the next promoting collection
  subtracts more than was counted and \<open>promoted_bytes\<close> wraps around.\<close>

theorem promoted_bytes_wraps:
  "promoted_bytes (stats (lr_gc_minor id (\<lambda>n. int n) (lr_gc_ctx_reset_stats
     ((snd (lr_gc_nursery_alloc (Some 0x10000) (lr_gc_init True ()) 16))\<lparr>nursery_age := 2\<rparr>)))) = - 16"
  by (simp add: lr_gc_minor_def gc_defs Let_def lr_gc_ctx_reset_stats_def lr_gc_nursery_alloc_def lr_gc_init_def
      lr_gc_config_default_def gc_stats_zero_def nursery_account_def align8_def b_used_def)

lemma minor_sel:
  "minor_gc_count (stats (lr_gc_minor run clk gc)) = minor_gc_count (stats gc) + 1"
  "config (lr_gc_minor run clk gc) = config gc"
  by (simp_all add: lr_gc_minor_def gc_defs Let_def)

lemma step_minor_count: "minor_gc_count (stats (snd (lr_gc_incremental_step run clk gc))) = minor_gc_count (stats gc)"
  and step_budget: "bytes_since_last_gc (snd (lr_gc_incremental_step run clk gc)) = bytes_since_last_gc gc"
  and step_check_time: "last_gc_check_time (snd (lr_gc_incremental_step run clk gc)) = last_gc_check_time gc"
  by (auto simp: gc_step_defs Let_def split: gc_phase.splits)

text \<open>The allocation hook collects only when it should: outside stress mode, with the incremental collector
  enabled, it always returns, and it runs a minor collection only if the allocation budget is used up, at most one
  of them, and never sooner than the minimum interval after the previous check.\<close>

theorem before_alloc_rate_limited:
  assumes "\<not> stress_mode (config gc)" "incremental_enabled (config gc)"
  shows "\<exists>gc'. lr_gc_before_alloc fuel run clk gc = Some gc' \<and>
    (minor_gc_count (stats gc') = minor_gc_count (stats gc) \<or>
     minor_gc_count (stats gc') = minor_gc_count (stats gc) + 1
     \<and> bytes_since_last_gc gc \<ge> allocation_threshold (config gc)
     \<and> last_gc_check_time gc' - last_gc_check_time gc \<ge> minor_gc_interval_ms (config gc) * 1000000)"
proof -
  let ?g1 = "if phase_in_progress gc then snd (lr_gc_incremental_step run clk gc) else gc"
  have g1: "minor_gc_count (stats ?g1) = minor_gc_count (stats gc)" "config ?g1 = config gc"
      "bytes_since_last_gc ?g1 = bytes_since_last_gc gc" "last_gc_check_time ?g1 = last_gc_check_time gc"
    by (simp_all add: step_minor_count step_budget step_check_time step_keeps)
  let ?now = "clk (clock_reads ?g1)"
  let ?g2 = "?g1\<lparr>clock_reads := clock_reads ?g1 + 1\<rparr>"
  let ?g3 = "(lr_gc_minor run clk ?g2)\<lparr>last_gc_check_time := ?now\<rparr>"
  have g3: "minor_gc_count (stats ?g3) = minor_gc_count (stats gc) + 1" "config ?g3 = config gc" "last_gc_check_time ?g3 = ?now"
    using g1 by (simp_all add: minor_sel)
  let ?g4 = "(snd (lr_gc_incremental_step run clk (lr_gc_incremental_start ?g3)))\<lparr>last_major_gc_time := ?now\<rparr>"
  have g4: "minor_gc_count (stats ?g4) = minor_gc_count (stats gc) + 1" "last_gc_check_time ?g4 = ?now"
    using g3 by (simp_all add: step_minor_count step_check_time lr_gc_incremental_start_def)
  show ?thesis
    using assms g1 g3 g4 unfolding lr_gc_before_alloc_def Let_def lr_gc_now_ns_def by auto
qed

theorem before_alloc_rate_limited_witness:
  "\<exists>gc'. lr_gc_before_alloc 0 id (\<lambda>n. int n) (lr_gc_init True ()) = Some gc'"
  using before_alloc_rate_limited [of "lr_gc_init True ()" 0 id "\<lambda>n. int n"]
  by (auto simp: lr_gc_init_def lr_gc_config_default_def)

section \<open>Termination of the step loops\<close>

definition gc_rank :: "gc_phase \<Rightarrow> nat" where
  "gc_rank p = (case p of Phase_mark_roots \<Rightarrow> 4 | Phase_mark \<Rightarrow> 3 | Phase_remark \<Rightarrow> 3 | Phase_sweep \<Rightarrow> 2
     | Phase_complete \<Rightarrow> 1 | Phase_idle \<Rightarrow> 1)"

text \<open>No marking work is outstanding, and one sweep step covers the nursery.\<close>

definition can_finish :: "'h gc_context \<Rightarrow> bool" where
  "can_finish gc \<longleftrightarrow> length (nursery_blocks gc) \<le> nat (sweep_step_size (config gc))
     \<and> (phase gc = Phase_mark \<longrightarrow> mark_entries gc \<le> mark_entries_done gc)"

lemma step_rank:
  assumes "can_finish gc" "fst (lr_gc_incremental_step run clk gc)"
  shows "can_finish (snd (lr_gc_incremental_step run clk gc))
    \<and> gc_rank (phase (snd (lr_gc_incremental_step run clk gc))) < gc_rank (phase gc)"
  using assms
  by (cases "phase gc") (auto simp: can_finish_def step_facts gc_rank_def split: if_splits)

lemma can_finish_clock [simp]:
  "can_finish (gc\<lparr>clock_reads := n\<rparr>) = can_finish gc" "can_finish (gc\<lparr>stats := s\<rparr>) = can_finish gc"
  by (simp_all add: can_finish_def)

lemma major_loop_returns:
  assumes "can_finish gc" "gc_rank (phase gc) \<le> fuel"
  shows "major_loop fuel run clk start step_start steps gc \<noteq> None"
  using assms
proof (induction fuel arbitrary: gc steps)
  case 0
  then show ?case by (auto simp: gc_rank_def split: gc_phase.splits)
next
  case (Suc fuel)
  obtain m gc1 where st: "lr_gc_incremental_step run clk gc = (m, gc1)" by fastforce
  show ?case
  proof (cases m)
    case False
    with st show ?thesis by simp
  next
    case True
    with st step_rank [OF Suc.prems(1), of run clk]
    have "can_finish gc1" "gc_rank (phase gc1) < gc_rank (phase gc)" by auto
    then have "major_loop fuel run clk start step_start (steps + 1) (gc1\<lparr>clock_reads := clock_reads gc1 + 1\<rparr>) \<noteq> None"
      using Suc.prems(2) by (intro Suc.IH) simp_all
    with st True show ?thesis by (auto simp: lr_gc_now_ns_def Let_def)
  qed
qed

lemma idle_loop_returns:
  assumes "can_finish gc" "gc_rank (phase gc) \<le> fuel"
  shows "idle_loop fuel run clk deadline gc \<noteq> None"
  using assms
proof (induction fuel arbitrary: gc)
  case 0
  then show ?case by (auto simp: gc_rank_def split: gc_phase.splits)
next
  case (Suc fuel)
  obtain m gc1 where st: "lr_gc_incremental_step run clk gc = (m, gc1)" by fastforce
  show ?case
  proof (cases m)
    case False
    with st show ?thesis by simp
  next
    case True
    with st step_rank [OF Suc.prems(1), of run clk]
    have "can_finish gc1" "gc_rank (phase gc1) < gc_rank (phase gc)" by auto
    then have "idle_loop fuel run clk deadline (gc1\<lparr>stats := s, clock_reads := n\<rparr>) \<noteq> None" for s n
      using Suc.prems(2) by (intro Suc.IH) simp_all
    with st True show ?thesis by (simp add: lr_gc_now_ns_def)
  qed
qed

lemma gc_rank_le: "gc_rank p \<le> 4"
  by (simp add: gc_rank_def split: gc_phase.splits)

lemma minor_blocks: "length (nursery_blocks (lr_gc_minor run clk gc)) = length (nursery_blocks gc)"
  by (simp add: lr_gc_minor_def gc_defs Let_def)

lemma lr_gc_major_returns:
  assumes "length (nursery_blocks gc) \<le> nat (sweep_step_size (config gc))" "4 \<le> fuel"
  shows "lr_gc_major fuel run clk gc \<noteq> None"
proof -
  let ?g = "lr_gc_minor run clk (gc\<lparr>clock_reads := clock_reads gc + 1,
    stats := (stats gc)\<lparr>major_gc_count := major_gc_count (stats gc) + 1\<rparr>\<rparr>)"
  let ?h = "lr_gc_incremental_start ?g"
  have "major_loop fuel run clk (clk (clock_reads gc)) (clk (clock_reads ?h)) 0
      (?h\<lparr>clock_reads := clock_reads ?h + 1\<rparr>) \<noteq> None"
    using assms gc_rank_le [of Phase_mark_roots]
    by (intro major_loop_returns) (simp_all add: can_finish_def lr_gc_incremental_start_def minor_blocks minor_sel)
  then obtain r where r: "major_loop fuel run clk (clk (clock_reads gc)) (clk (clock_reads ?h)) 0
      (?h\<lparr>clock_reads := clock_reads ?h + 1\<rparr>) = Some r" by blast
  then show ?thesis
    by (cases r) (auto simp: lr_gc_major_def Let_def lr_gc_now_ns_def split: bool.splits)
qed

text \<open>Major collections and idle work always return, after at most four incremental steps, whatever the clock
  shows, provided one sweep step covers the nursery and no marking work is outstanding.\<close>

theorem gc_loops_return:
  assumes "can_finish gc"
  shows "lr_gc_major 4 run clk gc \<noteq> None \<and> lr_gc_idle_work 4 run clk gc \<noteq> None"
proof -
  have len: "length (nursery_blocks gc) \<le> nat (sweep_step_size (config gc))" using assms by (simp add: can_finish_def)
  have maj: "lr_gc_major 4 run clk (gc\<lparr>clock_reads := n\<rparr>) \<noteq> None" for n
    using len by (intro lr_gc_major_returns) simp_all
  have idle: "idle_loop 4 run clk d (gc\<lparr>clock_reads := n\<rparr>) \<noteq> None" for d n
    using assms by (intro idle_loop_returns) (simp_all add: gc_rank_le)
  show ?thesis
    using maj [of "clock_reads gc"] maj idle by (auto simp: lr_gc_idle_work_def lr_gc_now_ns_def)
qed

theorem gc_loops_return_witness: "lr_gc_major 4 id (\<lambda>n. int n) (lr_gc_init True ()) \<noteq> None"
  using gc_loops_return [of "lr_gc_init True ()" id "\<lambda>n. int n"]
  by (simp add: can_finish_def lr_gc_init_def lr_gc_config_default_def)

end
