(* ===== verification/LR_Scheduler.thy ===== *)
theory LR_Scheduler
  imports LR_Prelude "HOL-Library.Multiset"
begin

text \<open>
  The task scheduler, \<^verbatim>\<open>src/lr_scheduler.c\<close>: a list sorted by due time, the traversal that runs the due
  tasks, cancellation and the waits of the two run loops.

  A task is identified by its \<open>id\<close>. The singly linked list is a list; a pointer into it is an id, so that
  unlinking a node through a stale \<open>prev\<close> pointer has the effect it has in the code. The time of a call is
  an argument, tasks handed to the thread pool are recorded in \<open>submitted\<close>, and the mutex makes every
  operation atomic.
\<close>

section \<open>Data\<close>

datatype sched_type = Sched_oneshot | Sched_repeat

record 'a sched_task =
  st_id :: int
  st_type :: sched_type
  st_task :: 'a
  st_priority :: int
  st_interval_us :: int
  st_next_run_us :: int
  st_repeat_count :: int
  st_run_count :: int
  st_cancelled :: bool

record 'a scheduler =
  task_list :: "'a sched_task list"
  next_task_id :: int
  running :: bool
  tasks_scheduled :: int
  tasks_executed :: int
  tasks_dropped :: int
  submitted :: "'a list"

definition lr_scheduler_create :: "'a scheduler" where
  "lr_scheduler_create = \<lparr>task_list = [], next_task_id = 1, running = False, tasks_scheduled = 0,
     tasks_executed = 0, tasks_dropped = 0, submitted = []\<rparr>"

section \<open>Operations\<close>

text \<open>The walk of the insertion: past every following task that is due no later.\<close>

fun insert_after :: "'a sched_task \<Rightarrow> 'a sched_task list \<Rightarrow> 'a sched_task list" where
  "insert_after st [] = [st]"
| "insert_after st (t # ts) =
     (if st_next_run_us t \<le> st_next_run_us st then t # insert_after st ts else st # t # ts)"

definition lr_scheduler_insert_task :: "'a sched_task \<Rightarrow> 'a sched_task list \<Rightarrow> 'a sched_task list" where
  "lr_scheduler_insert_task st ts =
     (case ts of
        [] \<Rightarrow> [st]
      | h # rest \<Rightarrow> if st_next_run_us st < st_next_run_us h then st # h # rest else h # insert_after st rest)"

text \<open>\<open>alloc_ok\<close> is the outcome of the \<open>calloc\<close>; the result is the id or -1.\<close>

definition lr_scheduler_schedule ::
  "bool \<Rightarrow> int \<Rightarrow> 'a scheduler \<Rightarrow> 'a \<Rightarrow> int \<Rightarrow> int \<Rightarrow> int \<Rightarrow> int \<times> 'a scheduler" where
  "lr_scheduler_schedule alloc_ok now s task priority interval_us repeat_count =
     (if \<not> alloc_ok then (-1, s)
      else
        let st = \<lparr>st_id = next_task_id s, st_type = (if repeat_count \<noteq> 0 then Sched_repeat else Sched_oneshot),
                  st_task = task, st_priority = priority, st_interval_us = interval_us, st_next_run_us = now,
                  st_repeat_count = repeat_count, st_run_count = 0, st_cancelled = False\<rparr>
        in (st_id st, s\<lparr>next_task_id := next_task_id s + 1,
                        task_list := lr_scheduler_insert_task st (task_list s),
                        tasks_scheduled := tasks_scheduled s + 1\<rparr>))"

definition lr_scheduler_schedule_delayed ::
  "bool \<Rightarrow> int \<Rightarrow> 'a scheduler \<Rightarrow> 'a \<Rightarrow> int \<Rightarrow> int \<Rightarrow> int \<times> 'a scheduler" where
  "lr_scheduler_schedule_delayed alloc_ok now s task priority delay_us =
     (if \<not> alloc_ok then (-1, s)
      else
        let st = \<lparr>st_id = next_task_id s, st_type = Sched_oneshot, st_task = task, st_priority = priority,
                  st_interval_us = 0, st_next_run_us = now + delay_us, st_repeat_count = 0, st_run_count = 0,
                  st_cancelled = False\<rparr>
        in (st_id st, s\<lparr>next_task_id := next_task_id s + 1,
                        task_list := lr_scheduler_insert_task st (task_list s),
                        tasks_scheduled := tasks_scheduled s + 1\<rparr>))"

definition lr_scheduler_schedule_now :: "bool \<Rightarrow> int \<Rightarrow> 'a scheduler \<Rightarrow> 'a \<Rightarrow> int \<Rightarrow> int \<times> 'a scheduler" where
  "lr_scheduler_schedule_now alloc_ok now s task priority =
     lr_scheduler_schedule_delayed alloc_ok now s task priority 0"

fun cancel_first :: "int \<Rightarrow> 'a sched_task list \<Rightarrow> 'a sched_task list option" where
  "cancel_first i [] = None"
| "cancel_first i (t # ts) =
     (if st_id t = i then Some (t\<lparr>st_cancelled := True\<rparr> # ts) else map_option ((#) t) (cancel_first i ts))"

definition lr_scheduler_cancel :: "'a scheduler \<Rightarrow> int \<Rightarrow> int \<times> 'a scheduler" where
  "lr_scheduler_cancel s i =
     (case cancel_first i (task_list s) of
        Some ts \<Rightarrow> (0, s\<lparr>task_list := ts\<rparr>)
      | None \<Rightarrow> (-1, s))"

definition lr_scheduler_pending_count :: "'a scheduler \<Rightarrow> nat" where
  "lr_scheduler_pending_count s = length (filter (\<lambda>t. \<not> st_cancelled t) (task_list s))"

definition lr_scheduler_stop :: "'a scheduler \<Rightarrow> 'a scheduler" where
  "lr_scheduler_stop s = s\<lparr>running := False\<rparr>"

section \<open>Processing\<close>

text \<open>The nodes after node \<open>i\<close>: what \<open>st->next\<close> leads to.\<close>

fun after :: "int \<Rightarrow> 'a sched_task list \<Rightarrow> 'a sched_task list" where
  "after i [] = []"
| "after i (t # ts) = (if st_id t = i then ts else after i ts)"

fun upto_node :: "int \<Rightarrow> 'a sched_task list \<Rightarrow> 'a sched_task list" where
  "upto_node i [] = []"
| "upto_node i (t # ts) = (if st_id t = i then [t] else t # upto_node i ts)"

text \<open>\<open>prev->next = st->next\<close>, or \<open>task_head = st->next\<close> when \<open>prev\<close> is null.\<close>

definition unlink :: "int option \<Rightarrow> int \<Rightarrow> 'a sched_task list \<Rightarrow> 'a sched_task list" where
  "unlink prev cur ts = (case prev of None \<Rightarrow> after cur ts | Some p \<Rightarrow> upto_node p ts @ after cur ts)"

definition head_id :: "'a sched_task list \<Rightarrow> int option" where
  "head_id ts = (case ts of [] \<Rightarrow> None | t # _ \<Rightarrow> Some (st_id t))"

text \<open>The traversal: \<open>prev\<close>, \<open>st\<close> and the number of tasks executed so far. \<open>None\<close>: \<open>fuel\<close> turns were not enough.\<close>

fun process_loop ::
  "nat \<Rightarrow> int \<Rightarrow> int option \<Rightarrow> int option \<Rightarrow> nat \<Rightarrow> 'a scheduler \<Rightarrow> (nat \<times> 'a scheduler) option" where
  "process_loop 0 now prev cur executed s = None"
| "process_loop (Suc fuel) now prev cur executed s =
     (case cur of
        None \<Rightarrow> Some (executed, s)
      | Some i \<Rightarrow>
          (case find (\<lambda>t. st_id t = i) (task_list s) of
             None \<Rightarrow> Some (executed, s)
           | Some st \<Rightarrow>
               let nxt = head_id (after i (task_list s)); rest = unlink prev i (task_list s) in
               if st_cancelled st then
                 process_loop fuel now prev nxt executed (s\<lparr>task_list := rest, tasks_dropped := tasks_dropped s + 1\<rparr>)
               else if st_next_run_us st \<le> now then
                 let st1 = st\<lparr>st_run_count := st_run_count st + 1\<rparr>;
                     s1 = s\<lparr>submitted := submitted s @ [st_task st], tasks_executed := tasks_executed s + 1\<rparr>
                 in if st_type st = Sched_repeat \<and> (st_repeat_count st < 0 \<or> st_run_count st1 < st_repeat_count st) then
                      process_loop fuel now prev nxt (executed + 1)
                        (s1\<lparr>task_list := lr_scheduler_insert_task (st1\<lparr>st_next_run_us := now + st_interval_us st\<rparr>) rest\<rparr>)
                    else process_loop fuel now prev nxt (executed + 1) (s1\<lparr>task_list := rest\<rparr>)
               else process_loop fuel now (Some i) nxt executed s))"

definition lr_scheduler_process :: "nat \<Rightarrow> int \<Rightarrow> 'a scheduler \<Rightarrow> (nat \<times> 'a scheduler) option" where
  "lr_scheduler_process fuel now s = process_loop fuel now None (head_id (task_list s)) 0 s"

section \<open>Waiting\<close>

text \<open>
  The \<open>timespec\<close> that \<open>lr_scheduler_run\<close> passes to \<open>pthread_cond_timedwait\<close>, which takes an absolute
  time, and the one that \<open>lr_scheduler_run_for\<close> passes (both branches have the same form, with the
  remaining time or the smaller of it and the time to the next task).
\<close>

definition run_deadline :: "int \<Rightarrow> int \<Rightarrow> int \<times> int" where
  "run_deadline now wait_us =
     (let sec = now div 1000000 + wait_us div 1000000;
          nsec = (now mod 1000000 + wait_us mod 1000000) * 1000
      in if nsec \<ge> 1000000000 then (sec + 1, nsec - 1000000000) else (sec, nsec))"

definition run_for_deadline :: "int \<Rightarrow> int \<times> int" where
  "run_for_deadline wait_us = (wait_us div 1000000, (wait_us mod 1000000) * 1000)"

text \<open>How long \<open>lr_scheduler_run_for\<close> means to wait; \<open>None\<close>: not at all.\<close>

definition run_for_wait :: "int \<Rightarrow> int \<Rightarrow> 'a scheduler \<Rightarrow> int option" where
  "run_for_wait rem now s =
     (case task_list s of
        [] \<Rightarrow> Some rem
      | t # _ \<Rightarrow> let wait_us = st_next_run_us t - now in
          if wait_us > 0 then Some (if wait_us > rem then rem else wait_us) else None)"

section \<open>Order\<close>

definition due_order :: "'a sched_task list \<Rightarrow> bool" where
  "due_order ts \<longleftrightarrow> sorted_wrt (\<lambda>a b. st_next_run_us a \<le> st_next_run_us b) ts"

lemma insert_after_split:
  "insert_after st ts =
     takeWhile (\<lambda>t. st_next_run_us t \<le> st_next_run_us st) ts @ st # dropWhile (\<lambda>t. st_next_run_us t \<le> st_next_run_us st) ts"
  by (induction ts) auto

lemma insert_task_split:
  "lr_scheduler_insert_task st ts =
     takeWhile (\<lambda>t. st_next_run_us t \<le> st_next_run_us st) ts @ st # dropWhile (\<lambda>t. st_next_run_us t \<le> st_next_run_us st) ts"
  by (cases ts) (auto simp: lr_scheduler_insert_task_def insert_after_split)

lemma insert_task_set [simp]: "set (lr_scheduler_insert_task st ts) = insert st (set ts)"
  unfolding insert_task_split by (metis set_append list.simps(15) takeWhile_dropWhile_id Un_insert_right)

lemma length_insert_task [simp]: "length (lr_scheduler_insert_task st ts) = Suc (length ts)"
  unfolding insert_task_split by (metis length_append length_Cons add_Suc_right takeWhile_dropWhile_id)

lemma insert_task_due_order:
  assumes "due_order ts"
  shows "due_order (lr_scheduler_insert_task st ts)"
  using assms
proof (induction ts)
  case Nil
  then show ?case by (simp add: lr_scheduler_insert_task_def due_order_def)
next
  case (Cons t ts)
  have eq: "lr_scheduler_insert_task st (t # ts) =
      (if st_next_run_us t \<le> st_next_run_us st then t # lr_scheduler_insert_task st ts else st # t # ts)"
    by (simp add: insert_task_split)
  from Cons have "due_order (lr_scheduler_insert_task st ts)" by (simp add: due_order_def)
  then show ?case using Cons.prems unfolding eq by (auto simp: due_order_def)
qed

text \<open>(C27) Inserting a task keeps the list in due order, adds exactly that task, and puts it behind the tasks that
  are due at the same time (first come, first served).\<close>

theorem insert_task_sorted_fifo:
  assumes "due_order ts"
  shows "due_order (lr_scheduler_insert_task st ts)
    \<and> mset (lr_scheduler_insert_task st ts) = add_mset st (mset ts)
    \<and> filter (\<lambda>t. st_next_run_us t = st_next_run_us st) (lr_scheduler_insert_task st ts) =
       filter (\<lambda>t. st_next_run_us t = st_next_run_us st) ts @ [st]"
proof -
  let ?P = "\<lambda>t. st_next_run_us t \<le> st_next_run_us st" and ?E = "\<lambda>t. st_next_run_us t = st_next_run_us st"
  have split: "takeWhile ?P ts @ dropWhile ?P ts = ts" by simp
  have late: "st_next_run_us st < st_next_run_us t" if "t \<in> set (dropWhile ?P ts)" for t
    using assms that
  proof (induction ts)
    case (Cons u us)
    then show ?case by (cases "?P u") (auto simp: due_order_def)
  qed simp
  then have "filter ?E (dropWhile ?P ts) = []" by (fastforce simp: filter_empty_conv)
  moreover have "filter ?E ts = filter ?E (takeWhile ?P ts) @ filter ?E (dropWhile ?P ts)"
    by (metis filter_append split)
  moreover have "mset ts = mset (takeWhile ?P ts) + mset (dropWhile ?P ts)" by (metis mset_append split)
  ultimately show ?thesis using insert_task_due_order [OF assms] by (simp add: insert_task_split)
qed

theorem insert_task_sorted_fifo_witness:
  "due_order (lr_scheduler_insert_task \<lparr>st_id = 2, st_type = Sched_oneshot, st_task = (), st_priority = 0,
     st_interval_us = 0, st_next_run_us = 5, st_repeat_count = 0, st_run_count = 0, st_cancelled = False\<rparr> [])"
proof -
  have "due_order ([] :: unit sched_task list)" by (simp add: due_order_def)
  from insert_task_sorted_fifo [OF this] show ?thesis by blast
qed

section \<open>One pass over the list\<close>

definition due :: "int \<Rightarrow> 'a sched_task \<Rightarrow> bool" where
  "due now t \<longleftrightarrow> st_next_run_us t \<le> now"

definition again :: "'a sched_task \<Rightarrow> bool" where
  "again t \<longleftrightarrow> st_type t = Sched_repeat \<and> (st_repeat_count t < 0 \<or> st_run_count t + 1 < st_repeat_count t)"

definition rerun :: "int \<Rightarrow> 'a sched_task \<Rightarrow> 'a sched_task" where
  "rerun now t = t\<lparr>st_run_count := st_run_count t + 1, st_next_run_us := now + st_interval_us t\<rparr>"

definition requeue :: "int \<Rightarrow> 'a sched_task list \<Rightarrow> 'a sched_task \<Rightarrow> 'a sched_task list" where
  "requeue now q t = (if again t then lr_scheduler_insert_task (rerun now t) q else q)"

lemma find_node:
  assumes "distinct (map st_id (pre @ t # suf))"
  shows "find (\<lambda>u. st_id u = st_id t) (pre @ t # suf) = Some t" "after (st_id t) (pre @ t # suf) = suf"
  using assms by (induction pre) auto

lemma process_walk:
  assumes "task_list s = pre @ suf" "distinct (map st_id (task_list s))"
    "\<forall>t\<in>set (task_list s). \<not> st_cancelled t \<and> \<not> due now t" "length suf < fuel"
  shows "process_loop fuel now prev (head_id suf) n s = Some (n, s)"
  using assms
proof (induction suf arbitrary: pre prev fuel)
  case Nil
  then show ?case by (cases fuel) (simp_all add: head_id_def)
next
  case (Cons t suf)
  obtain fuel' where f: "fuel = Suc fuel'" "length suf < fuel'" using Cons.prems(4) by (cases fuel) auto
  have nd: "find (\<lambda>u. st_id u = st_id t) (task_list s) = Some t" "after (st_id t) (task_list s) = suf"
    using find_node [of pre t suf] Cons.prems(1,2) by simp_all
  have "\<not> st_cancelled t" "\<not> st_next_run_us t \<le> now" using Cons.prems(1,3) by (auto simp: due_def)
  moreover have "process_loop fuel' now (Some (st_id t)) (head_id suf) n s = Some (n, s)"
    using Cons.prems f by (intro Cons.IH [of "pre @ [t]"]) simp_all
  ultimately show ?case using f nd by (simp add: head_id_def Let_def)
qed

lemma insert_past_due:
  assumes "\<forall>t\<in>set D. due now t" "now < st_next_run_us u"
  shows "lr_scheduler_insert_task u (D @ Q) = D @ lr_scheduler_insert_task u Q"
proof -
  have "\<forall>t\<in>set D. st_next_run_us t \<le> st_next_run_us u" using assms by (auto simp: due_def)
  then show ?thesis unfolding insert_task_split by (simp add: takeWhile_append2 dropWhile_append2)
qed

lemma insert_task_ids: "set (map st_id (lr_scheduler_insert_task u q)) = insert (st_id u) (set (map st_id q))"
  by simp

lemma insert_task_distinct:
  assumes "distinct (map st_id q)" "st_id u \<notin> set (map st_id q)"
  shows "distinct (map st_id (lr_scheduler_insert_task u q))"
proof -
  let ?P = "\<lambda>t. st_next_run_us t \<le> st_next_run_us u"
  have "distinct (map st_id (takeWhile ?P q @ dropWhile ?P q))" using assms(1) by simp
  moreover have "st_id u \<notin> set (map st_id (takeWhile ?P q @ dropWhile ?P q))" using assms(2) by simp
  ultimately show ?thesis unfolding insert_task_split map_append list.map distinct_append
    by (auto simp del: takeWhile_dropWhile_id)
qed

lemma insert_task_around_head:
  "\<exists>pre suf. lr_scheduler_insert_task u q = pre @ suf \<and> (q = [] \<or> head_id suf = head_id q)"
proof (cases q)
  case (Cons h r)
  show ?thesis
  proof (cases "st_next_run_us u < st_next_run_us h")
    case True
    then show ?thesis using Cons
      by (intro exI [of _ "[u]"] exI [of _ q]) (simp add: lr_scheduler_insert_task_def)
  next
    case False
    then show ?thesis using Cons
      by (intro exI [of _ "[]"] exI [of _ "lr_scheduler_insert_task u q"])
         (simp add: lr_scheduler_insert_task_def head_id_def)
  qed
qed (metis append.left_neutral)

lemma requeue_around_head:
  "\<exists>pre suf. requeue now q t = pre @ suf \<and> (q = [] \<or> head_id suf = head_id q)"
  using insert_task_around_head [of "rerun now t" q] by (cases "again t") (auto simp: requeue_def)

definition settled :: "int \<Rightarrow> 'a sched_task list \<Rightarrow> bool" where
  "settled now q \<longleftrightarrow> (\<forall>t\<in>set q. \<not> st_cancelled t \<and> \<not> due now t)"

lemma requeue_settled:
  assumes "settled now q" "\<not> st_cancelled t" "again t \<Longrightarrow> 0 < st_interval_us t"
  shows "settled now (requeue now q t)"
  using assms by (auto simp: settled_def requeue_def rerun_def due_def)

lemma requeue_ids:
  assumes "distinct (map st_id (t # D @ q))"
  shows "distinct (map st_id (D @ requeue now q t))"
proof -
  have "distinct (map st_id (requeue now q t))"
    using assms by (auto simp: requeue_def rerun_def intro!: insert_task_distinct)
  moreover have "st_id ` set (requeue now q t) \<subseteq> insert (st_id t) (st_id ` set q)"
    by (auto simp: requeue_def rerun_def)
  moreover have "st_id ` set D \<inter> insert (st_id t) (st_id ` set q) = {}" "distinct (map st_id D)"
    using assms by auto
  ultimately show ?thesis unfolding map_append distinct_append set_map by blast
qed

lemma length_requeue: "length (requeue now q t) \<le> Suc (length q)"
  by (simp add: requeue_def)

lemma process_run:
  assumes "task_list s = D @ Q" "distinct (map st_id (D @ Q))" "D \<noteq> []"
    "\<forall>t\<in>set D. due now t \<and> \<not> st_cancelled t \<and> (again t \<longrightarrow> 0 < st_interval_us t)" "settled now Q"
    "2 * length D + length Q + 1 \<le> fuel"
  shows "process_loop fuel now None (head_id (D @ Q)) n s =
    Some (n + length D, s\<lparr>task_list := foldl (requeue now) Q D, submitted := submitted s @ map st_task D,
                          tasks_executed := tasks_executed s + int (length D)\<rparr>)"
  using assms
proof (induction D arbitrary: Q fuel n s)
  case (Cons t D)
  obtain fuel' where f: "fuel = Suc fuel'" using Cons.prems(6) by (cases fuel) auto
  let ?Q = "requeue now Q t"
  let ?s = "s\<lparr>submitted := submitted s @ [st_task t], tasks_executed := tasks_executed s + 1, task_list := D @ ?Q\<rparr>"
  have nd: "find (\<lambda>u. st_id u = st_id t) (task_list s) = Some t" "after (st_id t) (task_list s) = D @ Q"
    using find_node [of "[]" t "D @ Q"] Cons.prems(1,2) by simp_all
  have t: "due now t" "\<not> st_cancelled t" "again t \<Longrightarrow> 0 < st_interval_us t" using Cons.prems(4) by auto
  have new: "lr_scheduler_insert_task (rerun now t) (D @ Q) = D @ ?Q" if "again t"
    using that t(3) Cons.prems(4) insert_past_due [of D now "rerun now t" Q]
    by (simp add: requeue_def rerun_def)
  have step: "process_loop fuel now None (head_id ((t # D) @ Q)) n s =
      process_loop fuel' now None (head_id (D @ Q)) (n + 1) ?s"
    using nd t f new
    by (auto simp: head_id_def Let_def unlink_def due_def again_def rerun_def requeue_def)
  have ids: "distinct (map st_id (D @ ?Q))" using requeue_ids [of t D Q] Cons.prems(2) by simp
  have se: "settled now ?Q" using requeue_settled [OF Cons.prems(5) t(2,3)] .
  show ?case
  proof (cases "D = []")
    case False
    then have "head_id (D @ Q) = head_id (D @ ?Q)" by (cases D) (simp_all add: head_id_def)
    moreover have "2 * length D + length ?Q + 1 \<le> fuel'"
      using Cons.prems(6) f length_requeue [of now Q t] by simp
    ultimately show ?thesis
      using Cons.IH [of ?s ?Q fuel' "n + 1"] False ids se Cons.prems(4) unfolding step by simp
  next
    case True
    have len: "length ?Q < fuel'" using Cons.prems(6) f length_requeue [of now Q t] True by simp
    have walk: "process_loop fuel' now None (head_id Q) (n + 1) ?s = Some (n + 1, ?s)"
    proof (cases "Q = []")
      case True
      with len show ?thesis by (cases fuel') (simp_all add: head_id_def)
    next
      case Q: False
      obtain pre suf where ps: "?Q = pre @ suf" "head_id suf = head_id Q"
        using requeue_around_head [of now Q t] Q by blast
      have "process_loop fuel' now None (head_id suf) (n + 1) ?s = Some (n + 1, ?s)"
        using ps(1) ids se len True by (intro process_walk [of _ pre]) (auto simp: settled_def)
      with ps(2) show ?thesis by simp
    qed
    show ?thesis unfolding step using True walk by simp
  qed
qed simp

lemma late_not_due: "due_order ts \<Longrightarrow> t \<in> set (dropWhile (due now) ts) \<Longrightarrow> \<not> due now t"
proof (induction ts)
  case (Cons u us)
  then show ?case by (cases "due now u") (auto simp: due_order_def due_def)
qed simp

text \<open>(C26) On a sorted list without cancelled tasks, whose due repeating tasks have a positive interval, one pass
  returns, hands exactly the due tasks to the pool in due order and once each, drops the finished ones and
  re-queues the others at \<open>now + interval\<close>; tasks that are not due stay.\<close>

theorem process_runs_due_tasks:
  assumes "due_order (task_list s)" "distinct (map st_id (task_list s))"
    "\<forall>t\<in>set (task_list s). \<not> st_cancelled t \<and> (again t \<longrightarrow> 0 < st_interval_us t)"
    "2 * length (task_list s) + 1 \<le> fuel"
  shows "\<exists>s'. lr_scheduler_process fuel now s = Some (length (filter (due now) (task_list s)), s')
    \<and> submitted s' = submitted s @ map st_task (filter (due now) (task_list s))
    \<and> task_list s' = foldl (requeue now) (filter (\<lambda>t. \<not> due now t) (task_list s)) (filter (due now) (task_list s))
    \<and> due_order (task_list s')"
proof -
  let ?D = "takeWhile (due now) (task_list s)" and ?R = "dropWhile (due now) (task_list s)"
  have late: "\<not> due now t" if "t \<in> set ?R" for t by (rule late_not_due [OF assms(1) that])
  have D: "\<forall>t\<in>set ?D. due now t" by (auto dest: set_takeWhileD)
  have sp: "task_list s = ?D @ ?R" by simp
  have fD: "filter (due now) (task_list s) = ?D"
    using D late by (subst sp, subst filter_append) (simp add: filter_empty_conv del: takeWhile_dropWhile_id)
  have fR: "filter (\<lambda>t. \<not> due now t) (task_list s) = ?R"
    using D late by (subst sp, subst filter_append) (simp add: filter_empty_conv del: takeWhile_dropWhile_id)
  have oR: "due_order ?R" using assms(1) by (simp add: due_order_def sorted_wrt_dropWhile)
  have ord: "due_order (foldl (requeue now) q D)" if "due_order q" for q and D :: "'a sched_task list"
    using that by (induction D arbitrary: q) (simp_all add: requeue_def insert_task_due_order)
  have se: "settled now ?R" using late assms(3) set_dropWhileD by (auto simp: settled_def dest: set_dropWhileD)
  show ?thesis
  proof (cases "?D = []")
    case True
    then have R: "?R = task_list s" by (simp add: takeWhile_eq_Nil_iff dropWhile_eq_self_iff)
    have "lr_scheduler_process fuel now s = Some (0, s)"
      unfolding lr_scheduler_process_def
      using process_walk [of s "[]" "task_list s" now fuel None 0] assms se R by (simp add: settled_def)
    then show ?thesis using fD fR assms(1) unfolding True R by simp
  next
    case False
    have len: "2 * length ?D + length ?R + 1 \<le> fuel"
      using assms(4) length_append [of ?D ?R] unfolding takeWhile_dropWhile_id by linarith
    have "distinct (map st_id (?D @ ?R))" using assms(2) by simp
    moreover have "\<forall>t\<in>set ?D. due now t \<and> \<not> st_cancelled t \<and> (again t \<longrightarrow> 0 < st_interval_us t)"
      using D assms(3) by (auto dest: set_takeWhileD)
    ultimately have "process_loop fuel now None (head_id (?D @ ?R)) 0 s =
      Some (0 + length ?D, s\<lparr>task_list := foldl (requeue now) ?R ?D, submitted := submitted s @ map st_task ?D,
                          tasks_executed := tasks_executed s + int (length ?D)\<rparr>)"
      using se len False by (intro process_run) simp_all
    then show ?thesis using fD fR ord [OF oR] by (simp add: lr_scheduler_process_def)
  qed
qed

theorem process_runs_due_tasks_witness:
  "\<exists>s'. lr_scheduler_process 3 10 (snd (lr_scheduler_schedule_now True 7 lr_scheduler_create ''job'' 0)) = Some (1, s')
    \<and> submitted s' = [''job''] \<and> task_list s' = []"
proof -
  let ?s = "snd (lr_scheduler_schedule_now True 7 lr_scheduler_create ''job'' 0)"
  have tl: "task_list ?s = [\<lparr>st_id = 1, st_type = Sched_oneshot, st_task = ''job'', st_priority = 0, st_interval_us = 0,
      st_next_run_us = 7, st_repeat_count = 0, st_run_count = 0, st_cancelled = False\<rparr>]" "submitted ?s = []"
    by (simp_all add: lr_scheduler_schedule_now_def lr_scheduler_schedule_delayed_def lr_scheduler_create_def
        lr_scheduler_insert_task_def Let_def)
  have "due_order (task_list ?s)" "distinct (map st_id (task_list ?s))"
    "\<forall>t\<in>set (task_list ?s). \<not> st_cancelled t \<and> (again t \<longrightarrow> 0 < st_interval_us t)"
    "2 * length (task_list ?s) + 1 \<le> 3"
    by (simp_all add: tl due_order_def again_def)
  from process_runs_due_tasks [OF this, of 10] show ?thesis by (auto simp: tl due_def requeue_def again_def)
qed

section \<open>Cancellation\<close>

definition live_tasks :: "'a scheduler \<Rightarrow> 'a set" where
  "live_tasks s = st_task ` {t \<in> set (task_list s). \<not> st_cancelled t}"

lemma after_subset: "set (after i ts) \<subseteq> set ts"
  by (induction ts) auto

lemma upto_subset: "set (upto_node i ts) \<subseteq> set ts"
  by (induction ts) auto

lemma unlink_subset: "set (unlink prev i ts) \<subseteq> set ts"
  using after_subset [of i ts] by (auto simp: unlink_def dest: subsetD [OF upto_subset] split: option.splits)

lemma find_in: "find P ts = Some t \<Longrightarrow> t \<in> set ts \<and> P t"
  by (auto simp: find_Some_iff)

lemma process_loop_live:
  "process_loop fuel now prev cur n s = Some (m, s') \<Longrightarrow>
    \<exists>xs. submitted s' = submitted s @ xs \<and> set xs \<subseteq> live_tasks s"
proof (induction fuel arbitrary: prev cur n s)
  case (Suc fuel)
  show ?case
  proof (cases "case cur of None \<Rightarrow> None | Some i \<Rightarrow> find (\<lambda>t. st_id t = i) (task_list s)")
    case None
    then have "s' = s" using Suc.prems by (auto split: option.splits)
    then show ?thesis by simp
  next
    case (Some st)
    then obtain i where i: "cur = Some i" "find (\<lambda>t. st_id t = i) (task_list s) = Some st" by (auto split: option.splits)
    then have st: "st \<in> set (task_list s)" by (blast dest: find_in)
    let ?rest = "unlink prev i (task_list s)"
    have sub: "set ?rest \<subseteq> set (task_list s)" by (rule unlink_subset)
    have IH: "\<exists>xs. submitted s' = submitted s1 @ xs \<and> set xs \<subseteq> live_tasks s"
      if "process_loop fuel now prev1 cur1 n1 s1 = Some (m, s')" "live_tasks s1 \<subseteq> live_tasks s" for prev1 cur1 n1 s1
      using Suc.IH [OF that(1)] that(2) by blast
    have rest: "live_tasks (s\<lparr>task_list := ?rest, tasks_dropped := d\<rparr>) \<subseteq> live_tasks s"
      "live_tasks (s\<lparr>task_list := ?rest, submitted := q, tasks_executed := e\<rparr>) \<subseteq> live_tasks s" for d q e
      using sub by (auto simp: live_tasks_def)
    have ins: "live_tasks (s\<lparr>task_list := lr_scheduler_insert_task u ?rest, submitted := q, tasks_executed := e\<rparr>) \<subseteq> live_tasks s"
      if "\<not> st_cancelled st" "st_task u = st_task st" for u q e
      using sub st that by (auto simp: live_tasks_def)
    consider (cancelled) "st_cancelled st" | (run) "\<not> st_cancelled st" "st_next_run_us st \<le> now"
      | (wait) "\<not> st_cancelled st" "\<not> st_next_run_us st \<le> now" by blast
    then show ?thesis
    proof cases
      case cancelled
      with Suc.prems i IH rest(1) show ?thesis by (fastforce simp: Let_def)
    next
      case wait
      with Suc.prems i IH [of "Some i"] show ?thesis by (auto simp: Let_def)
    next
      case run
      have live: "st_task st \<in> live_tasks s" using run st by (auto simp: live_tasks_def)
      have "\<exists>s1 cur1. process_loop fuel now prev cur1 (n + 1) s1 = Some (m, s') \<and> live_tasks s1 \<subseteq> live_tasks s
          \<and> submitted s1 = submitted s @ [st_task st]"
      proof (cases "again st")
        case True
        let ?s1 = "s\<lparr>submitted := submitted s @ [st_task st], tasks_executed := tasks_executed s + 1,
          task_list := lr_scheduler_insert_task (rerun now st) ?rest\<rparr>"
        have "process_loop fuel now prev (head_id (after i (task_list s))) (n + 1) ?s1 = Some (m, s')"
          using Suc.prems i run True by (simp add: Let_def again_def rerun_def)
        moreover have "live_tasks ?s1 \<subseteq> live_tasks s"
          using ins [OF run(1), of "rerun now st"] by (simp add: rerun_def live_tasks_def)
        ultimately show ?thesis by fastforce
      next
        case False
        let ?s1 = "s\<lparr>submitted := submitted s @ [st_task st], tasks_executed := tasks_executed s + 1, task_list := ?rest\<rparr>"
        have "process_loop fuel now prev (head_id (after i (task_list s))) (n + 1) ?s1 = Some (m, s')"
          using Suc.prems i run False by (auto simp: Let_def again_def)
        moreover have "live_tasks ?s1 \<subseteq> live_tasks s" using rest(2) by (simp add: live_tasks_def)
        ultimately show ?thesis by fastforce
      qed
      then show ?thesis using IH live by fastforce
    qed
  qed
qed simp

text \<open>A cancelled task is never handed to the pool: everything a pass submits belongs to a task of the list that
  is not cancelled.\<close>

theorem process_skips_cancelled:
  assumes "lr_scheduler_process fuel now s = Some (n, s')"
  shows "\<exists>xs. submitted s' = submitted s @ xs \<and> set xs \<subseteq> st_task ` {t \<in> set (task_list s). \<not> st_cancelled t}"
  using process_loop_live [OF assms [unfolded lr_scheduler_process_def]] by (simp add: live_tasks_def)

theorem process_skips_cancelled_witness:
  "\<exists>s'. lr_scheduler_process 5 10 (snd (lr_scheduler_cancel
      (snd (lr_scheduler_schedule_now True 7 lr_scheduler_create ''job'' 0)) 1)) = Some (0, s') \<and> submitted s' = []"
proof -
  let ?s = "snd (lr_scheduler_cancel (snd (lr_scheduler_schedule_now True 7 lr_scheduler_create ''job'' 0)) 1)"
  have "case lr_scheduler_process 5 10 ?s of Some (n, s') \<Rightarrow> n = 0 | None \<Rightarrow> False" by code_simp
  then obtain s' where r: "lr_scheduler_process 5 10 ?s = Some (0, s')" by (auto split: option.splits)
  have "\<forall>t\<in>set (task_list ?s). st_cancelled t" "submitted ?s = []" by code_simp+
  moreover obtain xs where "submitted s' = submitted ?s @ xs"
      "set xs \<subseteq> st_task ` {t \<in> set (task_list ?s). \<not> st_cancelled t}"
    using process_skips_cancelled [OF r] by blast
  ultimately have "set (submitted s') \<subseteq> {}" by fastforce
  then have "submitted s' = []" by simp
  with r show ?thesis by blast
qed

section \<open>Defects of the traversal\<close>

text \<open>A repeating task is lost when a cancelled task follows it: the re-queued task becomes the head while
  \<open>prev\<close> is still null, and unlinking the cancelled task overwrites the head.\<close>

theorem repeating_task_lost:
  "(case lr_scheduler_process 10 0
      (snd (lr_scheduler_cancel
         (snd (lr_scheduler_schedule_delayed True 0
            (snd (lr_scheduler_schedule True 0 lr_scheduler_create ''tick'' 0 1000 (-1))) ''late'' 0 1000000)) 2)) of
      Some (n, s') \<Rightarrow> n = 1 \<and> submitted s' = [''tick''] \<and> task_list s' = []
    | None \<Rightarrow> False)"
  by code_simp

lemma process_two_forever:
  assumes "task_list s = [a, b]" "st_id a \<noteq> st_id b"
    "\<forall>t\<in>{a, b}. \<not> st_cancelled t \<and> st_type t = Sched_repeat \<and> st_repeat_count t < 0 \<and> st_interval_us t = 0 \<and> st_next_run_us t \<le> now"
  shows "process_loop fuel now None (Some (st_id a)) n s = None"
  using assms
proof (induction fuel arbitrary: a b n s)
  case (Suc fuel)
  let ?a = "a\<lparr>st_run_count := st_run_count a + 1, st_next_run_us := now\<rparr>"
  let ?s = "s\<lparr>submitted := submitted s @ [st_task a], tasks_executed := tasks_executed s + 1, task_list := [b, ?a]\<rparr>"
  have "process_loop (Suc fuel) now None (Some (st_id a)) n s = process_loop fuel now None (Some (st_id b)) (n + 1) ?s"
    using Suc.prems by (simp add: Let_def unlink_def head_id_def lr_scheduler_insert_task_def)
  also have "\<dots> = None" using Suc.prems by (intro Suc.IH [of _ b ?a]) auto
  finally show ?case .
qed simp

text \<open>Two repeating tasks with interval 0 keep re-queueing themselves behind each other: one pass (which holds
  the mutex) never returns, whatever the number of turns.\<close>

theorem process_zero_interval_diverges:
  assumes "task_list s = [a, b]" "st_id a \<noteq> st_id b"
    "\<forall>t\<in>{a, b}. \<not> st_cancelled t \<and> st_type t = Sched_repeat \<and> st_repeat_count t < 0 \<and> st_interval_us t = 0 \<and> st_next_run_us t \<le> now"
  shows "lr_scheduler_process fuel now s = None"
  using process_two_forever [OF assms] assms(1) by (simp add: lr_scheduler_process_def head_id_def)

theorem process_zero_interval_diverges_witness:
  "lr_scheduler_process 1000 5 (snd (lr_scheduler_schedule True 0
     (snd (lr_scheduler_schedule True 0 lr_scheduler_create ''a'' 0 0 (-1))) ''b'' 0 0 (-1))) = None"
proof -
  let ?t = "\<lambda>i x. \<lparr>st_id = i, st_type = Sched_repeat, st_task = x, st_priority = 0, st_interval_us = 0,
    st_next_run_us = 0, st_repeat_count = -1, st_run_count = 0, st_cancelled = False\<rparr>"
  show ?thesis
    by (rule process_zero_interval_diverges [of _ "?t 1 ''a''" "?t 2 ''b''"])
       (simp_all add: lr_scheduler_schedule_def lr_scheduler_create_def lr_scheduler_insert_task_def Let_def)
qed

text \<open>The wait of \<open>lr_scheduler_run\<close> ends at \<open>now + wait\<close> with normalised nanoseconds; the one of
  \<open>lr_scheduler_run_for\<close> is a duration where an absolute time is expected, so it lies in the past whenever the
  wait is shorter than the time since the epoch of the clock, and the loop spins instead of sleeping.\<close>

theorem wait_deadlines:
  assumes "0 \<le> now" "0 < wait_us"
  shows "(case run_deadline now wait_us of (sec, nsec) \<Rightarrow>
      sec * 1000000000 + nsec = (now + wait_us) * 1000 \<and> 0 \<le> nsec \<and> nsec < 1000000000)
    \<and> (wait_us < now \<longrightarrow> (case run_for_deadline wait_us of (sec, nsec) \<Rightarrow> sec * 1000000000 + nsec < now * 1000))"
proof
  define a where "a = now div 1000000"
  define b where "b = now mod 1000000"
  define c where "c = wait_us div 1000000"
  define d where "d = wait_us mod 1000000"
  have n: "now = a * 1000000 + b" and w: "wait_us = c * 1000000 + d"
    by (simp_all add: a_def b_def c_def d_def)
  have m: "0 \<le> b" "b < 1000000" "0 \<le> d" "d < 1000000"
    by (simp_all add: b_def d_def)
  show "case run_deadline now wait_us of (sec, nsec) \<Rightarrow>
      sec * 1000000000 + nsec = (now + wait_us) * 1000 \<and> 0 \<le> nsec \<and> nsec < 1000000000"
    unfolding run_deadline_def Let_def a_def [symmetric] b_def [symmetric] c_def [symmetric] d_def [symmetric]
    by (cases "b * 1000 + d * 1000 \<ge> 1000000000") (use n w m in \<open>simp_all\<close>)
  show "wait_us < now \<longrightarrow> (case run_for_deadline wait_us of (sec, nsec) \<Rightarrow> sec * 1000000000 + nsec < now * 1000)"
    unfolding run_for_deadline_def c_def [symmetric] d_def [symmetric] using w by simp
qed

theorem wait_deadlines_witness: "run_deadline 1999999 2 = (2, 1000) \<and> (case run_for_deadline 2 of (sec, nsec) \<Rightarrow> sec * 1000000000 + nsec < 1999999 * 1000)"
  using wait_deadlines [of 1999999 2] by (simp add: run_deadline_def)

end
