(* ===== verification/LR_Float.thy ===== *)
theory LR_Float
  imports LR_Value
begin

unbundle bit_operations_syntax

text \<open>
  The \<open>double\<close> arithmetic of the C sources on 64-bit patterns: IEEE 754 binary64 with rounding to nearest, ties to
  even. A finite number is a sign, a mantissa and an exponent, \<open>\<plusminus>m \<sqdot> 2\<^sup>e\<close>; every operation computes exactly on these
  and rounds once. A NaN result is the quiet NaN \<open>F64_NAN\<close>.
\<close>

section \<open>Decoding and rounding\<close>

datatype f64_dec = F_nan | F_inf bool | F_fin bool int int

definition f64_sign :: "u64 \<Rightarrow> bool" where
  "f64_sign d \<longleftrightarrow> uint d \<ge> 2 ^ 63"

definition f64_mag :: "u64 \<Rightarrow> int" where
  "f64_mag d = uint d mod 2 ^ 63"

definition f64_decode :: "u64 \<Rightarrow> f64_dec" where
  "f64_decode d =
     (let s = f64_sign d; e = f64_mag d div 2 ^ 52; m = f64_mag d mod 2 ^ 52 in
      if e = 2047 then (if m = 0 then F_inf s else F_nan)
      else if e = 0 then F_fin s m (- 1074)
      else F_fin s (m + 2 ^ 52) (e - 1075))"

definition f64_pack :: "bool \<Rightarrow> int \<Rightarrow> u64" where
  "f64_pack s mag = word_of_int (mag + (if s then 2 ^ 63 else 0))"

definition F64_NAN :: u64 where
  "F64_NAN = f64_pack False (2047 * 2 ^ 52 + 2 ^ 51)"

definition f64_infinity :: "bool \<Rightarrow> u64" where
  "f64_infinity s = f64_pack s (2047 * 2 ^ 52)"

function bit_len :: "int \<Rightarrow> int" where
  "bit_len m = (if m \<le> 0 then 0 else 1 + bit_len (m div 2))"
  by auto

termination
  by (relation "measure nat") auto

declare bit_len.simps [simp del]

definition round_half_even :: "int \<Rightarrow> nat \<Rightarrow> int" where
  "round_half_even m k =
     (let q = m div 2 ^ k; r = m mod 2 ^ k in
      if 2 * r > 2 ^ k \<or> (2 * r = 2 ^ k \<and> odd q) then q + 1 else q)"

text \<open>The double nearest to \<open>\<plusminus>m \<sqdot> 2\<^sup>e\<close>: shift to 53 bits (fewer for subnormals), round, and let a carry of the mantissa
  run into the exponent field.\<close>

definition f64_mag_of :: "int \<Rightarrow> int \<Rightarrow> int" where
  "f64_mag_of m e =
     (if m = 0 then 0
      else let sh = max (bit_len m - 53) (- 1074 - e);
               q = (if sh \<le> 0 then m * 2 ^ nat (- sh) else round_half_even m (nat sh))
           in min ((e + sh + 1074) * 2 ^ 52 + q) (2047 * 2 ^ 52))"

definition f64_encode :: "bool \<Rightarrow> int \<Rightarrow> int \<Rightarrow> u64" where
  "f64_encode s m e = f64_pack s (f64_mag_of m e)"

section \<open>Operations\<close>

definition f64_of_int :: "int \<Rightarrow> u64" where
  "f64_of_int i = f64_encode (i < 0) \<bar>i\<bar> 0"

definition signed_mant :: "bool \<Rightarrow> int \<Rightarrow> int" where
  "signed_mant s m = (if s then - m else m)"

definition f64_neg :: "u64 \<Rightarrow> u64" where
  "f64_neg d = f64_pack (\<not> f64_sign d) (f64_mag d)"

text \<open>An exact zero sum is \<open>+0\<close> unless both operands are negative.\<close>

definition f64_add :: "u64 \<Rightarrow> u64 \<Rightarrow> u64" where
  "f64_add a b =
     (case (f64_decode a, f64_decode b) of
        (F_nan, _) \<Rightarrow> F64_NAN
      | (_, F_nan) \<Rightarrow> F64_NAN
      | (F_inf s, F_inf t) \<Rightarrow> if s = t then f64_infinity s else F64_NAN
      | (F_inf s, F_fin _ _ _) \<Rightarrow> f64_infinity s
      | (F_fin _ _ _, F_inf t) \<Rightarrow> f64_infinity t
      | (F_fin s m e, F_fin t n f) \<Rightarrow>
          let g = min e f; v = signed_mant s m * 2 ^ nat (e - g) + signed_mant t n * 2 ^ nat (f - g) in
          if v = 0 then f64_pack (s \<and> t) 0 else f64_encode (v < 0) \<bar>v\<bar> g)"

definition f64_sub :: "u64 \<Rightarrow> u64 \<Rightarrow> u64" where
  "f64_sub a b = f64_add a (f64_neg b)"

definition f64_mul :: "u64 \<Rightarrow> u64 \<Rightarrow> u64" where
  "f64_mul a b =
     (case (f64_decode a, f64_decode b) of
        (F_nan, _) \<Rightarrow> F64_NAN
      | (_, F_nan) \<Rightarrow> F64_NAN
      | (F_inf s, F_inf t) \<Rightarrow> f64_infinity (s \<noteq> t)
      | (F_inf s, F_fin t n f) \<Rightarrow> if n = 0 then F64_NAN else f64_infinity (s \<noteq> t)
      | (F_fin s m e, F_inf t) \<Rightarrow> if m = 0 then F64_NAN else f64_infinity (s \<noteq> t)
      | (F_fin s m e, F_fin t n f) \<Rightarrow> f64_encode (s \<noteq> t) (m * n) (e + f))"

text \<open>The quotient is computed to 110 binary places with a sticky last bit, far beyond the 53 that are kept.\<close>

definition f64_div :: "u64 \<Rightarrow> u64 \<Rightarrow> u64" where
  "f64_div a b =
     (case (f64_decode a, f64_decode b) of
        (F_nan, _) \<Rightarrow> F64_NAN
      | (_, F_nan) \<Rightarrow> F64_NAN
      | (F_inf s, F_inf t) \<Rightarrow> F64_NAN
      | (F_inf s, F_fin t n f) \<Rightarrow> f64_infinity (s \<noteq> t)
      | (F_fin s m e, F_inf t) \<Rightarrow> f64_pack (s \<noteq> t) 0
      | (F_fin s m e, F_fin t n f) \<Rightarrow>
          if n = 0 then (if m = 0 then F64_NAN else f64_infinity (s \<noteq> t))
          else let q = m * 2 ^ 110 div n; r = m * 2 ^ 110 mod n in
               f64_encode (s \<noteq> t) (2 * q + (if r = 0 then 0 else 1)) (e - f - 111))"

text \<open>\<open>fmod\<close> of the C library: the exact remainder with the sign of the dividend.\<close>

definition f64_mod :: "u64 \<Rightarrow> u64 \<Rightarrow> u64" where
  "f64_mod a b =
     (case (f64_decode a, f64_decode b) of
        (F_nan, _) \<Rightarrow> F64_NAN
      | (_, F_nan) \<Rightarrow> F64_NAN
      | (F_inf s, _) \<Rightarrow> F64_NAN
      | (F_fin s m e, F_inf t) \<Rightarrow> a
      | (F_fin s m e, F_fin t n f) \<Rightarrow>
          if n = 0 then F64_NAN
          else let g = min e f in
               f64_encode s (m * 2 ^ nat (e - g) mod (n * 2 ^ nat (f - g))) g)"

definition f64_key :: "u64 \<Rightarrow> int" where
  "f64_key d = signed_mant (f64_sign d) (f64_mag d)"

definition f64_lt :: "u64 \<Rightarrow> u64 \<Rightarrow> bool" where
  "f64_lt a b \<longleftrightarrow> \<not> f64_isnan a \<and> \<not> f64_isnan b \<and> f64_key a < f64_key b"

definition f64_le :: "u64 \<Rightarrow> u64 \<Rightarrow> bool" where
  "f64_le a b \<longleftrightarrow> \<not> f64_isnan a \<and> \<not> f64_isnan b \<and> f64_key a \<le> f64_key b"

definition f64_isinf :: "u64 \<Rightarrow> bool" where
  "f64_isinf d \<longleftrightarrow> f64_mag d = 2047 * 2 ^ 52"

text \<open>A cast to an integer type truncates; out of range (undefined in C) it is the minimum, as the x86-64 instruction gives.\<close>

definition f64_trunc :: "u64 \<Rightarrow> int option" where
  "f64_trunc d =
     (case f64_decode d of
        F_fin s m e \<Rightarrow> Some (signed_mant s (if e \<ge> 0 then m * 2 ^ nat e else m div 2 ^ nat (- e)))
      | _ \<Rightarrow> None)"

definition f64_cast :: "nat \<Rightarrow> u64 \<Rightarrow> int" where
  "f64_cast w d =
     (case f64_trunc d of
        None \<Rightarrow> - (2 ^ (w - 1))
      | Some i \<Rightarrow> if i < - (2 ^ (w - 1)) \<or> i \<ge> 2 ^ (w - 1) then - (2 ^ (w - 1)) else i)"

section \<open>Shifting the mantissa\<close>

lemma bit_len_nonpos [simp]: "m \<le> 0 \<Longrightarrow> bit_len m = 0"
  by (subst bit_len.simps) simp

lemma bit_len_pos: "0 < m \<Longrightarrow> bit_len m = 1 + bit_len (m div 2)"
  by (subst bit_len.simps) simp

lemma bit_len_bounds:
  assumes "0 < m"
  shows "1 \<le> bit_len m \<and> 2 ^ nat (bit_len m - 1) \<le> m \<and> m < 2 ^ nat (bit_len m)"
  using assms
proof (induction m rule: bit_len.induct)
  case (1 m)
  show ?case
  proof (cases "m = 1")
    case True
    then have "bit_len m = 1" by (simp add: bit_len_pos)
    then show ?thesis using True by simp
  next
    case False
    then have IH: "1 \<le> bit_len (m div 2)" "2 ^ nat (bit_len (m div 2) - 1) \<le> m div 2" "m div 2 < 2 ^ nat (bit_len (m div 2))"
      using 1 by auto
    obtain b where b0: "bit_len (m div 2) = 1 + int b" using IH(1) by (metis zle_iff_zadd)
    then have b1: "bit_len m = 2 + int b" using 1 by (simp add: bit_len_pos [of m])
    have n: "nat (bit_len (m div 2) - 1) = b" "nat (bit_len (m div 2)) = Suc b" "nat (bit_len m - 1) = Suc b"
        "nat (bit_len m) = Suc (Suc b)" unfolding b0 b1 by simp_all
    have "2 ^ Suc b \<le> m" "m < 2 ^ Suc (Suc b)" using IH(2,3) unfolding n power_Suc by linarith+
    then show ?thesis using b1 unfolding n by simp
  qed
qed

lemma bit_len_nonneg [simp]: "0 \<le> bit_len m"
  using bit_len_bounds [of m] by (cases "0 < m") auto

lemma bit_len_scale: "0 < m \<Longrightarrow> bit_len (m * 2 ^ k) = bit_len m + int k"
proof (induction k)
  case (Suc k)
  have "m * 2 ^ Suc k div 2 = m * 2 ^ k" by simp
  moreover have "0 < m * 2 ^ Suc k" using Suc.prems by simp
  ultimately have "bit_len (m * 2 ^ Suc k) = 1 + bit_len (m * 2 ^ k)" by (simp only: bit_len_pos)
  then show ?case using Suc by simp
qed simp

lemma bit_len_le: "0 < m \<Longrightarrow> m < 2 ^ k \<Longrightarrow> bit_len m \<le> int k"
proof (rule ccontr)
  assume a: "0 < m" "m < 2 ^ k" "\<not> bit_len m \<le> int k"
  then have "k \<le> nat (bit_len m - 1)" by linarith
  then have "(2::int) ^ k \<le> 2 ^ nat (bit_len m - 1)" by (simp add: power_increasing)
  then show False using bit_len_bounds [OF a(1)] a(2) by linarith
qed

lemma round_half_even_exact: "round_half_even (q * 2 ^ k) k = q"
  by (simp add: round_half_even_def)

lemma round_half_even_scale: "0 < k \<Longrightarrow> round_half_even (m * 2 ^ j) (k + j) = round_half_even m k"
proof -
  have "m * 2 ^ j div 2 ^ (k + j) = m div 2 ^ k" by (simp add: power_add)
  moreover have "m * 2 ^ j mod 2 ^ (k + j) = (m mod 2 ^ k) * 2 ^ j" 
    unfolding power_add by (simp add: mult_mod_left)
  moreover have "(2::int) * ((m mod 2 ^ k) * 2 ^ j) > 2 ^ (k + j) \<longleftrightarrow> 2 * (m mod 2 ^ k) > 2 ^ k"
    using mult_less_cancel_right_pos [of "2 ^ j :: int" "2 ^ k" "2 * (m mod 2 ^ k)"] by (simp add: power_add mult.assoc)
  moreover have "(2::int) * ((m mod 2 ^ k) * 2 ^ j) = 2 ^ (k + j) \<longleftrightarrow> 2 * (m mod 2 ^ k) = 2 ^ k"
    using mult_cancel_right [of "2 * (m mod 2 ^ k)" "2 ^ j :: int" "2 ^ k"] by (simp add: power_add mult.assoc)
  ultimately show ?thesis by (simp only: round_half_even_def Let_def)
qed

lemma f64_mag_of_scale:
  assumes "0 \<le> m"
  shows "f64_mag_of (m * 2 ^ j) (e - int j) = f64_mag_of m e"
proof (cases "m = 0")
  case False
  define sh where "sh = max (bit_len m - 53) (- 1074 - e)"
  have sh: "max (bit_len (m * 2 ^ j) - 53) (- 1074 - (e - int j)) = sh + int j"
    using False assms by (simp add: sh_def bit_len_scale max_def)
  have "(if sh + int j \<le> 0 then m * 2 ^ j * 2 ^ nat (- (sh + int j)) else round_half_even (m * 2 ^ j) (nat (sh + int j)))
      = (if sh \<le> 0 then m * 2 ^ nat (- sh) else round_half_even m (nat sh))"
  proof (cases "sh + int j \<le> 0")
    case True
    then have "nat (- sh) = j + nat (- (sh + int j))" by linarith
    then show ?thesis using True by (simp add: power_add mult.assoc)
  next
    case pos: False
    show ?thesis
    proof (cases "sh \<le> 0")
      case True
      then have j: "j = nat (- sh) + nat (sh + int j)" using pos by linarith
      have "m * 2 ^ j = (m * 2 ^ nat (- sh)) * 2 ^ nat (sh + int j)" by (subst j) (simp add: power_add mult.assoc)
      then have "round_half_even (m * 2 ^ j) (nat (sh + int j)) = m * 2 ^ nat (- sh)"
        by (simp only: round_half_even_exact)
      then show ?thesis using True pos by simp
    next
      case False
      then have "nat (sh + int j) = nat sh + j" "0 < nat sh" by linarith+
      then show ?thesis using False pos by (simp add: round_half_even_scale)
    qed
  qed
  moreover have "e - int j + (sh + int j) + 1074 = e + sh + 1074" by simp
  moreover have "m * 2 ^ j \<noteq> 0" using False by simp
  ultimately show ?thesis using False unfolding f64_mag_of_def Let_def sh sh_def [symmetric] by presburger
qed (simp add: f64_mag_of_def)

section \<open>Integers are exact\<close>

lemma f64_pack_fields:
  assumes "0 \<le> mag" "mag < 2 ^ 63"
  shows "f64_sign (f64_pack s mag) = s" "f64_mag (f64_pack s mag) = mag"
proof -
  define v where "v = mag + (if s then 2 ^ 63 else 0)"
  have "0 \<le> v" "v < 2 ^ 64" using assms by (simp_all add: v_def)
  then have "uint (word_of_int v :: u64) = v" by (simp add: unsigned_of_int take_bit_int_eq_self)
  then have "uint (f64_pack s mag) = mag + (if s then 2 ^ 63 else 0)" by (simp only: f64_pack_def v_def)
  then show "f64_sign (f64_pack s mag) = s" "f64_mag (f64_pack s mag) = mag"
    using assms by (simp_all add: f64_sign_def f64_mag_def)
qed

lemma f64_mag_of_int:
  assumes "0 < m" "m < 2 ^ 53"
  obtains k where "bit_len m = 53 - int k" "f64_mag_of m 0 = (1074 - int k) * 2 ^ 52 + m * 2 ^ k"
    "2 ^ 52 \<le> m * 2 ^ k" "m * 2 ^ k < 2 ^ 53" "k \<le> 52"
proof -
  define k where "k = nat (53 - bit_len m)"
  have bl: "1 \<le> bit_len m" "bit_len m \<le> 53" using bit_len_bounds [OF assms(1)] bit_len_le [OF assms] by auto
  then have k: "bit_len m = 53 - int k" "k \<le> 52" by (simp_all add: k_def)
  have n: "nat (bit_len m - 1) + k = 52" "nat (bit_len m) + k = 53" using bl by (simp_all add: k_def nat_diff_distrib)
  have b: "2 ^ nat (bit_len m - 1) \<le> m" "m < 2 ^ nat (bit_len m)" using bit_len_bounds [OF assms(1)] by auto
  have lo: "2 ^ 52 \<le> m * 2 ^ k"
    using mult_right_mono [OF b(1), of "2 ^ k"] unfolding power_add [symmetric] n by simp
  have hi: "m * 2 ^ k < 2 ^ 53"
    using mult_strict_right_mono [OF b(2), of "2 ^ k"] unfolding power_add [symmetric] n by simp
  have "max (bit_len m - 53) (- 1074 - 0) = - int k" using k by simp
  then have "f64_mag_of m 0 = min ((1074 - int k) * 2 ^ 52 + m * 2 ^ k) (2047 * 2 ^ 52)"
    using assms(1) k(2) by (simp add: f64_mag_of_def Let_def)
  moreover have "(1074 - int k) * 2 ^ 52 + m * 2 ^ k \<le> 2047 * 2 ^ 52" using hi by simp
  ultimately show thesis using that k lo hi by simp
qed

lemma f64_mag_of_range: "0 \<le> m \<Longrightarrow> m < 2 ^ 53 \<Longrightarrow> 0 \<le> f64_mag_of m 0 \<and> f64_mag_of m 0 < 2047 * 2 ^ 52"
proof (cases "m = 0")
  case False
  assume m: "0 \<le> m" "m < 2 ^ 53"
  then obtain k where "f64_mag_of m 0 = (1074 - int k) * 2 ^ 52 + m * 2 ^ k" "m * 2 ^ k < 2 ^ 53" "k \<le> 52"
    using False f64_mag_of_int [of m] by (metis order_le_less)
  then show ?thesis using m by simp
qed (simp add: f64_mag_of_def)

lemma f64_of_int_fields:
  assumes "\<bar>i\<bar> < 2 ^ 53"
  shows "f64_sign (f64_of_int i) = (i < 0)" "f64_mag (f64_of_int i) = f64_mag_of \<bar>i\<bar> 0"
  using f64_mag_of_range [of "\<bar>i\<bar>"] assms
  by (simp_all add: f64_of_int_def f64_encode_def f64_pack_fields)

lemma f64_of_int_decode:
  assumes "\<bar>i\<bar> < 2 ^ 53"
  obtains k where "f64_decode (f64_of_int i) = F_fin (i < 0) (\<bar>i\<bar> * 2 ^ k) (- int k)"
proof (cases "i = 0")
  case True
  have "f64_decode (f64_of_int 0) = F_fin False 0 (- int 1074)"
    using f64_of_int_fields [of 0] by (simp add: f64_decode_def f64_mag_of_def)
  then show thesis using that [of 1074] True by simp
next
  case False
  have i: "0 < \<bar>i\<bar>" using False by simp
  from i assms show thesis
  proof (rule f64_mag_of_int)
    fix k assume k: "f64_mag_of \<bar>i\<bar> 0 = (1074 - int k) * 2 ^ 52 + \<bar>i\<bar> * 2 ^ k" "2 ^ 52 \<le> \<bar>i\<bar> * 2 ^ k"
      "\<bar>i\<bar> * 2 ^ k < 2 ^ 53" "k \<le> 52"
    define q where "q = \<bar>i\<bar> * 2 ^ k - 2 ^ 52"
    have q: "0 \<le> q" "q < 2 ^ 52" "\<bar>i\<bar> * 2 ^ k = q + 2 ^ 52" using k by (simp_all add: q_def)
    have mag: "f64_mag (f64_of_int i) = (1075 - int k) * 2 ^ 52 + q"
      using f64_of_int_fields(2) [OF assms] k(1) q(3) by simp
    have "f64_mag (f64_of_int i) div 2 ^ 52 = 1075 - int k" "f64_mag (f64_of_int i) mod 2 ^ 52 = q"
      unfolding mag using div_mult_self3 [of "2 ^ 52 :: int" "1075 - int k" q] mod_mult_self3 [of "1075 - int k" "2 ^ 52 :: int" q] q
      by (simp_all del: div_mult_self3 mod_mult_self3)
    then have "f64_decode (f64_of_int i) = F_fin (i < 0) (q + 2 ^ 52) (- int k)"
      using k(4) f64_of_int_fields(1) [OF assms] unfolding f64_decode_def Let_def by simp
    then show thesis using that q(3) by simp
  qed
qed

lemma f64_encode_int: "0 \<le> m \<Longrightarrow> f64_encode s (m * 2 ^ k) (- int k) = f64_encode s m 0"
  using f64_mag_of_scale [of m k 0] by (simp add: f64_encode_def)

lemma signed_mant_abs [simp]: "signed_mant (i < 0) \<bar>i\<bar> = i"
  by (simp add: signed_mant_def)

lemma f64_add_exact:
  assumes a: "f64_decode a = F_fin s (m * 2 ^ k) (- int k)" and b: "f64_decode b = F_fin t (n * 2 ^ l) (- int l)"
    and z: "signed_mant s m + signed_mant t n = 0 \<Longrightarrow> \<not> (s \<and> t)"
  shows "f64_add a b = f64_of_int (signed_mant s m + signed_mant t n)"
proof -
  define h where "h = max k l"
  define v where "v = signed_mant s m + signed_mant t n"
  have g: "min (- int k) (- int l) = - int h" by (simp add: h_def)
  have e: "nat (- int k - - int h) = h - k" "nat (- int l - - int h) = h - l" "k \<le> h" "l \<le> h" by (simp_all add: h_def)
  have "signed_mant s (m * 2 ^ k) * 2 ^ (h - k) + signed_mant t (n * 2 ^ l) * 2 ^ (h - l) = v * 2 ^ h"
    using e(3,4) by (simp add: v_def signed_mant_def algebra_simps flip: power_add)
  then have sum: "f64_add a b = (if v * 2 ^ h = 0 then f64_pack (s \<and> t) 0
      else f64_encode (v * 2 ^ h < 0) \<bar>v * 2 ^ h\<bar> (- int h))"
    by (simp only: f64_add_def a b prod.case f64_dec.case Let_def g e(1,2))
  show ?thesis
  proof (cases "v = 0")
    case True
    then show ?thesis using sum z by (simp add: v_def f64_of_int_def f64_encode_def f64_mag_of_def)
  next
    case False
    have "\<bar>v * 2 ^ h\<bar> = \<bar>v\<bar> * 2 ^ h" "v * 2 ^ h < 0 \<longleftrightarrow> v < 0" by (simp_all add: abs_mult mult_less_0_iff)
    then show ?thesis using sum False f64_encode_int [of "\<bar>v\<bar>" "v < 0" h] by (simp add: v_def f64_of_int_def)
  qed
qed

lemma f64_add_int: "\<bar>x\<bar> < 2 ^ 53 \<Longrightarrow> \<bar>y\<bar> < 2 ^ 53 \<Longrightarrow> f64_add (f64_of_int x) (f64_of_int y) = f64_of_int (x + y)"
proof -
  assume "\<bar>x\<bar> < 2 ^ 53" "\<bar>y\<bar> < 2 ^ 53"
  then obtain k l where "f64_decode (f64_of_int x) = F_fin (x < 0) (\<bar>x\<bar> * 2 ^ k) (- int k)"
      "f64_decode (f64_of_int y) = F_fin (y < 0) (\<bar>y\<bar> * 2 ^ l) (- int l)"
    by (metis f64_of_int_decode)
  from f64_add_exact [OF this] show ?thesis by simp
qed

lemma f64_neg_fields: "f64_sign (f64_neg d) \<longleftrightarrow> \<not> f64_sign d" "f64_mag (f64_neg d) = f64_mag d"
proof -
  have "0 \<le> f64_mag d" "f64_mag d < 2 ^ 63" by (simp_all add: f64_mag_def)
  then show "f64_sign (f64_neg d) \<longleftrightarrow> \<not> f64_sign d" "f64_mag (f64_neg d) = f64_mag d"
    by (simp_all add: f64_neg_def f64_pack_fields)
qed

lemma f64_neg_decode: "f64_decode d = F_fin s m e \<Longrightarrow> f64_decode (f64_neg d) = F_fin (\<not> s) m e"
  by (auto simp: f64_decode_def f64_neg_fields Let_def split: if_splits)

lemma f64_sub_int: "\<bar>x\<bar> < 2 ^ 53 \<Longrightarrow> \<bar>y\<bar> < 2 ^ 53 \<Longrightarrow> f64_sub (f64_of_int x) (f64_of_int y) = f64_of_int (x - y)"
proof -
  assume "\<bar>x\<bar> < 2 ^ 53" "\<bar>y\<bar> < 2 ^ 53"
  then obtain k l where x: "f64_decode (f64_of_int x) = F_fin (x < 0) (\<bar>x\<bar> * 2 ^ k) (- int k)"
      and y: "f64_decode (f64_neg (f64_of_int y)) = F_fin (\<not> y < 0) (\<bar>y\<bar> * 2 ^ l) (- int l)"
    by (metis f64_of_int_decode f64_neg_decode)
  have s: "signed_mant (\<not> y < 0) \<bar>y\<bar> = - y" by (simp add: signed_mant_def)
  show ?thesis using f64_add_exact [OF x y] by (simp add: s f64_sub_def)
qed

lemma f64_mul_int:
  assumes "\<bar>x\<bar> < 2 ^ 53" "\<bar>y\<bar> < 2 ^ 53"
  shows "f64_mul (f64_of_int x) (f64_of_int y) =
    (if x * y = 0 then f64_pack ((x < 0) \<noteq> (y < 0)) 0 else f64_of_int (x * y))"
proof -
  obtain k l where x: "f64_decode (f64_of_int x) = F_fin (x < 0) (\<bar>x\<bar> * 2 ^ k) (- int k)"
      and y: "f64_decode (f64_of_int y) = F_fin (y < 0) (\<bar>y\<bar> * 2 ^ l) (- int l)"
    using assms by (metis f64_of_int_decode)
  have e: "- int k + - int l = - int (k + l)" and m: "\<bar>x\<bar> * 2 ^ k * (\<bar>y\<bar> * 2 ^ l) = \<bar>x * y\<bar> * 2 ^ (k + l)"
    by (simp_all add: abs_mult power_add algebra_simps)
  have p: "f64_mul (f64_of_int x) (f64_of_int y) = f64_encode ((x < 0) \<noteq> (y < 0)) \<bar>x * y\<bar> 0"
    by (simp only: f64_mul_def x y prod.case f64_dec.case e m f64_encode_int [OF abs_ge_zero])
  have "x * y \<noteq> 0 \<Longrightarrow> ((x < 0) \<noteq> (y < 0)) = (x * y < 0)" by (auto simp: mult_less_0_iff)
  then show ?thesis using p by (auto simp: f64_of_int_def f64_encode_def f64_mag_of_def)
qed

lemma f64_trunc_int: "\<bar>i\<bar> < 2 ^ 53 \<Longrightarrow> f64_trunc (f64_of_int i) = Some i"
proof -
  assume "\<bar>i\<bar> < 2 ^ 53"
  then obtain k where k: "f64_decode (f64_of_int i) = F_fin (i < 0) (\<bar>i\<bar> * 2 ^ k) (- int k)"
    by (metis f64_of_int_decode)
  show ?thesis by (cases "k = 0") (simp_all add: f64_trunc_def k)
qed

lemma f64_cast_int: "- (2 ^ 31) \<le> i \<Longrightarrow> i < 2 ^ 31 \<Longrightarrow> f64_cast 32 (f64_of_int i) = i"
  by (simp add: f64_cast_def f64_trunc_int)

section \<open>Comparison of integers\<close>

lemma f64_abs_bits_mag: "uint (f64_abs_bits d) = f64_mag d"
proof -
  have m: "(0x7FFFFFFFFFFFFFFF :: u64) = mask 63" by (simp add: mask_eq_exp_minus_1)
  show ?thesis
    unfolding f64_abs_bits_def m f64_mag_def 
    by (simp only: take_bit_eq_mask [symmetric] unsigned_take_bit_eq) (simp add: take_bit_eq_mod)
qed

lemma f64_isnan_mag: "f64_isnan d \<longleftrightarrow> f64_mag d > 2047 * 2 ^ 52"
  by (simp add: f64_isnan_def word_less_def f64_abs_bits_mag)

lemma f64_abs_bits_zero: "f64_abs_bits d = 0 \<longleftrightarrow> f64_mag d = 0"
  by (simp add: word_uint_eq_iff f64_abs_bits_mag)

lemma f64_of_int_not_nan [simp]: "\<bar>i\<bar> < 2 ^ 53 \<Longrightarrow> \<not> f64_isnan (f64_of_int i)"
  using f64_mag_of_range [of "\<bar>i\<bar>"] by (simp add: f64_isnan_mag f64_of_int_fields)

lemma f64_mag_of_mono:
  assumes "0 \<le> m" "m < n" "n < 2 ^ 53"
  shows "f64_mag_of m 0 < f64_mag_of n 0"
proof -
  obtain l where n: "bit_len n = 53 - int l" "f64_mag_of n 0 = (1074 - int l) * 2 ^ 52 + n * 2 ^ l" "2 ^ 52 \<le> n * 2 ^ l" "l \<le> 52"
    using f64_mag_of_int [of n] assms by (metis order_le_less_trans)
  show ?thesis
  proof (cases "m = 0")
    case True
    then show ?thesis using n by (simp add: f64_mag_of_def [of 0])
  next
    case False
    then obtain k where m: "bit_len m = 53 - int k" "f64_mag_of m 0 = (1074 - int k) * 2 ^ 52 + m * 2 ^ k" "m * 2 ^ k < 2 ^ 53"
      using f64_mag_of_int [of m] assms by (metis order_le_less order.strict_trans)
    have "bit_len m \<le> bit_len n"
      using bit_len_bounds [of n] bit_len_le [of m "nat (bit_len n)"] assms False by auto
    then consider "k = l" | "l + 1 \<le> k" using m(1) n(1) by linarith
    then show ?thesis
    proof cases
      case 1
      then show ?thesis using m n assms(2) by simp
    next
      case 2
      then have "(1074 - int k) * 2 ^ 52 + 2 ^ 53 \<le> (1074 - int l) * 2 ^ 52 + (2 ^ 52 :: int)" by simp
      then show ?thesis using m(2,3) n(2,3) by linarith
    qed
  qed
qed

lemma f64_key_int: "\<bar>i\<bar> < 2 ^ 53 \<Longrightarrow> f64_key (f64_of_int i) = signed_mant (i < 0) (f64_mag_of \<bar>i\<bar> 0)"
  by (simp add: f64_key_def f64_of_int_fields)

lemma f64_key_less_int:
  assumes "\<bar>x\<bar> < 2 ^ 53" "\<bar>y\<bar> < 2 ^ 53" "x < y"
  shows "f64_key (f64_of_int x) < f64_key (f64_of_int y)"
proof -
  have pos: "0 < f64_mag_of \<bar>i\<bar> 0" if "\<bar>i\<bar> < 2 ^ 53" "i \<noteq> 0" for i
    using f64_mag_of_mono [of 0 "\<bar>i\<bar>"] that by (simp add: f64_mag_of_def [of 0])
  consider "x < 0" "y < 0" | "x < 0" "0 \<le> y" | "0 \<le> x" "0 \<le> y" using assms(3) by linarith
  then show ?thesis
  proof cases
    case 1
    then show ?thesis using f64_mag_of_mono [of "\<bar>y\<bar>" "\<bar>x\<bar>"] assms by (simp add: f64_key_int signed_mant_def)
  next
    case 2
    then show ?thesis using pos [of x] f64_mag_of_range [of "\<bar>y\<bar>"] assms by (simp add: f64_key_int signed_mant_def)
  next
    case 3
    then show ?thesis using f64_mag_of_mono [of "\<bar>x\<bar>" "\<bar>y\<bar>"] assms by (simp add: f64_key_int signed_mant_def)
  qed
qed

lemma f64_lt_int: "\<bar>x\<bar> < 2 ^ 53 \<Longrightarrow> \<bar>y\<bar> < 2 ^ 53 \<Longrightarrow> f64_lt (f64_of_int x) (f64_of_int y) \<longleftrightarrow> x < y"
  using f64_key_less_int [of x y] f64_key_less_int [of y x] by (cases x y rule: linorder_cases) (auto simp: f64_lt_def)

lemma f64_le_int: "\<bar>x\<bar> < 2 ^ 53 \<Longrightarrow> \<bar>y\<bar> < 2 ^ 53 \<Longrightarrow> f64_le (f64_of_int x) (f64_of_int y) \<longleftrightarrow> x \<le> y"
  using f64_key_less_int [of x y] f64_key_less_int [of y x] by (cases x y rule: linorder_cases) (auto simp: f64_le_def)

lemma f64_eq_int: "\<bar>x\<bar> < 2 ^ 53 \<Longrightarrow> \<bar>y\<bar> < 2 ^ 53 \<Longrightarrow> f64_eq (f64_of_int x) (f64_of_int y) \<longleftrightarrow> x = y"
proof -
  assume b: "\<bar>x\<bar> < 2 ^ 53" "\<bar>y\<bar> < 2 ^ 53"
  have z: "f64_mag (f64_of_int i) = 0 \<longleftrightarrow> i = 0" if "\<bar>i\<bar> < 2 ^ 53" for i
    using f64_mag_of_mono [of 0 "\<bar>i\<bar>"] that by (cases "i = 0") (simp_all add: f64_of_int_fields f64_mag_of_def [of 0])
  have "f64_of_int x = f64_of_int y \<longleftrightarrow> x = y"
    using f64_key_less_int [of x y] f64_key_less_int [of y x] b by (cases x y rule: linorder_cases) auto
  then show ?thesis using b z [OF b(1)] z [OF b(2)] by (auto simp: f64_eq_def f64_abs_bits_zero)
qed

end
