(* ===== verification/LR_Convert.thy ===== *)
theory LR_Convert
  imports LR_Float
begin

text \<open>
  Conversions of values (\<open>lr_to_bool\<close>, \<open>lr_to_int32\<close>, \<open>lr_to_int64\<close>, \<open>lr_to_float64\<close> of \<^verbatim>\<open>src/engine/lr_engine.c\<close>).
  A function that returns -1 is \<open>None\<close>. \<open>strtod\<close> is the C library's: the value it reads and the number of bytes it
  consumes, 0 when there is no number.
\<close>

section \<open>Integers\<close>

definition c_digit :: "byte \<Rightarrow> nat" where
  "c_digit c = (let n = unat c in
     if 48 \<le> n \<and> n \<le> 57 then n - 48 else if 97 \<le> n \<and> n \<le> 122 then n - 87
     else if 65 \<le> n \<and> n \<le> 90 then n - 55 else 36)"

fun c_digits :: "nat \<Rightarrow> bytes \<Rightarrow> int \<Rightarrow> int" where
  "c_digits b [] acc = acc"
| "c_digits b (c # cs) acc = (if c_digit c < b then c_digits b cs (acc * int b + int (c_digit c)) else acc)"

definition c_space :: "byte \<Rightarrow> bool" where
  "c_space c \<longleftrightarrow> c = 32 \<or> (9 \<le> c \<and> c \<le> 13)"

text \<open>\<open>strtoll(s, NULL, 0)\<close>: blanks, a sign, a base prefix, digits, saturation.\<close>

definition strtoll0 :: "bytes \<Rightarrow> int" where
  "strtoll0 s =
     (let s1 = dropWhile c_space (takeWhile (\<lambda>c. c \<noteq> 0) s);
          neg = (s1 \<noteq> [] \<and> hd s1 = 45);
          s2 = (if s1 \<noteq> [] \<and> (hd s1 = 45 \<or> hd s1 = 43) then tl s1 else s1);
          v = (if length s2 \<ge> 3 \<and> s2 ! 0 = 48 \<and> (s2 ! 1 = 120 \<or> s2 ! 1 = 88) \<and> c_digit (s2 ! 2) < 16
               then c_digits 16 (drop 2 s2) 0
               else if s2 \<noteq> [] \<and> hd s2 = 48 then c_digits 8 s2 0 else c_digits 10 s2 0);
          r = (if neg then - v else v)
      in max (- (2 ^ 63)) (min (2 ^ 63 - 1) r))"

text \<open>The result pairs the stored value with success; the default case of the switch fails.\<close>

fun lr_to_int64 :: "lr_value \<Rightarrow> int option" where
  "lr_to_int64 LR_UNDEFINED = Some 0"
| "lr_to_int64 LR_NULL = Some 0"
| "lr_to_int64 (LR_BOOL b) = Some (if b then 1 else 0)"
| "lr_to_int64 (LR_INT32 i) = Some (sint i)"
| "lr_to_int64 (LR_FLOAT64 d) = Some (f64_cast 64 d)"
| "lr_to_int64 (LR_STRING s) = Some (strtoll0 s)"
| "lr_to_int64 _ = None"

fun lr_to_int32 :: "lr_value \<Rightarrow> int option" where
  "lr_to_int32 LR_UNDEFINED = Some 0"
| "lr_to_int32 LR_NULL = Some 0"
| "lr_to_int32 (LR_BOOL b) = Some (if b then 1 else 0)"
| "lr_to_int32 (LR_INT32 i) = Some (sint i)"
| "lr_to_int32 (LR_FLOAT64 d) = Some (f64_cast 32 d)"
| "lr_to_int32 (LR_STRING s) = Some (sint (word_of_int (strtoll0 s) :: u32))"
| "lr_to_int32 _ = None"

section \<open>Truth and numbers\<close>

fun lr_to_bool :: "lr_value \<Rightarrow> bool" where
  "lr_to_bool LR_UNDEFINED = False"
| "lr_to_bool LR_NULL = False"
| "lr_to_bool (LR_BOOL b) = b"
| "lr_to_bool (LR_INT32 i) = (i \<noteq> 0)"
| "lr_to_bool (LR_FLOAT64 d) = (\<not> f64_eq d 0 \<and> \<not> f64_isnan d)"
| "lr_to_bool (LR_STRING s) = (length s > 0)"
| "lr_to_bool (LR_OBJECT _) = True"
| "lr_to_bool (LR_SYMBOL _) = True"
| "lr_to_bool LR_EXCEPTION = False"

definition lr_string_to_float64 :: "(bytes \<Rightarrow> u64 \<times> nat) \<Rightarrow> bytes \<Rightarrow> u64" where
  "lr_string_to_float64 strtod s =
     (let p = dropWhile c_space s in
      if p = [] then 0
      else case strtod p of (d, n) \<Rightarrow>
        if n = 0 then F64_NAN else if dropWhile c_space (drop n p) \<noteq> [] then F64_NAN else d)"

fun lr_to_float64 :: "(bytes \<Rightarrow> u64 \<times> nat) \<Rightarrow> lr_value \<Rightarrow> u64 \<times> bool" where
  "lr_to_float64 strtod LR_UNDEFINED = (F64_NAN, True)"
| "lr_to_float64 strtod LR_NULL = (0, True)"
| "lr_to_float64 strtod (LR_BOOL b) = (if b then f64_of_int 1 else 0, True)"
| "lr_to_float64 strtod (LR_INT32 i) = (f64_of_int (sint i), True)"
| "lr_to_float64 strtod (LR_FLOAT64 d) = (d, True)"
| "lr_to_float64 strtod (LR_STRING s) = (lr_string_to_float64 strtod s, True)"
| "lr_to_float64 strtod _ = (F64_NAN, False)"

end
