(* ===== verification/LR_Timers.thy ===== *)
theory LR_Timers
  imports LR_Convert
begin

unbundle bit_operations_syntax

text \<open>
  Timers (\<^verbatim>\<open>src/lr_timers.c\<close>), the job queue (\<open>lr_enqueue_job\<close>, \<open>lr_execute_pending_job\<close> of
  \<^verbatim>\<open>src/engine/lr_engine.c\<close>) and the event loop (\<^verbatim>\<open>src/lr_runtime.c\<close>).

  The state holds the list of timers (newest first, as \<open>setTimeout\<close> links them), the counters, the
  job queue and a log of the callbacks called. \<open>clock()\<close> is the function \<open>clk\<close> read at increasing
  positions \<open>ticks\<close>, one per call. A JavaScript callback is the list of timer and job operations it performs;
  \<open>call h v\<close> is what calling the value \<open>v\<close> does after the calls \<open>h\<close>, so a callback may behave differently every
  time. The lines that log, report an exception or drop a reference are left out: they change none of this state.
  The id counter is a C \<open>int\<close> that the code never checks: its increment wraps around, and \<open>id_overflow\<close> records that it
  did (formally undefined behaviour). \<open>clears\<close> records every clear with the next id and the number of callbacks fired so
  far. No operation reads \<open>id_overflow\<close>, \<open>fired\<close>, \<open>called\<close> or \<open>clears\<close>.
\<close>

section \<open>State\<close>

record timer_node =
  tm_id :: int
  tm_interval :: bool
  tm_callback :: lr_value
  tm_delay_ms :: int
  tm_start :: int
  tm_next_fire :: int
  tm_cleared :: bool

record evl =
  timer_list :: "timer_node list"
  next_timer_id :: int
  id_overflow :: bool
  has_pending_jobs :: bool
  job_list :: "lr_value list"
  event_loop_running :: bool
  event_loop_stop :: bool
  ticks :: nat
  fired :: "(int \<times> bool) list"
  called :: "lr_value list"
  clears :: "(int \<times> int \<times> nat) list"

definition evl_init :: evl where
  "evl_init = \<lparr>timer_list = [], next_timer_id = 1, id_overflow = False, has_pending_jobs = False, job_list = [],
     event_loop_running = False, event_loop_stop = False, ticks = 0, fired = [], called = [], clears = []\<rparr>"

datatype timer_result = Returns lr_value | TypeError string | Exception

section \<open>Functions of the timer API\<close>

text \<open>\<open>(clock_t)(delay * CLOCKS_PER_SEC / 1000)\<close>, with a million clocks per second and wrap-around of the 64-bit product.\<close>

definition clock_span :: "int \<Rightarrow> int" where
  "clock_span delay = (let p = sint (word_of_int (delay * 1000000) :: u64) in
     if p < 0 then - ((- p) div 1000) else p div 1000)"

text \<open>\<open>next_timer_id++\<close> on a 32-bit \<open>int\<close>.\<close>

definition id_inc :: "int \<Rightarrow> int" where
  "id_inc i = sint (word_of_int (i + 1) :: u32)"

definition lr_set_timeout :: "(lr_value \<Rightarrow> bool) \<Rightarrow> (nat \<Rightarrow> int) \<Rightarrow> lr_value list \<Rightarrow> bool \<Rightarrow> evl \<Rightarrow> timer_result \<times> evl" where
  "lr_set_timeout is_function clk argv interval s =
     (case argv of
        [] \<Rightarrow> (TypeError ''setTimeout requires at least 1 argument'', s)
      | cb # rest \<Rightarrow>
          if \<not> is_function cb \<and> \<not> (case cb of LR_STRING _ \<Rightarrow> True | _ \<Rightarrow> False)
          then (TypeError ''setTimeout: first argument must be a function or string'', s)
          else case (case rest of [] \<Rightarrow> Some 0 | d # _ \<Rightarrow> lr_to_int64 d) of
            None \<Rightarrow> (Exception, s)
          | Some d \<Rightarrow>
              let delay = (if d < 0 then 0 else d); start = clk (ticks s); i = next_timer_id s;
                  node = \<lparr>tm_id = i, tm_interval = interval, tm_callback = cb, tm_delay_ms = delay, tm_start = start,
                    tm_next_fire = start + clock_span delay, tm_cleared = False\<rparr>
              in (Returns (LR_INT32 (word_of_int i)),
                  s\<lparr>ticks := ticks s + 1, next_timer_id := id_inc i, id_overflow := id_overflow s \<or> id_inc i \<noteq> i + 1, timer_list := node # timer_list s, has_pending_jobs := True\<rparr>))"

fun clear_first :: "int \<Rightarrow> timer_node list \<Rightarrow> timer_node list" where
  "clear_first i [] = []"
| "clear_first i (n # ns) = (if tm_id n = i then n\<lparr>tm_cleared := True\<rparr> # ns else n # clear_first i ns)"

definition lr_clear_timer :: "lr_value list \<Rightarrow> evl \<Rightarrow> timer_result \<times> evl" where
  "lr_clear_timer argv s =
     (case argv of
        [] \<Rightarrow> (Returns LR_UNDEFINED, s)
      | a # _ \<Rightarrow> (case lr_to_int32 a of
          None \<Rightarrow> (Exception, s)
        | Some i \<Rightarrow> (Returns LR_UNDEFINED, s\<lparr>timer_list := clear_first i (timer_list s),
            clears := clears s @ [(i, next_timer_id s, length (fired s))]\<rparr>)))"

definition lr_enqueue_job :: "lr_value \<Rightarrow> evl \<Rightarrow> evl" where
  "lr_enqueue_job f s = s\<lparr>job_list := job_list s @ [f]\<rparr>"

definition lr_queueMicrotask :: "(lr_value \<Rightarrow> bool) \<Rightarrow> lr_value list \<Rightarrow> evl \<Rightarrow> timer_result \<times> evl" where
  "lr_queueMicrotask is_function argv s =
     (if argv = [] \<or> \<not> is_function (hd argv)
      then (TypeError ''queueMicrotask: argument must be a function'', s)
      else (Returns LR_UNDEFINED, lr_enqueue_job (hd argv) s))"

section \<open>Calls\<close>

text \<open>What a callback can do to this state: call the functions above, or stop the loop.\<close>

datatype timer_op =
    Op_setTimeout "lr_value list"
  | Op_setInterval "lr_value list"
  | Op_clear "lr_value list"
  | Op_queueMicrotask "lr_value list"
  | Op_stop

type_synonym js_call = "lr_value list \<Rightarrow> lr_value \<Rightarrow> timer_op list"

fun run_op :: "(lr_value \<Rightarrow> bool) \<Rightarrow> (nat \<Rightarrow> int) \<Rightarrow> timer_op \<Rightarrow> evl \<Rightarrow> evl" where
  "run_op isf clk (Op_setTimeout a) s = snd (lr_set_timeout isf clk a False s)"
| "run_op isf clk (Op_setInterval a) s = snd (lr_set_timeout isf clk a True s)"
| "run_op isf clk (Op_clear a) s = snd (lr_clear_timer a s)"
| "run_op isf clk (Op_queueMicrotask a) s = snd (lr_queueMicrotask isf a s)"
| "run_op isf clk Op_stop s = s\<lparr>event_loop_stop := True\<rparr>"

definition js_call_value :: "(lr_value \<Rightarrow> bool) \<Rightarrow> (nat \<Rightarrow> int) \<Rightarrow> js_call \<Rightarrow> lr_value \<Rightarrow> evl \<Rightarrow> evl" where
  "js_call_value isf clk call v s = fold (run_op isf clk) (call (called s) v) (s\<lparr>called := called s @ [v]\<rparr>)"

section \<open>Processing\<close>

text \<open>
  The traversal of \<open>lr_timers_process\<close>. A callback can only link new nodes at the head and mark nodes, so the node at
  distance \<open>k\<close> from the end stays the same node: \<open>k\<close> is the cursor, and the list before it ends with \<open>prev\<close>.
\<close>

fun timers_loop :: "(lr_value \<Rightarrow> bool) \<Rightarrow> (nat \<Rightarrow> int) \<Rightarrow> js_call \<Rightarrow> int \<Rightarrow> nat \<Rightarrow> bool \<Rightarrow> evl \<Rightarrow> bool \<times> evl" where
  "timers_loop isf clk call now 0 has_pending s = (has_pending, s)"
| "timers_loop isf clk call now (Suc k) has_pending s =
     (let j = length (timer_list s) - Suc k; node = timer_list s ! j in
      if tm_cleared node
      then timers_loop isf clk call now k has_pending (s\<lparr>timer_list := take j (timer_list s) @ drop (j + 1) (timer_list s)\<rparr>)
      else if now \<ge> tm_next_fire node
      then let s1 = js_call_value isf clk call (tm_callback node) (s\<lparr>fired := fired s @ [(tm_id node, tm_interval node)]\<rparr>);
               j1 = length (timer_list s1) - Suc k; node1 = timer_list s1 ! j1 in
           if tm_interval node1
           then timers_loop isf clk call now k True
                  (s1\<lparr>timer_list := (timer_list s1)[j1 := node1\<lparr>tm_next_fire := now + clock_span (tm_delay_ms node1)\<rparr>]\<rparr>)
           else timers_loop isf clk call now k False
                  (s1\<lparr>timer_list := (timer_list s1)[j1 := node1\<lparr>tm_cleared := True\<rparr>]\<rparr>)
      else timers_loop isf clk call now k True s)"

definition lr_timers_process :: "(lr_value \<Rightarrow> bool) \<Rightarrow> (nat \<Rightarrow> int) \<Rightarrow> js_call \<Rightarrow> evl \<Rightarrow> evl" where
  "lr_timers_process isf clk call s =
     (let now = clk (ticks s); (hp, s') = timers_loop isf clk call now (length (timer_list s)) False (s\<lparr>ticks := ticks s + 1\<rparr>)
      in s'\<lparr>has_pending_jobs := hp\<rparr>)"

definition lr_timers_cleanup :: "evl \<Rightarrow> evl" where
  "lr_timers_cleanup s = s\<lparr>timer_list := []\<rparr>"

section \<open>Jobs and the event loop\<close>

text \<open>The job leaves the queue before it is called; the function always returns 0.\<close>

definition lr_execute_pending_job :: "(lr_value \<Rightarrow> bool) \<Rightarrow> (nat \<Rightarrow> int) \<Rightarrow> js_call \<Rightarrow> evl \<Rightarrow> evl" where
  "lr_execute_pending_job isf clk call s =
     (case job_list s of [] \<Rightarrow> s | f # fs \<Rightarrow> js_call_value isf clk call f (s\<lparr>job_list := fs\<rparr>))"

fun drain_jobs :: "nat \<Rightarrow> (lr_value \<Rightarrow> bool) \<Rightarrow> (nat \<Rightarrow> int) \<Rightarrow> js_call \<Rightarrow> bool \<Rightarrow> evl \<Rightarrow> (bool \<times> evl) option" where
  "drain_jobs 0 isf clk call has_jobs s = (if job_list s = [] then Some (has_jobs, s) else None)"
| "drain_jobs (Suc fuel) isf clk call has_jobs s =
     (if job_list s = [] then Some (has_jobs, s)
      else drain_jobs fuel isf clk call True (lr_execute_pending_job isf clk call s))"

text \<open>
  \<open>lr_event_loop_run\<close>. \<open>poll\<close> stands for \<open>lr_worker_poll\<close>: the number of live workers and the state after their messages
  were delivered. Clock readings do not decrease. The second drain loop of the source is the same queue again, already empty after the first.
\<close>

fun event_loop_turns :: "nat \<Rightarrow> (evl \<Rightarrow> nat \<times> evl) \<Rightarrow> (lr_value \<Rightarrow> bool) \<Rightarrow> (nat \<Rightarrow> int) \<Rightarrow> js_call \<Rightarrow> evl \<Rightarrow> evl option" where
  "event_loop_turns 0 poll isf clk call s = None"
| "event_loop_turns (Suc fuel) poll isf clk call s =
     (if \<not> (event_loop_running s \<and> \<not> event_loop_stop s) then Some s
      else case drain_jobs fuel isf clk call False s of None \<Rightarrow> None
      | Some (has_jobs1, s1) \<Rightarrow> (case drain_jobs fuel isf clk call has_jobs1 s1 of None \<Rightarrow> None
      | Some (has_jobs, s2) \<Rightarrow>
          let (workers_alive, s4) = poll (lr_timers_process isf clk call s2) in
          if \<not> has_jobs \<and> \<not> has_pending_jobs s4 \<and> workers_alive = 0 then Some s4
          else if job_list s4 = [] \<and> \<not> has_pending_jobs s4 \<and> workers_alive = 0 then Some s4
          else event_loop_turns fuel poll isf clk call s4))"

definition lr_event_loop_run :: "nat \<Rightarrow> (evl \<Rightarrow> nat \<times> evl) \<Rightarrow> (lr_value \<Rightarrow> bool) \<Rightarrow> (nat \<Rightarrow> int) \<Rightarrow> js_call \<Rightarrow> evl \<Rightarrow> evl option" where
  "lr_event_loop_run fuel poll isf clk call s =
     map_option (\<lambda>s'. s'\<lparr>event_loop_stop := False\<rparr>)
       (event_loop_turns fuel poll isf clk call (s\<lparr>event_loop_running := True\<rparr>))"

fun event_loop_timeout_turns :: "nat \<Rightarrow> int \<Rightarrow> int \<Rightarrow> (evl \<Rightarrow> nat \<times> evl) \<Rightarrow> (lr_value \<Rightarrow> bool) \<Rightarrow> (nat \<Rightarrow> int) \<Rightarrow> js_call \<Rightarrow> evl \<Rightarrow> evl option" where
  "event_loop_timeout_turns 0 start timeout_ms poll isf clk call s = None"
| "event_loop_timeout_turns (Suc fuel) start timeout_ms poll isf clk call s =
     (if \<not> (event_loop_running s \<and> \<not> event_loop_stop s) then Some s
      else case drain_jobs fuel isf clk call False s of None \<Rightarrow> None
      | Some (_, s1) \<Rightarrow>
          let (workers_alive, s2) = poll (lr_timers_process isf clk call s1);
              elapsed_ms = sint (word_of_int ((clk (ticks s2) - start) * 1000 div 1000000) :: u32);
              s3 = s2\<lparr>ticks := ticks s2 + 1\<rparr> in
          if elapsed_ms \<ge> timeout_ms then Some s3
          else if job_list s3 = [] \<and> \<not> has_pending_jobs s3 \<and> workers_alive = 0 then Some s3
          else event_loop_timeout_turns fuel start timeout_ms poll isf clk call s3)"

definition lr_event_loop_run_timeout :: "nat \<Rightarrow> int \<Rightarrow> (evl \<Rightarrow> nat \<times> evl) \<Rightarrow> (lr_value \<Rightarrow> bool) \<Rightarrow> (nat \<Rightarrow> int) \<Rightarrow> js_call \<Rightarrow> evl \<Rightarrow> evl option" where
  "lr_event_loop_run_timeout fuel timeout_ms poll isf clk call s =
     map_option (\<lambda>s'. s'\<lparr>event_loop_stop := False\<rparr>)
       (event_loop_timeout_turns fuel (clk (ticks s)) timeout_ms poll isf clk call
          (s\<lparr>event_loop_running := True, ticks := ticks s + 1\<rparr>))"

definition lr_event_loop_pending :: "evl \<Rightarrow> bool" where
  "lr_event_loop_pending s \<longleftrightarrow> job_list s \<noteq> [] \<or> has_pending_jobs s"

definition lr_event_loop_stop :: "evl \<Rightarrow> evl" where
  "lr_event_loop_stop s = s\<lparr>event_loop_stop := True\<rparr>"

section \<open>What a callback can do to the list\<close>

text \<open>Nodes keep their place and their data; a mark is never taken back.\<close>

definition ages :: "timer_node \<Rightarrow> timer_node \<Rightarrow> bool" where
  "ages a b \<longleftrightarrow> b = a \<or> b = a\<lparr>tm_cleared := True\<rparr>"

lemma ages_refl [simp]: "ages a a" by (simp add: ages_def)

lemma ages_trans: "ages a b \<Longrightarrow> ages b c \<Longrightarrow> ages a c" by (auto simp: ages_def)

lemma ages_fields: "ages a b \<Longrightarrow> tm_id b = tm_id a \<and> tm_interval b = tm_interval a \<and> tm_callback b = tm_callback a
    \<and> tm_delay_ms b = tm_delay_ms a \<and> tm_next_fire b = tm_next_fire a \<and> (tm_cleared a \<longrightarrow> tm_cleared b)"
  by (auto simp: ages_def)

definition ids_grow :: "evl \<Rightarrow> evl \<Rightarrow> bool" where
  "ids_grow s s' \<longleftrightarrow> fired s' = fired s \<and> next_timer_id s \<le> next_timer_id s' \<and>
     (\<exists>new old. timer_list s' = new @ old \<and> list_all2 ages (timer_list s) old \<and> distinct (map tm_id new)
        \<and> (\<forall>n\<in>set new. next_timer_id s \<le> tm_id n \<and> tm_id n < next_timer_id s'))"

lemma clear_first_ages: "list_all2 ages ns (clear_first i ns)"
  by (induction ns) (auto simp: ages_def list_all2_refl)

lemma ids_grow_old: "fired s' = fired s \<Longrightarrow> next_timer_id s' = next_timer_id s \<Longrightarrow>
    list_all2 ages (timer_list s) (timer_list s') \<Longrightarrow> ids_grow s s'"
  unfolding ids_grow_def by (intro conjI exI [of _ "[]"] exI [of _ "timer_list s'"]) simp_all

lemma ids_grow_new: "fired s' = fired s \<Longrightarrow> next_timer_id s' = next_timer_id s + 1 \<Longrightarrow>
    timer_list s' = n # timer_list s \<Longrightarrow> tm_id n = next_timer_id s \<Longrightarrow> ids_grow s s'"
  unfolding ids_grow_def by (intro conjI exI [of _ "[n]"] exI [of _ "timer_list s"]) (simp_all add: list_all2_refl)

lemma ages_list_trans: "list_all2 ages a b \<Longrightarrow> list_all2 ages b c \<Longrightarrow> list_all2 ages a c"
  by (rule list_all2_trans [of ages ages ages]) (auto intro: ages_trans)

lemma ages_ids: "list_all2 ages a b \<Longrightarrow> map tm_id b = map tm_id a"
  by (induction rule: list_all2_induct) (auto dest: ages_fields)

lemma ids_grow_trans:
  assumes "ids_grow s t" "ids_grow t u"
  shows "ids_grow s u"
proof -
  obtain n1 o1 where 1: "timer_list t = n1 @ o1" "list_all2 ages (timer_list s) o1" "distinct (map tm_id n1)"
      "\<forall>n\<in>set n1. next_timer_id s \<le> tm_id n \<and> tm_id n < next_timer_id t"
    using assms(1) by (auto simp: ids_grow_def)
  obtain n2 o2 where 2: "timer_list u = n2 @ o2" "list_all2 ages (timer_list t) o2" "distinct (map tm_id n2)"
      "\<forall>n\<in>set n2. next_timer_id t \<le> tm_id n \<and> tm_id n < next_timer_id u"
    using assms(2) by (auto simp: ids_grow_def)
  obtain o21 o22 where o: "o2 = o21 @ o22" "list_all2 ages n1 o21" "list_all2 ages o1 o22"
    using 2(2) unfolding 1(1) list_all2_append1 by auto
  have ids: "map tm_id o21 = map tm_id n1" using o(2) by (rule ages_ids)
  have le: "next_timer_id s \<le> next_timer_id t" "next_timer_id t \<le> next_timer_id u"
    using assms by (auto simp: ids_grow_def)
  have b21: "\<forall>i\<in>set (map tm_id o21). next_timer_id s \<le> i \<and> i < next_timer_id t"
    unfolding ids using 1(4) by auto
  have "distinct (map tm_id (n2 @ o21))"
    using 1(3) 2(3,4) b21 unfolding map_append distinct_append ids by fastforce
  moreover have "\<forall>n\<in>set (n2 @ o21). next_timer_id s \<le> tm_id n \<and> tm_id n < next_timer_id u"
    using 2(4) b21 le by fastforce
  ultimately show ?thesis
    using assms 2(1) o(1) ages_list_trans [OF 1(2) o(3)] le unfolding ids_grow_def
    by (intro conjI exI [of _ "n2 @ o21"] exI [of _ o22]) simp_all
qed

text \<open>The list keeps its shape in any case; the ids behave as long as their counter has not overflowed.\<close>

definition grows :: "evl \<Rightarrow> evl \<Rightarrow> bool" where
  "grows s s' \<longleftrightarrow> (\<exists>new old. timer_list s' = new @ old \<and> list_all2 ages (timer_list s) old)
     \<and> (id_overflow s \<longrightarrow> id_overflow s') \<and> (\<not> id_overflow s' \<longrightarrow> ids_grow s s')"

lemma grows_old: "fired s' = fired s \<Longrightarrow> next_timer_id s' = next_timer_id s \<Longrightarrow> id_overflow s' = id_overflow s \<Longrightarrow>
    list_all2 ages (timer_list s) (timer_list s') \<Longrightarrow> grows s s'"
  unfolding grows_def by (metis append_Nil ids_grow_old)

lemma grows_new: "fired s' = fired s \<Longrightarrow> id_overflow s' = (id_overflow s \<or> next_timer_id s' \<noteq> next_timer_id s + 1) \<Longrightarrow>
    timer_list s' = n # timer_list s \<Longrightarrow> tm_id n = next_timer_id s \<Longrightarrow> grows s s'"
  unfolding grows_def by (intro conjI exI [of _ "[n]"] exI [of _ "timer_list s"])
    (auto simp: list_all2_refl intro: ids_grow_new)

lemma grows_refl [simp]: "grows s s"
  by (rule grows_old) (simp_all add: list_all2_refl)

lemma grows_trans:
  assumes "grows s t" "grows t u"
  shows "grows s u"
proof -
  obtain n1 o1 n2 o2 where 1: "timer_list t = n1 @ o1" "list_all2 ages (timer_list s) o1"
      and 2: "timer_list u = n2 @ o2" "list_all2 ages (timer_list t) o2"
    using assms unfolding grows_def by blast
  obtain o21 o22 where o: "o2 = o21 @ o22" "list_all2 ages o1 o22"
    using 2(2) unfolding 1(1) list_all2_append1 by auto
  have "timer_list u = (n2 @ o21) @ o22" "list_all2 ages (timer_list s) o22"
    using 2(1) o(1) ages_list_trans [OF 1(2) o(2)] by simp_all
  then show ?thesis
    using assms ids_grow_trans unfolding grows_def by blast
qed

lemma grows_ids: "grows s s' \<Longrightarrow> \<not> id_overflow s' \<Longrightarrow> \<not> id_overflow s \<and> ids_grow s s'"
  by (auto simp: grows_def)

lemma set_timeout_grows: "grows s (snd (lr_set_timeout isf clk a b s))"
  by (auto simp: lr_set_timeout_def Let_def intro!: grows_new split: list.split option.split)

lemma run_op_grows: "grows s (run_op isf clk x s)"
proof (cases x)
  case (Op_clear a)
  then show ?thesis
    by (auto simp: lr_clear_timer_def intro!: grows_old clear_first_ages split: list.split option.split)
next
  case (Op_queueMicrotask a)
  then show ?thesis
    by (auto simp: lr_queueMicrotask_def lr_enqueue_job_def list_all2_refl intro!: grows_old)
qed (auto simp: list_all2_refl set_timeout_grows intro!: grows_old)

lemma fold_run_op_grows: "grows s (fold (run_op isf clk) ops s)"
  by (induction ops arbitrary: s) (auto intro: grows_trans run_op_grows)

lemma js_call_value_grows: "grows s (js_call_value isf clk call v s)"
  unfolding js_call_value_def
  by (rule grows_trans [OF _ fold_run_op_grows]) (auto simp: list_all2_refl intro!: grows_old)

section \<open>Induction over a pass\<close>

lemma grows_at:
  assumes "grows s s'" "k < length (timer_list s)" "j = length (timer_list s) - Suc k" "j' = length (timer_list s') - Suc k"
  shows "j' < length (timer_list s')" "ages (timer_list s ! j) (timer_list s' ! j')"
    "k \<le> length (timer_list s')"
proof -
  obtain new old where n: "timer_list s' = new @ old" "list_all2 ages (timer_list s) old"
    using assms(1) by (auto simp: grows_def)
  have l: "length old = length (timer_list s)" using n(2) by (simp add: list_all2_lengthD)
  have j: "j' = length new + j" using assms l n(1) by simp
  show "j' < length (timer_list s')" "k \<le> length (timer_list s')" using assms j l n(1) by simp_all
  show "ages (timer_list s ! j) (timer_list s' ! j')"
    using n assms j l by (simp add: nth_append list_all2_nthD)
qed

text \<open>The change the loop makes to a node after its callback returned.\<close>

definition after_fire :: "int \<Rightarrow> timer_node \<Rightarrow> timer_node" where
  "after_fire now n = (if tm_interval n then n\<lparr>tm_next_fire := now + clock_span (tm_delay_ms n)\<rparr> else n\<lparr>tm_cleared := True\<rparr>)"

definition log_fire :: "timer_node \<Rightarrow> evl \<Rightarrow> evl" where
  "log_fire n s = s\<lparr>fired := fired s @ [(tm_id n, tm_interval n)]\<rparr>"

lemma log_fire_simps [simp]: "timer_list (log_fire n s) = timer_list s" "next_timer_id (log_fire n s) = next_timer_id s"
    "id_overflow (log_fire n s) = id_overflow s" "clears (log_fire n s) = clears s"
    "fired (log_fire n s) = fired s @ [(tm_id n, tm_interval n)]" "called (log_fire n s) = called s"
  by (simp_all add: log_fire_def)

lemma timers_loop_fire:
  assumes "\<not> tm_cleared (timer_list s ! (length (timer_list s) - Suc k))"
    "tm_next_fire (timer_list s ! (length (timer_list s) - Suc k)) \<le> now"
    "node = timer_list s ! (length (timer_list s) - Suc k)" "s1 = js_call_value isf clk call (tm_callback node) (log_fire node s)"
    "j1 = length (timer_list s1) - Suc k"
  shows "timers_loop isf clk call now (Suc k) hp s = timers_loop isf clk call now k (tm_interval (timer_list s1 ! j1))
    (s1\<lparr>timer_list := (timer_list s1)[j1 := after_fire now (timer_list s1 ! j1)]\<rparr>)"
  using assms by (simp add: Let_def log_fire_def after_fire_def)

lemma timers_loop_inv:
  assumes "P s" "k \<le> length (timer_list s)"
    and drop: "\<And>s j. P s \<Longrightarrow> j < length (timer_list s) \<Longrightarrow>
      P (s\<lparr>timer_list := take j (timer_list s) @ drop (j + 1) (timer_list s)\<rparr>)"
    and fire: "\<And>s j s1 j1. P s \<Longrightarrow> j < length (timer_list s) \<Longrightarrow> \<not> tm_cleared (timer_list s ! j) \<Longrightarrow>
      s1 = js_call_value isf clk call (tm_callback (timer_list s ! j)) (log_fire (timer_list s ! j) s) \<Longrightarrow> j1 < length (timer_list s1) \<Longrightarrow> ages (timer_list s ! j) (timer_list s1 ! j1) \<Longrightarrow>
      P (s1\<lparr>timer_list := (timer_list s1)[j1 := after_fire now (timer_list s1 ! j1)]\<rparr>)"
  shows "P (snd (timers_loop isf clk call now k hp s))"
  using assms(1,2)
proof (induction k arbitrary: s hp)
  case (Suc k)
  define j where "j = length (timer_list s) - Suc k"
  define node where "node = timer_list s ! j"
  have j: "j < length (timer_list s)" using Suc.prems(2) by (simp add: j_def)
  consider (gone) "tm_cleared node" | (due) "\<not> tm_cleared node" "tm_next_fire node \<le> now"
    | (later) "\<not> tm_cleared node" "\<not> tm_next_fire node \<le> now" by blast
  then show ?case
  proof cases
    case gone
    let ?s = "s\<lparr>timer_list := take j (timer_list s) @ drop (j + 1) (timer_list s)\<rparr>"
    have "timers_loop isf clk call now (Suc k) hp s = timers_loop isf clk call now k hp ?s"
      using gone by (simp add: node_def j_def Let_def)
    moreover have "k \<le> length (timer_list ?s)" using Suc.prems(2) by (simp add: j_def)
    ultimately show ?thesis using Suc.IH [of ?s hp] drop [OF Suc.prems(1) j] by simp
  next
    case later
    then show ?thesis using Suc.IH [of s True] Suc.prems by (simp add: node_def j_def Let_def)
  next
    case due
    define s1 where "s1 = js_call_value isf clk call (tm_callback node) (log_fire node s)"
    define j1 where "j1 = length (timer_list s1) - Suc k"
    have g: "grows (log_fire node s) s1" by (simp add: s1_def js_call_value_grows)
    note at = grows_at [OF g, of k j j1] 
    have at: "j1 < length (timer_list s1)" "ages node (timer_list s1 ! j1)" "k \<le> length (timer_list s1)"
      using at Suc.prems(2) by (simp_all add: j_def j1_def node_def)
    let ?s = "s1\<lparr>timer_list := (timer_list s1)[j1 := after_fire now (timer_list s1 ! j1)]\<rparr>"
    have "timers_loop isf clk call now (Suc k) hp s = timers_loop isf clk call now k (tm_interval (timer_list s1 ! j1)) ?s"
      by (rule timers_loop_fire) (use due in \<open>simp_all add: node_def j_def s1_def j1_def\<close>)
    moreover have "P ?s"
      by (rule fire [OF Suc.prems(1) j]) (use due s1_def at in \<open>simp_all add: node_def\<close>)
    ultimately show ?thesis using Suc.IH [of ?s] at(3) by simp
  qed
qed simp

section \<open>Identifiers and single firing\<close>

abbreviation timeouts :: "(int \<times> bool) list \<Rightarrow> int list" where
  "timeouts f \<equiv> map fst (filter (\<lambda>x. \<not> snd x) f)"

text \<open>\<open>X\<close> exempts the timeout whose callback is running.\<close>

definition timers_ok :: "int set \<Rightarrow> evl \<Rightarrow> bool" where
  "timers_ok X s \<longleftrightarrow> distinct (map tm_id (timer_list s)) \<and> (\<forall>n\<in>set (timer_list s). tm_id n < next_timer_id s)
     \<and> (\<forall>x\<in>set (fired s). fst x < next_timer_id s) \<and> distinct (timeouts (fired s))
     \<and> (\<forall>n\<in>set (timer_list s). \<not> tm_cleared n \<longrightarrow> tm_id n \<notin> X \<longrightarrow> tm_id n \<notin> set (timeouts (fired s)))"

lemma timers_ok_grows:
  assumes "timers_ok X s" "ids_grow s s'"
  shows "timers_ok X s'"
proof -
  obtain new old where n: "timer_list s' = new @ old" "list_all2 ages (timer_list s) old" "distinct (map tm_id new)"
      "\<forall>n\<in>set new. next_timer_id s \<le> tm_id n \<and> tm_id n < next_timer_id s'"
    and e: "fired s' = fired s" "next_timer_id s \<le> next_timer_id s'"
    using assms(2) by (auto simp: ids_grow_def)
  have ids: "map tm_id old = map tm_id (timer_list s)" using n(2) by (rule ages_ids)
  have idb: "\<forall>i\<in>set (map tm_id old). i < next_timer_id s" unfolding ids using assms(1) by (auto simp: timers_ok_def)
  have old: "tm_id m \<notin> set (timeouts (fired s))" if "m \<in> set old" "\<not> tm_cleared m" "tm_id m \<notin> X" for m
  proof -
    obtain i where i: "i < length old" "m = old ! i" using \<open>m \<in> set old\<close> by (auto simp: in_set_conv_nth)
    then have "ages (timer_list s ! i) m" "i < length (timer_list s)"
      using n(2) by (simp_all add: list_all2_nthD2 list_all2_lengthD)
    then show ?thesis
      using assms(1) that(2,3) ages_fields [of "timer_list s ! i" m] unfolding timers_ok_def by (metis nth_mem)
  qed
  have new: "tm_id m \<notin> set (timeouts (fired s))" if "m \<in> set new" for m
    using that n(4) assms(1) by (fastforce simp: timers_ok_def)
  have "distinct (map tm_id (timer_list s'))"
    using n(1,3,4) idb assms(1) ids unfolding timers_ok_def by (fastforce simp: n(1))
  moreover have "\<forall>m\<in>set (timer_list s'). tm_id m < next_timer_id s'" using n(1,4) idb e(2) by fastforce
  moreover have "\<forall>x\<in>set (fired s'). fst x < next_timer_id s'" using assms(1) e by (fastforce simp: timers_ok_def)
  ultimately show ?thesis using assms(1) old new n(1) e(1) unfolding timers_ok_def by (metis Un_iff set_append)
qed

lemma timers_ok_drop:
  assumes "timers_ok X s"
  shows "timers_ok X (s\<lparr>timer_list := take j (timer_list s) @ drop (j + 1) (timer_list s)\<rparr>)"
proof -
  let ?l = "timer_list s"
  have sub: "set (take j ?l @ drop (j + 1) ?l) \<subseteq> set ?l" by (auto dest: in_set_takeD in_set_dropD)
  have "distinct (map tm_id (take j ?l @ drop (j + 1) ?l))"
    using assms set_take_disj_set_drop_if_distinct [of "map tm_id ?l" j "j + 1"]
    by (simp add: timers_ok_def distinct_take distinct_drop flip: take_map drop_map set_map)
  then show ?thesis using assms sub unfolding timers_ok_def by (simp, blast)
qed

lemma timers_ok_update:
  assumes "timers_ok X s" "j < length (timer_list s)" "tm_id n = tm_id (timer_list s ! j)"
    "tm_cleared n \<or> (\<not> tm_cleared (timer_list s ! j) \<and> X = Y)" "X \<subseteq> insert (tm_id n) Y"
  shows "timers_ok Y (s\<lparr>timer_list := (timer_list s)[j := n]\<rparr>)"
proof -
  let ?l = "timer_list s"
  have ids: "map tm_id (?l[j := n]) = map tm_id ?l" using assms(3) by (simp add: map_update list_update_same_conv assms(2))
  have other: "tm_id (?l ! i) \<noteq> tm_id n" if "i < length ?l" "i \<noteq> j" for i
    using assms(1,2,3) that nth_eq_iff_index_eq [of "map tm_id ?l" i j] by (auto simp: timers_ok_def)
  have "tm_id m \<notin> set (timeouts (fired s))" if m: "m \<in> set (?l[j := n])" "\<not> tm_cleared m" "tm_id m \<notin> Y" for m
  proof -
    obtain i where i: "i < length ?l" "m = ?l[j := n] ! i" using m(1) by (auto simp: in_set_conv_nth)
    show ?thesis
    proof (cases "i = j")
      case True
      then have "m = n" using i by simp
      then have "\<not> tm_cleared (?l ! j)" "tm_id (?l ! j) \<notin> X" using m assms(3,4) by auto
      then show ?thesis using assms(1,2,3) \<open>m = n\<close> unfolding timers_ok_def by (metis nth_mem)
    next
      case False
      then have "m = ?l ! i" "tm_id m \<noteq> tm_id n" using i other [of i] by simp_all
      then show ?thesis using assms(1,5) m(2,3) i(1) unfolding timers_ok_def by (metis insert_iff nth_mem subsetD)
    qed
  qed
  moreover have "\<forall>m\<in>set (?l[j := n]). tm_id m < next_timer_id s"
    using assms(1,2,3) by (auto simp: timers_ok_def dest!: subsetD [OF set_update_subset_insert])
  ultimately show ?thesis using assms(1) ids by (simp add: timers_ok_def)
qed

lemma timers_ok_fire:
  assumes ok: "timers_ok {} s" and j: "j < length (timer_list s)" "\<not> tm_cleared (timer_list s ! j)"
    and g: "ids_grow (log_fire (timer_list s ! j) s) s1" and j1: "j1 < length (timer_list s1)"
    and a: "ages (timer_list s ! j) (timer_list s1 ! j1)"
  shows "timers_ok {} (s1\<lparr>timer_list := (timer_list s1)[j1 := after_fire now (timer_list s1 ! j1)]\<rparr>)"
proof -
  let ?n = "timer_list s ! j" and ?n1 = "timer_list s1 ! j1"
  note f = ages_fields [OF a]
  have in_l: "?n \<in> set (timer_list s)" using j(1) by simp
  have b: "tm_id ?n < next_timer_id s" "tm_id ?n \<notin> set (timeouts (fired s))"
    using ok in_l j(2) unfolding timers_ok_def by blast+
  show ?thesis
  proof (cases "tm_interval ?n")
    case True
    then have "timers_ok {} (log_fire ?n s)" using ok b by (auto simp: timers_ok_def)
    then have "timers_ok {} s1" using g by (rule timers_ok_grows)
    then show ?thesis
    proof (cases "tm_cleared ?n1")
      case False
      with \<open>timers_ok {} s1\<close> j1 True f show ?thesis by (intro timers_ok_update) (auto simp: after_fire_def)
    next
      case c: True
      with \<open>timers_ok {} s1\<close> j1 True f show ?thesis by (intro timers_ok_update) (auto simp: after_fire_def)
    qed
  next
    case False
    then have "timers_ok {tm_id ?n} (log_fire ?n s)" using ok b by (auto simp: timers_ok_def)
    then have "timers_ok {tm_id ?n} s1" using g by (rule timers_ok_grows)
    then show ?thesis using j1 False f by (intro timers_ok_update) (auto simp: after_fire_def)
  qed
qed

lemma lr_timers_process_eq:
  "lr_timers_process isf clk call s =
     (let r = timers_loop isf clk call (clk (ticks s)) (length (timer_list s)) False (s\<lparr>ticks := ticks s + 1\<rparr>)
      in (snd r)\<lparr>has_pending_jobs := fst r\<rparr>)"
  by (simp add: lr_timers_process_def Let_def case_prod_beta)

lemma timers_process_inv:
  assumes "P s" "\<And>s b. P (s\<lparr>has_pending_jobs := b\<rparr>) = P s" "\<And>s k. P (s\<lparr>ticks := k\<rparr>) = P s"
    and "\<And>s j. P s \<Longrightarrow> j < length (timer_list s) \<Longrightarrow>
      P (s\<lparr>timer_list := take j (timer_list s) @ drop (j + 1) (timer_list s)\<rparr>)"
    and "\<And>s j s1 j1 now. P s \<Longrightarrow> j < length (timer_list s) \<Longrightarrow> \<not> tm_cleared (timer_list s ! j) \<Longrightarrow>
      s1 = js_call_value isf clk call (tm_callback (timer_list s ! j)) (log_fire (timer_list s ! j) s) \<Longrightarrow> j1 < length (timer_list s1) \<Longrightarrow> ages (timer_list s ! j) (timer_list s1 ! j1) \<Longrightarrow>
      P (s1\<lparr>timer_list := (timer_list s1)[j1 := after_fire now (timer_list s1 ! j1)]\<rparr>)"
  shows "P (lr_timers_process isf clk call s)"
proof -
  have "P (snd (timers_loop isf clk call (clk (ticks s)) (length (timer_list s)) False (s\<lparr>ticks := ticks s + 1\<rparr>)))"
    by (rule timers_loop_inv) (use assms in auto)
  then show ?thesis by (simp add: lr_timers_process_eq Let_def assms(2))
qed

lemma called_grows: "s1 = js_call_value isf clk call v s \<Longrightarrow> grows s s1"
  by (simp add: js_call_value_grows)

lemma timers_process_ok:
  assumes "id_overflow s \<or> timers_ok {} s"
  shows "id_overflow (lr_timers_process isf clk call s) \<or> timers_ok {} (lr_timers_process isf clk call s)"
proof (rule timers_process_inv [where P = "\<lambda>s. id_overflow s \<or> timers_ok {} s", OF assms])
  fix s j s1 j1 now
  assume h: "id_overflow s \<or> timers_ok {} s" "j < length (timer_list s)" "\<not> tm_cleared (timer_list s ! j)"
    "s1 = js_call_value isf clk call (tm_callback (timer_list s ! j)) (log_fire (timer_list s ! j) s)"
    "j1 < length (timer_list s1)" "ages (timer_list s ! j) (timer_list s1 ! j1)"
  let ?t = "s1\<lparr>timer_list := (timer_list s1)[j1 := after_fire now (timer_list s1 ! j1)]\<rparr>"
  show "id_overflow ?t \<or> timers_ok {} ?t"
  proof (cases "id_overflow s1")
    case False
    note g = grows_ids [OF called_grows [OF h(4)] False]
    then have "timers_ok {} s"
      using h(1) by simp
    from timers_ok_fire [OF this h(2,3) _ h(5,6)] g show ?thesis
      by simp
  qed simp
next
  fix s j
  assume "id_overflow s \<or> timers_ok {} s"
  then show "id_overflow (s\<lparr>timer_list := take j (timer_list s) @ drop (j + 1) (timer_list s)\<rparr>)
      \<or> timers_ok {} (s\<lparr>timer_list := take j (timer_list s) @ drop (j + 1) (timer_list s)\<rparr>)"
    using timers_ok_drop [of "{}" s j] by auto
qed (simp_all add: timers_ok_def)

text \<open>The steps between which JavaScript runs: one API call, one job, one pass over the timers.\<close>

inductive timers_step :: "(lr_value \<Rightarrow> bool) \<Rightarrow> (nat \<Rightarrow> int) \<Rightarrow> js_call \<Rightarrow> evl \<Rightarrow> evl \<Rightarrow> bool"
  for isf clk call where
  step_op: "timers_step isf clk call s (run_op isf clk x s)"
| step_job: "timers_step isf clk call s (lr_execute_pending_job isf clk call s)"
| step_pass: "timers_step isf clk call s (lr_timers_process isf clk call s)"

lemma execute_pending_job_grows: "grows s (lr_execute_pending_job isf clk call s)"
proof (cases "job_list s")
  case (Cons f fs)
  have "grows s (s\<lparr>job_list := fs\<rparr>)" by (rule grows_old) (simp_all add: list_all2_refl)
  then show ?thesis
    using Cons by (simp add: lr_execute_pending_job_def grows_trans [OF _ js_call_value_grows])
qed (simp add: lr_execute_pending_job_def)

lemma ok_grows: "grows s t \<Longrightarrow> id_overflow s \<or> timers_ok {} s \<Longrightarrow> id_overflow t \<or> timers_ok {} t"
  using grows_ids timers_ok_grows by blast

lemma timers_step_ok:
  assumes "timers_step isf clk call s t" "id_overflow s \<or> timers_ok {} s"
  shows "id_overflow t \<or> timers_ok {} t"
  using assms(1)
proof cases
  case (step_op x)
  show ?thesis
    unfolding step_op by (rule ok_grows [OF run_op_grows assms(2)])
next
  case step_job
  show ?thesis
    unfolding step_job by (rule ok_grows [OF execute_pending_job_grows assms(2)])
next
  case step_pass
  show ?thesis
    unfolding step_pass by (rule timers_process_ok [OF assms(2)])
qed

lemma timers_steps_ok:
  "(timers_step isf clk call)\<^sup>*\<^sup>* s t \<Longrightarrow> id_overflow s \<or> timers_ok {} s \<Longrightarrow> id_overflow t \<or> timers_ok {} t"
  by (induction rule: rtranclp_induct) (use timers_step_ok in blast)+

lemma evl_init_ok: "id_overflow evl_init \<or> timers_ok {} evl_init"
  by (simp add: evl_init_def timers_ok_def)

text \<open>(C9) In every state that API calls, jobs and passes can reach before the id counter overflows (with fewer than
  \<open>2\<^sup>3\<^sup>1 - 1\<close> timers made), whatever the callbacks do, timer ids are distinct and below the next id, and no \<open>setTimeout\<close> timer has fired twice.\<close>

theorem timers_fire_once:
  assumes "(timers_step isf clk call)\<^sup>*\<^sup>* evl_init s" "\<not> id_overflow s"
  shows "distinct (map tm_id (timer_list s)) \<and> (\<forall>n\<in>set (timer_list s). tm_id n < next_timer_id s)
    \<and> distinct (timeouts (fired s))"
  using timers_steps_ok [OF assms(1) evl_init_ok] assms(2) by (simp add: timers_ok_def)

theorem timers_fire_once_witness:
  "distinct (timeouts (fired (lr_timers_process (\<lambda>_. True) (\<lambda>_. 5) (\<lambda>_ _. [])
      (run_op (\<lambda>_. True) (\<lambda>_. 5) (Op_setTimeout [LR_OBJECT 1]) evl_init))))
   \<and> fired (lr_timers_process (\<lambda>_. True) (\<lambda>_. 5) (\<lambda>_ _. [])
      (run_op (\<lambda>_. True) (\<lambda>_. 5) (Op_setTimeout [LR_OBJECT 1]) evl_init)) = [(1, False)]"
proof
  let ?s = "run_op (\<lambda>_. True) (\<lambda>_. 5) (Op_setTimeout [LR_OBJECT 1]) evl_init"
  have "(timers_step (\<lambda>_. True) (\<lambda>_. 5) (\<lambda>_ _. []))\<^sup>*\<^sup>* evl_init (lr_timers_process (\<lambda>_. True) (\<lambda>_. 5) (\<lambda>_ _. []) ?s)"
    by (meson r_into_rtranclp rtranclp_trans step_op step_pass)
  moreover have "\<not> id_overflow (lr_timers_process (\<lambda>_. True) (\<lambda>_. 5) (\<lambda>_ _. []) ?s)"
    by code_simp
  ultimately show "distinct (timeouts (fired (lr_timers_process (\<lambda>_. True) (\<lambda>_. 5) (\<lambda>_ _. []) ?s)))"
    using timers_fire_once by blast
  show "fired (lr_timers_process (\<lambda>_. True) (\<lambda>_. 5) (\<lambda>_ _. []) ?s) = [(1, False)]" by code_simp
qed

section \<open>Cleared timers\<close>

text \<open>Every clear of an id that was in use is final: its node is marked and nothing with that id fired afterwards.\<close>

definition ids_ok :: "evl \<Rightarrow> bool" where
  "ids_ok s \<longleftrightarrow> distinct (map tm_id (timer_list s)) \<and> (\<forall>n\<in>set (timer_list s). tm_id n < next_timer_id s)"

definition clears_ok :: "evl \<Rightarrow> bool" where
  "clears_ok s \<longleftrightarrow> (\<forall>(i, nid, k) \<in> set (clears s). nid \<le> next_timer_id s \<and> k \<le> length (fired s) \<and>
     (i < nid \<longrightarrow> (\<forall>n\<in>set (timer_list s). tm_id n = i \<longrightarrow> tm_cleared n) \<and> i \<notin> fst ` set (drop k (fired s))))"

lemma clear_first_cleared: "distinct (map tm_id ns) \<Longrightarrow> n \<in> set (clear_first i ns) \<Longrightarrow> tm_id n = i \<Longrightarrow> tm_cleared n"
proof (induction ns)
  case (Cons a ns)
  show ?case
  proof (cases "tm_id a = i")
    case True
    then have "i \<notin> tm_id ` set ns" using Cons.prems(1) by simp
    then have "n \<notin> set ns" using Cons.prems(3) by blast
    then show ?thesis using Cons.prems(2) True by simp
  next
    case False
    then have "n \<noteq> a" "distinct (map tm_id ns)" using Cons.prems(1,3) by auto
    then show ?thesis using Cons.IH Cons.prems(2,3) False by simp
  qed
qed simp

lemma ids_ok_grow:
  assumes "ids_ok s" "ids_grow s s'"
  shows "ids_ok s'"
proof -
  obtain new old where n: "timer_list s' = new @ old" "list_all2 ages (timer_list s) old" "distinct (map tm_id new)"
      "\<forall>n\<in>set new. next_timer_id s \<le> tm_id n \<and> tm_id n < next_timer_id s'"
    and e: "next_timer_id s \<le> next_timer_id s'"
    using assms(2) by (auto simp: ids_grow_def)
  have ids: "map tm_id old = map tm_id (timer_list s)"
    using n(2) by (rule ages_ids)
  have idb: "\<forall>i\<in>set (map tm_id old). i < next_timer_id s"
    unfolding ids using assms(1) by (auto simp: ids_ok_def)
  then have "distinct (map tm_id (timer_list s'))"
    using n(1,3,4) assms(1) ids unfolding ids_ok_def by (fastforce simp: n(1))
  moreover have "\<forall>m\<in>set (timer_list s'). tm_id m < next_timer_id s'"
    using n(1,4) idb e by fastforce
  ultimately show ?thesis
    by (simp add: ids_ok_def)
qed

text \<open>The old records stay true under growth; a clear adds a true one.\<close>

lemma marked_grow:
  assumes "ids_grow s s'" "i < next_timer_id s" "\<forall>n\<in>set (timer_list s). tm_id n = i \<longrightarrow> tm_cleared n"
    "m \<in> set (timer_list s')" "tm_id m = i"
  shows "tm_cleared m"
proof -
  obtain new old where n: "timer_list s' = new @ old" "list_all2 ages (timer_list s) old"
      "\<forall>n\<in>set new. next_timer_id s \<le> tm_id n"
    using assms(1) by (auto simp: ids_grow_def)
  then have "m \<in> set old"
    using assms(2,4,5) by fastforce
  then obtain j where j: "j < length old" "m = old ! j"
    by (auto simp: in_set_conv_nth)
  then have "ages (timer_list s ! j) m" "j < length (timer_list s)"
    using n(2) by (simp_all add: list_all2_nthD2 list_all2_lengthD)
  then show ?thesis
    using assms(3,5) ages_fields [of "timer_list s ! j" m] by (metis nth_mem)
qed

lemma clears_ok_grow:
  assumes "clears_ok s" "ids_grow s s'" "clears s' = clears s"
  shows "clears_ok s'"
proof -
  have e: "fired s' = fired s" "next_timer_id s \<le> next_timer_id s'"
    using assms(2) by (auto simp: ids_grow_def)
  show ?thesis
    unfolding clears_ok_def assms(3) e(1)
  proof (intro ballI, clarify)
    fix i nid k assume c: "(i, nid, k) \<in> set (clears s)"
    then have o: "nid \<le> next_timer_id s" "k \<le> length (fired s)"
        "i < nid \<longrightarrow> (\<forall>n\<in>set (timer_list s). tm_id n = i \<longrightarrow> tm_cleared n) \<and> i \<notin> fst ` set (drop k (fired s))"
      using assms(1) by (auto simp: clears_ok_def)
    then show "nid \<le> next_timer_id s' \<and> k \<le> length (fired s) \<and>
        (i < nid \<longrightarrow> (\<forall>n\<in>set (timer_list s'). tm_id n = i \<longrightarrow> tm_cleared n) \<and> i \<notin> fst ` set (drop k (fired s)))"
      using e(2) marked_grow [OF assms(2), of i] by fastforce
  qed
qed

lemma run_op_clears:
  assumes ok: "ids_ok s" "clears_ok s" and no: "\<not> id_overflow (run_op isf clk x s)"
  shows "clears_ok (run_op isf clk x s)"
proof (cases "clears (run_op isf clk x s) = clears s")
  case True
  then show ?thesis
    using clears_ok_grow [OF ok(2)] grows_ids [OF run_op_grows no] by blast
next
  case False
  then obtain a as i where x: "x = Op_clear (a # as)" "lr_to_int32 a = Some i"
    by (cases x) (auto simp: lr_set_timeout_def lr_clear_timer_def lr_queueMicrotask_def lr_enqueue_job_def Let_def
        split: list.splits option.splits if_splits)
  then have r: "run_op isf clk x s = s\<lparr>timer_list := clear_first i (timer_list s),
      clears := clears s @ [(i, next_timer_id s, length (fired s))]\<rparr>"
    by (simp add: lr_clear_timer_def)
  have "clears_ok (s\<lparr>timer_list := clear_first i (timer_list s)\<rparr>)"
    by (rule clears_ok_grow [OF ok(2)], rule ids_grow_old) (simp_all add: clear_first_ages)
  moreover have "\<forall>n \<in> set (clear_first i (timer_list s)). tm_id n = i \<longrightarrow> tm_cleared n"
    using ok(1) clear_first_cleared by (auto simp: ids_ok_def)
  ultimately show ?thesis
    unfolding r by (auto simp: clears_ok_def)
qed

text \<open>The invariant of a run: nothing is claimed once the id counter has overflowed.\<close>

definition clears_inv :: "evl \<Rightarrow> bool" where
  "clears_inv s \<longleftrightarrow> id_overflow s \<or> (ids_ok s \<and> clears_ok s)"

lemma run_op_inv:
  assumes "clears_inv s"
  shows "clears_inv (run_op isf clk x s)"
proof (cases "id_overflow (run_op isf clk x s)")
  case False
  note g = grows_ids [OF run_op_grows False]
  then have ok: "ids_ok s" "clears_ok s"
    using assms by (simp_all add: clears_inv_def)
  then show ?thesis
    using run_op_clears [OF ok False] ids_ok_grow [OF ok(1)] g by (simp add: clears_inv_def)
qed (simp add: clears_inv_def)

lemma call_inv: "clears_inv s \<Longrightarrow> clears_inv (js_call_value isf clk call v s)"
proof -
  have "clears_inv s \<Longrightarrow> clears_inv (fold (run_op isf clk) ops s)" for ops s
    by (induction ops arbitrary: s) (simp_all add: run_op_inv)
  moreover assume "clears_inv s"
  then have "clears_inv (s\<lparr>called := called s @ [v]\<rparr>)"
    by (simp add: clears_inv_def ids_ok_def clears_ok_def)
  ultimately show ?thesis
    by (simp add: js_call_value_def)
qed

lemma log_fire_inv:
  assumes "clears_inv s" "n \<in> set (timer_list s)" "\<not> tm_cleared n"
  shows "clears_inv (log_fire n s)"
  using assms by (fastforce simp: clears_inv_def ids_ok_def clears_ok_def)

lemma update_inv:
  assumes "clears_inv s" "j < length (timer_list s)"
  shows "clears_inv (s\<lparr>timer_list := (timer_list s)[j := after_fire now (timer_list s ! j)]\<rparr>)"
proof -
  let ?l = "timer_list s" and ?n = "timer_list s ! j"
  have f: "tm_id (after_fire now ?n) = tm_id ?n" "tm_cleared ?n \<longrightarrow> tm_cleared (after_fire now ?n)"
    by (simp_all add: after_fire_def)
  have ids: "map tm_id (?l[j := after_fire now ?n]) = map tm_id ?l"
    using f(1) by (simp add: map_update list_update_same_conv assms(2))
  have sub: "\<exists>m' \<in> set ?l. tm_id m = tm_id m' \<and> (tm_cleared m' \<longrightarrow> tm_cleared m)"
    if "m \<in> set (?l[j := after_fire now ?n])" for m
    using that f assms(2) by (auto dest!: subsetD [OF set_update_subset_insert] intro: nth_mem)
  show ?thesis
    using assms(1) ids sub by (fastforce simp: clears_inv_def ids_ok_def clears_ok_def)
qed

lemma drop_inv:
  assumes "clears_inv s"
  shows "clears_inv (s\<lparr>timer_list := take j (timer_list s) @ drop (j + 1) (timer_list s)\<rparr>)"
proof -
  have "distinct (map tm_id (timer_list s)) \<Longrightarrow> distinct (map tm_id (take j (timer_list s) @ drop (j + 1) (timer_list s)))"
    using set_take_disj_set_drop_if_distinct [of "map tm_id (timer_list s)" j "j + 1"]
    by (simp add: distinct_take distinct_drop flip: take_map drop_map set_map)
  moreover have "set (take j (timer_list s) @ drop (j + 1) (timer_list s)) \<subseteq> set (timer_list s)"
    by (auto dest: in_set_takeD in_set_dropD)
  ultimately show ?thesis
    using assms unfolding clears_inv_def ids_ok_def clears_ok_def by simp blast
qed

lemma process_inv:
  assumes "clears_inv s"
  shows "clears_inv (lr_timers_process isf clk call s)"
proof (rule timers_process_inv [where P = clears_inv, OF assms])
  fix s j s1 j1 now
  assume h: "clears_inv s" "j < length (timer_list s)" "\<not> tm_cleared (timer_list s ! j)"
    "s1 = js_call_value isf clk call (tm_callback (timer_list s ! j)) (log_fire (timer_list s ! j) s)" "j1 < length (timer_list s1)"
  then show "clears_inv (s1\<lparr>timer_list := (timer_list s1)[j1 := after_fire now (timer_list s1 ! j1)]\<rparr>)"
    by (simp add: update_inv call_inv log_fire_inv)
qed (rule drop_inv | simp add: clears_inv_def ids_ok_def clears_ok_def)+

lemma job_inv:
  assumes "clears_inv s"
  shows "clears_inv (lr_execute_pending_job isf clk call s)"
proof (cases "job_list s")
  case (Cons f fs)
  have "clears_inv (s\<lparr>job_list := fs\<rparr>)"
    using assms by (simp add: clears_inv_def ids_ok_def clears_ok_def)
  then show ?thesis
    using Cons by (simp add: lr_execute_pending_job_def call_inv)
qed (simp add: lr_execute_pending_job_def assms)

lemma steps_clears_inv: "(timers_step isf clk call)\<^sup>*\<^sup>* s t \<Longrightarrow> clears_inv s \<Longrightarrow> clears_inv t"
proof (induction rule: rtranclp_induct)
  case (step t u)
  from step.hyps(2) step.IH [OF step.prems] show ?case
    by cases (simp_all add: run_op_inv job_inv process_inv)
qed simp

text \<open>(C24) \<open>clearTimeout\<close> and \<open>clearInterval\<close> are final, wherever they are called: in a script, in a job, or in a callback in
  the middle of a pass over the timers. In every reachable state, an id that was in use when it was cleared has not
  fired since that moment; the pass that was running is no exception.\<close>

theorem cleared_timer_never_fires:
  assumes "(timers_step isf clk call)\<^sup>*\<^sup>* evl_init s" "\<not> id_overflow s"
    and "(i, next_id, count) \<in> set (clears s)" "i < next_id"
  shows "i \<notin> fst ` set (drop count (fired s))"
proof -
  have "clears_inv evl_init"
    by (simp add: clears_inv_def evl_init_def ids_ok_def clears_ok_def)
  from steps_clears_inv [OF assms(1) this] show ?thesis
    using assms(2-4) by (auto simp: clears_inv_def clears_ok_def)
qed

text \<open>Two timers are due; the callback of the second, which is called first, clears the first.\<close>

theorem cleared_timer_never_fires_witness:
  "let s = lr_timers_process (\<lambda>_. True) (\<lambda>_. 5) (\<lambda>h v. if v = LR_OBJECT 2 then [Op_clear [LR_INT32 1]] else [])
      (run_op (\<lambda>_. True) (\<lambda>_. 5) (Op_setTimeout [LR_OBJECT 2]) (run_op (\<lambda>_. True) (\<lambda>_. 5) (Op_setTimeout [LR_OBJECT 1]) evl_init))
   in 1 \<notin> fst ` set (drop 1 (fired s)) \<and> fired s = [(2, False)]"
proof -
  let ?call = "\<lambda>h v. if v = LR_OBJECT 2 then [Op_clear [LR_INT32 1]] else []"
  let ?R = "timers_step (\<lambda>_. True) (\<lambda>_. 5) ?call"
  let ?a = "run_op (\<lambda>_. True) (\<lambda>_. 5) (Op_setTimeout [LR_OBJECT 1]) evl_init"
  let ?b = "run_op (\<lambda>_. True) (\<lambda>_. 5) (Op_setTimeout [LR_OBJECT 2]) ?a"
  let ?s = "lr_timers_process (\<lambda>_. True) (\<lambda>_. 5) ?call ?b"
  have "?R evl_init ?a" "?R ?a ?b" "?R ?b ?s"
    by (rule step_op step_pass)+
  then have reach: "?R\<^sup>*\<^sup>* evl_init ?s"
    by (meson r_into_rtranclp rtranclp_trans)
  have facts: "\<not> id_overflow ?s" "(1, 3, 1) \<in> set (clears ?s)" "fired ?s = [(2, False)]"
    by code_simp+
  from cleared_timer_never_fires [OF reach facts(1,2)] facts(3) show ?thesis
    by simp
qed

section \<open>One pass\<close>

abbreviation live_timers :: "timer_node list \<Rightarrow> timer_node list" where
  "live_timers ns \<equiv> filter (\<lambda>n. \<not> tm_cleared n) ns"

definition timer_due :: "int \<Rightarrow> timer_node \<Rightarrow> bool" where
  "timer_due now n \<longleftrightarrow> tm_next_fire n \<le> now"

definition pass_node :: "int \<Rightarrow> timer_node \<Rightarrow> timer_node" where
  "pass_node now n = (if timer_due now n then after_fire now n else n)"

definition last_pending :: "int \<Rightarrow> bool \<Rightarrow> timer_node list \<Rightarrow> bool" where
  "last_pending now hp ns = (if ns = [] then hp else tm_interval (last ns) \<or> \<not> timer_due now (last ns))"

lemma timers_loop_quiet:
  assumes quiet: "\<And>h v. call h v = []" and l: "timer_list s = pre @ rest"
  shows "timers_loop isf clk call now (length rest) hp s =
    (last_pending now hp (live_timers rest),
     s\<lparr>timer_list := pre @ map (pass_node now) (live_timers rest),
       fired := fired s @ map (\<lambda>n. (tm_id n, tm_interval n)) (filter (timer_due now) (live_timers rest)),
       called := called s @ map tm_callback (filter (timer_due now) (live_timers rest))\<rparr>)"
  using l
proof (induction rest arbitrary: s pre hp)
  case (Cons n rest)
  let ?L = "timers_loop isf clk call now"
  have at: "length (timer_list s) - Suc (length rest) = length pre" using Cons.prems by simp
  consider (gone) "tm_cleared n" | (fires) "\<not> tm_cleared n" "timer_due now n" | (later) "\<not> tm_cleared n" "\<not> timer_due now n" by blast
  then show ?case
  proof cases
    case gone
    have "?L (length (n # rest)) hp s = ?L (length rest) hp (s\<lparr>timer_list := pre @ rest\<rparr>)"
      using gone at Cons.prems by (simp add: Let_def)
    then show ?thesis using Cons.IH [of "s\<lparr>timer_list := pre @ rest\<rparr>" pre hp] gone by simp
  next
    case later
    have "?L (length (n # rest)) hp s = ?L (length rest) True s"
      using later at Cons.prems by (simp add: Let_def timer_due_def)
    then show ?thesis using Cons.IH [of s "pre @ [n]" True] Cons.prems later
      by (simp add: last_pending_def pass_node_def)
  next
    case fires
    let ?t = "s\<lparr>fired := fired s @ [(tm_id n, tm_interval n)], called := called s @ [tm_callback n],
      timer_list := pre @ after_fire now n # rest\<rparr>"
    have "?L (length (n # rest)) hp s = ?L (length rest) (tm_interval n) ?t"
      using fires at Cons.prems by (simp add: Let_def timer_due_def js_call_value_def quiet after_fire_def list_update_append)
    then show ?thesis using Cons.IH [of ?t "pre @ [after_fire now n]" "tm_interval n"] fires
      by (simp add: last_pending_def pass_node_def)
  qed
qed (simp add: last_pending_def)

lemma process_quiet:
  assumes "\<And>h v. call h v = []"
  shows "lr_timers_process isf clk call s =
    s\<lparr>ticks := ticks s + 1, timer_list := map (pass_node (clk (ticks s))) (live_timers (timer_list s)),
      fired := fired s @ map (\<lambda>n. (tm_id n, tm_interval n)) (filter (timer_due (clk (ticks s))) (live_timers (timer_list s))),
      called := called s @ map tm_callback (filter (timer_due (clk (ticks s))) (live_timers (timer_list s))),
      has_pending_jobs := last_pending (clk (ticks s)) False (live_timers (timer_list s))\<rparr>"
  using timers_loop_quiet [OF assms, where pre = "[]" and s = "s\<lparr>ticks := ticks s + 1\<rparr>" and rest = "timer_list s"]
  by (simp add: lr_timers_process_eq Let_def)

text \<open>A pass whose callbacks leave the timers alone calls exactly the callbacks of the due timers that are not
  cleared, in list order; it unlinks the cleared nodes, re-arms the due intervals and marks the due timeouts. The pending
  flag it leaves is decided by the last live node alone.\<close>

theorem timers_process_quiet:
  fixes isf clk call s
  defines "now \<equiv> clk (ticks s)" and "live \<equiv> live_timers (timer_list s)"
  assumes "\<And>h v. call h v = []"
  shows "lr_timers_process isf clk call s =
    s\<lparr>ticks := ticks s + 1, timer_list := map (pass_node now) live,
      fired := fired s @ map (\<lambda>n. (tm_id n, tm_interval n)) (filter (timer_due now) live),
      called := called s @ map tm_callback (filter (timer_due now) live),
      has_pending_jobs := last_pending now False live\<rparr>"
  unfolding now_def live_def by (rule process_quiet) (rule assms(3))

theorem timers_process_quiet_witness:
  "called (lr_timers_process (\<lambda>_. True) (\<lambda>_. 5) (\<lambda>_ _. [])
      (run_op (\<lambda>_. True) (\<lambda>_. 5) (Op_setTimeout [LR_OBJECT 1]) evl_init)) = [LR_OBJECT 1]"
  by (subst timers_process_quiet) (simp, code_simp)

section \<open>Jobs and the loop\<close>

lemma drain_quiet:
  assumes "\<And>h v. call h v = []" "length (job_list s) \<le> fuel"
  shows "drain_jobs fuel isf clk call hj s = Some (hj \<or> job_list s \<noteq> [], s\<lparr>job_list := [], called := called s @ job_list s\<rparr>)"
  using assms(2)
proof (induction fuel arbitrary: s hj)
  case (Suc fuel)
  then show ?case
    by (cases "job_list s") (simp_all add: lr_execute_pending_job_def js_call_value_def assms(1))
qed simp

text \<open>Jobs run first in first out: with as many turns as there are jobs the drain loop returns, the queue is empty and
  the jobs were called in the order in which they were enqueued.\<close>

theorem enqueued_jobs_run_in_order:
  assumes "\<And>h v. call h v = []" "length (job_list s) + length fs \<le> fuel"
  shows "\<exists>hj s'. drain_jobs fuel isf clk call False (fold lr_enqueue_job fs s) = Some (hj, s') \<and> job_list s' = []
    \<and> called s' = called s @ job_list s @ fs"
proof -
  have "fold lr_enqueue_job fs s = s\<lparr>job_list := job_list s @ fs\<rparr>"
    by (induction fs arbitrary: s) (simp_all add: lr_enqueue_job_def)
  then show ?thesis using drain_quiet [OF assms(1), where s = "s\<lparr>job_list := job_list s @ fs\<rparr>" and fuel = fuel] assms(2)
    by simp
qed

theorem enqueued_jobs_run_in_order_witness:
  "\<exists>hj s'. drain_jobs 2 (\<lambda>_. True) (\<lambda>_. 0) (\<lambda>_ _. []) False (fold lr_enqueue_job [LR_OBJECT 1, LR_OBJECT 2] evl_init) = Some (hj, s')
    \<and> job_list s' = [] \<and> called s' = [LR_OBJECT 1, LR_OBJECT 2]"
  using enqueued_jobs_run_in_order [of "\<lambda>_ _. []" evl_init "[LR_OBJECT 1, LR_OBJECT 2]" 2 "\<lambda>_. True" "\<lambda>_. 0"]
  by (simp add: evl_init_def)

text \<open>(C25) The loop ends while a timer is waiting. Whenever the last live node of the list is a due timeout and another live
  timer is not due yet, with no job queued, no live worker and callbacks that leave the timers alone, the pass overwrites
  the pending flag that the waiting timer set and the event loop returns; the waiting timer is still in the list.\<close>

theorem event_loop_drops_pending_timer:
  assumes quiet: "\<And>h v. call h v = []" and idle: "job_list s = []" "\<not> event_loop_stop s"
    and live: "live_timers (timer_list s) = ns @ [a]" and a: "\<not> tm_interval a" "tm_next_fire a \<le> clk (ticks s)"
    and b: "b \<in> set ns" "clk (ticks s) < tm_next_fire b"
  shows "\<exists>t. lr_event_loop_run (Suc fuel) (\<lambda>s. (0, s)) isf clk call s = Some t \<and> b \<in> set (live_timers (timer_list t))
    \<and> called t = called s @ map tm_callback (filter (timer_due (clk (ticks s))) (ns @ [a]))"
proof -
  let ?now = "clk (ticks s)" and ?r = "s\<lparr>event_loop_running := True\<rparr>"
  have d: "drain_jobs fuel isf clk call False ?r = Some (False, ?r)"
    using idle(1) by (cases fuel) simp_all
  have p: "lr_timers_process isf clk call ?r =
    ?r\<lparr>ticks := ticks s + 1, timer_list := map (pass_node ?now) (ns @ [a]),
      fired := fired s @ map (\<lambda>n. (tm_id n, tm_interval n)) (filter (timer_due ?now) (ns @ [a])),
      called := called s @ map tm_callback (filter (timer_due ?now) (ns @ [a])),
      has_pending_jobs := last_pending ?now False (ns @ [a])\<rparr>"
    using process_quiet [where s = ?r, OF quiet] live by simp
  have "b \<in> set (live_timers (timer_list s))"
    unfolding live using b(1) by simp
  then have "\<not> tm_cleared b"
    by simp
  moreover have "last_pending ?now False (ns @ [a]) = False" "pass_node ?now b = b"
    using a b(2) by (simp_all add: last_pending_def timer_due_def pass_node_def)
  ultimately show ?thesis
    using b(1) idle by (simp add: lr_event_loop_run_def d p Let_def) force
qed

text \<open>\<open>setTimeout(a, 0); setTimeout(b, 1000)\<close>.\<close>

theorem event_loop_drops_pending_timer_witness:
  "\<exists>t. lr_event_loop_run 1 (\<lambda>s. (0, s)) (\<lambda>_. True) (\<lambda>k. int k) (\<lambda>_ _. [])
      (run_op (\<lambda>_. True) (\<lambda>k. int k) (Op_setTimeout [LR_OBJECT 2, LR_INT32 1000])
        (run_op (\<lambda>_. True) (\<lambda>k. int k) (Op_setTimeout [LR_OBJECT 1, LR_INT32 0]) evl_init)) = Some t
    \<and> map tm_callback (live_timers (timer_list t)) \<noteq> [] \<and> called t = [LR_OBJECT 1]"
proof -
  let ?s = "run_op (\<lambda>_. True) (\<lambda>k. int k) (Op_setTimeout [LR_OBJECT 2, LR_INT32 1000])
        (run_op (\<lambda>_. True) (\<lambda>k. int k) (Op_setTimeout [LR_OBJECT 1, LR_INT32 0]) evl_init)"
  let ?a = "last (timer_list ?s)" and ?b = "hd (timer_list ?s)"
  have facts: "job_list ?s = []" "\<not> event_loop_stop ?s" "live_timers (timer_list ?s) = [?b] @ [?a]"
      "\<not> tm_interval ?a" "tm_next_fire ?a \<le> (\<lambda>k. int k) (ticks ?s)" "?b \<in> set [?b]" "(\<lambda>k. int k) (ticks ?s) < tm_next_fire ?b"
    by code_simp+
  have calls: "called ?s @ map tm_callback (filter (timer_due ((\<lambda>k. int k) (ticks ?s))) ([?b] @ [?a])) = [LR_OBJECT 1]"
    by code_simp
  obtain t where "lr_event_loop_run (Suc 0) (\<lambda>s. (0, s)) (\<lambda>_. True) (\<lambda>k. int k) (\<lambda>_ _. []) ?s = Some t"
      "?b \<in> set (live_timers (timer_list t))" "called t = [LR_OBJECT 1]"
    using event_loop_drops_pending_timer [where call = "\<lambda>_ _. []" and clk = "\<lambda>k. int k" and s = ?s and fuel = 0
        and isf = "\<lambda>_. True", OF refl facts] unfolding calls by blast
  then show ?thesis
    unfolding One_nat_def by (metis empty_iff list.map_disc_iff list.set(1))
qed

end
