(* ===== verification/LR_Ops.thy ===== *)
theory LR_Ops
  imports LR_Convert
begin

unbundle bit_operations_syntax

text \<open>
  JavaScript operators on values (\<^verbatim>\<open>src/engine/lr_bytecode_value.c\<close>): numbers are boxed as \<open>int32\<close> or \<open>double\<close>, and the
  binary operators have one fast path for each.

  What the operators ask of the rest of the engine and of the C library is the record \<open>js_env\<close>. Memory allocation
  succeeds. An operator returns a value, asks for a fresh BigInt object, or fails with a message; \<open>Op_trap\<close> is the processor
  exception of a signed division that overflows.
\<close>

section \<open>Environment\<close>

record js_env =
  env_strtod :: "bytes \<Rightarrow> u64 \<times> nat"
  env_pow :: "u64 \<Rightarrow> u64 \<Rightarrow> u64"
  env_fmt17 :: "u64 \<Rightarrow> bytes"
  env_cstring :: "lr_value \<Rightarrow> bytes"
  env_bigint :: "u64 \<Rightarrow> u64 option"
  env_is_function :: "lr_value \<Rightarrow> bool"
  env_has_property :: "lr_value \<Rightarrow> bytes \<Rightarrow> bool"
  env_get_prototype :: "lr_value \<Rightarrow> lr_value"
  env_prototype_prop :: "lr_value \<Rightarrow> lr_value"

datatype op_result = Op_val lr_value | Op_bigint u64 | Op_throw string | Op_trap

datatype binop =
    ADD | SUB | MUL | DIV | MOD | POW | LT | GT | LE | GE | EQ | NE | STRICT_EQ | STRICT_NE
  | SHL | SHR | SAR | BIT_AND | BIT_OR | BIT_XOR | IN | INSTANCEOF

section \<open>Numbers\<close>

definition bcv_to_number :: "js_env \<Rightarrow> lr_value \<Rightarrow> u64" where
  "bcv_to_number env v =
     (case v of
        LR_INT32 i \<Rightarrow> f64_of_int (sint i)
      | LR_FLOAT64 d \<Rightarrow> d
      | _ \<Rightarrow> fst (lr_to_float64 (env_strtod env) v))"

definition bcv_to_int32 :: "lr_value \<Rightarrow> u32" where
  "bcv_to_int32 v =
     (case v of
        LR_INT32 i \<Rightarrow> i
      | LR_FLOAT64 d \<Rightarrow> word_of_int (f64_cast 32 d)
      | _ \<Rightarrow> (case lr_to_int32 v of Some i \<Rightarrow> word_of_int i | None \<Rightarrow> 0))"

definition bcv_number :: "u64 \<Rightarrow> lr_value" where
  "bcv_number d =
     (let is_neg_zero = (f64_eq d 0 \<and> f64_sign d); i = f64_cast 32 d in
      if \<not> is_neg_zero \<and> f64_eq d (f64_of_int i) \<and> \<not> f64_isnan d \<and> \<not> f64_isinf d
      then LR_INT32 (word_of_int i) else LR_FLOAT64 d)"

section \<open>Equality\<close>

definition bcv_strict_eq :: "lr_value \<Rightarrow> lr_value \<Rightarrow> bool" where
  "bcv_strict_eq a b =
     (case a of
        LR_UNDEFINED \<Rightarrow> (case b of LR_UNDEFINED \<Rightarrow> True | _ \<Rightarrow> False)
      | LR_NULL \<Rightarrow> (case b of LR_NULL \<Rightarrow> True | _ \<Rightarrow> False)
      | LR_BOOL x \<Rightarrow> (case b of LR_BOOL y \<Rightarrow> x = y | _ \<Rightarrow> False)
      | LR_INT32 x \<Rightarrow> (case b of LR_INT32 y \<Rightarrow> x = y | _ \<Rightarrow> False)
      | LR_FLOAT64 x \<Rightarrow> (case b of LR_FLOAT64 y \<Rightarrow> f64_eq x y | _ \<Rightarrow> False)
      | LR_STRING x \<Rightarrow> (case b of LR_STRING y \<Rightarrow> x = y | _ \<Rightarrow> False)
      | LR_OBJECT x \<Rightarrow> (case b of LR_OBJECT y \<Rightarrow> x = y | _ \<Rightarrow> False)
      | LR_SYMBOL x \<Rightarrow> (case b of LR_SYMBOL y \<Rightarrow> x = y | _ \<Rightarrow> False)
      | LR_EXCEPTION \<Rightarrow> False)"

fun lr_tag :: "lr_value \<Rightarrow> nat" where
  "lr_tag LR_UNDEFINED = 0"
| "lr_tag LR_NULL = 1"
| "lr_tag (LR_BOOL _) = 2"
| "lr_tag (LR_INT32 _) = 3"
| "lr_tag (LR_FLOAT64 _) = 4"
| "lr_tag (LR_STRING _) = 5"
| "lr_tag (LR_OBJECT _) = 6"
| "lr_tag (LR_SYMBOL _) = 7"
| "lr_tag LR_EXCEPTION = 8"

abbreviation is_num :: "lr_value \<Rightarrow> bool" where
  "is_num v \<equiv> lr_tag v = 3 \<or> lr_tag v = 4"

abbreviation is_nullish :: "lr_value \<Rightarrow> bool" where
  "is_nullish v \<equiv> lr_tag v = 0 \<or> lr_tag v = 1"

text \<open>The bytes of a C string end at the first zero.\<close>

definition cstr :: "js_env \<Rightarrow> lr_value \<Rightarrow> bytes" where
  "cstr env v = takeWhile (\<lambda>c. c \<noteq> 0) (env_cstring env v)"

function bcv_abstract_eq :: "js_env \<Rightarrow> lr_value \<Rightarrow> lr_value \<Rightarrow> bool" where
  "bcv_abstract_eq env a b =
     (if lr_tag a = lr_tag b then bcv_strict_eq a b
      else if is_nullish a \<and> is_nullish b then True
      else if (is_num a \<and> lr_tag b = 5) \<or> (lr_tag a = 5 \<and> is_num b) \<or> lr_tag a = 2 \<or> lr_tag b = 2 then
        (if is_nullish a \<or> is_nullish b then False
         else if lr_tag a = 6 then bcv_abstract_eq env (LR_STRING (cstr env a)) b
         else if lr_tag b = 6 then bcv_abstract_eq env a (LR_STRING (cstr env b))
         else let da = bcv_to_number env a; db = bcv_to_number env b in
              \<not> f64_isnan da \<and> \<not> f64_isnan db \<and> f64_eq da db)
      else if lr_tag a = 6 \<and> (lr_tag b = 5 \<or> is_num b) then bcv_abstract_eq env (LR_STRING (cstr env a)) b
      else if lr_tag b = 6 \<and> (lr_tag a = 5 \<or> is_num a) then bcv_abstract_eq env a (LR_STRING (cstr env b))
      else False)"
  by auto

termination
  by (relation "measure (\<lambda>(env, a, b). (if lr_tag a = 6 then 1 else 0) + (if lr_tag b = 6 then 1 else 0))") auto

declare bcv_abstract_eq.simps [simp del]

section \<open>Strings\<close>

function dec_digits :: "int \<Rightarrow> bytes" where
  "dec_digits n = (if n < 10 then [word_of_int (48 + n)] else dec_digits (n div 10) @ [word_of_int (48 + n mod 10)])"
  by auto

termination
  by (relation "measure nat") auto

declare dec_digits.simps [simp del]

text \<open>\<open>snprintf("%d")\<close>\<close>

definition fmt_d :: "int \<Rightarrow> bytes" where
  "fmt_d i = (if i < 0 then 45 # dec_digits (- i) else dec_digits i)"

definition fmt_f64 :: "js_env \<Rightarrow> u64 \<Rightarrow> bytes" where
  "fmt_f64 env d =
     (if f64_isnan d then [78, 97, 78]
      else if f64_isinf d then (if f64_lt 0 d then [] else [45]) @ [73, 110, 102, 105, 110, 105, 116, 121]
      else env_fmt17 env d)"

definition bcv_concat :: "js_env \<Rightarrow> lr_value \<Rightarrow> lr_value \<Rightarrow> lr_value" where
  "bcv_concat env a b =
     (case a of
        LR_STRING s \<Rightarrow>
          (case b of
             LR_STRING t \<Rightarrow> LR_STRING (s @ t)
           | LR_INT32 i \<Rightarrow> LR_STRING (s @ fmt_d (sint i))
           | LR_FLOAT64 d \<Rightarrow> LR_STRING (s @ fmt_f64 env d)
           | _ \<Rightarrow> LR_STRING (s @ cstr env b))
      | _ \<Rightarrow> LR_STRING (cstr env a @ cstr env b))"

text \<open>\<open>memcmp\<close> on the common length, then the lengths.\<close>

fun bytes_cmp :: "bytes \<Rightarrow> bytes \<Rightarrow> int" where
  "bytes_cmp [] [] = 0"
| "bytes_cmp [] (y # ys) = -1"
| "bytes_cmp (x # xs) [] = 1"
| "bytes_cmp (x # xs) (y # ys) = (if x < y then -1 else if y < x then 1 else bytes_cmp xs ys)"

datatype rel = Rel_lt | Rel_gt | Rel_le | Rel_ge

definition bcv_relational :: "js_env \<Rightarrow> lr_value \<Rightarrow> lr_value \<Rightarrow> rel \<Rightarrow> bool" where
  "bcv_relational env a b op =
     (case (a, b) of
        (LR_STRING s, LR_STRING t) \<Rightarrow>
          let cmp = bytes_cmp s t in
          (case op of Rel_lt \<Rightarrow> cmp < 0 | Rel_gt \<Rightarrow> cmp > 0 | Rel_le \<Rightarrow> cmp \<le> 0 | Rel_ge \<Rightarrow> cmp \<ge> 0)
      | _ \<Rightarrow>
          let da = bcv_to_number env a; db = bcv_to_number env b in
          if f64_isnan da \<or> f64_isnan db then False
          else (case op of Rel_lt \<Rightarrow> f64_lt da db | Rel_gt \<Rightarrow> f64_lt db da | Rel_le \<Rightarrow> f64_le da db | Rel_ge \<Rightarrow> f64_le db da))"

definition bcv_typeof :: "js_env \<Rightarrow> lr_value \<Rightarrow> string" where
  "bcv_typeof env v =
     (case v of
        LR_UNDEFINED \<Rightarrow> ''undefined''
      | LR_NULL \<Rightarrow> ''object''
      | LR_BOOL _ \<Rightarrow> ''boolean''
      | LR_INT32 _ \<Rightarrow> ''number''
      | LR_FLOAT64 _ \<Rightarrow> ''number''
      | LR_STRING _ \<Rightarrow> ''string''
      | LR_SYMBOL _ \<Rightarrow> ''symbol''
      | LR_OBJECT p \<Rightarrow> if env_bigint env p \<noteq> None then ''bigint'' else if env_is_function env v then ''function'' else ''object''
      | LR_EXCEPTION \<Rightarrow> ''undefined'')"

text \<open>The walk along the prototype chain does not end on a cyclic chain: fuel.\<close>

fun proto_walk :: "nat \<Rightarrow> js_env \<Rightarrow> lr_value \<Rightarrow> lr_value \<Rightarrow> bool option" where
  "proto_walk 0 env proto p = None"
| "proto_walk (Suc fuel) env proto p =
     (if lr_tag p \<noteq> 6 then Some False
      else if bcv_strict_eq p proto then Some True
      else proto_walk fuel env proto (env_get_prototype env p))"

definition bcv_instanceof :: "nat \<Rightarrow> js_env \<Rightarrow> lr_value \<Rightarrow> lr_value \<Rightarrow> bool option" where
  "bcv_instanceof fuel env a b =
     (if lr_tag a \<noteq> 6 then Some False
      else let proto = env_prototype_prop env b in
           if lr_tag proto \<noteq> 6 then Some False
           else proto_walk fuel env proto (env_get_prototype env a))"

section \<open>Binary operators\<close>

definition bool_val :: "bool \<Rightarrow> op_result" where
  "bool_val b = Op_val (LR_BOOL b)"

definition binop_f64 :: "binop \<Rightarrow> u64 \<Rightarrow> u64 \<Rightarrow> op_result option" where
  "binop_f64 op fa fb =
     (case op of
        ADD \<Rightarrow> Some (Op_val (LR_FLOAT64 (f64_add fa fb)))
      | SUB \<Rightarrow> Some (Op_val (LR_FLOAT64 (f64_sub fa fb)))
      | MUL \<Rightarrow> Some (Op_val (LR_FLOAT64 (f64_mul fa fb)))
      | DIV \<Rightarrow> Some (Op_val (LR_FLOAT64 (f64_div fa fb)))
      | LT \<Rightarrow> Some (bool_val (f64_lt fa fb))
      | GT \<Rightarrow> Some (bool_val (f64_lt fb fa))
      | LE \<Rightarrow> Some (bool_val (f64_le fa fb))
      | GE \<Rightarrow> Some (bool_val (f64_le fb fa))
      | EQ \<Rightarrow> Some (bool_val (f64_eq fa fb))
      | STRICT_EQ \<Rightarrow> Some (bool_val (f64_eq fa fb))
      | NE \<Rightarrow> Some (bool_val (\<not> f64_eq fa fb))
      | STRICT_NE \<Rightarrow> Some (bool_val (\<not> f64_eq fa fb))
      | _ \<Rightarrow> None)"

text \<open>C division and remainder truncate towards zero.\<close>

definition c_quot :: "int \<Rightarrow> int \<Rightarrow> int" where
  "c_quot a b = (if (a < 0) = (b < 0) then \<bar>a\<bar> div \<bar>b\<bar> else - (\<bar>a\<bar> div \<bar>b\<bar>))"

definition c_rem :: "int \<Rightarrow> int \<Rightarrow> int" where
  "c_rem a b = (if a < 0 then - (\<bar>a\<bar> mod \<bar>b\<bar>) else a mod \<bar>b\<bar>)"

definition binop_bigint :: "binop \<Rightarrow> u64 \<Rightarrow> u64 \<Rightarrow> op_result option" where
  "binop_bigint op x y =
     (case op of
        ADD \<Rightarrow> Some (Op_bigint (x + y))
      | SUB \<Rightarrow> Some (Op_bigint (x - y))
      | MUL \<Rightarrow> Some (Op_bigint (x * y))
      | DIV \<Rightarrow> Some (if y = 0 then Op_throw ''Division by zero''
                   else if sint x = - (2 ^ 63) \<and> sint y = -1 then Op_trap
                   else Op_bigint (word_of_int (c_quot (sint x) (sint y))))
      | MOD \<Rightarrow> Some (if y = 0 then Op_throw ''Division by zero''
                   else if sint x = - (2 ^ 63) \<and> sint y = -1 then Op_trap
                   else Op_bigint (word_of_int (c_rem (sint x) (sint y))))
      | POW \<Rightarrow> Some (Op_bigint (x ^ nat (sint y)))
      | LT \<Rightarrow> Some (bool_val (sint x < sint y))
      | GT \<Rightarrow> Some (bool_val (sint x > sint y))
      | LE \<Rightarrow> Some (bool_val (sint x \<le> sint y))
      | GE \<Rightarrow> Some (bool_val (sint x \<ge> sint y))
      | EQ \<Rightarrow> Some (bool_val (x = y))
      | NE \<Rightarrow> Some (bool_val (x \<noteq> y))
      | STRICT_EQ \<Rightarrow> Some (bool_val (x = y))
      | STRICT_NE \<Rightarrow> Some (bool_val (x \<noteq> y))
      | SHL \<Rightarrow> Some (Op_bigint (push_bit (unat (y AND 63)) x))
      | SHR \<Rightarrow> Some (Op_bigint (signed_drop_bit (unat (y AND 63)) x))
      | SAR \<Rightarrow> Some (Op_bigint (signed_drop_bit (unat (y AND 63)) x))
      | BIT_AND \<Rightarrow> Some (Op_bigint (x AND y))
      | BIT_OR \<Rightarrow> Some (Op_bigint (x OR y))
      | BIT_XOR \<Rightarrow> Some (Op_bigint (x XOR y))
      | _ \<Rightarrow> None)"

text \<open>A 64-bit sum or difference of two \<open>int32\<close>: demoted when it fits.\<close>

definition fits_int32 :: "int \<Rightarrow> bool" where
  "fits_int32 v \<longleftrightarrow> - (2 ^ 31) \<le> v \<and> v \<le> 2 ^ 31 - 1"

definition box_int64 :: "int \<Rightarrow> lr_value" where
  "box_int64 v = (if fits_int32 v then LR_INT32 (word_of_int v) else LR_FLOAT64 (f64_of_int v))"

definition int32_shl :: "u32 \<Rightarrow> u32 \<Rightarrow> u32" where
  "int32_shl x y = push_bit (unat (y AND 31)) x"

definition int32_shr :: "u32 \<Rightarrow> u32 \<Rightarrow> u32" where
  "int32_shr x y = drop_bit (unat (y AND 31)) x"

definition int32_sar :: "u32 \<Rightarrow> u32 \<Rightarrow> u32" where
  "int32_sar x y = signed_drop_bit (unat (y AND 31)) x"

definition binop_int32 :: "binop \<Rightarrow> u32 \<Rightarrow> u32 \<Rightarrow> op_result option" where
  "binop_int32 op x y =
     (case op of
        ADD \<Rightarrow> Some (Op_val (box_int64 (sint x + sint y)))
      | SUB \<Rightarrow> Some (Op_val (box_int64 (sint x - sint y)))
      | MUL \<Rightarrow> Some (Op_val (bcv_number (f64_mul (f64_of_int (sint x)) (f64_of_int (sint y)))))
      | BIT_AND \<Rightarrow> Some (Op_val (LR_INT32 (x AND y)))
      | BIT_OR \<Rightarrow> Some (Op_val (LR_INT32 (x OR y)))
      | BIT_XOR \<Rightarrow> Some (Op_val (LR_INT32 (x XOR y)))
      | MOD \<Rightarrow> if y \<noteq> 0
          then Some (Op_val (LR_INT32 (if sint x = - (2 ^ 31) \<and> sint y = -1 then 0 else word_of_int (c_rem (sint x) (sint y)))))
          else None
      | SHL \<Rightarrow> Some (Op_val (LR_INT32 (int32_shl x y)))
      | SHR \<Rightarrow> Some (Op_val (LR_INT32 (int32_shr x y)))
      | SAR \<Rightarrow> Some (Op_val (LR_INT32 (int32_sar x y)))
      | LT \<Rightarrow> Some (bool_val (sint x < sint y))
      | GT \<Rightarrow> Some (bool_val (sint x > sint y))
      | LE \<Rightarrow> Some (bool_val (sint x \<le> sint y))
      | GE \<Rightarrow> Some (bool_val (sint x \<ge> sint y))
      | EQ \<Rightarrow> Some (bool_val (x = y))
      | STRICT_EQ \<Rightarrow> Some (bool_val (x = y))
      | NE \<Rightarrow> Some (bool_val (x \<noteq> y))
      | STRICT_NE \<Rightarrow> Some (bool_val (x \<noteq> y))
      | _ \<Rightarrow> None)"

text \<open>An object operand that is not a BigInt makes ADD a concatenation.\<close>

definition numeric_operand :: "js_env \<Rightarrow> lr_value \<Rightarrow> bool" where
  "numeric_operand env v = (case v of LR_OBJECT p \<Rightarrow> env_bigint env p \<noteq> None | _ \<Rightarrow> True)"

definition binop_generic :: "nat \<Rightarrow> js_env \<Rightarrow> binop \<Rightarrow> lr_value \<Rightarrow> lr_value \<Rightarrow> op_result option" where
  "binop_generic fuel env op a b =
     (let na = bcv_to_number env a; nb = bcv_to_number env b; ia = bcv_to_int32 a; ib = bcv_to_int32 b in
      case op of
        ADD \<Rightarrow> Some (Op_val
          (if lr_tag a = 5 \<or> lr_tag b = 5 then bcv_concat env a b
           else if \<not> numeric_operand env a \<or> \<not> numeric_operand env b then bcv_concat env a b
           else bcv_number (f64_add na nb)))
      | SUB \<Rightarrow> Some (Op_val (bcv_number (f64_sub na nb)))
      | MUL \<Rightarrow> Some (Op_val (bcv_number (f64_mul na nb)))
      | DIV \<Rightarrow> Some (Op_val (LR_FLOAT64 (f64_div na nb)))
      | MOD \<Rightarrow> Some (Op_val (if f64_eq nb 0 then LR_FLOAT64 F64_NAN else bcv_number (f64_mod na nb)))
      | POW \<Rightarrow> Some (Op_val (LR_FLOAT64 (env_pow env na nb)))
      | LT \<Rightarrow> Some (bool_val (bcv_relational env a b Rel_lt))
      | GT \<Rightarrow> Some (bool_val (bcv_relational env a b Rel_gt))
      | LE \<Rightarrow> Some (bool_val (bcv_relational env a b Rel_le))
      | GE \<Rightarrow> Some (bool_val (bcv_relational env a b Rel_ge))
      | EQ \<Rightarrow> Some (bool_val (bcv_abstract_eq env a b))
      | NE \<Rightarrow> Some (bool_val (\<not> bcv_abstract_eq env a b))
      | STRICT_EQ \<Rightarrow> Some (bool_val (bcv_strict_eq a b))
      | STRICT_NE \<Rightarrow> Some (bool_val (\<not> bcv_strict_eq a b))
      | SHL \<Rightarrow> Some (Op_val (LR_INT32 (int32_shl ia ib)))
      | SHR \<Rightarrow> Some (Op_val (LR_INT32 (int32_shr ia ib)))
      | SAR \<Rightarrow> Some (Op_val (LR_INT32 (int32_sar ia ib)))
      | BIT_AND \<Rightarrow> Some (Op_val (LR_INT32 (ia AND ib)))
      | BIT_OR \<Rightarrow> Some (Op_val (LR_INT32 (ia OR ib)))
      | BIT_XOR \<Rightarrow> Some (Op_val (LR_INT32 (ia XOR ib)))
      | IN \<Rightarrow> Some (if lr_tag b \<noteq> 6 then Op_throw ''right-hand side of 'in' must be an object''
                 else bool_val (env_has_property env b (cstr env a)))
      | INSTANCEOF \<Rightarrow> map_option bool_val (bcv_instanceof fuel env a b))"

definition or_else :: "'a option \<Rightarrow> 'a option \<Rightarrow> 'a option" where
  "or_else x y = (case x of None \<Rightarrow> y | Some _ \<Rightarrow> x)"

definition binop_fast :: "js_env \<Rightarrow> binop \<Rightarrow> lr_value \<Rightarrow> lr_value \<Rightarrow> op_result option" where
  "binop_fast env op a b =
     (case a of
        LR_FLOAT64 fa \<Rightarrow> (case b of LR_FLOAT64 fb \<Rightarrow> binop_f64 op fa fb | _ \<Rightarrow> None)
      | LR_OBJECT p \<Rightarrow>
          (case b of
             LR_OBJECT q \<Rightarrow>
               (case env_bigint env p of None \<Rightarrow> None
                | Some x \<Rightarrow> (case env_bigint env q of None \<Rightarrow> None | Some y \<Rightarrow> binop_bigint op x y))
           | _ \<Rightarrow> None)
      | LR_INT32 x \<Rightarrow> (case b of LR_INT32 y \<Rightarrow> binop_int32 op x y | _ \<Rightarrow> None)
      | _ \<Rightarrow> None)"

definition bcv_binop :: "nat \<Rightarrow> js_env \<Rightarrow> binop \<Rightarrow> lr_value \<Rightarrow> lr_value \<Rightarrow> op_result option" where
  "bcv_binop fuel env op a b = or_else (binop_fast env op a b) (binop_generic fuel env op a b)"

section \<open>The int32 fast path\<close>

lemma sint_u32: "- (2 ^ 31) \<le> sint (x :: u32)" "sint (x :: u32) < 2 ^ 31"
  using sint_greater_eq [of x] sint_less [of x] by simp_all

lemma sint_u32_small: "\<bar>sint (x :: u32)\<bar> < 2 ^ 53" "\<bar>sint (x :: u32) + sint (y :: u32)\<bar> < 2 ^ 53"
    "\<bar>sint (x :: u32) - sint (y :: u32)\<bar> < 2 ^ 53"
  using sint_u32 [of x] sint_u32 [of y] by simp_all

lemma bcv_number_int:
  assumes "\<bar>v\<bar> < 2 ^ 53"
  shows "bcv_number (f64_of_int v) = box_int64 v"
proof -
  have z: "(0 :: u64) = f64_of_int 0" by (simp add: f64_of_int_def f64_encode_def f64_mag_of_def f64_pack_def)
  have nz: "\<not> (f64_eq (f64_of_int v) 0 \<and> f64_sign (f64_of_int v))"
    unfolding z using assms by (simp add: f64_eq_int f64_of_int_fields)
  have inf: "\<not> f64_isinf (f64_of_int v)"
    using f64_mag_of_range [of "\<bar>v\<bar>"] assms by (simp add: f64_isinf_def f64_of_int_fields)
  show ?thesis
  proof (cases "fits_int32 v")
    case True
    then have "f64_cast 32 (f64_of_int v) = v" using f64_cast_int [of v] by (simp add: fits_int32_def)
    then show ?thesis using True assms nz inf by (simp add: bcv_number_def box_int64_def f64_eq_int)
  next
    case False
    then have "f64_cast 32 (f64_of_int v) = - (2 ^ 31)"
      using assms by (auto simp: f64_cast_def f64_trunc_int fits_int32_def)
    moreover have "v \<noteq> - (2 ^ 31)" using False by (auto simp: fits_int32_def)
    ultimately show ?thesis using False assms f64_eq_int [of v "- (2 ^ 31)"] by (simp add: bcv_number_def box_int64_def)
  qed
qed

lemmas f64_int32 [simp] =
  f64_of_int_not_nan [OF sint_u32_small(1)]
  f64_lt_int [OF sint_u32_small(1) sint_u32_small(1)] f64_le_int [OF sint_u32_small(1) sint_u32_small(1)]
  f64_eq_int [OF sint_u32_small(1) sint_u32_small(1)]
  f64_add_int [OF sint_u32_small(1) sint_u32_small(1)] f64_sub_int [OF sint_u32_small(1) sint_u32_small(1)]
  bcv_number_int [OF sint_u32_small(1)] bcv_number_int [OF sint_u32_small(2)] bcv_number_int [OF sint_u32_small(3)]

lemma relational_int32:
  "bcv_relational env (LR_INT32 x) (LR_INT32 y) r =
     (case r of Rel_lt \<Rightarrow> sint x < sint y | Rel_gt \<Rightarrow> sint y < sint x | Rel_le \<Rightarrow> sint x \<le> sint y | Rel_ge \<Rightarrow> sint y \<le> sint x)"
  by (simp add: bcv_relational_def bcv_to_number_def Let_def split: rel.split)

lemma binop_int32_agrees:
  assumes "op \<noteq> MOD" "binop_int32 op x y = Some r"
  shows "binop_generic fuel env op (LR_INT32 x) (LR_INT32 y) = Some r"
proof (cases op)
  case ADD
  then show ?thesis using assms(2)
    by (simp add: binop_int32_def binop_generic_def numeric_operand_def bcv_to_number_def Let_def)
next
  case SUB
  then show ?thesis using assms(2)
    by (simp add: binop_int32_def binop_generic_def bcv_to_number_def Let_def)
next
  case EQ
  then show ?thesis using assms(2)
    by (simp add: binop_int32_def binop_generic_def bcv_strict_eq_def bcv_abstract_eq.simps [of env "LR_INT32 x"] Let_def)
next
  case NE
  then show ?thesis using assms(2)
    by (simp add: binop_int32_def binop_generic_def bcv_strict_eq_def bcv_abstract_eq.simps [of env "LR_INT32 x"] Let_def)
qed (use assms in \<open>simp_all add: binop_int32_def binop_generic_def bcv_strict_eq_def relational_int32 bcv_to_number_def bcv_to_int32_def Let_def\<close>)

text \<open>(C8) The int32 fast path is invisible: for every operator but \<open>%\<close> the result on two int32 operands is, bit for bit,
  what the general path computes through doubles (sums and differences that leave the 32-bit range included).\<close>

theorem int32_fast_path_agrees:
  assumes "op \<noteq> MOD"
  shows "bcv_binop fuel env op (LR_INT32 x) (LR_INT32 y) = binop_generic fuel env op (LR_INT32 x) (LR_INT32 y)"
  using binop_int32_agrees [OF assms, of x y _ fuel env]
  by (cases "binop_int32 op x y") (simp_all add: bcv_binop_def binop_fast_def or_else_def)

definition test_env :: js_env where
  "test_env = \<lparr>env_strtod = \<lambda>_. (0, 0), env_pow = \<lambda>a b. 0, env_fmt17 = \<lambda>_. [], env_cstring = \<lambda>_. [], env_bigint = \<lambda>p. Some p,
     env_is_function = \<lambda>_. False, env_has_property = \<lambda>_ _. False, env_get_prototype = \<lambda>_. LR_NULL,
     env_prototype_prop = \<lambda>_. LR_NULL\<rparr>"

theorem int32_fast_path_agrees_witness:
  "bcv_binop 1 test_env ADD (LR_INT32 0x7FFFFFFF) (LR_INT32 1) = Some (Op_val (LR_FLOAT64 0x41E0000000000000))
   \<and> binop_generic 1 test_env ADD (LR_INT32 0x7FFFFFFF) (LR_INT32 1) = Some (Op_val (LR_FLOAT64 0x41E0000000000000))"
proof -
  have "bcv_binop 1 test_env ADD (LR_INT32 0x7FFFFFFF) (LR_INT32 1) = Some (Op_val (LR_FLOAT64 0x41E0000000000000))"
    by code_simp
  with int32_fast_path_agrees [of ADD 1 test_env "0x7FFFFFFF" 1] show ?thesis by simp
qed

section \<open>Numbers have two representations\<close>

text \<open>Strict equality compares the boxes before the numbers: \<open>4 / 2 === 2\<close> is false, because a quotient is always
  boxed as a double and the literal as an int32.\<close>

theorem quotient_not_strictly_equal:
  "bcv_binop 1 env DIV (LR_INT32 4) (LR_INT32 2) = Some (Op_val (LR_FLOAT64 (f64_of_int 2)))
   \<and> bcv_binop 1 env STRICT_EQ (LR_FLOAT64 (f64_of_int 2)) (LR_INT32 2) = Some (Op_val (LR_BOOL False))"
proof
  have "f64_div (f64_of_int (sint (4 :: u32))) (f64_of_int (sint (2 :: u32))) = f64_of_int 2" by code_simp
  then show "bcv_binop 1 env DIV (LR_INT32 4) (LR_INT32 2) = Some (Op_val (LR_FLOAT64 (f64_of_int 2)))"
    by (simp add: bcv_binop_def binop_fast_def bcv_strict_eq_def binop_int32_def or_else_def binop_generic_def bcv_to_number_def Let_def)
  show "bcv_binop 1 env STRICT_EQ (LR_FLOAT64 (f64_of_int 2)) (LR_INT32 2) = Some (Op_val (LR_BOOL False))"
    by (simp add: bcv_binop_def binop_fast_def bcv_strict_eq_def or_else_def binop_generic_def bool_val_def)
qed

text \<open>\<open>-1 >>> 0\<close> is boxed as the int32 -1; the language's result is 4294967295. \<open>-4 % 2\<close> loses the sign of its zero.\<close>

theorem int32_results_off:
  "bcv_binop 1 env SHR (LR_INT32 (-1)) (LR_INT32 0) = Some (Op_val (LR_INT32 (-1)))
   \<and> bcv_binop 1 env MOD (LR_INT32 (-4)) (LR_INT32 2) = Some (Op_val (LR_INT32 0))
   \<and> binop_generic 1 env MOD (LR_INT32 (-4)) (LR_INT32 2) = Some (Op_val (LR_FLOAT64 0x8000000000000000))"
proof (intro conjI)
  show "bcv_binop 1 env SHR (LR_INT32 (-1)) (LR_INT32 0) = Some (Op_val (LR_INT32 (-1)))"
    by (simp add: bcv_binop_def binop_fast_def bcv_strict_eq_def binop_int32_def or_else_def int32_shr_def)
  have "c_rem (sint (-4 :: u32)) (sint (2 :: u32)) = 0" by code_simp
  then show "bcv_binop 1 env MOD (LR_INT32 (-4)) (LR_INT32 2) = Some (Op_val (LR_INT32 0))"
    by (simp add: bcv_binop_def binop_fast_def bcv_strict_eq_def binop_int32_def or_else_def)
  have "\<not> f64_eq (f64_of_int (sint (2 :: u32))) 0"
      "bcv_number (f64_mod (f64_of_int (sint (-4 :: u32))) (f64_of_int (sint (2 :: u32)))) = LR_FLOAT64 0x8000000000000000"
    by code_simp+
  then show "binop_generic 1 env MOD (LR_INT32 (-4)) (LR_INT32 2) = Some (Op_val (LR_FLOAT64 0x8000000000000000))"
    by (simp add: binop_generic_def bcv_to_number_def Let_def)
qed

section \<open>Orders and equality\<close>

lemma bytes_cmp_lexord: "bytes_cmp s t < 0 \<longleftrightarrow> (s, t) \<in> lexord {(x, y). x < y}"
  by (induction s t rule: bytes_cmp.induct) auto

lemma bytes_cmp_swap: "bytes_cmp t s = - bytes_cmp s t"
  by (induction s t rule: bytes_cmp.induct) auto

lemma bytes_cmp_zero: "bytes_cmp s t = 0 \<longleftrightarrow> s = t"
  by (induction s t rule: bytes_cmp.induct) auto

text \<open>Strings are compared bytewise in dictionary order: the four relational operators are the strict order and its
  converse and complements, and exactly one of \<open><\<close>, \<open>===\<close> and \<open>>\<close> holds.\<close>

theorem string_comparison_total_order:
  fixes fuel env s t
  defines "holds \<equiv> \<lambda>op. bcv_binop fuel env op (LR_STRING s) (LR_STRING t) = Some (Op_val (LR_BOOL True))"
  shows "(holds LT \<longleftrightarrow> (s, t) \<in> lexord {(x, y). x < y}) \<and> (holds GT \<longleftrightarrow> (t, s) \<in> lexord {(x, y). x < y})
    \<and> (holds LE \<longleftrightarrow> \<not> holds GT) \<and> (holds GE \<longleftrightarrow> \<not> holds LT) \<and> (holds STRICT_EQ \<longleftrightarrow> s = t) \<and> (holds EQ \<longleftrightarrow> s = t)
    \<and> (holds STRICT_EQ \<longleftrightarrow> \<not> holds LT \<and> \<not> holds GT)"
proof -
  have "holds LT \<longleftrightarrow> bytes_cmp s t < 0" "holds GT \<longleftrightarrow> 0 < bytes_cmp s t" "holds LE \<longleftrightarrow> bytes_cmp s t \<le> 0"
      "holds GE \<longleftrightarrow> 0 \<le> bytes_cmp s t" "holds STRICT_EQ \<longleftrightarrow> s = t" "holds EQ \<longleftrightarrow> s = t"
    by (simp_all add: holds_def bcv_binop_def binop_fast_def bcv_strict_eq_def or_else_def binop_generic_def bcv_relational_def bool_val_def Let_def
        bcv_abstract_eq.simps [of env "LR_STRING s"])
  then show ?thesis
    using bytes_cmp_lexord [of s t] bytes_cmp_lexord [of t s] bytes_cmp_swap [of s t] bytes_cmp_zero [of s t] by auto
qed

lemma f64_eq_commute: "f64_eq a b = f64_eq b a"
  by (auto simp: f64_eq_def)

lemma bcv_strict_eq_sym: "bcv_strict_eq a b = bcv_strict_eq b a"
  by (cases a; cases b) (auto simp: bcv_strict_eq_def f64_eq_commute)

text \<open>Against a string, an object counts as its string form.\<close>

lemma abstract_eq_string:
  "lr_tag v \<noteq> 6 \<Longrightarrow> bcv_abstract_eq env (LR_STRING s) v = bcv_abstract_eq env v (LR_STRING s)"
  by (cases v) (auto simp: bcv_abstract_eq.simps [of env "LR_STRING s"] bcv_abstract_eq.simps [of env _ "LR_STRING s"]
      bcv_strict_eq_def Let_def f64_eq_commute)

lemma abstract_eq_object:
  "lr_tag v \<noteq> 6 \<Longrightarrow> bcv_abstract_eq env (LR_OBJECT p) v =
     (lr_tag v \<in> {2, 3, 4, 5} \<and> bcv_abstract_eq env (LR_STRING (cstr env (LR_OBJECT p))) v)"
  "lr_tag v \<noteq> 6 \<Longrightarrow> bcv_abstract_eq env v (LR_OBJECT p) =
     (lr_tag v \<in> {2, 3, 4, 5} \<and> bcv_abstract_eq env v (LR_STRING (cstr env (LR_OBJECT p))))"
  by (cases v; simp add: bcv_abstract_eq.simps [of env "LR_OBJECT p"])
     (cases v; simp add: bcv_abstract_eq.simps [of env _ "LR_OBJECT p"])

lemma abstract_eq_primitive:
  "lr_tag a \<noteq> 6 \<Longrightarrow> lr_tag b \<noteq> 6 \<Longrightarrow> bcv_abstract_eq env a b = bcv_abstract_eq env b a"
  by (subst (1 2) bcv_abstract_eq.simps) (auto simp: Let_def f64_eq_commute bcv_strict_eq_sym [of a b])

lemma bcv_abstract_eq_sym: "bcv_abstract_eq env a b = bcv_abstract_eq env b a"
proof (cases "lr_tag a = 6"; cases "lr_tag b = 6")
  assume t: "lr_tag a = 6" "lr_tag b = 6"
  then show ?thesis
    by (simp add: bcv_abstract_eq.simps [of env a b] bcv_abstract_eq.simps [of env b a] bcv_strict_eq_sym [of a b])
next
  assume t: "lr_tag a = 6" "lr_tag b \<noteq> 6"
  then obtain p where "a = LR_OBJECT p" by (cases a) auto
  then show ?thesis using t abstract_eq_string [of b env] by (simp add: abstract_eq_object)
next
  assume t: "lr_tag a \<noteq> 6" "lr_tag b = 6"
  then obtain p where "b = LR_OBJECT p" by (cases b) auto
  then show ?thesis using t abstract_eq_string [of a env] by (simp add: abstract_eq_object)
qed (rule abstract_eq_primitive)

lemma binop_fast_None: "\<not> (lr_tag a = lr_tag b \<and> lr_tag a \<in> {3, 4, 6}) \<Longrightarrow> binop_fast env op a b = None"
  by (cases a; cases b) (simp_all add: binop_fast_def)

text \<open>Both equality operators are symmetric on all values, coercions of objects, strings and booleans included.\<close>

theorem equality_symmetric:
  "bcv_binop fuel env EQ a b = bcv_binop fuel env EQ b a
   \<and> bcv_binop fuel env STRICT_EQ a b = bcv_binop fuel env STRICT_EQ b a"
proof -
  have f: "binop_f64 op x y = binop_f64 op y x" and i: "binop_int32 op u v = binop_int32 op v u"
      and g: "binop_bigint op x y = binop_bigint op y x" if "op = EQ \<or> op = STRICT_EQ" for op x y u v
    using that f64_eq_commute [of x y] eq_commute [of u v] eq_commute [of x y]
    by (elim disjE; simp add: binop_f64_def binop_int32_def binop_bigint_def)+
  have fast: "binop_fast env op a b = binop_fast env op b a" if op: "op = EQ \<or> op = STRICT_EQ" for op
  proof (cases "lr_tag a = lr_tag b \<and> lr_tag a \<in> {3, 4, 6}")
    case False
    then have "binop_fast env op a b = None" "binop_fast env op b a = None" by (intro binop_fast_None; auto)+
    then show ?thesis by simp
  next
    case True
    then consider x y where "a = LR_INT32 x" "b = LR_INT32 y" | x y where "a = LR_FLOAT64 x" "b = LR_FLOAT64 y"
      | x y where "a = LR_OBJECT x" "b = LR_OBJECT y" by (cases a; cases b) auto
    then show ?thesis
    proof cases
      case 3
      then show ?thesis
        by (cases "env_bigint env x"; cases "env_bigint env y") (simp_all add: binop_fast_def g [OF op])
    qed (use i [OF op] f [OF op] in \<open>simp_all add: binop_fast_def\<close>)
  qed
  have "binop_generic fuel env op a b = binop_generic fuel env op b a" if "op = EQ \<or> op = STRICT_EQ" for op
    using that bcv_abstract_eq_sym [of env a b] bcv_strict_eq_sym [of a b] by (elim disjE) (simp_all only: binop_generic_def Let_def binop.case)
  then show ?thesis unfolding bcv_binop_def using fast by simp
qed

text \<open>BigInt division traps the processor on the one overflowing quotient: the zero divisor is checked, \<open>-1\<close> is not
  (the int32 path has that check).\<close>

theorem bigint_division_traps:
  "bcv_binop 1 test_env DIV (LR_OBJECT 0x8000000000000000) (LR_OBJECT (-1)) = Some Op_trap
   \<and> bcv_binop 1 test_env MOD (LR_OBJECT 0x8000000000000000) (LR_OBJECT (-1)) = Some Op_trap
   \<and> bcv_binop 1 test_env DIV (LR_OBJECT 7) (LR_OBJECT 0) = Some (Op_throw ''Division by zero'')"
  by code_simp

end
