(* ===== verification/LR_VM.thy ===== *)
theory LR_VM
  imports LR_Emit LR_Ops
begin

unbundle bit_operations_syntax

text \<open>
  The stack machine (\<open>bc_execute\<close> of \<^verbatim>\<open>src/engine/lr_bytecode_exec.c\<close>) for the instructions that work on the operand stack,
  the slots of the current scope, the constant pool and the program counter.

  The stack is a list with its top first. Popping an empty stack gives \<open>undefined\<close>, as the macro does. Reference
  counts and buffer reuse of strings are not part of the state: a string is its bytes. The run is at call depth 0 with no
  execution timeout and no JIT, so \<open>LOOP_TICK\<close> does nothing. \<open>Vm_out\<close> is an instruction outside this set, or a
  counter outside the code.
\<close>

section \<open>State\<close>

record vm =
  v_stack :: "lr_value list"
  v_locals :: "lr_value list"
  v_bigints :: "u64 \<Rightarrow> u64 option"
  v_next :: u64
  v_result :: lr_value
  v_pc :: int

datatype vm_status = Vm_run | Vm_done | Vm_abort | Vm_trap | Vm_out

definition vm_push :: "lr_value \<Rightarrow> vm \<Rightarrow> vm" where
  "vm_push v s = s\<lparr>v_stack := v # v_stack s\<rparr>"

definition vm_top :: "vm \<Rightarrow> lr_value" where
  "vm_top s = (case v_stack s of [] \<Rightarrow> LR_UNDEFINED | v # _ \<Rightarrow> v)"

definition vm_drop :: "vm \<Rightarrow> vm" where
  "vm_drop s = s\<lparr>v_stack := tl (v_stack s)\<rparr>"

definition slot_ok :: "vm \<Rightarrow> nat \<Rightarrow> bool" where
  "slot_ok s slot \<longleftrightarrow> slot < length (v_locals s) mod 65536"

definition set_slot :: "nat \<Rightarrow> lr_value \<Rightarrow> vm \<Rightarrow> vm" where
  "set_slot slot v s = s\<lparr>v_locals := (v_locals s)[slot := v]\<rparr>"

section \<open>Binary operators\<close>

text \<open>The quick paths of the handlers; \<open>None\<close> where they go to \<open>binop_shared\<close>.\<close>

definition num_bits :: "lr_value \<Rightarrow> u64" where
  "num_bits v = (case v of LR_INT32 i \<Rightarrow> f64_of_int (sint i) | LR_FLOAT64 d \<Rightarrow> d | _ \<Rightarrow> 0)"

definition mixed_or_float :: "lr_value \<Rightarrow> lr_value \<Rightarrow> bool" where
  "mixed_or_float a b \<longleftrightarrow> is_num a \<and> is_num b \<and> (lr_tag a = 4 \<or> lr_tag b = 4)"

definition quick_mul_int :: "u32 \<Rightarrow> u32 \<Rightarrow> lr_value" where
  "quick_mul_int x y =
     (let d = f64_mul (f64_of_int (sint x)) (f64_of_int (sint y)); i = f64_cast 32 d in
      if f64_eq d (f64_of_int i) \<and> \<not> f64_isnan d \<and> \<not> f64_isinf d then LR_INT32 (word_of_int i) else LR_FLOAT64 d)"

definition quick_string_add :: "lr_value \<Rightarrow> lr_value \<Rightarrow> lr_value option" where
  "quick_string_add a b =
     (case a of
        LR_STRING s \<Rightarrow> (case b of LR_STRING t \<Rightarrow> Some (LR_STRING (s @ t)) | LR_INT32 i \<Rightarrow> Some (LR_STRING (s @ fmt_d (sint i))) | _ \<Rightarrow> None)
      | LR_INT32 i \<Rightarrow> (case b of LR_STRING t \<Rightarrow> Some (LR_STRING (fmt_d (sint i) @ t)) | _ \<Rightarrow> None)
      | _ \<Rightarrow> None)"

definition quick_int :: "binop \<Rightarrow> u32 \<Rightarrow> u32 \<Rightarrow> lr_value option" where
  "quick_int op x y =
     (case op of
        ADD \<Rightarrow> Some (box_int64 (sint x + sint y))
      | SUB \<Rightarrow> Some (box_int64 (sint x - sint y))
      | MUL \<Rightarrow> Some (quick_mul_int x y)
      | LT \<Rightarrow> Some (LR_BOOL (sint x < sint y))
      | GT \<Rightarrow> Some (LR_BOOL (sint x > sint y))
      | LE \<Rightarrow> Some (LR_BOOL (sint x \<le> sint y))
      | GE \<Rightarrow> Some (LR_BOOL (sint x \<ge> sint y))
      | EQ \<Rightarrow> Some (LR_BOOL (x = y))
      | NE \<Rightarrow> Some (LR_BOOL (x \<noteq> y))
      | STRICT_EQ \<Rightarrow> Some (LR_BOOL (x = y))
      | STRICT_NE \<Rightarrow> Some (LR_BOOL (x \<noteq> y))
      | SHL \<Rightarrow> Some (LR_INT32 (int32_shl x y))
      | SHR \<Rightarrow> Some (LR_INT32 (int32_shr x y))
      | SAR \<Rightarrow> Some (LR_INT32 (int32_sar x y))
      | BIT_AND \<Rightarrow> Some (LR_INT32 (x AND y))
      | BIT_OR \<Rightarrow> Some (LR_INT32 (x OR y))
      | BIT_XOR \<Rightarrow> Some (LR_INT32 (x XOR y))
      | _ \<Rightarrow> None)"

definition quick_num :: "binop \<Rightarrow> lr_value \<Rightarrow> lr_value \<Rightarrow> lr_value option" where
  "quick_num op a b =
     (let x = num_bits a; y = num_bits b in
      case op of
        ADD \<Rightarrow> Some (LR_FLOAT64 (f64_add x y))
      | SUB \<Rightarrow> Some (LR_FLOAT64 (f64_sub x y))
      | MUL \<Rightarrow> Some (LR_FLOAT64 (f64_mul x y))
      | LT \<Rightarrow> Some (LR_BOOL (f64_lt x y))
      | GT \<Rightarrow> Some (LR_BOOL (f64_lt y x))
      | GE \<Rightarrow> Some (LR_BOOL (f64_le y x))
      | EQ \<Rightarrow> Some (LR_BOOL (f64_eq x y))
      | NE \<Rightarrow> Some (LR_BOOL (\<not> f64_eq x y))
      | STRICT_EQ \<Rightarrow> if lr_tag a = lr_tag b then Some (LR_BOOL (f64_eq x y)) else None
      | STRICT_NE \<Rightarrow> if lr_tag a = lr_tag b then Some (LR_BOOL (\<not> f64_eq x y)) else None
      | _ \<Rightarrow> None)"

definition vm_quick :: "binop \<Rightarrow> lr_value \<Rightarrow> lr_value \<Rightarrow> lr_value option" where
  "vm_quick op a b =
     (if lr_tag a = 3 \<and> lr_tag b = 3 then quick_int op (bcv_to_int32 a) (bcv_to_int32 b)
      else if mixed_or_float a b then quick_num op a b
      else if op = ADD then quick_string_add a b
      else None)"

definition vm_binop :: "nat \<Rightarrow> js_env \<Rightarrow> binop \<Rightarrow> lr_value \<Rightarrow> lr_value \<Rightarrow> op_result option" where
  "vm_binop fuel env op a b =
     (case vm_quick op a b of Some v \<Rightarrow> Some (Op_val v) | None \<Rightarrow> bcv_binop fuel env op a b)"

definition binops :: "binop list" where
  "binops = [ADD, SUB, MUL, DIV, MOD, POW, LT, GT, LE, GE, EQ, NE, STRICT_EQ, STRICT_NE, SHL, SHR, SAR,
     BIT_AND, BIT_OR, BIT_XOR, IN, INSTANCEOF]"

definition binop_of_byte :: "byte \<Rightarrow> binop option" where
  "binop_of_byte op = (if 26 \<le> op \<and> op \<le> 47 then Some (binops ! (unat op - 26)) else None)"

text \<open>The state's BigInt objects are the ones the operators see; a BigInt result is a new object.\<close>

definition vm_env :: "js_env \<Rightarrow> vm \<Rightarrow> js_env" where
  "vm_env env s = env\<lparr>env_bigint := v_bigints s\<rparr>"

definition vm_take :: "op_result option \<Rightarrow> (lr_value \<Rightarrow> vm \<Rightarrow> vm) \<Rightarrow> vm \<Rightarrow> vm_status \<times> vm" where
  "vm_take r k s =
     (case r of
        None \<Rightarrow> (Vm_out, s)
      | Some (Op_val v) \<Rightarrow> (Vm_run, k v s)
      | Some (Op_bigint x) \<Rightarrow>
          (Vm_run, k (LR_OBJECT (v_next s)) (s\<lparr>v_bigints := (v_bigints s)(v_next s := Some x), v_next := v_next s + 8\<rparr>))
      | Some (Op_throw _) \<Rightarrow> (Vm_abort, s)
      | Some Op_trap \<Rightarrow> (Vm_trap, s))"

section \<open>Slots\<close>

text \<open>\<open>INC_LOCAL\<close>: the old and the new value. The int32 path adds without a range check.\<close>

definition vm_inc_local :: "nat \<Rightarrow> js_env \<Rightarrow> bool \<Rightarrow> nat \<Rightarrow> vm \<Rightarrow> vm_status \<times> vm" where
  "vm_inc_local fuel env keep slot s =
     (if \<not> slot_ok s slot then (Vm_run, if keep then vm_push LR_UNDEFINED s else s)
      else let old = v_locals s ! slot; finish = (\<lambda>v s. if keep then vm_push old (set_slot slot v s) else set_slot slot v s) in
        case old of
          LR_INT32 i \<Rightarrow> (Vm_run, finish (LR_INT32 (i + 1)) s)
        | _ \<Rightarrow> vm_take (bcv_binop fuel (vm_env env s) ADD old (LR_INT32 1)) finish s)"

definition vm_add_self :: "nat \<Rightarrow> js_env \<Rightarrow> nat \<Rightarrow> vm \<Rightarrow> vm_status \<times> vm" where
  "vm_add_self fuel env slot s =
     (let b = vm_top s; s = vm_drop s; finish = (\<lambda>v s. vm_push v (set_slot slot v s)) in
      if \<not> slot_ok s slot then (Vm_run, vm_push LR_UNDEFINED s)
      else let a = v_locals s ! slot in
        case (if lr_tag a = 5 then quick_string_add a b else None) of
          Some v \<Rightarrow> (Vm_run, finish v s)
        | None \<Rightarrow> vm_take (bcv_binop fuel (vm_env env s) ADD a b) finish s)"

text \<open>
  Reference counts are outside the model, so it does not show that the fallback of \<open>mul_self\<close> releases the old heap value of
  the slot twice (once as \<open>a_fallback\<close>, which took no reference, once as the slot's content) where \<open>add_self\<close> releases it once.
\<close>

definition vm_mul_self :: "nat \<Rightarrow> js_env \<Rightarrow> nat \<Rightarrow> vm \<Rightarrow> vm_status \<times> vm" where
  "vm_mul_self fuel env slot s =
     (let b = vm_top s; s = vm_drop s; ok = slot_ok s slot;
          a = (if ok then v_locals s ! slot else LR_UNDEFINED);
          finish = (\<lambda>v s. vm_push v (if ok then set_slot slot v s else s)) in
      case (if ok then vm_quick MUL a b else None) of
        Some v \<Rightarrow> (Vm_run, finish v s)
      | None \<Rightarrow> vm_take (bcv_binop fuel (vm_env env s) MUL a b) finish s)"

section \<open>One instruction\<close>

text \<open>\<open>as\<close> are the operands; the counter is already past them.\<close>

definition vm_jump :: "int \<Rightarrow> vm \<Rightarrow> vm" where
  "vm_jump off s = s\<lparr>v_pc := v_pc s + off\<rparr>"

definition vm_unary :: "(lr_value \<Rightarrow> lr_value) \<Rightarrow> vm \<Rightarrow> vm_status \<times> vm" where
  "vm_unary f s = (Vm_run, vm_push (f (vm_top s)) (vm_drop s))"

definition pool_f64 :: "bc_const list \<Rightarrow> nat \<Rightarrow> u64" where
  "pool_f64 pool i = (if i < length pool then (case c_val (pool ! i) of Pool_float64 d \<Rightarrow> d | _ \<Rightarrow> 0) else 0)"

definition pool_str :: "bc_const list \<Rightarrow> nat \<Rightarrow> bytes" where
  "pool_str pool i = (if i < length pool then (case c_val (pool ! i) of Pool_string t \<Rightarrow> t | _ \<Rightarrow> []) else [])"

definition str_bytes :: "string \<Rightarrow> bytes" where
  "str_bytes t = map (\<lambda>c. of_char c) t"

definition vm_exec0 :: "nat \<Rightarrow> js_env \<Rightarrow> byte \<Rightarrow> vm \<Rightarrow> vm_status \<times> vm" where
  "vm_exec0 fuel env op s =
     (if op = BC_STOP then (Vm_done, s)
      else if op = BC_NOP \<or> op = BC_LOOP_TICK then (Vm_run, s)
      else if op = BC_PUSH_UNDEFINED then (Vm_run, vm_push LR_UNDEFINED s)
      else if op = BC_PUSH_NULL then (Vm_run, vm_push LR_NULL s)
      else if op = BC_PUSH_TRUE then (Vm_run, vm_push (LR_BOOL True) s)
      else if op = BC_PUSH_FALSE then (Vm_run, vm_push (LR_BOOL False) s)
      else if op = BC_POP then (Vm_run, vm_drop s)
      else if op = BC_DUP then (Vm_run, vm_push (vm_top s) s)
      else if op = BC_DUP2 then
        (case v_stack s of b # a # st \<Rightarrow> (Vm_run, s\<lparr>v_stack := b # a # b # a # st\<rparr>) | _ \<Rightarrow> (Vm_abort, s))
      else if op = BC_SWAP then
        (case v_stack s of b # a # st \<Rightarrow> (Vm_run, s\<lparr>v_stack := a # b # st\<rparr>) | _ \<Rightarrow> (Vm_abort, s))
      else if op = BC_ROT3 then
        (case v_stack s of c # b # a # st \<Rightarrow> (Vm_run, s\<lparr>v_stack := b # a # c # st\<rparr>) | _ \<Rightarrow> (Vm_abort, s))
      else if op = BC_NEG then vm_unary (\<lambda>v. bcv_number (f64_neg (bcv_to_number env v))) s
      else if op = BC_POS \<or> op = BC_TO_NUMBER then vm_unary (\<lambda>v. bcv_number (bcv_to_number env v)) s
      else if op = BC_NOT then vm_unary (\<lambda>v. LR_BOOL (\<not> lr_to_bool v)) s
      else if op = BC_TO_BOOL then vm_unary (\<lambda>v. LR_BOOL (lr_to_bool v)) s
      else if op = BC_BIT_NOT then vm_unary (\<lambda>v. LR_INT32 (NOT (bcv_to_int32 v))) s
      else if op = BC_TYPEOF then vm_unary (\<lambda>v. LR_STRING (str_bytes (bcv_typeof (vm_env env s) v))) s
      else if op = BC_VOID then vm_unary (\<lambda>v. LR_UNDEFINED) s
      else if op = BC_TO_STRING then vm_unary (\<lambda>v. LR_STRING (cstr env v)) s
      else if op = BC_SET_RESULT then (Vm_run, (vm_drop s)\<lparr>v_result := vm_top s\<rparr>)
      else if op = BC_CLEAR_RESULT then (Vm_run, s\<lparr>v_result := LR_UNDEFINED\<rparr>)
      else case binop_of_byte op of
        None \<Rightarrow> (Vm_out, s)
      | Some bop \<Rightarrow>
          (case v_stack s of
             b # a # st \<Rightarrow> vm_take (vm_binop fuel (vm_env env s) bop a b) vm_push (s\<lparr>v_stack := st\<rparr>)
           | _ \<Rightarrow> (Vm_abort, s)))"

definition vm_exec16 :: "nat \<Rightarrow> js_env \<Rightarrow> bc_const list \<Rightarrow> byte \<Rightarrow> nat \<Rightarrow> vm \<Rightarrow> vm_status \<times> vm" where
  "vm_exec16 fuel env pool op i s =
     (if op = BC_PUSH_FLOAT64 then (Vm_run, vm_push (LR_FLOAT64 (pool_f64 pool i)) s)
      else if op = BC_PUSH_STRING then (Vm_run, vm_push (LR_STRING (pool_str pool i)) s)
      else if op = BC_LOAD_LOCAL then (Vm_run, vm_push (if slot_ok s i then v_locals s ! i else LR_UNDEFINED) s)
      else if op = BC_STORE_LOCAL then
        (Vm_run, let t = vm_drop s in if slot_ok s i then set_slot i (vm_top s) t else t)
      else if op = BC_INC_LOCAL then vm_inc_local fuel env True i s
      else if op = BC_INC_LOCAL_DISCARD then vm_inc_local fuel env False i s
      else if op = BC_ADD_SELF then vm_add_self fuel env i s
      else if op = BC_MUL_SELF then vm_mul_self fuel env i s
      else (Vm_out, s))"

definition vm_exec32 :: "byte \<Rightarrow> int \<Rightarrow> vm \<Rightarrow> vm_status \<times> vm" where
  "vm_exec32 op off s =
     (if op = BC_PUSH_INT32 then (Vm_run, vm_push (LR_INT32 (word_of_int off)) s)
      else if op = BC_JUMP then (Vm_run, vm_jump off s)
      else if op = BC_JUMP_IF_FALSE then
        (Vm_run, let t = vm_drop s in if lr_to_bool (vm_top s) then t else vm_jump off t)
      else if op = BC_JUMP_IF_TRUE then
        (Vm_run, let t = vm_drop s in if lr_to_bool (vm_top s) then vm_jump off t else t)
      else if op = BC_JUMP_IF_FALSE_KEEP \<or> op = BC_JUMP_IF_TRUE_KEEP \<or> op = BC_JUMP_IF_NOT_NULLISH then
        (if v_stack s = [] then (Vm_abort, s)
         else let taken = (if op = BC_JUMP_IF_FALSE_KEEP then \<not> lr_to_bool (vm_top s)
                           else if op = BC_JUMP_IF_TRUE_KEEP then lr_to_bool (vm_top s)
                           else \<not> is_nullish (vm_top s))
              in (Vm_run, if taken then vm_jump off s else s))
      else (Vm_out, s))"

text \<open>\<open>JUMP_IF_LOCAL_LT_IMM\<close> leaves the loop when the slot is not below the constant.\<close>

definition vm_exec_lt :: "js_env \<Rightarrow> nat \<Rightarrow> int \<Rightarrow> int \<Rightarrow> vm \<Rightarrow> vm_status \<times> vm" where
  "vm_exec_lt env slot imm off s =
     (let cond = (slot_ok s slot \<and>
            (case v_locals s ! slot of
               LR_INT32 i \<Rightarrow> sint i < imm
             | v \<Rightarrow> f64_lt (bcv_to_number env v) (f64_of_int imm)))
      in (Vm_run, if cond then s else vm_jump off s))"

definition vm_exec :: "nat \<Rightarrow> js_env \<Rightarrow> bc_const list \<Rightarrow> byte \<Rightarrow> operand list \<Rightarrow> vm \<Rightarrow> vm_status \<times> vm" where
  "vm_exec fuel env pool op as s =
     (case as of
        [] \<Rightarrow> vm_exec0 fuel env op s
      | [U16 i] \<Rightarrow> vm_exec16 fuel env pool op (nat i) s
      | [I32 v] \<Rightarrow> vm_exec32 op v s
      | [U16 i, I32 v, I32 w] \<Rightarrow> if op = BC_JUMP_IF_LOCAL_LT_IMM then vm_exec_lt env (nat i) v w s else (Vm_out, s)
      | _ \<Rightarrow> (Vm_out, s))"

text \<open>\<open>rd16\<close> and \<open>rd32\<close>, by the operand kind of the opcode.\<close>

definition vm_operands :: "bytes \<Rightarrow> nat \<Rightarrow> nat \<Rightarrow> operand list" where
  "vm_operands code p k =
     (if k = 1 then [U16 (int (get_u16 code p))]
      else if k = 2 then [I32 (get_i32 code p)]
      else if k = 3 then [U16 (int (get_u16 code p)), U16 (int (get_u16 code (p + 2)))]
      else if k = 4 then [U16 (int (get_u16 code p)), U8 (code ! (p + 2))]
      else if k = 5 then [U16 (int (get_u16 code p)), I32 (get_i32 code (p + 2)), I32 (get_i32 code (p + 6))]
      else [])"

definition vm_step :: "nat \<Rightarrow> js_env \<Rightarrow> bc_const list \<Rightarrow> bytes \<Rightarrow> vm \<Rightarrow> vm_status \<times> vm" where
  "vm_step fuel env pool code s =
     (let p = nat (v_pc s) in
      if v_pc s < 0 \<or> p \<ge> length code \<or> p + bc_op_total_len (code ! p) > length code then (Vm_out, s)
      else let op = code ! p in
           vm_exec fuel env pool op (vm_operands code (p + 1) (snd (bc_info op)))
             (s\<lparr>v_pc := v_pc s + int (bc_op_total_len op)\<rparr>))"

fun bc_execute :: "nat \<Rightarrow> js_env \<Rightarrow> bc_const list \<Rightarrow> bytes \<Rightarrow> vm \<Rightarrow> (vm_status \<times> vm) option" where
  "bc_execute 0 env pool code s = None"
| "bc_execute (Suc fuel) env pool code s =
     (case vm_step fuel env pool code s of
        (Vm_run, s') \<Rightarrow> bc_execute fuel env pool code s'
      | r \<Rightarrow> Some r)"

section \<open>Quick paths\<close>

text \<open>Two results are the same up to the box of a number: the same double, as an int32 or as a float64.\<close>

definition same_result :: "op_result option \<Rightarrow> op_result option \<Rightarrow> bool" where
  "same_result r r' \<longleftrightarrow> r = r' \<or>
     (\<exists>a b. r = Some (Op_val a) \<and> r' = Some (Op_val b) \<and> is_num a \<and> is_num b \<and> num_bits a = num_bits b)"

lemma same_result_refl [simp]: "same_result r r"
  by (simp add: same_result_def)

lemma zero_of_int: "(0 :: u64) = f64_of_int 0"
  by (simp add: f64_of_int_def f64_encode_def f64_mag_of_def f64_pack_def)

lemma f64_eq_bits: "f64_eq a b \<Longrightarrow> \<not> (f64_eq a 0 \<and> f64_sign a) \<Longrightarrow> \<not> (f64_eq b 0 \<and> f64_sign b) \<Longrightarrow> a = b"
proof -
  assume h: "f64_eq a b" "\<not> (f64_eq a 0 \<and> f64_sign a)" "\<not> (f64_eq b 0 \<and> f64_sign b)"
  have z: "d = 0" if "f64_mag d = 0" "\<not> f64_sign d" for d
  proof -
    have "uint d = 0" using that uint_bounded [of d] by (simp add: f64_mag_def f64_sign_def)
    then show ?thesis by (simp add: uint_0_iff)
  qed
  have "f64_mag (0 :: u64) = 0" by (simp add: f64_mag_def)
  then have e: "f64_eq d 0 \<longleftrightarrow> \<not> f64_isnan d \<and> f64_mag d = 0" for d
    by (auto simp: f64_eq_def f64_abs_bits_zero f64_isnan_mag)
  show ?thesis using h z [of a] z [of b] unfolding e by (auto simp: f64_eq_def f64_abs_bits_zero)
qed

lemma bcv_number_bits: "is_num (bcv_number d) \<and> num_bits (bcv_number d) = d"
proof (cases "bcv_number d")
  case (LR_INT32 w)
  then have h: "\<not> (f64_eq d 0 \<and> f64_sign d)" "f64_eq d (f64_of_int (f64_cast 32 d))" "w = word_of_int (f64_cast 32 d)"
    by (auto simp: bcv_number_def Let_def split: if_splits)
  have c: "- (2 ^ 31) \<le> f64_cast 32 d" "f64_cast 32 d < 2 ^ 31"
    by (auto simp: f64_cast_def split: option.split)
  then have "sint w = f64_cast 32 d" unfolding h(3) by (simp add: sint_sbintrunc' signed_take_bit_int_eq_self)
  moreover have "\<not> (f64_eq (f64_of_int (f64_cast 32 d)) 0 \<and> f64_sign (f64_of_int (f64_cast 32 d)))"
    unfolding zero_of_int using c by (simp add: f64_eq_int f64_of_int_fields)
  ultimately show ?thesis using LR_INT32 f64_eq_bits [OF h(2,1)] by (simp add: num_bits_def)
qed (auto simp: bcv_number_def Let_def num_bits_def split: if_splits)

lemma same_result_number: "same_result (Some (Op_val (LR_FLOAT64 d))) (Some (Op_val (bcv_number d)))"
  using bcv_number_bits [of d] by (auto simp: same_result_def num_bits_def)

lemma dec_digits_nonzero: "0 \<le> n \<Longrightarrow> 0 \<notin> set (dec_digits n)"
proof (induction n rule: dec_digits.induct)
  case (1 n)
  have d: "(word_of_int (48 + k) :: byte) \<noteq> 0" if "0 \<le> k" "k < 10" for k :: int
  proof -
    define n where "n = 48 + k"
    have "0 < n" "n < 2 ^ 8" using that by (simp_all add: n_def)
    then have "uint (word_of_int n :: byte) = n" by (simp add: unsigned_of_int take_bit_int_eq_self)
    with \<open>0 < n\<close> show ?thesis unfolding n_def [symmetric] by (metis less_irrefl uint_0_eq)
  qed
  show ?case
  proof (cases "n < 10")
    case True
    then show ?thesis using d [of n] 1 by (subst dec_digits.simps) auto
  next
    case False
    then have "0 \<notin> set (dec_digits (n div 10))" using 1 by simp
    then show ?thesis using False d [of "n mod 10"] by (subst dec_digits.simps) auto
  qed
qed

lemma fmt_d_nonzero: "0 \<notin> set (fmt_d i)"
  using dec_digits_nonzero [of i] dec_digits_nonzero [of "- i"] by (auto simp: fmt_d_def)

lemma takeWhile_nonzero [simp]: "0 \<notin> set (s :: bytes) \<Longrightarrow> takeWhile (\<lambda>c. c \<noteq> 0) s = s"
  by (induction s) auto

lemma f64_mag_of_pos: "0 < m \<Longrightarrow> 0 < f64_mag_of m 0 \<and> f64_mag_of m 0 \<le> 2047 * 2 ^ 52"
proof -
  assume m: "0 < m"
  define sh where "sh = max (bit_len m - 53) (- 1074 - 0)"
  have "- 52 \<le> sh" using bit_len_bounds [OF m] by (simp add: sh_def)
  moreover define q where "q = (if sh \<le> 0 then m * 2 ^ nat (- sh) else round_half_even m (nat sh))"
  moreover have "0 \<le> q"
    using m by (simp add: q_def round_half_even_def Let_def pos_imp_zdiv_nonneg_iff)
  moreover have "f64_mag_of m 0 = min ((0 + sh + 1074) * 2 ^ 52 + q) (2047 * 2 ^ 52)"
    using m by (simp only: f64_mag_of_def Let_def sh_def q_def less_imp_neq [symmetric] if_False)
  ultimately show ?thesis by simp
qed

lemma product_not_zero: "v \<noteq> 0 \<Longrightarrow> \<not> f64_eq (f64_of_int v) 0"
proof -
  assume "v \<noteq> 0"
  then have p: "0 < f64_mag_of \<bar>v\<bar> 0" "f64_mag_of \<bar>v\<bar> 0 \<le> 2047 * 2 ^ 52" using f64_mag_of_pos [of "\<bar>v\<bar>"] by auto
  then have "f64_mag (f64_of_int v) = f64_mag_of \<bar>v\<bar> 0" by (simp add: f64_of_int_def f64_encode_def f64_pack_fields)
  then show ?thesis using p by (auto simp: f64_eq_def f64_abs_bits_zero f64_mag_def)
qed

lemma quick_int_agrees:
  assumes "quick_int op x y = Some v" "op = MUL \<longrightarrow> sint x * sint y \<noteq> 0"
  shows "binop_int32 op x y = Some (Op_val v)"
proof (cases "op = MUL")
  case True
  then have nz: "sint x * sint y \<noteq> 0" using assms(2) by simp
  then have "f64_mul (f64_of_int (sint x)) (f64_of_int (sint y)) = f64_of_int (sint x * sint y)"
    using f64_mul_int [OF sint_u32_small(1) sint_u32_small(1), of x y] by simp
  then show ?thesis using True assms(1) product_not_zero [OF nz]
    by (simp add: quick_int_def quick_mul_int_def binop_int32_def bcv_number_def Let_def)
next
  case False
  then show ?thesis using assms(1) by (cases op) (simp_all add: quick_int_def binop_int32_def bool_val_def)
qed

lemma quick_float_agrees:
  assumes "quick_num op (LR_FLOAT64 x) (LR_FLOAT64 y) = Some v"
  shows "binop_f64 op x y = Some (Op_val v)"
  using assms by (cases op) (simp_all add: quick_num_def binop_f64_def bool_val_def num_bits_def Let_def)

lemma mixed_cases:
  assumes "mixed_or_float a b" "lr_tag a \<noteq> lr_tag b"
  shows "bcv_to_number env a = num_bits a \<and> bcv_to_number env b = num_bits b \<and> binop_fast env op a b = None
    \<and> lr_tag a \<noteq> 5 \<and> lr_tag b \<noteq> 5 \<and> numeric_operand env a \<and> numeric_operand env b
    \<and> (bcv_relational env a b r =
        ((case r of Rel_lt \<Rightarrow> f64_lt (num_bits a) (num_bits b) | Rel_gt \<Rightarrow> f64_lt (num_bits b) (num_bits a)
           | Rel_le \<Rightarrow> f64_le (num_bits a) (num_bits b) | Rel_ge \<Rightarrow> f64_le (num_bits b) (num_bits a))))"
  using assms by (cases a; cases b)
    (auto simp: mixed_or_float_def bcv_to_number_def num_bits_def binop_fast_def numeric_operand_def bcv_relational_def Let_def
      f64_lt_def f64_le_def split: rel.split)

lemma quick_mixed_agrees:
  assumes q: "quick_num op a b = Some v" and m: "mixed_or_float a b" "lr_tag a \<noteq> lr_tag b" and e: "op \<noteq> EQ" "op \<noteq> NE"
  shows "same_result (Some (Op_val v)) (bcv_binop fuel env op a b)"
proof -
  note c = mixed_cases [OF m, of env]
  have g: "bcv_binop fuel env op a b = binop_generic fuel env op a b" using c by (simp add: bcv_binop_def or_else_def)
  show ?thesis unfolding g using q e m(2) c
    by (cases op) (auto simp: quick_num_def binop_generic_def Let_def bool_val_def same_result_number)
qed

text \<open>(C30) The inlined fast paths of the opcode handlers compute what the shared operator routine computes, up to the box of a
  number, for every pair of operands outside three exceptions: a product of two int32 values that is zero, \<open>==\<close> and \<open>!=\<close> between
  an int32 and a double, and a right operand that is a string with a NUL byte. In the first two the paths really differ, see the
  next theorem. The hypotheses on the environment are the string forms of int32 values and strings.\<close>

theorem vm_quick_paths_agree:
  assumes "\<And>i. env_cstring env (LR_INT32 i) = fmt_d (sint i)" "\<And>t. env_cstring env (LR_STRING t) = t"
    and "op = MUL \<Longrightarrow> \<not> (\<exists>x y. a = LR_INT32 x \<and> b = LR_INT32 y \<and> sint x * sint y = 0)"
    and "op = EQ \<or> op = NE \<Longrightarrow> mixed_or_float a b \<Longrightarrow> lr_tag a = lr_tag b"
    and "\<And>t. b = LR_STRING t \<Longrightarrow> 0 \<notin> set t"
  shows "same_result (vm_binop fuel env op a b) (bcv_binop fuel env op a b)"
proof (cases "vm_quick op a b")
  case None
  then show ?thesis by (simp add: vm_binop_def)
next
  case (Some v)
  then have vm: "vm_binop fuel env op a b = Some (Op_val v)" by (simp add: vm_binop_def)
  consider (ints) x y where "a = LR_INT32 x" "b = LR_INT32 y" | (floats) x y where "a = LR_FLOAT64 x" "b = LR_FLOAT64 y"
    | (mixed) "mixed_or_float a b" "lr_tag a \<noteq> lr_tag b"
    | (strings) "op = ADD" "quick_string_add a b = Some v" "\<not> (lr_tag a = 3 \<and> lr_tag b = 3)" "\<not> mixed_or_float a b"
    using Some by (cases a; cases b) (auto simp: vm_quick_def mixed_or_float_def split: if_splits)
  then show ?thesis
  proof cases
    case ints
    then have "quick_int op x y = Some v" using Some by (simp add: vm_quick_def bcv_to_int32_def)
    then have "binop_int32 op x y = Some (Op_val v)" using assms(3) ints by (intro quick_int_agrees) auto
    then show ?thesis using vm ints by (simp add: bcv_binop_def binop_fast_def or_else_def)
  next
    case floats
    then have "quick_num op (LR_FLOAT64 x) (LR_FLOAT64 y) = Some v" using Some by (simp add: vm_quick_def mixed_or_float_def)
    then show ?thesis using vm floats quick_float_agrees by (simp add: bcv_binop_def binop_fast_def or_else_def)
  next
    case mixed
    then have "quick_num op a b = Some v" using Some by (auto simp: vm_quick_def split: if_splits)
    then show ?thesis unfolding vm using mixed assms(4) by (intro quick_mixed_agrees) auto
  next
    case strings
    then show ?thesis unfolding vm using assms(1,2,5) fmt_d_nonzero
      by (cases a; cases b) (auto simp: quick_string_add_def bcv_binop_def binop_fast_def or_else_def binop_generic_def
          bcv_concat_def cstr_def Let_def)
  qed
qed

definition string_env :: js_env where
  "string_env = test_env\<lparr>env_cstring := \<lambda>v. case v of LR_INT32 i \<Rightarrow> fmt_d (sint i) | LR_STRING t \<Rightarrow> t | _ \<Rightarrow> []\<rparr>"

theorem vm_quick_paths_agree_witness:
  "same_result (vm_binop 1 string_env ADD (LR_INT32 7) (LR_STRING [120])) (bcv_binop 1 string_env ADD (LR_INT32 7) (LR_STRING [120]))"
  by (rule vm_quick_paths_agree) (auto simp: string_env_def mixed_or_float_def)

text \<open>The first two exceptions are real: \<open>0 * -1\<close> is \<open>0\<close> on the inlined path and \<open>-0\<close> in the shared routine, and \<open>2 == 2.0\<close> is
  true on the inlined path and false in the shared routine.\<close>

theorem vm_quick_paths_differ:
  "vm_binop 1 env MUL (LR_INT32 0) (LR_INT32 (-1)) = Some (Op_val (LR_INT32 0))
   \<and> bcv_binop 1 env MUL (LR_INT32 0) (LR_INT32 (-1)) = Some (Op_val (LR_FLOAT64 0x8000000000000000))
   \<and> vm_binop 1 env EQ (LR_INT32 2) (LR_FLOAT64 (f64_of_int 2)) = Some (Op_val (LR_BOOL True))
   \<and> bcv_binop 1 env EQ (LR_INT32 2) (LR_FLOAT64 (f64_of_int 2)) = Some (Op_val (LR_BOOL False))"
proof (intro conjI)
  have "quick_mul_int 0 (-1) = LR_INT32 0"
      "bcv_number (f64_mul (f64_of_int (sint (0 :: u32))) (f64_of_int (sint (-1 :: u32)))) = LR_FLOAT64 0x8000000000000000"
      "f64_eq (f64_of_int (sint (2 :: u32))) (f64_of_int 2)"
    by code_simp+
  then show "vm_binop 1 env MUL (LR_INT32 0) (LR_INT32 (-1)) = Some (Op_val (LR_INT32 0))"
    "bcv_binop 1 env MUL (LR_INT32 0) (LR_INT32 (-1)) = Some (Op_val (LR_FLOAT64 0x8000000000000000))"
    "vm_binop 1 env EQ (LR_INT32 2) (LR_FLOAT64 (f64_of_int 2)) = Some (Op_val (LR_BOOL True))"
    by (simp_all add: vm_binop_def vm_quick_def quick_int_def quick_num_def mixed_or_float_def num_bits_def bcv_to_int32_def
        bcv_binop_def binop_fast_def or_else_def binop_int32_def)
  show "bcv_binop 1 env EQ (LR_INT32 2) (LR_FLOAT64 (f64_of_int 2)) = Some (Op_val (LR_BOOL False))"
    by (simp add: bcv_binop_def binop_fast_def or_else_def binop_generic_def bool_val_def bcv_abstract_eq.simps [of env "LR_INT32 2"])
qed

end
