(* ===== verification/LR_Ast.thy ===== *)
theory LR_Ast
  imports LR_VM
begin

unbundle bit_operations_syntax

text \<open>
  Expression trees (\<^verbatim>\<open>src/engine/lr_ast.h\<close>) as the bytecode compiler reads them, its predicates on them, and the
  unescaping of template text (\<^verbatim>\<open>template_unescape\<close> of \<^verbatim>\<open>src/engine/lr_interp.c\<close>).

  \<open>AST_NONE\<close> is the null pointer. A node of a type that the compiler only hands to the tree-walking interpreter
  is \<open>AST_OTHER\<close> with its type and address; function expressions keep the flags that the compiler tests. The flag of
  \<open>AST_CALL\<close> tells an \<open>AST_OPTIONAL_CALL\<close> node, that of \<open>AST_PROPERTY\<close> a shorthand property, that of \<open>AST_PATTERN\<close> an
  object pattern. A missing string is the empty one.
\<close>

section \<open>Nodes\<close>

datatype literal =
    TOK_NUMBER u64 | TOK_STRING bytes | TOK_BOOL_LIT bool | TOK_NULL_LIT | TOK_UNDEFINED_LIT | TOK_OTHER nat

datatype ast =
    AST_NONE
  | AST_LITERAL literal
  | AST_IDENTIFIER "string option"
  | AST_THIS
  | AST_SUPER
  | AST_BINARY string ast ast
  | AST_UNARY string bool ast
  | AST_CONDITIONAL ast ast ast
  | AST_CALL bool bool ast "ast list"
  | AST_NEW ast "ast list"
  | AST_MEMBER ast ast bool
  | AST_COMPUTED_MEMBER ast ast
  | AST_ASSIGN string ast ast
  | AST_SEQUENCE "ast list"
  | AST_ARRAY "ast list"
  | AST_OBJECT "ast list"
  | AST_PROPERTY ast ast bool
  | AST_SPREAD ast
  | AST_SPREAD_ELEMENT ast
  | AST_TEMPLATE ast "bytes list" "ast list"
  | AST_FUNC_EXPR nat bool
  | AST_ARROW nat
  | AST_PATTERN bool "ast list"
  | AST_REST ast
  | AST_DEFAULT_VALUE ast ast
  | AST_OTHER nat nat

text \<open>The value of \<open>type\<close>: positions in the enumeration \<open>ASTNodeType\<close>.\<close>

definition ast_type :: "ast \<Rightarrow> nat" where
  "ast_type n =
     (case n of
        AST_NONE \<Rightarrow> 0 | AST_LITERAL _ \<Rightarrow> 33 | AST_IDENTIFIER _ \<Rightarrow> 34 | AST_THIS \<Rightarrow> 35 | AST_SUPER \<Rightarrow> 36
      | AST_BINARY _ _ _ \<Rightarrow> 37 | AST_UNARY _ _ _ \<Rightarrow> 38 | AST_CONDITIONAL _ _ _ \<Rightarrow> 39
      | AST_CALL opt _ _ _ \<Rightarrow> if opt then 44 else 40 | AST_NEW _ _ \<Rightarrow> 41 | AST_MEMBER _ _ _ \<Rightarrow> 42
      | AST_COMPUTED_MEMBER _ _ \<Rightarrow> 43 | AST_ASSIGN _ _ _ \<Rightarrow> 46 | AST_SEQUENCE _ \<Rightarrow> 47 | AST_ARRAY _ \<Rightarrow> 48
      | AST_OBJECT _ \<Rightarrow> 49 | AST_PROPERTY _ _ _ \<Rightarrow> 50 | AST_SPREAD _ \<Rightarrow> 51 | AST_TEMPLATE _ _ _ \<Rightarrow> 52
      | AST_PATTERN _ _ \<Rightarrow> 54 | AST_REST _ \<Rightarrow> 55 | AST_DEFAULT_VALUE _ _ \<Rightarrow> 56 | AST_SPREAD_ELEMENT _ \<Rightarrow> 59
      | AST_FUNC_EXPR _ _ \<Rightarrow> 24 | AST_ARROW _ \<Rightarrow> 25 | AST_OTHER t _ \<Rightarrow> t)"

section \<open>Predicates of the compiler\<close>

definition binop_of :: "string \<Rightarrow> byte" where
  "binop_of op =
     (if op = ''+'' then BC_ADD else if op = ''-'' then BC_SUB else if op = ''*'' then BC_MUL
      else if op = ''/'' then 29 else if op = ''%'' then 30 else if op = ''**'' then 31
      else if op = ''<'' then 32 else if op = ''>'' then 33 else if op = ''<='' then 34 else if op = ''>='' then 35
      else if op = ''=='' then 36 else if op = ''!='' then 37 else if op = ''==='' then 38 else if op = ''!=='' then 39
      else if op = ''<<'' then 40 else if op = ''>>'' then 42 else if op = ''>>>'' then 41
      else if op = ''&'' then 43 else if op = ''|'' then 44 else if op = ''^'' then 45
      else if op = ''in'' then BC_IN else if op = ''instanceof'' then BC_INSTANCEOF
      else BC_NOP)"

text \<open>The object and the property name of a plain member access; \<open>None\<close> where \<open>is_plain_member\<close> is 0.\<close>

definition is_plain_member :: "ast \<Rightarrow> (ast \<times> string) option" where
  "is_plain_member n =
     (case n of
        AST_MEMBER obj prop is_optional \<Rightarrow>
          if obj = AST_NONE \<or> obj = AST_SUPER \<or> is_optional then None
          else (case prop of AST_IDENTIFIER (Some name) \<Rightarrow> Some (obj, name) | _ \<Rightarrow> None)
      | _ \<Rightarrow> None)"

definition is_computed_member :: "ast \<Rightarrow> (ast \<times> ast) option" where
  "is_computed_member n =
     (case n of
        AST_COMPUTED_MEMBER obj prop \<Rightarrow>
          if obj = AST_NONE \<or> obj = AST_SUPER \<or> prop = AST_NONE then None else Some (obj, prop)
      | _ \<Rightarrow> None)"

definition is_ident :: "ast \<Rightarrow> string \<Rightarrow> bool" where
  "is_ident n want \<longleftrightarrow> n = AST_IDENTIFIER (Some want)"

text \<open>
  The node type is compared with the token type \<open>TOK_NUMBER\<close>, which is 1, the value of \<open>AST_BLOCK\<close>. The compiler asks only
  for identifiers, \<open>this\<close> and literals; the number of a node without one is not read.
\<close>

definition is_num_literal :: "ast \<Rightarrow> u64 option" where
  "is_num_literal n =
     (if n = AST_NONE \<or> ast_type n \<noteq> 1 then None
      else case n of AST_LITERAL (TOK_NUMBER num) \<Rightarrow> Some num | _ \<Rightarrow> None)"

definition is_mul_with_ident :: "ast \<Rightarrow> string \<Rightarrow> ast option" where
  "is_mul_with_ident n ident =
     (case n of
        AST_BINARY op l r \<Rightarrow>
          if op \<noteq> ''*'' then None
          else if is_ident l ident then Some r
          else if is_ident r ident then Some l
          else None
      | _ \<Rightarrow> None)"

definition is_pure_node :: "ast \<Rightarrow> bool" where
  "is_pure_node n = (case n of AST_IDENTIFIER _ \<Rightarrow> True | AST_THIS \<Rightarrow> True | AST_LITERAL _ \<Rightarrow> True | _ \<Rightarrow> False)"

text \<open>
  The decision of \<open>try_factor_cse\<close>: the common identifier and the two other factors. The second attempt is made when
  the first one fails.
\<close>

definition factor_with :: "ast \<Rightarrow> ast \<Rightarrow> ast \<Rightarrow> (ast \<times> ast \<times> ast) option" where
  "factor_with ident l_other r =
     (case ident of
        AST_IDENTIFIER (Some name) \<Rightarrow>
          (case is_mul_with_ident r name of
             Some r_other \<Rightarrow> if is_pure_node l_other \<and> is_pure_node r_other then Some (ident, l_other, r_other) else None
           | None \<Rightarrow> None)
      | _ \<Rightarrow> None)"

definition try_factor_cse :: "string \<Rightarrow> ast \<Rightarrow> ast \<Rightarrow> (ast \<times> ast \<times> ast) option" where
  "try_factor_cse op l r =
     (if op \<noteq> ''+'' \<and> op \<noteq> ''-'' then None
      else case (l, r) of
        (AST_BINARY lop ll lr, AST_BINARY _ _ _) \<Rightarrow>
          if lop \<noteq> ''*'' then None
          else (case factor_with ll lr r of Some f \<Rightarrow> Some f | None \<Rightarrow> factor_with lr ll r)
      | _ \<Rightarrow> None)"

definition is_spread :: "ast \<Rightarrow> bool" where
  "is_spread n = (case n of AST_SPREAD_ELEMENT _ \<Rightarrow> True | AST_SPREAD _ \<Rightarrow> True | _ \<Rightarrow> False)"

definition has_spread :: "ast list \<Rightarrow> bool" where
  "has_spread args = list_ex is_spread args"

section \<open>Template text\<close>

definition hex_digit :: "byte \<Rightarrow> u32 option" where
  "hex_digit h =
     (if 48 \<le> h \<and> h \<le> 57 then Some (ucast h - 48)
      else if 97 \<le> h \<and> h \<le> 102 then Some (ucast h - 97 + 10)
      else if 65 \<le> h \<and> h \<le> 70 then Some (ucast h - 65 + 10)
      else None)"

text \<open>The digit loops: exactly \<open>k\<close> digits, and digits up to the closing brace. The result has the rest of the text.\<close>

fun hex_fixed :: "nat \<Rightarrow> u32 \<Rightarrow> bytes \<Rightarrow> (u32 \<times> bytes) option" where
  "hex_fixed 0 v s = Some (v, s)"
| "hex_fixed (Suc k) v [] = None"
| "hex_fixed (Suc k) v (h # s) =
     (case hex_digit h of None \<Rightarrow> None | Some d \<Rightarrow> hex_fixed k (push_bit 4 v OR d) s)"

fun hex_braced :: "u32 \<Rightarrow> bytes \<Rightarrow> (u32 \<times> bytes) option" where
  "hex_braced v [] = None"
| "hex_braced v (h # s) =
     (if h = 125 then Some (v, s)
      else case hex_digit h of None \<Rightarrow> None | Some d \<Rightarrow> hex_braced (push_bit 4 v OR d) s)"

text \<open>What follows a backslash: the bytes to output and the rest of the text, the character after the backslash first.\<close>

definition unescape_one :: "byte \<Rightarrow> bytes \<Rightarrow> bytes \<times> bytes" where
  "unescape_one n rest =
     (let keep = ([92], n # rest) in
      if n = 110 then ([10], rest) else if n = 116 then ([9], rest) else if n = 114 then ([13], rest)
      else if n = 98 then ([8], rest) else if n = 102 then ([12], rest) else if n = 118 then ([11], rest)
      else if n = 48 then (if rest = [] \<or> \<not> (48 \<le> hd rest \<and> hd rest \<le> 57) then ([0], rest) else keep)
      else if n = 120 then (case hex_fixed 2 0 rest of Some (v, s) \<Rightarrow> ([ucast v], s) | None \<Rightarrow> keep)
      else if n = 117 then
        (if rest \<noteq> [] \<and> hd rest = 123
         then (case hex_braced 0 (tl rest) of Some (v, s) \<Rightarrow> ([ucast v], s) | None \<Rightarrow> keep)
         else (case hex_fixed 4 0 rest of Some (v, s) \<Rightarrow> ([ucast v], s) | None \<Rightarrow> keep))
      else if n = 10 then ([], rest)
      else if n = 13 then ([], if rest \<noteq> [] \<and> hd rest = 10 then tl rest else rest)
      else ([n], rest))"

lemma hex_fixed_length: "hex_fixed k v s = Some (w, t) \<Longrightarrow> length t \<le> length s"
  by (induction k v s rule: hex_fixed.induct) (auto split: option.splits)

lemma hex_braced_length: "hex_braced v s = Some (w, t) \<Longrightarrow> length t \<le> length s"
  by (induction v s rule: hex_braced.induct) (auto split: option.splits if_splits)

lemma unescape_one_length: "length (snd (unescape_one n rest)) \<le> Suc (length rest)"
  using hex_fixed_length [of 2 0 rest] hex_fixed_length [of 4 0 rest] hex_braced_length [of 0 "tl rest"]
  by (auto simp: unescape_one_def Let_def le_Suc_eq split: option.splits)

function template_unescape :: "bytes \<Rightarrow> bytes" where
  "template_unescape s =
     (case s of
        [] \<Rightarrow> []
      | [c] \<Rightarrow> [c]
      | c # n # rest \<Rightarrow>
          if c = 92 then let r = unescape_one n rest in fst r @ template_unescape (snd r)
          else c # template_unescape (n # rest))"
  by pat_completeness auto
termination
  using unescape_one_length by (relation "measure length") (auto simp: le_imp_less_Suc)

text \<open>The compiler reads the result as a C string: up to the first NUL.\<close>

definition interp_bc_cook_template :: "bytes \<Rightarrow> bytes" where
  "interp_bc_cook_template raw = takeWhile (\<lambda>c. c \<noteq> 0) (template_unescape raw)"

end
