(* ===== verification/LR_Compile.thy ===== *)
theory LR_Compile
  imports LR_Ast
begin

text \<open>
  The expression compiler (\<open>cexpr\<close> and its parts in \<^verbatim>\<open>src/engine/lr_bytecode_compile.c\<close>).

  Allocations succeed. \<open>comp_env\<close> holds what the compiler takes from its surroundings: the address of a node that it
  hands to the interpreter, and whether the environment variable \<^verbatim>\<open>LR_FORCE_NO_FUSE\<close> is set.
\<close>

record comp_env =
  ce_addr :: "ast \<Rightarrow> nat"
  ce_no_fuse :: bool

section \<open>Small emitters\<close>

definition emit_idx :: "bc_comp \<Rightarrow> byte \<Rightarrow> nat \<Rightarrow> bc_comp" where
  "emit_idx c op i = emit16 True (emit True c op) (int i)"

text \<open>\<open>emit_eval\<close> for the node at an address.\<close>

definition emit_eval_at :: "bc_comp \<Rightarrow> nat \<Rightarrow> bool \<Rightarrow> bc_comp" where
  "emit_eval_at c addr keep_value =
     (if \<not> c_ok c then c
      else let (c1, idx) = pool_add_node True c addr
           in emit_idx c1 (if keep_value then BC_EVAL_NODE else BC_EVAL_NODE_POP) idx)"

definition emit_eval :: "comp_env \<Rightarrow> bc_comp \<Rightarrow> ast \<Rightarrow> bool \<Rightarrow> bc_comp" where
  "emit_eval E c n keep_value = emit_eval_at c (ce_addr E n) keep_value"

definition emit_push_string :: "bc_comp \<Rightarrow> bytes \<Rightarrow> bc_comp" where
  "emit_push_string c s = (let (c1, idx) = pool_add_str True c s in update_stack (emit_idx c1 BC_PUSH_STRING idx) 1)"

definition emit_push_f64 :: "bc_comp \<Rightarrow> u64 \<Rightarrow> bc_comp" where
  "emit_push_f64 c d = (let (c1, idx) = pool_add_f64 True c d in update_stack (emit_idx c1 BC_PUSH_FLOAT64 idx) 1)"

text \<open>The range test follows from the first one: the cast of a double outside the range is \<open>INT32_MIN\<close>.\<close>

definition int32_valued :: "u64 \<Rightarrow> bool" where
  "int32_valued d \<longleftrightarrow> f64_eq d (f64_of_int (f64_cast 32 d)) \<and> \<not> f64_isnan d \<and> \<not> f64_isinf d
     \<and> f64_le (f64_of_int (- 2147483648)) d \<and> f64_le d (f64_of_int 2147483647)"

definition emit_push_number :: "bc_comp \<Rightarrow> u64 \<Rightarrow> bc_comp" where
  "emit_push_number c d =
     (if int32_valued d then update_stack (emit32 True (emit True c BC_PUSH_INT32) (f64_cast 32 d)) 1
      else emit_push_f64 c d)"

definition emit_name_op :: "bc_comp \<Rightarrow> byte \<Rightarrow> string \<Rightarrow> bc_comp" where
  "emit_name_op c op name =
     (case (if op = BC_LOAD_VAR \<or> op = BC_STORE_VAR then find_local_slot c name else None) of
        Some slot \<Rightarrow>
          if op = BC_LOAD_VAR then update_stack (emit_idx c BC_LOAD_LOCAL slot) 1
          else update_stack (emit_idx c BC_STORE_LOCAL slot) (-1)
      | None \<Rightarrow>
          let (c1, idx) = pool_add_str True c (str_bytes name);
              c2 = emit_idx c1 op idx
          in if op = BC_LOAD_VAR \<or> op = BC_TYPEOF_VAR then update_stack c2 1
             else if op = BC_STORE_VAR \<or> op = BC_DECLARE_VAR then update_stack c2 (-1)
             else c2)"

definition emit_one :: "bc_comp \<Rightarrow> bc_comp" where
  "emit_one c = emit32 True (emit True c BC_PUSH_INT32) 1"

section \<open>Expressions\<close>

text \<open>The name of an identifier node.\<close>

definition ident_name :: "ast \<Rightarrow> string option" where
  "ident_name n = (case n of AST_IDENTIFIER name \<Rightarrow> name | _ \<Rightarrow> None)"

text \<open>The base of a compound operator \<open>x op= y\<close>; \<open>BC_NOP\<close> where the compiler hands the node over.\<close>

definition compound_op :: "string \<Rightarrow> byte" where
  "compound_op op =
     (if length op \<ge> 2 \<and> last op = CHR ''='' \<and> op \<noteq> ''&&='' \<and> op \<noteq> ''||='' \<and> op \<noteq> ''??='' \<and> length op - 1 < 8
      then binop_of (butlast op) else BC_NOP)"

text \<open>\<open>X = X + Y\<close>: the right operand \<open>Y\<close>.\<close>

definition self_add :: "string \<Rightarrow> ast \<Rightarrow> ast option" where
  "self_add name val =
     (case val of AST_BINARY op l r \<Rightarrow> if op = ''+'' \<and> is_ident l name then Some r else None | _ \<Rightarrow> None)"

definition delegated_call :: "bool \<Rightarrow> bool \<Rightarrow> ast \<Rightarrow> ast list \<Rightarrow> bool" where
  "delegated_call opt is_optional callee args \<longleftrightarrow>
     callee = AST_NONE \<or> opt \<or> is_optional \<or> callee = AST_SUPER \<or> has_spread args \<or> int (length args) > 0xFFFF
     \<or> is_ident callee ''import''
     \<or> (case callee of AST_MEMBER obj _ _ \<Rightarrow> obj = AST_SUPER | AST_COMPUTED_MEMBER obj _ \<Rightarrow> obj = AST_SUPER | _ \<Rightarrow> False)"

definition is_func_node :: "ast \<Rightarrow> bool" where
  "is_func_node n = (ast_type n \<in> {23, 24, 25})"

text \<open>\<open>String(x)\<close>, \<open>Number(x)\<close> and \<open>Boolean(x)\<close>.\<close>

definition conversion_op :: "ast \<Rightarrow> byte option" where
  "conversion_op callee =
     (if is_ident callee ''String'' then Some BC_TO_STRING
      else if is_ident callee ''Number'' then Some BC_TO_NUMBER
      else if is_ident callee ''Boolean'' then Some BC_TO_BOOL
      else None)"

definition plain_property :: "ast \<Rightarrow> bool" where
  "plain_property pn =
     (case pn of
        AST_PROPERTY key val _ \<Rightarrow> key \<noteq> AST_NONE \<and> \<not> (case val of AST_FUNC_EXPR _ accessor \<Rightarrow> accessor | _ \<Rightarrow> False)
      | _ \<Rightarrow> False)"

definition unary_op :: "string \<Rightarrow> bool \<Rightarrow> byte option" where
  "unary_op op prefix =
     (if op = ''void'' then Some BC_VOID
      else if op = ''!'' then Some BC_NOT
      else if op = ''~'' then Some BC_BIT_NOT
      else if op = ''-'' \<and> prefix then Some BC_NEG
      else if op = ''+'' \<and> prefix then Some BC_POS
      else None)"

lemma is_plain_member_size [termination_simp]: "is_plain_member n = Some (obj, name) \<Longrightarrow> size obj < size n"
  by (auto simp: is_plain_member_def split: ast.splits if_splits option.splits)

lemma is_computed_member_size [termination_simp]:
  "is_computed_member n = Some (obj, prop) \<Longrightarrow> size obj < size n \<and> size prop < size n"
  by (auto simp: is_computed_member_def split: ast.splits if_splits)

lemma self_add_size [termination_simp]: "self_add name val = Some r \<Longrightarrow> size r < size val"
  by (auto simp: self_add_def split: ast.splits if_splits)

lemma is_mul_with_ident_size: "is_mul_with_ident n ident = Some r \<Longrightarrow> size r < size n"
  by (auto simp: is_mul_with_ident_def split: ast.splits if_splits)

lemma factor_with_size:
  "factor_with ident other r = Some (i, x, y) \<Longrightarrow> size i \<le> size ident \<and> size x \<le> size other \<and> size y < size r"
  using is_mul_with_ident_size by (auto simp: factor_with_def split: ast.splits option.splits if_splits)

lemma try_factor_cse_size [termination_simp]:
  "try_factor_cse op l r = Some (i, x, y) \<Longrightarrow> size i < size l \<and> size x < size l \<and> size y < size r"
  using factor_with_size by (fastforce simp: try_factor_cse_def split: ast.splits option.splits if_splits)

text \<open>
  The functions of the compiler, over the compiler \<open>ce\<close> of their subexpressions: the argument loop, calls, assignments,
  increments, the loops over template parts and properties, and one node.
\<close>

type_synonym ce = "bc_comp \<Rightarrow> ast \<Rightarrow> bc_comp"

definition cexprs :: "ce \<Rightarrow> bc_comp \<Rightarrow> ast list \<Rightarrow> bc_comp" where
  "cexprs ce c ns = foldl ce c ns"

fun cseq :: "ce \<Rightarrow> bc_comp \<Rightarrow> ast list \<Rightarrow> bc_comp" where
  "cseq ce c [] = emit True c BC_PUSH_UNDEFINED"
| "cseq ce c [n] = ce c n"
| "cseq ce c (n # ns) = cseq ce (emit True (ce c n) BC_POP) ns"

definition ccall :: "ce \<Rightarrow> comp_env \<Rightarrow> bc_comp \<Rightarrow> bool \<Rightarrow> bool \<Rightarrow> ast \<Rightarrow> ast list \<Rightarrow> bc_comp" where
  "ccall ce E c opt is_optional callee args =
     (if delegated_call opt is_optional callee args then emit_eval E c (AST_CALL opt is_optional callee args) True
      else case is_plain_member callee of
        Some (obj, name) \<Rightarrow>
          (let (c1, idx) = pool_add_str True (cexprs ce (ce c obj) args) (str_bytes name)
           in emit16 True (emit_idx c1 BC_CALL_METHOD idx) (int (length args)))
      | None \<Rightarrow> (case is_computed_member callee of
        Some (obj, prop) \<Rightarrow> emit_idx (cexprs ce (ce (ce c obj) prop) args) BC_CALL_ELEM (length args)
      | None \<Rightarrow>
          if is_func_node callee then emit_eval E c (AST_CALL opt is_optional callee args) True
          else (case (conversion_op callee, args) of
            (Some op, [a]) \<Rightarrow> emit True (ce c a) op
          | _ \<Rightarrow> emit_idx (cexprs ce (ce c callee) args) BC_CALL (length args))))"

text \<open>\<open>x = val\<close> and \<open>x op= val\<close> for a name, then the assignment node.\<close>

definition cassign_name :: "ce \<Rightarrow> bc_comp \<Rightarrow> string \<Rightarrow> ast \<Rightarrow> bc_comp" where
  "cassign_name ce c name val =
     (case (self_add name val, find_local_slot c name) of
        (Some rhs, Some slot) \<Rightarrow> update_stack (emit_idx (ce c rhs) BC_ADD_SELF slot) 0
      | _ \<Rightarrow> emit_name_op (emit True (ce c val) BC_DUP) BC_STORE_VAR name)"

definition ccompound_name :: "ce \<Rightarrow> bc_comp \<Rightarrow> byte \<Rightarrow> string \<Rightarrow> ast \<Rightarrow> bc_comp" where
  "ccompound_name ce c bop name val =
     (case (if bop = BC_ADD \<or> bop = BC_MUL then find_local_slot c name else None) of
        Some slot \<Rightarrow> update_stack (emit_idx (ce c val) (if bop = BC_ADD then BC_ADD_SELF else BC_MUL_SELF) slot) 0
      | None \<Rightarrow>
          emit_name_op (emit True (emit True (ce (emit_name_op c BC_LOAD_VAR name) val) bop) BC_DUP) BC_STORE_VAR name)"

definition cassign :: "ce \<Rightarrow> comp_env \<Rightarrow> bc_comp \<Rightarrow> string \<Rightarrow> ast \<Rightarrow> ast \<Rightarrow> bc_comp" where
  "cassign ce E c op tgt val =
     (let n = AST_ASSIGN op tgt val; bop = compound_op op in
      if tgt = AST_NONE then c\<lparr>c_ok := False\<rparr>
      else if op \<noteq> ''='' \<and> bop = BC_NOP then emit_eval E c n True
      else case ident_name tgt of
        Some name \<Rightarrow> if op = ''='' then cassign_name ce c name val else ccompound_name ce c bop name val
      | None \<Rightarrow> (case is_plain_member tgt of
          Some (obj, name) \<Rightarrow>
            if op = ''='' then emit_name_op (ce (ce c obj) val) BC_SET_PROP name
            else (let c1 = emit_name_op (emit True (ce c obj) BC_DUP) BC_GET_PROP name
                  in emit_name_op (emit True (ce c1 val) bop) BC_SET_PROP name)
        | None \<Rightarrow> (case is_computed_member tgt of
            Some (obj, prop) \<Rightarrow>
              if op = ''='' then emit True (ce (ce (ce c obj) prop) val) BC_SET_ELEM
              else (let c1 = emit True (emit True (ce (ce c obj) prop) BC_DUP2) BC_GET_ELEM
                    in emit True (emit True (ce c1 val) bop) BC_SET_ELEM)
          | None \<Rightarrow> emit_eval E c n True)))"

definition cincdec_name :: "bc_comp \<Rightarrow> bool \<Rightarrow> bool \<Rightarrow> string \<Rightarrow> bc_comp" where
  "cincdec_name c is_inc prefix name =
     (case (if is_inc then find_local_slot c name else None) of
        Some slot \<Rightarrow>
          (let c1 = emit_idx c BC_INC_LOCAL slot
           in if prefix then update_stack (emit_idx (emit True c1 BC_POP) BC_LOAD_LOCAL slot) 0
              else update_stack c1 1)
      | None \<Rightarrow>
          if is_inc then
            (let c1 = emit_name_op c BC_INC_VAR name
             in if prefix then update_stack (emit_name_op (emit True c1 BC_POP) BC_LOAD_VAR name) 0
                else update_stack c1 1)
          else
            (let c1 = emit True (emit_name_op c BC_LOAD_VAR name) BC_POS
             in if prefix then emit_name_op (emit True (emit True (emit_one c1) BC_SUB) BC_DUP) BC_STORE_VAR name
                else emit_name_op (emit True (emit_one (emit True c1 BC_DUP)) BC_SUB) BC_STORE_VAR name))"

definition cincdec :: "ce \<Rightarrow> comp_env \<Rightarrow> bc_comp \<Rightarrow> string \<Rightarrow> bool \<Rightarrow> ast \<Rightarrow> bc_comp" where
  "cincdec ce E c op prefix tgt =
     (let is_inc = (op = ''++''); aop = (if is_inc then BC_ADD else BC_SUB) in
      case ident_name tgt of
        Some name \<Rightarrow> cincdec_name c is_inc prefix name
      | None \<Rightarrow> (case is_plain_member tgt of
          Some (obj, name) \<Rightarrow>
            (let c1 = emit True (emit_name_op (emit True (ce c obj) BC_DUP) BC_GET_PROP name) BC_POS
             in if prefix then emit_name_op (emit True (emit_one c1) aop) BC_SET_PROP name
                else let c2 = emit_name_op (emit True (emit_one (emit True c1 BC_DUP2)) aop) BC_SET_PROP name
                     in emit True (emit True (emit True c2 BC_POP) BC_SWAP) BC_POP)
        | None \<Rightarrow> (case is_computed_member tgt of
            Some (obj, prop) \<Rightarrow>
              (let c1 = emit True (emit True (emit True (ce (ce c obj) prop) BC_DUP2) BC_GET_ELEM) BC_POS
               in if prefix then emit True (emit True (emit_one c1) aop) BC_SET_ELEM
                  else emit_eval E c1 (AST_UNARY op prefix tgt) True)
          | None \<Rightarrow> emit_eval E c (AST_UNARY op prefix tgt) True)))"

fun ctemplate_loop :: "ce \<Rightarrow> bc_comp \<Rightarrow> bytes list \<Rightarrow> ast list \<Rightarrow> bc_comp" where
  "ctemplate_loop ce c parts [] = c"
| "ctemplate_loop ce c parts (n # ns) =
     (let c1 = emit True (ce c n) BC_ADD;
          ck = (case parts of [] \<Rightarrow> [] | raw # _ \<Rightarrow> interp_bc_cook_template raw);
          c2 = (if ck \<noteq> [] then emit True (emit_push_string c1 ck) BC_ADD else c1)
      in ctemplate_loop ce c2 (tl parts) ns)"

definition ctemplate :: "ce \<Rightarrow> comp_env \<Rightarrow> bc_comp \<Rightarrow> ast \<Rightarrow> bytes list \<Rightarrow> ast list \<Rightarrow> bc_comp" where
  "ctemplate ce E c tag parts exprs =
     (if tag \<noteq> AST_NONE then emit_eval E c (AST_TEMPLATE tag parts exprs) True
      else ctemplate_loop ce (emit_push_string c (case parts of [] \<Rightarrow> [] | raw # _ \<Rightarrow> interp_bc_cook_template raw)) (tl parts) exprs)"

definition string_lit :: "ast \<Rightarrow> bytes option" where
  "string_lit n = (case n of AST_LITERAL (TOK_STRING s) \<Rightarrow> Some s | _ \<Rightarrow> None)"

definition cprop :: "ce \<Rightarrow> bc_comp \<Rightarrow> ast \<Rightarrow> bc_comp" where
  "cprop ce c pn =
     (case pn of
        AST_PROPERTY key val _ \<Rightarrow>
          (case ident_name key of
             Some name \<Rightarrow> emit_name_op (ce c val) BC_DEF_PROP name
           | None \<Rightarrow> (case string_lit key of
               Some s \<Rightarrow> (let (c1, idx) = pool_add_str True (ce c val) s in emit_idx c1 BC_DEF_PROP idx)
             | None \<Rightarrow> emit True (ce (ce c key) val) BC_DEF_ELEM))
      | _ \<Rightarrow> c)"

definition cobject :: "ce \<Rightarrow> comp_env \<Rightarrow> bc_comp \<Rightarrow> ast list \<Rightarrow> bc_comp" where
  "cobject ce E c props =
     (if \<not> list_all plain_property props then emit_eval E c (AST_OBJECT props) True
      else foldl (cprop ce) (emit True c BC_NEW_OBJECT) props)"

definition cliteral :: "comp_env \<Rightarrow> bc_comp \<Rightarrow> literal \<Rightarrow> bc_comp" where
  "cliteral E c lit =
     (case lit of
        TOK_NUMBER num \<Rightarrow> emit_push_number c num
      | TOK_STRING s \<Rightarrow> emit_push_string c s
      | TOK_BOOL_LIT b \<Rightarrow> emit True c (if b then BC_PUSH_TRUE else BC_PUSH_FALSE)
      | TOK_NULL_LIT \<Rightarrow> emit True c BC_PUSH_NULL
      | TOK_UNDEFINED_LIT \<Rightarrow> emit True c BC_PUSH_UNDEFINED
      | TOK_OTHER _ \<Rightarrow> emit_eval E c (AST_LITERAL lit) True)"

text \<open>The code of \<open>try_factor_cse\<close>.\<close>

definition cfactored :: "ce \<Rightarrow> bc_comp \<Rightarrow> string \<Rightarrow> ast \<Rightarrow> ast \<Rightarrow> ast \<Rightarrow> bc_comp" where
  "cfactored ce c op ident l_other r_other =
     (case (is_num_literal l_other, is_num_literal r_other) of
        (Some bv, Some cv) \<Rightarrow>
          update_stack (emit True (emit_push_f64 (ce c ident) (if op = ''+'' then f64_add bv cv else f64_sub bv cv)) BC_MUL) (-1)
      | _ \<Rightarrow>
          update_stack (emit True (emit True (ce (ce (ce c ident) l_other) r_other) (if op = ''+'' then BC_ADD else BC_SUB)) BC_MUL) (-1))"

definition cbinary :: "ce \<Rightarrow> comp_env \<Rightarrow> bc_comp \<Rightarrow> string \<Rightarrow> ast \<Rightarrow> ast \<Rightarrow> bc_comp" where
  "cbinary ce E c op l r =
     (if op = ''&&'' then cexpr_logical BC_JUMP_IF_FALSE_KEEP (\<lambda>c. ce c l) (\<lambda>c. ce c r) c
      else if op = ''||'' then cexpr_logical BC_JUMP_IF_TRUE_KEEP (\<lambda>c. ce c l) (\<lambda>c. ce c r) c
      else if op = ''??'' then cexpr_logical BC_JUMP_IF_NOT_NULLISH (\<lambda>c. ce c l) (\<lambda>c. ce c r) c
      else if binop_of op = BC_NOP then emit_eval E c (AST_BINARY op l r) True
      else case try_factor_cse op l r of
        Some (ident, l_other, r_other) \<Rightarrow> cfactored ce c op ident l_other r_other
      | None \<Rightarrow> cexpr_binary (binop_of op) (\<lambda>c. ce c l) (\<lambda>c. ce c r) c)"

definition cunary :: "ce \<Rightarrow> comp_env \<Rightarrow> bc_comp \<Rightarrow> string \<Rightarrow> bool \<Rightarrow> ast \<Rightarrow> bc_comp" where
  "cunary ce E c op prefix a =
     (if op = ''++'' \<or> op = ''--'' then cincdec ce E c op prefix a
      else if op = ''typeof'' then
        (case ident_name a of Some name \<Rightarrow> emit_name_op c BC_TYPEOF_VAR name | None \<Rightarrow> emit True (ce c a) BC_TYPEOF)
      else if op = ''delete'' then
        (case is_plain_member a of
           Some (obj, name) \<Rightarrow> emit_name_op (ce c obj) BC_DELETE_PROP name
         | None \<Rightarrow> (case is_computed_member a of
             Some (obj, prop) \<Rightarrow> emit True (ce (ce c obj) prop) BC_DELETE_ELEM
           | None \<Rightarrow> emit True c BC_PUSH_TRUE))
      else case unary_op op prefix of
        Some bop \<Rightarrow> emit True (ce c a) bop
      | None \<Rightarrow> emit_eval E c (AST_UNARY op prefix a) True)"

definition cmember :: "ce \<Rightarrow> comp_env \<Rightarrow> bc_comp \<Rightarrow> ast \<Rightarrow> ast \<Rightarrow> bool \<Rightarrow> bc_comp" where
  "cmember ce E c obj prop is_optional =
     (case is_plain_member (AST_MEMBER obj prop is_optional) of
        None \<Rightarrow> emit_eval E c (AST_MEMBER obj prop is_optional) True
      | Some (_, name) \<Rightarrow>
          (case (case ident_name obj of Some x \<Rightarrow> if ce_no_fuse E then None else find_local_slot c x | None \<Rightarrow> None) of
             Some slot \<Rightarrow>
               (let (c1, pi) = pool_add_str True c (str_bytes name)
                in update_stack (emit16 True (emit_idx c1 BC_LOAD_PROP slot) (int pi)) 1)
           | None \<Rightarrow> emit_name_op (ce c obj) BC_GET_PROP name))"

definition cexpr_node :: "ce \<Rightarrow> comp_env \<Rightarrow> bc_comp \<Rightarrow> ast \<Rightarrow> bc_comp" where
  "cexpr_node ce E c n =
     (if \<not> c_ok c then c
      else case n of
        AST_NONE \<Rightarrow> emit True c BC_PUSH_UNDEFINED
      | AST_LITERAL lit \<Rightarrow> cliteral E c lit
      | AST_IDENTIFIER name \<Rightarrow> (case name of None \<Rightarrow> emit True c BC_PUSH_UNDEFINED | Some x \<Rightarrow> emit_name_op c BC_LOAD_VAR x)
      | AST_THIS \<Rightarrow> emit True (c\<lparr>c_uses_this := True\<rparr>) BC_PUSH_THIS
      | AST_SUPER \<Rightarrow> emit_eval E (c\<lparr>c_uses_super := True\<rparr>) AST_SUPER True
      | AST_BINARY op l r \<Rightarrow> cbinary ce E c op l r
      | AST_UNARY op prefix a \<Rightarrow> cunary ce E c op prefix a
      | AST_CONDITIONAL cond consequent alternate \<Rightarrow>
          cexpr_conditional (\<lambda>c. ce c cond) (\<lambda>c. ce c consequent) (\<lambda>c. ce c alternate) c
      | AST_CALL opt is_optional callee args \<Rightarrow> ccall ce E c opt is_optional callee args
      | AST_NEW callee args \<Rightarrow>
          if has_spread args \<or> int (length args) > 0xFFFF then emit_eval E c n True
          else emit_idx (cexprs ce (ce c callee) args) BC_NEW (length args)
      | AST_MEMBER obj prop is_optional \<Rightarrow> cmember ce E c obj prop is_optional
      | AST_COMPUTED_MEMBER obj prop \<Rightarrow>
          (case is_computed_member n of
             None \<Rightarrow> emit_eval E c n True
           | Some _ \<Rightarrow> emit True (ce (ce c obj) prop) BC_GET_ELEM)
      | AST_ASSIGN op tgt val \<Rightarrow> cassign ce E c op tgt val
      | AST_SEQUENCE ns \<Rightarrow> cseq ce c ns
      | AST_ARRAY es \<Rightarrow>
          if int (length es) > 0xFFFF \<or> list_ex is_spread es then emit_eval E c n True
          else emit_idx (cexprs ce c es) BC_NEW_ARRAY (length es)
      | AST_OBJECT props \<Rightarrow> cobject ce E c props
      | AST_TEMPLATE tag parts exprs \<Rightarrow> ctemplate ce E c tag parts exprs
      | _ \<Rightarrow> emit_eval E c n True)"

text \<open>The recursion; the guard only tells that the subexpressions are smaller, see \<open>cexpr_unfold\<close>.\<close>

function cexpr :: "comp_env \<Rightarrow> bc_comp \<Rightarrow> ast \<Rightarrow> bc_comp" where
  "cexpr E c n = cexpr_node (\<lambda>c m. if size m < size n then cexpr E c m else c) E c n"
  by pat_completeness auto
termination
  by (relation "measure (\<lambda>(E, c, n). size n)") auto

lemma size_member: "m \<in> set ns \<Longrightarrow> size m < Suc (size_list size ns)"
  by (simp add: size_list_estimation' less_Suc_eq_le)

lemma foldl_ce_cong: "(\<And>c m. m \<in> set ns \<Longrightarrow> ce c m = ce' c m) \<Longrightarrow> foldl ce c ns = foldl ce' c ns"
  by (induction ns arbitrary: c) auto

lemma cseq_cong: "(\<And>c m. m \<in> set ns \<Longrightarrow> ce c m = ce' c m) \<Longrightarrow> cseq ce c ns = cseq ce' c ns"
  by (induction ce c ns rule: cseq.induct) auto

lemma ctemplate_loop_cong:
  "(\<And>c m. m \<in> set ns \<Longrightarrow> ce c m = ce' c m) \<Longrightarrow> ctemplate_loop ce c parts ns = ctemplate_loop ce' c parts ns"
  by (induction ce c parts ns rule: ctemplate_loop.induct) (auto simp: Let_def)

text \<open>Two compilers of subexpressions that agree below a size.\<close>

definition agree :: "nat \<Rightarrow> ce \<Rightarrow> ce \<Rightarrow> bool" where
  "agree k ce ce' \<longleftrightarrow> (\<forall>c m. size m < k \<longrightarrow> ce c m = ce' c m)"

lemma agreeD: "agree k ce ce' \<Longrightarrow> size m < k \<Longrightarrow> ce c m = ce' c m"
  by (simp add: agree_def)

lemma agree_list: "agree (Suc (size_list size ns + j)) ce ce' \<Longrightarrow> m \<in> set ns \<Longrightarrow> ce c m = ce' c m"
  using size_member [of m ns] by (auto simp: agree_def)

lemma cexprs_agree: "agree (Suc (size_list size ns + j)) ce ce' \<Longrightarrow> cexprs ce c ns = cexprs ce' c ns"
  unfolding cexprs_def by (rule foldl_ce_cong) (erule (1) agree_list)

lemma ccall_agree:
  assumes "agree (size (AST_CALL opt io callee args)) ce ce'"
  shows "ccall ce E c opt io callee args = ccall ce' E c opt io callee args"
proof -
  have l: "cexprs ce c args = cexprs ce' c args" for c
    using assms by (intro cexprs_agree [where j = "size callee"]) (simp add: add.commute)
  have s: "ce c m = ce' c m" if "size m \<le> size callee" for c m using that by (auto intro!: agreeD [OF assms])
  have a: "ce c a = ce' c a" if "args = [a]" for c a using that by (auto intro!: agreeD [OF assms])
  have p: "ce c obj = ce' c obj" if "is_plain_member callee = Some (obj, name)" for c obj name
    using s less_imp_le [OF is_plain_member_size [OF that]] by blast
  have e: "ce c obj = ce' c obj \<and> ce d key = ce' d key" if "is_computed_member callee = Some (obj, key)" for c d obj key
    using s is_computed_member_size [OF that] by (blast intro: less_imp_le)
  show ?thesis
  proof (cases "\<exists>a. args = [a]")
    case True
    then show ?thesis using l s [of callee] a by (auto simp: ccall_def p e split: option.split)
  next
    case False
    then have "(case (conversion_op callee, args) of (Some op, [a]) \<Rightarrow> f op a | _ \<Rightarrow> x) = x" for f and x :: bc_comp
      by (auto split: option.split list.split)
    then show ?thesis using s [of callee] by (auto simp: ccall_def p e l split: option.split)
  qed
qed

lemma cassign_agree:
  assumes "agree (size (AST_ASSIGN op tgt val)) ce ce'"
  shows "cassign ce E c op tgt val = cassign ce' E c op tgt val"
proof -
  have v: "ce c m = ce' c m" if "size m \<le> size val \<or> size m < size tgt" for c m using that by (auto intro!: agreeD [OF assms])
  have n: "cassign_name ce c name val = cassign_name ce' c name val" for name
    using v self_add_size [of name val] by (simp add: cassign_name_def less_imp_le split: option.split)
  have k: "ccompound_name ce c bop name val = ccompound_name ce' c bop name val" for bop name
    using v by (simp add: ccompound_name_def split: option.split)
  have m: "ce c obj = ce' c obj" if "is_plain_member tgt = Some (obj, name)" for c obj name
    using v is_plain_member_size [OF that] by blast
  have e: "ce c obj = ce' c obj \<and> ce d key = ce' d key" if "is_computed_member tgt = Some (obj, key)" for c d obj key
    using v is_computed_member_size [OF that] by blast+
  show ?thesis unfolding cassign_def Let_def n k using v [of val] by (auto simp: m e split: option.split)
qed

lemma cincdec_agree:
  assumes "agree (size (AST_UNARY op prefix tgt)) ce ce'"
  shows "cincdec ce E c op prefix tgt = cincdec ce' E c op prefix tgt"
proof -
  have v: "ce c m = ce' c m" if "size m < size tgt" for c m using that by (auto intro!: agreeD [OF assms])
  have m: "ce c obj = ce' c obj" if "is_plain_member tgt = Some (obj, name)" for c obj name
    using v is_plain_member_size [OF that] by blast
  have e: "ce c obj = ce' c obj \<and> ce d key = ce' d key" if "is_computed_member tgt = Some (obj, key)" for c d obj key
    using v is_computed_member_size [OF that] by blast+
  show ?thesis by (auto simp: cincdec_def Let_def m e split: option.split)
qed

lemma cunary_agree:
  assumes "agree (size (AST_UNARY op prefix a)) ce ce'"
  shows "cunary ce E c op prefix a = cunary ce' E c op prefix a"
proof -
  have v: "ce c m = ce' c m" if "size m \<le> size a" for c m using that by (auto intro!: agreeD [OF assms])
  have m: "ce c obj = ce' c obj" if "is_plain_member a = Some (obj, name)" for c obj name
    using v less_imp_le [OF is_plain_member_size [OF that]] by blast
  have e: "ce c obj = ce' c obj \<and> ce d key = ce' d key" if "is_computed_member a = Some (obj, key)" for c d obj key
    using v is_computed_member_size [OF that] by (blast intro: less_imp_le)+
  show ?thesis unfolding cunary_def cincdec_agree [OF assms] using v [of a] by (auto simp: m e split: option.split)
qed

lemma cbinary_agree:
  assumes "agree (size (AST_BINARY op l r)) ce ce'"
  shows "cbinary ce E c op l r = cbinary ce' E c op l r"
proof -
  have v: "ce c m = ce' c m" if "size m \<le> size l \<or> size m \<le> size r" for c m using that by (auto intro!: agreeD [OF assms])
  have lr: "(\<lambda>c. ce c l) = (\<lambda>c. ce' c l)" "(\<lambda>c. ce c r) = (\<lambda>c. ce' c r)" using v by auto
  have f: "cfactored ce c op i x y = cfactored ce' c op i x y" if "try_factor_cse op l r = Some (i, x, y)" for i x y
  proof -
    have "ce c m = ce' c m" if "m \<in> {i, x, y}" for c m
      using v try_factor_cse_size [OF \<open>try_factor_cse op l r = _\<close>] that by auto
    then show ?thesis by (simp add: cfactored_def split: option.split)
  qed
  show ?thesis unfolding cbinary_def lr using f by (auto split: option.split)
qed

lemma cmember_agree:
  assumes "agree (size (AST_MEMBER obj prop opt)) ce ce'"
  shows "cmember ce E c obj prop opt = cmember ce' E c obj prop opt"
proof -
  have "ce c obj = ce' c obj" for c using assms by (auto intro!: agreeD [OF assms])
  then show ?thesis by (simp add: cmember_def split: option.split)
qed

lemma cobject_agree:
  assumes "agree (size (AST_OBJECT props)) ce ce'"
  shows "cobject ce E c props = cobject ce' E c props"
proof -
  have "cprop ce c pn = cprop ce' c pn" if pn: "pn \<in> set props" for c pn
  proof (cases pn)
    case (AST_PROPERTY key val sh)
    have "ce c m = ce' c m" if "m = key \<or> m = val" for c m
      using assms AST_PROPERTY size_member [OF pn] that by (auto intro!: agreeD [OF assms])
    then show ?thesis using AST_PROPERTY by (simp add: cprop_def split: option.split)
  qed (simp_all add: cprop_def)
  then show ?thesis unfolding cobject_def by (simp cong: foldl_ce_cong)
qed

lemma ctemplate_agree:
  assumes "agree (size (AST_TEMPLATE tag parts exprs)) ce ce'"
  shows "ctemplate ce E c tag parts exprs = ctemplate ce' E c tag parts exprs"
proof -
  have "ctemplate_loop ce c ps exprs = ctemplate_loop ce' c ps exprs" for c ps
    using assms by (intro ctemplate_loop_cong) (rule agree_list [where j = "size tag"], simp_all add: add.commute)
  then show ?thesis by (simp add: ctemplate_def)
qed

lemma cexpr_node_agree:
  assumes "agree (size n) ce ce'"
  shows "cexpr_node ce E c n = cexpr_node ce' E c n"
proof (cases n)
  case (AST_CONDITIONAL a b d)
  have "(\<lambda>c. ce c m) = (\<lambda>c. ce' c m)" if "m \<in> {a, b, d}" for m
    using assms AST_CONDITIONAL that by (auto intro!: agreeD [OF assms])
  then have "(\<lambda>c. ce c a) = (\<lambda>c. ce' c a)" "(\<lambda>c. ce c b) = (\<lambda>c. ce' c b)" "(\<lambda>c. ce c d) = (\<lambda>c. ce' c d)" by auto
  then show ?thesis using AST_CONDITIONAL by (simp add: cexpr_node_def)
next
  case (AST_NEW callee args)
  have "cexprs ce c args = cexprs ce' c args" for c
    using assms AST_NEW by (intro cexprs_agree [where j = "size callee"]) (simp add: add.commute)
  moreover have "ce c callee = ce' c callee" for c using assms AST_NEW by (auto intro!: agreeD [OF assms])
  ultimately show ?thesis using AST_NEW by (simp add: cexpr_node_def)
next
  case (AST_COMPUTED_MEMBER obj key)
  have "ce c m = ce' c m" if "m \<in> {obj, key}" for c m using assms AST_COMPUTED_MEMBER that by (auto intro!: agreeD [OF assms])
  then show ?thesis using AST_COMPUTED_MEMBER by (simp add: cexpr_node_def split: option.split)
next
  case (AST_SEQUENCE ns)
  have "cseq ce c ns = cseq ce' c ns"
    using assms AST_SEQUENCE by (intro cseq_cong) (rule agree_list [where j = 0], simp_all)
  then show ?thesis using AST_SEQUENCE by (simp add: cexpr_node_def)
next
  case (AST_ARRAY es)
  have "cexprs ce c es = cexprs ce' c es" using assms AST_ARRAY by (intro cexprs_agree [where j = 0]) simp
  then show ?thesis using AST_ARRAY by (simp add: cexpr_node_def)
qed (use assms in \<open>simp_all add: cexpr_node_def ccall_agree cassign_agree cunary_agree cbinary_agree cmember_agree
  cobject_agree ctemplate_agree\<close>)

lemma cexpr_unfold: "cexpr E c n = cexpr_node (cexpr E) E c n"
proof -
  have "agree (size n) (\<lambda>c m. if size m < size n then cexpr E c m else c) (cexpr E)" by (simp add: agree_def)
  then show ?thesis by (subst cexpr.simps) (rule cexpr_node_agree)
qed

declare cexpr.simps [simp del]

end
