(* ===== verification/LR_Run.thy ===== *)
theory LR_Run
  imports LR_Compile
begin

text \<open>
  Running compiled code. \<open>runs\<close> says what a sequence of instructions does wherever it stands in a program: it maps
  operand stack and store to operand stack and store, or ends the run. Such facts compose along the sequence, and the
  rules for branches hide the jump offsets.
\<close>

section \<open>Outcomes\<close>

datatype 'a outcome = Go 'a | Halt vm_status

definition obind :: "'a outcome \<Rightarrow> ('a \<Rightarrow> 'b outcome) \<Rightarrow> 'b outcome" where
  "obind r f = (case r of Go x \<Rightarrow> f x | Halt st \<Rightarrow> Halt st)"

lemma obind_simps [simp]: "obind (Go x) f = f x" "obind (Halt st) f = Halt st"
  by (simp_all add: obind_def)

lemma obind_assoc: "obind (obind r f) g = obind r (\<lambda>x. obind (f x) g)"
  by (cases r) simp_all

lemma obind_cong [fundef_cong]: "r = r' \<Longrightarrow> (\<And>x. r' = Go x \<Longrightarrow> f x = g x) \<Longrightarrow> obind r f = obind r' g"
  by (cases r') simp_all

text \<open>The part of the machine state that expressions read and write.\<close>

record store =
  st_locals :: "lr_value list"
  st_bigints :: "u64 \<Rightarrow> u64 option"
  st_next :: u64

definition store_of :: "vm \<Rightarrow> store" where
  "store_of s = \<lparr>st_locals = v_locals s, st_bigints = v_bigints s, st_next = v_next s\<rparr>"

definition put :: "lr_value list \<Rightarrow> store \<Rightarrow> vm \<Rightarrow> vm" where
  "put st \<sigma> s = s\<lparr>v_stack := st, v_locals := st_locals \<sigma>, v_bigints := st_bigints \<sigma>, v_next := st_next \<sigma>\<rparr>"

definition goto :: "nat \<Rightarrow> vm \<Rightarrow> vm" where
  "goto p s = s\<lparr>v_pc := int p\<rparr>"

lemma put_sel [simp]:
  "v_stack (put st \<sigma> s) = st" "store_of (put st \<sigma> s) = \<sigma>" "v_locals (put st \<sigma> s) = st_locals \<sigma>"
  "v_bigints (put st \<sigma> s) = st_bigints \<sigma>" "v_next (put st \<sigma> s) = st_next \<sigma>" "v_pc (put st \<sigma> s) = v_pc s"
  "v_result (put st \<sigma> s) = v_result s"
  "put st \<sigma> (put st' \<sigma>' s) = put st \<sigma> s" "put st \<sigma> (goto p s) = goto p (put st \<sigma> s)"
  by (simp_all add: put_def store_of_def)
    (simp add: goto_def)

lemma put_self [simp]: "put (v_stack s) (store_of s) s = s"
  by (simp add: put_def store_of_def)

lemma goto_sel [simp]:
  "v_stack (goto p s) = v_stack s" "store_of (goto p s) = store_of s" "v_locals (goto p s) = v_locals s"
  "v_bigints (goto p s) = v_bigints s" "v_next (goto p s) = v_next s" "v_pc (goto p s) = int p"
  "v_result (goto p s) = v_result s" "goto p (goto q s) = goto p s"
  by (simp_all add: goto_def store_of_def)

lemma store_of_sel [simp]:
  "st_locals (store_of s) = v_locals s" "st_bigints (store_of s) = v_bigints s" "st_next (store_of s) = v_next s"
  by (simp_all add: store_of_def)

section \<open>Steps\<close>

definition goes :: "nat \<Rightarrow> js_env \<Rightarrow> bc_const list \<Rightarrow> bytes \<Rightarrow> vm \<Rightarrow> vm \<Rightarrow> bool" where
  "goes F env pool code = (\<lambda>s s'. vm_step F env pool code s = (Vm_run, s'))\<^sup>*\<^sup>*"

definition stops :: "nat \<Rightarrow> js_env \<Rightarrow> bc_const list \<Rightarrow> bytes \<Rightarrow> vm \<Rightarrow> vm_status \<Rightarrow> bool" where
  "stops F env pool code s st \<longleftrightarrow> st \<noteq> Vm_run \<and> (\<exists>s'. goes F env pool code s s' \<and> fst (vm_step F env pool code s') = st)"

lemma goes_refl [simp]: "goes F env pool code s s"
  by (simp add: goes_def)

lemma goes_trans: "goes F env pool code s t \<Longrightarrow> goes F env pool code t u \<Longrightarrow> goes F env pool code s u"
  unfolding goes_def by (rule rtranclp_trans)

lemma goes_step: "vm_step F env pool code s = (Vm_run, t) \<Longrightarrow> goes F env pool code s t"
  unfolding goes_def by auto

lemma goes_stops: "goes F env pool code s t \<Longrightarrow> stops F env pool code t r \<Longrightarrow> stops F env pool code s r"
  unfolding stops_def using goes_trans by blast

definition enc :: "insn list \<Rightarrow> bytes" where
  "enc is = concat (map enc_insn is)"

lemma enc_simps [simp]: "enc [] = []" "enc (i # is) = enc_insn i @ enc is" "enc (is @ js) = enc is @ enc js"
  by (simp_all add: enc_def)

text \<open>An instruction of the program executes with the operands it was built from.\<close>

lemma vm_operands_insn:
  assumes "insn_typed i"
  shows "vm_operands (pre @ enc_insn i @ post) (length pre + 1) (snd (bc_info (fst i))) = snd i"
  using assms
proof (cases rule: insn_typed_cases)
  case 1
  then show ?thesis by (simp add: vm_operands_def)
next
  case (2 a)
  then show ?thesis using get_u16_put [of a "length pre + 1" "pre @ [fst i]" post]
    by (simp add: vm_operands_def enc_insn_def enc_operand_def)
next
  case (3 v)
  then show ?thesis using get_i32_put [of v "length pre + 1" "pre @ [fst i]" post]
    by (simp add: vm_operands_def enc_insn_def enc_operand_def)
next
  case (4 a b)
  then show ?thesis using get_u16_put [of a "length pre + 1" "pre @ [fst i]" "put_u16 b @ post"]
      get_u16_put [of b "length pre + 1 + 2" "pre @ [fst i] @ put_u16 a" post]
    by (simp add: vm_operands_def enc_insn_def enc_operand_def)
next
  case (5 a b)
  then show ?thesis using get_u16_put [of a "length pre + 1" "pre @ [fst i]" "[b] @ post"]
    by (simp add: vm_operands_def enc_insn_def enc_operand_def nth_append)
next
  case (6 a v w)
  then show ?thesis
    using get_u16_put [of a "length pre + 1" "pre @ [fst i]" "put_u32 (word_of_int v) @ put_u32 (word_of_int w) @ post"]
      get_i32_put [of v "length pre + 1 + 2" "pre @ [fst i] @ put_u16 a" "put_u32 (word_of_int w) @ post"]
      get_i32_put [of w "length pre + 1 + 6" "pre @ [fst i] @ put_u16 a @ put_u32 (word_of_int v)" post]
    by (simp add: vm_operands_def enc_insn_def enc_operand_def)
qed

lemma vm_step_insn:
  assumes "insn_typed i" "v_pc s = int (length pre)"
  shows "vm_step F env pool (pre @ enc_insn i @ post) s =
    vm_exec F env pool (fst i) (snd i) (goto (length pre + length (enc_insn i)) s)"
proof -
  have op: "(pre @ enc_insn i @ post) ! length pre = fst i" by (simp add: enc_insn_def)
  have nz: "bc_op_total_len (fst i) \<noteq> 0" using bc_op_total_len_pos [of "fst i"] by linarith
  show ?thesis
    using assms(2) vm_operands_insn [OF assms(1), of pre post] insn_typed_len [OF assms(1)]
    by (simp add: vm_step_def op nz Let_def goto_def)
qed

section \<open>What a sequence of instructions does\<close>

type_synonym effect = "lr_value list \<times> store \<Rightarrow> (lr_value list \<times> store) outcome"

definition runs :: "nat \<Rightarrow> js_env \<Rightarrow> bc_const list \<Rightarrow> nat \<Rightarrow> insn list \<Rightarrow> effect \<Rightarrow> bool" where
  "runs F env pool N is T \<longleftrightarrow> (\<forall>pre post s. v_pc s = int (length pre) \<and> length (v_locals s) = N \<longrightarrow>
     (case T (v_stack s, store_of s) of
        Go (st, \<sigma>) \<Rightarrow> length (st_locals \<sigma>) = N \<and>
          goes F env pool (pre @ enc is @ post) s (goto (length pre + length (enc is)) (put st \<sigma> s))
      | Halt r \<Rightarrow> stops F env pool (pre @ enc is @ post) s r))"

lemma runsD:
  assumes "runs F env pool N is T" "v_pc s = int (length pre)" "length (v_locals s) = N"
  shows "T (v_stack s, store_of s) = Go (st, \<sigma>) \<Longrightarrow> length (st_locals \<sigma>) = N"
    "T (v_stack s, store_of s) = Go (st, \<sigma>) \<Longrightarrow>
       goes F env pool (pre @ enc is @ post) s (goto (length pre + length (enc is)) (put st \<sigma> s))"
    "T (v_stack s, store_of s) = Halt r \<Longrightarrow> stops F env pool (pre @ enc is @ post) s r"
  using assms by (fastforce simp: runs_def)+

definition seq_eff :: "effect \<Rightarrow> effect \<Rightarrow> effect" where
  "seq_eff T U = (\<lambda>x. obind (T x) U)"

lemma runs_append:
  assumes T: "runs F env pool N is T" and U: "runs F env pool N js U"
  shows "runs F env pool N (is @ js) (seq_eff T U)"
  unfolding runs_def
proof (intro allI impI, elim conjE)
  fix pre post :: bytes and s :: vm
  assume s: "v_pc s = int (length pre)" "length (v_locals s) = N"
  let ?code = "pre @ enc (is @ js) @ post"
  show "case seq_eff T U (v_stack s, store_of s) of
      Go (st, \<sigma>) \<Rightarrow> length (st_locals \<sigma>) = N \<and>
        goes F env pool ?code s (goto (length pre + length (enc (is @ js))) (put st \<sigma> s))
    | Halt r \<Rightarrow> stops F env pool ?code s r"
  proof (cases "T (v_stack s, store_of s)")
    case (Halt r)
    then show ?thesis using runsD(3) [OF T s Halt, of "enc js @ post"] by (simp add: seq_eff_def)
  next
    case (Go x)
    obtain st \<sigma> where x: "x = (st, \<sigma>)" by fastforce
    let ?t = "goto (length pre + length (enc is)) (put st \<sigma> s)"
    have one: "goes F env pool ?code s ?t" "length (st_locals \<sigma>) = N"
      using runsD(2) [OF T s, of st \<sigma> "enc js @ post"] runsD(1) [OF T s] Go x by auto
    have t: "v_pc ?t = int (length (pre @ enc is))" "length (v_locals ?t) = N" using one by simp_all
    show ?thesis
    proof (cases "U (st, \<sigma>)")
      case (Halt r)
      then show ?thesis using runsD(3) [OF U t, of r post] goes_stops [OF one(1)] Go x by (simp add: seq_eff_def)
    next
      case (Go y)
      then show ?thesis
        using runsD(1) [OF U t] runsD(2) [OF U t, of "fst y" "snd y" post] goes_trans [OF one(1)] \<open>T _ = _\<close> x
        by (cases y) (simp add: seq_eff_def add.assoc)
    qed
  qed
qed

lemma runs_insn:
  assumes ty: "insn_typed i"
    and ex: "\<And>s. length (v_locals s) = N \<Longrightarrow>
      (case T (v_stack s, store_of s) of
         Go (st, \<sigma>) \<Rightarrow> vm_exec F env pool (fst i) (snd i) s = (Vm_run, put st \<sigma> s) \<and> length (st_locals \<sigma>) = N
       | Halt r \<Rightarrow> fst (vm_exec F env pool (fst i) (snd i) s) = r \<and> r \<noteq> Vm_run)"
  shows "runs F env pool N [i] T"
  unfolding runs_def
proof (intro allI impI, elim conjE)
  fix pre post :: bytes and s :: vm
  assume s: "v_pc s = int (length pre)" "length (v_locals s) = N"
  let ?t = "goto (length pre + length (enc_insn i)) s"
  have step: "vm_step F env pool (pre @ enc_insn i @ post) s = vm_exec F env pool (fst i) (snd i) ?t"
    by (rule vm_step_insn [OF ty s(1)])
  show "case T (v_stack s, store_of s) of
      Go (st, \<sigma>) \<Rightarrow> length (st_locals \<sigma>) = N \<and>
        goes F env pool (pre @ enc [i] @ post) s (goto (length pre + length (enc [i])) (put st \<sigma> s))
    | Halt r \<Rightarrow> stops F env pool (pre @ enc [i] @ post) s r"
    using ex [of ?t] s(2) by (auto split: outcome.splits simp: step stops_def intro!: goes_step exI [of _ s] goes_refl)
qed

section \<open>Branches\<close>

text \<open>A jump over \<open>mid1\<close>; \<open>D\<close> is its decision and what it leaves on the stack.\<close>

lemma runs_branch:
  assumes ty: "insn_typed (op, [I32 off])" and off: "off = int (length (enc mid1))"
    and ex: "\<And>s. case D (v_stack s) of
        Go (tk, st) \<Rightarrow> vm_exec32 op off s = (Vm_run, (if tk then vm_jump off else id) (put st (store_of s) s))
      | Halt r \<Rightarrow> fst (vm_exec32 op off s) = r \<and> r \<noteq> Vm_run"
    and A: "runs F env pool N (mid1 @ mid2) A" and B: "runs F env pool N mid2 B"
  shows "runs F env pool N ((op, [I32 off]) # mid1 @ mid2)
    (\<lambda>(st, \<sigma>). obind (D st) (\<lambda>(tk, st'). if tk then B (st', \<sigma>) else A (st', \<sigma>)))"
  unfolding runs_def
proof (intro allI impI, elim conjE)
  fix pre post :: bytes and s :: vm
  assume s: "v_pc s = int (length pre)" "length (v_locals s) = N"
  let ?i = "(op, [I32 off])"
  let ?code = "pre @ enc (?i # mid1 @ mid2) @ post"
  let ?t = "goto (length pre + length (enc_insn ?i)) s"
  let ?R = "obind (D (v_stack s)) (\<lambda>(tk, st'). if tk then B (st', store_of s) else A (st', store_of s))"
  have step: "vm_step F env pool ?code s = vm_exec32 op off ?t"
    using vm_step_insn [OF ty s(1), of F env pool "enc (mid1 @ mid2) @ post"] by (simp add: vm_exec_def)
  have "case ?R of
      Go (st, \<sigma>) \<Rightarrow> length (st_locals \<sigma>) = N \<and>
        goes F env pool ?code s (goto (length pre + length (enc (?i # mid1 @ mid2))) (put st \<sigma> s))
    | Halt r \<Rightarrow> stops F env pool ?code s r"
  proof (cases "D (v_stack s)")
    case (Halt r)
    then have "stops F env pool ?code s r" using ex [of ?t] step by (auto simp: stops_def intro!: exI [of _ s])
    then show ?thesis using Halt by simp
  next
    case (Go x)
    obtain tk st where x: "x = (tk, st)" by fastforce
    define w where "w = (if tk then vm_jump off else id) (put st (store_of s) ?t)"
    have w: "goes F env pool ?code s w" using ex [of ?t] step Go x by (auto simp: w_def intro!: goes_step)
    have n: "length (v_locals w) = N" "v_stack w = st" "store_of w = store_of s"
      using s(2) by (simp_all add: w_def vm_jump_def store_of_def put_def)
    have pw: "goto q (put st' \<sigma>' w) = goto q (put st' \<sigma>' s)" for st' \<sigma>' q
      by (simp add: w_def vm_jump_def put_def goto_def)
    define pre' where "pre' = pre @ enc_insn ?i @ (if tk then enc mid1 else [])"
    define js where "js = (if tk then mid2 else mid1 @ mid2)"
    have code: "?code = pre' @ enc js @ post" by (simp add: pre'_def js_def)
    have pc: "v_pc w = int (length pre')" using off by (simp add: pre'_def w_def vm_jump_def)
    have len: "length pre + length (enc (?i # mid1 @ mid2)) = length pre' + length (enc js)"
      by (simp add: pre'_def js_def)
    have J: "runs F env pool N js (if tk then B else A)" using A B by (simp add: js_def)
    have R: "?R = (if tk then B else A) (v_stack w, store_of w)" using Go x n by simp
    show ?thesis
    proof (cases "(if tk then B else A) (v_stack w, store_of w)")
      case (Halt r)
      with runsD(3) [OF J pc n(1) this, of post] goes_stops [OF w] show ?thesis unfolding R code by simp
    next
      case (Go y)
      obtain st' \<sigma>' where y: "y = (st', \<sigma>')" by fastforce
      with Go have G: "(if tk then B else A) (v_stack w, store_of w) = Go (st', \<sigma>')" by simp
      with runsD(1) [OF J pc n(1) G] runsD(2) [OF J pc n(1) G, of post] goes_trans [OF w] show ?thesis unfolding R code len by (simp add: pw)
    qed
  qed
  then show "case (case (v_stack s, store_of s) of (st, \<sigma>) \<Rightarrow>
        obind (D st) (\<lambda>(tk, st'). if tk then B (st', \<sigma>) else A (st', \<sigma>))) of
      Go (st, \<sigma>) \<Rightarrow> length (st_locals \<sigma>) = N \<and>
        goes F env pool ?code s (goto (length pre + length (enc (?i # mid1 @ mid2))) (put st \<sigma> s))
    | Halt r \<Rightarrow> stops F env pool ?code s r" by simp
qed

section \<open>Effects of the instructions\<close>

definition top :: "lr_value list \<Rightarrow> lr_value" where
  "top st = (case st of [] \<Rightarrow> LR_UNDEFINED | v # _ \<Rightarrow> v)"

lemma top_Cons [simp]: "top (v # st) = v"
  by (simp add: top_def)

lemma vm_top_stack: "vm_top s = top (v_stack s)"
  by (simp add: vm_top_def top_def)

definition store_env :: "js_env \<Rightarrow> store \<Rightarrow> js_env" where
  "store_env env \<sigma> = env\<lparr>env_bigint := st_bigints \<sigma>\<rparr>"

lemma vm_env_store: "vm_env env s = store_env env (store_of s)"
  by (simp add: vm_env_def store_env_def)

definition set_local :: "nat \<Rightarrow> lr_value \<Rightarrow> store \<Rightarrow> store" where
  "set_local i v \<sigma> = \<sigma>\<lparr>st_locals := (st_locals \<sigma>)[i := v]\<rparr>"

definition take_op :: "op_result option \<Rightarrow> store \<Rightarrow> (lr_value \<times> store) outcome" where
  "take_op r \<sigma> =
     (case r of
        None \<Rightarrow> Halt Vm_out
      | Some (Op_val v) \<Rightarrow> Go (v, \<sigma>)
      | Some (Op_bigint x) \<Rightarrow>
          Go (LR_OBJECT (st_next \<sigma>), \<sigma>\<lparr>st_bigints := (st_bigints \<sigma>)(st_next \<sigma> := Some x), st_next := st_next \<sigma> + 8\<rparr>)
      | Some (Op_throw _) \<Rightarrow> Halt Vm_abort
      | Some Op_trap \<Rightarrow> Halt Vm_trap)"

lemma take_op_locals: "take_op r \<sigma> = Go (v, \<sigma>') \<Longrightarrow> st_locals \<sigma>' = st_locals \<sigma>"
  by (auto simp: take_op_def split: option.splits op_result.splits)

lemma take_op_Halt: "take_op r \<sigma> = Halt st \<Longrightarrow> st \<noteq> Vm_run"
  by (auto simp: take_op_def split: option.splits op_result.splits)

lemma vm_take_store:
  "vm_take r k s = (case take_op r (store_of s) of Go (v, \<sigma>) \<Rightarrow> (Vm_run, k v (put (v_stack s) \<sigma> s)) | Halt st \<Rightarrow> (st, s))"
  by (auto simp: vm_take_def take_op_def put_def store_of_def split: option.split op_result.split)

definition push_eff :: "lr_value \<Rightarrow> effect" where
  "push_eff v = (\<lambda>(st, \<sigma>). Go (v # st, \<sigma>))"

definition unary_eff :: "(store \<Rightarrow> lr_value \<Rightarrow> lr_value) \<Rightarrow> effect" where
  "unary_eff f = (\<lambda>(st, \<sigma>). Go (f \<sigma> (top st) # tl st, \<sigma>))"

definition binop_eff :: "nat \<Rightarrow> js_env \<Rightarrow> binop \<Rightarrow> effect" where
  "binop_eff F env op = (\<lambda>(st, \<sigma>).
     case st of
       b # a # st' \<Rightarrow> obind (take_op (vm_binop F (store_env env \<sigma>) op a b) \<sigma>) (\<lambda>(v, \<sigma>'). Go (v # st', \<sigma>'))
     | _ \<Rightarrow> Halt Vm_abort)"

definition load_eff :: "nat \<Rightarrow> effect" where
  "load_eff i = (\<lambda>(st, \<sigma>). Go (st_locals \<sigma> ! i # st, \<sigma>))"

definition store_eff :: "nat \<Rightarrow> effect" where
  "store_eff i = (\<lambda>(st, \<sigma>). Go (tl st, set_local i (top st) \<sigma>))"

definition dup_eff :: effect where
  "dup_eff = (\<lambda>(st, \<sigma>). Go (top st # st, \<sigma>))"

definition pop_eff :: effect where
  "pop_eff = (\<lambda>(st, \<sigma>). Go (tl st, \<sigma>))"

text \<open>\<open>x += e\<close> and \<open>x++\<close> on the value of the slot.\<close>

definition add_value :: "nat \<Rightarrow> js_env \<Rightarrow> lr_value \<Rightarrow> lr_value \<Rightarrow> op_result option" where
  "add_value F env a b =
     (case (if lr_tag a = 5 then quick_string_add a b else None) of
        Some v \<Rightarrow> Some (Op_val v)
      | None \<Rightarrow> bcv_binop F env ADD a b)"

definition inc_value :: "nat \<Rightarrow> js_env \<Rightarrow> lr_value \<Rightarrow> op_result option" where
  "inc_value F env old =
     (case old of LR_INT32 i \<Rightarrow> Some (Op_val (LR_INT32 (i + 1))) | _ \<Rightarrow> bcv_binop F env ADD old (LR_INT32 1))"

definition self_eff :: "(store \<Rightarrow> lr_value \<Rightarrow> lr_value \<Rightarrow> op_result option) \<Rightarrow> nat \<Rightarrow> effect" where
  "self_eff f i = (\<lambda>(st, \<sigma>).
     obind (take_op (f \<sigma> (st_locals \<sigma> ! i) (top st)) \<sigma>) (\<lambda>(v, \<sigma>'). Go (v # tl st, set_local i v \<sigma>')))"

definition inc_eff :: "nat \<Rightarrow> js_env \<Rightarrow> nat \<Rightarrow> effect" where
  "inc_eff F env i = (\<lambda>(st, \<sigma>).
     obind (take_op (inc_value F (store_env env \<sigma>) (st_locals \<sigma> ! i)) \<sigma>)
       (\<lambda>(v, \<sigma>'). Go (st_locals \<sigma> ! i # st, set_local i v \<sigma>')))"

lemmas eff_defs = push_eff_def unary_eff_def binop_eff_def load_eff_def store_eff_def dup_eff_def pop_eff_def
  self_eff_def inc_eff_def

lemma set_local_sel [simp]:
  "length (st_locals (set_local i v \<sigma>)) = length (st_locals \<sigma>)" "st_locals (set_local i v \<sigma>) = (st_locals \<sigma>)[i := v]"
  "st_bigints (set_local i v \<sigma>) = st_bigints \<sigma>" "st_next (set_local i v \<sigma>) = st_next \<sigma>"
  by (simp_all add: set_local_def)

lemma insn_typed_kinds:
  "snd (bc_info op) = 0 \<Longrightarrow> insn_typed (op, [])"
  "snd (bc_info op) = 1 \<Longrightarrow> i < 65536 \<Longrightarrow> insn_typed (op, [U16 (int i)])"
  "snd (bc_info op) = 2 \<Longrightarrow> - (2 ^ 31) \<le> v \<Longrightarrow> v < 2 ^ 31 \<Longrightarrow> insn_typed (op, [I32 v])"
  by (simp_all add: insn_typed_def numeral_2_eq_2)

lemma kinds0 [simp]:
  "snd (bc_info BC_PUSH_UNDEFINED) = 0" "snd (bc_info BC_PUSH_NULL) = 0" "snd (bc_info BC_PUSH_TRUE) = 0"
  "snd (bc_info BC_PUSH_FALSE) = 0" "snd (bc_info BC_DUP) = 0" "snd (bc_info BC_POP) = 0" "snd (bc_info BC_NEG) = 0"
  "snd (bc_info BC_POS) = 0" "snd (bc_info BC_NOT) = 0" "snd (bc_info BC_BIT_NOT) = 0" "snd (bc_info BC_TYPEOF) = 0"
  "snd (bc_info BC_VOID) = 0" "snd (bc_info BC_TO_STRING) = 0" "snd (bc_info BC_TO_NUMBER) = 0"
  "snd (bc_info BC_TO_BOOL) = 0" "snd (bc_info BC_SET_RESULT) = 0" "snd (bc_info BC_STOP) = 0"
  by (simp_all add: bc_info_def bc_info_table_def bc_opcode_defs)

lemma kinds12 [simp]:
  "snd (bc_info BC_PUSH_FLOAT64) = 1" "snd (bc_info BC_PUSH_STRING) = 1" "snd (bc_info BC_LOAD_LOCAL) = 1"
  "snd (bc_info BC_STORE_LOCAL) = 1" "snd (bc_info BC_INC_LOCAL) = 1" "snd (bc_info BC_ADD_SELF) = 1"
  "snd (bc_info BC_MUL_SELF) = 1" "snd (bc_info BC_PUSH_INT32) = 2" "snd (bc_info BC_JUMP) = 2"
  "snd (bc_info BC_JUMP_IF_FALSE) = 2" "snd (bc_info BC_JUMP_IF_FALSE_KEEP) = 2"
  "snd (bc_info BC_JUMP_IF_TRUE_KEEP) = 2" "snd (bc_info BC_JUMP_IF_NOT_NULLISH) = 2"
  by (simp_all add: bc_info_def bc_info_table_def bc_opcode_defs)

lemma runs_push:
  assumes "insn_typed i" "\<And>s. vm_exec F env pool (fst i) (snd i) s = (Vm_run, vm_push v s)"
  shows "runs F env pool N [i] (push_eff v)"
  using assms by (intro runs_insn) (simp_all add: push_eff_def vm_push_def put_def store_of_def)

lemma runs_constants:
  "runs F env pool N [(BC_PUSH_UNDEFINED, [])] (push_eff LR_UNDEFINED)"
  "runs F env pool N [(BC_PUSH_NULL, [])] (push_eff LR_NULL)"
  "runs F env pool N [(if b then BC_PUSH_TRUE else BC_PUSH_FALSE, [])] (push_eff (LR_BOOL b))"
  by (rule runs_push; cases b; simp add: insn_typed_kinds vm_exec_def vm_exec0_def; simp add: bc_opcode_defs)+

lemma runs_push_int32:
  "- (2 ^ 31) \<le> v \<Longrightarrow> v < 2 ^ 31 \<Longrightarrow> runs F env pool N [(BC_PUSH_INT32, [I32 v])] (push_eff (LR_INT32 (word_of_int v)))"
  by (rule runs_push) (simp_all add: insn_typed_kinds vm_exec_def vm_exec32_def)

lemma runs_push_pool:
  assumes "i < 65536"
  shows "runs F env pool N [(BC_PUSH_FLOAT64, [U16 (int i)])] (push_eff (LR_FLOAT64 (pool_f64 pool i)))"
    "runs F env pool N [(BC_PUSH_STRING, [U16 (int i)])] (push_eff (LR_STRING (pool_str pool i)))"
  using assms
  by (intro runs_push; simp add: insn_typed_kinds vm_exec_def vm_exec16_def; simp add: bc_opcode_defs)+

lemma runs_unary:
  assumes "insn_typed (op, [])" "\<And>s. vm_exec0 F env op s = (Vm_run, vm_push (f (store_of s) (vm_top s)) (vm_drop s))"
  shows "runs F env pool N [(op, [])] (unary_eff f)"
  using assms by (intro runs_insn)
    (simp_all add: unary_eff_def vm_exec_def vm_push_def vm_drop_def put_def store_of_def vm_top_stack)

text \<open>The unary operators of the machine as functions on values.\<close>

definition unary_fun :: "js_env \<Rightarrow> byte \<Rightarrow> store \<Rightarrow> lr_value \<Rightarrow> lr_value" where
  "unary_fun env op \<sigma> v =
     (if op = BC_NEG then bcv_number (f64_neg (bcv_to_number env v))
      else if op = BC_POS \<or> op = BC_TO_NUMBER then bcv_number (bcv_to_number env v)
      else if op = BC_NOT then LR_BOOL (\<not> lr_to_bool v)
      else if op = BC_BIT_NOT then LR_INT32 (NOT (bcv_to_int32 v))
      else if op = BC_TYPEOF then LR_STRING (str_bytes (bcv_typeof (store_env env \<sigma>) v))
      else if op = BC_TO_STRING then LR_STRING (cstr env v)
      else if op = BC_TO_BOOL then LR_BOOL (lr_to_bool v)
      else LR_UNDEFINED)"

lemma runs_unary_fun:
  assumes "op \<in> {BC_NEG, BC_POS, BC_TO_NUMBER, BC_NOT, BC_BIT_NOT, BC_TYPEOF, BC_TO_STRING, BC_TO_BOOL, BC_VOID}"
  shows "runs F env pool N [(op, [])] (unary_eff (unary_fun env op))"
proof -
  have "insn_typed (op, [])" using assms by (auto simp: insn_typed_kinds)
  moreover have "vm_exec0 F env op s = (Vm_run, vm_push (unary_fun env op (store_of s) (vm_top s)) (vm_drop s))" for s
    using assms by (elim insertE emptyE; simp only: vm_exec0_def unary_fun_def vm_unary_def vm_env_store bc_opcode_defs; simp)
  ultimately show ?thesis by (rule runs_unary)
qed

lemma runs_dup_pop:
  "runs F env pool N [(BC_DUP, [])] dup_eff" "runs F env pool N [(BC_POP, [])] pop_eff"
  by (rule runs_insn; simp add: insn_typed_kinds vm_exec_def vm_exec0_def eff_defs;
      simp add: bc_opcode_defs vm_push_def vm_drop_def put_def store_of_def vm_top_stack)+

lemma runs_load_store:
  assumes "i < N" "N < 65536"
  shows "runs F env pool N [(BC_LOAD_LOCAL, [U16 (int i)])] (load_eff i)"
    "runs F env pool N [(BC_STORE_LOCAL, [U16 (int i)])] (store_eff i)"
  using assms
  by (intro runs_insn; simp add: insn_typed_kinds vm_exec_def vm_exec16_def slot_ok_def eff_defs;
      simp add: bc_opcode_defs Let_def vm_push_def vm_drop_def set_slot_def put_def store_of_def vm_top_stack set_local_def)+

lemma binop_byte_range:
  assumes "binop_of_byte op = Some bop"
  shows "26 \<le> op" "op \<le> 47" "snd (bc_info op) = 0"
proof -
  show r: "26 \<le> op" "op \<le> 47" using assms by (auto simp: binop_of_byte_def split: if_splits)
  have "list_all (\<lambda>k. snd (bc_info_table ! k) = 0) [26..<48] \<and> 48 \<le> length bc_info_table" by code_simp
  moreover have "26 \<le> unat op" "unat op \<le> 47" using r by (simp_all add: word_le_nat_alt)
  then have "unat op \<in> set [26..<48]" by (simp only: set_upt atLeastLessThan_iff) simp
  ultimately show "snd (bc_info op) = 0" by (auto simp: bc_info_def list_all_iff simp del: upt_conv_Cons)
qed

lemma vm_exec0_binop:
  assumes "binop_of_byte op = Some bop"
  shows "vm_exec0 F env op s =
    (case v_stack s of
       b # a # st \<Rightarrow> vm_take (vm_binop F (vm_env env s) bop a b) vm_push (s\<lparr>v_stack := st\<rparr>)
     | _ \<Rightarrow> (Vm_abort, s))"
proof -
  have ne: "op \<noteq> c" if "\<not> (26 \<le> c \<and> c \<le> 47)" for c using binop_byte_range [OF assms] that by auto
  have "op \<noteq> 1" by (rule ne) (simp add: word_le_nat_alt)
  then show ?thesis unfolding vm_exec0_def bc_opcode_defs using assms by (simp add: ne)
qed

lemma runs_binop:
  assumes "binop_of_byte op = Some bop"
  shows "runs F env pool N [(op, [])] (binop_eff F env bop)"
proof (rule runs_insn)
  show "insn_typed (op, [])" using binop_byte_range(3) [OF assms] by (rule insn_typed_kinds)
  fix s :: vm
  assume N: "length (v_locals s) = N"
  show "case binop_eff F env bop (v_stack s, store_of s) of
      Go (st, \<sigma>) \<Rightarrow> vm_exec F env pool (fst (op, [])) (snd (op, [])) s = (Vm_run, put st \<sigma> s) \<and> length (st_locals \<sigma>) = N
    | Halt r \<Rightarrow> fst (vm_exec F env pool (fst (op, [])) (snd (op, [])) s) = r \<and> r \<noteq> Vm_run"
  proof (cases "v_stack s" rule: remdups_adj.cases)
    case (3 b a st)
    let ?r = "vm_binop F (store_env env (store_of s)) bop a b"
    have so: "store_of (s\<lparr>v_stack := st\<rparr>) = store_of s" by (simp add: store_of_def)
    have "vm_exec0 F env op s = vm_take ?r vm_push (s\<lparr>v_stack := st\<rparr>)"
      using 3 by (simp add: vm_exec0_binop [OF assms] vm_env_store)
    then show ?thesis using 3 N take_op_Halt [of ?r "store_of s"] take_op_locals [of ?r "store_of s"]
      by (cases "take_op ?r (store_of s)") (auto simp: vm_exec_def binop_eff_def vm_take_store so vm_push_def put_def)
  qed (simp_all add: binop_eff_def vm_exec_def vm_exec0_binop [OF assms])
qed

lemma slot_ok_N: "length (v_locals s) = N \<Longrightarrow> i < N \<Longrightarrow> N < 65536 \<Longrightarrow> slot_ok s i"
  by (simp add: slot_ok_def)

lemma runs_take_slot:
  assumes ty: "insn_typed (op, [U16 (int i)])"
    and ex: "\<And>s. length (v_locals s) = N \<Longrightarrow> vm_exec16 F env pool op i s =
      vm_take (r (v_stack s) (store_of s)) (\<lambda>v t. vm_push (g v s) (set_slot i v t)) (s\<lparr>v_stack := k (v_stack s)\<rparr>)"
    and T: "\<And>s. T (v_stack s, store_of s) =
      obind (take_op (r (v_stack s) (store_of s)) (store_of s)) (\<lambda>(v, \<sigma>). Go (g v s # k (v_stack s), set_local i v \<sigma>))"
  shows "runs F env pool N [(op, [U16 (int i)])] T"
proof (rule runs_insn [OF ty])
  fix s :: vm
  assume N: "length (v_locals s) = N"
  let ?r = "r (v_stack s) (store_of s)"
  have so: "store_of (s\<lparr>v_stack := k (v_stack s)\<rparr>) = store_of s" by (simp add: store_of_def)
  show "case T (v_stack s, store_of s) of
      Go (st, \<sigma>) \<Rightarrow> vm_exec F env pool (fst (op, [U16 (int i)])) (snd (op, [U16 (int i)])) s = (Vm_run, put st \<sigma> s)
        \<and> length (st_locals \<sigma>) = N
    | Halt x \<Rightarrow> fst (vm_exec F env pool (fst (op, [U16 (int i)])) (snd (op, [U16 (int i)])) s) = x \<and> x \<noteq> Vm_run"
    using N take_op_Halt [of ?r "store_of s"] take_op_locals [of ?r "store_of s"]
    by (cases "take_op ?r (store_of s)")
      (auto simp: vm_exec_def ex [OF N] T vm_take_store so vm_push_def set_slot_def set_local_def put_def)
qed

lemma runs_self:
  assumes "i < N" "N < 65536"
  shows "runs F env pool N [(BC_ADD_SELF, [U16 (int i)])] (self_eff (\<lambda>\<sigma>. add_value F (store_env env \<sigma>)) i)" (is ?A)
    and "runs F env pool N [(BC_MUL_SELF, [U16 (int i)])] (self_eff (\<lambda>\<sigma>. vm_binop F (store_env env \<sigma>) MUL) i)" (is ?M)
    and "runs F env pool N [(BC_INC_LOCAL, [U16 (int i)])] (inc_eff F env i)" (is ?I)
proof -
  have so: "store_of (s\<lparr>v_stack := st\<rparr>) = store_of s" "vm_env env (s\<lparr>v_stack := st\<rparr>) = vm_env env s" for s :: vm and st
    by (simp_all add: store_of_def vm_env_def)
  have ops: "BC_ADD_SELF \<notin> {BC_PUSH_FLOAT64, BC_PUSH_STRING, BC_LOAD_LOCAL, BC_STORE_LOCAL, BC_INC_LOCAL, BC_INC_LOCAL_DISCARD}"
    "BC_MUL_SELF \<notin> {BC_PUSH_FLOAT64, BC_PUSH_STRING, BC_LOAD_LOCAL, BC_STORE_LOCAL, BC_INC_LOCAL, BC_INC_LOCAL_DISCARD, BC_ADD_SELF}"
    "BC_INC_LOCAL \<notin> {BC_PUSH_FLOAT64, BC_PUSH_STRING, BC_LOAD_LOCAL, BC_STORE_LOCAL}"
    by (simp_all add: bc_opcode_defs)
  have i: "i < 65536" using assms by simp
  show ?A
  proof (rule runs_take_slot [where r = "\<lambda>st \<sigma>. add_value F (store_env env \<sigma>) (st_locals \<sigma> ! i) (top st)" and k = tl and g = "\<lambda>v _. v"])
    fix s :: vm
    assume "length (v_locals s) = N"
    then have "slot_ok (s\<lparr>v_stack := tl (v_stack s)\<rparr>) i" using assms by (simp add: slot_ok_def)
    then show "vm_exec16 F env pool BC_ADD_SELF i s =
        vm_take (add_value F (store_env env (store_of s)) (st_locals (store_of s) ! i) (top (v_stack s)))
          (\<lambda>v t. vm_push v (set_slot i v t)) (s\<lparr>v_stack := tl (v_stack s)\<rparr>)"
      using ops(1) by (simp add: vm_exec16_def vm_add_self_def Let_def vm_drop_def add_value_def vm_env_store vm_top_stack so
          vm_take_def split: option.split)
  qed (simp_all add: insn_typed_kinds i self_eff_def)
  show ?M
  proof (rule runs_take_slot [where r = "\<lambda>st \<sigma>. vm_binop F (store_env env \<sigma>) MUL (st_locals \<sigma> ! i) (top st)" and k = tl and g = "\<lambda>v _. v"])
    fix s :: vm
    assume "length (v_locals s) = N"
    then have "slot_ok (s\<lparr>v_stack := tl (v_stack s)\<rparr>) i" using assms by (simp add: slot_ok_def)
    then show "vm_exec16 F env pool BC_MUL_SELF i s =
        vm_take (vm_binop F (store_env env (store_of s)) MUL (st_locals (store_of s) ! i) (top (v_stack s)))
          (\<lambda>v t. vm_push v (set_slot i v t)) (s\<lparr>v_stack := tl (v_stack s)\<rparr>)"
      using ops(2) by (simp add: vm_exec16_def vm_mul_self_def Let_def vm_drop_def vm_binop_def vm_env_store vm_top_stack so
          vm_take_def split: option.split)
  qed (simp_all add: insn_typed_kinds i self_eff_def)
  show ?I
  proof (rule runs_take_slot [where r = "\<lambda>st \<sigma>. inc_value F (store_env env \<sigma>) (st_locals \<sigma> ! i)" and k = id and g = "\<lambda>_ s. v_locals s ! i"])
    fix s :: vm
    assume "length (v_locals s) = N"
    then have "slot_ok s i" using assms by (simp add: slot_ok_def)
    then show "vm_exec16 F env pool BC_INC_LOCAL i s =
        vm_take (inc_value F (store_env env (store_of s)) (st_locals (store_of s) ! i))
          (\<lambda>v t. vm_push (v_locals s ! i) (set_slot i v t)) (s\<lparr>v_stack := id (v_stack s)\<rparr>)"
      using ops(3) by (cases "v_locals s ! i")
        (simp_all add: vm_exec16_def vm_inc_local_def Let_def inc_value_def vm_env_store, simp_all add: vm_take_def)
  qed (simp_all add: insn_typed_kinds i inc_eff_def)
qed

section \<open>Branches of expressions\<close>

lemma goto_self: "v_pc s = int p \<Longrightarrow> goto p s = s"
  by (cases s) (simp add: goto_def)

lemma runs_nil: "runs F env pool N [] Go"
  by (simp add: runs_def goto_self)

lemma vm_jump_put: "vm_jump off s = put (v_stack s) (store_of s) (vm_jump off s)"
  by (simp add: put_def store_of_def vm_jump_def)

definition offset_ok :: "insn list \<Rightarrow> bool" where
  "offset_ok is \<longleftrightarrow> int (length (enc is)) < 2 ^ 31"

abbreviation over :: "insn list \<Rightarrow> operand list" where
  "over is \<equiv> [I32 (int (length (enc is)))]"

lemma offset_typed: "offset_ok is \<Longrightarrow> snd (bc_info op) = 2 \<Longrightarrow> insn_typed (op, over is)"
  unfolding offset_ok_def by (intro insn_typed_kinds) auto

lemma runs_jump_over:
  assumes "offset_ok mid" "runs F env pool N mid T"
  shows "runs F env pool N ((BC_JUMP, over mid) # mid) Go"
proof -
  have "runs F env pool N ((BC_JUMP, over mid) # mid @ [])
      (\<lambda>(st, \<sigma>). obind (Go (True, st)) (\<lambda>(tk, st'). if tk then Go (st', \<sigma>) else T (st', \<sigma>)))"
    using assms(2) by (intro runs_branch runs_nil offset_typed assms(1)) (simp_all add: vm_exec32_def, simp add: bc_opcode_defs)
  then show ?thesis by (simp add: case_prod_eta)
qed

definition if_eff :: "effect \<Rightarrow> effect \<Rightarrow> effect" where
  "if_eff T U = (\<lambda>(st, \<sigma>). if lr_to_bool (top st) then T (tl st, \<sigma>) else U (tl st, \<sigma>))"

lemma runs_if:
  assumes "offset_ok (mid @ [j])" "runs F env pool N ((mid @ [j]) @ rest) T" "runs F env pool N rest U"
  shows "runs F env pool N ((BC_JUMP_IF_FALSE, over (mid @ [j])) # mid @ j # rest) (if_eff T U)"
proof -
  have "runs F env pool N ((BC_JUMP_IF_FALSE, over (mid @ [j])) # (mid @ [j]) @ rest)
      (\<lambda>(st, \<sigma>). obind (Go (\<not> lr_to_bool (top st), tl st)) (\<lambda>(tk, st'). if tk then U (st', \<sigma>) else T (st', \<sigma>)))"
  proof (intro runs_branch offset_typed assms)
    show "case Go (\<not> lr_to_bool (top (v_stack s)), tl (v_stack s)) of
        Go (tk, st) \<Rightarrow> vm_exec32 BC_JUMP_IF_FALSE (int (length (enc (mid @ [j])))) s =
          (Vm_run, (if tk then vm_jump (int (length (enc (mid @ [j])))) else id) (put st (store_of s) s))
      | Halt r \<Rightarrow> fst (vm_exec32 BC_JUMP_IF_FALSE (int (length (enc (mid @ [j])))) s) = r \<and> r \<noteq> Vm_run" for s
      by (simp add: vm_exec32_def vm_top_stack vm_drop_def put_def store_of_def Let_def) (simp add: bc_opcode_defs)
  qed simp_all
  moreover have "(\<lambda>(st, \<sigma>). obind (Go (\<not> lr_to_bool (top st), tl st)) (\<lambda>(tk, st'). if tk then U (st', \<sigma>) else T (st', \<sigma>)))
      = if_eff T U" by (auto simp: if_eff_def fun_eq_iff)
  ultimately show ?thesis by simp
qed

text \<open>The decisions of the jumps that keep the value.\<close>

definition keep_taken :: "byte \<Rightarrow> lr_value \<Rightarrow> bool" where
  "keep_taken op v =
     (if op = BC_JUMP_IF_FALSE_KEEP then \<not> lr_to_bool v else if op = BC_JUMP_IF_TRUE_KEEP then lr_to_bool v else \<not> is_nullish v)"

definition keep_eff :: "byte \<Rightarrow> effect \<Rightarrow> effect" where
  "keep_eff op T = (\<lambda>(st, \<sigma>).
     if st = [] then Halt Vm_abort else if keep_taken op (top st) then Go (st, \<sigma>) else T (st, \<sigma>))"

lemma runs_keep:
  assumes op: "op \<in> {BC_JUMP_IF_FALSE_KEEP, BC_JUMP_IF_TRUE_KEEP, BC_JUMP_IF_NOT_NULLISH}"
    and "offset_ok mid" "runs F env pool N mid T"
  shows "runs F env pool N ((op, over mid) # mid) (keep_eff op T)"
proof -
  let ?D = "\<lambda>st. if st = [] then Halt Vm_abort else Go (keep_taken op (top st), st)"
  have ne: "op \<noteq> BC_PUSH_INT32" "op \<noteq> BC_JUMP" "op \<noteq> BC_JUMP_IF_FALSE" "op \<noteq> BC_JUMP_IF_TRUE"
    using op by (auto simp: bc_opcode_defs)
  have k: "insn_typed (op, over mid)" using assms by (auto intro: offset_typed)
  have "vm_exec32 op off s = (if v_stack s = [] then (Vm_abort, s)
      else (Vm_run, if keep_taken op (top (v_stack s)) then vm_jump off s else s))" for off s
    using op ne by (auto simp: vm_exec32_def keep_taken_def vm_top_stack Let_def)
  then have "runs F env pool N ((op, over mid) # mid @ [])
      (\<lambda>(st, \<sigma>). obind (?D st) (\<lambda>(tk, st'). if tk then Go (st', \<sigma>) else T (st', \<sigma>)))"
    using assms by (intro runs_branch runs_nil k) simp_all
  moreover have "(\<lambda>(st, \<sigma>). obind (?D st) (\<lambda>(tk, st'). if tk then Go (st', \<sigma>) else T (st', \<sigma>))) = keep_eff op T"
    by (auto simp: keep_eff_def fun_eq_iff)
  ultimately show ?thesis by simp
qed

section \<open>Fuel\<close>

lemma proto_walk_mono: "proto_walk F env p q = Some b \<Longrightarrow> F \<le> K \<Longrightarrow> proto_walk K env p q = Some b"
proof (induction F arbitrary: K q)
  case (Suc F)
  then obtain K' where "K = Suc K'" "F \<le> K'" by (cases K) auto
  then show ?case using Suc.prems(1) Suc.IH [of "env_get_prototype env q" K'] by (auto split: if_splits)
qed simp

lemma bcv_instanceof_mono: "bcv_instanceof F env a b = Some r \<Longrightarrow> F \<le> K \<Longrightarrow> bcv_instanceof K env a b = Some r"
  by (auto simp: bcv_instanceof_def Let_def split: if_splits intro: proto_walk_mono)

lemma binop_generic_mono:
  assumes "binop_generic F env op a b = Some r" "F \<le> K"
  shows "binop_generic K env op a b = Some r"
proof (cases "op = INSTANCEOF")
  case True
  then obtain x where "bcv_instanceof F env a b = Some x" "r = bool_val x" using assms(1) by (auto simp: binop_generic_def Let_def)
  then show ?thesis using True bcv_instanceof_mono [OF _ assms(2)] by (simp add: binop_generic_def Let_def)
next
  case False
  then show ?thesis using assms(1) by (cases op) (simp_all add: binop_generic_def Let_def)
qed

lemma bcv_binop_mono:
  assumes "bcv_binop F env op a b = Some r" "F \<le> K"
  shows "bcv_binop K env op a b = Some r"
  using assms(1) binop_generic_mono [OF _ assms(2), of env op a b r]
  by (cases "binop_fast env op a b") (simp_all add: bcv_binop_def or_else_def)

lemma vm_take_mono:
  assumes "fst (vm_take (g F) k s) \<noteq> Vm_out" "\<And>r. g F = Some r \<Longrightarrow> g K = Some r"
  shows "vm_take (g K) k s = vm_take (g F) k s"
  using assms by (cases "g F") (simp_all add: vm_take_def)

lemma vm_binop_mono: "vm_binop F env op a b = Some r \<Longrightarrow> F \<le> K \<Longrightarrow> vm_binop K env op a b = Some r"
  by (auto simp: vm_binop_def split: option.splits intro: bcv_binop_mono)

lemma vm_exec0_mono:
  assumes "fst (vm_exec0 F env op s) \<noteq> Vm_out" "F \<le> K"
  shows "vm_exec0 K env op s = vm_exec0 F env op s"
proof (cases "binop_of_byte op")
  case None
  then show ?thesis by (simp only: vm_exec0_def option.case)
next
  case (Some bop)
  have "vm_take (vm_binop K e bop a b) vm_push t = vm_take (vm_binop F e bop a b) vm_push t"
    if "fst (vm_take (vm_binop F e bop a b) vm_push t) \<noteq> Vm_out" for e a b t
    using that vm_binop_mono [OF _ assms(2)] by (rule vm_take_mono)
  then show ?thesis using assms(1) unfolding vm_exec0_binop [OF Some] by (auto split: list.splits)
qed

lemma vm_exec16_mono:
  assumes "fst (vm_exec16 F env pool op i s) \<noteq> Vm_out" "F \<le> K"
  shows "vm_exec16 K env pool op i s = vm_exec16 F env pool op i s"
proof -
  have t: "vm_take (bcv_binop K e bop a b) k t = vm_take (bcv_binop F e bop a b) k t"
    if "fst (vm_take (bcv_binop F e bop a b) k t) \<noteq> Vm_out" for e bop a b k t
    using that bcv_binop_mono [OF _ assms(2)] by (rule vm_take_mono)
  have inc: "vm_inc_local K env keep i s = vm_inc_local F env keep i s" if "fst (vm_inc_local F env keep i s) \<noteq> Vm_out" for keep
    using that by (cases "v_locals s ! i"; cases "slot_ok s i") (simp_all add: vm_inc_local_def Let_def t)
  have add: "vm_add_self K env i s = vm_add_self F env i s" if "fst (vm_add_self F env i s) \<noteq> Vm_out"
    using that t by (auto simp: vm_add_self_def Let_def split: option.splits if_splits)
  have mul: "vm_mul_self K env i s = vm_mul_self F env i s" if "fst (vm_mul_self F env i s) \<noteq> Vm_out"
    using that t by (auto simp: vm_mul_self_def Let_def split: option.splits)
  show ?thesis using assms(1) inc add mul by (auto simp: vm_exec16_def)
qed

lemma vm_step_mono:
  assumes "fst (vm_step F env pool code s) \<noteq> Vm_out" "F \<le> K"
  shows "vm_step K env pool code s = vm_step F env pool code s"
proof -
  have "vm_exec K env pool op as t = vm_exec F env pool op as t" if "fst (vm_exec F env pool op as t) \<noteq> Vm_out" for op as t
    using that vm_exec0_mono [OF _ assms(2)] vm_exec16_mono [OF _ assms(2)]
    by (auto simp: vm_exec_def split: list.splits operand.splits)
  then show ?thesis using assms(1) by (auto simp: vm_step_def Let_def split: if_splits)
qed

text \<open>Runs of the machine: with enough fuel the program returns what the steps lead to.\<close>

lemma goes_bc_execute:
  assumes "goes F env pool code s t" "vm_step F env pool code t = (r, u)" "r \<noteq> Vm_run" "r \<noteq> Vm_out"
  shows "\<exists>n. \<forall>m\<ge>n. bc_execute m env pool code s = Some (r, u)"
  using assms(1) unfolding goes_def
proof (induction rule: converse_rtranclp_induct)
  case base
  have "bc_execute m env pool code t = Some (r, u)" if "m \<ge> Suc F" for m
  proof -
    obtain m' where m: "m = Suc m'" "F \<le> m'" using \<open>m \<ge> Suc F\<close> by (cases m) auto
    then show ?thesis using vm_step_mono [of F env pool code t m'] assms by (cases r) auto
  qed
  then show ?case by blast
next
  case (step s s')
  then obtain n where n: "\<forall>m\<ge>n. bc_execute m env pool code s' = Some (r, u)" by blast
  have "bc_execute m env pool code s = Some (r, u)" if "m \<ge> Suc (F + n)" for m
  proof -
    obtain m' where m: "m = Suc m'" "F \<le> m'" "n \<le> m'" using \<open>m \<ge> Suc (F + n)\<close> by (cases m) auto
    then show ?thesis using vm_step_mono [of F env pool code s m'] step(1) n by auto
  qed
  then show ?case by blast
qed

end
