(* ===== verification/LR_Eval.thy ===== *)
theory LR_Eval
  imports LR_Run
begin

text \<open>
  A reference evaluator of expressions over local variables: operands left to right, each expression maps a store to
  a value and a store, or ends the run. It is the specification of the compiled code; operators on values are those of
  the machine. \<open>compilable\<close> says which expressions it covers.
\<close>

section \<open>Values of the leaves\<close>

definition literal_value :: "literal \<Rightarrow> lr_value option" where
  "literal_value lit =
     (case lit of
        TOK_NUMBER num \<Rightarrow> Some (if int32_valued num then LR_INT32 (word_of_int (f64_cast 32 num)) else LR_FLOAT64 num)
      | TOK_STRING s \<Rightarrow> Some (LR_STRING s)
      | TOK_BOOL_LIT b \<Rightarrow> Some (LR_BOOL b)
      | TOK_NULL_LIT \<Rightarrow> Some LR_NULL
      | TOK_UNDEFINED_LIT \<Rightarrow> Some LR_UNDEFINED
      | TOK_OTHER _ \<Rightarrow> None)"

definition name_slot :: "string list \<Rightarrow> string option \<Rightarrow> nat option" where
  "name_slot ns name = (case name of None \<Rightarrow> None | Some x \<Rightarrow> find (\<lambda>i. ns ! i = x) [0..<length ns])"

lemma name_slot_Some: "name_slot ns (Some x) = Some i \<longleftrightarrow> i < length ns \<and> ns ! i = x \<and> (\<forall>j<i. ns ! j \<noteq> x)"
  by (simp add: name_slot_def find_upt_Some)

definition logical_op :: "string \<Rightarrow> byte option" where
  "logical_op op =
     (if op = ''&&'' then Some BC_JUMP_IF_FALSE_KEEP
      else if op = ''||'' then Some BC_JUMP_IF_TRUE_KEEP
      else if op = ''??'' then Some BC_JUMP_IF_NOT_NULLISH
      else None)"

text \<open>
  The operator and the right side of an assignment to \<open>x\<close>: \<open>x = x + e\<close> is \<open>x += e\<close>. The outer \<open>None\<close> is an operator that is
  not handled.
\<close>

definition assign_parts :: "string \<Rightarrow> string \<Rightarrow> ast \<Rightarrow> (binop option \<times> ast) option" where
  "assign_parts op x val =
     (if op = ''='' then Some (case self_add x val of Some e \<Rightarrow> (Some ADD, e) | None \<Rightarrow> (None, val))
      else case binop_of_byte (compound_op op) of None \<Rightarrow> None | Some b \<Rightarrow> Some (Some b, val))"

definition assign_value :: "nat \<Rightarrow> js_env \<Rightarrow> binop \<Rightarrow> lr_value \<Rightarrow> lr_value \<Rightarrow> op_result option" where
  "assign_value F env b = (if b = ADD then add_value F env else vm_binop F env b)"

definition eval_incdec :: "nat \<Rightarrow> js_env \<Rightarrow> bool \<Rightarrow> bool \<Rightarrow> nat \<Rightarrow> store \<Rightarrow> (lr_value \<times> store) outcome" where
  "eval_incdec F env is_inc prefix i \<sigma> =
     (let v = st_locals \<sigma> ! i in
      if is_inc then
        obind (take_op (inc_value F (store_env env \<sigma>) v) \<sigma>)
          (\<lambda>(w, \<sigma>'). Go (if prefix then w else v, set_local i w \<sigma>'))
      else
        let u = bcv_number (bcv_to_number env v) in
        obind (take_op (vm_binop F (store_env env \<sigma>) SUB u (LR_INT32 1)) \<sigma>)
          (\<lambda>(w, \<sigma>'). Go (if prefix then w else u, set_local i w \<sigma>')))"

section \<open>Lists of expressions\<close>

type_synonym evalf = "ast \<Rightarrow> store \<Rightarrow> (lr_value \<times> store) outcome"

fun eval_seq :: "evalf \<Rightarrow> ast list \<Rightarrow> store \<Rightarrow> (lr_value \<times> store) outcome" where
  "eval_seq f [] \<sigma> = Go (LR_UNDEFINED, \<sigma>)"
| "eval_seq f [e] \<sigma> = f e \<sigma>"
| "eval_seq f (e # es) \<sigma> = obind (f e \<sigma>) (\<lambda>(v, \<sigma>'). eval_seq f es \<sigma>')"

definition cooked :: "bytes list \<Rightarrow> bytes" where
  "cooked parts = (case parts of [] \<Rightarrow> [] | raw # _ \<Rightarrow> interp_bc_cook_template raw)"

definition js_plus :: "nat \<Rightarrow> js_env \<Rightarrow> lr_value \<Rightarrow> lr_value \<Rightarrow> store \<Rightarrow> (lr_value \<times> store) outcome" where
  "js_plus F env a b \<sigma> = take_op (vm_binop F (store_env env \<sigma>) ADD a b) \<sigma>"

fun eval_template :: "nat \<Rightarrow> js_env \<Rightarrow> evalf \<Rightarrow> bytes list \<Rightarrow> ast list \<Rightarrow> lr_value \<Rightarrow> store \<Rightarrow> (lr_value \<times> store) outcome" where
  "eval_template F env f parts [] v \<sigma> = Go (v, \<sigma>)"
| "eval_template F env f parts (e # es) v \<sigma> =
     obind (f e \<sigma>) (\<lambda>(w, \<sigma>1). obind (js_plus F env v w \<sigma>1) (\<lambda>(x, \<sigma>2).
       obind (if cooked parts = [] then Go (x, \<sigma>2) else js_plus F env x (LR_STRING (cooked parts)) \<sigma>2)
         (\<lambda>(y, \<sigma>3). eval_template F env f (tl parts) es y \<sigma>3)))"

lemma eval_seq_eq: "(\<And>e \<sigma>. e \<in> set es \<Longrightarrow> f e \<sigma> = g e \<sigma>) \<Longrightarrow> eval_seq f es \<sigma> = eval_seq g es \<sigma>"
proof (induction es arbitrary: \<sigma>)
  case (Cons e es)
  then show ?case by (cases es) (auto intro!: obind_cong)
qed simp

lemma eval_seq_cong [fundef_cong]:
  "es = es' \<Longrightarrow> \<sigma> = \<sigma>' \<Longrightarrow> (\<And>e \<tau>. e \<in> set es' \<Longrightarrow> f e \<tau> = g e \<tau>) \<Longrightarrow> eval_seq f es \<sigma> = eval_seq g es' \<sigma>'"
  using eval_seq_eq by blast

lemma eval_template_eq:
  "(\<And>e \<sigma>. e \<in> set es \<Longrightarrow> f e \<sigma> = g e \<sigma>) \<Longrightarrow> eval_template F env f parts es v \<sigma> = eval_template F env g parts es v \<sigma>"
  by (induction es arbitrary: parts v \<sigma>) (auto intro!: obind_cong)

lemma eval_template_cong [fundef_cong]:
  "es = es' \<Longrightarrow> parts = parts' \<Longrightarrow> v = v' \<Longrightarrow> \<sigma> = \<sigma>' \<Longrightarrow> (\<And>e \<tau>. e \<in> set es' \<Longrightarrow> f e \<tau> = g e \<tau>) \<Longrightarrow>
    eval_template F env f parts es v \<sigma> = eval_template F env g parts' es' v' \<sigma>'"
  using eval_template_eq by blast

section \<open>Evaluation\<close>

lemma assign_parts_size [termination_simp]: "assign_parts op x val = Some (b, e) \<Longrightarrow> size e \<le> size val"
  using self_add_size [of x val] by (fastforce simp: assign_parts_def split: if_splits option.splits)

function js_eval :: "nat \<Rightarrow> js_env \<Rightarrow> string list \<Rightarrow> ast \<Rightarrow> store \<Rightarrow> (lr_value \<times> store) outcome" where
  "js_eval F env ns n \<sigma> =
     (case n of
        AST_LITERAL lit \<Rightarrow> (case literal_value lit of Some v \<Rightarrow> Go (v, \<sigma>) | None \<Rightarrow> Halt Vm_out)
      | AST_IDENTIFIER name \<Rightarrow> (case name_slot ns name of Some i \<Rightarrow> Go (st_locals \<sigma> ! i, \<sigma>) | None \<Rightarrow> Halt Vm_out)
      | AST_BINARY op l r \<Rightarrow>
          (case logical_op op of
             Some j \<Rightarrow> obind (js_eval F env ns l \<sigma>) (\<lambda>(v, \<sigma>1). if keep_taken j v then Go (v, \<sigma>1) else js_eval F env ns r \<sigma>1)
           | None \<Rightarrow> (case binop_of_byte (binop_of op) of
               None \<Rightarrow> Halt Vm_out
             | Some b \<Rightarrow>
                 obind (js_eval F env ns l \<sigma>) (\<lambda>(x, \<sigma>1). obind (js_eval F env ns r \<sigma>1) (\<lambda>(y, \<sigma>2).
                   take_op (vm_binop F (store_env env \<sigma>2) b x y) \<sigma>2))))
      | AST_UNARY op prefix a \<Rightarrow>
          if op = ''++'' \<or> op = ''--'' then
            (case name_slot ns (ident_name a) of Some i \<Rightarrow> eval_incdec F env (op = ''++'') prefix i \<sigma> | None \<Rightarrow> Halt Vm_out)
          else (case (if op = ''typeof'' then Some BC_TYPEOF else unary_op op prefix) of
             None \<Rightarrow> Halt Vm_out
           | Some u \<Rightarrow> obind (js_eval F env ns a \<sigma>) (\<lambda>(v, \<sigma>1). Go (unary_fun env u \<sigma>1 v, \<sigma>1)))
      | AST_CONDITIONAL a b d \<Rightarrow>
          obind (js_eval F env ns a \<sigma>) (\<lambda>(v, \<sigma>1). if lr_to_bool v then js_eval F env ns b \<sigma>1 else js_eval F env ns d \<sigma>1)
      | AST_CALL opt is_optional callee args \<Rightarrow>
          (case conversion_op callee of
             None \<Rightarrow> Halt Vm_out
           | Some u \<Rightarrow> (case args of
               a # _ \<Rightarrow> obind (js_eval F env ns a \<sigma>) (\<lambda>(v, \<sigma>1). Go (unary_fun env u \<sigma>1 v, \<sigma>1))
             | [] \<Rightarrow> Halt Vm_out))
      | AST_ASSIGN op tgt val \<Rightarrow>
          (case ident_name tgt of
             None \<Rightarrow> Halt Vm_out
           | Some x \<Rightarrow> (case name_slot ns (Some x) of
               None \<Rightarrow> Halt Vm_out
             | Some i \<Rightarrow> (case assign_parts op x val of
                 None \<Rightarrow> Halt Vm_out
               | Some (b, e) \<Rightarrow>
                   obind (js_eval F env ns e \<sigma>) (\<lambda>(v, \<sigma>1).
                   obind (case b of None \<Rightarrow> Go (v, \<sigma>1)
                          | Some b \<Rightarrow> take_op (assign_value F (store_env env \<sigma>1) b (st_locals \<sigma> ! i) v) \<sigma>1) (\<lambda>(w, \<sigma>2).
                   Go (w, set_local i w \<sigma>2))))))
      | AST_SEQUENCE es \<Rightarrow> eval_seq (\<lambda>e. js_eval F env ns e) es \<sigma>
      | AST_TEMPLATE tag parts es \<Rightarrow>
          eval_template F env (\<lambda>e. js_eval F env ns e) (tl parts) es (LR_STRING (cooked parts)) \<sigma>
      | _ \<Rightarrow> Halt Vm_out)"
  by pat_completeness auto
termination
  by (relation "measure (\<lambda>(F, env, ns, n, \<sigma>). size n)")
    (auto simp: size_list_estimation' less_Suc_eq_le trans_le_add1 trans_le_add2 dest!: assign_parts_size)

declare js_eval.simps [simp del]

section \<open>The fragment\<close>

text \<open>Does the expression assign to \<open>x\<close>?\<close>

function assigns :: "string \<Rightarrow> ast \<Rightarrow> bool" where
  "assigns x n =
     (case n of
        AST_BINARY _ l r \<Rightarrow> assigns x l \<or> assigns x r
      | AST_UNARY op _ a \<Rightarrow> (op = ''++'' \<or> op = ''--'') \<and> ident_name a = Some x \<or> assigns x a
      | AST_CONDITIONAL a b d \<Rightarrow> assigns x a \<or> assigns x b \<or> assigns x d
      | AST_CALL _ _ _ args \<Rightarrow> list_ex (\<lambda>e. assigns x e) args
      | AST_ASSIGN _ tgt val \<Rightarrow> ident_name tgt = Some x \<or> assigns x val
      | AST_SEQUENCE es \<Rightarrow> list_ex (\<lambda>e. assigns x e) es
      | AST_TEMPLATE _ _ es \<Rightarrow> list_ex (\<lambda>e. assigns x e) es
      | _ \<Rightarrow> False)"
  by pat_completeness auto
termination
  by (relation "measure (\<lambda>(x, n). size n)")
    (auto simp: size_list_estimation' less_Suc_eq_le trans_le_add1 trans_le_add2)

declare assigns.simps [simp del]

text \<open>
  The expressions whose compiled code is specified: literals, locals, the operators, conversions, templates and
  assignments to locals. The factoring of \<open>a * b + a * c\<close> must not apply, and the right side of a fused \<open>x += e\<close> or
  \<open>x *= e\<close> must not assign to \<open>x\<close>.
\<close>

function compilable :: "string list \<Rightarrow> ast \<Rightarrow> bool" where
  "compilable ns n =
     (case n of
        AST_LITERAL lit \<Rightarrow> literal_value lit \<noteq> None
      | AST_IDENTIFIER name \<Rightarrow> name_slot ns name \<noteq> None
      | AST_BINARY op l r \<Rightarrow>
          (logical_op op \<noteq> None \<or> binop_of_byte (binop_of op) \<noteq> None \<and> try_factor_cse op l r = None)
          \<and> compilable ns l \<and> compilable ns r
      | AST_UNARY op prefix a \<Rightarrow>
          if op = ''++'' \<or> op = ''--'' then name_slot ns (ident_name a) \<noteq> None
          else (if op = ''typeof'' then ident_name a = None else unary_op op prefix \<noteq> None) \<and> compilable ns a
      | AST_CONDITIONAL a b d \<Rightarrow> compilable ns a \<and> compilable ns b \<and> compilable ns d
      | AST_CALL opt is_optional callee args \<Rightarrow>
          \<not> opt \<and> \<not> is_optional \<and> conversion_op callee \<noteq> None \<and> length args = 1 \<and> list_all (\<lambda>e. compilable ns e) args
      | AST_ASSIGN op tgt val \<Rightarrow>
          (case ident_name tgt of
             None \<Rightarrow> False
           | Some x \<Rightarrow> name_slot ns (Some x) \<noteq> None \<and>
               (case assign_parts op x val of
                  None \<Rightarrow> False
                | Some (b, e) \<Rightarrow> (b = Some ADD \<or> b = Some MUL \<longrightarrow> \<not> assigns x e) \<and> compilable ns e))
      | AST_SEQUENCE es \<Rightarrow> list_all (\<lambda>e. compilable ns e) es
      | AST_TEMPLATE tag parts es \<Rightarrow> tag = AST_NONE \<and> list_all (\<lambda>e. compilable ns e) es
      | _ \<Rightarrow> False)"
  by pat_completeness auto
termination
  by (relation "measure (\<lambda>(ns, n). size n)")
    (auto simp: size_list_estimation' less_Suc_eq_le trans_le_add1 trans_le_add2 dest!: assign_parts_size)

declare compilable.simps [simp del]

lemma compilable_cases [consumes 1, case_names literal name logical binary incdec unary conditional conversion assign sequence template]:
  assumes "compilable ns n"
  obtains lit v where "n = AST_LITERAL lit" "literal_value lit = Some v"
    | x i where "n = AST_IDENTIFIER (Some x)" "name_slot ns (Some x) = Some i"
    | op j l r where "n = AST_BINARY op l r" "logical_op op = Some j" "compilable ns l" "compilable ns r"
    | op b l r where "n = AST_BINARY op l r" "logical_op op = None" "binop_of_byte (binop_of op) = Some b"
        "try_factor_cse op l r = None" "compilable ns l" "compilable ns r"
    | op pre a x i where "n = AST_UNARY op pre a" "op = ''++'' \<or> op = ''--''" "ident_name a = Some x" "name_slot ns (Some x) = Some i"
    | op pre a u where "n = AST_UNARY op pre a" "\<not> (op = ''++'' \<or> op = ''--'')" "compilable ns a"
        "(if op = ''typeof'' then Some BC_TYPEOF else unary_op op pre) = Some u" "op = ''typeof'' \<longrightarrow> ident_name a = None"
    | a b d where "n = AST_CONDITIONAL a b d" "compilable ns a" "compilable ns b" "compilable ns d"
    | callee a u where "n = AST_CALL False False callee [a]" "conversion_op callee = Some u" "compilable ns a"
    | op tgt val x i b e where "n = AST_ASSIGN op tgt val" "ident_name tgt = Some x" "name_slot ns (Some x) = Some i"
        "assign_parts op x val = Some (b, e)" "b = Some ADD \<or> b = Some MUL \<longrightarrow> \<not> assigns x e" "compilable ns e"
    | es where "n = AST_SEQUENCE es" "\<forall>e\<in>set es. compilable ns e"
    | parts es where "n = AST_TEMPLATE AST_NONE parts es" "\<forall>e\<in>set es. compilable ns e"
proof -
  note c = assms [unfolded compilable.simps [of ns n]]
  show ?thesis
  proof (cases n)
  case (AST_BINARY op l r)
  then show ?thesis using c that(3,4) by (cases "logical_op op") auto
next
  case (AST_IDENTIFIER name)
  then show ?thesis using c that(2) by (cases name) (auto simp: name_slot_def)
next
  case (AST_UNARY op pre a)
  show ?thesis
  proof (cases "op = ''++'' \<or> op = ''--''")
    case True
    then show ?thesis using c AST_UNARY that(5) by (cases "ident_name a") (auto simp: name_slot_def)
  next
    case False
    then show ?thesis using c AST_UNARY that(6) by (auto split: if_splits)
  qed
next
  case (AST_CALL opt io callee args)
  then show ?thesis using c that(8) by (cases args) auto
next
  case (AST_ASSIGN op tgt val)
  then show ?thesis using c that(9)
    by (cases "ident_name tgt"; cases "assign_parts op (the (ident_name tgt)) val") auto
qed (use c that in \<open>auto simp: list_all_iff\<close>)
qed

section \<open>Slots that an expression leaves alone\<close>

lemma obind_Go: "obind r f = Go y \<longleftrightarrow> (\<exists>x. r = Go x \<and> f x = Go y)"
  by (cases r) simp_all

lemma eval_seq_keeps:
  assumes "\<And>e \<sigma> v \<sigma>'. e \<in> set es \<Longrightarrow> f e \<sigma> = Go (v, \<sigma>') \<Longrightarrow> g \<sigma>' = g \<sigma>" "eval_seq f es \<sigma> = Go (v, \<sigma>')"
  shows "g \<sigma>' = g \<sigma>"
  using assms
proof (induction es arbitrary: \<sigma>)
  case (Cons e es)
  show ?case
  proof (cases es)
    case Nil
    then show ?thesis using Cons.prems by auto
  next
    case (Cons e' es')
    then obtain w \<tau> where "f e \<sigma> = Go (w, \<tau>)" "eval_seq f es \<tau> = Go (v, \<sigma>')" using Cons.prems(2) by (auto simp: obind_Go)
    moreover have "g \<sigma>' = g \<tau>" using Cons.IH Cons.prems(1) calculation by (metis list.set_intros(2))
    ultimately show ?thesis using Cons.prems(1) [of e \<sigma> w \<tau>] by simp
  qed
qed auto

lemma js_plus_locals: "js_plus F env a b \<sigma> = Go (v, \<sigma>') \<Longrightarrow> st_locals \<sigma>' = st_locals \<sigma>"
  unfolding js_plus_def by (rule take_op_locals)

lemma eval_template_keeps:
  assumes "\<And>e \<sigma> v \<sigma>'. e \<in> set es \<Longrightarrow> f e \<sigma> = Go (v, \<sigma>') \<Longrightarrow> st_locals \<sigma>' ! i = st_locals \<sigma> ! i"
    "eval_template F env f parts es u \<sigma> = Go (v, \<sigma>')"
  shows "st_locals \<sigma>' ! i = st_locals \<sigma> ! i"
  using assms
proof (induction es arbitrary: parts u \<sigma>)
  case (Cons e es)
  then obtain w \<sigma>1 x \<sigma>2 y \<sigma>3 where e: "f e \<sigma> = Go (w, \<sigma>1)" "js_plus F env u w \<sigma>1 = Go (x, \<sigma>2)"
      "(if cooked parts = [] then Go (x, \<sigma>2) else js_plus F env x (LR_STRING (cooked parts)) \<sigma>2) = Go (y, \<sigma>3)"
      "eval_template F env f (tl parts) es y \<sigma>3 = Go (v, \<sigma>')"
    by (auto simp: obind_Go)
  have "st_locals \<sigma>3 = st_locals \<sigma>1" using e(2,3) by (auto dest!: js_plus_locals split: if_splits)
  moreover have "st_locals \<sigma>1 ! i = st_locals \<sigma> ! i" by (rule Cons.prems(1) [OF _ e(1)]) simp
  moreover have "st_locals \<sigma>' ! i = st_locals \<sigma>3 ! i" using Cons.prems(1) by (intro Cons.IH [OF _ e(4)]) auto
  ultimately show ?case by simp
qed simp

lemma assigns_parts:
  assumes "assign_parts op y val = Some (b, e)" "assigns x e"
  shows "assigns x val"
proof (cases "e = val")
  case False
  then obtain l where "val = AST_BINARY ''+'' l e"
    using assms(1) by (auto simp: assign_parts_def self_add_def split: if_splits option.splits ast.splits)
  then show ?thesis using assms(2) by (simp add: assigns.simps [of x "AST_BINARY ''+'' l e"])
qed (use assms in simp)

lemma js_eval_keeps:
  "compilable ns n \<Longrightarrow> \<not> assigns x n \<Longrightarrow> name_slot ns (Some x) = Some i \<Longrightarrow> js_eval F env ns n \<sigma> = Go (v, \<sigma>') \<Longrightarrow>
    st_locals \<sigma>' ! i = st_locals \<sigma> ! i"
proof (induction n arbitrary: \<sigma> v \<sigma>' rule: measure_induct_rule [where f = size])
  case (less n)
  note ev = less.prems(4) [unfolded js_eval.simps [of F env ns n]] and na = less.prems(2) [unfolded assigns.simps [of x n]]
  have IH: "st_locals \<sigma>' ! i = st_locals \<sigma> ! i"
    if "js_eval F env ns m \<sigma> = Go (v, \<sigma>')" "compilable ns m" "\<not> assigns x m" "size m < size n" for m \<sigma> v \<sigma>'
    using less.IH that less.prems(3) by blast
  have other: "j \<noteq> i" if "name_slot ns (Some y) = Some j" "y \<noteq> x" for j y
    using that less.prems(3) by (auto simp: name_slot_Some)
  from less.prems(1) show ?case
  proof (cases rule: compilable_cases)
    case (literal lit w)
    then show ?thesis using ev by simp
  next
    case (name y j)
    then show ?thesis using ev by simp
  next
    case (logical op j l r)
    then show ?thesis using ev na by (auto simp: obind_Go split: if_splits dest!: IH)
  next
    case (binary op b l r)
    then show ?thesis using ev na by (auto simp: obind_Go dest!: IH take_op_locals)
  next
    case (incdec op pre a y j)
    then have "j \<noteq> i" using other na by auto
    then show ?thesis using ev incdec
      by (auto simp: eval_incdec_def Let_def obind_Go split: if_splits dest!: take_op_locals)
  next
    case (unary op pre a u)
    then show ?thesis using ev na by (auto simp: obind_Go dest!: IH)
  next
    case (conditional a b d)
    then show ?thesis using ev na by (auto simp: obind_Go split: if_splits dest!: IH)
  next
    case (conversion callee a u)
    then show ?thesis using ev na by (auto simp: obind_Go dest!: IH)
  next
    case (assign op tgt val y j b e)
    have "size e < size n" "\<not> assigns x e" "j \<noteq> i"
      using assign na assign_parts_size [OF assign(4)] assigns_parts [OF assign(4), of x] other by auto
    then show ?thesis using ev assign by (auto simp: obind_Go split: option.splits dest!: IH take_op_locals)
  next
    case (sequence es)
    have "eval_seq (js_eval F env ns) es \<sigma> = Go (v, \<sigma>')" using ev sequence by simp
    moreover have "st_locals \<tau>' ! i = st_locals \<tau> ! i" if "e \<in> set es" "js_eval F env ns e \<tau> = Go (w, \<tau>')" for e \<tau> w \<tau>'
      using that(1) sequence na size_member [OF that(1)] by (intro IH [OF that(2)]) (auto simp: list_ex_iff)
    ultimately show ?thesis by (rule eval_seq_keeps [where g = "\<lambda>\<sigma>. st_locals \<sigma> ! i", rotated])
  next
    case (template parts es)
    have "eval_template F env (js_eval F env ns) (tl parts) es (LR_STRING (cooked parts)) \<sigma> = Go (v, \<sigma>')"
      using ev template by simp
    moreover have "st_locals \<tau>' ! i = st_locals \<tau> ! i" if "e \<in> set es" "js_eval F env ns e \<tau> = Go (w, \<tau>')" for e \<tau> w \<tau>'
      using that(1) template na size_member [OF that(1)] by (intro IH [OF that(2)]) (auto simp: list_ex_iff)
    ultimately show ?thesis by (rule eval_template_keeps [rotated])
  qed
qed

end
