(* ===== verification/LR_Gen.thy ===== *)
theory LR_Gen
  imports LR_Eval "HOL-Library.Sublist"
begin

text \<open>
  Appending code to a program under construction: what the emitters and the constant pool keep, what an appended
  sequence of instructions does in every program that the compiler may still make of it, and how a forward jump is
  emitted and patched.
\<close>

section \<open>What the emitters change\<close>

definition same :: "bc_comp \<Rightarrow> bc_comp \<Rightarrow> bool" where
  "same c c' \<longleftrightarrow> c_locals c' = c_locals c \<and> c_local_scope_depth c' = c_local_scope_depth c
     \<and> c_disable_local_slots c' = c_disable_local_slots c \<and> prefix (c_pool c) (c_pool c')"

lemma same_refl [simp]: "same c c"
  by (simp add: same_def)

lemma same_trans: "same a b \<Longrightarrow> same b c \<Longrightarrow> same a c"
  by (auto simp: same_def intro: prefix_order.trans)

lemma bc_ensure_same [simp]:
  "c_pool (bc_ensure True c n) = c_pool c" "c_locals (bc_ensure True c n) = c_locals c"
  "c_local_scope_depth (bc_ensure True c n) = c_local_scope_depth c"
  "c_disable_local_slots (bc_ensure True c n) = c_disable_local_slots c"
  by (simp_all add: bc_ensure_def Let_def)

lemma update_stack_sel [simp]:
  "same c (update_stack c d)" "c_ok (update_stack c d) = c_ok c" "c_pool (update_stack c d) = c_pool c"
  "at_boundary (update_stack c d) acc = at_boundary c acc"
  by (simp_all add: update_stack_def same_def at_boundary_def Let_def)

lemma emit_sel [simp]: "same c (emit True c b)" "c_ok (emit True c b) = c_ok c" "c_pool (emit True c b) = c_pool c"
  by (simp_all add: emit_def same_def Let_def update_stack_def)

lemma emit16_sel [simp]:
  "same c (emit16 True c v)" "c_ok (emit16 True c v) \<longleftrightarrow> c_ok c \<and> 0 \<le> v \<and> v \<le> 0xFFFF" "c_pool (emit16 True c v) = c_pool c"
  by (auto simp: emit16_def same_def Let_def count_operand_def)

lemma emit32_sel [simp]: "same c (emit32 True c v)" "c_ok (emit32 True c v) = c_ok c" "c_pool (emit32 True c v) = c_pool c"
  by (simp_all add: emit32_def same_def Let_def count_operand_def)

lemma patch_here_same [simp]:
  "same c (patch_here c p)" "c_ok (patch_here c p) = c_ok c" "c_pool (patch_here c p) = c_pool c"
  by (simp_all add: patch_here_def patch_jump_to_def same_def)

lemma emit_insn_forms:
  "emit_insn True (op, []) c = emit True c op" "emit_insn True (op, [U16 (int i)]) c = emit_idx c op i"
  "emit_insn True (op, [I32 v]) c = emit32 True (emit True c op) v"
  by (simp_all add: emit_insn_def emit_operand_def emit_idx_def)

lemma emit_insn_same:
  "same c (emit_insn True (op, []) c)" "same c (emit_insn True (op, [U16 (int i)]) c)" "same c (emit_insn True (op, [I32 v]) c)"
  unfolding emit_insn_forms emit_idx_def
  by (rule emit_sel, rule same_trans [OF emit_sel(1) emit16_sel(1)], rule same_trans [OF emit_sel(1) emit32_sel(1)])

section \<open>Appending code\<close>

text \<open>
  \<open>c'\<close> is \<open>c\<close> with the instructions \<open>is\<close> appended to \<open>acc\<close>, they do \<open>T\<close> in every program whose pool extends that of \<open>c'\<close>,
  and the last one cannot be fused with a following ADD.
\<close>

definition gen :: "nat \<Rightarrow> js_env \<Rightarrow> nat \<Rightarrow> effect \<Rightarrow> bc_comp \<Rightarrow> insn list \<Rightarrow> insn list \<Rightarrow> bc_comp \<Rightarrow> bool" where
  "gen F env N T c acc is c' \<longleftrightarrow> at_boundary c' (acc @ is) \<and> same c c' \<and> is \<noteq> [] \<and> fst (last is) \<noteq> BC_LOAD_PROP
     \<and> (\<forall>pool. prefix (c_pool c') pool \<longrightarrow> offset_ok is \<longrightarrow> runs F env pool N is T)"

lemma offset_ok_append: "offset_ok (is @ js) \<Longrightarrow> offset_ok is \<and> offset_ok js"
  by (auto simp: offset_ok_def)

lemma gen_seq:
  assumes "gen F env N T c acc is c1" "gen F env N U c1 (acc @ is) js c2"
  shows "gen F env N (seq_eff T U) c acc (is @ js) c2"
proof -
  have s: "same c c2" and p: "prefix (c_pool c1) (c_pool c2)"
    using assms same_trans [of c c1 c2] by (simp_all add: gen_def same_def)
  have "runs F env pool N (is @ js) (seq_eff T U)" if "prefix (c_pool c2) pool" "offset_ok (is @ js)" for pool
  proof (rule runs_append)
    show "runs F env pool N is T" "runs F env pool N js U"
      using assms that offset_ok_append [OF that(2)] prefix_order.trans [OF p that(1)] by (simp_all add: gen_def)
  qed
  then show ?thesis using assms s by (simp add: gen_def)
qed

lemma not_fusible:
  assumes "at_boundary c acc" "acc \<noteq> []" "fst (last acc) \<noteq> BC_LOAD_PROP"
  shows "\<not> fusible c"
proof -
  have code: "c_code c = concat (map enc_insn (butlast acc)) @ enc_insn (last acc)"
    by (rule at_boundary_last [OF assms(1,2)])
  have st: "c_cur_inst_start c = int (length (concat (map enc_insn (butlast acc))))"
    using assms(1) by (simp add: at_boundary_def)
  have "c_code c ! nat (c_cur_inst_start c) = fst (last acc)"
    unfolding code st nat_int by (simp only: enc_insn_def nth_append_at)
  then show ?thesis using assms(3) by (simp add: fusible_def)
qed

definition no_add :: "insn \<Rightarrow> insn list \<Rightarrow> bool" where
  "no_add i acc \<longleftrightarrow> (fst i = BC_ADD \<longrightarrow> acc \<noteq> [] \<and> fst (last acc) \<noteq> BC_LOAD_PROP)"

lemma no_add_gen: "gen F env N T c acc is c' \<Longrightarrow> no_add i (acc @ is)"
  by (auto simp: gen_def no_add_def)

text \<open>The opcodes that the fragment emits.\<close>

definition plain_op :: "byte \<Rightarrow> bool" where
  "plain_op op \<longleftrightarrow> op \<noteq> BC_LOAD_PROP \<and> op \<noteq> BC_LOAD_PROP_ADD"

lemma at_boundary_emit:
  assumes "at_boundary c acc" "insn_typed i" "plain_op (fst i)" "no_add i acc"
  shows "at_boundary (emit_insn True i c) (acc @ [i])"
proof -
  have "list_all operand_ok (snd i)" using assms(2) by (cases rule: insn_typed_cases) (simp_all add: operand_ok_def)
  then have "insn_ok i" using assms(2,3) insn_typed_len by (simp add: insn_ok_def plain_op_def)
  moreover have "\<not> (fst i = BC_ADD \<and> fusible c)" using assms(1,4) not_fusible by (auto simp: no_add_def)
  ultimately show ?thesis using assms(1) by (intro at_boundary_start_insn)
qed

lemma gen_insn:
  assumes "at_boundary c acc" "insn_typed i" "plain_op (fst i)" "no_add i acc" "same c (emit_insn True i c)"
    and "\<And>pool. prefix (c_pool (emit_insn True i c)) pool \<Longrightarrow> runs F env pool N [i] T"
  shows "gen F env N T c acc [i] (emit_insn True i c)"
  using assms at_boundary_emit [OF assms(1-4)] by (simp add: gen_def plain_op_def)

lemma gen_from:
  assumes "gen F env N T c1 acc is c'" "same c c1"
  shows "gen F env N T c acc is c'"
  using assms(1) same_trans [OF assms(2)] by (simp add: gen_def)

lemma gen_update [simp]: "gen F env N T c acc is (update_stack c' d) = gen F env N T c acc is c'"
proof -
  have "same c (update_stack c' d) = same c c'" by (simp add: same_def update_stack_def Let_def)
  then show ?thesis by (simp add: gen_def)
qed

section \<open>Jumps\<close>

lemma enc_jump_length: "length (enc_insn (op, [I32 v])) = 5"
  by (simp add: enc_insn_def enc_operand_def)

lemma at_boundary_enc: "at_boundary c acc \<Longrightarrow> c_code c = enc acc"
  by (simp add: at_boundary_def enc_def)

lemma emit_jump_insn:
  assumes "at_boundary c acc" "op \<noteq> BC_ADD"
  shows "emit_jump True c op = (emit_insn True (op, [I32 0]) c, length (enc acc) + 1)"
proof -
  have "here (emit True c op) = length (enc acc) + 1"
    using assms at_boundary_enc [OF assms(1)] by (simp add: here_def emit_def at_boundary_def Let_def)
  then show ?thesis by (simp add: emit_jump_def emit_insn_forms Let_def)
qed

lemma at_boundary_patch:
  assumes "at_boundary c (acc @ (op, [I32 v]) # mid)"
  shows "at_boundary (patch_here c (length (enc acc) + 1)) (acc @ (op, over mid) # mid)"
proof -
  let ?pos = "length (enc acc) + 1"
  have code: "c_code c = (enc acc @ [op]) @ put_u32 (word_of_int v) @ enc mid"
    using at_boundary_enc [OF assms] by (simp add: enc_insn_def enc_operand_def)
  have h: "here c = ?pos + 4 + length (enc mid)" by (simp add: here_def code)
  have "take ?pos (c_code c) = enc acc @ [op]" "drop (?pos + 4) (c_code c) = enc mid" unfolding code by simp_all
  moreover have "c_ok c" using assms by (simp add: at_boundary_def)
  moreover have "\<not> ?pos + 4 > length (c_code c)" by (simp add: code)
  ultimately have "c_code (patch_here c ?pos) = enc acc @ [op] @ put_u32 (word_of_int (int (here c) - int (?pos + 4))) @ enc mid"
    by (simp add: patch_here_def patch_jump_to_def del: append.simps)
  then have "c_code (patch_here c ?pos) = enc (acc @ (op, over mid) # mid)"
    by (simp add: h enc_insn_def enc_operand_def)
  moreover have "length (enc (butlast (acc @ (op, over mid) # mid))) = length (enc (butlast (acc @ (op, [I32 v]) # mid)))"
    by (cases "mid = []") (simp_all add: butlast_append enc_jump_length)
  moreover have "c_inst_written (patch_here c p) = c_inst_written c" "c_inst_total (patch_here c p) = c_inst_total c"
      "c_cur_inst_start (patch_here c p) = c_cur_inst_start c" for p
    by (simp_all add: patch_here_def patch_jump_to_def)
  ultimately show ?thesis using assms by (simp add: at_boundary_def enc_def)
qed

section \<open>Single instructions and constants\<close>

lemma gen_emit0:
  assumes "at_boundary c acc" "snd (bc_info op) = 0" "plain_op op" "no_add (op, []) acc"
    "\<And>pool. runs F env pool N [(op, [])] T"
  shows "gen F env N T c acc [(op, [])] (emit True c op)"
  using gen_insn [of c acc "(op, [])"] assms emit_insn_same(1) by (simp add: emit_insn_forms insn_typed_kinds)

lemma gen_idx:
  assumes "at_boundary c acc" "snd (bc_info op) = 1" "plain_op op" "op \<noteq> BC_ADD" "c_ok (emit_idx c op i)"
    "\<And>pool. i < 65536 \<Longrightarrow> prefix (c_pool c) pool \<Longrightarrow> runs F env pool N [(op, [U16 (int i)])] T"
  shows "gen F env N T c acc [(op, [U16 (int i)])] (emit_idx c op i)"
proof -
  have i: "i < 65536" using assms(5) by (simp add: emit_idx_def)
  moreover have "c_pool (emit_idx c op i) = c_pool c" by (simp add: emit_idx_def)
  ultimately show ?thesis
    using gen_insn [of c acc "(op, [U16 (int i)])"] assms emit_insn_same(2) [of c op i]
    by (simp add: emit_insn_forms insn_typed_kinds no_add_def)
qed

lemma gen_emit32:
  assumes "at_boundary c acc" "snd (bc_info op) = 2" "plain_op op" "op \<noteq> BC_ADD" "- (2 ^ 31) \<le> v" "v < 2 ^ 31"
    "\<And>pool. runs F env pool N [(op, [I32 v])] T"
  shows "gen F env N T c acc [(op, [I32 v])] (emit32 True (emit True c op) v)"
  using gen_insn [of c acc "(op, [I32 v])"] assms emit_insn_same(3) [of c op v]
  by (simp add: emit_insn_forms insn_typed_kinds no_add_def)

lemma at_boundary_pool:
  "at_boundary (c\<lparr>c_pool := ks\<rparr>) acc = at_boundary c acc" "at_boundary (fst (pool_reserve True c)) acc = at_boundary c acc"
  by (simp_all add: at_boundary_def pool_reserve_def)

lemma pool_reserved:
  assumes "at_boundary c acc"
  shows "\<exists>c0. pool_reserve True c = (c0, True) \<and> at_boundary c0 acc \<and> same c c0 \<and> c_ok c"
proof -
  have "same c (fst (pool_reserve True c))" by (simp add: same_def pool_reserve_def)
  then show ?thesis using assms pool_reserve_True(1) [of c]
    by (intro exI [of _ "fst (pool_reserve True c)"])
      (simp add: at_boundary_pool prod_eq_iff del: pool_reserve_True(2), simp add: at_boundary_def)
qed

lemma pool_push_gen:
  assumes "pool_push False c k = (c1, i)" "at_boundary c acc" "c_ok c1"
  shows "at_boundary c1 acc \<and> same c c1 \<and> (\<forall>pool. prefix (c_pool c1) pool \<longrightarrow> i < length pool \<and> pool ! i = k)"
proof -
  have c1: "c1 = c\<lparr>c_pool := c_pool c @ [k]\<rparr>" "i = length (c_pool c)"
    using assms(1,3) by (auto simp: pool_push_def Let_def split: if_splits)
  then have "i < length pool \<and> pool ! i = k" if "prefix (c_pool c1) pool" for pool
    using that by (auto simp: prefix_def nth_append)
  then show ?thesis using assms(2) c1(1) by (simp add: at_boundary_pool same_def)
qed

lemma pool_found:
  assumes "pool_index P ks 0 = Some i" "prefix ks pool"
  shows "i < length pool \<and> P (c_val (pool ! i))"
  using pool_index_Some [OF assms(1)] assms(2) by (auto simp: prefix_def nth_append)

lemma pool_add_str_gen:
  assumes "pool_add_str True c s = (c1, i)" "at_boundary c acc" "c_ok c1"
  shows "at_boundary c1 acc \<and> same c c1 \<and> (\<forall>pool. prefix (c_pool c1) pool \<longrightarrow> pool_str pool i = s)"
proof -
  obtain c0 where r: "pool_reserve True c = (c0, True)" "at_boundary c0 acc" "same c c0" "c_ok c"
    using pool_reserved [OF assms(2)] by blast
  show ?thesis
  proof (cases "pool_index (\<lambda>v. v = Pool_string s) (c_pool c0) 0")
    case (Some j)
    then have "c1 = c0" "i = j" using assms(1) r by (simp_all add: pool_add_str_def)
    then show ?thesis using r pool_found [OF Some] by (auto simp: pool_str_def)
  next
    case None
    then have "pool_push False c0 \<lparr>c_val = Pool_string s, c_str_hash = str_hash31 s\<rparr> = (c1, i)"
      using assms(1) r by (simp add: pool_add_str_def)
    from pool_push_gen [OF this r(2) assms(3)] show ?thesis
      using same_trans [OF r(3)] by (auto simp: pool_str_def)
  qed
qed

lemma pool_add_f64_gen:
  assumes "pool_add_f64 True c d = (c1, i)" "at_boundary c acc" "c_ok c1" "f64_abs_bits d \<noteq> 0"
  shows "at_boundary c1 acc \<and> same c c1 \<and> (\<forall>pool. prefix (c_pool c1) pool \<longrightarrow> pool_f64 pool i = d)"
proof -
  let ?P = "\<lambda>v. case v of Pool_float64 x \<Rightarrow> f64_eq x d | _ \<Rightarrow> False"
  obtain c0 where r: "pool_reserve True c = (c0, True)" "at_boundary c0 acc" "same c c0" "c_ok c"
    using pool_reserved [OF assms(2)] by blast
  show ?thesis
  proof (cases "pool_index ?P (c_pool c0) 0")
    case (Some j)
    then have "c1 = c0" "i = j" using assms(1) r by (simp_all add: pool_add_f64_def)
    moreover have "pool_f64 pool j = d" if "prefix (c_pool c0) pool" for pool
      using pool_found [OF Some that] assms(4) by (auto simp: pool_f64_def f64_eq_def split: bc_const_val.splits)
    ultimately show ?thesis using r by auto
  next
    case None
    then have "pool_push False c0 \<lparr>c_val = Pool_float64 d, c_str_hash = 0\<rparr> = (c1, i)"
      using assms(1) r by (simp add: pool_add_f64_def)
    from pool_push_gen [OF this r(2) assms(3)] show ?thesis
      using same_trans [OF r(3)] by (auto simp: pool_f64_def)
  qed
qed

lemma plain_ops [simp]:
  "plain_op BC_PUSH_INT32" "plain_op BC_PUSH_FLOAT64" "plain_op BC_PUSH_STRING" "plain_op BC_PUSH_UNDEFINED" "plain_op BC_PUSH_NULL"
  "plain_op BC_PUSH_TRUE" "plain_op BC_PUSH_FALSE" "plain_op BC_LOAD_LOCAL" "plain_op BC_STORE_LOCAL" "plain_op BC_DUP"
  "plain_op BC_POP" "plain_op BC_ADD" "plain_op BC_SUB" "plain_op BC_ADD_SELF" "plain_op BC_MUL_SELF" "plain_op BC_INC_LOCAL"
  "plain_op BC_NEG" "plain_op BC_POS" "plain_op BC_NOT" "plain_op BC_BIT_NOT" "plain_op BC_TYPEOF" "plain_op BC_VOID"
  "plain_op BC_TO_STRING" "plain_op BC_TO_NUMBER" "plain_op BC_TO_BOOL" "plain_op BC_JUMP" "plain_op BC_JUMP_IF_FALSE"
  "plain_op BC_JUMP_IF_FALSE_KEEP" "plain_op BC_JUMP_IF_TRUE_KEEP" "plain_op BC_JUMP_IF_NOT_NULLISH"
  "plain_op BC_SET_RESULT" "plain_op BC_STOP"
  by (simp_all add: plain_op_def bc_opcode_defs)

lemma not_add [simp]:
  "BC_PUSH_INT32 \<noteq> BC_ADD" "BC_PUSH_FLOAT64 \<noteq> BC_ADD" "BC_PUSH_STRING \<noteq> BC_ADD" "BC_LOAD_LOCAL \<noteq> BC_ADD"
  "BC_STORE_LOCAL \<noteq> BC_ADD" "BC_ADD_SELF \<noteq> BC_ADD" "BC_MUL_SELF \<noteq> BC_ADD" "BC_INC_LOCAL \<noteq> BC_ADD" "BC_JUMP \<noteq> BC_ADD"
  "BC_JUMP_IF_FALSE \<noteq> BC_ADD" "BC_JUMP_IF_FALSE_KEEP \<noteq> BC_ADD" "BC_JUMP_IF_TRUE_KEEP \<noteq> BC_ADD" "BC_JUMP_IF_NOT_NULLISH \<noteq> BC_ADD"
  "BC_PUSH_UNDEFINED \<noteq> BC_ADD" "BC_PUSH_NULL \<noteq> BC_ADD" "BC_PUSH_TRUE \<noteq> BC_ADD" "BC_PUSH_FALSE \<noteq> BC_ADD" "BC_DUP \<noteq> BC_ADD"
  "BC_POP \<noteq> BC_ADD" "BC_SUB \<noteq> BC_ADD" "BC_POS \<noteq> BC_ADD"
  by (simp_all add: bc_opcode_defs)

lemma gen_push_string:
  assumes "at_boundary c acc" "c_ok (emit_push_string c s)"
  shows "\<exists>is. gen F env N (push_eff (LR_STRING s)) c acc is (emit_push_string c s)"
proof -
  obtain c1 i where p: "pool_add_str True c s = (c1, i)" by fastforce
  have e: "emit_push_string c s = update_stack (emit_idx c1 BC_PUSH_STRING i) 1" using p by (simp add: emit_push_string_def)
  have ok: "c_ok c1" "c_ok (emit_idx c1 BC_PUSH_STRING i)" using assms(2) unfolding e by (simp_all add: emit_idx_def)
  note g = pool_add_str_gen [OF p assms(1) ok(1)]
  have "gen F env N (push_eff (LR_STRING s)) c1 acc [(BC_PUSH_STRING, [U16 (int i)])] (emit_idx c1 BC_PUSH_STRING i)"
  proof (rule gen_idx)
    show "runs F env pool N [(BC_PUSH_STRING, [U16 (int i)])] (push_eff (LR_STRING s))"
      if "i < 65536" "prefix (c_pool c1) pool" for pool
      using runs_push_pool(2) [OF that(1), of F env pool N] g that(2) by simp
  qed (use g ok in simp_all)
  then show ?thesis unfolding e using gen_from g by (metis gen_update)
qed

lemma f64_zero_bits: "f64_abs_bits d = 0 \<Longrightarrow> int32_valued d"
proof -
  assume "f64_abs_bits d = 0"
  then have "2 ^ 63 dvd uint d" by (simp add: f64_abs_bits_zero f64_mag_def dvd_eq_mod_eq_0)
  then obtain k where "uint d = 2 ^ 63 * k" ..
  moreover have "0 \<le> uint d" "uint d < 2 ^ 64" using uint_bounded [of d] by simp_all
  ultimately have "uint d = 2 ^ 63 * k" "k = 0 \<or> k = 1" by auto
  then have "uint d = 0 \<or> uint d = 2 ^ 63" by auto
  then have "d = word_of_int 0 \<or> d = word_of_int (2 ^ 63)" by (metis word_of_int_uint)
  then have "d = 0 \<or> d = 0x8000000000000000" by simp
  moreover have "int32_valued 0" "int32_valued 0x8000000000000000" by code_simp+
  ultimately show ?thesis by auto
qed

lemma gen_push_number:
  assumes "at_boundary c acc" "c_ok (emit_push_number c d)"
  shows "\<exists>is. gen F env N (push_eff (if int32_valued d then LR_INT32 (word_of_int (f64_cast 32 d)) else LR_FLOAT64 d)) c acc is
    (emit_push_number c d)"
proof (cases "int32_valued d")
  case True
  have r: "- (2 ^ 31) \<le> f64_cast 32 d" "f64_cast 32 d < 2 ^ 31" by (auto simp: f64_cast_def split: option.split)
  have "gen F env N (push_eff (LR_INT32 (word_of_int (f64_cast 32 d)))) c acc [(BC_PUSH_INT32, [I32 (f64_cast 32 d)])]
      (emit32 True (emit True c BC_PUSH_INT32) (f64_cast 32 d))"
    using assms(1) r by (intro gen_emit32 runs_push_int32) simp_all
  then show ?thesis using True by (auto simp: emit_push_number_def)
next
  case False
  obtain c1 i where p: "pool_add_f64 True c d = (c1, i)" by fastforce
  have e: "emit_push_number c d = update_stack (emit_idx c1 BC_PUSH_FLOAT64 i) 1"
    using p False by (simp add: emit_push_number_def emit_push_f64_def)
  have ok: "c_ok c1" "c_ok (emit_idx c1 BC_PUSH_FLOAT64 i)" using assms(2) unfolding e by (simp_all add: emit_idx_def)
  have "f64_abs_bits d \<noteq> 0" using False f64_zero_bits by auto
  note g = pool_add_f64_gen [OF p assms(1) ok(1) this]
  have "gen F env N (push_eff (LR_FLOAT64 d)) c1 acc [(BC_PUSH_FLOAT64, [U16 (int i)])] (emit_idx c1 BC_PUSH_FLOAT64 i)"
  proof (rule gen_idx)
    show "runs F env pool N [(BC_PUSH_FLOAT64, [U16 (int i)])] (push_eff (LR_FLOAT64 d))"
      if "i < 65536" "prefix (c_pool c1) pool" for pool
      using runs_push_pool(1) [OF that(1), of F env pool N] g that(2) by simp
  qed (use g ok in simp_all)
  then have "gen F env N (push_eff (LR_FLOAT64 d)) c acc [(BC_PUSH_FLOAT64, [U16 (int i)])] (emit_idx c1 BC_PUSH_FLOAT64 i)"
    using gen_from g by blast
  then show ?thesis unfolding e using False by auto
qed

end
