(* ===== verification/LR_Correct.thy ===== *)
theory LR_Correct
  imports LR_Gen
begin

text \<open>
  Correctness of the expression compiler: the code that \<open>cexpr\<close> appends for an expression of the fragment does what
  the reference evaluator says, wherever it is placed and whatever is compiled after it.
\<close>

section \<open>Chains of instructions\<close>

lemma runs_cong:
  assumes "runs F env pool N is T" "\<And>st \<sigma>. length (st_locals \<sigma>) = N \<Longrightarrow> T (st, \<sigma>) = U (st, \<sigma>)"
  shows "runs F env pool N is U"
proof -
  have "U (v_stack s, store_of s) = T (v_stack s, store_of s)" if "length (v_locals s) = N" for s
    using assms(2) [of "store_of s" "v_stack s"] that by simp
  then show ?thesis using assms(1) by (simp add: runs_def)
qed

lemma gen_cong:
  assumes "gen F env N T c acc is c'" "\<And>st \<sigma>. length (st_locals \<sigma>) = N \<Longrightarrow> T (st, \<sigma>) = U (st, \<sigma>)"
  shows "gen F env N U c acc is c'"
proof -
  have "runs F env pool N is U" if "runs F env pool N is T" for pool using runs_cong [OF that] assms(2) by blast
  then show ?thesis using assms(1) by (simp add: gen_def)
qed

lemma gen_ok: "gen F env N T c acc is c' \<Longrightarrow> at_boundary c' (acc @ is)" "gen F env N T c acc is c' \<Longrightarrow> same c c'"
  by (simp_all add: gen_def)

lemma gen_then0:
  assumes "gen F env N T c acc is c1" "snd (bc_info op) = 0" "plain_op op" "\<And>pool. runs F env pool N [(op, [])] U"
  shows "gen F env N (seq_eff T U) c acc (is @ [(op, [])]) (emit True c1 op)"
  by (rule gen_seq [OF assms(1)]) (rule gen_emit0 [OF gen_ok(1) [OF assms(1)] assms(2,3) no_add_gen [OF assms(1)] assms(4)])

lemma gen_then_idx:
  assumes "gen F env N T c acc is c1" "snd (bc_info op) = 1" "plain_op op" "op \<noteq> BC_ADD" "c_ok (emit_idx c1 op i)"
    "\<And>pool. runs F env pool N [(op, [U16 (int i)])] U"
  shows "gen F env N (seq_eff T U) c acc (is @ [(op, [U16 (int i)])]) (emit_idx c1 op i)"
  by (rule gen_seq [OF assms(1)]) (rule gen_idx [OF gen_ok(1) [OF assms(1)] assms(2-5)], rule assms(6))

lemma gen_then_one:
  assumes "gen F env N T c acc is c1"
  shows "gen F env N (seq_eff T (push_eff (LR_INT32 1))) c acc (is @ [(BC_PUSH_INT32, [I32 1])]) (emit_one c1)"
proof -
  have "runs F env pool N [(BC_PUSH_INT32, [I32 1])] (push_eff (LR_INT32 1))" for pool
    using runs_push_int32 [of 1 F env pool N] by simp
  then show ?thesis unfolding emit_one_def
    by (intro gen_seq [OF assms] gen_emit32 [OF gen_ok(1) [OF assms]]) simp_all
qed

lemma gen_forward:
  assumes "at_boundary c acc" "snd (bc_info op) = 2" "plain_op op" "op \<noteq> BC_ADD" "emit_jump True c op = (c1, j)"
    and mid: "at_boundary c1 (acc @ [(op, [I32 0])]) \<Longrightarrow> gen F env N U c1 (acc @ [(op, [I32 0])]) mid c2"
    and T: "\<And>pool. offset_ok mid \<Longrightarrow> runs F env pool N mid U \<Longrightarrow> runs F env pool N ((op, over mid) # mid) T"
  shows "gen F env N T c acc ((op, over mid) # mid) (patch_here c2 j)"
proof -
  have c1: "c1 = emit_insn True (op, [I32 0]) c" "j = length (enc acc) + 1" using emit_jump_insn [OF assms(1,4)] assms(5) by simp_all
  have "at_boundary c1 (acc @ [(op, [I32 0])])" unfolding c1(1)
    using assms(1-4) by (intro at_boundary_emit) (simp_all add: insn_typed_kinds no_add_def)
  then have g: "gen F env N U c1 (acc @ [(op, [I32 0])]) mid c2" by (rule mid)
  have "same c (patch_here c2 j)"
    using same_trans [OF same_trans [OF emit_insn_same(3) gen_ok(2) [OF g [unfolded c1(1)]]] patch_here_same(1)] .
  moreover have "at_boundary (patch_here c2 j) (acc @ (op, over mid) # mid)"
    unfolding c1(2) using gen_ok(1) [OF g] by (intro at_boundary_patch) simp
  moreover have "offset_ok mid" if "offset_ok ((op, over mid) # mid)" using that by (simp add: offset_ok_def)
  ultimately show ?thesis using g T by (simp add: gen_def)
qed

section \<open>Values of expressions\<close>

definition val_eff :: "(store \<Rightarrow> (lr_value \<times> store) outcome) \<Rightarrow> effect" where
  "val_eff f = (\<lambda>(st, \<sigma>). obind (f \<sigma>) (\<lambda>(v, \<sigma>'). Go (v # st, \<sigma>')))"

lemma seq_val: "seq_eff (val_eff f) U (st, \<sigma>) = obind (f \<sigma>) (\<lambda>(v, \<sigma>'). U (v # st, \<sigma>'))"
  by (cases "f \<sigma>") (auto simp: seq_eff_def val_eff_def)

lemma seq_eff_Pair: "seq_eff T U x = obind (T x) U"
  by (simp add: seq_eff_def)

lemma push_val: "push_eff v = val_eff (\<lambda>\<sigma>. Go (v, \<sigma>))"
  by (simp add: push_eff_def val_eff_def)

lemma load_val: "load_eff i = val_eff (\<lambda>\<sigma>. Go (st_locals \<sigma> ! i, \<sigma>))"
  by (simp add: load_eff_def val_eff_def)

lemma val_effI: "(\<And>\<sigma>. f \<sigma> = g \<sigma>) \<Longrightarrow> val_eff f = val_eff g"
  by (simp add: val_eff_def)

definition good :: "nat \<Rightarrow> string list \<Rightarrow> bc_comp \<Rightarrow> bool" where
  "good N ns c \<longleftrightarrow> c_local_scope_depth c = 0 \<and> \<not> c_disable_local_slots c \<and> c_locals c = ns \<and> length ns \<le> N \<and> N < 65536"

lemma good_same: "same c c' \<Longrightarrow> good N ns c \<Longrightarrow> good N ns c'"
  by (simp add: same_def good_def)

lemma good_gen: "gen F env N T c acc is c' \<Longrightarrow> good N ns c \<Longrightarrow> good N ns c'"
  using gen_ok(2) good_same by blast

lemma find_local_good: "good N ns c \<Longrightarrow> find_local_slot c x = name_slot ns (Some x)"
  by (simp add: find_local_slot_def good_def name_slot_def)

lemma slot_good: "good N ns c \<Longrightarrow> name_slot ns (Some x) = Some i \<Longrightarrow> i < N \<and> N < 65536"
  by (auto simp: good_def name_slot_Some)

lemma cexpr_okD: "c_ok (cexpr E c n) \<Longrightarrow> c_ok c"
  by (subst (asm) cexpr_unfold) (simp add: cexpr_node_def split: if_splits)

definition compiles :: "nat \<Rightarrow> js_env \<Rightarrow> nat \<Rightarrow> comp_env \<Rightarrow> string list \<Rightarrow> ast \<Rightarrow> bool" where
  "compiles F env N E ns n \<longleftrightarrow> (\<forall>c acc. good N ns c \<longrightarrow> at_boundary c acc \<longrightarrow> c_ok (cexpr E c n) \<longrightarrow>
     (\<exists>is. gen F env N (val_eff (js_eval F env ns n)) c acc is (cexpr E c n)))"

lemma compilesE:
  assumes "compiles F env N E ns n" "good N ns c" "at_boundary c acc" "c_ok (cexpr E c n)"
  obtains "is" where "gen F env N (val_eff (js_eval F env ns n)) c acc is (cexpr E c n)" "good N ns (cexpr E c n)"
    "at_boundary (cexpr E c n) (acc @ is)"
  using assms good_gen gen_ok(1) unfolding compiles_def by metis

section \<open>One lemma per construct\<close>

lemma compilesI:
  assumes "\<And>c acc. good N ns c \<Longrightarrow> at_boundary c acc \<Longrightarrow> c_ok c \<Longrightarrow> c_ok (cexpr_node (cexpr E) E c n) \<Longrightarrow>
    \<exists>is. gen F env N (val_eff (js_eval F env ns n)) c acc is (cexpr_node (cexpr E) E c n)"
  shows "compiles F env N E ns n"
  unfolding compiles_def using assms cexpr_okD [of E _ n] cexpr_unfold [of E _ n] by metis

lemma compiles_literal:
  assumes "literal_value lit = Some v"
  shows "compiles F env N E ns (AST_LITERAL lit)"
proof (rule compilesI)
  fix c acc
  assume c: "good N ns c" "at_boundary c acc" "c_ok c" "c_ok (cexpr_node (cexpr E) E c (AST_LITERAL lit))"
  have ev: "val_eff (js_eval F env ns (AST_LITERAL lit)) = push_eff v"
    unfolding push_val using assms by (intro val_effI) (simp add: js_eval.simps [of F env ns "AST_LITERAL lit"])
  have n: "cexpr_node (cexpr E) E c (AST_LITERAL lit) = cliteral E c lit" using c(3) by (simp add: cexpr_node_def)
  have k: "gen F env N (push_eff w) c acc [(op, [])] (emit True c op)"
    if "\<And>pool. runs F env pool N [(op, [])] (push_eff w)" "snd (bc_info op) = 0" "plain_op op" "op \<noteq> BC_ADD" for op w
    using that by (intro gen_emit0 c(2)) (simp_all add: no_add_def)
  have b: "gen F env N (push_eff (LR_BOOL b)) c acc [(if b then BC_PUSH_TRUE else BC_PUSH_FALSE, [])]
      (emit True c (if b then BC_PUSH_TRUE else BC_PUSH_FALSE))" for b
    by (rule k [OF runs_constants(3)]) (cases b; simp)+
  show "\<exists>is. gen F env N (val_eff (js_eval F env ns (AST_LITERAL lit))) c acc is (cexpr_node (cexpr E) E c (AST_LITERAL lit))"
    unfolding ev n
  proof (cases lit)
    case (TOK_NUMBER d)
    then have e: "cliteral E c lit = emit_push_number c d" by (simp add: cliteral_def)
    have v: "v = (if int32_valued d then LR_INT32 (word_of_int (f64_cast 32 d)) else LR_FLOAT64 d)"
      using assms TOK_NUMBER by (simp add: literal_value_def)
    show "\<exists>is. gen F env N (push_eff v) c acc is (cliteral E c lit)"
      using gen_push_number [OF c(2)] c(4) n unfolding e v by simp
  next
    case (TOK_STRING s)
    then show "\<exists>is. gen F env N (push_eff v) c acc is (cliteral E c lit)"
      using assms c(4) n gen_push_string [OF c(2), of s] by (simp add: literal_value_def cliteral_def)
  qed (use assms b [of True, simplified] b [of False, simplified] k [OF runs_constants(1)] k [OF runs_constants(2)]
    in \<open>auto simp: literal_value_def cliteral_def\<close>)
qed

lemma gen_load:
  assumes "good N ns c" "at_boundary c acc" "name_slot ns (Some x) = Some i" "c_ok (emit_idx c BC_LOAD_LOCAL i)"
  shows "gen F env N (load_eff i) c acc [(BC_LOAD_LOCAL, [U16 (int i)])] (emit_idx c BC_LOAD_LOCAL i)"
  using slot_good [OF assms(1,3)] by (intro gen_idx assms(2,4) runs_load_store) simp_all

lemma emit_name_slot:
  assumes "good N ns c" "name_slot ns (Some x) = Some i"
  shows "emit_name_op c BC_LOAD_VAR x = update_stack (emit_idx c BC_LOAD_LOCAL i) 1"
    "emit_name_op c BC_STORE_VAR x = update_stack (emit_idx c BC_STORE_LOCAL i) (-1)"
  using assms find_local_good [OF assms(1), of x] by (simp_all add: emit_name_op_def) (simp_all add: bc_opcode_defs)

lemma compiles_name:
  assumes "name_slot ns (Some x) = Some i"
  shows "compiles F env N E ns (AST_IDENTIFIER (Some x))"
proof (rule compilesI)
  fix c acc
  assume c: "good N ns c" "at_boundary c acc" "c_ok c" "c_ok (cexpr_node (cexpr E) E c (AST_IDENTIFIER (Some x)))"
  have ev: "val_eff (js_eval F env ns (AST_IDENTIFIER (Some x))) = load_eff i"
    unfolding load_val using assms by (intro val_effI) (simp add: js_eval.simps [of F env ns "AST_IDENTIFIER (Some x)"])
  have n: "cexpr_node (cexpr E) E c (AST_IDENTIFIER (Some x)) = update_stack (emit_idx c BC_LOAD_LOCAL i) 1"
    using c(3) emit_name_slot(1) [OF c(1) assms] by (simp add: cexpr_node_def)
  show "\<exists>is. gen F env N (val_eff (js_eval F env ns (AST_IDENTIFIER (Some x)))) c acc is
      (cexpr_node (cexpr E) E c (AST_IDENTIFIER (Some x)))"
    using gen_load [OF c(1,2) assms] c(4) unfolding ev n by auto
qed

lemma keep_seq:
  "seq_eff (val_eff f) (keep_eff op (seq_eff pop_eff (val_eff g))) =
    val_eff (\<lambda>\<sigma>. obind (f \<sigma>) (\<lambda>(v, \<sigma>1). if keep_taken op v then Go (v, \<sigma>1) else g \<sigma>1))"
proof
  fix x :: "lr_value list \<times> store"
  obtain st \<sigma> where x: "x = (st, \<sigma>)" by fastforce
  show "seq_eff (val_eff f) (keep_eff op (seq_eff pop_eff (val_eff g))) x =
      val_eff (\<lambda>\<sigma>. obind (f \<sigma>) (\<lambda>(v, \<sigma>1). if keep_taken op v then Go (v, \<sigma>1) else g \<sigma>1)) x"
    by (cases "f \<sigma>") (auto simp: x seq_val keep_eff_def val_eff_def seq_eff_Pair pop_eff_def)
qed

lemma logical_ops: "logical_op op = Some j \<Longrightarrow> j \<in> {BC_JUMP_IF_FALSE_KEEP, BC_JUMP_IF_TRUE_KEEP, BC_JUMP_IF_NOT_NULLISH}"
  by (auto simp: logical_op_def split: if_splits)

lemma compiles_logical:
  assumes "logical_op op = Some j" "compiles F env N E ns l" "compiles F env N E ns r"
  shows "compiles F env N E ns (AST_BINARY op l r)"
proof (rule compilesI)
  let ?n = "AST_BINARY op l r"
  fix c acc
  assume c: "good N ns c" "at_boundary c acc" "c_ok c" "c_ok (cexpr_node (cexpr E) E c ?n)"
  have n: "cexpr_node (cexpr E) E c ?n = cexpr_logical j (\<lambda>c. cexpr E c l) (\<lambda>c. cexpr E c r) c"
    using c(3) assms(1) by (auto simp: cexpr_node_def cbinary_def logical_op_def split: if_splits)
  obtain c1 p where e: "emit_jump True (cexpr E c l) j = (c1, p)" by fastforce
  let ?c2 = "cexpr E (emit True c1 BC_POP) r"
  have n: "cexpr_node (cexpr E) E c ?n = patch_here ?c2 p" using n e by (simp add: cexpr_logical_def)
  have j: "snd (bc_info j) = 2" "plain_op j" "j \<noteq> BC_ADD" using logical_ops [OF assms(1)] not_add [symmetric] by auto
  have c2: "c_ok ?c2" using c(4) unfolding n by simp
  have "c_ok (cexpr E c l)" using cexpr_okD [OF c2] e by (auto simp: emit_jump_def Let_def)
  then obtain is1 where g1: "gen F env N (val_eff (js_eval F env ns l)) c acc is1 (cexpr E c l)" "good N ns (cexpr E c l)"
      "at_boundary (cexpr E c l) (acc @ is1)"
    using compilesE [OF assms(2) c(1,2)] by blast
  have c1: "c1 = emit_insn True (j, [I32 0]) (cexpr E c l)" using emit_jump_insn [OF g1(3) j(3)] e by simp
  have gd: "good N ns c1" unfolding c1 by (rule good_same [OF emit_insn_same(3) g1(2)])
  let ?acc = "(acc @ is1) @ [(j, [I32 0])]"
  have mid: "\<exists>mid. gen F env N (seq_eff pop_eff (val_eff (js_eval F env ns r))) c1 ?acc mid ?c2" if "at_boundary c1 ?acc"
  proof -
    have g: "gen F env N pop_eff c1 ?acc [(BC_POP, [])] (emit True c1 BC_POP)"
      using that by (intro gen_emit0 runs_dup_pop) (simp_all add: no_add_def)
    obtain is2 where "gen F env N (val_eff (js_eval F env ns r)) (emit True c1 BC_POP) (?acc @ [(BC_POP, [])]) is2 ?c2"
      using compilesE [OF assms(3) good_gen [OF g gd] gen_ok(1) [OF g] c2] by blast
    from gen_seq [OF g this] show ?thesis by blast
  qed
  have at: "at_boundary c1 ?acc" unfolding c1
    using at_boundary_emit [OF g1(3), of "(j, [I32 0])"] j by (simp add: insn_typed_kinds no_add_def)
  obtain mid where m: "gen F env N (seq_eff pop_eff (val_eff (js_eval F env ns r))) c1 ?acc mid ?c2" using mid [OF at] by blast
  have "gen F env N (keep_eff j (seq_eff pop_eff (val_eff (js_eval F env ns r)))) (cexpr E c l) (acc @ is1) ((j, over mid) # mid)
      (patch_here ?c2 p)"
    by (rule gen_forward [OF g1(3) j e m]) (rule runs_keep [OF logical_ops [OF assms(1)]])
  moreover have "val_eff (js_eval F env ns ?n) = seq_eff (val_eff (js_eval F env ns l))
      (keep_eff j (seq_eff pop_eff (val_eff (js_eval F env ns r))))"
    unfolding keep_seq using assms(1) by (intro val_effI) (simp add: js_eval.simps [of F env ns ?n])
  ultimately show "\<exists>is. gen F env N (val_eff (js_eval F env ns ?n)) c acc is (cexpr_node (cexpr E) E c ?n)"
    unfolding n using gen_seq [OF g1(1)] by metis
qed

lemma plain_binop: "binop_of_byte op = Some b \<Longrightarrow> plain_op op"
  using binop_byte_range(1,2) [of op b] by (auto simp: plain_op_def bc_opcode_defs)

lemma binop_seq:
  "seq_eff (seq_eff (val_eff f) (val_eff g)) (binop_eff F env b) =
    val_eff (\<lambda>\<sigma>. obind (f \<sigma>) (\<lambda>(x, \<sigma>1). obind (g \<sigma>1) (\<lambda>(y, \<sigma>2). take_op (vm_binop F (store_env env \<sigma>2) b x y) \<sigma>2)))"
proof
  fix x :: "lr_value list \<times> store"
  obtain st \<sigma> where x: "x = (st, \<sigma>)" by fastforce
  show "seq_eff (seq_eff (val_eff f) (val_eff g)) (binop_eff F env b) x = val_eff (\<lambda>\<sigma>. obind (f \<sigma>)
      (\<lambda>(x, \<sigma>1). obind (g \<sigma>1) (\<lambda>(y, \<sigma>2). take_op (vm_binop F (store_env env \<sigma>2) b x y) \<sigma>2))) x"
  proof (cases "f \<sigma>")
    case (Go y)
    then show ?thesis
      by (cases y; cases "g (snd y)") (auto simp: x seq_eff_Pair val_eff_def binop_eff_def)
  qed (simp add: x seq_eff_Pair val_eff_def)
qed

lemma compiles_binary:
  assumes "logical_op op = None" "binop_of_byte (binop_of op) = Some b" "try_factor_cse op l r = None"
    "compiles F env N E ns l" "compiles F env N E ns r"
  shows "compiles F env N E ns (AST_BINARY op l r)"
proof (rule compilesI)
  let ?n = "AST_BINARY op l r"
  fix c acc
  assume c: "good N ns c" "at_boundary c acc" "c_ok c" "c_ok (cexpr_node (cexpr E) E c ?n)"
  have "binop_of op \<noteq> BC_NOP" using binop_byte_range(1) [OF assms(2)] by (auto simp: bc_opcode_defs word_le_nat_alt)
  then have n: "cexpr_node (cexpr E) E c ?n = emit True (cexpr E (cexpr E c l) r) (binop_of op)"
    using c(3) assms(1,3) by (auto simp: cexpr_node_def cbinary_def logical_op_def cexpr_binary_def split: if_splits)
  have k: "c_ok (cexpr E (cexpr E c l) r)" using c(4) unfolding n by simp
  obtain is1 where g1: "gen F env N (val_eff (js_eval F env ns l)) c acc is1 (cexpr E c l)" "good N ns (cexpr E c l)"
      "at_boundary (cexpr E c l) (acc @ is1)"
    using compilesE [OF assms(4) c(1,2) cexpr_okD [OF k]] .
  obtain is2 where "gen F env N (val_eff (js_eval F env ns r)) (cexpr E c l) (acc @ is1) is2 (cexpr E (cexpr E c l) r)"
    using compilesE [OF assms(5) g1(2,3) k] .
  note g = gen_then0 [OF gen_seq [OF g1(1) this] binop_byte_range(3) [OF assms(2)] plain_binop [OF assms(2)] runs_binop [OF assms(2)]]
  have "val_eff (js_eval F env ns ?n) =
      seq_eff (seq_eff (val_eff (js_eval F env ns l)) (val_eff (js_eval F env ns r))) (binop_eff F env b)"
    unfolding binop_seq using assms(1,2) by (intro val_effI) (simp add: js_eval.simps [of F env ns ?n])
  then show "\<exists>is. gen F env N (val_eff (js_eval F env ns ?n)) c acc is (cexpr_node (cexpr E) E c ?n)"
    unfolding n using g by metis
qed

lemma unary_seq:
  "seq_eff (val_eff f) (unary_eff h) = val_eff (\<lambda>\<sigma>. obind (f \<sigma>) (\<lambda>(v, \<sigma>1). Go (h \<sigma>1 v, \<sigma>1)))"
proof
  fix x :: "lr_value list \<times> store"
  show "seq_eff (val_eff f) (unary_eff h) x = val_eff (\<lambda>\<sigma>. obind (f \<sigma>) (\<lambda>(v, \<sigma>1). Go (h \<sigma>1 v, \<sigma>1))) x"
    by (cases x; cases "f (snd x)") (auto simp: seq_eff_Pair unary_eff_def val_eff_def)
qed

text \<open>An expression that is its operand followed by one instruction of the machine.\<close>

lemma compiles_unary_op:
  assumes "compiles F env N E ns a"
    and "u \<in> {BC_NEG, BC_POS, BC_TO_NUMBER, BC_NOT, BC_BIT_NOT, BC_TYPEOF, BC_TO_STRING, BC_TO_BOOL, BC_VOID}"
    and "\<And>c. c_ok c \<Longrightarrow> cexpr_node (cexpr E) E c n = emit True (cexpr E c a) u"
    and "\<And>\<sigma>. js_eval F env ns n \<sigma> = obind (js_eval F env ns a \<sigma>) (\<lambda>(v, \<sigma>1). Go (unary_fun env u \<sigma>1 v, \<sigma>1))"
  shows "compiles F env N E ns n"
proof (rule compilesI)
  fix c acc
  assume c: "good N ns c" "at_boundary c acc" "c_ok c" "c_ok (cexpr_node (cexpr E) E c n)"
  have k: "c_ok (cexpr E c a)" using c(4) assms(3) [OF c(3)] by simp
  obtain is1 where g: "gen F env N (val_eff (js_eval F env ns a)) c acc is1 (cexpr E c a)"
    using compilesE [OF assms(1) c(1,2) k] .
  have u: "snd (bc_info u) = 0" "plain_op u" using assms(2) by auto
  have "val_eff (js_eval F env ns n) = seq_eff (val_eff (js_eval F env ns a)) (unary_eff (unary_fun env u))"
    unfolding unary_seq by (intro val_effI assms(4))
  then show "\<exists>is. gen F env N (val_eff (js_eval F env ns n)) c acc is (cexpr_node (cexpr E) E c n)"
    unfolding assms(3) [OF c(3)] using gen_then0 [OF g u runs_unary_fun [OF assms(2)]] by metis
qed

lemma compiles_unary:
  assumes "compiles F env N E ns a" "\<not> (op = ''++'' \<or> op = ''--'')" "op = ''typeof'' \<longrightarrow> ident_name a = None"
    "(if op = ''typeof'' then Some BC_TYPEOF else unary_op op pre) = Some u"
  shows "compiles F env N E ns (AST_UNARY op pre a)"
proof (rule compiles_unary_op [OF assms(1)])
  show "u \<in> {BC_NEG, BC_POS, BC_TO_NUMBER, BC_NOT, BC_BIT_NOT, BC_TYPEOF, BC_TO_STRING, BC_TO_BOOL, BC_VOID}"
    using assms(4) by (auto simp: unary_op_def split: if_splits)
  show "cexpr_node (cexpr E) E c (AST_UNARY op pre a) = emit True (cexpr E c a) u" if "c_ok c" for c
    using that assms(2-4) by (auto simp: cexpr_node_def cunary_def unary_op_def split: if_splits)
qed (use assms in \<open>auto simp: js_eval.simps [of F env ns "AST_UNARY op pre a"]\<close>)

lemma compilable_no_spread: "compilable ns a \<Longrightarrow> \<not> has_spread [a]"
  by (cases rule: compilable_cases) (auto simp: has_spread_def is_spread_def)

lemma conversion_callee:
  assumes "conversion_op callee = Some u"
  obtains x where "callee = AST_IDENTIFIER (Some x)" "x \<noteq> ''import''" "u \<in> {BC_TO_STRING, BC_TO_NUMBER, BC_TO_BOOL}"
  using assms by (cases callee) (auto simp: conversion_op_def is_ident_def split: if_splits option.splits)

lemma compiles_conversion:
  assumes "compiles F env N E ns a" "compilable ns a" "conversion_op callee = Some u"
  shows "compiles F env N E ns (AST_CALL False False callee [a])"
proof -
  obtain x where x: "callee = AST_IDENTIFIER (Some x)" "x \<noteq> ''import''" "u \<in> {BC_TO_STRING, BC_TO_NUMBER, BC_TO_BOOL}"
    using conversion_callee [OF assms(3)] .
  show ?thesis
  proof (rule compiles_unary_op [OF assms(1)])
    show "cexpr_node (cexpr E) E c (AST_CALL False False callee [a]) = emit True (cexpr E c a) u" if "c_ok c" for c
      using that assms(3) x compilable_no_spread [OF assms(2)]
      by (simp add: cexpr_node_def ccall_def delegated_call_def is_ident_def is_plain_member_def is_computed_member_def
          is_func_node_def ast_type_def)
  qed (use x(3) assms(3) in \<open>auto simp: js_eval.simps [of F env ns "AST_CALL False False callee [a]"]\<close>)
qed

lemma cond_seq:
  "seq_eff (val_eff f) (if_eff (val_eff g) (val_eff h)) =
    val_eff (\<lambda>\<sigma>. obind (f \<sigma>) (\<lambda>(v, \<sigma>1). if lr_to_bool v then g \<sigma>1 else h \<sigma>1))"
proof
  fix x :: "lr_value list \<times> store"
  show "seq_eff (val_eff f) (if_eff (val_eff g) (val_eff h)) x =
      val_eff (\<lambda>\<sigma>. obind (f \<sigma>) (\<lambda>(v, \<sigma>1). if lr_to_bool v then g \<sigma>1 else h \<sigma>1)) x"
    by (cases x; cases "f (snd x)") (auto simp: seq_eff_Pair if_eff_def val_eff_def)
qed

lemma seq_Go: "seq_eff T Go = T"
proof
  fix x
  show "seq_eff T Go x = T x" by (cases "T x") (simp_all add: seq_eff_def)
qed

lemma emit_jump_boundary:
  assumes "at_boundary c acc" "snd (bc_info op) = 2" "plain_op op" "op \<noteq> BC_ADD" "emit_jump True c op = (c1, j)"
  shows "at_boundary c1 (acc @ [(op, [I32 0])])" "same c c1" "j = length (enc acc) + 1"
proof -
  have c1: "c1 = emit_insn True (op, [I32 0]) c" "j = length (enc acc) + 1" using emit_jump_insn [OF assms(1,4)] assms(5) by simp_all
  show "at_boundary c1 (acc @ [(op, [I32 0])])" unfolding c1(1)
    using assms(1-4) by (intro at_boundary_emit) (simp_all add: insn_typed_kinds no_add_def)
  show "same c c1" unfolding c1(1) by (rule emit_insn_same(3))
  show "j = length (enc acc) + 1" by (rule c1(2))
qed

lemma patch_same: "same c c' \<Longrightarrow> same c (patch_here c' p)"
  by (erule same_trans) simp

lemma enc_jump: "length (enc (mid @ [(op, [I32 v])])) = length (enc mid) + 5"
  by (simp add: enc_jump_length)

lemma compiles_conditional:
  assumes "compiles F env N E ns a" "compiles F env N E ns b" "compiles F env N E ns d"
  shows "compiles F env N E ns (AST_CONDITIONAL a b d)"
proof (rule compilesI)
  let ?n = "AST_CONDITIONAL a b d" and ?J = BC_JUMP_IF_FALSE
  fix c acc
  assume c: "good N ns c" "at_boundary c acc" "c_ok c" "c_ok (cexpr_node (cexpr E) E c ?n)"
  define c1 where "c1 = cexpr E c a"
  obtain c2 p where j1: "emit_jump True c1 ?J = (c2, p)" by fastforce
  define c3 where "c3 = cexpr E c2 b"
  obtain c4 q where j2: "emit_jump True c3 BC_JUMP = (c4, q)" by fastforce
  define c6 where "c6 = cexpr E (patch_here c4 p) d"
  have n: "cexpr_node (cexpr E) E c ?n = patch_here c6 q"
    using c(3) j1 j2 by (simp add: cexpr_node_def cexpr_conditional_def c1_def c3_def c6_def)
  have ok6: "c_ok c6" using c(4) unfolding n by simp
  then have "c_ok c4" using cexpr_okD [of E "patch_here c4 p" d] by (simp add: c6_def)
  then have ok3: "c_ok c3" using j2 by (auto simp: emit_jump_def Let_def)
  then have "c_ok c2" using cexpr_okD [of E _ b] by (simp add: c3_def)
  then have ok1: "c_ok c1" using j1 by (auto simp: emit_jump_def Let_def)
  obtain is1 where g1: "gen F env N (val_eff (js_eval F env ns a)) c acc is1 c1" "good N ns c1" "at_boundary c1 (acc @ is1)"
    using compilesE [OF assms(1) c(1,2)] ok1 unfolding c1_def by blast
  have b2: "at_boundary c2 ((acc @ is1) @ [(?J, [I32 0])])" "same c1 c2" "p = length (enc (acc @ is1)) + 1"
    using emit_jump_boundary [OF g1(3) _ _ _ j1] by simp_all
  obtain is2 where g3: "gen F env N (val_eff (js_eval F env ns b)) c2 ((acc @ is1) @ [(?J, [I32 0])]) is2 c3" "good N ns c3"
      "at_boundary c3 (((acc @ is1) @ [(?J, [I32 0])]) @ is2)"
    using compilesE [OF assms(2) good_same [OF b2(2) g1(2)] b2(1)] ok3 unfolding c3_def by blast
  have b4: "at_boundary c4 ((((acc @ is1) @ [(?J, [I32 0])]) @ is2) @ [(BC_JUMP, [I32 0])])" "same c3 c4"
      "q = length (enc (((acc @ is1) @ [(?J, [I32 0])]) @ is2)) + 1"
    using emit_jump_boundary [OF g3(3) _ _ _ j2] by simp_all
  define c5 where "c5 = patch_here c4 p"
  let ?pre = "(acc @ is1) @ (?J, over (is2 @ [(BC_JUMP, [I32 0])])) # is2"
  have at5: "at_boundary c5 (?pre @ [(BC_JUMP, [I32 0])])"
    unfolding c5_def b2(3) using at_boundary_patch [of c4 "acc @ is1" ?J 0 "is2 @ [(BC_JUMP, [I32 0])]"] b4(1) by simp
  have s5: "same c3 c5" unfolding c5_def by (rule patch_same [OF b4(2)])
  obtain is3 where g6: "gen F env N (val_eff (js_eval F env ns d)) c5 (?pre @ [(BC_JUMP, [I32 0])]) is3 c6"
      "at_boundary c6 ((?pre @ [(BC_JUMP, [I32 0])]) @ is3)"
    using compilesE [OF assms(3) good_same [OF s5 g3(2)] at5] ok6 unfolding c6_def c5_def by blast
  have "length (enc ?pre) + 1 = q" unfolding b4(3) by (simp add: enc_jump_length)
  then have at: "at_boundary (patch_here c6 q) (?pre @ (BC_JUMP, over is3) # is3)"
    using at_boundary_patch [of c6 ?pre BC_JUMP 0 is3] g6(2) by simp
  let ?is = "is1 @ (?J, over (is2 @ [(BC_JUMP, over is3)])) # is2 @ (BC_JUMP, over is3) # is3"
  have at: "at_boundary (patch_here c6 q) (acc @ ?is)" using at by (simp add: enc_jump_length)
  have s: "same c (patch_here c6 q)"
    using same_trans [OF gen_ok(2) [OF g1(1)] same_trans [OF b2(2) same_trans [OF gen_ok(2) [OF g3(1)]
        same_trans [OF s5 patch_same [OF gen_ok(2) [OF g6(1)]]]]]] .
  have sub: "prefix (c_pool c3) (c_pool c6)" "prefix (c_pool c1) (c_pool c6)"
    using same_trans [OF s5 gen_ok(2) [OF g6(1)]] same_trans [OF b2(2) same_trans [OF gen_ok(2) [OF g3(1)]
        same_trans [OF s5 gen_ok(2) [OF g6(1)]]]] by (simp_all add: same_def)
  have "runs F env pool N ?is (seq_eff (val_eff (js_eval F env ns a)) (if_eff (val_eff (js_eval F env ns b)) (val_eff (js_eval F env ns d))))"
    if pool: "prefix (c_pool (patch_here c6 q)) pool" and off: "offset_ok ?is" for pool
  proof -
    have o: "offset_ok is1" "offset_ok is2" "offset_ok is3" "offset_ok (is2 @ [(BC_JUMP, over is3)])"
      using off by (simp_all add: offset_ok_def)
    have p6: "prefix (c_pool c6) pool" using pool by simp
    have r1: "runs F env pool N is1 (val_eff (js_eval F env ns a))"
      and r2: "runs F env pool N is2 (val_eff (js_eval F env ns b))"
      and r3: "runs F env pool N is3 (val_eff (js_eval F env ns d))"
      using g1(1) g3(1) g6(1) o prefix_order.trans [OF sub(1) p6] prefix_order.trans [OF sub(2) p6] p6 by (simp_all add: gen_def)
    have "runs F env pool N ((is2 @ [(BC_JUMP, over is3)]) @ is3) (val_eff (js_eval F env ns b))"
      using runs_append [OF r2 runs_jump_over [OF o(3) r3]] by (simp add: seq_Go)
    from runs_append [OF r1 runs_if [OF o(4) this r3]] show ?thesis .
  qed
  then have "gen F env N (seq_eff (val_eff (js_eval F env ns a)) (if_eff (val_eff (js_eval F env ns b)) (val_eff (js_eval F env ns d))))
      c acc ?is (patch_here c6 q)"
    using at s g6(1) by (simp add: gen_def)
  moreover have "val_eff (js_eval F env ns ?n) =
      seq_eff (val_eff (js_eval F env ns a)) (if_eff (val_eff (js_eval F env ns b)) (val_eff (js_eval F env ns d)))"
    unfolding cond_seq by (intro val_effI) (simp add: js_eval.simps [of F env ns ?n])
  ultimately show "\<exists>is. gen F env N (val_eff (js_eval F env ns ?n)) c acc is (cexpr_node (cexpr E) E c ?n)"
    unfolding n by metis
qed

text \<open>\<open>x++\<close> and its relatives on a slot.\<close>

lemma incdec_effects:
  assumes "i < N" "length (st_locals \<sigma>) = N"
  shows "seq_eff (seq_eff (inc_eff F env i) pop_eff) (load_eff i) (st, \<sigma>) = val_eff (eval_incdec F env True True i) (st, \<sigma>)"
    "inc_eff F env i (st, \<sigma>) = val_eff (eval_incdec F env True False i) (st, \<sigma>)"
    "seq_eff (seq_eff (seq_eff (seq_eff (seq_eff (load_eff i) (unary_eff (unary_fun env BC_POS))) (push_eff (LR_INT32 1)))
       (binop_eff F env SUB)) dup_eff) (store_eff i) (st, \<sigma>) = val_eff (eval_incdec F env False True i) (st, \<sigma>)"
    "seq_eff (seq_eff (seq_eff (seq_eff (seq_eff (load_eff i) (unary_eff (unary_fun env BC_POS))) dup_eff) (push_eff (LR_INT32 1)))
       (binop_eff F env SUB)) (store_eff i) (st, \<sigma>) = val_eff (eval_incdec F env False False i) (st, \<sigma>)"
proof -
  let ?inc = "take_op (inc_value F (store_env env \<sigma>) (st_locals \<sigma> ! i)) \<sigma>"
  show "seq_eff (seq_eff (inc_eff F env i) pop_eff) (load_eff i) (st, \<sigma>) = val_eff (eval_incdec F env True True i) (st, \<sigma>)"
  proof (cases ?inc)
    case (Go y)
    obtain w \<sigma>' where y: "?inc = Go (w, \<sigma>')" using Go by (cases y) simp
    then have "i < length (st_locals \<sigma>')" using assms take_op_locals by metis
    then show ?thesis using y by (simp add: seq_eff_Pair eff_defs val_eff_def eval_incdec_def)
  qed (simp add: seq_eff_Pair eff_defs val_eff_def eval_incdec_def)
  show "inc_eff F env i (st, \<sigma>) = val_eff (eval_incdec F env True False i) (st, \<sigma>)"
    by (cases ?inc) (auto simp: eff_defs val_eff_def eval_incdec_def Let_def)
  have pos: "unary_fun env BC_POS \<sigma> v = bcv_number (bcv_to_number env v)" for v
    by (simp add: unary_fun_def) (simp add: bc_opcode_defs)
  let ?u = "bcv_number (bcv_to_number env (st_locals \<sigma> ! i))"
  let ?dec = "take_op (vm_binop F (store_env env \<sigma>) SUB ?u (LR_INT32 1)) \<sigma>"
  show "seq_eff (seq_eff (seq_eff (seq_eff (seq_eff (load_eff i) (unary_eff (unary_fun env BC_POS))) (push_eff (LR_INT32 1)))
       (binop_eff F env SUB)) dup_eff) (store_eff i) (st, \<sigma>) = val_eff (eval_incdec F env False True i) (st, \<sigma>)"
    by (cases ?dec) (auto simp: seq_eff_Pair eff_defs val_eff_def eval_incdec_def Let_def pos binop_eff_def)
  show "seq_eff (seq_eff (seq_eff (seq_eff (seq_eff (load_eff i) (unary_eff (unary_fun env BC_POS))) dup_eff) (push_eff (LR_INT32 1)))
       (binop_eff F env SUB)) (store_eff i) (st, \<sigma>) = val_eff (eval_incdec F env False False i) (st, \<sigma>)"
    by (cases ?dec) (auto simp: seq_eff_Pair eff_defs val_eff_def eval_incdec_def Let_def pos binop_eff_def)
qed

lemma emit_name_okD: "c_ok (emit_name_op c op x) \<Longrightarrow> c_ok c"
  by (cases "pool_add_str True c (str_bytes x)"; rule ccontr)
    (auto simp: emit_name_op_def pool_add_str_def emit_idx_def Let_def split: option.splits if_splits)

lemma gen_store:
  assumes "gen F env N T c acc is c1" "good N ns c1" "name_slot ns (Some x) = Some i" "c_ok (emit_idx c1 BC_STORE_LOCAL i)"
  shows "gen F env N (seq_eff T (store_eff i)) c acc (is @ [(BC_STORE_LOCAL, [U16 (int i)])]) (emit_name_op c1 BC_STORE_VAR x)"
  unfolding emit_name_slot(2) [OF assms(2,3)] gen_update
  using slot_good [OF assms(2,3)] by (intro gen_then_idx [OF assms(1)] runs_load_store assms(4)) simp_all

lemma binop_of_byte_known [simp]:
  "binop_of_byte BC_ADD = Some ADD" "binop_of_byte BC_SUB = Some SUB" "binop_of_byte BC_MUL = Some MUL"
  by code_simp+

lemma emit_one_sel [simp]: "c_ok (emit_one c) = c_ok c" "same c (emit_one c)"
  using same_trans [OF emit_sel(1) emit32_sel(1)] by (simp_all add: emit_one_def)

lemma emit_idx_ok [simp]: "c_ok (emit_idx c op i) \<longleftrightarrow> c_ok c \<and> i < 65536" 
  by (auto simp: emit_idx_def)

lemma compiles_incdec:
  assumes "op = ''++'' \<or> op = ''--''" "ident_name a = Some x" "name_slot ns (Some x) = Some i"
  shows "compiles F env N E ns (AST_UNARY op pre a)"
proof (rule compilesI)
  let ?n = "AST_UNARY op pre a"
  fix c acc
  assume c: "good N ns c" "at_boundary c acc" "c_ok c" "c_ok (cexpr_node (cexpr E) E c ?n)"
  have n: "cexpr_node (cexpr E) E c ?n = cincdec_name c (op = ''++'') pre x"
    using c(3) assms(1,2) by (auto simp: cexpr_node_def cunary_def cincdec_def)
  have ev: "val_eff (js_eval F env ns ?n) = val_eff (eval_incdec F env (op = ''++'') pre i)"
    using assms by (intro val_effI) (auto simp: js_eval.simps [of F env ns ?n])
  have i: "i < N" "N < 65536" and slot: "find_local_slot c x = Some i"
    using slot_good [OF c(1) assms(3)] find_local_good [OF c(1)] assms(3) by simp_all
  note load = emit_name_slot [OF c(1) assms(3)]
  have res: "\<exists>is. gen F env N (val_eff (js_eval F env ns ?n)) c acc is (cexpr_node (cexpr E) E c ?n)"
    if "gen F env N T c acc is (cexpr_node (cexpr E) E c ?n)"
      "\<And>st \<sigma>. length (st_locals \<sigma>) = N \<Longrightarrow> T (st, \<sigma>) = val_eff (eval_incdec F env (op = ''++'') pre i) (st, \<sigma>)" for T "is"
    using gen_cong [OF that] unfolding ev by blast
  have sub: "snd (bc_info BC_SUB) = 0" by (rule binop_byte_range(3) [of _ SUB]) simp
  show "\<exists>is. gen F env N (val_eff (js_eval F env ns ?n)) c acc is (cexpr_node (cexpr E) E c ?n)"
  proof (cases "op = ''++''")
    case True
    have inc: "gen F env N (inc_eff F env i) c acc [(BC_INC_LOCAL, [U16 (int i)])] (emit_idx c BC_INC_LOCAL i)"
      using i c by (intro gen_idx c(2) runs_self) simp_all
    show ?thesis
    proof (cases pre)
      case True
      have "gen F env N (seq_eff (seq_eff (inc_eff F env i) pop_eff) (load_eff i)) c acc
          (([(BC_INC_LOCAL, [U16 (int i)])] @ [(BC_POP, [])]) @ [(BC_LOAD_LOCAL, [U16 (int i)])])
          (emit_idx (emit True (emit_idx c BC_INC_LOCAL i) BC_POP) BC_LOAD_LOCAL i)"
        using i c by (intro gen_then_idx gen_then0 inc runs_dup_pop runs_load_store) simp_all
      then have "gen F env N (seq_eff (seq_eff (inc_eff F env i) pop_eff) (load_eff i)) c acc
          (([(BC_INC_LOCAL, [U16 (int i)])] @ [(BC_POP, [])]) @ [(BC_LOAD_LOCAL, [U16 (int i)])]) (cexpr_node (cexpr E) E c ?n)"
        using True \<open>op = ''++''\<close> slot unfolding n by (simp add: cincdec_name_def)
      then show ?thesis by (rule res) (use True \<open>op = ''++''\<close> incdec_effects(1) [OF i(1)] in simp)
    next
      case False
      then have "gen F env N (inc_eff F env i) c acc [(BC_INC_LOCAL, [U16 (int i)])] (cexpr_node (cexpr E) E c ?n)"
        using inc \<open>op = ''++''\<close> slot unfolding n by (simp add: cincdec_name_def)
      then show ?thesis by (rule res) (use False \<open>op = ''++''\<close> incdec_effects(2) [OF i(1)] in simp)
    qed
  next
    case False
    let ?l = "emit True (emit_name_op c BC_LOAD_VAR x) BC_POS"
    have pos: "gen F env N (seq_eff (load_eff i) (unary_eff (unary_fun env BC_POS))) c acc
        ([(BC_LOAD_LOCAL, [U16 (int i)])] @ [(BC_POS, [])]) ?l"
      using gen_load [OF c(1,2) assms(3)] i c load by (intro gen_then0 runs_unary_fun) simp_all
    have fin: "\<exists>is. gen F env N (seq_eff T (store_eff i)) c acc is (emit_name_op c1 BC_STORE_VAR x)"
      if "gen F env N T c acc is c1" for T "is" c1
    proof -
      have "c_ok (emit_idx c1 BC_STORE_LOCAL i)" using gen_ok(1) [OF that] i by (simp add: at_boundary_def)
      from gen_store [OF that good_gen [OF that c(1)] assms(3) this] show ?thesis ..
    qed
    show ?thesis
    proof (cases pre)
      case True
      have "gen F env N (seq_eff (seq_eff (seq_eff (seq_eff (load_eff i) (unary_eff (unary_fun env BC_POS))) (push_eff (LR_INT32 1)))
          (binop_eff F env SUB)) dup_eff) c acc
          (((([(BC_LOAD_LOCAL, [U16 (int i)])] @ [(BC_POS, [])]) @ [(BC_PUSH_INT32, [I32 1])]) @ [(BC_SUB, [])]) @ [(BC_DUP, [])])
          (emit True (emit True (emit_one ?l) BC_SUB) BC_DUP)"
        using sub by (intro gen_then0 gen_then_one pos runs_binop runs_dup_pop) simp_all
      from fin [OF this] obtain "is" where "gen F env N (seq_eff (seq_eff (seq_eff (seq_eff (seq_eff (load_eff i)
          (unary_eff (unary_fun env BC_POS))) (push_eff (LR_INT32 1))) (binop_eff F env SUB)) dup_eff) (store_eff i)) c acc is
          (cexpr_node (cexpr E) E c ?n)"
        using True False unfolding n by (auto simp: cincdec_name_def)
      then show ?thesis by (rule res) (use True False incdec_effects(3) [OF i(1)] in simp)
    next
      case np: False
      have "gen F env N (seq_eff (seq_eff (seq_eff (seq_eff (load_eff i) (unary_eff (unary_fun env BC_POS))) dup_eff)
          (push_eff (LR_INT32 1))) (binop_eff F env SUB)) c acc
          (((([(BC_LOAD_LOCAL, [U16 (int i)])] @ [(BC_POS, [])]) @ [(BC_DUP, [])]) @ [(BC_PUSH_INT32, [I32 1])]) @ [(BC_SUB, [])])
          (emit True (emit_one (emit True ?l BC_DUP)) BC_SUB)"
        using sub by (intro gen_then0 gen_then_one pos runs_binop runs_dup_pop) simp_all
      from fin [OF this] obtain "is" where "gen F env N (seq_eff (seq_eff (seq_eff (seq_eff (seq_eff (load_eff i)
          (unary_eff (unary_fun env BC_POS))) dup_eff) (push_eff (LR_INT32 1))) (binop_eff F env SUB)) (store_eff i)) c acc is
          (cexpr_node (cexpr E) E c ?n)"
        using np False unfolding n by (auto simp: cincdec_name_def)
      then show ?thesis by (rule res) (use np False incdec_effects(4) [OF i(1)] in simp)
    qed
  qed
qed

text \<open>Assignments.\<close>

lemma binop_of_byte_inv:
  assumes "binop_of_byte op = Some b"
  shows "b = ADD \<longleftrightarrow> op = BC_ADD" "b = MUL \<longleftrightarrow> op = BC_MUL"
proof -
  have r: "unat op \<in> set [26..<48]"
    using binop_byte_range(1,2) [OF assms] by (simp only: set_upt atLeastLessThan_iff) (simp add: word_le_nat_alt)
  have b: "b = binops ! (unat op - 26)" using assms by (simp add: binop_of_byte_def split: if_splits)
  have l: "list_all (\<lambda>k. (binops ! (k - 26) = ADD \<longrightarrow> k = unat BC_ADD) \<and> (binops ! (k - 26) = MUL \<longrightarrow> k = unat BC_MUL)) [26..<48]"
    by code_simp
  then have "(b = ADD \<longrightarrow> unat op = unat BC_ADD) \<and> (b = MUL \<longrightarrow> unat op = unat BC_MUL)"
    unfolding list_all_iff b using r by (rule bspec)
  then have "b = ADD \<Longrightarrow> op = BC_ADD" "b = MUL \<Longrightarrow> op = BC_MUL" by (simp_all add: word_unat_eq_iff)
  moreover have "op = BC_ADD \<Longrightarrow> b = ADD" "op = BC_MUL \<Longrightarrow> b = MUL" using assms by auto
  ultimately show "b = ADD \<longleftrightarrow> op = BC_ADD" "b = MUL \<longleftrightarrow> op = BC_MUL" by blast+
qed

definition assign_eval :: "nat \<Rightarrow> js_env \<Rightarrow> nat \<Rightarrow> binop option \<Rightarrow> (store \<Rightarrow> (lr_value \<times> store) outcome) \<Rightarrow> store \<Rightarrow> (lr_value \<times> store) outcome" where
  "assign_eval F env i b f \<sigma> =
     obind (f \<sigma>) (\<lambda>(v, \<sigma>1).
       obind (case b of None \<Rightarrow> Go (v, \<sigma>1) | Some b \<Rightarrow> take_op (assign_value F (store_env env \<sigma>1) b (st_locals \<sigma> ! i) v) \<sigma>1)
         (\<lambda>(w, \<sigma>2). Go (w, set_local i w \<sigma>2)))"

lemma assign_effects:
  shows "seq_eff (seq_eff (val_eff f) dup_eff) (store_eff i) x = val_eff (assign_eval F env i None f) x"
    and "(\<And>v \<sigma>'. f (snd x) = Go (v, \<sigma>') \<Longrightarrow> st_locals \<sigma>' ! i = st_locals (snd x) ! i) \<Longrightarrow>
      seq_eff (val_eff f) (self_eff (\<lambda>\<sigma>. assign_value F (store_env env \<sigma>) b) i) x = val_eff (assign_eval F env i (Some b) f) x"
    and "b \<noteq> ADD \<Longrightarrow> seq_eff (seq_eff (seq_eff (seq_eff (load_eff i) (val_eff f)) (binop_eff F env b)) dup_eff) (store_eff i) x =
      val_eff (assign_eval F env i (Some b) f) x"
proof -
  obtain st \<sigma> where x: "x = (st, \<sigma>)" by fastforce
  show "seq_eff (seq_eff (val_eff f) dup_eff) (store_eff i) x = val_eff (assign_eval F env i None f) x"
    by (cases "f \<sigma>") (auto simp: x seq_eff_Pair eff_defs val_eff_def assign_eval_def)
  show "seq_eff (val_eff f) (self_eff (\<lambda>\<sigma>. assign_value F (store_env env \<sigma>) b) i) x = val_eff (assign_eval F env i (Some b) f) x"
    if k: "\<And>v \<sigma>'. f (snd x) = Go (v, \<sigma>') \<Longrightarrow> st_locals \<sigma>' ! i = st_locals (snd x) ! i"
  proof (cases "f \<sigma>")
    case (Go y)
    obtain v \<sigma>1 where y: "f \<sigma> = Go (v, \<sigma>1)" using Go by (cases y) simp
    have e: "st_locals \<sigma>1 ! i = st_locals \<sigma> ! i" using k y x by simp
    show ?thesis
      by (cases "take_op (assign_value F (store_env env \<sigma>1) b (st_locals \<sigma> ! i) v) \<sigma>1")
        (auto simp: x y e seq_eff_Pair eff_defs val_eff_def assign_eval_def)
  qed (simp add: x seq_eff_Pair val_eff_def assign_eval_def)
  show "seq_eff (seq_eff (seq_eff (seq_eff (load_eff i) (val_eff f)) (binop_eff F env b)) dup_eff) (store_eff i) x =
      val_eff (assign_eval F env i (Some b) f) x" if "b \<noteq> ADD"
  proof (cases "f \<sigma>")
    case (Go y)
    obtain v \<sigma>1 where y: "f \<sigma> = Go (v, \<sigma>1)" using Go by (cases y) simp
    show ?thesis using that
      by (cases "take_op (vm_binop F (store_env env \<sigma>1) b (st_locals \<sigma> ! i) v) \<sigma>1")
        (auto simp: x y seq_eff_Pair eff_defs val_eff_def assign_eval_def assign_value_def binop_eff_def)
  qed (simp add: x seq_eff_Pair val_eff_def assign_eval_def eff_defs)
qed

lemma gen_assign_fused:
  assumes "gen F env N (val_eff f) c acc is c1" "b = ADD \<or> b = MUL" "i < N" "N < 65536"
    "\<And>\<sigma> v \<sigma>'. f \<sigma> = Go (v, \<sigma>') \<Longrightarrow> st_locals \<sigma>' ! i = st_locals \<sigma> ! i"
  shows "\<exists>is. gen F env N (val_eff (assign_eval F env i (Some b) f)) c acc is
    (emit_idx c1 (if b = ADD then BC_ADD_SELF else BC_MUL_SELF) i)"
proof -
  let ?op = "if b = ADD then BC_ADD_SELF else BC_MUL_SELF"
  have "runs F env pool N [(?op, [U16 (int i)])] (self_eff (\<lambda>\<sigma>. assign_value F (store_env env \<sigma>) b) i)" for pool
    using assms(2) runs_self(1,2) [OF assms(3,4)] by (auto simp: assign_value_def)
  moreover have "c_ok c1" using gen_ok(1) [OF assms(1)] by (simp add: at_boundary_def)
  ultimately have "gen F env N (seq_eff (val_eff f) (self_eff (\<lambda>\<sigma>. assign_value F (store_env env \<sigma>) b) i)) c acc
      (is @ [(?op, [U16 (int i)])]) (emit_idx c1 ?op i)"
    using assms(3,4) by (intro gen_then_idx [OF assms(1)]) simp_all
  then have "gen F env N (val_eff (assign_eval F env i (Some b) f)) c acc (is @ [(?op, [U16 (int i)])]) (emit_idx c1 ?op i)"
    by (rule gen_cong) (rule assign_effects(2), simp add: assms(5))
  then show ?thesis ..
qed

lemma assign_node:
  assumes "c_ok c" "good N ns c" "ident_name tgt = Some x" "name_slot ns (Some x) = Some i" "assign_parts op x val = Some (b, e)"
  shows "cexpr_node (cexpr E) E c (AST_ASSIGN op tgt val) =
    (case b of
       None \<Rightarrow> emit_name_op (emit True (cexpr E c e) BC_DUP) BC_STORE_VAR x
     | Some d \<Rightarrow>
         if d = ADD \<or> d = MUL then update_stack (emit_idx (cexpr E c e) (if d = ADD then BC_ADD_SELF else BC_MUL_SELF) i) 0
         else emit_name_op (emit True (emit True (cexpr E (emit_name_op c BC_LOAD_VAR x) e) (compound_op op)) BC_DUP) BC_STORE_VAR x)"
proof -
  have slot: "find_local_slot c x = Some i" using find_local_good [OF assms(2)] assms(4) by simp
  have tgt: "tgt \<noteq> AST_NONE" using assms(3) by (auto simp: ident_name_def)
  show ?thesis
  proof (cases "op = ''=''")
    case True
    then show ?thesis using assms tgt slot
      by (auto simp: cexpr_node_def cassign_def Let_def assign_parts_def cassign_name_def split: option.splits)
  next
    case False
    then obtain d where d: "binop_of_byte (compound_op op) = Some d" "b = Some d" "e = val"
      using assms(5) by (auto simp: assign_parts_def split: option.splits)
    have "compound_op op \<noteq> BC_NOP" using binop_byte_range(1) [OF d(1)] by (auto simp: bc_opcode_defs word_le_nat_alt)
    then show ?thesis using assms tgt slot False d binop_of_byte_inv [OF d(1)]
      by (simp add: cexpr_node_def cassign_def Let_def ccompound_name_def)
  qed
qed

lemma assign_value_eval:
  assumes "ident_name tgt = Some x" "name_slot ns (Some x) = Some i" "assign_parts op x val = Some (b, e)"
  shows "val_eff (js_eval F env ns (AST_ASSIGN op tgt val)) = val_eff (assign_eval F env i b (js_eval F env ns e))"
  using assms by (intro val_effI) (simp add: js_eval.simps [of F env ns "AST_ASSIGN op tgt val"] assign_eval_def)

lemma compiles_assign:
  assumes "ident_name tgt = Some x" "name_slot ns (Some x) = Some i" "assign_parts op x val = Some (b, e)"
    and "b = Some ADD \<or> b = Some MUL \<longrightarrow> \<not> assigns x e" "compilable ns e" "compiles F env N E ns e"
  shows "compiles F env N E ns (AST_ASSIGN op tgt val)"
proof (rule compilesI)
  let ?n = "AST_ASSIGN op tgt val" and ?f = "js_eval F env ns e"
  fix c acc
  assume c: "good N ns c" "at_boundary c acc" "c_ok c" "c_ok (cexpr_node (cexpr E) E c ?n)"
  note n = assign_node [OF c(3,1) assms(1-3), of E]
  note i = slot_good [OF c(1) assms(2)]
  have fin: "\<exists>is. gen F env N (seq_eff T (store_eff i)) c acc is (emit_name_op c1 BC_STORE_VAR x)"
    if "gen F env N T c acc is c1" for T "is" c1
  proof -
    have "c_ok (emit_idx c1 BC_STORE_LOCAL i)" using gen_ok(1) [OF that] i by (simp add: at_boundary_def)
    from gen_store [OF that good_gen [OF that c(1)] assms(2) this] show ?thesis ..
  qed
  show "\<exists>is. gen F env N (val_eff (js_eval F env ns ?n)) c acc is (cexpr_node (cexpr E) E c ?n)"
    unfolding assign_value_eval [OF assms(1-3)]
  proof (cases b)
    case None
    then have k: "cexpr_node (cexpr E) E c ?n = emit_name_op (emit True (cexpr E c e) BC_DUP) BC_STORE_VAR x" using n by simp
    have "c_ok (cexpr E c e)" using c(4) unfolding k by (auto dest: emit_name_okD)
    from compilesE [OF assms(6) c(1,2) this] obtain is1 where g: "gen F env N (val_eff ?f) c acc is1 (cexpr E c e)" .
    have "gen F env N (seq_eff (val_eff ?f) dup_eff) c acc (is1 @ [(BC_DUP, [])]) (emit True (cexpr E c e) BC_DUP)"
      by (intro gen_then0 [OF g] runs_dup_pop) simp_all
    from fin [OF this] show "\<exists>is. gen F env N (val_eff (assign_eval F env i b ?f)) c acc is (cexpr_node (cexpr E) E c ?n)"
      unfolding k None using assign_effects(1) by (blast intro: gen_cong)
  next
    case (Some d)
    show "\<exists>is. gen F env N (val_eff (assign_eval F env i b ?f)) c acc is (cexpr_node (cexpr E) E c ?n)"
    proof (cases "d = ADD \<or> d = MUL")
      case True
      then have k: "cexpr_node (cexpr E) E c ?n =
          update_stack (emit_idx (cexpr E c e) (if d = ADD then BC_ADD_SELF else BC_MUL_SELF) i) 0" using n Some by auto
      have "c_ok (cexpr E c e)" using c(4) unfolding k by simp
      from compilesE [OF assms(6) c(1,2) this] obtain is1 where g: "gen F env N (val_eff ?f) c acc is1 (cexpr E c e)" .
      have "st_locals \<sigma>' ! i = st_locals \<sigma> ! i" if "?f \<sigma> = Go (v, \<sigma>')" for \<sigma> v \<sigma>'
        using js_eval_keeps [OF assms(5) _ assms(2) that] assms(4) Some True by blast
      from gen_assign_fused [OF g True i [THEN conjunct1] i [THEN conjunct2] this] show ?thesis unfolding k Some by simp
    next
      case False
      let ?l = "emit_name_op c BC_LOAD_VAR x"
      have d: "binop_of_byte (compound_op op) = Some d"
        using assms(3) Some False by (auto simp: assign_parts_def split: if_splits option.splits)
      have k: "cexpr_node (cexpr E) E c ?n =
          emit_name_op (emit True (emit True (cexpr E ?l e) (compound_op op)) BC_DUP) BC_STORE_VAR x" using n Some False by simp
      have ok: "c_ok (cexpr E ?l e)" using c(4) unfolding k by (auto dest: emit_name_okD)
      have l: "gen F env N (load_eff i) c acc [(BC_LOAD_LOCAL, [U16 (int i)])] ?l"
        unfolding emit_name_slot(1) [OF c(1) assms(2)] gen_update using i c(3) by (intro gen_load [OF c(1,2) assms(2)]) simp
      from compilesE [OF assms(6) good_gen [OF l c(1)] gen_ok(1) [OF l] ok] obtain is1
        where g: "gen F env N (val_eff ?f) ?l (acc @ [(BC_LOAD_LOCAL, [U16 (int i)])]) is1 (cexpr E ?l e)" .
      have "gen F env N (seq_eff (seq_eff (seq_eff (load_eff i) (val_eff ?f)) (binop_eff F env d)) dup_eff) c acc
          ((([(BC_LOAD_LOCAL, [U16 (int i)])] @ is1) @ [(compound_op op, [])]) @ [(BC_DUP, [])])
          (emit True (emit True (cexpr E ?l e) (compound_op op)) BC_DUP)"
        by (intro gen_then0 gen_seq [OF l g] runs_binop [OF d] plain_binop [OF d] binop_byte_range(3) [OF d] runs_dup_pop) simp_all
      from fin [OF this] show ?thesis unfolding k Some using assign_effects(3) False by (blast intro: gen_cong)
    qed
  qed
qed

text \<open>Sequences and templates.\<close>

lemma cseq_okD: "c_ok (cseq (cexpr E) c es) \<Longrightarrow> c_ok c"
proof (induction es arbitrary: c)
  case (Cons e es)
  then show ?case
  proof (cases es)
    case Nil
    then show ?thesis using Cons.prems cexpr_okD by auto
  next
    case (Cons e' es')
    then have "c_ok (emit True (cexpr E c e) BC_POP)" using Cons.IH [of "emit True (cexpr E c e) BC_POP"] Cons.prems by simp
    then show ?thesis using cexpr_okD by simp
  qed
qed simp

lemma pop_seq: "seq_eff (seq_eff (val_eff f) pop_eff) (val_eff g) = val_eff (\<lambda>\<sigma>. obind (f \<sigma>) (\<lambda>(v, \<sigma>1). g \<sigma>1))"
proof
  fix x :: "lr_value list \<times> store"
  show "seq_eff (seq_eff (val_eff f) pop_eff) (val_eff g) x = val_eff (\<lambda>\<sigma>. obind (f \<sigma>) (\<lambda>(v, \<sigma>1). g \<sigma>1)) x"
    by (cases x; cases "f (snd x)") (auto simp: seq_eff_Pair pop_eff_def val_eff_def)
qed

lemma gen_cseq:
  assumes "\<And>e. e \<in> set es \<Longrightarrow> compiles F env N E ns e" "good N ns c" "at_boundary c acc" "c_ok (cseq (cexpr E) c es)"
  shows "\<exists>is. gen F env N (val_eff (eval_seq (js_eval F env ns) es)) c acc is (cseq (cexpr E) c es)"
  using assms
proof (induction es arbitrary: c acc)
  case Nil
  have "gen F env N (push_eff LR_UNDEFINED) c acc [(BC_PUSH_UNDEFINED, [])] (emit True c BC_PUSH_UNDEFINED)"
    using Nil.prems by (intro gen_emit0 runs_constants) (simp_all add: no_add_def)
  then show ?case unfolding push_val by (auto cong: val_effI)
next
  case (Cons e es)
  show ?case
  proof (cases es)
    case Nil
    have "val_eff (eval_seq (js_eval F env ns) [e]) = val_eff (js_eval F env ns e)" by (intro val_effI) simp
    then show ?thesis using Nil compilesE [OF Cons.prems(1) Cons.prems(2,3)] Cons.prems(4) by auto
  next
    case (Cons e' es')
    let ?c1 = "emit True (cexpr E c e) BC_POP"
    have k: "cseq (cexpr E) c (e # es) = cseq (cexpr E) ?c1 es" using Cons by simp
    have ok: "c_ok (cseq (cexpr E) ?c1 es)" using Cons.prems(4) k by simp
    have "c_ok (cexpr E c e)" using cseq_okD [OF ok] by simp
    from compilesE [OF Cons.prems(1) Cons.prems(2,3) this] obtain is1
      where g1: "gen F env N (val_eff (js_eval F env ns e)) c acc is1 (cexpr E c e)" by auto
    have g: "gen F env N (seq_eff (val_eff (js_eval F env ns e)) pop_eff) c acc (is1 @ [(BC_POP, [])]) ?c1"
      by (intro gen_then0 [OF g1] runs_dup_pop) simp_all
    obtain is2 where "gen F env N (val_eff (eval_seq (js_eval F env ns) es)) ?c1 (acc @ is1 @ [(BC_POP, [])]) is2 (cseq (cexpr E) ?c1 es)"
      using Cons.IH [OF _ good_gen [OF g Cons.prems(2)] gen_ok(1) [OF g] ok] Cons.prems(1) by auto
    from gen_seq [OF g this] have "\<exists>is. gen F env N (val_eff (\<lambda>\<sigma>. obind (js_eval F env ns e \<sigma>) (\<lambda>(v, \<sigma>1). eval_seq (js_eval F env ns) es \<sigma>1)))
        c acc is (cseq (cexpr E) c (e # es))" unfolding pop_seq k by blast
    moreover have "val_eff (eval_seq (js_eval F env ns) (e # es)) =
        val_eff (\<lambda>\<sigma>. obind (js_eval F env ns e \<sigma>) (\<lambda>(v, \<sigma>1). eval_seq (js_eval F env ns) es \<sigma>1))"
      using Cons by (intro val_effI) simp
    ultimately show ?thesis by simp
  qed
qed

lemma compiles_sequence:
  assumes "\<And>e. e \<in> set es \<Longrightarrow> compiles F env N E ns e"
  shows "compiles F env N E ns (AST_SEQUENCE es)"
proof (rule compilesI)
  let ?n = "AST_SEQUENCE es"
  fix c acc
  assume c: "good N ns c" "at_boundary c acc" "c_ok c" "c_ok (cexpr_node (cexpr E) E c ?n)"
  have n: "cexpr_node (cexpr E) E c ?n = cseq (cexpr E) c es" using c(3) by (simp add: cexpr_node_def)
  have "val_eff (js_eval F env ns ?n) = val_eff (eval_seq (js_eval F env ns) es)"
    by (intro val_effI) (simp add: js_eval.simps [of F env ns ?n])
  then show "\<exists>is. gen F env N (val_eff (js_eval F env ns ?n)) c acc is (cexpr_node (cexpr E) E c ?n)"
    using gen_cseq [OF assms c(1,2)] c(4) unfolding n by simp
qed

lemma emit_push_string_okD: "c_ok (emit_push_string (emit True c op) s) \<Longrightarrow> c_ok c"
  by (cases "pool_add_str True (emit True c op) s"; rule ccontr)
    (auto simp: emit_push_string_def pool_add_str_def emit_idx_def)

lemma ctemplate_loop_okD: "c_ok (ctemplate_loop (cexpr E) c parts es) \<Longrightarrow> c_ok c"
proof (induction es arbitrary: c parts)
  case (Cons e es)
  show ?case using Cons.IH [OF Cons.prems [unfolded ctemplate_loop.simps Let_def]] cexpr_okD [of E c e]
    by (auto split: if_splits dest!: emit_push_string_okD)
qed simp

lemma plus_seq:
  "seq_eff (seq_eff (val_eff f) (val_eff g)) (binop_eff F env ADD) =
    val_eff (\<lambda>\<sigma>. obind (f \<sigma>) (\<lambda>(v, \<sigma>1). obind (g \<sigma>1) (\<lambda>(w, \<sigma>2). js_plus F env v w \<sigma>2)))"
  unfolding binop_seq js_plus_def ..

lemma gen_ctemplate_loop:
  assumes "\<And>e. e \<in> set es \<Longrightarrow> compiles F env N E ns e" "good N ns c0"
    "gen F env N (val_eff f) c0 acc is c" "c_ok (ctemplate_loop (cexpr E) c parts es)"
  shows "\<exists>js. gen F env N (val_eff (\<lambda>\<sigma>. obind (f \<sigma>) (\<lambda>(v, \<sigma>1). eval_template F env (js_eval F env ns) parts es v \<sigma>1)))
    c0 acc js (ctemplate_loop (cexpr E) c parts es)"
  using assms
proof (induction es arbitrary: c parts f "is")
  case Nil
  have "val_eff (\<lambda>\<sigma>. obind (f \<sigma>) (\<lambda>(v, \<sigma>1). eval_template F env (js_eval F env ns) parts [] v \<sigma>1)) = val_eff f"
    by (intro val_effI) (simp add: obind_def split: outcome.split)
  then show ?case using Nil.prems(3) by auto
next
  case (Cons e es)
  let ?c1 = "emit True (cexpr E c e) BC_ADD" and ?ck = "cooked parts"
  let ?c2 = "if ?ck \<noteq> [] then emit True (emit_push_string ?c1 ?ck) BC_ADD else ?c1"
  let ?f1 = "\<lambda>\<sigma>. obind (f \<sigma>) (\<lambda>(v, \<sigma>1). obind (js_eval F env ns e \<sigma>1) (\<lambda>(w, \<sigma>2). js_plus F env v w \<sigma>2))"
  let ?f2 = "\<lambda>\<sigma>. obind (?f1 \<sigma>) (\<lambda>(x, \<sigma>2). if ?ck = [] then Go (x, \<sigma>2) else js_plus F env x (LR_STRING ?ck) \<sigma>2)"
  have k: "ctemplate_loop (cexpr E) c parts (e # es) = ctemplate_loop (cexpr E) ?c2 (tl parts) es"
    by (simp add: Let_def cooked_def)
  have ok: "c_ok (ctemplate_loop (cexpr E) ?c2 (tl parts) es)" using Cons.prems(4) unfolding k .
  have ok2: "c_ok ?c2" by (rule ctemplate_loop_okD [OF ok])
  then have "c_ok (cexpr E c e)" by (auto split: if_splits dest!: emit_push_string_okD)
  from compilesE [OF Cons.prems(1) good_gen [OF Cons.prems(3,2)] gen_ok(1) [OF Cons.prems(3)] this] obtain is1
    where g1: "gen F env N (val_eff (js_eval F env ns e)) c (acc @ is) is1 (cexpr E c e)" by auto
  have add: "snd (bc_info BC_ADD) = 0" by (rule binop_byte_range(3) [of _ ADD]) simp
  have g: "gen F env N (val_eff ?f1) c0 acc ((is @ is1) @ [(BC_ADD, [])]) ?c1"
    unfolding plus_seq [symmetric] by (intro gen_then0 gen_seq [OF Cons.prems(3) g1] runs_binop add) simp_all
  have "\<exists>is2. gen F env N (val_eff ?f2) c0 acc is2 ?c2"
  proof (cases "?ck = []")
    case True
    have "val_eff ?f2 = val_eff ?f1" using True by (intro val_effI) (simp add: case_prod_eta obind_def split: outcome.split)
    then show ?thesis using g True by auto
  next
    case False
    have "c_ok (emit_push_string ?c1 ?ck)" using ok2 False by simp
    from gen_push_string [OF gen_ok(1) [OF g] this] obtain is2
      where p: "gen F env N (push_eff (LR_STRING ?ck)) ?c1 (acc @ (is @ is1) @ [(BC_ADD, [])]) is2 (emit_push_string ?c1 ?ck)" by blast
    have "gen F env N (seq_eff (seq_eff (val_eff ?f1) (push_eff (LR_STRING ?ck))) (binop_eff F env ADD)) c0 acc
        ((((is @ is1) @ [(BC_ADD, [])]) @ is2) @ [(BC_ADD, [])]) (emit True (emit_push_string ?c1 ?ck) BC_ADD)"
      by (intro gen_then0 gen_seq [OF g p] runs_binop add) simp_all
    moreover have "seq_eff (seq_eff (val_eff ?f1) (push_eff (LR_STRING ?ck))) (binop_eff F env ADD) = val_eff ?f2"
      unfolding push_val plus_seq using False by (intro val_effI) simp
    ultimately show ?thesis using False by auto
  qed
  then obtain is2 where g2: "gen F env N (val_eff ?f2) c0 acc is2 ?c2" ..
  have "val_eff (\<lambda>\<sigma>. obind (f \<sigma>) (\<lambda>(v, \<sigma>1). eval_template F env (js_eval F env ns) parts (e # es) v \<sigma>1)) =
      val_eff (\<lambda>\<sigma>. obind (?f2 \<sigma>) (\<lambda>(v, \<sigma>1). eval_template F env (js_eval F env ns) (tl parts) es v \<sigma>1))"
    by (intro val_effI) (simp add: obind_assoc [symmetric] case_prod_unfold)
  then show ?case unfolding k using Cons.IH [OF _ Cons.prems(2) g2 ok] Cons.prems(1) by simp
qed

lemma compiles_template:
  assumes "\<And>e. e \<in> set es \<Longrightarrow> compiles F env N E ns e"
  shows "compiles F env N E ns (AST_TEMPLATE AST_NONE parts es)"
proof (rule compilesI)
  let ?n = "AST_TEMPLATE AST_NONE parts es"
  fix c acc
  assume c: "good N ns c" "at_boundary c acc" "c_ok c" "c_ok (cexpr_node (cexpr E) E c ?n)"
  let ?c1 = "emit_push_string c (cooked parts)"
  have n: "cexpr_node (cexpr E) E c ?n = ctemplate_loop (cexpr E) ?c1 (tl parts) es"
    using c(3) by (simp add: cexpr_node_def ctemplate_def cooked_def)
  have ok: "c_ok (ctemplate_loop (cexpr E) ?c1 (tl parts) es)" using c(4) unfolding n .
  obtain is1 where g: "gen F env N (val_eff (\<lambda>\<sigma>. Go (LR_STRING (cooked parts), \<sigma>))) c acc is1 ?c1"
    using gen_push_string [OF c(2) ctemplate_loop_okD [OF ok]] unfolding push_val by blast
  have "val_eff (js_eval F env ns ?n) = val_eff (\<lambda>\<sigma>. obind (Go (LR_STRING (cooked parts), \<sigma>))
      (\<lambda>(v, \<sigma>1). eval_template F env (js_eval F env ns) (tl parts) es v \<sigma>1))"
    by (intro val_effI) (simp add: js_eval.simps [of F env ns ?n])
  then show "\<exists>is. gen F env N (val_eff (js_eval F env ns ?n)) c acc is (cexpr_node (cexpr E) E c ?n)"
    using gen_ctemplate_loop [OF assms c(1) g ok] unfolding n by simp
qed

section \<open>The theorem\<close>

lemma compilable_compiles: "compilable ns n \<Longrightarrow> compiles F env N E ns n"
proof (induction n rule: measure_induct_rule [where f = size])
  case (less n)
  have IH: "compiles F env N E ns m" if "size m < size n" "compilable ns m" for m using less.IH that by blast
  from less.prems show ?case
  proof (cases rule: compilable_cases)
    case (literal lit v)
    then show ?thesis using compiles_literal by simp
  next
    case (name x i)
    then show ?thesis using compiles_name by simp
  next
    case (logical op j l r)
    then show ?thesis using compiles_logical [OF logical(2) IH IH] by simp
  next
    case (binary op b l r)
    then show ?thesis using compiles_binary [OF binary(2-4) IH IH] by simp
  next
    case (incdec op pre a x i)
    then show ?thesis using compiles_incdec by simp
  next
    case (unary op pre a u)
    then show ?thesis using compiles_unary [OF IH unary(2,5,4)] by simp
  next
    case (conditional a b d)
    then show ?thesis using compiles_conditional [OF IH IH IH] by simp
  next
    case (conversion callee a u)
    then show ?thesis using compiles_conversion [OF IH] by simp
  next
    case (assign op tgt val x i b e)
    have "size e < size n" using assign(1) assign_parts_size [OF assign(4)] by simp
    from IH [OF this assign(6)] show ?thesis unfolding assign(1) by (rule compiles_assign [OF assign(2-6)])
  next
    case (sequence es)
    have "compiles F env N E ns e" if "e \<in> set es" for e using that sequence size_member [OF that] by (intro IH) simp_all
    then show ?thesis unfolding sequence(1) by (rule compiles_sequence)
  next
    case (template parts es)
    have "compiles F env N E ns e" if "e \<in> set es" for e using that template size_member [OF that] by (intro IH) simp_all
    then show ?thesis unfolding template(1) by (rule compiles_template)
  qed
qed

text \<open>A program that evaluates one expression over the locals \<open>ns\<close> and returns its value.\<close>

definition compile_result :: "comp_env \<Rightarrow> string list \<Rightarrow> ast \<Rightarrow> bc_comp" where
  "compile_result E ns n = emit True (emit True (cexpr E (bc_comp_init\<lparr>c_locals := ns\<rparr>) n) BC_SET_RESULT) BC_STOP"

lemma compile_result_code:
  assumes "gen F env N T (bc_comp_init\<lparr>c_locals := ns\<rparr>) [] is (cexpr E (bc_comp_init\<lparr>c_locals := ns\<rparr>) n)"
  shows "c_code (compile_result E ns n) = enc is @ enc_insn (BC_SET_RESULT, []) @ enc_insn (BC_STOP, [])"
    "c_pool (compile_result E ns n) = c_pool (cexpr E (bc_comp_init\<lparr>c_locals := ns\<rparr>) n)"
proof -
  let ?c = "bc_comp_init\<lparr>c_locals := ns\<rparr>"
  have ops: "BC_SET_RESULT \<noteq> BC_ADD" "BC_STOP \<noteq> BC_ADD" by (simp_all add: bc_opcode_defs)
  have e: "emit True d op = emit_insn True (op, []) d" for d op by (simp add: emit_insn_forms)
  have a1: "at_boundary (emit True (cexpr E ?c n) BC_SET_RESULT) (([] @ is) @ [(BC_SET_RESULT, [])])"
    unfolding e using ops by (intro at_boundary_emit gen_ok(1) [OF assms]) (simp_all add: insn_typed_kinds no_add_def)
  have "at_boundary (compile_result E ns n) ((([] @ is) @ [(BC_SET_RESULT, [])]) @ [(BC_STOP, [])])"
    unfolding compile_result_def e [of "emit True _ _"]
    using ops by (intro at_boundary_emit a1) (simp_all add: insn_typed_kinds no_add_def)
  from at_boundary_enc [OF this]
  show "c_code (compile_result E ns n) = enc is @ enc_insn (BC_SET_RESULT, []) @ enc_insn (BC_STOP, [])" by simp
  show "c_pool (compile_result E ns n) = c_pool (cexpr E ?c n)" by (simp add: compile_result_def)
qed

lemma vm_exec_end:
  "vm_exec F env pool BC_SET_RESULT [] s = (Vm_run, (vm_drop s)\<lparr>v_result := vm_top s\<rparr>)"
  "vm_exec F env pool BC_STOP [] s = (Vm_done, s)"
  by (simp_all only: vm_exec_def list.case vm_exec0_def bc_opcode_defs) simp_all

text \<open>What a run of a compiled program gives, for an evaluation that ends in \<open>r\<close>.\<close>

definition execution_gives ::
  "js_env \<Rightarrow> bc_comp \<Rightarrow> vm \<Rightarrow> (lr_value \<times> store) outcome \<Rightarrow> bool" where
  "execution_gives env P s r \<longleftrightarrow>
     (case r of
        Go (v, \<sigma>) \<Rightarrow> \<exists>t k. v_result t = v \<and> store_of t = \<sigma> \<and> v_stack t = v_stack s \<and>
          (\<forall>m\<ge>k. bc_execute m env (c_pool P) (c_code P) s = Some (Vm_done, t))
      | Halt st \<Rightarrow> st \<noteq> Vm_out \<longrightarrow> (\<exists>t k. \<forall>m\<ge>k. bc_execute m env (c_pool P) (c_code P) s = Some (st, t)))"

lemma gen_execution:
  assumes g: "gen F env (length (v_locals s)) (val_eff f) (bc_comp_init\<lparr>c_locals := ns\<rparr>) [] is (cexpr E (bc_comp_init\<lparr>c_locals := ns\<rparr>) n)"
    and len: "length (c_code (compile_result E ns n)) < 2 ^ 31" and pc0: "v_pc s = 0"
  shows "execution_gives env (compile_result E ns n) s (f (store_of s))"
proof -
  let ?P = "compile_result E ns n"
  let ?code = "c_code ?P" and ?pool = "c_pool ?P"
  note code = compile_result_code(1) [OF g] and pool = compile_result_code(2) [OF g]
  have "offset_ok is" using len unfolding code offset_ok_def by simp
  then have r: "runs F env ?pool (length (v_locals s)) is (val_eff (f))" using g unfolding pool by (simp add: gen_def)
  have pc: "v_pc s = int (length ([] :: bytes))" using pc0 by simp
  let ?post = "enc_insn (BC_SET_RESULT, []) @ enc_insn (BC_STOP, [])"
  show ?thesis
  proof (cases "f (store_of s)")
    case (Halt q)
    then have "stops F env ?pool ?code s q"
      using runsD(3) [OF r pc refl, of q ?post] unfolding code by (simp add: val_eff_def)
    then obtain t where t: "q \<noteq> Vm_run" "goes F env ?pool ?code s t" "fst (vm_step F env ?pool ?code t) = q"
      unfolding stops_def by blast
    have "\<exists>u k. \<forall>m\<ge>k. bc_execute m env ?pool ?code s = Some (q, u)" if "q \<noteq> Vm_out"
      using goes_bc_execute [OF t(2) _ t(1) that, of "snd (vm_step F env ?pool ?code t)"] t(3) by (metis prod.collapse)
    then show ?thesis using Halt by (simp add: execution_gives_def)
  next
    case (Go y)
    obtain v \<sigma> where y: "f (store_of s) = Go (v, \<sigma>)" using Go by (cases y) simp
    let ?t = "goto (length (enc is)) (put (v # v_stack s) \<sigma> s)"
    have one: "goes F env ?pool ?code s ?t"
      using runsD(2) [OF r pc refl, of "v # v_stack s" \<sigma> ?post] y unfolding code by (simp add: val_eff_def)
    let ?u = "goto (length (enc is) + 1) (put (v_stack s) \<sigma> (s\<lparr>v_result := v\<rparr>))"
    have len: "length (enc_insn (op, [])) = 1" for op by (simp add: enc_insn_def)
    have "vm_step F env ?pool ?code ?t = (Vm_run, ?u)"
      unfolding code
      by (subst vm_step_insn, simp add: insn_typed_kinds, simp, simp only: fst_conv snd_conv vm_exec_end len)
        (simp add: vm_drop_def vm_top_def goto_def put_def)
    from goes_trans [OF one goes_step [OF this]] have two: "goes F env ?pool ?code s ?u" .
    have stop: "vm_step F env ?pool ?code ?u = (Vm_done, goto (length (enc is) + 2) ?u)"
      unfolding code using vm_step_insn [of "(BC_STOP, [])" ?u "enc is @ enc_insn (BC_SET_RESULT, [])" F env ?pool "[]"]
      by (simp only: fst_conv snd_conv vm_exec_end len append_assoc append_Nil2) (simp add: insn_typed_kinds len)
    let ?w = "goto (length (enc is) + 2) ?u"
    obtain k where k: "\<forall>m\<ge>k. bc_execute m env ?pool ?code s = Some (Vm_done, ?w)"
      using goes_bc_execute [OF two stop] by auto
    have w: "v_result ?w = v" "store_of ?w = \<sigma>" "v_stack ?w = v_stack s" by simp_all
    have "\<exists>t k. v_result t = v \<and> store_of t = \<sigma> \<and> v_stack t = v_stack s \<and>
        (\<forall>m\<ge>k. bc_execute m env ?pool ?code s = Some (Vm_done, t))"
      by (rule exI [of _ ?w], rule exI [of _ k]) (use k w in blast)
    then show ?thesis unfolding y execution_gives_def by simp
  qed
qed

text \<open>(C1) The expression compiler is correct on its fragment: running the compiled code of an expression over local slots
  gives the value, the final locals and the final operand stack of the reference evaluation; an evaluation that ends in
  an abort or a trap makes the machine stop in the same way. Every amount of fuel from some point on is enough.\<close>

theorem cexpr_correct:
  assumes "compilable ns n" "length ns \<le> length (v_locals s)" "length (v_locals s) < 65536"
    "c_ok (compile_result E ns n)" "length (c_code (compile_result E ns n)) < 2 ^ 31" "v_pc s = 0"
  shows "execution_gives env (compile_result E ns n) s (js_eval F env ns n (store_of s))"
proof -
  let ?c = "bc_comp_init\<lparr>c_locals := ns\<rparr>"
  have c: "good (length (v_locals s)) ns ?c" "at_boundary ?c []"
    using assms(2,3) by (simp_all add: good_def bc_comp_init_def at_boundary_def)
  have "c_ok (cexpr E ?c n)" using assms(4) by (simp add: compile_result_def)
  from compilesE [OF compilable_compiles [OF assms(1)] c this] obtain "is"
    where "gen F env (length (v_locals s)) (val_eff (js_eval F env ns n)) ?c [] is (cexpr E ?c n)" .
  from gen_execution [OF this assms(5,6)] show ?thesis .
qed

section \<open>A sample\<close>

text \<open>\<open>x = y ? x * 2 : null\<close>\<close>

definition sample_expr :: ast where
  "sample_expr = AST_ASSIGN ''='' (AST_IDENTIFIER (Some ''x''))
     (AST_CONDITIONAL (AST_IDENTIFIER (Some ''y''))
        (AST_BINARY ''*'' (AST_IDENTIFIER (Some ''x'')) (AST_LITERAL (TOK_NUMBER 0x4000000000000000)))
        (AST_LITERAL TOK_NULL_LIT))"

definition sample_comp :: comp_env where
  "sample_comp = \<lparr>ce_addr = (\<lambda>n. 0), ce_no_fuse = False\<rparr>"

text \<open>How much the emitters append.\<close>

definition code_le :: "bc_comp \<Rightarrow> nat \<Rightarrow> bool" where
  "code_le c k \<longleftrightarrow> length (c_code c) \<le> k"

lemma code_le_emit:
  "code_le c k \<Longrightarrow> code_le (emit True c b) (Suc k)" "code_le c k \<Longrightarrow> code_le (emit16 True c v) (k + 2)"
  "code_le c k \<Longrightarrow> code_le (emit32 True c v) (k + 4)" "code_le c k \<Longrightarrow> code_le (patch_here c p) k"
  "code_le c k \<Longrightarrow> code_le (update_stack c d) k"
  by (auto simp: code_le_def emit_def emit16_def emit32_def patch_here_def patch_jump_to_def update_stack_def Let_def count_operand_def
     put_u16_def)

lemma slot_emit [simp]:
  "find_local_slot (emit True c b) = find_local_slot c" "find_local_slot (emit16 True c v) = find_local_slot c"
  "find_local_slot (emit32 True c v) = find_local_slot c" "find_local_slot (patch_here c p) = find_local_slot c"
  "find_local_slot (update_stack c d) = find_local_slot c"
proof -
  have f: "find_local_slot c' = find_local_slot c" if "same c c'" for c' using that by (intro ext) (simp add: same_def find_local_slot_def)
  then show
    "find_local_slot (emit True c b) = find_local_slot c" "find_local_slot (emit16 True c v) = find_local_slot c"
    "find_local_slot (emit32 True c v) = find_local_slot c" "find_local_slot (patch_here c p) = find_local_slot c"
    "find_local_slot (update_stack c d) = find_local_slot c" by (intro f emit_sel emit16_sel emit32_sel patch_here_same update_stack_sel)+
qed

lemma sample_slots:
  "find_local_slot (bc_comp_init\<lparr>c_locals := [''x'', ''y'']\<rparr>) ''x'' = Some 0"
  "find_local_slot (bc_comp_init\<lparr>c_locals := [''x'', ''y'']\<rparr>) ''y'' = Some 1" by code_simp+

lemma sample_literals: "int32_valued 0x4000000000000000"
  by code_simp

lemma sample_init:
  "c_ok (bc_comp_init\<lparr>c_locals := ns\<rparr>)" by (simp add: bc_comp_init_def)


lemmas c_defs = compile_result_def cexpr_unfold cexpr_node_def cassign_def Let_def cassign_name_def self_add_def
    ident_name_def emit_name_op_def sample_slots emit_idx_def cexpr_conditional_def emit_jump_def split_def cbinary_def
    cexpr_binary_def cliteral_def emit_push_number_def try_factor_cse_def binop_of_def is_ident_def sample_literals compound_op_def
    sample_init

lemma mul_nop: "BC_MUL \<noteq> BC_NOP" "BC_STORE_VAR \<noteq> BC_LOAD_VAR" by (simp_all add: BC_MUL_def BC_NOP_def BC_STORE_VAR_def BC_LOAD_VAR_def)

lemma sample_ok: "c_ok (compile_result sample_comp [''x'', ''y''] sample_expr)"
  by (simp add: c_defs mul_nop sample_expr_def)

lemma sample_len: "length (c_code (compile_result sample_comp [''x'', ''y''] sample_expr)) < 2 ^ 31"
proof -
  let ?c = "bc_comp_init\<lparr>c_locals := [''x'', ''y'']\<rparr>"
  have "code_le ?c 0" by (simp add: code_le_def bc_comp_init_def)
  note l = this
  have "\<exists>k < 100. code_le (compile_result sample_comp [''x'', ''y''] sample_expr) k"
    by (simp add: c_defs mul_nop sample_expr_def) (rule exI, rule conjI [rotated], (rule code_le_emit l)+, simp)
  then show ?thesis by (auto simp: code_le_def)
qed

definition sample_vm :: vm where
  "sample_vm = \<lparr>v_stack = [], v_locals = [LR_INT32 5, LR_BOOL True], v_bigints = Map.empty, v_next = 0,
     v_result = LR_UNDEFINED, v_pc = 0\<rparr>"

lemma sample_eval:
  "case js_eval 1 string_env [''x'', ''y''] sample_expr (store_of sample_vm) of
     Go (v, \<sigma>) \<Rightarrow> v = LR_INT32 10 \<and> st_locals \<sigma> = [LR_INT32 10, LR_BOOL True]
   | Halt r \<Rightarrow> False"
  by code_simp

theorem cexpr_correct_witness:
  "\<exists>t k. v_result t = LR_INT32 10 \<and> v_locals t = [LR_INT32 10, LR_BOOL True] \<and>
     (\<forall>m\<ge>k. bc_execute m string_env (c_pool (compile_result sample_comp [''x'', ''y''] sample_expr))
        (c_code (compile_result sample_comp [''x'', ''y''] sample_expr)) sample_vm = Some (Vm_done, t))"
proof -
  let ?P = "compile_result sample_comp [''x'', ''y''] sample_expr"
  have c: "compilable [''x'', ''y''] sample_expr" by code_simp
  have v: "length (v_locals sample_vm) = 2" "v_pc sample_vm = 0" by (simp_all add: sample_vm_def)
  have "execution_gives string_env ?P sample_vm (js_eval 1 string_env [''x'', ''y''] sample_expr (store_of sample_vm))"
    using cexpr_correct [OF c _ _ sample_ok sample_len] v by simp
  moreover obtain \<sigma> where "js_eval 1 string_env [''x'', ''y''] sample_expr (store_of sample_vm) = Go (LR_INT32 10, \<sigma>)"
      "st_locals \<sigma> = [LR_INT32 10, LR_BOOL True]"
    using sample_eval by (auto split: outcome.splits)
  ultimately show ?thesis unfolding execution_gives_def by (auto simp del: bc_execute.simps) (metis store_of_sel(1))
qed

end
