(* ===== verification/LR_Diverge.thy ===== *)
theory LR_Diverge
  imports LR_Correct
begin

text \<open>
  Expressions outside the fragment of the correctness theorem on which the compiled code and the evaluation in source
  order give different results: the factoring of \<open>a * b + a * c\<close>, and the fused update of a variable that its own right
  side assigns.
\<close>

section \<open>Factoring\<close>

abbreviation name :: "string \<Rightarrow> ast" where
  "name x \<equiv> AST_IDENTIFIER (Some x)"

definition products :: ast where
  "products = AST_BINARY ''+'' (AST_BINARY ''*'' (name ''a'') (name ''b'')) (AST_BINARY ''*'' (name ''a'') (name ''c''))"

lemma factored_slots:
  "find_local_slot (bc_comp_init\<lparr>c_locals := [''a'', ''b'', ''c'']\<rparr>) ''a'' = Some 0"
  "find_local_slot (bc_comp_init\<lparr>c_locals := [''a'', ''b'', ''c'']\<rparr>) ''b'' = Some 1"
  "find_local_slot (bc_comp_init\<lparr>c_locals := [''a'', ''b'', ''c'']\<rparr>) ''c'' = Some 2"
  by code_simp+

lemma products_factor: "try_factor_cse ''+'' (AST_BINARY ''*'' (name ''a'') (name ''b'')) (AST_BINARY ''*'' (name ''a'') (name ''c'')) =
    Some (name ''a'', name ''b'', name ''c'')"
  by code_simp

lemma add_op: "binop_of ''+'' = BC_ADD" "BC_ADD \<noteq> BC_NOP"
  by (simp add: binop_of_def, simp add: bc_opcode_defs)

lemma products_code:
  "cexpr E (bc_comp_init\<lparr>c_locals := [''a'', ''b'', ''c'']\<rparr>) products =
    update_stack (emit True (emit True (update_stack (emit_idx (update_stack (emit_idx (update_stack (emit_idx
      (bc_comp_init\<lparr>c_locals := [''a'', ''b'', ''c'']\<rparr>) BC_LOAD_LOCAL 0) 1) BC_LOAD_LOCAL 1) 1) BC_LOAD_LOCAL 2) 1)
      BC_ADD) BC_MUL) (-1)"
  by (simp add: products_def cexpr_unfold cexpr_node_def sample_init cbinary_def add_op products_factor cfactored_def
      is_num_literal_def emit_name_op_def emit_idx_def factored_slots)

definition factored_value :: "nat \<Rightarrow> js_env \<Rightarrow> store \<Rightarrow> (lr_value \<times> store) outcome" where
  "factored_value F env \<sigma> =
     (let a = st_locals \<sigma> ! 0; b = st_locals \<sigma> ! 1; c = st_locals \<sigma> ! 2 in
      obind (take_op (vm_binop F (store_env env \<sigma>) ADD b c) \<sigma>)
        (\<lambda>(v, \<sigma>1). take_op (vm_binop F (store_env env \<sigma>1) MUL a v) \<sigma>1))"

lemma init_boundary: "at_boundary (bc_comp_init\<lparr>c_locals := ns\<rparr>) []"
  by (simp add: at_boundary_def bc_comp_init_def)

lemma gen_init_load:
  assumes "i < N" "N < 65536"
  shows "gen F env N (load_eff i) (bc_comp_init\<lparr>c_locals := ns\<rparr>) [] [(BC_LOAD_LOCAL, [U16 (int i)])]
    (emit_idx (bc_comp_init\<lparr>c_locals := ns\<rparr>) BC_LOAD_LOCAL i)"
  using assms by (intro gen_idx init_boundary runs_load_store) (simp_all add: sample_init)

lemma gen_then_load:
  assumes "gen F env N T c acc is c1" "i < N" "N < 65536"
  shows "gen F env N (seq_eff T (load_eff i)) c acc (is @ [(BC_LOAD_LOCAL, [U16 (int i)])]) (emit_idx c1 BC_LOAD_LOCAL i)"
proof -
  have "c_ok c1" using gen_ok(1) [OF assms(1)] by (simp add: at_boundary_def)
  then show ?thesis using assms(2,3) by (intro gen_then_idx assms(1) runs_load_store) simp_all
qed

lemma known_kinds: "snd (bc_info BC_ADD) = 0" "snd (bc_info BC_MUL) = 0" "plain_op BC_MUL"
  using binop_byte_range(3) [of BC_ADD ADD] binop_byte_range(3) [of BC_MUL MUL] plain_binop [of BC_MUL MUL] by simp_all

lemma factored_effect:
  "seq_eff (seq_eff (seq_eff (seq_eff (load_eff 0) (load_eff 1)) (load_eff 2)) (binop_eff F env ADD)) (binop_eff F env MUL) =
    val_eff (factored_value F env)"
proof
  fix x :: "lr_value list \<times> store"
  obtain st \<sigma> where x: "x = (st, \<sigma>)" by fastforce
  show "seq_eff (seq_eff (seq_eff (seq_eff (load_eff 0) (load_eff 1)) (load_eff 2)) (binop_eff F env ADD)) (binop_eff F env MUL) x =
      val_eff (factored_value F env) x"
    by (cases "take_op (vm_binop F (store_env env \<sigma>) ADD (st_locals \<sigma> ! 1) (st_locals \<sigma> ! 2)) \<sigma>")
      (auto simp: x seq_eff_Pair load_eff_def binop_eff_def val_eff_def factored_value_def Let_def)
qed

lemma products_execution:
  assumes "length (v_locals s) = 3" "v_pc s = 0"
  shows "execution_gives env (compile_result E [''a'', ''b'', ''c''] products) s (factored_value F env (store_of s))"
proof (rule gen_execution)
  let ?c = "bc_comp_init\<lparr>c_locals := [''a'', ''b'', ''c'']\<rparr>"
  have "gen F env 3 (seq_eff (seq_eff (seq_eff (seq_eff (load_eff 0) (load_eff 1)) (load_eff 2)) (binop_eff F env ADD)) (binop_eff F env MUL))
      ?c [] ((((([(BC_LOAD_LOCAL, [U16 (int 0)])] @ [(BC_LOAD_LOCAL, [U16 (int 1)])]) @ [(BC_LOAD_LOCAL, [U16 (int 2)])])
        @ [(BC_ADD, [])])) @ [(BC_MUL, [])]) (cexpr E ?c products)"
    unfolding products_code gen_update by (intro gen_then0 gen_update [THEN iffD2] gen_then_load gen_init_load runs_binop known_kinds) simp_all
  then show "gen F env (length (v_locals s)) (val_eff (factored_value F env)) ?c [] ((((([(BC_LOAD_LOCAL, [U16 (int 0)])]
      @ [(BC_LOAD_LOCAL, [U16 (int 1)])]) @ [(BC_LOAD_LOCAL, [U16 (int 2)])]) @ [(BC_ADD, [])])) @ [(BC_MUL, [])]) (cexpr E ?c products)"
    unfolding factored_effect assms(1) .
  have "code_le ?c 0" by (simp add: code_le_def bc_comp_init_def)
  note l = this
  have "\<exists>k < 100. code_le (compile_result E [''a'', ''b'', ''c''] products) k"
    unfolding compile_result_def products_code emit_idx_def
    by (rule exI, rule conjI [rotated], (rule code_le_emit l)+, simp)
  then show "length (c_code (compile_result E [''a'', ''b'', ''c''] products)) < 2 ^ 31" by (auto simp: code_le_def)
qed (rule assms(2))

lemma products_values:
  "vm_quick MUL (LR_FLOAT64 0x7FE0000000000000) (LR_INT32 2) = Some (LR_FLOAT64 0x7FF0000000000000)"
  "vm_quick MUL (LR_FLOAT64 0x7FE0000000000000) (LR_INT32 (-2)) = Some (LR_FLOAT64 0xFFF0000000000000)"
  "vm_quick ADD (LR_FLOAT64 0x7FF0000000000000) (LR_FLOAT64 0xFFF0000000000000) = Some (LR_FLOAT64 F64_NAN)"
  "vm_quick ADD (LR_INT32 2) (LR_INT32 (-2)) = Some (LR_INT32 0)"
  "vm_quick MUL (LR_FLOAT64 0x7FE0000000000000) (LR_INT32 0) = Some (LR_FLOAT64 0)"
  by code_simp+

lemma mul_bytes: "binop_of ''*'' = BC_MUL" "logical_op ''*'' = None" "logical_op ''+'' = None"
  by (simp_all add: binop_of_def logical_op_def)

lemma products_slots:
  "name_slot [''a'', ''b'', ''c''] (Some ''a'') = Some 0" "name_slot [''a'', ''b'', ''c''] (Some ''b'') = Some 1"
  "name_slot [''a'', ''b'', ''c''] (Some ''c'') = Some 2"
  by code_simp+

lemma js_eval_name: "name_slot ns (Some x) = Some i \<Longrightarrow> js_eval F env ns (name x) \<sigma> = Go (st_locals \<sigma> ! i, \<sigma>)"
  by (subst js_eval.simps) simp

lemma js_eval_binary:
  "logical_op op = None \<Longrightarrow> binop_of_byte (binop_of op) = Some b \<Longrightarrow> js_eval F env ns (AST_BINARY op l r) \<sigma> =
    obind (js_eval F env ns l \<sigma>) (\<lambda>(x, \<sigma>1). obind (js_eval F env ns r \<sigma>1) (\<lambda>(y, \<sigma>2).
      take_op (vm_binop F (store_env env \<sigma>2) b x y) \<sigma>2))"
  by (subst js_eval.simps) simp

text \<open>(C31) \<open>a * b + a * c\<close> is compiled as \<open>a * (b + c)\<close>, which is a different number when a product overflows: with
  \<open>a = 2^1023\<close>, \<open>b = 2\<close> and \<open>c = -2\<close> the evaluation in source order gives NaN and the compiled code gives \<open>0\<close>.\<close>

theorem factoring_changes_result:
  "let s = \<lparr>v_stack = [], v_locals = [LR_FLOAT64 0x7FE0000000000000, LR_INT32 2, LR_INT32 (-2)], v_bigints = Map.empty,
      v_next = 0, v_result = LR_UNDEFINED, v_pc = 0\<rparr> in
    js_eval 1 env [''a'', ''b'', ''c''] products (store_of s) = Go (LR_FLOAT64 F64_NAN, store_of s)
    \<and> execution_gives env (compile_result E [''a'', ''b'', ''c''] products) s (Go (LR_FLOAT64 0, store_of s))"
proof -
  let ?s = "\<lparr>v_stack = [], v_locals = [LR_FLOAT64 0x7FE0000000000000, LR_INT32 2, LR_INT32 (-2)], v_bigints = Map.empty,
      v_next = 0, v_result = LR_UNDEFINED, v_pc = 0\<rparr>"
  have "js_eval 1 env [''a'', ''b'', ''c''] products (store_of ?s) = Go (LR_FLOAT64 F64_NAN, store_of ?s)"
    by (simp add: products_def js_eval_binary js_eval_name products_slots mul_bytes add_op vm_binop_def products_values take_op_def
        numeral_2_eq_2)
  moreover have "factored_value 1 env (store_of ?s) = Go (LR_FLOAT64 0, store_of ?s)"
    by (simp add: factored_value_def Let_def vm_binop_def products_values take_op_def numeral_2_eq_2)
  ultimately show ?thesis using products_execution [of ?s env E 1] by (simp add: Let_def)
qed

section \<open>Updates\<close>

text \<open>What the fused code of \<open>x = x + e\<close> does: it reads the slot of \<open>x\<close> after \<open>e\<close> has run.\<close>

definition late_update :: "nat \<Rightarrow> js_env \<Rightarrow> nat \<Rightarrow> (store \<Rightarrow> (lr_value \<times> store) outcome) \<Rightarrow> store \<Rightarrow> (lr_value \<times> store) outcome" where
  "late_update F env i f \<sigma> =
     obind (f \<sigma>) (\<lambda>(v, \<sigma>1). obind (take_op (add_value F (store_env env \<sigma>1) (st_locals \<sigma>1 ! i) v) \<sigma>1)
       (\<lambda>(w, \<sigma>2). Go (w, set_local i w \<sigma>2)))"

lemma late_effect: "seq_eff (val_eff f) (self_eff (\<lambda>\<sigma>. add_value F (store_env env \<sigma>)) i) = val_eff (late_update F env i f)"
proof
  fix x :: "lr_value list \<times> store"
  obtain st \<sigma> where x: "x = (st, \<sigma>)" by fastforce
  show "seq_eff (val_eff f) (self_eff (\<lambda>\<sigma>. add_value F (store_env env \<sigma>)) i) x = val_eff (late_update F env i f) x"
  proof (cases "f \<sigma>")
    case (Go y)
    obtain v \<sigma>1 where "y = (v, \<sigma>1)" by fastforce
    then show ?thesis using Go
      by (cases "take_op (add_value F (store_env env \<sigma>1) (st_locals \<sigma>1 ! i) v) \<sigma>1")
        (auto simp: x seq_eff_Pair val_eff_def self_eff_def late_update_def)
  qed (simp add: x seq_eff_Pair val_eff_def late_update_def)
qed

definition plus_update :: "string \<Rightarrow> ast \<Rightarrow> ast" where
  "plus_update x e = AST_ASSIGN ''='' (name x) (AST_BINARY ''+'' (name x) e)"

lemma plus_update_node:
  assumes "c_ok c" "find_local_slot c x = Some i"
  shows "cexpr E c (plus_update x e) = update_stack (emit_idx (cexpr E c e) BC_ADD_SELF i) 0"
  using assms by (subst cexpr_unfold)
    (simp add: plus_update_def cexpr_node_def cassign_def Let_def ident_name_def cassign_name_def self_add_def is_ident_def)

text \<open>The compiled \<open>x = x + e\<close> adds the value that \<open>x\<close> has after \<open>e\<close>, for every \<open>e\<close> of the fragment.\<close>

theorem fused_update_reads_late:
  assumes "compilable ns e" "name_slot ns (Some x) = Some i" "length ns \<le> length (v_locals s)" "length (v_locals s) < 65536"
    "c_ok (compile_result E ns (plus_update x e))" "length (c_code (compile_result E ns (plus_update x e))) < 2 ^ 31" "v_pc s = 0"
  shows "execution_gives env (compile_result E ns (plus_update x e)) s (late_update F env i (js_eval F env ns e) (store_of s))"
proof -
  let ?c = "bc_comp_init\<lparr>c_locals := ns\<rparr>" and ?N = "length (v_locals s)"
  have c: "good ?N ns ?c" "at_boundary ?c []" using assms(3,4) init_boundary by (simp_all add: good_def bc_comp_init_def)
  have "find_local_slot ?c x = Some i" using find_local_good [OF c(1)] assms(2) by simp
  note node = plus_update_node [OF sample_init this, of E e]
  have i: "i < ?N" using slot_good [OF c(1) assms(2)] by simp
  have "c_ok (cexpr E ?c e)" using assms(5) by (simp add: compile_result_def node)
  from compilesE [OF compilable_compiles [OF assms(1)] c this] obtain "is"
    where g: "gen F env ?N (val_eff (js_eval F env ns e)) ?c [] is (cexpr E ?c e)" .
  have "gen F env ?N (val_eff (late_update F env i (js_eval F env ns e))) ?c [] (is @ [(BC_ADD_SELF, [U16 (int i)])])
      (cexpr E ?c (plus_update x e))"
    unfolding node gen_update late_effect [symmetric]
    using i assms(4) \<open>c_ok (cexpr E ?c e)\<close> by (intro gen_then_idx [OF g] runs_self(1)) simp_all
  from gen_execution [OF this assms(6,7)] show ?thesis .
qed

text \<open>\<open>x = x + (x = 5)\<close> with \<open>x\<close> at \<open>1\<close>: the evaluation in source order gives \<open>6\<close>, the machine \<open>10\<close>.\<close>

definition assign_five :: ast where
  "assign_five = AST_ASSIGN ''='' (name ''x'') (AST_LITERAL (TOK_NUMBER 0x4014000000000000))"

definition one_local :: vm where
  "one_local = \<lparr>v_stack = [], v_locals = [LR_INT32 1], v_bigints = Map.empty, v_next = 0, v_result = LR_UNDEFINED, v_pc = 0\<rparr>"

lemma five_slot: "find_local_slot (bc_comp_init\<lparr>c_locals := [''x'']\<rparr>) ''x'' = Some 0"
  by code_simp

lemma five_literal: "int32_valued 0x4014000000000000"
  by code_simp

lemma five_code:
  "c_ok (compile_result sample_comp [''x''] (plus_update ''x'' assign_five))"
  "length (c_code (compile_result sample_comp [''x''] (plus_update ''x'' assign_five))) < 2 ^ 31"
proof -
  let ?c = "bc_comp_init\<lparr>c_locals := [''x'']\<rparr>"
  have ne: "BC_STORE_VAR \<noteq> BC_LOAD_VAR" by (simp add: BC_STORE_VAR_def BC_LOAD_VAR_def)
  note defs = compile_result_def plus_update_def is_ident_def assign_five_def cexpr_unfold cexpr_node_def cassign_def
    Let_def ident_name_def cassign_name_def self_add_def cliteral_def emit_push_number_def five_literal emit_name_op_def five_slot
    emit_idx_def sample_init ne
  show "c_ok (compile_result sample_comp [''x''] (plus_update ''x'' assign_five))" by (simp add: defs)
  have l: "code_le ?c 0" by (simp add: code_le_def bc_comp_init_def)
  have "\<exists>k < 100. code_le (compile_result sample_comp [''x''] (plus_update ''x'' assign_five)) k"
    by (simp add: defs) (rule exI, rule conjI [rotated], (rule code_le_emit l)+, simp)
  then show "length (c_code (compile_result sample_comp [''x''] (plus_update ''x'' assign_five))) < 2 ^ 31" by (auto simp: code_le_def)
qed

theorem fused_update_reads_late_witness:
  "(\<exists>\<sigma>. js_eval 1 string_env [''x''] (AST_BINARY ''+'' (name ''x'') assign_five) (store_of one_local) = Go (LR_INT32 6, \<sigma>))
   \<and> (\<exists>\<sigma>. execution_gives string_env (compile_result sample_comp [''x''] (plus_update ''x'' assign_five)) one_local (Go (LR_INT32 10, \<sigma>)))"
proof
  let ?r = "\<lambda>k r. case r of Go (v, \<sigma>) \<Rightarrow> v = LR_INT32 k | Halt st \<Rightarrow> False"
  have "?r 6 (js_eval 1 string_env [''x''] (AST_BINARY ''+'' (name ''x'') assign_five) (store_of one_local))" by code_simp
  then show "\<exists>\<sigma>. js_eval 1 string_env [''x''] (AST_BINARY ''+'' (name ''x'') assign_five) (store_of one_local) = Go (LR_INT32 6, \<sigma>)"
    by (auto split: outcome.splits)
  let ?u = "late_update 1 string_env 0 (js_eval 1 string_env [''x''] assign_five) (store_of one_local)"
  have "?r 10 ?u" by code_simp
  then obtain \<sigma> where "?u = Go (LR_INT32 10, \<sigma>)" by (auto split: outcome.splits)
  moreover have "compilable [''x''] assign_five" "name_slot [''x''] (Some ''x'') = Some 0" by code_simp+
  ultimately show "\<exists>\<sigma>. execution_gives string_env (compile_result sample_comp [''x''] (plus_update ''x'' assign_five)) one_local
      (Go (LR_INT32 10, \<sigma>))"
    using fused_update_reads_late [OF _ _ _ _ five_code, of 0 one_local string_env 1] by (auto simp: one_local_def)
qed

end
