(* ===== verification/LR_Stmt.thy ===== *)
theory LR_Stmt
  imports LR_Compile
begin

text \<open>
  Statement trees and the statement compiler (\<open>cstmt\<close>, \<open>cvar_decl\<close>, \<open>cfor_of\<close>, \<open>cswitch\<close>, the hoisting of \<open>var\<close> and the
  entry points of \<^verbatim>\<open>src/engine/lr_bytecode_compile.c\<close>).

  \<open>STMT_NONE\<close> is the null pointer and \<open>STMT_EXPR\<close> an expression node in the place of a statement. The cases of a switch are
  \<open>AST_CASE\<close> and \<open>AST_DEFAULT\<close> nodes, as the parser makes them. An identifier without a name matches no slot.
\<close>

section \<open>Statements\<close>

datatype declarator = AST_VAR_DECLARATOR ast ast | DECL_OTHER

datatype stmt =
    STMT_NONE
  | AST_PROGRAM "stmt list"
  | AST_BLOCK "stmt list"
  | AST_EXPR_STMT ast
  | AST_IF ast stmt stmt
  | AST_FOR stmt ast ast stmt
  | AST_WHILE ast stmt
  | AST_DO_WHILE stmt ast
  | AST_FOR_IN stmt ast stmt
  | AST_FOR_OF stmt ast stmt
  | AST_SWITCH ast "stmt list"
  | AST_CASE ast stmt
  | AST_DEFAULT stmt
  | AST_BREAK ast
  | AST_CONTINUE ast
  | AST_RETURN ast
  | AST_THROW ast
  | AST_TRY stmt stmt stmt "string option"
  | AST_LABEL ast stmt
  | AST_DEBUGGER
  | AST_VAR_DECL nat "declarator list"
  | AST_FUNC_DECL "string option" nat
  | AST_CLASS_DECL "string option" nat
  | STMT_EXPR ast
  | STMT_OTHER nat nat

record stmt_env =
  se_expr :: comp_env
  se_addr :: "stmt \<Rightarrow> nat"

definition emit_eval_stmt :: "stmt_env \<Rightarrow> bc_comp \<Rightarrow> stmt \<Rightarrow> bc_comp" where
  "emit_eval_stmt S c n = emit_eval_at c (se_addr S n) False"

definition label_name :: "ast \<Rightarrow> string option" where
  "label_name n = (case ident_name n of Some x \<Rightarrow> if x = [] then None else Some x | None \<Rightarrow> None)"

text \<open>Does the statement directly contain a lexical declaration?\<close>

fun node_has_lexical :: "stmt \<Rightarrow> bool" where
  "node_has_lexical (AST_VAR_DECL kind ds) = (kind \<noteq> 0)"
| "node_has_lexical (AST_CLASS_DECL name k) = True"
| "node_has_lexical (AST_FUNC_DECL name k) = True"
| "node_has_lexical (AST_IF cond body els) = (node_has_lexical body \<or> node_has_lexical els)"
| "node_has_lexical (AST_FOR init test update body) = (node_has_lexical init \<or> node_has_lexical body)"
| "node_has_lexical (AST_FOR_IN each source body) = node_has_lexical body"
| "node_has_lexical (AST_FOR_OF each source body) = node_has_lexical body"
| "node_has_lexical (AST_WHILE cond body) = node_has_lexical body"
| "node_has_lexical (AST_DO_WHILE body cond) = node_has_lexical body"
| "node_has_lexical (AST_LABEL label s) = node_has_lexical s"
| "node_has_lexical (AST_TRY body catch_body finally_body v) =
     (node_has_lexical body \<or> node_has_lexical catch_body \<or> node_has_lexical finally_body)"
| "node_has_lexical (AST_SWITCH test cases) = list_ex node_has_lexical cases"
| "node_has_lexical (AST_CASE cond body) = node_has_lexical body"
| "node_has_lexical (AST_DEFAULT body) = node_has_lexical body"
| "node_has_lexical _ = False"

definition block_has_lexical :: "stmt list \<Rightarrow> bool" where
  "block_has_lexical items = list_ex node_has_lexical items"

section \<open>Local names\<close>

definition register_name :: "bc_comp \<Rightarrow> string option \<Rightarrow> bc_comp" where
  "register_name c name = (case name of None \<Rightarrow> c | Some x \<Rightarrow> register_local_name c x)"

definition is_pattern :: "ast \<Rightarrow> bool" where
  "is_pattern n = (case n of AST_PATTERN _ _ \<Rightarrow> True | AST_ARRAY _ \<Rightarrow> True | AST_OBJECT _ \<Rightarrow> True | _ \<Rightarrow> False)"

text \<open>
  The names bound by a pattern in the order of \<open>eval_pattern\<close>. \<open>rest_arg\<close> is the target of a rest element, after which the
  loop ends; \<open>target\<close> is the binding of another element, a name or a nested pattern.
\<close>

definition rest_arg :: "bool \<Rightarrow> ast \<Rightarrow> ast option" where
  "rest_arg is_obj n =
     (case n of AST_REST a \<Rightarrow> Some a | AST_SPREAD_ELEMENT a \<Rightarrow> Some a | AST_SPREAD a \<Rightarrow> if is_obj then Some a else None | _ \<Rightarrow> None)"

definition pattern_target :: "ast \<Rightarrow> ast" where
  "pattern_target n =
     (case n of
        AST_DEFAULT_VALUE left _ \<Rightarrow> AST_IDENTIFIER (ident_name left)
      | AST_ASSIGN _ tgt _ \<Rightarrow> AST_IDENTIFIER (ident_name tgt)
      | _ \<Rightarrow> n)"

definition element_target :: "bool \<Rightarrow> ast \<Rightarrow> ast" where
  "element_target is_obj n =
     (if \<not> is_obj then pattern_target n
      else case n of
        AST_PROPERTY key val shorthand \<Rightarrow>
          (case val of
             AST_IDENTIFIER _ \<Rightarrow> (case key of AST_IDENTIFIER _ \<Rightarrow> if shorthand then key else val | _ \<Rightarrow> val)
           | _ \<Rightarrow> pattern_target val)
      | _ \<Rightarrow> AST_NONE)"

fun register_elements :: "(bc_comp \<Rightarrow> ast \<Rightarrow> bc_comp) \<Rightarrow> bool \<Rightarrow> bc_comp \<Rightarrow> ast list \<Rightarrow> bc_comp" where
  "register_elements rp is_obj c [] = c"
| "register_elements rp is_obj c (n # ns) =
     (case rest_arg is_obj n of
        Some a \<Rightarrow> register_name c (ident_name a)
      | None \<Rightarrow>
          let t = element_target is_obj n in
          register_elements rp is_obj (if is_pattern t then rp c t else register_name c (ident_name t)) ns)"

lemma element_target_size: "is_pattern (element_target is_obj n) \<Longrightarrow> size (element_target is_obj n) \<le> size n"
  by (auto simp: element_target_def pattern_target_def is_pattern_def split: ast.splits if_splits)

lemma register_elements_cong [fundef_cong]:
  assumes "is_obj = is_obj'" "c = c'" "ns = ns'"
    and "\<And>d m. size m < Suc (size_list size ns') \<Longrightarrow> rp d m = rp' d m"
  shows "register_elements rp is_obj c ns = register_elements rp' is_obj' c' ns'"
proof -
  have "register_elements rp b d ms = register_elements rp' b d ms"
    if "\<And>d m. size m < Suc (size_list size ms) \<Longrightarrow> rp d m = rp' d m" for b d ms
    using that
  proof (induction ms arbitrary: d)
    case (Cons m ms)
    have "rp d (element_target b m) = rp' d (element_target b m)" if "is_pattern (element_target b m)" for d
      using element_target_size [OF that] by (intro Cons.prems) simp
    moreover have "register_elements rp b d ms = register_elements rp' b d ms" for d
      using Cons.prems by (intro Cons.IH) simp
    ultimately show ?case by (simp add: Let_def split: option.split)
  qed simp
  then show ?thesis using assms by blast
qed

function register_pattern_names :: "bc_comp \<Rightarrow> ast \<Rightarrow> bc_comp" where
  "register_pattern_names c node =
     (case node of
        AST_PATTERN is_obj es \<Rightarrow> register_elements (\<lambda>c m. register_pattern_names c m) is_obj c es
      | AST_ARRAY es \<Rightarrow> register_elements (\<lambda>c m. register_pattern_names c m) False c es
      | AST_OBJECT ps \<Rightarrow> register_elements (\<lambda>c m. register_pattern_names c m) True c ps
      | _ \<Rightarrow> c)"
  by pat_completeness auto
termination
  by (relation "measure (\<lambda>(c, node). size node)") auto

declare register_pattern_names.simps [simp del]

text \<open>The names of a declaration that goes to the interpreter as a whole.\<close>

definition register_binding :: "bc_comp \<Rightarrow> ast \<Rightarrow> bc_comp" where
  "register_binding c v = (if is_pattern v then register_pattern_names c v else register_name c (ident_name v))"

definition register_declarators :: "bc_comp \<Rightarrow> declarator list \<Rightarrow> bc_comp" where
  "register_declarators c ds =
     foldl (\<lambda>c d. case d of AST_VAR_DECLARATOR v _ \<Rightarrow> register_binding c v | DECL_OTHER \<Rightarrow> c) c ds"

section \<open>Declarations\<close>

definition emit_declare :: "bc_comp \<Rightarrow> nat \<Rightarrow> nat \<Rightarrow> bc_comp" where
  "emit_declare c idx kind = emit True (emit_idx c BC_DECLARE_VAR idx) (of_nat kind)"

definition needs_interpreter :: "declarator \<Rightarrow> bool" where
  "needs_interpreter d = (case d of AST_VAR_DECLARATOR v _ \<Rightarrow> ident_name v = None | DECL_OTHER \<Rightarrow> False)"

definition cdeclarator :: "comp_env \<Rightarrow> nat \<Rightarrow> bc_comp \<Rightarrow> declarator \<Rightarrow> bc_comp" where
  "cdeclarator E kind c d =
     (case d of
        AST_VAR_DECLARATOR v init \<Rightarrow>
          (let name = (case ident_name v of Some x \<Rightarrow> x | None \<Rightarrow> []);
               c1 = (if init \<noteq> AST_NONE then cexpr E c init else emit True c BC_PUSH_UNDEFINED);
               (c2, idx) = pool_add_str True c1 (str_bytes name);
               c3 = emit_declare c2 idx kind
           in if length (c_locals c3) < 256 then
                (let c4 = register_local_name c3 name
                 in if kind = 0 then c4\<lparr>c_var_local_count := length (c_locals c4)\<rparr> else c4)
              else c3)
      | DECL_OTHER \<Rightarrow> c)"

definition cvar_decl :: "stmt_env \<Rightarrow> bc_comp \<Rightarrow> nat \<Rightarrow> declarator list \<Rightarrow> bc_comp" where
  "cvar_decl S c kind ds =
     (if list_ex needs_interpreter ds then emit_eval_stmt S (register_declarators c ds) (AST_VAR_DECL kind ds)
      else foldl (cdeclarator (se_expr S) kind) c ds)"

section \<open>Loops\<close>

text \<open>The compiler of nested statements; the last argument is \<open>top\<close>.\<close>

type_synonym cs = "bc_comp \<Rightarrow> stmt \<Rightarrow> bool \<Rightarrow> bc_comp"

definition clear_result :: "bool \<Rightarrow> bc_comp \<Rightarrow> bc_comp" where
  "clear_result is_top c = (if is_top then emit True c BC_CLEAR_RESULT else c)"

text \<open>
  \<open>local_scope_stack\<close> has 64 entries and the compiler writes to it without a check. The entries are never read, but
  the fields behind them (\<open>local_scope_depth\<close> itself first) are: once the flag is set, what the compiler does is not
  defined, and \<open>bc_compile_ex\<close> below gives no program.
\<close>

definition scope_enter :: "bc_comp \<Rightarrow> bc_comp" where
  "scope_enter c =
     emit True (c\<lparr>c_local_scope_depth := c_local_scope_depth c + 1, c_scope_overrun := c_scope_overrun c \<or> 64 \<le> c_local_scope_depth c\<rparr>)
       BC_SCOPE_ENTER"

definition scope_leave :: "bc_comp \<Rightarrow> bc_comp" where
  "scope_leave c = (let c1 = emit True c BC_SCOPE_LEAVE in c1\<lparr>c_local_scope_depth := c_local_scope_depth c1 - 1\<rparr>)"

definition is_func_decl :: "stmt \<Rightarrow> bool" where
  "is_func_decl n = (case n of AST_FUNC_DECL _ _ \<Rightarrow> True | _ \<Rightarrow> False)"

text \<open>A list of statements, function declarations first.\<close>

definition cstmts :: "cs \<Rightarrow> bool \<Rightarrow> bc_comp \<Rightarrow> stmt list \<Rightarrow> bc_comp" where
  "cstmts cs is_top c items =
     foldl (\<lambda>c n. cs c n is_top) (foldl (\<lambda>c n. cs c n is_top) c (filter is_func_decl items)) (filter (\<lambda>n. \<not> is_func_decl n) items)"

definition cblock :: "cs \<Rightarrow> bc_comp \<Rightarrow> stmt list \<Rightarrow> bc_comp" where
  "cblock cs c items =
     (if block_has_lexical items then scope_leave (cstmts cs False (scope_enter c) items) else cstmts cs False c items)"

definition cif :: "cs \<Rightarrow> comp_env \<Rightarrow> bc_comp \<Rightarrow> ast \<Rightarrow> stmt \<Rightarrow> stmt \<Rightarrow> bc_comp" where
  "cif cs E c cond body els =
     (let (c1, jfalse) = emit_jump True (cexpr E c cond) BC_JUMP_IF_FALSE; c2 = cs c1 body False in
      if els \<noteq> STMT_NONE then
        (let (c3, jend) = emit_jump True c2 BC_JUMP; c4 = cs (patch_here c3 jfalse) els False in patch_here c4 jend)
      else patch_here c2 jfalse)"

text \<open>The loop test \<open>local < constant\<close> and the update \<open>local++\<close> that have an instruction of their own.\<close>

definition lt_imm_test :: "bc_comp \<Rightarrow> ast \<Rightarrow> (nat \<times> int) option" where
  "lt_imm_test c test =
     (case test of
        AST_BINARY op left right \<Rightarrow>
          (case (ident_name left, right) of
             (Some name, AST_LITERAL (TOK_NUMBER num)) \<Rightarrow>
               (case find_local_slot c name of
                  Some slot \<Rightarrow> if op = ''<'' \<and> f64_eq num (f64_of_int (f64_cast 32 num)) then Some (slot, f64_cast 32 num) else None
                | None \<Rightarrow> None)
           | _ \<Rightarrow> None)
      | _ \<Rightarrow> None)"

definition inc_discard :: "bc_comp \<Rightarrow> ast \<Rightarrow> nat option" where
  "inc_discard c update =
     (case update of
        AST_UNARY op prefix a \<Rightarrow>
          if \<not> prefix \<and> op \<noteq> [] \<and> hd op = CHR ''+'' then (case ident_name a of Some name \<Rightarrow> find_local_slot c name | None \<Rightarrow> None) else None
      | _ \<Rightarrow> None)"

definition cfor_test :: "comp_env \<Rightarrow> bc_comp \<Rightarrow> ast \<Rightarrow> bc_comp \<times> nat option" where
  "cfor_test E c test =
     (if test = AST_NONE then (c, None)
      else case lt_imm_test c test of
        Some (slot, imm) \<Rightarrow>
          (let c1 = emit32 True (emit_idx c BC_JUMP_IF_LOCAL_LT_IMM slot) imm in (emit32 True c1 0, Some (here c1)))
      | None \<Rightarrow> (let (c1, j) = emit_jump True (cexpr E c test) BC_JUMP_IF_FALSE in (c1, Some j)))"

definition cfor_update :: "comp_env \<Rightarrow> bc_comp \<Rightarrow> ast \<Rightarrow> bc_comp" where
  "cfor_update E c update =
     (if update = AST_NONE then c
      else case inc_discard c update of
        Some slot \<Rightarrow> emit_idx c BC_INC_LOCAL_DISCARD slot
      | None \<Rightarrow> emit True (cexpr E c update) BC_POP)"

definition cfor :: "cs \<Rightarrow> stmt_env \<Rightarrow> bc_comp \<Rightarrow> stmt \<Rightarrow> ast \<Rightarrow> ast \<Rightarrow> stmt \<Rightarrow> bc_comp" where
  "cfor cs S c init test update body =
     (let c1 = (case init of STMT_NONE \<Rightarrow> c | AST_VAR_DECL kind ds \<Rightarrow> cvar_decl S c kind ds | _ \<Rightarrow> cs c init False);
          c2 = loop_push c1 False;
          test_pos = here c2;
          (c3, exit_patch) = cfor_test (se_expr S) (emit True c2 BC_LOOP_TICK) test;
          c4 = cs c3 body False;
          update_pos = here c4;
          (c5, back) = emit_jump True (cfor_update (se_expr S) c4 update) BC_JUMP;
          c6 = patch_jump_to c5 back test_pos;
          end_pos = here c6;
          c7 = (case exit_patch of Some p \<Rightarrow> patch_jump_to c6 p end_pos | None \<Rightarrow> c6)
      in loop_pop c7 end_pos update_pos)"

definition cwhile :: "cs \<Rightarrow> comp_env \<Rightarrow> bc_comp \<Rightarrow> ast \<Rightarrow> stmt \<Rightarrow> bc_comp" where
  "cwhile cs E c cond body =
     (let c1 = loop_push c False;
          test_pos = here c1;
          (c2, exit_patch) = emit_jump True (cexpr E (emit True c1 BC_LOOP_TICK) cond) BC_JUMP_IF_FALSE;
          (c3, back) = emit_jump True (cs c2 body False) BC_JUMP;
          c4 = patch_jump_to c3 back test_pos;
          end_pos = here c4
      in loop_pop (patch_jump_to c4 exit_patch end_pos) end_pos test_pos)"

definition cdo_while :: "cs \<Rightarrow> comp_env \<Rightarrow> bc_comp \<Rightarrow> stmt \<Rightarrow> ast \<Rightarrow> bc_comp" where
  "cdo_while cs E c body cond =
     (let c1 = loop_push c False;
          body_pos = here c1;
          c2 = cs (emit True c1 BC_LOOP_TICK) body False;
          test_pos = here c2;
          (c3, back) = emit_jump True (cexpr E c2 cond) BC_JUMP_IF_TRUE;
          c4 = patch_jump_to c3 back body_pos
      in loop_pop c4 (here c4) test_pos)"

text \<open>The loop variable of a for-of loop: its name, kind and whether it is declared; \<open>None\<close> where the loop is delegated.\<close>

definition for_of_bind :: "stmt \<Rightarrow> (string \<times> nat \<times> bool) option" where
  "for_of_bind each =
     (case each of
        AST_VAR_DECL kind [AST_VAR_DECLARATOR v _] \<Rightarrow> (case ident_name v of Some x \<Rightarrow> Some (x, kind, True) | None \<Rightarrow> None)
      | STMT_EXPR n \<Rightarrow> (case ident_name n of Some x \<Rightarrow> Some (x, 1, False) | None \<Rightarrow> None)
      | _ \<Rightarrow> None)"

definition register_each :: "bc_comp \<Rightarrow> stmt \<Rightarrow> bc_comp" where
  "register_each c each =
     (case each of
        AST_VAR_DECL kind ds \<Rightarrow> register_declarators c ds
      | STMT_EXPR n \<Rightarrow> if is_pattern n then register_pattern_names c n else c
      | _ \<Rightarrow> c)"

definition cfor_of :: "cs \<Rightarrow> stmt_env \<Rightarrow> bc_comp \<Rightarrow> stmt \<Rightarrow> ast \<Rightarrow> stmt \<Rightarrow> bc_comp" where
  "cfor_of cs S c each source body =
     (case for_of_bind each of
        None \<Rightarrow> emit_eval_stmt S (register_each c each) (AST_FOR_OF each source body)
      | Some (bind, kind, declared) \<Rightarrow>
          (let c1 = (if declared then register_local_name c bind else c);
               c2 = cexpr (se_expr S) c1 source;
               has_block = (declared \<and> kind \<noteq> 0);
               c3 = emit True (if has_block then scope_enter c2 else c2) BC_ITER_INIT;
               c4 = loop_push c3 False;
               top_pos = here c4;
               c5 = emit True (emit True c4 BC_LOOP_TICK) BC_ITER_NEXT;
               done_patch = here c5;
               (c6, idx) = pool_add_str True (emit32 True c5 0) (str_bytes bind);
               c7 = (if declared then emit_declare c6 idx kind else emit_idx c6 BC_STORE_VAR idx);
               c8 = emit True (cs c7 body False) BC_JUMP;
               back = here c8;
               c9 = patch_jump_to (emit32 True c8 0) back top_pos;
               end_pos = here c9;
               c10 = emit True (loop_pop (patch_jump_to c9 done_patch end_pos) end_pos top_pos) BC_ITER_CLOSE
           in if has_block then scope_leave c10 else c10))"

section \<open>Switch, break and continue\<close>

text \<open>
  The tests leave the position of a jump for every case and nothing for the default, the bodies their start. A body is the
  block of the case; its statements are compiled without a scope.
\<close>

definition BC_STRICT_EQ :: byte where "BC_STRICT_EQ = 38"

definition case_test :: "comp_env \<Rightarrow> bc_comp \<times> nat option list \<Rightarrow> stmt \<Rightarrow> bc_comp \<times> nat option list" where
  "case_test E = (\<lambda>(c, jumps) cs.
     case cs of
       AST_CASE cond body \<Rightarrow>
         (let (c1, j) = emit_jump True (emit True (cexpr E (emit True c BC_DUP) cond) BC_STRICT_EQ) BC_JUMP_IF_TRUE in (c1, jumps @ [Some j]))
     | _ \<Rightarrow> (c, jumps @ [None]))"

definition case_body :: "stmt \<Rightarrow> stmt" where
  "case_body n = (case n of AST_CASE _ body \<Rightarrow> body | AST_DEFAULT body \<Rightarrow> body | _ \<Rightarrow> STMT_NONE)"

definition ccase_body :: "cs \<Rightarrow> bc_comp \<times> nat list \<Rightarrow> stmt \<Rightarrow> bc_comp \<times> nat list" where
  "ccase_body cs = (\<lambda>(c, starts) n.
     (case case_body n of
        AST_BLOCK items \<Rightarrow> foldl (\<lambda>c m. cs c m False) c items
      | STMT_NONE \<Rightarrow> c
      | body \<Rightarrow> cs c body False,
      starts @ [here c]))"

definition is_default :: "stmt \<Rightarrow> bool" where
  "is_default n = (case n of AST_DEFAULT _ \<Rightarrow> True | _ \<Rightarrow> False)"

text \<open>The start of the last \<open>default\<close>.\<close>

definition default_start :: "stmt list \<Rightarrow> nat list \<Rightarrow> nat option" where
  "default_start cases starts =
     (case filter (\<lambda>i. is_default (cases ! i)) [0..<length cases] of [] \<Rightarrow> None | ds \<Rightarrow> Some (starts ! last ds))"

definition patch_cases :: "bc_comp \<Rightarrow> nat option list \<Rightarrow> nat list \<Rightarrow> bc_comp" where
  "patch_cases c jumps starts =
     foldl (\<lambda>c (j, start). case j of Some p \<Rightarrow> patch_jump_to c p start | None \<Rightarrow> c) c (zip jumps starts)"

definition cswitch :: "cs \<Rightarrow> comp_env \<Rightarrow> bc_comp \<Rightarrow> ast \<Rightarrow> stmt list \<Rightarrow> bc_comp" where
  "cswitch cs E c test cases =
     (let c1 = loop_push (cexpr E c test) True;
          (c2, jumps) = foldl (case_test E) (c1, []) cases;
          (c3, no_match) = emit_jump True c2 BC_JUMP;
          (c4, starts) = foldl (ccase_body cs) (c3, []) cases;
          end_pos = here c4;
          c5 = patch_cases c4 jumps starts;
          c6 = patch_jump_to c5 no_match (case default_start cases starts of Some p \<Rightarrow> p | None \<Rightarrow> end_pos)
      in emit True (loop_pop c6 end_pos end_pos) BC_POP)"

definition loop_add :: "bc_comp \<Rightarrow> nat \<Rightarrow> bool \<Rightarrow> nat \<Rightarrow> bc_comp" where
  "loop_add c k is_brk pos =
     (let lp = c_loops c ! k in
      c\<lparr>c_loops := (c_loops c)[k := if is_brk then lp\<lparr>l_brk := l_brk lp @ [pos]\<rparr> else lp\<lparr>l_cont := l_cont lp @ [pos]\<rparr>]\<rparr>)"

definition cbreak :: "bc_comp \<Rightarrow> string option \<Rightarrow> bc_comp" where
  "cbreak c label =
     (case find_target (c_loops c) label False of
        None \<Rightarrow> c\<lparr>c_ok := False\<rparr>
      | Some k \<Rightarrow> (let (c1, pos) = emit_jump True c BC_JUMP in loop_add c1 k True pos))"

definition ccontinue :: "bc_comp \<Rightarrow> string option \<Rightarrow> bc_comp" where
  "ccontinue c label =
     (case find_target (c_loops c) label True of
        None \<Rightarrow> c\<lparr>c_ok := False\<rparr>
      | Some k \<Rightarrow>
          if l_is_switch (c_loops c ! k) then c\<lparr>c_ok := False\<rparr>
          else (let (c1, pos) = emit_jump True c BC_JUMP in loop_add c1 k False pos))"

section \<open>Statements\<close>

definition labelled :: "stmt \<Rightarrow> bool" where
  "labelled n =
     (case n of AST_FOR _ _ _ _ \<Rightarrow> True | AST_WHILE _ _ \<Rightarrow> True | AST_DO_WHILE _ _ \<Rightarrow> True | AST_FOR_OF _ _ _ \<Rightarrow> True
      | AST_SWITCH _ _ \<Rightarrow> True | _ \<Rightarrow> False)"

definition clabel :: "cs \<Rightarrow> stmt_env \<Rightarrow> bc_comp \<Rightarrow> bool \<Rightarrow> ast \<Rightarrow> stmt \<Rightarrow> bc_comp" where
  "clabel cs S c is_top label inner =
     (if label_name label = None \<or> inner = STMT_NONE then emit_eval_stmt S c (AST_LABEL label inner)
      else clear_result is_top
        (if labelled inner then (cs (c\<lparr>c_pending_label := label_name label\<rparr>) inner False)\<lparr>c_pending_label := None\<rparr>
         else emit_eval_stmt S c (AST_LABEL label inner)))"

text \<open>The first name of a for-in declaration; the node types that are compiled as an expression statement.\<close>

definition for_in_name :: "stmt \<Rightarrow> string option" where
  "for_in_name each = (case each of AST_VAR_DECL _ (AST_VAR_DECLARATOR v _ # _) \<Rightarrow> ident_name v | _ \<Rightarrow> None)"

definition expression_type :: "nat \<Rightarrow> bool" where
  "expression_type t \<longleftrightarrow> 33 \<le> t \<and> t \<le> 49 \<or> t \<in> {51, 52, 53, 59}"

definition register_function :: "bc_comp \<Rightarrow> string option \<Rightarrow> bc_comp" where
  "register_function c name =
     (case name of
        Some x \<Rightarrow>
          if length (c_locals c) < 256 then
            (let c1 = c\<lparr>c_locals := c_locals c @ [x]\<rparr>
             in c1\<lparr>c_var_local_count := (if c_var_local_count c1 < length (c_locals c1) then length (c_locals c1) else c_var_local_count c1)\<rparr>)
          else c
      | None \<Rightarrow> c)"

definition cstmt_node :: "cs \<Rightarrow> stmt_env \<Rightarrow> bc_comp \<Rightarrow> stmt \<Rightarrow> bool \<Rightarrow> bc_comp" where
  "cstmt_node cs S c n is_top =
     (let E = se_expr S; done = clear_result is_top; value_op = (if is_top then BC_SET_RESULT else BC_POP) in
      if \<not> c_ok c then c
      else case n of
        STMT_NONE \<Rightarrow> c
      | AST_PROGRAM items \<Rightarrow> cstmts cs True c items
      | AST_BLOCK items \<Rightarrow> cblock cs c items
      | AST_EXPR_STMT e \<Rightarrow> emit True (cexpr E c e) value_op
      | AST_VAR_DECL kind ds \<Rightarrow> done (cvar_decl S c kind ds)
      | AST_IF cond body els \<Rightarrow> done (cif cs E c cond body els)
      | AST_FOR init test update body \<Rightarrow> done (cfor cs S c init test update body)
      | AST_WHILE cond body \<Rightarrow> done (cwhile cs E c cond body)
      | AST_DO_WHILE body cond \<Rightarrow> done (cdo_while cs E c body cond)
      | AST_FOR_OF each source body \<Rightarrow> done (cfor_of cs S c each source body)
      | AST_FOR_IN each source body \<Rightarrow> done (emit_eval_stmt S (register_name c (for_in_name each)) n)
      | AST_TRY body catch_body finally_body catch_var \<Rightarrow> done (emit_eval_stmt S (register_name c catch_var) n)
      | AST_SWITCH test cases \<Rightarrow> done (cswitch cs E c test cases)
      | AST_BREAK label \<Rightarrow> cbreak c (label_name label)
      | AST_CONTINUE label \<Rightarrow> ccontinue c (label_name label)
      | AST_LABEL label inner \<Rightarrow> clabel cs S c is_top label inner
      | AST_THROW arg \<Rightarrow> emit True (cexpr E c arg) BC_THROW
      | AST_RETURN arg \<Rightarrow> emit True (if arg \<noteq> AST_NONE then cexpr E c arg else emit True c BC_PUSH_UNDEFINED) BC_RETURN
      | AST_DEBUGGER \<Rightarrow> emit True c BC_NOP
      | AST_FUNC_DECL name k \<Rightarrow> done (emit_eval_stmt S (register_function c name) n)
      | AST_CLASS_DECL name k \<Rightarrow> done (emit_eval_stmt S (register_name c name) n)
      | STMT_EXPR e \<Rightarrow>
          if e = AST_NONE then c
          else if expression_type (ast_type e) then emit True (cexpr E c e) value_op
          else done (emit_eval_stmt S c n)
      | _ \<Rightarrow> done (emit_eval_stmt S c n))"

function cstmt :: "stmt_env \<Rightarrow> bc_comp \<Rightarrow> stmt \<Rightarrow> bool \<Rightarrow> bc_comp" where
  "cstmt S c n is_top = cstmt_node (\<lambda>c m t. if size m < size n then cstmt S c m t else c) S c n is_top"
  by pat_completeness auto
termination
  by (relation "measure (\<lambda>(S, c, n, t). size n)") auto

declare cstmt.simps [simp del]

text \<open>The recursion unfolded.\<close>

definition agree_cs :: "nat \<Rightarrow> cs \<Rightarrow> cs \<Rightarrow> bool" where
  "agree_cs k cs cs' \<longleftrightarrow> (\<forall>c m t. size m < k \<longrightarrow> cs c m t = cs' c m t)"

lemma agree_csD: "agree_cs k cs cs' \<Longrightarrow> size m < k \<Longrightarrow> cs c m t = cs' c m t"
  by (simp add: agree_cs_def)

lemma stmt_size_member: "m \<in> set ns \<Longrightarrow> size (m :: stmt) < Suc (size_list size ns)"
  by (simp add: size_list_estimation' less_Suc_eq_le)

lemma foldl_cs_cong: "(\<And>c m. m \<in> set ms \<Longrightarrow> cs c m t = cs' c m t) \<Longrightarrow> foldl (\<lambda>c m. cs c m t) c ms = foldl (\<lambda>c m. cs' c m t) c ms"
  by (induction ms arbitrary: c) auto

lemma cstmts_agree: "(\<And>c m. m \<in> set items \<Longrightarrow> cs c m t = cs' c m t) \<Longrightarrow> cstmts cs t c items = cstmts cs' t c items"
  unfolding cstmts_def using foldl_cs_cong [of "filter is_func_decl items" cs t cs']
    foldl_cs_cong [of "filter (\<lambda>n. \<not> is_func_decl n) items" cs t cs'] by simp

lemma cblock_agree: "(\<And>c m. m \<in> set items \<Longrightarrow> cs c m False = cs' c m False) \<Longrightarrow> cblock cs c items = cblock cs' c items"
  using cstmts_agree [of items cs False cs'] by (simp add: cblock_def)

lemma case_body_size: "size (case_body n) \<le> size n"
  by (cases n) (simp_all add: case_body_def)

lemma ccase_body_agree:
  assumes "agree_cs (Suc (size n)) cs cs'"
  shows "ccase_body cs a n = ccase_body cs' a n"
proof -
  have b: "cs c m t = cs' c m t" if "size m \<le> size (case_body n)" for c m t
    using case_body_size [of n] that by (auto intro!: agree_csD [OF assms])
  show ?thesis
  proof (cases "case_body n")
    case (AST_BLOCK items)
    then have "cs c m False = cs' c m False" if "m \<in> set items" for c m
      using b [of m] stmt_size_member [OF that] by simp
    then have "foldl (\<lambda>c m. cs c m False) c items = foldl (\<lambda>c m. cs' c m False) c items" for c by (rule foldl_cs_cong)
    then show ?thesis using AST_BLOCK by (simp add: ccase_body_def split: prod.split)
  qed (use b in \<open>auto simp: ccase_body_def split: prod.split\<close>)
qed

lemma cswitch_agree:
  assumes "agree_cs (size (AST_SWITCH test cases)) cs cs'"
  shows "cswitch cs E c test cases = cswitch cs' E c test cases"
proof -
  have "ccase_body cs a m = ccase_body cs' a m" if "m \<in> set cases" for a m
    using assms stmt_size_member [OF that] by (intro ccase_body_agree) (auto simp: agree_cs_def)
  then have "foldl (ccase_body cs) a cases = foldl (ccase_body cs') a cases" for a by (intro foldl_cong) simp_all
  then show ?thesis by (simp add: cswitch_def)
qed

lemma cif_agree:
  assumes "agree_cs (size (AST_IF cond body els)) cs cs'"
  shows "cif cs E c cond body els = cif cs' E c cond body els"
proof -
  have b: "cs c body t = cs' c body t" and e: "cs c els t = cs' c els t" for c t by (auto intro!: agree_csD [OF assms])
  show ?thesis unfolding cif_def b e ..
qed

lemma cfor_agree:
  assumes "agree_cs (size (AST_FOR init test update body)) cs cs'"
  shows "cfor cs S c init test update body = cfor cs' S c init test update body"
proof -
  have b: "cs c body t = cs' c body t" for c t by (auto intro!: agree_csD [OF assms])
  have i: "cs c init t = cs' c init t" for c t by (auto intro!: agree_csD [OF assms])
  show ?thesis unfolding cfor_def using i by (cases init) (simp_all only: b stmt.case)
qed

lemma cwhile_agree: "agree_cs (size (AST_WHILE cond body)) cs cs' \<Longrightarrow> cwhile cs E c cond body = cwhile cs' E c cond body"
  by (simp add: cwhile_def agree_cs_def)

lemma cdo_while_agree:
  "agree_cs (size (AST_DO_WHILE body cond)) cs cs' \<Longrightarrow> cdo_while cs E c body cond = cdo_while cs' E c body cond"
  by (simp add: cdo_while_def agree_cs_def)

lemma cfor_of_agree:
  assumes "agree_cs (size (AST_FOR_OF each source body)) cs cs'"
  shows "cfor_of cs S c each source body = cfor_of cs' S c each source body"
proof -
  have b: "cs c body t = cs' c body t" for c t by (auto intro!: agree_csD [OF assms])
  show ?thesis unfolding cfor_of_def b ..
qed

lemma clabel_agree:
  "agree_cs (size (AST_LABEL label inner)) cs cs' \<Longrightarrow> clabel cs S c t label inner = clabel cs' S c t label inner"
  by (simp add: clabel_def agree_cs_def)

lemma cstmt_node_agree:
  assumes "agree_cs (size n) cs cs'"
  shows "cstmt_node cs S c n t = cstmt_node cs' S c n t"
proof (cases n)
  case (AST_PROGRAM items)
  have "cstmts cs True c items = cstmts cs' True c items"
    using assms AST_PROGRAM stmt_size_member by (intro cstmts_agree agree_csD [OF assms]) simp
  then show ?thesis using AST_PROGRAM by (simp add: cstmt_node_def Let_def)
next
  case (AST_BLOCK items)
  have "cblock cs c items = cblock cs' c items"
    using assms AST_BLOCK stmt_size_member by (intro cblock_agree agree_csD [OF assms]) simp
  then show ?thesis using AST_BLOCK by (simp add: cstmt_node_def Let_def)
qed (use assms in \<open>simp_all add: cstmt_node_def Let_def cif_agree cfor_agree cwhile_agree cdo_while_agree cfor_of_agree
  cswitch_agree clabel_agree\<close>)

lemma cstmt_unfold: "cstmt S c n t = cstmt_node (cstmt S) S c n t"
proof -
  have "agree_cs (size n) (\<lambda>c m t. if size m < size n then cstmt S c m t else c) (cstmt S)" by (simp add: agree_cs_def)
  then show ?thesis by (subst cstmt.simps) (rule cstmt_node_agree)
qed

section \<open>Hoisting\<close>

definition hoist_declarator :: "nat \<Rightarrow> bc_comp \<Rightarrow> declarator \<Rightarrow> bc_comp" where
  "hoist_declarator kind c d =
     (case d of
        AST_VAR_DECLARATOR v _ \<Rightarrow>
          (case ident_name v of
             Some x \<Rightarrow>
               if kind \<noteq> 0 \<or> x \<in> set (c_locals c) \<or> length (c_locals c) \<ge> 256 then c
               else (let c1 = c\<lparr>c_locals := c_locals c @ [x], c_var_local_count := length (c_locals c) + 1\<rparr>;
                         (c2, idx) = pool_add_str True c1 (str_bytes x)
                     in emit_declare (emit True c2 BC_PUSH_UNDEFINED) idx kind)
           | None \<Rightarrow> c)
      | DECL_OTHER \<Rightarrow> c)"

text \<open>The list loop stops when the compiler has failed; on a failed compiler the function does nothing anyway.\<close>

function bc_collect_vars_hoist :: "bc_comp \<Rightarrow> stmt \<Rightarrow> bc_comp" where
  "bc_collect_vars_hoist c n =
     (if \<not> c_ok c then c
      else case n of
        AST_PROGRAM items \<Rightarrow> foldl (\<lambda>c m. bc_collect_vars_hoist c m) c items
      | AST_BLOCK items \<Rightarrow> foldl (\<lambda>c m. bc_collect_vars_hoist c m) c items
      | AST_IF cond body els \<Rightarrow> bc_collect_vars_hoist (bc_collect_vars_hoist c body) els
      | AST_FOR init test update body \<Rightarrow> bc_collect_vars_hoist (bc_collect_vars_hoist c init) body
      | AST_WHILE cond body \<Rightarrow> bc_collect_vars_hoist c body
      | AST_DO_WHILE body cond \<Rightarrow> bc_collect_vars_hoist c body
      | AST_FOR_IN each source body \<Rightarrow> bc_collect_vars_hoist c body
      | AST_FOR_OF each source body \<Rightarrow> bc_collect_vars_hoist c body
      | AST_SWITCH test cases \<Rightarrow> foldl (\<lambda>c m. bc_collect_vars_hoist c m) c cases
      | AST_TRY body catch_body finally_body v \<Rightarrow>
          bc_collect_vars_hoist (bc_collect_vars_hoist (bc_collect_vars_hoist c body) catch_body) finally_body
      | AST_VAR_DECL kind ds \<Rightarrow> foldl (hoist_declarator kind) c ds
      | _ \<Rightarrow> c)"
  by pat_completeness auto
termination
  by (relation "measure (\<lambda>(c, n). size n)") (auto simp: size_list_estimation' less_Suc_eq_le trans_le_add1 trans_le_add2)

declare bc_collect_vars_hoist.simps [simp del]

section \<open>Compilation units\<close>

text \<open>\<open>ast_scans_arguments\<close> of \<^verbatim>\<open>src/engine/lr_interp.c\<close> on expressions and on statements.\<close>

function scans_expr :: "ast \<Rightarrow> bool" where
  "scans_expr n =
     (case n of
        AST_IDENTIFIER name \<Rightarrow> name = Some ''arguments''
      | AST_BINARY _ l r \<Rightarrow> scans_expr l \<or> scans_expr r
      | AST_UNARY _ _ a \<Rightarrow> scans_expr a
      | AST_ASSIGN _ tgt val \<Rightarrow> scans_expr tgt \<or> scans_expr val
      | AST_CALL opt _ callee args \<Rightarrow> \<not> opt \<and> (scans_expr callee \<or> list_ex (\<lambda>e. scans_expr e) args)
      | AST_MEMBER obj _ _ \<Rightarrow> scans_expr obj
      | AST_CONDITIONAL a b d \<Rightarrow> scans_expr a \<or> scans_expr b \<or> scans_expr d
      | AST_ARRAY es \<Rightarrow> list_ex (\<lambda>e. scans_expr e) es
      | AST_OBJECT ps \<Rightarrow> list_ex (\<lambda>e. scans_expr e) ps
      | AST_PROPERTY key val _ \<Rightarrow> scans_expr key \<or> scans_expr val
      | AST_NEW callee args \<Rightarrow> scans_expr callee \<or> list_ex (\<lambda>e. scans_expr e) args
      | AST_SEQUENCE es \<Rightarrow> list_ex (\<lambda>e. scans_expr e) es
      | AST_TEMPLATE _ _ es \<Rightarrow> list_ex (\<lambda>e. scans_expr e) es
      | AST_SPREAD a \<Rightarrow> scans_expr a
      | AST_SPREAD_ELEMENT a \<Rightarrow> scans_expr a
      | _ \<Rightarrow> False)"
  by pat_completeness auto
termination
  by (relation "measure size") (auto simp: size_list_estimation' less_Suc_eq_le trans_le_add1 trans_le_add2)

declare scans_expr.simps [simp del]

definition scans_declarator :: "declarator \<Rightarrow> bool" where
  "scans_declarator d = (case d of AST_VAR_DECLARATOR _ init \<Rightarrow> scans_expr init | DECL_OTHER \<Rightarrow> False)"

fun lr_ast_scans_arguments :: "stmt \<Rightarrow> bool" where
  "lr_ast_scans_arguments (AST_PROGRAM items) = list_ex lr_ast_scans_arguments items"
| "lr_ast_scans_arguments (AST_BLOCK items) = list_ex lr_ast_scans_arguments items"
| "lr_ast_scans_arguments (AST_EXPR_STMT e) = scans_expr e"
| "lr_ast_scans_arguments (AST_RETURN e) = scans_expr e"
| "lr_ast_scans_arguments (AST_IF cond body els) =
     (scans_expr cond \<or> lr_ast_scans_arguments body \<or> lr_ast_scans_arguments els)"
| "lr_ast_scans_arguments (AST_FOR init test update body) =
     (lr_ast_scans_arguments init \<or> scans_expr test \<or> scans_expr update \<or> lr_ast_scans_arguments body)"
| "lr_ast_scans_arguments (AST_WHILE cond body) = (scans_expr cond \<or> lr_ast_scans_arguments body)"
| "lr_ast_scans_arguments (AST_DO_WHILE body cond) = (scans_expr cond \<or> lr_ast_scans_arguments body)"
| "lr_ast_scans_arguments (AST_FOR_IN each source body) =
     (lr_ast_scans_arguments each \<or> scans_expr source \<or> lr_ast_scans_arguments body)"
| "lr_ast_scans_arguments (AST_FOR_OF each source body) =
     (lr_ast_scans_arguments each \<or> scans_expr source \<or> lr_ast_scans_arguments body)"
| "lr_ast_scans_arguments (AST_SWITCH test cases) = (scans_expr test \<or> list_ex lr_ast_scans_arguments cases)"
| "lr_ast_scans_arguments (AST_CASE cond body) = (scans_expr cond \<or> lr_ast_scans_arguments body)"
| "lr_ast_scans_arguments (AST_THROW e) = scans_expr e"
| "lr_ast_scans_arguments (AST_TRY body catch_body finally_body v) =
     (lr_ast_scans_arguments body \<or> lr_ast_scans_arguments catch_body \<or> lr_ast_scans_arguments finally_body)"
| "lr_ast_scans_arguments (AST_VAR_DECL kind ds) = list_ex scans_declarator ds"
| "lr_ast_scans_arguments (STMT_EXPR e) = scans_expr e"
| "lr_ast_scans_arguments _ = False"

text \<open>What the compiler leaves in the program. The two scans read every byte of the code, operands included.\<close>

record bc_unit =
  u_code :: bytes
  u_pool :: "bc_const list"
  u_local_count :: nat
  u_uses_name_ops :: bool
  u_touches_eval_node :: bool
  u_scans_arguments :: bool
  u_is_pure :: bool
  u_compiled :: bool
  u_max_stack :: int

definition uses_name_ops :: "bytes \<Rightarrow> bool" where
  "uses_name_ops code = list_ex (\<lambda>b. b \<in> {BC_LOAD_VAR, BC_STORE_VAR, BC_DECLARE_VAR, BC_TYPEOF_VAR}) code"

definition touches_eval_node :: "bytes \<Rightarrow> bool" where
  "touches_eval_node code = list_ex (\<lambda>b. b = BC_EVAL_NODE \<or> b = BC_EVAL_NODE_POP) code"

definition comp_start :: "string list \<Rightarrow> bool \<Rightarrow> bc_comp" where
  "comp_start pre disable =
     (let ns = take 256 pre in
      bc_comp_init\<lparr>c_disable_local_slots := disable, c_locals := ns, c_local_base := length ns, c_var_local_count := length ns\<rparr>)"

definition is_program :: "stmt \<Rightarrow> bool" where
  "is_program n = (case n of AST_PROGRAM _ \<Rightarrow> True | _ \<Rightarrow> False)"

definition compile_body :: "stmt_env \<Rightarrow> stmt \<Rightarrow> string list \<Rightarrow> bool \<Rightarrow> bc_comp" where
  "compile_body S n pre disable =
     emit True (cstmt S (bc_collect_vars_hoist (comp_start pre disable) n) n (\<not> is_program n)) BC_STOP"

text \<open>\<open>Overrun\<close>: the compiler has written past \<open>local_scope_stack\<close>, and nothing is known of what it returns.\<close>

datatype bc_result = Compiled bc_unit | Overrun

definition bc_compile_ex :: "stmt_env \<Rightarrow> bool \<Rightarrow> stmt \<Rightarrow> string list \<Rightarrow> bool \<Rightarrow> bc_result" where
  "bc_compile_ex S can_inline n pre disable =
     (let c = compile_body S n pre disable; code = c_code c;
          locals = length (c_locals c); base = c_local_base c;
          ev = touches_eval_node code; sc = lr_ast_scans_arguments n
      in if c_scope_overrun c then Overrun
         else Compiled
         \<lparr>u_code = code, u_pool = c_pool c,
          u_local_count = (if locals \<ge> base then locals - base else locals),
          u_uses_name_ops = uses_name_ops code, u_touches_eval_node = ev, u_scans_arguments = sc,
          u_is_pure = (can_inline \<and> \<not> c_uses_this c \<and> \<not> sc \<and> \<not> ev \<and> bc_code_is_pure code),
          u_compiled = c_ok c,
          u_max_stack = (if c_max_stack_depth c > 64 then c_max_stack_depth c else 64)\<rparr>)"

definition bc_compile :: "stmt_env \<Rightarrow> stmt \<Rightarrow> bc_result" where
  "bc_compile S n = bc_compile_ex S False n [] False"

record js_func =
  fn_arrow :: bool
  fn_name :: "string option"
  fn_params :: "ast list"
  fn_body :: stmt
  fn_derived :: bool
  fn_generator :: bool
  fn_async :: bool

definition bc_func_slot_safe :: "js_func \<Rightarrow> bool" where
  "bc_func_slot_safe f \<longleftrightarrow>
     \<not> (\<not> fn_arrow f \<and> (fn_derived f \<or> lr_ast_scans_arguments (fn_body f)))
     \<and> list_all (\<lambda>p. ident_name p \<noteq> None) (fn_params f)"

text \<open>
  The compiled function with its parameter count, whether it may be inlined, and its name with the slot of that name;
  \<open>None\<close> where there is no body. \<open>can_inline\<close> is false in a fresh program.
\<close>

definition bc_compile_func :: "stmt_env \<Rightarrow> js_func \<Rightarrow> (bc_result \<times> nat \<times> bool \<times> (string \<times> nat) option) option" where
  "bc_compile_func S f =
     (if fn_body f = STMT_NONE then None
      else if \<not> bc_func_slot_safe f then Some (bc_compile_ex S False (fn_body f) [] True, 0, False, None)
      else let pre = take 256 (''this'' # map (\<lambda>p. case ident_name p of Some x \<Rightarrow> x | None \<Rightarrow> []) (fn_params f));
               inl = (if fn_arrow f then \<not> fn_async f else \<not> fn_generator f \<and> \<not> fn_async f)
           in Some (bc_compile_ex S inl (fn_body f) pre False, min 255 (length (fn_params f)), inl,
                    if fn_arrow f then None else map_option (\<lambda>x. (x, length pre)) (fn_name f)))"

end
