(* ===== verification/LR_Typed.thy ===== *)
theory LR_Typed
  imports LR_Stmt LR_Gen
begin

text \<open>
  A bytecode verifier and the proof that everything the compiler emits passes it: instructions have operands of the kinds
  of the opcode table, constant operands name constants of the right type, slot operands name registered locals, and
  every jump lands on the first byte of an instruction or on the end of the code. The executor checks none of this.
\<close>

section \<open>The verifier\<close>

text \<open>The byte offset of the instruction with an index, and the offsets where an instruction begins.\<close>

definition off_at :: "insn list \<Rightarrow> nat \<Rightarrow> nat" where
  "off_at is k = length (enc (take k is))"

definition boundary :: "insn list \<Rightarrow> nat \<Rightarrow> bool" where
  "boundary is t \<longleftrightarrow> (\<exists>k\<le>length is. t = off_at is k)"

definition jump_off :: "insn \<Rightarrow> int option" where
  "jump_off i =
     (case snd i of
        [I32 v] \<Rightarrow> if fst i = BC_PUSH_INT32 then None else Some v
      | [U16 _, I32 _, I32 v] \<Rightarrow> Some v
      | _ \<Rightarrow> None)"

definition jumps_ok :: "insn list \<Rightarrow> bool" where
  "jumps_ok is \<longleftrightarrow> (\<forall>k<length is. \<forall>v. jump_off (is ! k) = Some v \<longrightarrow>
     (\<exists>t. boundary is t \<and> int t = int (off_at is (Suc k)) + v))"

definition well_kinded :: "insn \<Rightarrow> bool" where
  "well_kinded i \<longleftrightarrow> insn_typed i \<or> fst i = BC_LOAD_PROP_ADD \<and> insn_typed (BC_LOAD_PROP, snd i)"

definition is_str :: "bc_const list \<Rightarrow> nat \<Rightarrow> bool" where
  "is_str pool i \<longleftrightarrow> i < length pool \<and> (case c_val (pool ! i) of Pool_string _ \<Rightarrow> True | _ \<Rightarrow> False)"

definition is_f64 :: "bc_const list \<Rightarrow> nat \<Rightarrow> bool" where
  "is_f64 pool i \<longleftrightarrow> i < length pool \<and> (case c_val (pool ! i) of Pool_float64 _ \<Rightarrow> True | _ \<Rightarrow> False)"

definition is_node :: "bc_const list \<Rightarrow> nat \<Rightarrow> bool" where
  "is_node pool i \<longleftrightarrow> i < length pool \<and> (case c_val (pool ! i) of Pool_node _ \<Rightarrow> True | _ \<Rightarrow> False)"

definition slot_ops :: "byte list" where
  "slot_ops = [BC_LOAD_LOCAL, BC_STORE_LOCAL, BC_INC_LOCAL, BC_INC_LOCAL_DISCARD, BC_ADD_SELF, BC_MUL_SELF]"

definition count_ops :: "byte list" where
  "count_ops = [BC_CALL, BC_CALL_ELEM, BC_NEW, BC_NEW_ARRAY]"

text \<open>The slots, strings, doubles and nodes that the operands of an instruction name.\<close>

definition refs :: "insn \<Rightarrow> nat list \<times> nat list \<times> nat list \<times> nat list" where
  "refs i =
     (case snd i of
        [U16 a] \<Rightarrow>
          if fst i \<in> set slot_ops then ([nat a], [], [], [])
          else if fst i \<in> set count_ops then ([], [], [], [])
          else if fst i = BC_PUSH_FLOAT64 then ([], [], [nat a], [])
          else if fst i = BC_EVAL_NODE \<or> fst i = BC_EVAL_NODE_POP then ([], [], [], [nat a])
          else ([], [nat a], [], [])
      | [U16 a, U16 b] \<Rightarrow> if fst i = BC_CALL_METHOD then ([], [nat a], [], []) else ([nat a], [nat b], [], [])
      | [U16 a, U8 b] \<Rightarrow> ([], [nat a], [], [])
      | [U16 a, I32 v, I32 w] \<Rightarrow> ([nat a], [], [], [])
      | _ \<Rightarrow> ([], [], [], []))"

definition refs_ok :: "bc_const list \<Rightarrow> nat \<Rightarrow> insn \<Rightarrow> bool" where
  "refs_ok pool N i =
     (case refs i of (slots, strs, nums, nodes) \<Rightarrow>
        list_all (\<lambda>a. a < N) slots \<and> list_all (is_str pool) strs \<and> list_all (is_f64 pool) nums \<and> list_all (is_node pool) nodes)"

definition verified :: "bc_const list \<Rightarrow> nat \<Rightarrow> insn list \<Rightarrow> bool" where
  "verified pool N is \<longleftrightarrow> list_all well_kinded is \<and> list_all (refs_ok pool N) is \<and> jumps_ok is"

section \<open>Offsets\<close>

lemma off_at_append: "k \<le> length is \<Longrightarrow> off_at (is @ js) k = off_at is k"
  by (simp add: off_at_def)

lemma off_at_end: "off_at is (length is) = length (enc is)"
  by (simp add: off_at_def)

lemma off_at_Suc: "k < length is \<Longrightarrow> off_at is (Suc k) = off_at is k + length (enc_insn (is ! k))"
  by (simp add: off_at_def take_Suc_conv_app_nth)

lemma off_at_update:
  assumes "length (enc_insn i) = length (enc_insn (is ! k))" "k < length is"
  shows "off_at (is[k := i]) m = off_at is m"
proof (induction m)
  case (Suc m)
  show ?case
  proof (cases "m < length is")
    case True
    then have "off_at (is[k := i]) (Suc m) = off_at (is[k := i]) m + length (enc_insn (is[k := i] ! m))"
      by (intro off_at_Suc) simp
    then show ?thesis using Suc True assms off_at_Suc [OF True] by (cases "m = k") simp_all
  next
    case False
    then have "off_at js (Suc m) = off_at js m" if "length js = length is" for js using that by (simp add: off_at_def)
    then show ?thesis using Suc by simp
  qed
qed (simp add: off_at_def)

lemma boundary_append: "boundary is t \<Longrightarrow> boundary (is @ js) t"
  unfolding boundary_def using off_at_append by (metis le_add1 length_append le_trans)

lemma boundary_end: "boundary is (length (enc is))"
  unfolding boundary_def using off_at_end by (metis order_refl)

lemma boundary_update:
  assumes "length (enc_insn i) = length (enc_insn (is ! k))" "k < length is"
  shows "boundary (is[k := i]) t = boundary is t"
  by (simp add: boundary_def off_at_update [OF assms])

text \<open>The position of a jump operand.\<close>

definition jump_at :: "insn list \<Rightarrow> nat \<Rightarrow> bool" where
  "jump_at is p \<longleftrightarrow> (\<exists>k<length is. jump_off (is ! k) \<noteq> None \<and> p + 4 = off_at is (Suc k))"

lemma jump_at_append: "jump_at is p \<Longrightarrow> jump_at (is @ js) p"
proof -
  assume "jump_at is p"
  then obtain k where k: "k < length is" "jump_off (is ! k) \<noteq> None" "p + 4 = off_at is (Suc k)" by (auto simp: jump_at_def)
  then show ?thesis unfolding jump_at_def using off_at_append [of "Suc k" "is" js] by (intro exI [of _ k]) (simp add: nth_append)
qed

lemma jump_at_end: "jump_off i \<noteq> None \<Longrightarrow> p + 4 = length (enc (is @ [i])) \<Longrightarrow> jump_at (is @ [i]) p"
  unfolding jump_at_def using off_at_end [of "is @ [i]"] by (intro exI [of _ "length is"]) simp

lemma jump_at_update:
  assumes "length (enc_insn i) = length (enc_insn (is ! k))" "k < length is" "jump_off i = None \<longleftrightarrow> jump_off (is ! k) = None"
  shows "jump_at (is[k := i]) p = jump_at is p"
proof -
  have "jump_off (is[k := i] ! m) = None \<longleftrightarrow> jump_off (is ! m) = None" for m
    using assms(2,3) by (cases "m = k") simp_all
  then show ?thesis by (simp add: jump_at_def off_at_update [OF assms(1,2)])
qed

lemma jumps_ok_append:
  assumes "jumps_ok is" "\<And>v. jump_off i = Some v \<Longrightarrow> \<exists>t. boundary (is @ [i]) t \<and> int t = int (length (enc (is @ [i]))) + v"
  shows "jumps_ok (is @ [i])"
  unfolding jumps_ok_def
proof (intro allI impI)
  fix k v
  assume k: "k < length (is @ [i])" "jump_off ((is @ [i]) ! k) = Some v"
  show "\<exists>t. boundary (is @ [i]) t \<and> int t = int (off_at (is @ [i]) (Suc k)) + v"
  proof (cases "k < length is")
    case True
    then have "jump_off (is ! k) = Some v" using k by (simp add: nth_append)
    then obtain t where "boundary is t" "int t = int (off_at is (Suc k)) + v" using assms(1) True unfolding jumps_ok_def by blast
    then show ?thesis using boundary_append [of "is" t "[i]"] off_at_append [of "Suc k" "is" "[i]"] True by auto
  next
    case False
    then have "k = length is" using k by simp
    then show ?thesis using assms(2) k off_at_end [of "is @ [i]"] by simp
  qed
qed

lemma jumps_ok_update:
  assumes "jumps_ok is" "length (enc_insn i) = length (enc_insn (is ! k))" "k < length is"
    "\<And>v. jump_off i = Some v \<Longrightarrow> \<exists>t. boundary is t \<and> int t = int (off_at is (Suc k)) + v"
  shows "jumps_ok (is[k := i])"
  using assms(1,3,4) by (auto simp: jumps_ok_def off_at_update [OF assms(2,3)] boundary_update [OF assms(2,3)] nth_list_update)

section \<open>The invariant of the compiler\<close>

text \<open>
  \<open>wt c is\<close>: the code of \<open>c\<close> is that of \<open>is\<close>, which passes the verifier, and the break and continue lists of the open loops
  hold positions of jump operands. \<open>fits\<close> says that the compiler has not failed and the offsets fit their operands.
\<close>

definition wt :: "bc_comp \<Rightarrow> insn list \<Rightarrow> bool" where
  "wt c is \<longleftrightarrow> at_boundary c is \<and> verified (c_pool c) (length (c_locals c)) is
     \<and> (\<forall>lp\<in>set (c_loops c). \<forall>p\<in>set (l_brk lp) \<union> set (l_cont lp). jump_at is p)"

definition fits :: "bc_comp \<Rightarrow> bool" where
  "fits c \<longleftrightarrow> c_ok c \<and> length (c_code c) < 2 ^ 31"

definition ext :: "insn list \<Rightarrow> insn list \<Rightarrow> bool" where
  "ext is js \<longleftrightarrow> (\<forall>p. jump_at is p \<longrightarrow> jump_at js p) \<and> (\<forall>t. boundary is t \<longrightarrow> boundary js t)"

text \<open>
  From \<open>c\<close> to \<open>c'\<close> the compiler keeps the invariant, if it has not failed in between; the jump operands at \<open>X\<close> and the
  instruction boundaries \<open>T\<close> are there afterwards.
\<close>

definition grows :: "bc_comp \<Rightarrow> bc_comp \<Rightarrow> bool" where
  "grows c c' \<longleftrightarrow> (fits c' \<longrightarrow> fits c) \<and> prefix (c_pool c) (c_pool c') \<and> length (c_locals c) \<le> length (c_locals c')
     \<and> c_local_base c' = c_local_base c"

definition emits :: "bc_comp \<Rightarrow> bc_comp \<Rightarrow> nat set \<Rightarrow> nat set \<Rightarrow> bool" where
  "emits c c' X T \<longleftrightarrow> grows c c' \<and>
     (\<forall>is. wt c is \<longrightarrow> fits c' \<longrightarrow> (\<exists>js. wt c' js \<and> ext is js \<and> (\<forall>p\<in>X. jump_at js p) \<and> (\<forall>t\<in>T. boundary js t)))"

abbreviation emits0 :: "bc_comp \<Rightarrow> bc_comp \<Rightarrow> bool" where
  "emits0 c c' \<equiv> emits c c' {} {}"

lemma ext_refl [simp]: "ext is is"
  by (simp add: ext_def)

lemma ext_trans: "ext is js \<Longrightarrow> ext js ks \<Longrightarrow> ext is ks"
  by (simp add: ext_def)

lemma typed_grows_refl [simp]: "grows c c"
  by (simp add: grows_def)

lemma typed_grows_trans: "grows c c1 \<Longrightarrow> grows c1 c2 \<Longrightarrow> grows c c2"
  by (auto simp: grows_def intro: prefix_order.trans)

lemma emits_refl: "emits0 c c"
  by (auto simp: emits_def)

lemma emits_trans:
  assumes "emits c c1 X T" "emits c1 c2 Y U"
  shows "emits c c2 (X \<union> Y) (T \<union> U)"
  unfolding emits_def
proof (intro conjI allI impI)
  show "grows c c2" using assms typed_grows_trans [of c c1 c2] by (simp add: emits_def)
  fix "is"
  assume wt: "wt c is" "fits c2"
  then have "fits c1" using assms(2) by (simp add: emits_def grows_def)
  then obtain js where js: "wt c1 js" "ext is js" "\<forall>p\<in>X. jump_at js p" "\<forall>t\<in>T. boundary js t"
    using assms(1) wt unfolding emits_def by blast
  then obtain ks where ks: "wt c2 ks" "ext js ks" "\<forall>p\<in>Y. jump_at ks p" "\<forall>t\<in>U. boundary ks t"
    using assms(2) wt unfolding emits_def by blast
  then have "(\<forall>p\<in>X \<union> Y. jump_at ks p) \<and> (\<forall>t\<in>T \<union> U. boundary ks t)" using js by (auto simp: ext_def)
  then show "\<exists>js. wt c2 js \<and> ext is js \<and> (\<forall>p\<in>X \<union> Y. jump_at js p) \<and> (\<forall>t\<in>T \<union> U. boundary js t)"
    using ks(1) ext_trans [OF js(2) ks(2)] by blast
qed

lemma emits_sub: "emits c c1 X T \<Longrightarrow> Y \<subseteq> X \<Longrightarrow> U \<subseteq> T \<Longrightarrow> emits c c1 Y U"
  unfolding emits_def by blast

lemma emits_then0: "emits c c1 X T \<Longrightarrow> emits0 c1 c2 \<Longrightarrow> emits c c2 X T"
  using emits_trans by fastforce

lemma emits_here: "emits c c1 X T \<Longrightarrow> emits c c1 X (insert (here c1) T)"
  unfolding emits_def
proof (elim conjE, intro conjI allI impI)
  fix "is"
  assume h: "\<forall>is. wt c is \<longrightarrow> fits c1 \<longrightarrow> (\<exists>js. wt c1 js \<and> ext is js \<and> (\<forall>p\<in>X. jump_at js p) \<and> (\<forall>t\<in>T. boundary js t))"
    and w: "wt c is" "fits c1"
  from h w obtain js where js: "wt c1 js" "ext is js" "\<forall>p\<in>X. jump_at js p" "\<forall>t\<in>T. boundary js t" by blast
  then have "here c1 = length (enc js)" using at_boundary_enc [of c1 js] by (simp add: wt_def here_def)
  then have "boundary js (here c1)" using boundary_end by simp
  then show "\<exists>js. wt c1 js \<and> ext is js \<and> (\<forall>p\<in>X. jump_at js p) \<and> (\<forall>t\<in>insert (here c1) T. boundary js t)" using js by blast
qed

text \<open>Changes that do not touch the code.\<close>

lemma refs_ok_mono:
  assumes "refs_ok pool N i" "prefix pool pool'" "N \<le> N'"
  shows "refs_ok pool' N' i"
proof -
  have p: "is_str pool' a" if "is_str pool a" for a using that assms(2) by (auto simp: is_str_def prefix_def nth_append)
  have q: "is_f64 pool' a" if "is_f64 pool a" for a using that assms(2) by (auto simp: is_f64_def prefix_def nth_append)
  have r: "is_node pool' a" if "is_node pool a" for a using that assms(2) by (auto simp: is_node_def prefix_def nth_append)
  show ?thesis using assms(1,3) p q r by (cases "refs i") (auto simp: refs_ok_def list_all_iff)
qed

lemma verified_mono: "verified pool N is \<Longrightarrow> prefix pool pool' \<Longrightarrow> N \<le> N' \<Longrightarrow> verified pool' N' is"
  by (auto simp: verified_def list_all_iff intro: refs_ok_mono)

lemma emits_same:
  assumes "c_code c' = c_code c" "c_ok c' \<Longrightarrow> c_ok c" "c_cur_inst_start c' = c_cur_inst_start c"
    "c_inst_written c' = c_inst_written c" "c_inst_total c' = c_inst_total c" "c_loops c' = c_loops c"
    "prefix (c_pool c) (c_pool c')" "length (c_locals c) \<le> length (c_locals c')" "c_local_base c' = c_local_base c"
  shows "emits0 c c'"
  unfolding emits_def
proof (intro conjI allI impI)
  show "grows c c'" using assms by (simp add: grows_def fits_def)
  fix "is"
  assume "wt c is" "fits c'"
  then have "wt c' is" using assms verified_mono by (auto simp: wt_def at_boundary_def fits_def)
  then show "\<exists>js. wt c' js \<and> ext is js \<and> (\<forall>p\<in>{}. jump_at js p) \<and> (\<forall>t\<in>{}. boundary js t)" by auto
qed

section \<open>Instructions\<close>

lemma insn_typed_ok: "insn_typed i \<Longrightarrow> fst i \<noteq> BC_LOAD_PROP_ADD \<Longrightarrow> insn_ok i"
  by (auto simp: insn_ok_def insn_typed_len operand_ok_def elim!: insn_typed_cases)

text \<open>What emitting any byte or operand leaves alone.\<close>

definition only_code :: "bc_comp \<Rightarrow> bc_comp \<Rightarrow> bool" where
  "only_code c c' \<longleftrightarrow> (c_ok c' \<longrightarrow> c_ok c) \<and> length (c_code c) \<le> length (c_code c') \<and> c_pool c' = c_pool c
     \<and> c_locals c' = c_locals c \<and> c_loops c' = c_loops c \<and> c_local_base c' = c_local_base c"

lemma only_code_trans: "only_code a b \<Longrightarrow> only_code b c \<Longrightarrow> only_code a c"
  by (simp add: only_code_def)

lemma only_code_emit [simp]:
  "only_code c (emit True c b)" "only_code c (emit16 True c v)" "only_code c (emit32 True c w)"
  by (simp_all add: only_code_def emit_def emit16_def emit32_def bc_ensure_def count_operand_def update_stack_def Let_def)

lemma only_code_operand: "only_code c (emit_operand True a c)"
  by (cases a) (simp_all add: emit_operand_def)

lemma only_code_operands: "only_code c (fold (emit_operand True) as c)"
proof (induction as arbitrary: c)
  case (Cons a as)
  show ?case using only_code_trans [OF only_code_operand Cons.IH] by simp
qed (simp add: only_code_def)

lemma only_code_insn: "only_code c (emit_insn True i c)"
  unfolding emit_insn_def by (rule only_code_trans [OF only_code_emit(1) only_code_operands])

lemma only_code_grows: "only_code c c' \<Longrightarrow> grows c c'"
  by (auto simp: only_code_def grows_def fits_def)

lemma wt_append:
  assumes "wt c is" "at_boundary c' (is @ [i])" "only_code c c'" "insn_typed i" "refs_ok (c_pool c) (length (c_locals c)) i"
    "jump_off i = None \<or> jump_off i = Some 0"
  shows "wt c' (is @ [i])" "ext is (is @ [i])"
proof -
  have "jumps_ok (is @ [i])"
    using assms(1,6) boundary_end [of "is @ [i]"] by (intro jumps_ok_append) (auto simp: wt_def verified_def)
  then show "wt c' (is @ [i])" using assms jump_at_append by (auto simp: wt_def verified_def only_code_def well_kinded_def)
  show "ext is (is @ [i])" using jump_at_append boundary_append by (simp add: ext_def)
qed

lemma wt_lp_len: "wt c is \<Longrightarrow> \<forall>i\<in>set is. length (enc_insn i) = (if fst i = BC_LOAD_PROP then 5 else length (enc_insn i))"
proof -
  assume w: "wt c is"
  have "length (enc_insn i) = 5" if "i \<in> set is" "fst i = BC_LOAD_PROP" for i
  proof -
    have "insn_typed i" using w that by (auto simp: wt_def verified_def list_all_iff well_kinded_def)
    then show ?thesis using that(2) by (simp add: insn_typed_len total_len_opcodes)
  qed
  then show ?thesis by simp
qed

lemma wt_fuse:
  assumes w: "wt c is" and f: "fusible c"
  shows "\<exists>js. wt (emit True c BC_ADD) js \<and> ext is js"
proof -
  have at: "at_boundary c is" using w by (simp add: wt_def)
  have l: "is \<noteq> []" "fst (last is) = BC_LOAD_PROP" using fusible_boundary [OF at wt_lp_len [OF w]] f by auto
  let ?k = "length is - 1" and ?i = "(BC_LOAD_PROP_ADD, snd (last is))"
  have k: "?k < length is" "is ! ?k = last is" using l(1) by (simp_all add: last_conv_nth)
  have upd: "butlast is @ [?i] = is[?k := ?i]" using l(1) by (cases "is" rule: rev_cases) simp_all
  have e: "length (enc_insn ?i) = length (enc_insn (is ! ?k))" using k by (simp add: enc_insn_def)
  have ty: "insn_typed (BC_LOAD_PROP, snd (last is))" "refs_ok (c_pool c) (length (c_locals c)) (last is)"
    using w l last_in_set [OF l(1)] prod.collapse [of "last is"]
    by (auto simp: wt_def verified_def list_all_iff well_kinded_def)
  have "snd (bc_info BC_LOAD_PROP) = 3" by (simp add: bc_info_def bc_info_table_def BC_LOAD_PROP_def)
  with ty(1) obtain a b where ab: "snd (last is) = [U16 a, U16 b]" by (auto elim!: insn_typed_cases)
  have j: "jump_off ?i = None" "jump_off (is ! ?k) = None" using ab k by (simp_all add: jump_off_def)
  have "refs ?i = refs (last is)" using ab l(2) by (simp add: refs_def) (simp add: bc_opcode_defs)
  then have r: "refs_ok (c_pool c) (length (c_locals c)) ?i" using ty(2) by (simp add: refs_ok_def)
  have "at_boundary (emit True c BC_ADD) (is[?k := ?i])"
    using at_boundary_fuse [OF at l(1) f] unfolding upd by (simp add: emit_insn_forms)
  moreover have "verified (c_pool c) (length (c_locals c)) (is[?k := ?i])"
  proof -
    have "set (is[?k := ?i]) \<subseteq> insert ?i (set is)" by (rule set_update_subset_insert)
    moreover have "well_kinded ?i" using ty(1) by (simp add: well_kinded_def)
    moreover have "jumps_ok (is[?k := ?i])" using w e k(1) j by (intro jumps_ok_update) (auto simp: wt_def verified_def)
    ultimately show ?thesis using w r by (auto simp: wt_def verified_def list_all_iff)
  qed
  moreover have x: "ext is (is[?k := ?i])" using jump_at_update [OF e k(1)] boundary_update [OF e k(1)] j by (simp add: ext_def)
  moreover have "only_code c (emit True c BC_ADD)" by simp
  ultimately have "wt (emit True c BC_ADD) (is[?k := ?i])" using w by (auto simp: wt_def only_code_def ext_def)
  then show ?thesis using x by blast
qed

lemma emits_insn:
  assumes "emits c c1 X T" "fst i \<noteq> BC_LOAD_PROP_ADD" "fst i \<noteq> BC_ADD" "jump_off i = None \<or> jump_off i = Some 0"
    "fits (emit_insn True i c1) \<Longrightarrow> fits c1 \<Longrightarrow> insn_typed i \<and> refs_ok (c_pool c1) (length (c_locals c1)) i"
  shows "emits c (emit_insn True i c1) (if jump_off i = None then X else insert (length (c_code (emit_insn True i c1)) - 4) X) T"
proof -
  let ?c2 = "emit_insn True i c1" and ?Y = "if jump_off i = None then {} else {length (c_code (emit_insn True i c1)) - 4}"
  have g: "grows c1 ?c2" by (rule only_code_grows [OF only_code_insn])
  have "emits c1 ?c2 ?Y {}"
    unfolding emits_def
  proof (intro conjI g allI impI)
    fix "is"
    assume w: "wt c1 is" "fits ?c2"
    have f1: "fits c1" using g w(2) by (simp add: grows_def)
    have ty: "insn_typed i" "refs_ok (c_pool c1) (length (c_locals c1)) i" using assms(5) [OF w(2) f1] by auto
    have at: "at_boundary c1 is" using w(1) by (simp add: wt_def)
    have b: "at_boundary ?c2 (is @ [i])"
      using assms(2,3) insn_typed_ok [OF ty(1)] by (intro at_boundary_start_insn [OF at]) auto
    note a = wt_append [OF w(1) b only_code_insn ty assms(4)]
    have "jump_at (is @ [i]) p" if "p \<in> ?Y" for p
    proof -
      have j: "jump_off i \<noteq> None" "p = length (c_code ?c2) - 4" using that by (auto split: if_splits)
      have c: "c_code ?c2 = enc (is @ [i])" by (rule at_boundary_enc [OF b])
      have "4 \<le> length (enc_insn i)" using j(1) by (auto simp: jump_off_def enc_insn_def enc_operand_def split: list.splits operand.splits if_splits)
      then have "p + 4 = length (enc (is @ [i]))" using j(2) c by simp
      then show ?thesis using j(1) by (intro jump_at_end)
    qed
    then show "\<exists>js. wt ?c2 js \<and> ext is js \<and> (\<forall>p\<in>?Y. jump_at js p) \<and> (\<forall>t\<in>{}. boundary js t)" using a by blast
  qed
  from emits_trans [OF assms(1) this] show ?thesis by (cases "jump_off i") simp_all
qed

lemma emits_op:
  assumes "emits c c1 X T" "snd (bc_info op) = 0" "op \<noteq> BC_LOAD_PROP_ADD"
  shows "emits c (emit True c1 op) X T"
proof (cases "op = BC_ADD")
  case True
  have g: "grows c1 (emit True c1 op)" by (rule only_code_grows) simp
  have "emits0 c1 (emit True c1 op)"
    unfolding emits_def
  proof (intro conjI g allI impI)
    fix "is"
    assume w: "wt c1 is" "fits (emit True c1 op)"
    have at: "at_boundary c1 is" using w(1) by (simp add: wt_def)
    show "\<exists>js. wt (emit True c1 op) js \<and> ext is js \<and> (\<forall>p\<in>{}. jump_at js p) \<and> (\<forall>t\<in>{}. boundary js t)"
    proof (cases "fusible c1")
      case True
      then show ?thesis using wt_fuse [OF w(1) True] \<open>op = BC_ADD\<close> by simp
    next
      case False
      have ty: "insn_typed (op, [])" using assms(2) by (rule insn_typed_kinds)
      have "at_boundary (emit True c1 op) (is @ [(op, [])])"
        using at_boundary_start_insn [OF at _ insn_typed_ok [OF ty]] False assms(3) by (simp add: emit_insn_forms)
      from wt_append [OF w(1) this _ ty] show ?thesis by (auto simp: refs_ok_def refs_def jump_off_def)
    qed
  qed
  then show ?thesis by (rule emits_then0 [OF assms(1)])
next
  case False
  have "emits c (emit_insn True (op, []) c1) (if jump_off (op, []) = None then X
      else insert (length (c_code (emit_insn True (op, []) c1)) - 4) X) T"
    using assms False by (intro emits_insn) (auto simp: insn_typed_kinds refs_ok_def refs_def jump_off_def)
  then show ?thesis by (simp add: emit_insn_forms jump_off_def)
qed

lemma emit_forms:
  "emit_insn True (op, [U16 (int i), U16 (int j)]) c = emit16 True (emit_idx c op i) (int j)"
  "emit_insn True (op, [U16 (int i), U8 b]) c = emit True (emit_idx c op i) b"
  "emit_insn True (op, [U16 (int i), I32 v, I32 w]) c = emit32 True (emit32 True (emit_idx c op i) v) w"
  by (simp_all add: emit_insn_def emit_operand_def emit_idx_def)

lemma fits_idx: "fits (emit_idx c op i) \<Longrightarrow> i < 65536"
  by (simp add: fits_def emit_idx_def)

lemma fits16: "fits (emit16 True c v) \<Longrightarrow> fits c \<and> 0 \<le> v \<and> v \<le> 0xFFFF"
  using only_code_grows [OF only_code_emit(2) [of c v]] by (auto simp: fits_def grows_def)

lemma fits32: "fits (emit32 True c v) \<Longrightarrow> fits c" "fits (emit True c b) \<Longrightarrow> fits c"
  using only_code_grows [OF only_code_emit(3) [of c v]] only_code_grows [OF only_code_emit(1) [of c b]] by (auto simp: grows_def)

lemma kinds_typed:
  "snd (bc_info op) = 3 \<Longrightarrow> i < 65536 \<Longrightarrow> j < 65536 \<Longrightarrow> insn_typed (op, [U16 (int i), U16 (int j)])"
  "snd (bc_info op) = 4 \<Longrightarrow> i < 65536 \<Longrightarrow> insn_typed (op, [U16 (int i), U8 b])"
  "snd (bc_info op) = 5 \<Longrightarrow> i < 65536 \<Longrightarrow> - (2 ^ 31) \<le> v \<Longrightarrow> v < 2 ^ 31 \<Longrightarrow> insn_typed (op, [U16 (int i), I32 v, I32 0])"
proof -
  have n: "(3 :: nat) = Suc (Suc (Suc 0))" "(4 :: nat) = Suc (Suc (Suc (Suc 0)))" "(5 :: nat) = Suc (Suc (Suc (Suc (Suc 0))))" by simp_all
  show "snd (bc_info op) = 3 \<Longrightarrow> i < 65536 \<Longrightarrow> j < 65536 \<Longrightarrow> insn_typed (op, [U16 (int i), U16 (int j)])"
    by (simp add: insn_typed_def n)
  show "snd (bc_info op) = 4 \<Longrightarrow> i < 65536 \<Longrightarrow> insn_typed (op, [U16 (int i), U8 b])"
    by (simp add: insn_typed_def n)
  show "snd (bc_info op) = 5 \<Longrightarrow> i < 65536 \<Longrightarrow> - (2 ^ 31) \<le> v \<Longrightarrow> v < 2 ^ 31 \<Longrightarrow> insn_typed (op, [U16 (int i), I32 v, I32 0])"
    by (simp add: insn_typed_def n)
qed

lemma kind_nonzero: "snd (bc_info op) \<noteq> 0 \<Longrightarrow> op \<noteq> BC_ADD \<and> op \<noteq> BC_LOAD_PROP_ADD"
  by (auto simp: bc_info_def bc_info_table_def BC_ADD_def BC_LOAD_PROP_ADD_def)

lemma emits_idx:
  assumes "emits c c1 X T" "snd (bc_info op) = 1"
    "fits c1 \<Longrightarrow> refs_ok (c_pool c1) (length (c_locals c1)) (op, [U16 (int i)])"
  shows "emits c (emit_idx c1 op i) X T"
proof -
  have j: "jump_off (op, [U16 (int i)]) = None" by (simp add: jump_off_def)
  have "emits c (emit_insn True (op, [U16 (int i)]) c1) (if jump_off (op, [U16 (int i)]) = None then X
      else insert (length (c_code (emit_insn True (op, [U16 (int i)]) c1)) - 4) X) T"
    using assms kind_nonzero [of op] j
    by (intro emits_insn) (auto simp: emit_insn_forms insn_typed_kinds dest: fits_idx)
  then show ?thesis by (simp add: emit_insn_forms j)
qed

lemma emits_idx2:
  assumes "emits c c1 X T" "snd (bc_info op) = 3"
    "fits c1 \<Longrightarrow> refs_ok (c_pool c1) (length (c_locals c1)) (op, [U16 (int i), U16 (int k)])"
  shows "emits c (emit16 True (emit_idx c1 op i) (int k)) X T"
proof -
  let ?i = "(op, [U16 (int i), U16 (int k)])"
  have j: "jump_off ?i = None" by (simp add: jump_off_def)
  have "insn_typed ?i" if "fits (emit_insn True ?i c1)"
  proof (rule kinds_typed(1) [OF assms(2)])
    have f: "fits (emit16 True (emit_idx c1 op i) (int k))" using that by (simp add: emit_forms)
    show "i < 65536" using fits_idx fits16 [OF f] by blast
    show "k < 65536" using fits16 [OF f] by simp
  qed
  then have "emits c (emit_insn True ?i c1) (if jump_off ?i = None then X else insert (length (c_code (emit_insn True ?i c1)) - 4) X) T"
    using assms kind_nonzero [of op] j by (intro emits_insn) auto
  then show ?thesis by (simp add: emit_forms j)
qed

lemma emits_declare:
  assumes "emits c c1 X T" "fits c1 \<Longrightarrow> is_str (c_pool c1) i"
  shows "emits c (emit_declare c1 i kind) X T"
proof -
  let ?i = "(BC_DECLARE_VAR, [U16 (int i), U8 (of_nat kind)])"
  have k: "snd (bc_info BC_DECLARE_VAR) = 4" by (simp add: bc_info_def bc_info_table_def BC_DECLARE_VAR_def)
  have j: "jump_off ?i = None" by (simp add: jump_off_def)
  have "insn_typed ?i" if "fits (emit_insn True ?i c1)"
    using fits_idx [OF fits32(2)] that k by (intro kinds_typed) (auto simp: emit_forms)
  moreover have "refs_ok (c_pool c1) N ?i" if "fits c1" for N using assms(2) [OF that] by (simp add: refs_ok_def refs_def)
  ultimately have "emits c (emit_insn True ?i c1) (if jump_off ?i = None then X else insert (length (c_code (emit_insn True ?i c1)) - 4) X) T"
    using assms(1) kind_nonzero [of BC_DECLARE_VAR] k j by (intro emits_insn) auto
  then show ?thesis by (simp add: emit_forms j emit_declare_def)
qed

lemma emits_int32:
  assumes "emits c c1 X T" "- (2 ^ 31) \<le> v" "v < 2 ^ 31"
  shows "emits c (emit32 True (emit True c1 BC_PUSH_INT32) v) X T"
proof -
  let ?i = "(BC_PUSH_INT32, [I32 v])"
  have j: "jump_off ?i = None" by (simp add: jump_off_def)
  have "emits c (emit_insn True ?i c1) (if jump_off ?i = None then X else insert (length (c_code (emit_insn True ?i c1)) - 4) X) T"
    using assms kind_nonzero [of BC_PUSH_INT32] j by (intro emits_insn) (auto simp: insn_typed_kinds refs_ok_def refs_def)
  then show ?thesis by (simp add: emit_insn_forms j)
qed

lemma code_len32: "c_ok (emit32 True c v) \<Longrightarrow> length (c_code (emit32 True c v)) = length (c_code c) + 4"
  by (simp add: emit32_def Let_def count_operand_def split: if_splits)

lemma emits_jump:
  assumes "emits c c1 X T" "snd (bc_info op) = 2" "op \<noteq> BC_PUSH_INT32"
  shows "emits c (emit32 True (emit True c1 op) 0) (insert (here (emit True c1 op)) X) T"
proof -
  let ?i = "(op, [I32 0])"
  have j: "jump_off ?i = Some 0" using assms(3) by (simp add: jump_off_def)
  have e: "emits c (emit_insn True ?i c1) (if jump_off ?i = None then X else insert (length (c_code (emit_insn True ?i c1)) - 4) X) T"
    using assms kind_nonzero [of op] j by (intro emits_insn) (auto simp: insn_typed_kinds refs_ok_def refs_def)
  show ?thesis
  proof (cases "c_ok (emit32 True (emit True c1 op) 0)")
    case True
    then show ?thesis using e code_len32 [OF True] by (simp add: emit_insn_forms j here_def)
  next
    case False
    then show ?thesis using e by (simp add: emits_def fits_def emit_insn_forms)
  qed
qed

lemma emits_emit_jump:
  assumes "emits c c1 X T" "snd (bc_info op) = 2" "op \<noteq> BC_PUSH_INT32" "emit_jump True c1 op = (c2, j)"
  shows "emits c c2 (insert j X) T"
  using emits_jump [OF assms(1-3)] assms(4) by (auto simp: emit_jump_def Let_def)

lemma emits_lt_imm:
  assumes "emits c c1 X T" "- (2 ^ 31) \<le> v" "v < 2 ^ 31" "slot < length (c_locals c1)"
  shows "emits c (emit32 True (emit32 True (emit_idx c1 BC_JUMP_IF_LOCAL_LT_IMM slot) v) 0)
    (insert (here (emit32 True (emit_idx c1 BC_JUMP_IF_LOCAL_LT_IMM slot) v)) X) T"
proof -
  let ?i = "(BC_JUMP_IF_LOCAL_LT_IMM, [U16 (int slot), I32 v, I32 0])" and ?c2 = "emit32 True (emit_idx c1 BC_JUMP_IF_LOCAL_LT_IMM slot) v"
  have k: "snd (bc_info BC_JUMP_IF_LOCAL_LT_IMM) = 5" by (simp add: bc_info_def bc_info_table_def BC_JUMP_IF_LOCAL_LT_IMM_def)
  have j: "jump_off ?i = Some 0" by (simp add: jump_off_def)
  have "insn_typed ?i" if "fits (emit_insn True ?i c1)"
    using fits_idx [OF fits32(1) [OF fits32(1)]] that k assms(2,3) by (intro kinds_typed) (auto simp: emit_forms)
  then have e: "emits c (emit_insn True ?i c1) (if jump_off ?i = None then X else insert (length (c_code (emit_insn True ?i c1)) - 4) X) T"
    using assms kind_nonzero [of BC_JUMP_IF_LOCAL_LT_IMM] k j by (intro emits_insn) (auto simp: refs_ok_def refs_def)
  show ?thesis
  proof (cases "c_ok (emit32 True ?c2 0)")
    case True
    then show ?thesis using e code_len32 [OF True] by (simp add: emit_forms j here_def)
  next
    case False
    then show ?thesis using e by (simp add: emits_def fits_def emit_forms)
  qed
qed

section \<open>Patching\<close>

definition set_off :: "insn \<Rightarrow> int \<Rightarrow> insn" where
  "set_off i v = (fst i, butlast (snd i) @ [I32 v])"

lemma jump_off_cases:
  assumes "jump_off i = Some v"
  obtains "snd i = [I32 v]" "fst i \<noteq> BC_PUSH_INT32" | a w where "snd i = [U16 a, I32 w, I32 v]"
  using assms that by (cases i) (auto simp: jump_off_def split: list.splits operand.splits if_splits)

lemma enc_operand_len32: "enc_operand (I32 v) = put_u32 (word_of_int v)"
  by (simp add: enc_operand_def)

lemma set_off_props:
  assumes "jump_off i = Some v"
  shows "jump_off (set_off i w) = Some w" "length (enc_insn (set_off i w)) = length (enc_insn i)" "refs (set_off i w) = refs i"
    "\<exists>body. enc_insn i = body @ put_u32 (word_of_int v) \<and> enc_insn (set_off i w) = body @ put_u32 (word_of_int w)"
proof -
  show "jump_off (set_off i w) = Some w" using assms by (rule jump_off_cases) (simp_all add: set_off_def jump_off_def)
  show "length (enc_insn (set_off i w)) = length (enc_insn i)"
    using assms by (rule jump_off_cases) (simp_all add: set_off_def enc_insn_def enc_operand_len32)
  show "refs (set_off i w) = refs i" using assms by (rule jump_off_cases) (simp_all add: set_off_def refs_def)
  show "\<exists>body. enc_insn i = body @ put_u32 (word_of_int v) \<and> enc_insn (set_off i w) = body @ put_u32 (word_of_int w)"
  proof (rule jump_off_cases [OF assms])
    assume "snd i = [I32 v]"
    then show ?thesis by (intro exI [of _ "[fst i]"]) (simp add: enc_insn_def set_off_def enc_operand_len32)
  next
    fix a x
    assume "snd i = [U16 a, I32 x, I32 v]"
    then show ?thesis
      by (intro exI [of _ "fst i # enc_operand (U16 a) @ enc_operand (I32 x)"]) (simp add: enc_insn_def set_off_def enc_operand_len32)
  qed
qed

lemma well_kinded_set_off:
  assumes "well_kinded i" "jump_off i = Some v" "- (2 ^ 31) \<le> w" "w < 2 ^ 31"
  shows "well_kinded (set_off i w)"
proof -
  have k: "snd (bc_info BC_LOAD_PROP) = 3" by (simp add: bc_info_def bc_info_table_def BC_LOAD_PROP_def)
  have n: "(5 :: nat) = Suc (Suc (Suc (Suc (Suc 0))))" "(2 :: nat) = Suc (Suc 0)" by simp_all
  show ?thesis
  proof (cases "insn_typed i")
    case True
    then have "insn_typed (set_off i w)"
      using assms(2-4) by (cases rule: insn_typed_cases) (auto simp: insn_typed_def set_off_def n jump_off_def split: if_splits)
    then show ?thesis by (simp add: well_kinded_def)
  next
    case False
    then have "insn_typed (BC_LOAD_PROP, snd i)" using assms(1) by (simp add: well_kinded_def)
    then have "jump_off i = None" using k by (auto simp: jump_off_def elim!: insn_typed_cases)
    then show ?thesis using assms(2) by simp
  qed
qed

lemma enc_split: "k < length is \<Longrightarrow> enc is = enc (take k is) @ enc_insn (is ! k) @ enc (drop (Suc k) is)"
proof -
  assume k: "k < length is"
  have "enc is = enc (take k is @ is ! k # drop (Suc k) is)" using id_take_nth_drop [OF k] by simp
  then show ?thesis by simp
qed

lemma enc_update:
  "k < length is \<Longrightarrow> enc (is[k := i]) = enc (take k is) @ enc_insn i @ enc (drop (Suc k) is)"
  by (simp add: upd_conv_take_nth_drop)

lemma patch_code:
  assumes "at_boundary c is" "k < length is" "jump_off (is ! k) = Some v" "p + 4 = off_at is (Suc k)"
  shows "at_boundary (patch_jump_to c p t) (is[k := set_off (is ! k) (int t - int (p + 4))])"
proof -
  let ?w = "int t - int (p + 4)"
  let ?i = "set_off (is ! k) ?w"
  note props = set_off_props [OF assms(3), of ?w]
  obtain body where b: "enc_insn (is ! k) = body @ put_u32 (word_of_int v)" "enc_insn ?i = body @ put_u32 (word_of_int ?w)"
    using props(4) by blast
  have code: "c_code c = (enc (take k is) @ body) @ put_u32 (word_of_int v) @ enc (drop (Suc k) is)"
    using at_boundary_enc [OF assms(1)] enc_split [OF assms(2)] b(1) by simp
  have p: "p = length (enc (take k is) @ body)"
    using assms(2,4) b(1) by (simp add: off_at_Suc) (simp add: off_at_def)
  have tk: "take p (c_code c) = enc (take k is) @ body" "drop (p + 4) (c_code c) = enc (drop (Suc k) is)"
      "\<not> p + 4 > length (c_code c)"
    unfolding code p by simp_all
  have ok: "c_ok c" using assms(1) by (simp add: at_boundary_def)
  have "c_code (patch_jump_to c p t) = take p (c_code c) @ put_u32 (word_of_int ?w) @ drop (p + 4) (c_code c)"
    using tk(3) ok by (simp add: patch_jump_to_def Let_def)
  then have c1: "c_code (patch_jump_to c p t) = enc (is[k := ?i])"
    unfolding tk(1,2) enc_update [OF assms(2)] b(2) by (simp only: append.assoc)
  have sel: "c_ok (patch_jump_to c p t)" "c_inst_written (patch_jump_to c p t) = c_inst_written c"
      "c_inst_total (patch_jump_to c p t) = c_inst_total c" "c_cur_inst_start (patch_jump_to c p t) = c_cur_inst_start c"
    using ok by (simp_all add: patch_jump_to_def)
  have "length (enc (butlast (is[k := ?i]))) = length (enc (butlast is))"
    using off_at_update [OF props(2) assms(2), of "length is - 1"] by (simp add: off_at_def butlast_conv_take)
  then show ?thesis using assms(1) c1 sel by (simp add: at_boundary_def enc_def)
qed

lemma off_at_le: "off_at is k \<le> length (enc is)"
proof -
  have "length (enc is) = length (enc (take k is)) + length (enc (drop k is))" using enc_simps(3) [of "take k is" "drop k is"] by simp
  then show ?thesis by (simp add: off_at_def)
qed

lemma patch_sel [simp]:
  "c_pool (patch_jump_to c p t) = c_pool c" "c_locals (patch_jump_to c p t) = c_locals c" "c_loops (patch_jump_to c p t) = c_loops c"
  "c_local_base (patch_jump_to c p t) = c_local_base c" "c_ok (patch_jump_to c p t) = c_ok c" "length (c_code (patch_jump_to c p t)) = length (c_code c)"
  by (auto simp: patch_jump_to_def)

lemma wt_patch:
  assumes w: "wt c is" and f: "length (c_code c) < 2 ^ 31" and p: "jump_at is p" and t: "boundary is t"
  shows "\<exists>js. wt (patch_jump_to c p t) js \<and> ext is js"
proof -
  have at: "at_boundary c is" using w by (simp add: wt_def)
  obtain k v where k: "k < length is" "jump_off (is ! k) = Some v" "p + 4 = off_at is (Suc k)"
    using p by (auto simp: jump_at_def)
  let ?w = "int t - int (p + 4)"
  let ?i = "set_off (is ! k) ?w"
  note props = set_off_props [OF k(2), of ?w]
  have len: "length (enc is) < 2 ^ 31" using f at_boundary_enc [OF at] by simp
  obtain m where "t = off_at is m" using t by (auto simp: boundary_def)
  then have r: "- (2 ^ 31) \<le> ?w" "?w < 2 ^ 31" using len off_at_le [of "is" m] off_at_le [of "is" "Suc k"] k(3) by auto
  have "is ! k \<in> set is" using k(1) by simp
  then have wk: "well_kinded ?i" "refs_ok (c_pool c) (length (c_locals c)) ?i"
    using w well_kinded_set_off [OF _ k(2) r] props(3) by (auto simp: wt_def verified_def list_all_iff refs_ok_def)
  have "jumps_ok (is[k := ?i])"
    using w props(1,2) k t by (intro jumps_ok_update) (auto simp: wt_def verified_def)
  moreover have "set (is[k := ?i]) \<subseteq> insert ?i (set is)" by (rule set_update_subset_insert)
  ultimately have v: "verified (c_pool c) (length (c_locals c)) (is[k := ?i])"
    using w wk by (auto simp: wt_def verified_def list_all_iff)
  have x: "ext is (is[k := ?i])"
    using jump_at_update [OF props(2) k(1)] boundary_update [OF props(2) k(1)] props(1) k(2) by (simp add: ext_def)
  have "wt (patch_jump_to c p t) (is[k := ?i])" using w patch_code [OF at k] v x by (auto simp: wt_def ext_def)
  then show ?thesis using x by blast
qed

lemma emits_patch:
  assumes "emits c c1 X T" "p \<in> X" "t \<in> T"
  shows "emits c (patch_jump_to c1 p t) X T"
  unfolding emits_def
proof (intro conjI allI impI)
  show "grows c (patch_jump_to c1 p t)" using assms(1) by (simp add: emits_def grows_def fits_def)
  fix "is"
  assume w: "wt c is" "fits (patch_jump_to c1 p t)"
  then have f: "fits c1" by (simp add: fits_def)
  then obtain js where js: "wt c1 js" "ext is js" "\<forall>p\<in>X. jump_at js p" "\<forall>t\<in>T. boundary js t"
    using assms(1) w unfolding emits_def by blast
  then obtain ks where ks: "wt (patch_jump_to c1 p t) ks" "ext js ks" using wt_patch [of c1 js p t] f assms(2,3) by (auto simp: fits_def)
  then show "\<exists>js. wt (patch_jump_to c1 p t) js \<and> ext is js \<and> (\<forall>p\<in>X. jump_at js p) \<and> (\<forall>t\<in>T. boundary js t)"
    using js ext_trans [OF js(2) ks(2)] by (auto simp: ext_def)
qed

lemma emits_patch_here: "emits c c1 X T \<Longrightarrow> p \<in> X \<Longrightarrow> emits c (patch_here c1 p) X T"
  unfolding patch_here_def using emits_sub [OF emits_patch [OF emits_here [of c c1 X T], of p "here c1"], of X T] by blast

section \<open>Loops\<close>

lemma wt_patch_list:
  "wt c is \<Longrightarrow> length (c_code c) < 2 ^ 31 \<Longrightarrow> \<forall>p\<in>set ps. jump_at is p \<Longrightarrow> boundary is t \<Longrightarrow>
    \<exists>js. wt (patch_list c ps t) js \<and> ext is js"
proof (induction ps arbitrary: c "is")
  case (Cons p ps)
  then obtain js where js: "wt (patch_jump_to c p t) js" "ext is js" using wt_patch [of c "is" p t] by auto
  then obtain ks where "wt (patch_list (patch_jump_to c p t) ps t) ks" "ext js ks"
    using Cons.IH [OF js(1)] Cons.prems by (auto simp: ext_def)
  then show ?case using ext_trans [OF js(2)] by (auto simp: patch_list_def)
qed (auto simp: patch_list_def)

lemma patch_list_fields [simp]:
  "c_ok (patch_list c ps t) = c_ok c" "length (c_code (patch_list c ps t)) = length (c_code c)"
  "c_local_base (patch_list c ps t) = c_local_base c" "c_pool (patch_list c ps t) = c_pool c" "c_locals (patch_list c ps t) = c_locals c" "c_loops (patch_list c ps t) = c_loops c"
  by (induction ps arbitrary: c) (simp_all add: patch_list_def)

lemma loop_pop_sel [simp]:
  "c_ok (loop_pop c b t) = c_ok c" "length (c_code (loop_pop c b t)) = length (c_code c)" "c_pool (loop_pop c b t) = c_pool c"
  "c_locals (loop_pop c b t) = c_locals c" "c_local_base (loop_pop c b t) = c_local_base c"
  by (auto simp: loop_pop_def Let_def split: list.split)

lemma wt_loop_pop:
  assumes "wt c is" "length (c_code c) < 2 ^ 31" "boundary is b" "boundary is t"
  shows "\<exists>js. wt (loop_pop c b t) js \<and> ext is js"
proof (cases "c_loops c")
  case Nil
  then show ?thesis using assms(1) by (auto simp: loop_pop_def)
next
  case (Cons lp rest)
  have l: "\<forall>p\<in>set (l_brk lp) \<union> set (l_cont lp). jump_at is p" using assms(1) Cons by (simp add: wt_def)
  let ?c1 = "patch_list c (l_brk lp) b"
  obtain js where js: "wt ?c1 js" "ext is js" using wt_patch_list [OF assms(1,2) _ assms(3)] l by blast
  have "\<exists>ks. wt (if l_is_switch lp then ?c1 else patch_list ?c1 (l_cont lp) t) ks \<and> ext js ks"
    using wt_patch_list [OF js(1), of "l_cont lp" t] js assms(2,4) l by (auto simp: ext_def)
  then obtain ks where ks: "wt (if l_is_switch lp then ?c1 else patch_list ?c1 (l_cont lp) t) ks" "ext js ks" by blast
  let ?c2 = "if l_is_switch lp then ?c1 else patch_list ?c1 (l_cont lp) t"
  have "c_loops ?c2 = lp # rest" using Cons by simp
  then have "wt (?c2\<lparr>c_loops := rest\<rparr>) ks" using ks(1) by (simp add: wt_def at_boundary_def)
  then show ?thesis using ext_trans [OF js(2) ks(2)] Cons by (auto simp: loop_pop_def Let_def)
qed

lemma emits_loop_pop:
  assumes "emits c c1 X T" "b \<in> T" "t \<in> T"
  shows "emits c (loop_pop c1 b t) X T"
  unfolding emits_def
proof (intro conjI allI impI)
  show "grows c (loop_pop c1 b t)" using assms(1) by (simp add: emits_def grows_def fits_def)
  fix "is"
  assume w: "wt c is" "fits (loop_pop c1 b t)"
  then have f: "fits c1" by (simp add: fits_def)
  then obtain js where js: "wt c1 js" "ext is js" "\<forall>p\<in>X. jump_at js p" "\<forall>t\<in>T. boundary js t"
    using assms(1) w unfolding emits_def by blast
  then obtain ks where ks: "wt (loop_pop c1 b t) ks" "ext js ks" using wt_loop_pop [of c1 js b t] f assms(2,3) by (auto simp: fits_def)
  then show "\<exists>js. wt (loop_pop c1 b t) js \<and> ext is js \<and> (\<forall>p\<in>X. jump_at js p) \<and> (\<forall>t\<in>T. boundary js t)"
    using js ext_trans [OF js(2) ks(2)] by (auto simp: ext_def)
qed

lemma emits_loop_push: "emits c c1 X T \<Longrightarrow> emits c (loop_push c1 b) X T"
proof (erule emits_then0)
  have "grows c1 (loop_push c1 b)" by (simp add: grows_def fits_def loop_push_def)
  moreover have "wt (loop_push c1 b) is" if "wt c1 is" for "is" using that by (simp add: wt_def loop_push_def at_boundary_def)
  ultimately show "emits0 c1 (loop_push c1 b)" unfolding emits_def using ext_refl by blast
qed

lemma emits_loop_add:
  assumes "emits c c1 X T" "pos \<in> X"
  shows "emits c (loop_add c1 k is_brk pos) X T"
  unfolding emits_def
proof (intro conjI allI impI)
  let ?c2 = "loop_add c1 k is_brk pos"
  have sel: "c_code ?c2 = c_code c1" "c_ok ?c2 = c_ok c1" "c_pool ?c2 = c_pool c1" "c_locals ?c2 = c_locals c1" "c_local_base ?c2 = c_local_base c1"
    by (simp_all add: loop_add_def Let_def)
  show "grows c ?c2" using assms(1) sel by (simp add: emits_def grows_def fits_def)
  fix "is"
  assume w: "wt c is" "fits ?c2"
  then have f: "fits c1" using sel by (simp add: fits_def)
  then obtain js where js: "wt c1 js" "ext is js" "\<forall>p\<in>X. jump_at js p" "\<forall>t\<in>T. boundary js t"
    using assms(1) w unfolding emits_def by blast
  let ?lp = "c_loops c1 ! k"
  let ?new = "if is_brk then ?lp\<lparr>l_brk := l_brk ?lp @ [pos]\<rparr> else ?lp\<lparr>l_cont := l_cont ?lp @ [pos]\<rparr>"
  have "\<forall>lp\<in>set ((c_loops c1)[k := ?new]). \<forall>p\<in>set (l_brk lp) \<union> set (l_cont lp). jump_at js p"
  proof (cases "k < length (c_loops c1)")
    case True
    then have "?lp \<in> set (c_loops c1)" by simp
    then have "\<forall>p\<in>set (l_brk ?new) \<union> set (l_cont ?new). jump_at js p" using js assms(2) by (auto simp: wt_def)
    moreover have "set ((c_loops c1)[k := ?new]) \<subseteq> insert ?new (set (c_loops c1))" by (rule set_update_subset_insert)
    ultimately show ?thesis using js(1) unfolding wt_def by blast
  next
    case False
    then show ?thesis using js(1) unfolding wt_def by (simp add: list_update_beyond)
  qed
  then have "wt ?c2 js" using js(1) by (simp add: wt_def loop_add_def Let_def at_boundary_def)
  then show "\<exists>js. wt ?c2 js \<and> ext is js \<and> (\<forall>p\<in>X. jump_at js p) \<and> (\<forall>t\<in>T. boundary js t)" using js by blast
qed


section \<open>Constants, names and slots\<close>

definition op_plain :: "byte \<Rightarrow> bool" where
  "op_plain op \<longleftrightarrow> snd (bc_info op) = 0 \<and> op \<noteq> BC_LOAD_PROP_ADD"

definition op_name :: "byte \<Rightarrow> bool" where
  "op_name op \<longleftrightarrow> snd (bc_info op) = 1 \<and> op \<notin> set slot_ops \<and> op \<notin> set count_ops \<and> op \<noteq> BC_PUSH_FLOAT64
     \<and> op \<noteq> BC_EVAL_NODE \<and> op \<noteq> BC_EVAL_NODE_POP"

definition op_jump :: "byte \<Rightarrow> bool" where
  "op_jump op \<longleftrightarrow> snd (bc_info op) = 2 \<and> op \<noteq> BC_PUSH_INT32"

lemma op_plain_simps [simp]:
  "op_plain BC_STOP" "op_plain BC_NOP" "op_plain BC_PUSH_UNDEFINED" "op_plain BC_PUSH_NULL" "op_plain BC_PUSH_TRUE"
  "op_plain BC_PUSH_FALSE" "op_plain BC_PUSH_THIS" "op_plain BC_POP" "op_plain BC_DUP" "op_plain BC_DUP2" "op_plain BC_SWAP"
  "op_plain BC_ADD" "op_plain BC_SUB" "op_plain BC_MUL" "op_plain BC_STRICT_EQ" "op_plain BC_NEG" "op_plain BC_POS" "op_plain BC_NOT"
  "op_plain BC_BIT_NOT" "op_plain BC_TYPEOF" "op_plain BC_VOID" "op_plain BC_LOOP_TICK" "op_plain BC_RETURN" "op_plain BC_NEW_OBJECT"
  "op_plain BC_DEF_ELEM" "op_plain BC_GET_ELEM" "op_plain BC_SET_ELEM" "op_plain BC_DELETE_ELEM" "op_plain BC_ITER_INIT"
  "op_plain BC_ITER_CLOSE" "op_plain BC_SCOPE_ENTER" "op_plain BC_SCOPE_LEAVE" "op_plain BC_SET_RESULT" "op_plain BC_CLEAR_RESULT"
  "op_plain BC_THROW" "op_plain BC_TO_STRING" "op_plain BC_TO_NUMBER" "op_plain BC_TO_BOOL"
  by (simp_all add: op_plain_def bc_info_def bc_info_table_def BC_STRICT_EQ_def bc_opcode_defs)

lemma op_name_simps [simp]:
  "op_name BC_PUSH_STRING" "op_name BC_LOAD_VAR" "op_name BC_STORE_VAR" "op_name BC_INC_VAR" "op_name BC_TYPEOF_VAR"
  "op_name BC_DEF_PROP" "op_name BC_GET_PROP" "op_name BC_SET_PROP" "op_name BC_DELETE_PROP"
  by (simp_all add: op_name_def slot_ops_def count_ops_def bc_info_def bc_info_table_def bc_opcode_defs)

lemma op_jump_simps [simp]:
  "op_jump BC_JUMP" "op_jump BC_JUMP_IF_FALSE" "op_jump BC_JUMP_IF_TRUE" "op_jump BC_JUMP_IF_FALSE_KEEP" "op_jump BC_JUMP_IF_TRUE_KEEP"
  "op_jump BC_JUMP_IF_NOT_NULLISH" "op_jump BC_ITER_NEXT"
  by (simp_all add: op_jump_def bc_info_def bc_info_table_def bc_opcode_defs)

lemma slot_op_kind: "op \<in> set slot_ops \<Longrightarrow> snd (bc_info op) = 1"
  by (auto simp: slot_ops_def bc_info_def bc_info_table_def bc_opcode_defs)

lemma count_op_kind: "op \<in> set count_ops \<Longrightarrow> op \<noteq> BC_CALL_METHOD \<Longrightarrow> snd (bc_info op) = 1 \<and> op \<notin> set slot_ops"
  by (auto simp: count_ops_def slot_ops_def bc_info_def bc_info_table_def bc_opcode_defs)

lemma emits_emit: "emits c c1 X T \<Longrightarrow> op_plain op \<Longrightarrow> emits c (emit True c1 op) X T"
  by (rule emits_op) (auto simp: op_plain_def)

lemma emits_name_idx:
  "emits c c1 X T \<Longrightarrow> op_name op \<Longrightarrow> (fits c1 \<Longrightarrow> is_str (c_pool c1) i) \<Longrightarrow> emits c (emit_idx c1 op i) X T"
  by (rule emits_idx) (auto simp: op_name_def refs_ok_def refs_def)

lemma emits_slot:
  "emits c c1 X T \<Longrightarrow> op \<in> set slot_ops \<Longrightarrow> slot < length (c_locals c1) \<Longrightarrow> emits c (emit_idx c1 op slot) X T"
  by (rule emits_idx) (auto simp: slot_op_kind refs_ok_def refs_def)

lemma emits_count:
  "emits c c1 X T \<Longrightarrow> op \<in> set count_ops \<Longrightarrow> emits c (emit_idx c1 op n) X T"
  using count_op_kind [of op] by (intro emits_idx) (auto simp: refs_ok_def refs_def count_ops_def bc_opcode_defs)

lemma emits_eqv: "emits c c1 X T \<Longrightarrow> emits0 c1 c2 \<Longrightarrow> emits c c2 X T"
  by (rule emits_then0)

lemma emits_update_stack: "emits c c1 X T \<Longrightarrow> emits c (update_stack c1 d) X T"
  by (erule emits_eqv, rule emits_same) (simp_all add: update_stack_def Let_def)

lemma emits_uses:
  "emits c c1 X T \<Longrightarrow> emits c (c1\<lparr>c_uses_this := b\<rparr>) X T" "emits c c1 X T \<Longrightarrow> emits c (c1\<lparr>c_uses_super := b\<rparr>) X T"
  by (erule emits_eqv, rule emits_same; simp)+

lemma emits_fail: "emits c c1 X T \<Longrightarrow> emits c (c1\<lparr>c_ok := False\<rparr>) X T"
  by (auto simp: emits_def grows_def fits_def)

lemma pool_reserve_props:
  assumes "pool_reserve True c = (c1, b)"
  shows "b" "c_code c1 = c_code c" "c_ok c1 = c_ok c" "c_cur_inst_start c1 = c_cur_inst_start c" "c_inst_written c1 = c_inst_written c"
    "c_inst_total c1 = c_inst_total c" "c_loops c1 = c_loops c" "c_pool c1 = c_pool c" "c_locals c1 = c_locals c" "c_local_base c1 = c_local_base c"
  using assms by (auto simp: pool_reserve_def split: if_splits)

lemma pool_push_props:
  assumes "pool_push bad c k = (c1, i)"
  shows "c_code c1 = c_code c" "c_ok c1 \<Longrightarrow> c_ok c" "c_cur_inst_start c1 = c_cur_inst_start c" "c_inst_written c1 = c_inst_written c"
    "c_inst_total c1 = c_inst_total c" "c_loops c1 = c_loops c" "c_pool c1 = c_pool c @ [k]" "c_locals c1 = c_locals c"
    "i = length (c_pool c)" "c_local_base c1 = c_local_base c"
  using assms by (auto simp: pool_push_def Let_def split: if_splits)

lemma pool_index_hit: "pool_index P ks i = Some j \<Longrightarrow> i \<le> j \<and> j - i < length ks \<and> P (c_val (ks ! (j - i)))"
proof (induction P ks i rule: pool_index.induct)
  case (2 P k ks i)
  show ?case
  proof (cases "P (c_val k)")
    case False
    then have h: "i + 1 \<le> j" "j - (i + 1) < length ks" "P (c_val (ks ! (j - (i + 1))))" using 2 by auto
    then have "j - i = Suc (j - (i + 1))" by simp
    then show ?thesis using h by simp
  qed (use 2 in simp)
qed simp

lemma pool_index0: "pool_index P ks 0 = Some j \<Longrightarrow> j < length ks \<and> P (c_val (ks ! j))"
  using pool_index_hit [of P ks 0 j] by simp

lemma emits_pool_str:
  assumes "emits c c1 X T" "pool_add_str True c1 s = (c2, i)"
  shows "emits c c2 X T" "fits c2 \<Longrightarrow> is_str (c_pool c2) i"
proof -
  obtain d b where d: "pool_reserve True c1 = (d, b)" by fastforce
  note r = pool_reserve_props [OF d]
  consider "\<not> c_ok c1" "c2 = c1" | "pool_index (\<lambda>v. v = Pool_string s) (c_pool d) 0 = Some i" "c2 = d"
    | "pool_push False d \<lparr>c_val = Pool_string s, c_str_hash = str_hash31 s\<rparr> = (c2, i)"
    using assms(2) d r(1) by (auto simp: pool_add_str_def split: if_splits option.splits)
  then have "emits0 c1 c2 \<and> (fits c2 \<longrightarrow> is_str (c_pool c2) i)"
  proof cases
    case 1
    then show ?thesis using emits_refl by (auto simp: fits_def)
  next
    case 2
    then show ?thesis using r pool_index0 [OF 2(1)] by (auto intro!: emits_same simp: is_str_def)
  next
    case 3
    note q = pool_push_props [OF 3]
    show ?thesis using r q by (auto intro!: emits_same simp: is_str_def)
  qed
  then show "emits c c2 X T" "fits c2 \<Longrightarrow> is_str (c_pool c2) i" using emits_then0 [OF assms(1)] by auto
qed

lemma emits_pool_f64:
  assumes "emits c c1 X T" "pool_add_f64 True c1 x = (c2, i)"
  shows "emits c c2 X T" "fits c2 \<Longrightarrow> is_f64 (c_pool c2) i"
proof -
  obtain d b where d: "pool_reserve True c1 = (d, b)" by fastforce
  note r = pool_reserve_props [OF d]
  let ?P = "\<lambda>v. case v of Pool_float64 y \<Rightarrow> f64_eq y x | _ \<Rightarrow> False"
  consider "\<not> c_ok c1" "c2 = c1" | "pool_index ?P (c_pool d) 0 = Some i" "c2 = d"
    | "pool_push False d \<lparr>c_val = Pool_float64 x, c_str_hash = 0\<rparr> = (c2, i)"
    using assms(2) d r(1) by (auto simp: pool_add_f64_def split: if_splits option.splits)
  then have "emits0 c1 c2 \<and> (fits c2 \<longrightarrow> is_f64 (c_pool c2) i)"
  proof cases
    case 1
    then show ?thesis using emits_refl by (auto simp: fits_def)
  next
    case 2
    then show ?thesis using r pool_index0 [OF 2(1)] by (auto intro!: emits_same simp: is_f64_def split: bc_const_val.splits)
  next
    case 3
    note q = pool_push_props [OF 3]
    show ?thesis using r q by (auto intro!: emits_same simp: is_f64_def)
  qed
  then show "emits c c2 X T" "fits c2 \<Longrightarrow> is_f64 (c_pool c2) i" using emits_then0 [OF assms(1)] by auto
qed

lemma emits_eval_at: "emits c c1 X T \<Longrightarrow> emits c (emit_eval_at c1 addr keep) X T"
proof (cases "c_ok c1")
  case True
  assume e: "emits c c1 X T"
  obtain d b where d: "pool_reserve True c1 = (d, b)" by fastforce
  obtain c2 i where p: "pool_add_node True c1 addr = (c2, i)" by fastforce
  note r = pool_reserve_props [OF d]
  have "pool_push False (d\<lparr>c_node_refs := c_node_refs d + 1\<rparr>) \<lparr>c_val = Pool_node addr, c_str_hash = 0\<rparr> = (c2, i)"
    using p d r(1) True by (simp add: pool_add_node_def)
  note q = pool_push_props [OF this]
  have e2: "emits c c2 X T" using r q by (intro emits_then0 [OF e] emits_same) simp_all
  have n: "is_node (c_pool c2) i" using q by (simp add: is_node_def)
  let ?op = "if keep then BC_EVAL_NODE else BC_EVAL_NODE_POP"
  have "snd (bc_info ?op) = 1" "?op \<notin> set slot_ops" "?op \<notin> set count_ops" "?op \<noteq> BC_PUSH_FLOAT64"
    by (simp_all add: slot_ops_def count_ops_def bc_info_def bc_info_table_def bc_opcode_defs)
  then have "emits c (emit_idx c2 ?op i) X T" using n by (intro emits_idx [OF e2]) (auto simp: refs_ok_def refs_def)
  then show ?thesis using p True by (simp add: emit_eval_at_def)
qed (simp add: emit_eval_at_def)

lemma emits_eval: "emits c c1 X T \<Longrightarrow> emits c (emit_eval E c1 n keep) X T"
  unfolding emit_eval_def by (rule emits_eval_at)

lemma emits_push_string: "emits c c1 X T \<Longrightarrow> emits c (emit_push_string c1 s) X T"
proof -
  assume e: "emits c c1 X T"
  obtain c2 i where p: "pool_add_str True c1 s = (c2, i)" by fastforce
  show ?thesis using emits_pool_str [OF e p] p by (auto simp: emit_push_string_def intro!: emits_update_stack emits_name_idx)
qed

lemma emits_push_f64: "emits c c1 X T \<Longrightarrow> emits c (emit_push_f64 c1 x) X T"
proof -
  assume e: "emits c c1 X T"
  obtain c2 i where p: "pool_add_f64 True c1 x = (c2, i)" by fastforce
  have "BC_PUSH_FLOAT64 \<notin> set slot_ops" "BC_PUSH_FLOAT64 \<notin> set count_ops" "snd (bc_info BC_PUSH_FLOAT64) = 1"
    by (simp_all add: slot_ops_def count_ops_def bc_info_def bc_info_table_def bc_opcode_defs)
  then show ?thesis using emits_pool_f64 [OF e p] p
    by (auto simp: emit_push_f64_def refs_ok_def refs_def intro!: emits_update_stack emits_idx)
qed

lemma f64_cast_range: "- (2 ^ 31) \<le> f64_cast 32 x" "f64_cast 32 x < 2 ^ 31"
  by (auto simp: f64_cast_def Let_def split: option.split)

lemma emits_push_number: "emits c c1 X T \<Longrightarrow> emits c (emit_push_number c1 x) X T"
  unfolding emit_push_number_def using f64_cast_range [of x] by (simp add: emits_update_stack emits_int32 emits_push_f64)

lemma emits_one: "emits c c1 X T \<Longrightarrow> emits c (emit_one c1) X T"
  unfolding emit_one_def by (rule emits_int32) simp_all

lemma find_slot_bound: "find_local_slot c name = Some slot \<Longrightarrow> slot < length (c_locals c)"
  by (auto simp: find_local_slot_def find_Some_iff split: if_splits)

lemma emits_name_op: "emits c c1 X T \<Longrightarrow> op_name op \<Longrightarrow> emits c (emit_name_op c1 op name) X T"
proof -
  assume e: "emits c c1 X T" and op: "op_name op"
  obtain c2 i where p: "pool_add_str True c1 (str_bytes name) = (c2, i)" by fastforce
  note q = emits_pool_str [OF e p]
  have "emits c (emit_idx c2 op i) X T" using q op by (intro emits_name_idx) auto
  then have no: "emits c (emit_name_op c1 op name) X T"
    if "(if op = BC_LOAD_VAR \<or> op = BC_STORE_VAR then find_local_slot c1 name else None) = None"
    using p that by (simp add: emit_name_op_def emits_update_stack Let_def)
  have "BC_LOAD_LOCAL \<in> set slot_ops" "BC_STORE_LOCAL \<in> set slot_ops" by (simp_all add: slot_ops_def)
  then have yes: "emits c (emit_name_op c1 op name) X T"
    if "(if op = BC_LOAD_VAR \<or> op = BC_STORE_VAR then find_local_slot c1 name else None) = Some slot" for slot
    using e that find_slot_bound [of c1 name slot]
    by (simp add: emit_name_op_def emits_update_stack emits_slot split: if_split_asm)
  show ?thesis using no yes by (cases "if op = BC_LOAD_VAR \<or> op = BC_STORE_VAR then find_local_slot c1 name else None") blast+
qed


section \<open>Expressions\<close>

text \<open>The compiler of the subexpressions below a size keeps the invariant.\<close>

definition good :: "nat \<Rightarrow> ce \<Rightarrow> bool" where
  "good k ce \<longleftrightarrow> (\<forall>c m. size m < k \<longrightarrow> emits0 c (ce c m))"

lemma emits_ce: "emits c c1 X T \<Longrightarrow> good k ce \<Longrightarrow> size m < k \<Longrightarrow> emits c (ce c1 m) X T"
  by (rule emits_then0) (auto simp: good_def)

lemma emits_foldl:
  "emits c c1 X T \<Longrightarrow> (\<And>c m. m \<in> set ns \<Longrightarrow> emits0 c (f c m)) \<Longrightarrow> emits c (foldl f c1 ns) X T"
proof (induction ns arbitrary: c1)
  case (Cons a ns)
  then show ?case using emits_then0 [OF Cons.prems(1), of "f c1 a"] by simp
qed simp

lemma emits_cexprs: "emits c c1 X T \<Longrightarrow> good k ce \<Longrightarrow> size_list size ns < k \<Longrightarrow> emits c (cexprs ce c1 ns) X T"
  unfolding cexprs_def
proof (erule emits_foldl)
  fix d m
  assume "good k ce" "size_list size ns < k" "m \<in> set ns"
  then show "emits0 d (ce d m)" using size_member [of m ns] by (simp add: good_def)
qed

text \<open>A constant and the instruction that names it.\<close>

lemma emits_str_op:
  "emits c c1 X T \<Longrightarrow> op_name op \<Longrightarrow> emits c (case pool_add_str True c1 s of (c2, i) \<Rightarrow> emit_idx c2 op i) X T"
  by (auto split: prod.split intro!: emits_name_idx dest: emits_pool_str)

lemma emits_call_method:
  assumes "emits c c1 X T"
  shows "emits c (case pool_add_str True c1 s of (c2, i) \<Rightarrow> emit16 True (emit_idx c2 BC_CALL_METHOD i) (int n)) X T"
proof -
  obtain c2 i where p: "pool_add_str True c1 s = (c2, i)" by fastforce
  have "snd (bc_info BC_CALL_METHOD) = 3" by (simp add: bc_info_def bc_info_table_def BC_CALL_METHOD_def)
  then show ?thesis using emits_pool_str [OF assms p] p by (auto simp: refs_ok_def refs_def intro!: emits_idx2)
qed

lemma emits_load_prop:
  assumes "emits c c1 X T" "slot < length (c_locals c1)"
  shows "emits c (case pool_add_str True c1 s of (c2, i) \<Rightarrow> emit16 True (emit_idx c2 BC_LOAD_PROP slot) (int i)) X T"
proof -
  obtain c2 i where p: "pool_add_str True c1 s = (c2, i)" by fastforce
  have k: "snd (bc_info BC_LOAD_PROP) = 3" "BC_LOAD_PROP \<noteq> BC_CALL_METHOD"
    by (simp_all add: bc_info_def bc_info_table_def bc_opcode_defs)
  have "emits0 c1 c2" using emits_pool_str(1) [OF emits_refl p] .
  then have "length (c_locals c1) \<le> length (c_locals c2)" by (simp add: emits_def grows_def)
  then show ?thesis using emits_pool_str [OF assms(1) p] p k assms(2) by (auto simp: refs_ok_def refs_def intro!: emits_idx2)
qed

lemma op_plain_binop: "binop_of op \<noteq> BC_NOP \<Longrightarrow> op_plain (binop_of op)"
  by (simp add: binop_of_def split del: if_split) (simp add: op_plain_def bc_info_def bc_info_table_def bc_opcode_defs)

lemma op_plain_compound: "compound_op op \<noteq> BC_NOP \<Longrightarrow> op_plain (compound_op op)"
  by (auto simp: compound_op_def op_plain_binop)

lemma op_plain_unary: "unary_op op pre = Some b \<Longrightarrow> op_plain b"
  by (auto simp: unary_op_def split: if_splits)

lemma op_plain_conversion: "conversion_op callee = Some b \<Longrightarrow> op_plain b"
  by (auto simp: conversion_op_def split: if_splits)

lemmas emits_rules =
  emits_refl emits_emit emits_name_op emits_eval emits_push_string emits_push_f64 emits_push_number emits_one emits_update_stack
  emits_uses emits_fail emits_str_op emits_call_method emits_count

lemma emits_ccall:
  assumes g: "good (size (AST_CALL opt is_optional callee args)) ce"
  shows "emits0 c (ccall ce E c opt is_optional callee args)"
proof (cases "delegated_call opt is_optional callee args")
  case False
  have n: "BC_CALL \<in> set count_ops" "BC_CALL_ELEM \<in> set count_ops" by (simp_all add: count_ops_def)
  note def = ccall_def False Let_def
  show ?thesis
  proof (cases "is_plain_member callee")
    case (Some p)
    then obtain obj name where p: "is_plain_member callee = Some (obj, name)" by (cases p) auto
    show ?thesis using is_plain_member_size [OF p] by (simp add: def p) (intro emits_rules emits_ce [OF _ g] emits_cexprs [OF _ g]; simp)
  next
    case no: None
    show ?thesis
    proof (cases "is_computed_member callee")
      case (Some p)
      then obtain obj key where p: "is_computed_member callee = Some (obj, key)" by (cases p) auto
      show ?thesis using is_computed_member_size [OF p] n by (simp add: def no p) (intro emits_rules emits_ce [OF _ g] emits_cexprs [OF _ g]; simp)
    next
      case None
      have d: "emits0 c (emit_idx (cexprs ce (ce c callee) args) BC_CALL (length args))"
        using n by (intro emits_rules emits_ce [OF _ g] emits_cexprs [OF _ g]) simp_all
      have "emits0 c (emit True (ce c a) b)" if "conversion_op callee = Some b" "args = [a]" for a b
        using op_plain_conversion [OF that(1)] that(2) by (intro emits_rules emits_ce [OF _ g] emits_cexprs [OF _ g]) simp_all
      then show ?thesis using d by (auto simp: def no None emits_rules split: option.split list.split)
    qed
  qed
qed (simp add: ccall_def emits_rules)

lemma slot_op_mems: "BC_ADD_SELF \<in> set slot_ops" "BC_MUL_SELF \<in> set slot_ops" "BC_INC_LOCAL \<in> set slot_ops"
  "BC_LOAD_LOCAL \<in> set slot_ops" "BC_INC_LOCAL_DISCARD \<in> set slot_ops"
  by (simp_all add: slot_ops_def)

lemma emits_slot_later:
  assumes "emits0 c c1" "find_local_slot c name = Some slot" "op \<in> set slot_ops"
  shows "emits0 c (emit_idx c1 op slot)"
proof -
  have "length (c_locals c) \<le> length (c_locals c1)" using assms(1) by (simp add: emits_def grows_def)
  then show ?thesis using find_slot_bound [OF assms(2)] by (intro emits_slot assms) simp
qed

lemma emits_cassign_name:
  assumes "good (Suc (size val)) ce"
  shows "emits0 c (cassign_name ce c name val)"
proof -
  have "emits0 c (emit_name_op (emit True (ce c val) BC_DUP) BC_STORE_VAR name)" by (intro emits_rules emits_ce [OF _ assms(1)]) simp_all
  moreover have "emits0 c (update_stack (emit_idx (ce c rhs) BC_ADD_SELF slot) 0)"
    if "self_add name val = Some rhs" "find_local_slot c name = Some slot" for rhs slot
    using self_add_size [OF that(1)] slot_op_mems that(2)
    by (intro emits_update_stack emits_slot_later [OF _ that(2)] emits_rules emits_ce [OF _ assms(1)]) simp_all
  ultimately show ?thesis by (simp add: cassign_name_def split: option.split)
qed

lemma emits_ccompound_name:
  assumes "good (Suc (size val)) ce" "op_plain bop"
  shows "emits0 c (ccompound_name ce c bop name val)"
proof -
  have "emits0 c (emit_name_op (emit True (emit True (ce (emit_name_op c BC_LOAD_VAR name) val) bop) BC_DUP) BC_STORE_VAR name)"
    using assms(2) by (intro emits_rules emits_ce [OF _ assms(1)]) simp_all
  moreover have "emits0 c (update_stack (emit_idx (ce c val) (if bop = BC_ADD then BC_ADD_SELF else BC_MUL_SELF) slot) 0)"
    if "find_local_slot c name = Some slot" for slot
    using slot_op_mems by (intro emits_update_stack emits_slot_later [OF _ that] emits_rules emits_ce [OF _ assms(1)]) simp_all
  ultimately show ?thesis
    by (cases "if bop = BC_ADD \<or> bop = BC_MUL then find_local_slot c name else None") (auto simp: ccompound_name_def split: if_split_asm)
qed

lemma emits_cassign:
  assumes g: "good (size (AST_ASSIGN op tgt val)) ce"
  shows "emits0 c (cassign ce E c op tgt val)"
proof (cases "tgt = AST_NONE \<or> op \<noteq> ''='' \<and> compound_op op = BC_NOP")
  case False
  have gv: "good (Suc (size val)) ce" using g by (auto simp: good_def)
  have b: "op_plain (compound_op op)" if "op \<noteq> ''=''" using False that by (intro op_plain_compound) simp
  note def = cassign_def False Let_def
  show ?thesis
  proof (cases "ident_name tgt")
    case (Some name)
    then show ?thesis using False emits_cassign_name [OF gv] emits_ccompound_name [OF gv] b
      by (auto simp: cassign_def Let_def)
  next
    case no: None
    show ?thesis
    proof (cases "is_plain_member tgt")
      case (Some p)
      then obtain obj name where p: "is_plain_member tgt = Some (obj, name)" by (cases p) auto
      have s: "size obj < size (AST_ASSIGN op tgt val)" using is_plain_member_size [OF p] by simp
      have "emits0 c (emit_name_op (ce (ce c obj) val) BC_SET_PROP name)" using s by (intro emits_rules emits_ce [OF _ g] emits_cexprs [OF _ g]) simp_all
      moreover have "emits0 c (emit_name_op (emit True (ce (emit_name_op (emit True (ce c obj) BC_DUP) BC_GET_PROP name) val)
          (compound_op op)) BC_SET_PROP name)" if "op \<noteq> ''=''"
        using s b [OF that] by (intro emits_rules emits_ce [OF _ g] emits_cexprs [OF _ g]) simp_all
      ultimately show ?thesis using False no p by (auto simp: cassign_def Let_def)
    next
      case no2: None
      show ?thesis
      proof (cases "is_computed_member tgt")
        case (Some p)
        then obtain obj key where p: "is_computed_member tgt = Some (obj, key)" by (cases p) auto
        have s: "size obj < size (AST_ASSIGN op tgt val)" "size key < size (AST_ASSIGN op tgt val)"
          using is_computed_member_size [OF p] by simp_all
        have "emits0 c (emit True (ce (ce (ce c obj) key) val) BC_SET_ELEM)" using s by (intro emits_rules emits_ce [OF _ g] emits_cexprs [OF _ g]) simp_all
        moreover have "emits0 c (emit True (emit True (ce (emit True (emit True (ce (ce c obj) key) BC_DUP2) BC_GET_ELEM) val)
            (compound_op op)) BC_SET_ELEM)" if "op \<noteq> ''=''"
          using s b [OF that] by (intro emits_rules emits_ce [OF _ g] emits_cexprs [OF _ g]) simp_all
        ultimately show ?thesis using False no no2 p by (auto simp: cassign_def Let_def)
      next
        case None
        then show ?thesis using False no no2 by (auto simp: cassign_def Let_def emits_rules)
      qed
    qed
  qed
qed (auto simp: cassign_def Let_def emits_rules)

lemma emits_cincdec_name: "emits0 c (cincdec_name c is_inc pre name)"
proof (cases "if is_inc then find_local_slot c name else None")
  case None
  have "emits0 c (update_stack (emit_name_op c BC_INC_VAR name) 1)"
    "emits0 c (update_stack (emit_name_op (emit True (emit_name_op c BC_INC_VAR name) BC_POP) BC_LOAD_VAR name) 0)"
    "emits0 c (emit_name_op (emit True (emit True (emit_one (emit True (emit_name_op c BC_LOAD_VAR name) BC_POS)) BC_SUB) BC_DUP) BC_STORE_VAR name)"
    "emits0 c (emit_name_op (emit True (emit_one (emit True (emit True (emit_name_op c BC_LOAD_VAR name) BC_POS) BC_DUP)) BC_SUB) BC_STORE_VAR name)"
    by (intro emits_rules; simp)+
  then show ?thesis using None by (simp add: cincdec_name_def Let_def)
next
  case (Some slot)
  then have f: "find_local_slot c name = Some slot" by (simp split: if_splits)
  have a: "emits0 c (emit_idx c BC_INC_LOCAL slot)" using slot_op_mems by (intro emits_slot_later [OF _ f] emits_rules) simp_all
  have "emits0 c (emit_idx (emit True (emit_idx c BC_INC_LOCAL slot) BC_POP) BC_LOAD_LOCAL slot)"
    using slot_op_mems by (intro emits_slot_later [OF _ f] emits_emit [OF a]) simp_all
  then show ?thesis using Some a by (simp add: cincdec_name_def Let_def emits_update_stack)
qed

lemma emits_cincdec:
  assumes g: "good (size (AST_UNARY op pre tgt)) ce"
  shows "emits0 c (cincdec ce E c op pre tgt)"
proof (cases "ident_name tgt")
  case (Some name)
  then show ?thesis by (simp add: cincdec_def Let_def emits_cincdec_name)
next
  case no: None
  define aop where "aop = (if op = ''++'' then BC_ADD else BC_SUB)"
  have b: "op_plain aop" by (simp add: aop_def)
  note def = cincdec_def Let_def no aop_def [symmetric]
  show ?thesis
  proof (cases "is_plain_member tgt")
    case (Some p)
    then obtain obj name where p: "is_plain_member tgt = Some (obj, name)" by (cases p) auto
    let ?c1 = "emit True (emit_name_op (emit True (ce c obj) BC_DUP) BC_GET_PROP name) BC_POS"
    have s: "size obj < size (AST_UNARY op pre tgt)" using is_plain_member_size [OF p] by simp
    have "emits0 c (emit_name_op (emit True (emit_one ?c1) aop) BC_SET_PROP name)" using s b by (intro emits_rules emits_ce [OF _ g] emits_cexprs [OF _ g]) simp_all
    moreover have "emits0 c (emit True (emit True (emit True (emit_name_op (emit True (emit_one (emit True ?c1 BC_DUP2)) aop) BC_SET_PROP name)
        BC_POP) BC_SWAP) BC_POP)" using s b by (intro emits_rules emits_ce [OF _ g] emits_cexprs [OF _ g]) simp_all
    ultimately show ?thesis using p by (simp add: def)
  next
    case no2: None
    show ?thesis
    proof (cases "is_computed_member tgt")
      case (Some p)
      then obtain obj key where p: "is_computed_member tgt = Some (obj, key)" by (cases p) auto
      let ?c1 = "emit True (emit True (emit True (ce (ce c obj) key) BC_DUP2) BC_GET_ELEM) BC_POS"
      have s: "size obj < size (AST_UNARY op pre tgt)" "size key < size (AST_UNARY op pre tgt)"
        using is_computed_member_size [OF p] by simp_all
      have "emits0 c (emit True (emit True (emit_one ?c1) aop) BC_SET_ELEM)" "emits0 c (emit_eval E ?c1 (AST_UNARY op pre tgt) True)"
        using s b by (intro emits_rules emits_ce [OF _ g] emits_cexprs [OF _ g]; simp)+
      then show ?thesis using no2 p by (cases pre) (simp_all add: def)
    next
      case None
      then show ?thesis using no2 by (simp add: def emits_rules)
    qed
  qed
qed


lemma emits_ctemplate_loop:
  "good k ce \<Longrightarrow> size_list size ns < k \<Longrightarrow> emits0 c c1 \<Longrightarrow> emits0 c (ctemplate_loop ce c1 parts ns)"
proof (induction ce c1 parts ns rule: ctemplate_loop.induct)
  case (2 ce c1 parts n ns)
  have s: "size n < k" "size_list size ns < k" using "2.prems" by simp_all
  have "emits0 c (emit True (ce c1 n) BC_ADD)" using s "2.prems" by (intro emits_rules emits_ce [OF _ "2.prems"(1)]) simp_all
  then have "emits0 c (let c1 = emit True (ce c1 n) BC_ADD; ck = (case parts of [] \<Rightarrow> [] | raw # _ \<Rightarrow> interp_bc_cook_template raw)
      in if ck \<noteq> [] then emit True (emit_push_string c1 ck) BC_ADD else c1)"
    by (simp add: Let_def emits_rules)
  from "2.IH" [OF refl refl refl "2.prems"(1) s(2), unfolded Let_def] this show ?case by (simp add: Let_def)
qed simp

lemma emits_ctemplate:
  assumes g: "good (size (AST_TEMPLATE tag parts es)) ce"
  shows "emits0 c (ctemplate ce E c tag parts es)"
proof -
  have "emits0 c (ctemplate_loop ce (emit_push_string c s) ps es)" for s ps
    by (intro emits_ctemplate_loop [OF g] emits_rules) simp_all
  then show ?thesis by (simp add: ctemplate_def emits_rules)
qed

lemma emits_cprop:
  assumes g: "good k ce" "size pn < k"
  shows "emits0 c (cprop ce c pn)"
proof (cases pn)
  case (AST_PROPERTY key val sh)
  then have s: "size key < k" "size val < k" using g(2) by simp_all
  have "emits0 c (emit_name_op (ce c val) BC_DEF_PROP x)" for x using s by (intro emits_rules emits_ce [OF _ g(1)]) simp_all
  moreover have "emits0 c (case pool_add_str True (ce c val) x of (c2, i) \<Rightarrow> emit_idx c2 BC_DEF_PROP i)" for x
    using s by (intro emits_rules emits_ce [OF _ g(1)]) simp_all
  moreover have "emits0 c (emit True (ce (ce c key) val) BC_DEF_ELEM)" using s by (intro emits_rules emits_ce [OF _ g(1)]) simp_all
  ultimately show ?thesis using AST_PROPERTY by (simp add: cprop_def Let_def split: option.split)
qed (simp_all add: cprop_def emits_refl)

lemma emits_cobject:
  assumes g: "good (size (AST_OBJECT props)) ce"
  shows "emits0 c (cobject ce E c props)"
proof -
  have "emits0 c (foldl (cprop ce) (emit True c BC_NEW_OBJECT) props)"
    using size_member by (intro emits_foldl emits_rules emits_cprop [OF g]) simp_all
  then show ?thesis by (simp add: cobject_def emits_rules)
qed

lemma emits_cfactored:
  assumes g: "good k ce" "size ident < k" "size l < k" "size r < k"
  shows "emits0 c (cfactored ce c op ident l r)"
proof -
  have "emits0 c (update_stack (emit True (emit_push_f64 (ce c ident) x) BC_MUL) (-1))" for x
    using g by (intro emits_rules emits_ce [OF _ g(1)]) simp_all
  moreover have "emits0 c (update_stack (emit True (emit True (ce (ce (ce c ident) l) r) (if op = ''+'' then BC_ADD else BC_SUB)) BC_MUL) (-1))"
    using g by (intro emits_rules emits_ce [OF _ g(1)]) simp_all
  ultimately show ?thesis by (auto simp: cfactored_def split: option.split)
qed

lemma emits_jump_op: "emits c c1 X T \<Longrightarrow> op_jump op \<Longrightarrow> emit_jump True c1 op = (c2, j) \<Longrightarrow> emits c c2 (insert j X) T"
  by (rule emits_emit_jump) (auto simp: op_jump_def)

lemma emits_drop: "emits c c1 X T \<Longrightarrow> emits0 c c1"
  by (rule emits_sub) simp_all

lemma emits_logical:
  assumes "op_jump op" "\<And>c. emits0 c (left c)" "\<And>c. emits0 c (right c)"
  shows "emits0 c (cexpr_logical op left right c)"
proof -
  obtain c1 j where j: "emit_jump True (left c) op = (c1, j)" by fastforce
  have "emits c (right (emit True c1 BC_POP)) (insert j {}) {}"
    by (intro emits_then0 [OF _ assms(3)] emits_emit emits_jump_op [OF assms(2) assms(1) j]) simp
  then show ?thesis using j emits_drop [OF emits_patch_here] by (fastforce simp: cexpr_logical_def)
qed

lemma emits_conditional:
  assumes "\<And>c. emits0 c (f c)" "\<And>c. emits0 c (g c)" "\<And>c. emits0 c (h c)"
  shows "emits0 c (cexpr_conditional f g h c)"
proof -
  obtain c2 j where j: "emit_jump True (f c) BC_JUMP_IF_FALSE = (c2, j)" by fastforce
  obtain c4 k where k: "emit_jump True (g c2) BC_JUMP = (c4, k)" by fastforce
  have "emits c (g c2) {j} {}" by (intro emits_then0 [OF _ assms(2)] emits_jump_op [OF assms(1) _ j]) simp
  then have "emits c c4 {k, j} {}" using emits_jump_op [OF _ _ k] by simp
  then have "emits c (patch_here c4 j) {k, j} {}" by (rule emits_patch_here) simp
  then have "emits c (h (patch_here c4 j)) {k, j} {}" by (rule emits_then0 [OF _ assms(3)])
  then have "emits c (patch_here (h (patch_here c4 j)) k) {k, j} {}" by (rule emits_patch_here) simp
  then show ?thesis using j k emits_drop by (simp add: cexpr_conditional_def)
qed

lemma emits_cbinary:
  assumes g: "good (size (AST_BINARY op l r)) ce"
  shows "emits0 c (cbinary ce E c op l r)"
proof -
  have b: "emits0 c (ce c l)" "emits0 c (ce c r)" for c using g by (simp_all add: good_def)
  have f: "emits0 c (cfactored ce c op i x y)" if "try_factor_cse op l r = Some (i, x, y)" for i x y
    using try_factor_cse_size [OF that] by (intro emits_cfactored [OF g]) simp_all
  have "emits0 c (cexpr_binary (binop_of op) (\<lambda>c. ce c l) (\<lambda>c. ce c r) c)" if "binop_of op \<noteq> BC_NOP"
    unfolding cexpr_binary_def using op_plain_binop [OF that] by (intro emits_rules emits_ce [OF _ g]) simp_all
  then show ?thesis using f emits_logical [OF _ b] by (simp add: cbinary_def emits_rules split: option.split)
qed

lemma emits_cunary:
  assumes g: "good (size (AST_UNARY op pre a)) ce"
  shows "emits0 c (cunary ce E c op pre a)"
proof -
  have t: "emits0 c (emit_name_op c BC_TYPEOF_VAR x)" "emits0 c (emit True (ce c a) BC_TYPEOF)" "emits0 c (emit True c BC_PUSH_TRUE)" for x
    by (intro emits_rules emits_ce [OF _ g]; simp)+
  have d: "emits0 c (emit_name_op (ce c obj) BC_DELETE_PROP x)" if "is_plain_member a = Some (obj, x)" for obj x
    using is_plain_member_size [OF that] by (intro emits_rules emits_ce [OF _ g]) simp_all
  have e: "emits0 c (emit True (ce (ce c obj) key) BC_DELETE_ELEM)" if "is_computed_member a = Some (obj, key)" for obj key
    using is_computed_member_size [OF that] by (intro emits_rules emits_ce [OF _ g]) simp_all
  have u: "emits0 c (emit True (ce c a) b)" if "unary_op op pre = Some b" for b
    using op_plain_unary [OF that] by (intro emits_rules emits_ce [OF _ g]) simp_all
  show ?thesis using t d e u emits_cincdec [OF g] by (simp add: cunary_def emits_rules split: option.split)
qed

lemma emits_cmember:
  assumes g: "good (size (AST_MEMBER obj key opt)) ce"
  shows "emits0 c (cmember ce E c obj key opt)"
proof -
  have p: "emits0 c (emit_name_op (ce c obj) BC_GET_PROP x)" for x by (intro emits_rules emits_ce [OF _ g]) simp_all
  have "emits0 c (update_stack (case pool_add_str True c s of (c1, i) \<Rightarrow> emit16 True (emit_idx c1 BC_LOAD_PROP slot) (int i)) 1)"
    if "find_local_slot c x = Some slot" for slot s x
    using find_slot_bound [OF that] by (intro emits_update_stack emits_load_prop emits_refl)
  then have "emits0 c (let (c1, pi) = pool_add_str True c s in update_stack (emit16 True (emit_idx c1 BC_LOAD_PROP slot) (int pi)) 1)"
    if "find_local_slot c x = Some slot" for slot s x
    using that by (simp add: split_def Let_def)
  then show ?thesis using p by (auto simp: cmember_def emits_rules split: option.split if_split)
qed

lemma emits_cseq: "good k ce \<Longrightarrow> size_list size ns < k \<Longrightarrow> emits0 c c1 \<Longrightarrow> emits0 c (cseq ce c1 ns)"
proof (induction ce c1 ns rule: cseq.induct)
  case (1 ce c1)
  then show ?case by (simp add: emits_rules)
next
  case (2 ce c1 n)
  then show ?case using emits_ce [of c c1 "{}" "{}" k ce n] by simp
next
  case (3 ce c1 n m ns)
  have "emits0 c (emit True (ce c1 n) BC_POP)" using "3.prems" by (intro emits_rules emits_ce [OF _ "3.prems"(1)]) simp_all
  then show ?case using "3.IH" "3.prems" by simp
qed

lemma emits_cliteral: "emits0 c (cliteral E c lit)"
  by (cases lit) (simp_all add: cliteral_def emits_rules)

lemma emits_cexpr_node:
  assumes g: "good (size n) ce"
  shows "emits0 c (cexpr_node ce E c n)"
proof (cases "c_ok c")
  case True
  have n: "BC_NEW \<in> set count_ops" "BC_NEW_ARRAY \<in> set count_ops" by (simp_all add: count_ops_def)
  show ?thesis
  proof (cases n)
    case (AST_CONDITIONAL a b d)
    have "emits0 c (ce c a)" "emits0 c (ce c b)" "emits0 c (ce c d)" for c using g AST_CONDITIONAL by (simp_all add: good_def)
    then have "emits0 c (cexpr_conditional (\<lambda>c. ce c a) (\<lambda>c. ce c b) (\<lambda>c. ce c d) c)" by (rule emits_conditional)
    then show ?thesis using True AST_CONDITIONAL by (simp add: cexpr_node_def)
  next
    case (AST_NEW callee args)
    have "emits0 c (emit_idx (cexprs ce (ce c callee) args) BC_NEW (length args))"
      using n AST_NEW by (intro emits_rules emits_ce [OF _ g] emits_cexprs [OF _ g]) simp_all
    then show ?thesis using True AST_NEW by (simp add: cexpr_node_def emits_rules)
  next
    case (AST_COMPUTED_MEMBER obj key)
    have "emits0 c (emit True (ce (ce c obj) key) BC_GET_ELEM)"
      using AST_COMPUTED_MEMBER by (intro emits_rules emits_ce [OF _ g]) simp_all
    then show ?thesis using True AST_COMPUTED_MEMBER by (simp add: cexpr_node_def emits_rules split: option.split)
  next
    case (AST_SEQUENCE ns)
    then show ?thesis using True emits_cseq [OF g _ emits_refl] by (simp add: cexpr_node_def)
  next
    case (AST_ARRAY es)
    have "emits0 c (emit_idx (cexprs ce c es) BC_NEW_ARRAY (length es))"
      using n AST_ARRAY by (intro emits_rules emits_cexprs [OF _ g]) simp_all
    then show ?thesis using True AST_ARRAY by (simp add: cexpr_node_def emits_rules)
  qed (use True g in \<open>simp_all add: cexpr_node_def emits_rules emits_cliteral emits_cbinary emits_cunary emits_ccall emits_cmember
    emits_cassign emits_cobject emits_ctemplate split: option.split\<close>)
qed (simp add: cexpr_node_def emits_refl)

lemma emits_cexpr: "emits0 c (cexpr E c n)"
proof (induction n arbitrary: c rule: measure_induct_rule [of size])
  case (less n)
  then have "good (size n) (cexpr E)" by (simp add: good_def)
  then show ?case by (subst cexpr_unfold) (rule emits_cexpr_node)
qed


section \<open>Declarations and names\<close>

lemma emits_locals:
  "emits c c1 X T \<Longrightarrow> length (c_locals c1) \<le> length ns \<Longrightarrow> emits c (c1\<lparr>c_locals := ns\<rparr>) X T"
  "emits c c1 X T \<Longrightarrow> emits c (c1\<lparr>c_var_local_count := v\<rparr>) X T"
  "emits c c1 X T \<Longrightarrow> emits c (c1\<lparr>c_pending_label := l\<rparr>) X T"
  "emits c c1 X T \<Longrightarrow> emits c (c1\<lparr>c_local_scope_depth := d\<rparr>) X T"
  "emits c c1 X T \<Longrightarrow> emits c (c1\<lparr>c_local_scope_depth := d, c_scope_overrun := b\<rparr>) X T"
  by (erule emits_eqv, rule emits_same; simp)+

lemma emits_register: "emits c c1 X T \<Longrightarrow> emits c (register_local_name c1 x) X T"
  by (simp add: register_local_name_def emits_locals)

lemma emits_register_name: "emits c c1 X T \<Longrightarrow> emits c (register_name c1 x) X T"
  by (simp add: register_name_def emits_register split: option.split)

lemma emits_register_function: "emits c c1 X T \<Longrightarrow> emits c (register_function c1 x) X T"
  by (simp add: register_function_def Let_def emits_locals split: option.split)

lemma emits_elements:
  assumes "\<And>c m. size m < Suc (size_list size ns) \<Longrightarrow> emits0 c (rp c m)"
  shows "emits0 c (register_elements rp is_obj c ns)"
  using assms
proof (induction ns arbitrary: c)
  case (Cons n ns)
  let ?t = "element_target is_obj n"
  have "emits0 c (if is_pattern ?t then rp c ?t else register_name c (ident_name ?t))"
    using Cons.prems [of ?t] element_target_size [of is_obj n] by (auto intro: emits_register_name emits_refl)
  moreover have "emits0 d (register_elements rp is_obj d ns)" for d using Cons.prems by (intro Cons.IH) simp
  ultimately show ?case using emits_then0 emits_register_name [OF emits_refl] by (auto simp: Let_def split: option.split)
qed (simp add: emits_refl)

lemma emits_pattern_names: "emits0 c (register_pattern_names c n)"
proof (induction n arbitrary: c rule: measure_induct_rule [of size])
  case (less n)
  have "emits0 c (register_elements (\<lambda>c m. register_pattern_names c m) b c ns)" if "size_list size ns < size n" for b ns
    using that by (intro emits_elements less) simp
  then show ?case by (subst register_pattern_names.simps) (auto simp: emits_refl split: ast.split)
qed

lemma emits_binding: "emits0 c (register_binding c v)"
  by (simp add: register_binding_def emits_pattern_names emits_register_name emits_refl)

lemma emits_declarators: "emits0 c (register_declarators c ds)"
  unfolding register_declarators_def
  by (intro emits_foldl emits_refl) (auto simp: emits_binding emits_refl split: declarator.split)

lemma emits_each: "emits0 c (register_each c each)"
  by (simp add: register_each_def emits_declarators emits_pattern_names emits_refl split: stmt.split)

lemma emits_cexpr_then: "emits c c1 X T \<Longrightarrow> emits c (cexpr E c1 n) X T"
  using emits_then0 emits_cexpr by blast

lemma emits_eval_stmt: "emits c c1 X T \<Longrightarrow> emits c (emit_eval_stmt S c1 n) X T"
  unfolding emit_eval_stmt_def by (rule emits_eval_at)

lemma emits_declare_name:
  assumes "emits c c1 X T"
  shows "emits c (case pool_add_str True c1 s of (c2, i) \<Rightarrow> emit_declare c2 i kind) X T"
proof -
  obtain c2 i where p: "pool_add_str True c1 s = (c2, i)" by fastforce
  show ?thesis using emits_pool_str [OF assms p] p by (simp add: emits_declare)
qed

lemma emits_cdeclarator: "emits0 c (cdeclarator E kind c d)"
proof (cases d)
  case (AST_VAR_DECLARATOR v init)
  let ?c1 = "if init \<noteq> AST_NONE then cexpr E c init else emit True c BC_PUSH_UNDEFINED"
  let ?name = "case ident_name v of Some x \<Rightarrow> x | None \<Rightarrow> []"
  obtain c2 i where p: "pool_add_str True ?c1 (str_bytes ?name) = (c2, i)" by fastforce
  have "emits0 c ?c1" by (simp add: emits_cexpr emits_rules)
  from emits_declare_name [OF this, where s = "str_bytes ?name" and kind = kind] have e: "emits0 c (emit_declare c2 i kind)" using p by simp
  then show ?thesis using AST_VAR_DECLARATOR p
    by (auto simp: cdeclarator_def Let_def emits_register emits_locals)
qed (simp add: cdeclarator_def emits_refl)

lemma emits_cvar_decl: "emits0 c (cvar_decl S c kind ds)"
proof -
  have "emits0 c (foldl (cdeclarator (se_expr S) kind) c ds)" by (intro emits_foldl emits_refl emits_cdeclarator)
  then show ?thesis by (simp add: cvar_decl_def emits_eval_stmt emits_declarators)
qed

section \<open>Statements\<close>

definition good_cs :: "nat \<Rightarrow> cs \<Rightarrow> bool" where
  "good_cs k cs \<longleftrightarrow> (\<forall>c m t. size m < k \<longrightarrow> emits0 c (cs c m t))"

lemma emits_cs: "emits c c1 X T \<Longrightarrow> good_cs k cs \<Longrightarrow> size m < k \<Longrightarrow> emits c (cs c1 m t) X T"
  by (rule emits_then0) (auto simp: good_cs_def)

lemma emits_clear_result: "emits c c1 X T \<Longrightarrow> emits c (clear_result t c1) X T"
  by (simp add: clear_result_def emits_emit)

lemma emits_scope_enter: "emits c c1 X T \<Longrightarrow> emits c (scope_enter c1) X T"
  unfolding scope_enter_def by (intro emits_emit emits_locals) simp_all

lemma emits_scope_leave: "emits c c1 X T \<Longrightarrow> emits c (scope_leave c1) X T"
  unfolding scope_leave_def Let_def by (intro emits_emit emits_locals) simp_all

lemma emits_cstmts:
  assumes "good_cs k cs" "\<And>m. m \<in> set items \<Longrightarrow> size m < k" "emits0 c c1"
  shows "emits0 c (cstmts cs t c1 items)"
  unfolding cstmts_def using assms by (intro emits_foldl) (auto simp: good_cs_def)

lemma emits_cblock:
  assumes "good_cs (size (AST_BLOCK items)) cs"
  shows "emits0 c (cblock cs c items)"
  using stmt_size_member
  by (simp add: cblock_def emits_scope_leave emits_cstmts [OF assms] emits_scope_enter emits_refl)

lemma emits_cif:
  assumes g: "good_cs (size (AST_IF cond body els)) cs"
  shows "emits0 c (cif cs E c cond body els)"
proof -
  obtain c1 j where j: "emit_jump True (cexpr E c cond) BC_JUMP_IF_FALSE = (c1, j)" by fastforce
  let ?c2 = "cs c1 body False"
  obtain c3 k where k: "emit_jump True ?c2 BC_JUMP = (c3, k)" by fastforce
  have 2: "emits c ?c2 {j} {}" by (intro emits_cs [OF _ g] emits_jump_op [OF emits_cexpr _ j]) simp_all
  have "emits c c3 {k, j} {}" using emits_jump_op [OF 2 _ k] by simp
  then have "emits c (patch_here c3 j) {k, j} {}" by (rule emits_patch_here) simp
  then have "emits c (cs (patch_here c3 j) els False) {k, j} {}" by (rule emits_cs [OF _ g]) simp
  then have "emits c (patch_here (cs (patch_here c3 j) els False) k) {k, j} {}" by (rule emits_patch_here) simp
  moreover have "emits c (patch_here ?c2 j) {j} {}" by (rule emits_patch_here [OF 2]) simp
  ultimately show ?thesis using j k emits_drop by (simp add: cif_def Let_def)
qed

lemma lt_imm_bounds:
  "lt_imm_test c test = Some (slot, v) \<Longrightarrow> slot < length (c_locals c) \<and> - (2 ^ 31) \<le> v \<and> v < 2 ^ 31"
  using f64_cast_range find_slot_bound
  by (fastforce simp: lt_imm_test_def split: ast.splits option.splits literal.splits if_splits)

lemma emits_cfor_test:
  assumes "emits c c1 X T" "cfor_test E c1 test = (c2, e)"
  shows "emits c c2 (set_option e \<union> X) T"
proof (cases "test = AST_NONE")
  case False
  show ?thesis
  proof (cases "lt_imm_test c1 test")
    case None
    obtain c3 j where j: "emit_jump True (cexpr E c1 test) BC_JUMP_IF_FALSE = (c3, j)" by fastforce
    show ?thesis using emits_jump_op [OF emits_cexpr_then [OF assms(1)] _ j] assms(2) None False j by (auto simp: cfor_test_def)
  next
    case (Some q)
    then obtain slot v where q: "lt_imm_test c1 test = Some (slot, v)" by (cases q) auto
    show ?thesis using emits_lt_imm [OF assms(1), of v slot] lt_imm_bounds [OF q] assms(2) q False
      by (auto simp: cfor_test_def Let_def)
  qed
qed (use assms in \<open>auto simp: cfor_test_def\<close>)

lemma emits_cfor_update: "emits c c1 X T \<Longrightarrow> emits c (cfor_update E c1 update) X T"
proof -
  assume e: "emits c c1 X T"
  have "emits c (emit_idx c1 BC_INC_LOCAL_DISCARD slot) X T" if "inc_discard c1 update = Some slot" for slot
  proof -
    have "slot < length (c_locals c1)" using that find_slot_bound by (fastforce simp: inc_discard_def split: ast.splits if_splits option.splits)
    then show ?thesis using slot_op_mems by (intro emits_slot [OF e])
  qed
  then show ?thesis using e by (simp add: cfor_update_def emits_emit emits_cexpr_then split: option.split)
qed


text \<open>Loops: the start of the loop and the end are boundaries, the jumps of the loop are known.\<close>

lemma emits_cfor:
  assumes g: "good_cs (size (AST_FOR init test update body)) cs"
  shows "emits0 c (cfor cs S c init test update body)"
proof -
  define c1 where "c1 = (case init of STMT_NONE \<Rightarrow> c | AST_VAR_DECL kind ds \<Rightarrow> cvar_decl S c kind ds | _ \<Rightarrow> cs c init False)"
  define c2 where "c2 = loop_push c1 False"
  obtain c3 e where t: "cfor_test (se_expr S) (emit True c2 BC_LOOP_TICK) test = (c3, e)" by fastforce
  define c4 where "c4 = cs c3 body False"
  obtain c5 bk where b: "emit_jump True (cfor_update (se_expr S) c4 update) BC_JUMP = (c5, bk)" by fastforce
  define c6 where "c6 = patch_jump_to c5 bk (here c2)"
  define c7 where "c7 = (case e of Some p \<Rightarrow> patch_jump_to c6 p (here c6) | None \<Rightarrow> c6)"
  have all: "cfor cs S c init test update body = loop_pop c7 (here c6) (here c4)"
    unfolding cfor_def c1_def [symmetric] Let_def c2_def [symmetric] t prod.case c4_def [symmetric] b c6_def [symmetric] c7_def [symmetric] ..
  have i: "emits0 c (cs c init False)" by (intro emits_cs [OF _ g] emits_refl) simp
  have 1: "emits0 c c1" using i emits_cvar_decl emits_refl by (cases init) (simp_all add: c1_def)
  have "emits c c2 {} {here c2}" unfolding c2_def by (intro emits_here emits_loop_push 1)
  then have "emits c (emit True c2 BC_LOOP_TICK) {} {here c2}" by (rule emits_emit) simp
  from emits_cfor_test [OF this t] have 3: "emits c c3 (set_option e) {here c2}" by simp
  have "emits c c4 (set_option e) {here c2}" unfolding c4_def by (rule emits_cs [OF 3 g]) simp
  then have 4: "emits c c4 (set_option e) {here c4, here c2}" by (rule emits_here)
  have 5: "emits c c5 (insert bk (set_option e)) {here c4, here c2}" by (rule emits_jump_op [OF emits_cfor_update [OF 4] _ b]) simp
  have 6: "emits c c6 (insert bk (set_option e)) {here c4, here c2}" unfolding c6_def by (rule emits_patch [OF 5]) simp_all
  then have 6: "emits c c6 (insert bk (set_option e)) {here c6, here c4, here c2}" by (rule emits_here)
  have "emits c c7 (insert bk (set_option e)) {here c6, here c4, here c2}"
    using emits_patch [OF 6] 6 by (auto simp: c7_def split: option.split)
  then show ?thesis unfolding all by (rule emits_drop [OF emits_loop_pop]) simp_all
qed

lemma emits_cwhile:
  assumes g: "good_cs (size (AST_WHILE cond body)) cs"
  shows "emits0 c (cwhile cs E c cond body)"
proof -
  define c1 where "c1 = loop_push c False"
  obtain c2 e where t: "emit_jump True (cexpr E (emit True c1 BC_LOOP_TICK) cond) BC_JUMP_IF_FALSE = (c2, e)" by fastforce
  obtain c3 bk where b: "emit_jump True (cs c2 body False) BC_JUMP = (c3, bk)" by fastforce
  define c4 where "c4 = patch_jump_to c3 bk (here c1)"
  have all: "cwhile cs E c cond body = loop_pop (patch_jump_to c4 e (here c4)) (here c4) (here c1)"
    unfolding cwhile_def c1_def [symmetric] Let_def t prod.case b c4_def [symmetric] ..
  have 1: "emits c c1 {} {here c1}" unfolding c1_def by (intro emits_here emits_loop_push emits_refl)
  have 2: "emits c c2 {e} {here c1}" by (rule emits_jump_op [OF _ _ t]) (simp_all add: 1 emits_cexpr_then emits_emit)
  have 3: "emits c c3 {bk, e} {here c1}" by (rule emits_jump_op [OF emits_cs [OF 2 g] _ b]) simp_all
  have "emits c c4 {bk, e} {here c1}" unfolding c4_def by (rule emits_patch [OF 3]) simp_all
  then have 4: "emits c c4 {bk, e} {here c4, here c1}" by (rule emits_here)
  have "emits c (patch_jump_to c4 e (here c4)) {bk, e} {here c4, here c1}" by (rule emits_patch [OF 4]) simp_all
  then show ?thesis unfolding all by (rule emits_drop [OF emits_loop_pop]) simp_all
qed

lemma emits_cdo_while:
  assumes g: "good_cs (size (AST_DO_WHILE body cond)) cs"
  shows "emits0 c (cdo_while cs E c body cond)"
proof -
  define c1 where "c1 = loop_push c False"
  define c2 where "c2 = cs (emit True c1 BC_LOOP_TICK) body False"
  obtain c3 bk where b: "emit_jump True (cexpr E c2 cond) BC_JUMP_IF_TRUE = (c3, bk)" by fastforce
  define c4 where "c4 = patch_jump_to c3 bk (here c1)"
  have all: "cdo_while cs E c body cond = loop_pop c4 (here c4) (here c2)"
    unfolding cdo_while_def c1_def [symmetric] Let_def c2_def [symmetric] b prod.case c4_def [symmetric] ..
  have 1: "emits c c1 {} {here c1}" unfolding c1_def by (intro emits_here emits_loop_push emits_refl)
  have "emits c c2 {} {here c1}" unfolding c2_def by (rule emits_cs [OF emits_emit [OF 1] g]) simp_all
  then have 2: "emits c c2 {} {here c2, here c1}" by (rule emits_here)
  have 3: "emits c c3 {bk} {here c2, here c1}" by (rule emits_jump_op [OF emits_cexpr_then [OF 2] _ b]) simp
  have "emits c c4 {bk} {here c2, here c1}" unfolding c4_def by (rule emits_patch [OF 3]) simp_all
  then have "emits c c4 {bk} {here c4, here c2, here c1}" by (rule emits_here)
  then show ?thesis unfolding all by (rule emits_drop [OF emits_loop_pop]) simp_all
qed

lemma emits_cfor_of:
  assumes g: "good_cs (size (AST_FOR_OF each source body)) cs"
  shows "emits0 c (cfor_of cs S c each source body)"
proof (cases "for_of_bind each")
  case None
  then show ?thesis by (simp add: cfor_of_def emits_eval_stmt emits_each)
next
  case (Some q)
  obtain bind kind declared where q: "for_of_bind each = Some (bind, kind, declared)" using Some by (cases q) auto
  define has_block where "has_block = (declared \<and> kind \<noteq> 0)"
  define c2 where "c2 = cexpr (se_expr S) (if declared then register_local_name c bind else c) source"
  define c4 where "c4 = loop_push (emit True (if has_block then scope_enter c2 else c2) BC_ITER_INIT) False"
  define c5 where "c5 = emit True (emit True c4 BC_LOOP_TICK) BC_ITER_NEXT"
  obtain c6 idx where p: "pool_add_str True (emit32 True c5 0) (str_bytes bind) = (c6, idx)" by fastforce
  define c7 where "c7 = (if declared then emit_declare c6 idx kind else emit_idx c6 BC_STORE_VAR idx)"
  define c8 where "c8 = emit True (cs c7 body False) BC_JUMP"
  define c9 where "c9 = patch_jump_to (emit32 True c8 0) (here c8) (here c4)"
  define c10 where "c10 = emit True (loop_pop (patch_jump_to c9 (here c5) (here c9)) (here c9) (here c4)) BC_ITER_CLOSE"
  have all: "cfor_of cs S c each source body = (if has_block then scope_leave c10 else c10)"
    unfolding cfor_of_def q option.case prod.case Let_def has_block_def [symmetric] c2_def [symmetric] c4_def [symmetric]
      c5_def [symmetric] p c7_def [symmetric] c8_def [symmetric] c9_def [symmetric] c10_def [symmetric] ..
  have "emits0 c c2" unfolding c2_def by (simp add: emits_cexpr_then emits_register emits_refl)
  then have 4: "emits c c4 {} {here c4}" unfolding c4_def by (intro emits_here emits_loop_push emits_emit) (simp_all add: emits_scope_enter)
  have "op_jump BC_ITER_NEXT" by simp
  then have 5: "emits c (emit32 True c5 0) {here c5} {here c4}"
    unfolding c5_def by (intro emits_jump emits_emit 4) (simp_all add: op_jump_def)
  note 6 = emits_pool_str [OF 5 p]
  have 7: "emits c c7 {here c5} {here c4}" unfolding c7_def using 6 by (simp add: emits_declare emits_name_idx)
  have "op_jump BC_JUMP" by simp
  then have 8: "emits c (emit32 True c8 0) {here c8, here c5} {here c4}"
    unfolding c8_def by (intro emits_jump emits_cs [OF 7 g]) (simp_all add: op_jump_def)
  have "emits c c9 {here c8, here c5} {here c4}" unfolding c9_def by (rule emits_patch [OF 8]) simp_all
  then have 9: "emits c c9 {here c8, here c5} {here c9, here c4}" by (rule emits_here)
  have "emits c (patch_jump_to c9 (here c5) (here c9)) {here c8, here c5} {here c9, here c4}" by (rule emits_patch [OF 9]) simp_all
  then have "emits c c10 {here c8, here c5} {here c9, here c4}" unfolding c10_def by (intro emits_emit emits_loop_pop) simp_all
  from emits_drop [OF this] show ?thesis by (simp add: all emits_scope_leave)
qed

text \<open>Switch: the jumps of the tests and the starts of the bodies.\<close>

lemma emits_case_tests:
  "emits c c1 (X \<union> {p. Some p \<in> set js}) T \<Longrightarrow> foldl (case_test E) (c1, js) cases = (c2, ks) \<Longrightarrow>
    emits c c2 (X \<union> {p. Some p \<in> set ks}) T"
proof (induction cases arbitrary: c1 js)
  case (Cons n cases)
  obtain c3 ls where s: "case_test E (c1, js) n = (c3, ls)" by fastforce
  have "emits c c3 (X \<union> {p. Some p \<in> set ls}) T"
  proof (cases "\<exists>cond body. n = AST_CASE cond body")
    case True
    then obtain cond body where n: "n = AST_CASE cond body" by blast
    obtain c4 j where j: "emit_jump True (emit True (cexpr E (emit True c1 BC_DUP) cond) BC_STRICT_EQ) BC_JUMP_IF_TRUE = (c4, j)" by fastforce
    have "emits c c4 (insert j (X \<union> {p. Some p \<in> set js})) T"
      by (rule emits_jump_op [OF _ _ j]) (simp_all add: emits_emit emits_cexpr_then Cons.prems(1))
    moreover have c: "c3 = c4" "ls = js @ [Some j]" using s n j by (simp_all add: case_test_def)
    moreover have "insert j (X \<union> {p. Some p \<in> set js}) = X \<union> {p. Some p \<in> set ls}" using c(2) by auto
    ultimately show ?thesis by simp
  next
    case False
    then have "c3 = c1" "ls = js @ [None]" using s by (auto simp: case_test_def split: stmt.splits)
    then show ?thesis using Cons.prems(1) by simp
  qed
  then show ?case using Cons.IH [of c3 ls] Cons.prems(2) s by simp
qed simp

lemma emits_case_bodies:
  assumes g: "good_cs k cs"
  shows "emits c c1 X (set ss) \<Longrightarrow> \<forall>m\<in>set cases. size m < k \<Longrightarrow> foldl (ccase_body cs) (c1, ss) cases = (c2, ts) \<Longrightarrow>
    emits c c2 X (set ts)"
proof (induction cases arbitrary: c1 ss)
  case (Cons n cases)
  obtain c3 us where s: "ccase_body cs (c1, ss) n = (c3, us)" by fastforce
  have sz: "size (case_body n) < k" using case_body_size [of n] Cons.prems(2) by auto
  define d where "d = (case case_body n of AST_BLOCK items \<Rightarrow> foldl (\<lambda>c m. cs c m False) c1 items | STMT_NONE \<Rightarrow> c1
    | body \<Rightarrow> cs c1 body False)"
  have h: "emits c c1 X (insert (here c1) (set ss))" by (rule emits_here [OF Cons.prems(1)])
  have b: "emits c (foldl (\<lambda>c m. cs c m False) c1 items) X (insert (here c1) (set ss))" if "case_body n = AST_BLOCK items" for items
    using g sz that stmt_size_member by (intro emits_foldl h) (fastforce simp: good_cs_def)
  have "emits c d X (insert (here c1) (set ss))"
    using b h emits_cs [OF h g sz] by (cases "case_body n") (simp_all add: d_def)
  moreover have "c3 = d \<and> us = ss @ [here c1]" using s by (cases "case_body n") (auto simp: ccase_body_def d_def)
  ultimately have "emits c c3 X (set us)" by simp
  then show ?case using Cons.IH [of c3 us] Cons.prems(2,3) s by simp
qed simp

lemma emits_patch_cases:
  "emits c c1 X T \<Longrightarrow> {p. Some p \<in> set js} \<subseteq> X \<Longrightarrow> set ss \<subseteq> T \<Longrightarrow> emits c (patch_cases c1 js ss) X T"
proof (induction js arbitrary: c1 ss)
  case (Cons j js)
  show ?case
  proof (cases ss)
    case (Cons s ss')
    have "emits c (case j of Some p \<Rightarrow> patch_jump_to c1 p s | None \<Rightarrow> c1) X T"
      using Cons.prems local.Cons by (auto intro: emits_patch split: option.split)
    from Cons.IH [OF this, of ss'] show ?thesis using Cons.prems local.Cons by (auto simp: patch_cases_def)
  qed (use Cons.prems in \<open>simp add: patch_cases_def\<close>)
qed (simp add: patch_cases_def)


lemma case_bodies_length: "foldl (ccase_body cs) (c1, ss) cases = (c2, ts) \<Longrightarrow> length ts = length ss + length cases"
proof (induction cases arbitrary: c1 ss)
  case (Cons n cases)
  obtain c3 us where s: "ccase_body cs (c1, ss) n = (c3, us)" by fastforce
  then have "length us = Suc (length ss)" by (auto simp: ccase_body_def)
  then show ?case using Cons.IH [of c3 us] Cons.prems s by simp
qed simp

lemma default_start_mem: "default_start cases starts = Some p \<Longrightarrow> length starts = length cases \<Longrightarrow> p \<in> set starts"
proof -
  assume d: "default_start cases starts = Some p" and l: "length starts = length cases"
  let ?ds = "filter (\<lambda>i. is_default (cases ! i)) [0..<length cases]"
  have n: "?ds \<noteq> []" "p = starts ! last ?ds" using d by (auto simp: default_start_def split: list.splits)
  then have "last ?ds \<in> set ?ds" by (intro last_in_set)
  then show ?thesis using n l by auto
qed

lemma emits_cswitch:
  assumes g: "good_cs (size (AST_SWITCH test cases)) cs"
  shows "emits0 c (cswitch cs E c test cases)"
proof -
  define c1 where "c1 = loop_push (cexpr E c test) True"
  obtain c2 js where t: "foldl (case_test E) (c1, []) cases = (c2, js)" by fastforce
  obtain c3 nm where n: "emit_jump True c2 BC_JUMP = (c3, nm)" by fastforce
  obtain c4 ss where b: "foldl (ccase_body cs) (c3, []) cases = (c4, ss)" by fastforce
  define c5 where "c5 = patch_cases c4 js ss"
  define dst where "dst = (case default_start cases ss of Some p \<Rightarrow> p | None \<Rightarrow> here c4)"
  define c6 where "c6 = patch_jump_to c5 nm dst"
  have all: "cswitch cs E c test cases = emit True (loop_pop c6 (here c4) (here c4)) BC_POP"
    unfolding cswitch_def c1_def [symmetric] Let_def t prod.case n b c5_def [symmetric] dst_def [symmetric] c6_def [symmetric] ..
  let ?X = "{p. Some p \<in> set js}"
  have 1: "emits0 c c1" unfolding c1_def by (intro emits_loop_push emits_cexpr)
  have "emits c c2 ?X {}" using emits_case_tests [OF _ t, of c "{}" "{}"] 1 by simp
  then have 3: "emits c c3 (insert nm ?X) {}" by (rule emits_jump_op [OF _ _ n]) simp
  have "emits c c4 (insert nm ?X) (set ss)"
    using 3 stmt_size_member by (intro emits_case_bodies [OF g _ _ b]) simp_all
  then have "emits c c4 (insert nm ?X) (insert (here c4) (set ss))" by (rule emits_here)
  then have 5: "emits c c5 (insert nm ?X) (insert (here c4) (set ss))" unfolding c5_def by (rule emits_patch_cases) auto
  have "dst \<in> insert (here c4) (set ss)"
    using default_start_mem [of cases ss] case_bodies_length [OF b] by (auto simp: dst_def split: option.split)
  then have "emits c c6 (insert nm ?X) (insert (here c4) (set ss))" unfolding c6_def by (intro emits_patch [OF 5]) simp_all
  then have "emits c (loop_pop c6 (here c4) (here c4)) (insert nm ?X) (insert (here c4) (set ss))" by (rule emits_loop_pop) simp_all
  from emits_drop [OF emits_emit [OF this, of BC_POP]] show ?thesis by (simp add: all)
qed

lemma emits_cbreak: "emits0 c (cbreak c label)"
proof (cases "find_target (c_loops c) label False")
  case (Some k)
  obtain c1 pos where j: "emit_jump True c BC_JUMP = (c1, pos)" by fastforce
  have "emits c c1 {pos} {}" by (rule emits_jump_op [OF emits_refl _ j]) simp
  then have "emits c (loop_add c1 k True pos) {pos} {}" by (rule emits_loop_add) simp
  then show ?thesis using Some j emits_drop by (simp add: cbreak_def)
qed (simp add: cbreak_def emits_fail emits_refl)

lemma emits_ccontinue: "emits0 c (ccontinue c label)"
proof (cases "find_target (c_loops c) label True")
  case (Some k)
  obtain c1 pos where j: "emit_jump True c BC_JUMP = (c1, pos)" by fastforce
  have "emits c c1 {pos} {}" by (rule emits_jump_op [OF emits_refl _ j]) simp
  then have "emits c (loop_add c1 k False pos) {pos} {}" by (rule emits_loop_add) simp
  then show ?thesis using Some j emits_drop by (simp add: ccontinue_def emits_fail emits_refl)
qed (simp add: ccontinue_def emits_fail emits_refl)

lemma emits_clabel:
  assumes g: "good_cs (size (AST_LABEL label inner)) cs"
  shows "emits0 c (clabel cs S c t label inner)"
proof -
  have "emits0 c (cs (c\<lparr>c_pending_label := label_name label\<rparr>) inner False)" by (intro emits_cs [OF _ g] emits_locals emits_refl) simp
  then show ?thesis by (simp add: clabel_def emits_eval_stmt emits_refl emits_clear_result emits_locals)
qed

lemma emits_cstmt_node:
  assumes g: "good_cs (size n) cs"
  shows "emits0 c (cstmt_node cs S c n t)"
proof (cases "c_ok c")
  case True
  have v: "emits0 c (emit True (cexpr E c e) (if t then BC_SET_RESULT else BC_POP))" for E e by (intro emits_emit emits_cexpr) simp
  show ?thesis
  proof (cases n)
    case (AST_PROGRAM items)
    then show ?thesis using True g stmt_size_member emits_cstmts [OF g _ emits_refl] by (simp add: cstmt_node_def Let_def)
  qed (use True g v in \<open>simp_all add: cstmt_node_def Let_def emits_refl emits_cblock emits_cif emits_cfor emits_cwhile emits_cdo_while
    emits_cfor_of emits_cswitch emits_cbreak emits_ccontinue emits_clabel emits_eval_stmt emits_clear_result emits_cvar_decl
    emits_register_name emits_register_function emits_cexpr emits_emit\<close>)
qed (simp add: cstmt_node_def emits_refl)

lemma emits_cstmt: "emits0 c (cstmt S c n t)"
proof (induction n arbitrary: c t rule: measure_induct_rule [of size])
  case (less n)
  then have "good_cs (size n) (cstmt S)" by (simp add: good_cs_def)
  then show ?case by (subst cstmt_unfold) (rule emits_cstmt_node)
qed

lemma emits_hoist_declarator: "emits0 c (hoist_declarator kind c d)"
proof (cases d)
  case (AST_VAR_DECLARATOR v init)
  have "emits0 c (emit_declare (emit True c2 BC_PUSH_UNDEFINED) i kind)"
    if p: "pool_add_str True (c\<lparr>c_locals := c_locals c @ [x], c_var_local_count := m\<rparr>) s = (c2, i)" for x m s c2 i
  proof -
    have 0: "emits0 c (c\<lparr>c_locals := c_locals c @ [x], c_var_local_count := m\<rparr>)" by (rule emits_same) simp_all
    note q = emits_pool_str [OF 0 p]
    have f: "fits (emit True c2 BC_PUSH_UNDEFINED) \<Longrightarrow> is_str (c_pool (emit True c2 BC_PUSH_UNDEFINED)) i"
      using q(2) fits32(2) [of c2 BC_PUSH_UNDEFINED] only_code_emit(1) [of c2 BC_PUSH_UNDEFINED] by (simp add: only_code_def)
    show ?thesis by (rule emits_declare [OF emits_emit [OF q(1)] f]) simp
  qed
  then show ?thesis using AST_VAR_DECLARATOR
    by (auto simp: hoist_declarator_def Let_def emits_refl split: option.split prod.split)
qed (simp add: hoist_declarator_def emits_refl)

lemma emits_hoist: "emits0 c (bc_collect_vars_hoist c n)"
proof (induction n arbitrary: c rule: measure_induct_rule [of size])
  case (less n)
  have f: "emits0 c (foldl (\<lambda>c m. bc_collect_vars_hoist c m) c items)" if "size_list size items < size n" for items c
    using that stmt_size_member by (intro emits_foldl emits_refl less) fastforce
  have s: "emits0 d c \<Longrightarrow> size m < size n \<Longrightarrow> emits0 d (bc_collect_vars_hoist c m)" for c d m
    using emits_then0 less by blast
  have "emits0 c (foldl (hoist_declarator kind) c ds)" for kind ds
    by (intro emits_foldl emits_refl emits_hoist_declarator)
  then show ?case using f s by (subst bc_collect_vars_hoist.simps) (auto simp: emits_refl split: stmt.split)
qed


section \<open>Compiled programs\<close>

lemma wt_start: "wt (comp_start pre disable) []"
  by (auto simp: wt_def at_boundary_def verified_def jumps_ok_def comp_start_def bc_comp_init_def)

lemma emits_compile_body: "emits0 (comp_start pre disable) (compile_body S n pre disable)"
  unfolding compile_body_def by (intro emits_emit emits_then0 [OF emits_hoist emits_cstmt]) simp

lemma compiled_insns:
  assumes "bc_compile_ex S inl n pre disable = Compiled u" "u_compiled u" "length (u_code u) < 2 ^ 31"
  shows "\<exists>is. u_code u = enc is \<and> verified (u_pool u) (min 256 (length pre) + u_local_count u) is"
proof -
  let ?d = "comp_start pre disable" and ?c = "compile_body S n pre disable"
  have u: "u_code u = c_code ?c" "u_pool u = c_pool ?c" "u_compiled u = c_ok ?c"
    "u_local_count u =
      (if length (c_locals ?c) \<ge> c_local_base ?c then length (c_locals ?c) - c_local_base ?c else length (c_locals ?c))"
    using assms(1) by (auto simp: bc_compile_ex_def Let_def split: if_splits)
  have g: "length (c_locals ?d) \<le> length (c_locals ?c)" "c_local_base ?c = c_local_base ?d"
    using emits_compile_body by (simp_all add: emits_def grows_def)
  have "c_local_base ?d = min 256 (length pre)" "length (c_locals ?d) = min 256 (length pre)"
    by (simp_all add: comp_start_def Let_def)
  then have N: "min 256 (length pre) + u_local_count u = length (c_locals ?c)"
    using g u(4) by simp
  have "fits ?c" using assms u by (simp add: fits_def)
  then obtain "is" where "wt ?c is" using emits_compile_body wt_start [of pre disable] unfolding emits_def by blast
  then have "c_code ?c = enc is" "verified (c_pool ?c) (length (c_locals ?c)) is" using at_boundary_enc by (auto simp: wt_def)
  then show ?thesis unfolding N unfolding u(1,2) by blast
qed

text \<open>(C2) Everything the compiler accepts passes the verifier, as long as its block scopes nest no deeper than the 64 entries
  of \<open>local_scope_stack\<close> (else the result is \<open>Overrun\<close>): the code is a sequence of instructions with the operands of the
  opcode table, constant operands name constants of the right type, slot operands name the names known to the compiler
  (\<open>this\<close>, the parameters and the counted locals), and every jump lands on an instruction or on the end of the code.\<close>

theorem compiled_code_verified:
  assumes "bc_compile_ex S inl n pre disable = Compiled u" "u_compiled u" "length (u_code u) < 2 ^ 31"
  shows "\<exists>is. u_code u = enc is \<and> verified (u_pool u) (min 256 (length pre) + u_local_count u) is"
  using assms by (rule compiled_insns)



definition sample_loop :: stmt where
  "sample_loop = AST_WHILE (AST_IDENTIFIER (Some ''x'')) (AST_BREAK AST_NONE)"

definition sample_stmt_env :: stmt_env where
  "sample_stmt_env = \<lparr>se_expr = \<lparr>ce_addr = (\<lambda>n. 0), ce_no_fuse = False\<rparr>, se_addr = (\<lambda>n. 0)\<rparr>"

lemma sample_break: "cstmt S c (AST_BREAK AST_NONE) False = (if c_ok c then cbreak c None else c)"
  by (simp add: cstmt_unfold [of S c] cstmt_node_def label_name_def ident_name_def)

lemma sample_while:
  "case emit True (clear_result True (cwhile (\<lambda>c m t. if c_ok c then cbreak c None else c) (se_expr sample_stmt_env)
       (comp_start [''this'', ''x''] False) (AST_IDENTIFIER (Some ''x'')) (AST_BREAK AST_NONE))) BC_STOP of
     c \<Rightarrow> c_ok c \<and> \<not> c_scope_overrun c \<and> c_code c = [61, 17, 1, 0, 55, 10, 0, 0, 0, 54, 5, 0, 0, 0, 54, 237, 255, 255, 255, 87, 0]"
  by code_simp

lemma sample_compiled:
  "\<exists>u. bc_compile_ex sample_stmt_env False sample_loop [''this'', ''x''] False = Compiled u \<and> u_compiled u
    \<and> length (u_code u) = 21"
proof -
  let ?s = "comp_start [''this'', ''x''] False"
  have "c_ok ?s" by (simp add: comp_start_def bc_comp_init_def Let_def)
  then have "cstmt sample_stmt_env ?s sample_loop True = clear_result True (cwhile (\<lambda>c m t. if c_ok c then cbreak c None else c)
      (se_expr sample_stmt_env) ?s (AST_IDENTIFIER (Some ''x'')) (AST_BREAK AST_NONE))"
    by (simp add: sample_loop_def cstmt_unfold [of _ _ "AST_WHILE x y" for x y] cstmt_node_def cwhile_def sample_break Let_def)
  moreover have "bc_collect_vars_hoist ?s sample_loop = ?s"
    by (simp add: sample_loop_def bc_collect_vars_hoist.simps)
  moreover have "\<not> is_program sample_loop" by (simp add: is_program_def sample_loop_def)
  ultimately show ?thesis
    using sample_while by (simp_all add: bc_compile_ex_def Let_def compile_body_def)
qed

theorem compiled_code_verified_witness:
  "\<exists>u is. bc_compile_ex sample_stmt_env False sample_loop [''this'', ''x''] False = Compiled u \<and> u_code u = enc is
    \<and> verified (u_pool u) (2 + u_local_count u) is"
proof -
  obtain u where "bc_compile_ex sample_stmt_env False sample_loop [''this'', ''x''] False = Compiled u" "u_compiled u"
    "length (u_code u) = 21"
    using sample_compiled by blast
  with compiled_code_verified [OF this(1,2)] show ?thesis by simp
qed


end
