(* ===== verification/LR_Encoding.thy ===== *)
theory LR_Encoding
  imports LR_Prelude
begin

text \<open>
  \<open>btoa\<close>, \<open>atob\<close> and the text encoder of \<^verbatim>\<open>src/lr_encoding.c\<close>.

  A JavaScript value reaches the functions through \<open>JS_ToCString\<close>, the parameter \<open>to_cstring\<close> (\<open>None\<close> is an exception); its
  result is the bytes before the terminating NUL. An array buffer is a list of bytes. \<open>mem\<close> says whether \<open>malloc\<close> succeeds.
\<close>

datatype enc_error = Enc_type_error | Enc_exception | Enc_out_of_memory | Enc_overread | Enc_overflow

type_synonym 'a enc_result = "enc_error + 'a"

section \<open>btoa\<close>

definition base64_table :: bytes where
  "base64_table = map of_char ''ABCDEFGHIJKLMNOPQRSTUVWXYZabcdefghijklmnopqrstuvwxyz0123456789+/''"

definition base64_char :: "u32 \<Rightarrow> byte" where
  "base64_char v = base64_table ! unat (v AND 0x3F)"

abbreviation pad :: byte where "pad \<equiv> 0x3D"

text \<open>One turn: up to three bytes from \<open>i\<close> become four characters. \<open>remaining\<close> is an \<open>int\<close>.\<close>

definition btoa_group :: "bytes \<Rightarrow> nat \<Rightarrow> bytes" where
  "btoa_group input i =
     (let remaining = to_i32 (length input - i);
          triple = push_bit 16 (ucast (input ! i)) OR (if remaining > 1 then push_bit 8 (ucast (input ! (i + 1))) else 0)
                   OR (if remaining > 2 then ucast (input ! (i + 2)) else (0 :: u32))
      in [base64_char (drop_bit 18 triple), base64_char (drop_bit 12 triple),
          if remaining > 1 then base64_char (drop_bit 6 triple) else pad,
          if remaining > 2 then base64_char triple else pad])"

function btoa_loop :: "bytes \<Rightarrow> nat \<Rightarrow> bytes \<Rightarrow> bytes" where
  "btoa_loop input i out = (if i < length input then btoa_loop input (i + 3) (out @ btoa_group input i) else out)"
  by pat_completeness auto
termination
  by (relation "measure (\<lambda>(input, i, out). length input - i)") auto

declare btoa_loop.simps [simp del]

definition btoa_out_len :: "nat \<Rightarrow> nat" where
  "btoa_out_len len = (len + 2) div 3 * 4 + 1"

definition lr_btoa :: "('v \<Rightarrow> bytes option) \<Rightarrow> bool \<Rightarrow> 'v list \<Rightarrow> bytes enc_result" where
  "lr_btoa to_cstring mem argv =
     (case argv of
        [] \<Rightarrow> Inl Enc_type_error
      | v # _ \<Rightarrow>
          (case to_cstring v of
             None \<Rightarrow> Inl Enc_exception
           | Some input \<Rightarrow>
               if \<not> mem then Inl Enc_out_of_memory
               else (let out = btoa_loop input 0 [] in
                     if length out + 1 \<le> btoa_out_len (length input) then Inr out else Inl Enc_overflow)))"

section \<open>atob\<close>

definition decode_table :: "byte \<Rightarrow> u32" where
  "decode_table c =
     (if 0x41 \<le> c \<and> c \<le> 0x5A then ucast (c - 0x41)
      else if 0x61 \<le> c \<and> c \<le> 0x7A then ucast (c - 0x61) + 26
      else if 0x30 \<le> c \<and> c \<le> 0x39 then ucast (c - 0x30) + 52
      else if c = 0x2B then 62 else if c = 0x2F then 63 else 0)"

text \<open>A read of the C string: the byte after the last is the NUL, what follows is out of bounds.\<close>

definition cstring_at :: "bytes \<Rightarrow> nat \<Rightarrow> byte option" where
  "cstring_at s i = (if i < length s then Some (s ! i) else if i = length s then Some 0 else None)"

text \<open>The up to three bytes of a group of four characters.\<close>

definition atob_bytes :: "byte \<Rightarrow> byte \<Rightarrow> byte \<Rightarrow> byte \<Rightarrow> bytes" where
  "atob_bytes p q r s =
     (let a = decode_table p; b = decode_table q;
          c = (if r = pad then 0 else decode_table r); d = (if s = pad then 0 else decode_table s)
      in [ucast (push_bit 2 a OR drop_bit 4 b)]
         @ (if r \<noteq> pad then [ucast (push_bit 4 b OR drop_bit 2 c)] else [])
         @ (if s \<noteq> pad then [ucast (push_bit 6 c OR d)] else []))"

function atob_loop :: "bytes \<Rightarrow> nat \<Rightarrow> nat \<Rightarrow> bytes \<Rightarrow> bytes enc_result" where
  "atob_loop input out_len i out =
     (if i < length input then
        (case (cstring_at input i, cstring_at input (i + 1), cstring_at input (i + 2), cstring_at input (i + 3)) of
           (Some p, Some q, Some r, Some s) \<Rightarrow>
             (let out1 = out @ atob_bytes p q r s in
              if length out1 \<le> out_len then atob_loop input out_len (i + 4) out1 else Inl Enc_overflow)
         | _ \<Rightarrow> Inl Enc_overread)
      else if length out < out_len then Inr out else Inl Enc_overflow)"
  by pat_completeness auto
termination
  by (relation "measure (\<lambda>(input, out_len, i, out). length input - i)") auto

declare atob_loop.simps [simp del]

definition atob_out_len :: "nat \<Rightarrow> nat" where
  "atob_out_len len = len div 4 * 3 + 1"

definition lr_atob :: "('v \<Rightarrow> bytes option) \<Rightarrow> bool \<Rightarrow> 'v list \<Rightarrow> bytes enc_result" where
  "lr_atob to_cstring mem argv =
     (case argv of
        [] \<Rightarrow> Inl Enc_type_error
      | v # _ \<Rightarrow>
          (case to_cstring v of
             None \<Rightarrow> Inl Enc_exception
           | Some input \<Rightarrow>
               if \<not> mem then Inl Enc_out_of_memory else atob_loop input (atob_out_len (length input)) 0 []))"

section \<open>Text encoder and decoder\<close>

definition lr_text_encoder_encode :: "('v \<Rightarrow> bytes option) \<Rightarrow> 'v list \<Rightarrow> bytes enc_result" where
  "lr_text_encoder_encode to_cstring argv =
     (case argv of [] \<Rightarrow> Inr [] | v # _ \<Rightarrow> (case to_cstring v of None \<Rightarrow> Inl Enc_exception | Some input \<Rightarrow> Inr input))"

text \<open>The destination after the copy and the number that \<open>read\<close> and \<open>written\<close> report.\<close>

definition lr_text_encoder_encodeInto ::
  "('v \<Rightarrow> bytes option) \<Rightarrow> ('v \<Rightarrow> bytes option) \<Rightarrow> 'v list \<Rightarrow> (bytes \<times> nat) enc_result" where
  "lr_text_encoder_encodeInto to_cstring array_buffer argv =
     (case argv of
        v # w # _ \<Rightarrow>
          (case to_cstring v of
             None \<Rightarrow> Inl Enc_exception
           | Some input \<Rightarrow>
               (case array_buffer w of
                  None \<Rightarrow> Inl Enc_type_error
                | Some dest \<Rightarrow>
                    (let written = (if length input < length dest then length input else length dest)
                     in Inr (take written input @ drop written dest, written))))
      | _ \<Rightarrow> Inl Enc_type_error)"

definition lr_text_decoder_decode :: "('v \<Rightarrow> bytes option) \<Rightarrow> 'v list \<Rightarrow> bytes enc_result" where
  "lr_text_decoder_decode array_buffer argv =
     (case argv of [] \<Rightarrow> Inr [] | v # _ \<Rightarrow> (case array_buffer v of None \<Rightarrow> Inl Enc_type_error | Some buf \<Rightarrow> Inr buf))"

section \<open>The encoding of RFC 4648\<close>

fun b64 :: "bytes \<Rightarrow> bytes" where
  "b64 (x # y # z # rest) =
     (let t = push_bit 16 (ucast x) OR push_bit 8 (ucast y) OR ucast z
      in [base64_char (drop_bit 18 t), base64_char (drop_bit 12 t), base64_char (drop_bit 6 t), base64_char t] @ b64 rest)"
| "b64 [x, y] =
     (let t = push_bit 16 (ucast x) OR push_bit 8 (ucast y)
      in [base64_char (drop_bit 18 t), base64_char (drop_bit 12 t), base64_char (drop_bit 6 t), pad])"
| "b64 [x] = (let t = push_bit 16 (ucast x) in [base64_char (drop_bit 18 t), base64_char (drop_bit 12 t), pad, pad])"
| "b64 [] = []"

lemma b64_length: "length (b64 xs) = (length xs + 2) div 3 * 4"
proof (induction xs rule: b64.induct)
  case (1 x y z rest)
  have "(length (x # y # z # rest) + 2) div 3 = Suc ((length rest + 2) div 3)" by simp
  then show ?case using 1 by (simp add: Let_def)
qed (simp_all add: Let_def)

lemma btoa_loop_spec: "length input < 2 ^ 31 \<Longrightarrow> btoa_loop input i out = out @ b64 (drop i input)"
proof (induction input i out rule: btoa_loop.induct)
  case (1 input i out)
  show ?case
  proof (cases "i < length input")
    case True
    have r: "to_i32 (length input - i) = int (length input - i)" using "1.prems" by (intro to_i32_small) simp
    have ih: "btoa_loop input i out = (out @ btoa_group input i) @ b64 (drop (i + 3) input)"
      using "1.IH" [OF True "1.prems"] True by (subst btoa_loop.simps) simp
    consider "length input = i + 1" | "length input = i + 2" | "i + 3 \<le> length input" using True by linarith
    then have "btoa_group input i @ b64 (drop (i + 3) input) = b64 (drop i input)"
    proof cases
      case 1
      then have "drop i input = [input ! i]" using Cons_nth_drop_Suc [OF True] by simp
      then show ?thesis using 1 r by (simp add: btoa_group_def Let_def)
    next
      case 2
      then have "drop i input = [input ! i, input ! (i + 1)]"
        using Cons_nth_drop_Suc [OF True] Cons_nth_drop_Suc [of "i + 1" input] by simp
      then show ?thesis using 2 r by (simp add: btoa_group_def Let_def)
    next
      case 3
      have "i + 1 < length input" "i + 2 < length input" using 3 by simp_all
      then have "drop i input = input ! i # input ! (i + 1) # input ! (i + 2) # drop (i + 3) input"
        using Cons_nth_drop_Suc [OF True] Cons_nth_drop_Suc [of "i + 1" input] Cons_nth_drop_Suc [of "i + 2" input]
        by (simp add: eval_nat_numeral)
      then show ?thesis using 3 r by (simp add: btoa_group_def Let_def)
    qed
    then show ?thesis using ih by simp
  next
    case False
    then show ?thesis by (subst btoa_loop.simps) simp
  qed
qed

section \<open>Decoding\<close>

lemma base64_table_bytes: "base64_table = map word_of_nat ([65..<91] @ [97..<123] @ [48..<58] @ [43, 47])"
  by (simp add: base64_table_def upt_rec of_char_def)

lemma table_decoded: "n < 64 \<Longrightarrow> decode_table (base64_table ! n) = word_of_nat n \<and> base64_table ! n \<noteq> pad"
proof -
  have "list_all2 (\<lambda>c n. decode_table c = word_of_nat n \<and> c \<noteq> pad) base64_table [0..<64]"
    unfolding base64_table_bytes by (simp add: upt_rec decode_table_def)
  then show "n < 64 \<Longrightarrow> ?thesis" by (simp add: list_all2_conv_all_nth)
qed

lemma char_decoded: "decode_table (base64_char v) = v AND 0x3F" "base64_char v \<noteq> pad"
proof -
  have "v AND 0x3F < 64" by (rule order_le_less_trans [OF word_and_le1]) simp
  then have "unat (v AND 0x3F) < 64" by (simp add: word_less_nat_alt)
  from table_decoded [OF this] show "decode_table (base64_char v) = v AND 0x3F" "base64_char v \<noteq> pad"
    by (simp_all add: base64_char_def)
qed

lemma mask6: "(0x3F :: u32) = mask 6"
  by (simp add: mask_eq_exp_minus_1)

lemma byte_bits: "(\<And>n. n < 8 \<Longrightarrow> bit (v :: byte) n = bit w n) \<Longrightarrow> v = w"
  by (rule bit_word_eqI) simp

lemma byte_high [simp]: "8 \<le> n \<Longrightarrow> \<not> bit (v :: byte) n"
  by (simp add: bit_word.rep_eq impossible_bit)

lemma group_bytes:
  fixes x y z :: byte
  defines "t \<equiv> push_bit 16 (ucast x) OR push_bit 8 (ucast y) OR (ucast z :: u32)"
  shows "ucast (push_bit 2 (drop_bit 18 t AND 0x3F) OR drop_bit 4 (drop_bit 12 t AND 0x3F)) = x"
    "ucast (push_bit 4 (drop_bit 12 t AND 0x3F) OR drop_bit 2 (drop_bit 6 t AND 0x3F)) = y"
    "ucast (push_bit 6 (drop_bit 6 t AND 0x3F) OR (t AND 0x3F)) = z"
proof -
  have n: "n < 8 \<Longrightarrow> n = 0 \<or> n = 1 \<or> n = 2 \<or> n = 3 \<or> n = 4 \<or> n = 5 \<or> n = 6 \<or> n = 7" for n :: nat by auto
  show "ucast (push_bit 2 (drop_bit 18 t AND 0x3F) OR drop_bit 4 (drop_bit 12 t AND 0x3F)) = x"
    unfolding mask6 t_def by (rule byte_bits) (drule n, elim disjE; simp add: bit_simps)
  show "ucast (push_bit 4 (drop_bit 12 t AND 0x3F) OR drop_bit 2 (drop_bit 6 t AND 0x3F)) = y"
    unfolding mask6 t_def by (rule byte_bits) (drule n, elim disjE; simp add: bit_simps)
  show "ucast (push_bit 6 (drop_bit 6 t AND 0x3F) OR (t AND 0x3F)) = z"
    unfolding mask6 t_def by (rule byte_bits) (drule n, elim disjE; simp add: bit_simps)
qed


lemma group_decoded:
  fixes x y z :: byte
  defines "t \<equiv> push_bit 16 (ucast x) OR push_bit 8 (ucast y) OR (ucast z :: u32)"
  shows "atob_bytes (base64_char (drop_bit 18 t)) (base64_char (drop_bit 12 t)) (base64_char (drop_bit 6 t)) (base64_char t) = [x, y, z]"
    "z = 0 \<Longrightarrow> atob_bytes (base64_char (drop_bit 18 t)) (base64_char (drop_bit 12 t)) (base64_char (drop_bit 6 t)) pad = [x, y]"
    "atob_bytes (base64_char (drop_bit 18 t)) (base64_char (drop_bit 12 t)) pad pad = [x]"
  using group_bytes [of x y z] by (simp_all add: atob_bytes_def Let_def char_decoded t_def)

text \<open>One turn of the loop inside the string.\<close>

lemma atob_step:
  assumes "length (out @ atob_bytes p q r s) \<le> m"
  shows "atob_loop (pre @ p # q # r # s # rest) m (length pre) out
    = atob_loop (pre @ p # q # r # s # rest) m (length (pre @ [p, q, r, s])) (out @ atob_bytes p q r s)"
proof -
  have "cstring_at (pre @ p # q # r # s # rest) (length pre) = Some p"
    "cstring_at (pre @ p # q # r # s # rest) (Suc (length pre)) = Some q"
    "cstring_at (pre @ p # q # r # s # rest) (length pre + 2) = Some r"
    "cstring_at (pre @ p # q # r # s # rest) (length pre + 3) = Some s"
    by (simp_all add: cstring_at_def nth_append)
  then show ?thesis using assms by (subst atob_loop.simps) (simp add: Let_def eval_nat_numeral)
qed

lemma atob_end: "length out < m \<Longrightarrow> atob_loop input m (length input) out = Inr out"
  by (subst atob_loop.simps) simp

lemma quarter: "((n :: nat) + 4) div 4 * 3 = n div 4 * 3 + 3" "(4 + (n :: nat)) div 4 * 3 = n div 4 * 3 + 3"
  using div_add_self2 [of 4 n] by (simp_all add: add.commute)

lemma atob_b64:
  "length out + length (b64 xs) div 4 * 3 < m \<Longrightarrow> atob_loop (pre @ b64 xs) m (length pre) out = Inr (out @ xs)"
proof (induction xs arbitrary: pre out rule: b64.induct)
  case (1 x y z rest)
  let ?t = "push_bit 16 (ucast x) OR push_bit 8 (ucast y) OR (ucast z :: u32)"
  let ?g = "[base64_char (drop_bit 18 ?t), base64_char (drop_bit 12 ?t), base64_char (drop_bit 6 ?t), base64_char ?t]"
  have b: "b64 (x # y # z # rest) = ?g @ b64 rest" by (simp add: Let_def)
  have "length (b64 (x # y # z # rest)) = length (b64 rest) + 4" by (simp add: b)
  then have m: "length (out @ [x, y, z]) + length (b64 rest) div 4 * 3 < m" using "1.prems" quarter [of "length (b64 rest)"] by simp
  have "atob_loop (pre @ b64 (x # y # z # rest)) m (length pre) out = atob_loop ((pre @ ?g) @ b64 rest) m (length (pre @ ?g)) (out @ [x, y, z])"
    using atob_step [of out "base64_char (drop_bit 18 ?t)" "base64_char (drop_bit 12 ?t)" "base64_char (drop_bit 6 ?t)" "base64_char ?t" m pre]
      group_decoded(1) [of x y z] m by (simp add: b)
  then show ?case using "1.IH" [OF refl m, of "pre @ ?g"] by simp
next
  case (2 x y)
  let ?t = "push_bit 16 (ucast x) OR push_bit 8 (ucast y) OR (ucast (0 :: byte) :: u32)"
  let ?g = "[base64_char (drop_bit 18 ?t), base64_char (drop_bit 12 ?t), base64_char (drop_bit 6 ?t), pad]"
  have b: "b64 [x, y] = ?g" by (simp add: Let_def)
  have "atob_loop (pre @ ?g) m (length pre) out = atob_loop (pre @ ?g) m (length (pre @ ?g)) (out @ [x, y])"
    using atob_step [of out "base64_char (drop_bit 18 ?t)" "base64_char (drop_bit 12 ?t)" "base64_char (drop_bit 6 ?t)" pad m pre "[]"]
      group_decoded(2) [of 0 x y] "2.prems" unfolding b by simp
  then show ?case using atob_end [of "out @ [x, y]" m "pre @ ?g"] "2.prems" unfolding b by simp
next
  case (3 x)
  let ?t = "push_bit 16 (ucast x) OR push_bit 8 (ucast (0 :: byte)) OR (ucast (0 :: byte) :: u32)"
  let ?g = "[base64_char (drop_bit 18 ?t), base64_char (drop_bit 12 ?t), pad, pad]"
  have b: "b64 [x] = ?g" by (simp add: Let_def)
  have "atob_loop (pre @ ?g) m (length pre) out = atob_loop (pre @ ?g) m (length (pre @ ?g)) (out @ [x])"
    using atob_step [of out "base64_char (drop_bit 18 ?t)" "base64_char (drop_bit 12 ?t)" pad pad m pre "[]"]
      group_decoded(3) [of x 0 0] "3.prems" unfolding b by simp
  then show ?case using atob_end [of "out @ [x]" m "pre @ ?g"] "3.prems" unfolding b by simp
next
  case 4
  then show ?case using atob_end [of out m pre] by simp
qed

section \<open>Properties\<close>

text \<open>(C32) \<open>btoa\<close> of any string below 2 GiB fits its buffer, is the base64 encoding, and \<open>atob\<close> of it gives the string back.\<close>

theorem atob_btoa_roundtrip:
  assumes "to_cstring v = Some input" "length input < 2 ^ 31"
  shows "\<exists>out. lr_btoa to_cstring True (v # vs) = Inr out \<and> out = b64 input
    \<and> (\<forall>w ws. to_cstring w = Some out \<longrightarrow> lr_atob to_cstring True (w # ws) = Inr input)"
proof -
  have l: "btoa_loop input 0 [] = b64 input" using btoa_loop_spec [OF assms(2), of 0 "[]"] by simp
  have "lr_btoa to_cstring True (v # vs) = Inr (b64 input)"
    using assms(1) by (simp add: lr_btoa_def l btoa_out_len_def b64_length)
  moreover have "lr_atob to_cstring True (w # ws) = Inr input" if "to_cstring w = Some (b64 input)" for w ws
    using that atob_b64 [of "[]" input "atob_out_len (length (b64 input))" "[]"] by (simp add: lr_atob_def atob_out_len_def)
  ultimately show ?thesis by blast
qed

theorem atob_btoa_roundtrip_witness:
  "\<exists>out. lr_btoa Some True [[0x61, 0xFF]] = Inr out \<and> out = b64 [0x61, 0xFF]
    \<and> (\<forall>w ws. Some w = Some out \<longrightarrow> lr_atob Some True (w # ws) = Inr [0x61, 0xFF])"
  by (rule atob_btoa_roundtrip) simp_all

text \<open>\<open>atob\<close> on a string whose length is a multiple of four stays inside the string and the buffer.\<close>

lemma atob_bytes_length: "length (atob_bytes p q r s) \<le> 3" "r \<noteq> pad \<Longrightarrow> s \<noteq> pad \<Longrightarrow> length (atob_bytes p q r s) = 3"
  by (auto simp: atob_bytes_def Let_def)

lemma atob_loop_safe:
  "length out + (length input - i) div 4 * 3 < m \<Longrightarrow> 4 dvd (length input - i) \<Longrightarrow> \<exists>xs. atob_loop input m i out = Inr xs"
proof (induction input m i out rule: atob_loop.induct)
  case (1 input m i out)
  show ?case
  proof (cases "i < length input")
    case True
    obtain k where k: "length input - i = 4 * k" using "1.prems"(2) by (auto simp: dvd_def)
    moreover from this have "0 < k" using True by (cases k) simp_all
    ultimately have j: "i + 3 < length input" "length input - (i + 4) = 4 * (k - 1)" "0 < k" by simp_all
    let ?b = "atob_bytes (input ! i) (input ! (i + 1)) (input ! (i + 2)) (input ! (i + 3))"
    have c: "cstring_at input i = Some (input ! i)" "cstring_at input (i + 1) = Some (input ! (i + 1))"
      "cstring_at input (i + 2) = Some (input ! (i + 2))" "cstring_at input (i + 3) = Some (input ! (i + 3))"
      using j(1) by (simp_all add: cstring_at_def)
    have m: "length (out @ ?b) + (length input - (i + 4)) div 4 * 3 < m"
      using atob_bytes_length(1) [of "input ! i" "input ! (i + 1)" "input ! (i + 2)" "input ! (i + 3)"] "1.prems"(1) k j(2,3) by simp
    have "\<exists>xs. atob_loop input m (i + 4) (out @ ?b) = Inr xs"
      using "1.IH" [OF True] c m j(2) by simp
    then show ?thesis using True c m by (subst atob_loop.simps) (simp add: Let_def)
  next
    case False
    then show ?thesis using "1.prems"(1) by (subst atob_loop.simps) simp
  qed
qed

text \<open>(C33) On a string whose length is a multiple of four \<open>atob\<close> never leaves the string or its buffer, whatever the characters.\<close>

theorem atob_in_bounds:
  assumes "to_cstring v = Some input" "4 dvd length input"
  shows "\<exists>xs. lr_atob to_cstring True (v # vs) = Inr xs"
  using atob_loop_safe [of "[]" input 0 "atob_out_len (length input)"] assms by (simp add: lr_atob_def atob_out_len_def)

theorem atob_in_bounds_witness: "\<exists>xs. lr_atob Some True [[0x21, 0x3D, 0x21, 0x3D]] = Inr xs"
  by (rule atob_in_bounds [of Some _ "[0x21, 0x3D, 0x21, 0x3D]"]) (simp_all, presburger)

lemma atob_loop_unsafe:
  "pad \<notin> set input \<Longrightarrow> \<not> 4 dvd (length input - i) \<Longrightarrow> m \<le> length out + (length input - i) div 4 * 3 + 1 \<Longrightarrow>
    atob_loop input m i out \<in> {Inl Enc_overread, Inl Enc_overflow}"
proof (induction input m i out rule: atob_loop.induct)
  case (1 input m i out)
  have True: "i < length input" using "1.prems"(2) by (rule_tac ccontr) simp
  have np: "input ! k \<noteq> pad" if "k < length input" for k using "1.prems"(1) that nth_mem by metis
  show ?case
  proof (cases "i + 3 \<le> length input")
    case False
    then have "cstring_at input (i + 3) = None" by (simp add: cstring_at_def)
    then show ?thesis using True by (subst atob_loop.simps) (simp split: option.split)
  next
    case 3: True
    let ?s = "if i + 3 < length input then input ! (i + 3) else 0"
    let ?b = "atob_bytes (input ! i) (input ! (i + 1)) (input ! (i + 2)) ?s"
    have c: "cstring_at input i = Some (input ! i)" "cstring_at input (i + 1) = Some (input ! (i + 1))"
      "cstring_at input (i + 2) = Some (input ! (i + 2))" "cstring_at input (i + 3) = Some ?s"
      using 3 by (auto simp: cstring_at_def)
    have "?s \<noteq> pad" using np by auto
    then have b: "length ?b = 3" using np [of "i + 2"] 3 by (intro atob_bytes_length(2)) auto
    show ?thesis
    proof (cases "i + 3 = length input")
      case True
      then have "\<not> length (out @ ?b) \<le> m" using "1.prems"(3) b by simp
      then show ?thesis using \<open>i < length input\<close> c by (subst atob_loop.simps) (simp add: Let_def)
    next
      case False
      then have l: "length input - i = (length input - (i + 4)) + 4" using 3 by simp
      have "\<not> 4 dvd (length input - (i + 4))" using "1.prems"(2) unfolding l by simp
      moreover have "m \<le> length (out @ ?b) + (length input - (i + 4)) div 4 * 3 + 1"
        using "1.prems"(3) b quarter [of "length input - (i + 4)"] unfolding l by simp
      ultimately have "length (out @ ?b) \<le> m \<Longrightarrow> atob_loop input m (i + 4) (out @ ?b) \<in> {Inl Enc_overread, Inl Enc_overflow}"
        using "1.IH" [OF True] c "1.prems"(1) by simp
      then show ?thesis using True c by (subst atob_loop.simps) (simp add: Let_def)
    qed
  qed
qed

text \<open>On a string without padding whose length is not a multiple of four, \<open>atob\<close> reads past the string or writes past its
  buffer.\<close>

theorem atob_unpadded_out_of_bounds:
  assumes "to_cstring v = Some input" "pad \<notin> set input" "\<not> 4 dvd length input"
  shows "lr_atob to_cstring True (v # vs) \<in> {Inl Enc_overread, Inl Enc_overflow}"
  using atob_loop_unsafe [of input 0 "atob_out_len (length input)" "[]"] assms by (simp add: lr_atob_def atob_out_len_def)

theorem atob_unpadded_out_of_bounds_witness: "lr_atob Some True [[0x59, 0x57, 0x49]] \<in> {Inl Enc_overread, Inl Enc_overflow}"
proof -
  have "\<not> 4 dvd (3 :: nat)" by presburger
  then show ?thesis by (intro atob_unpadded_out_of_bounds [of Some _ "[0x59, 0x57, 0x49]"]) (simp_all, presburger)
qed

end
