(* ===== verification/LR_Queue.thy ===== *)
theory LR_Queue
  imports LR_Prelude
begin

text \<open>
  The lock-free multi-producer queue of \<^verbatim>\<open>src/lr_lockfree_queue.h\<close>, one atomic access per step, so that the steps of
  several threads interleave.

  \<open>m_next\<close> is the \<open>next\<close> field of every allocated node; a node that is not in it has been freed, and an access to it is an
  error of the model. Addresses are numbers; \<open>m_fresh\<close> is the next one \<open>calloc\<close> returns, and no address is used twice.
\<close>

section \<open>Memory and queue\<close>

record lf_mem =
  m_next :: "nat \<rightharpoonup> nat option"
  m_fresh :: nat

record lfqueue =
  q_head :: "nat option"
  q_tail :: "nat option"
  q_count :: u32

type_synonym qstate = "lf_mem \<times> lfqueue"

datatype lf_error = Null_deref | Use_after_free

definition load_next :: "lf_mem \<Rightarrow> nat option \<Rightarrow> lf_error + nat option" where
  "load_next m p =
     (case p of None \<Rightarrow> Inl Null_deref
      | Some a \<Rightarrow> (case m_next m a of None \<Rightarrow> Inl Use_after_free | Some n \<Rightarrow> Inr n))"

definition store_next :: "lf_mem \<Rightarrow> nat \<Rightarrow> nat option \<Rightarrow> lf_mem" where
  "store_next m a n = m\<lparr>m_next := (m_next m)(a \<mapsto> n)\<rparr>"

definition calloc_node :: "lf_mem \<Rightarrow> lf_mem \<times> nat" where
  "calloc_node m = ((store_next m (m_fresh m) None)\<lparr>m_fresh := m_fresh m + 1\<rparr>, m_fresh m)"

definition free_node :: "lf_mem \<Rightarrow> nat \<Rightarrow> lf_mem" where
  "free_node m a = m\<lparr>m_next := (m_next m)(a := None)\<rparr>"

definition lr_lfq_init :: "bool \<Rightarrow> qstate \<Rightarrow> qstate" where
  "lr_lfq_init mem_ok s =
     (case s of (m, q) \<Rightarrow>
        if mem_ok then (let (m1, stub) = calloc_node m in (m1, q\<lparr>q_head := Some stub, q_tail := Some stub, q_count := 0\<rparr>))
        else (m, q))"

section \<open>Push\<close>

text \<open>The program counter of \<open>lr_lfq_push\<close> for a node, with the value of \<open>prev\<close>.\<close>

datatype pusher = P_start nat | P_load nat | P_cas nat "nat option" | P_tail nat "nat option" | P_count nat | P_done nat

definition push_step :: "qstate \<Rightarrow> pusher \<Rightarrow> lf_error + (qstate \<times> pusher)" where
  "push_step s p =
     (case s of (m, q) \<Rightarrow> (case p of
        P_start n \<Rightarrow> (case m_next m n of None \<Rightarrow> Inl Use_after_free | Some _ \<Rightarrow> Inr ((store_next m n None, q), P_load n))
      | P_load n \<Rightarrow> Inr (s, P_cas n (q_tail q))
      | P_cas n prev \<Rightarrow>
          (case load_next m prev of
             Inl e \<Rightarrow> Inl e
           | Inr None \<Rightarrow> Inr ((store_next m (the prev) (Some n), q), P_tail n prev)
           | Inr (Some _) \<Rightarrow> Inr (s, P_load n))
      | P_tail n prev \<Rightarrow> Inr ((m, if q_tail q = prev then q\<lparr>q_tail := Some n\<rparr> else q), P_count n)
      | P_count n \<Rightarrow> Inr ((m, q\<lparr>q_count := q_count q + 1\<rparr>), P_done n)
      | P_done n \<Rightarrow> Inr (s, P_done n)))"

section \<open>Pop\<close>

datatype popper =
    C_start | C_next "nat option" | C_peek nat | C_advance nat | C_stub nat | C_head nat nat | C_tail nat nat | C_count nat
  | C_done "nat option"

text \<open>The flag is the outcome of \<open>calloc\<close>.\<close>

definition pop_step :: "bool \<Rightarrow> qstate \<Rightarrow> popper \<Rightarrow> lf_error + (qstate \<times> popper)" where
  "pop_step mem_ok s p =
     (case s of (m, q) \<Rightarrow> (case p of
        C_start \<Rightarrow> Inr (s, C_next (q_head q))
      | C_next h \<Rightarrow>
          (case load_next m h of
             Inl e \<Rightarrow> Inl e | Inr None \<Rightarrow> Inr (s, C_done None) | Inr (Some n) \<Rightarrow> Inr (s, C_peek n))
      | C_peek n \<Rightarrow>
          (case load_next m (Some n) of
             Inl e \<Rightarrow> Inl e | Inr None \<Rightarrow> Inr (s, C_stub n) | Inr (Some _) \<Rightarrow> Inr (s, C_advance n))
      | C_advance n \<Rightarrow> Inr ((m, q\<lparr>q_head := Some n\<rparr>), C_count n)
      | C_stub n \<Rightarrow> if mem_ok then (let (m1, stub) = calloc_node m in Inr ((m1, q), C_head n stub)) else Inr (s, C_advance n)
      | C_head n stub \<Rightarrow> Inr ((m, q\<lparr>q_head := Some stub\<rparr>), C_tail n stub)
      | C_tail n stub \<Rightarrow> Inr ((m, q\<lparr>q_tail := Some stub\<rparr>), C_count n)
      | C_count n \<Rightarrow> Inr ((m, q\<lparr>q_count := q_count q - 1\<rparr>), C_done (Some n))
      | C_done r \<Rightarrow> Inr (s, C_done r)))"

text \<open>A call that runs alone, for a number of steps.\<close>

fun run_push :: "nat \<Rightarrow> qstate \<Rightarrow> pusher \<Rightarrow> lf_error + (qstate \<times> pusher)" where
  "run_push 0 s p = Inr (s, p)"
| "run_push (Suc k) s p = (case push_step s p of Inl e \<Rightarrow> Inl e | Inr (s1, p1) \<Rightarrow> run_push k s1 p1)"

fun run_pop :: "bool \<Rightarrow> nat \<Rightarrow> qstate \<Rightarrow> popper \<Rightarrow> lf_error + (qstate \<times> popper)" where
  "run_pop mem_ok 0 s p = Inr (s, p)"
| "run_pop mem_ok (Suc k) s p = (case pop_step mem_ok s p of Inl e \<Rightarrow> Inl e | Inr (s1, p1) \<Rightarrow> run_pop mem_ok k s1 p1)"

text \<open>Whole calls without interference: five steps of push and seven of pop are enough on a proper queue.\<close>

definition lr_lfq_push :: "qstate \<Rightarrow> nat \<Rightarrow> (lf_error + qstate) option" where
  "lr_lfq_push s n =
     (case run_push 5 s (P_start n) of
        Inl e \<Rightarrow> Some (Inl e) | Inr (s1, P_done _) \<Rightarrow> Some (Inr s1) | Inr _ \<Rightarrow> None)"

definition lr_lfq_pop :: "bool \<Rightarrow> qstate \<Rightarrow> lf_error + (qstate \<times> nat option)" where
  "lr_lfq_pop mem_ok s =
     (case run_pop mem_ok 7 s C_start of
        Inl e \<Rightarrow> Inl e | Inr (s1, C_done r) \<Rightarrow> Inr (s1, r) | Inr (s1, _) \<Rightarrow> Inr (s1, None))"

definition lr_lfq_peek :: "qstate \<Rightarrow> lf_error + nat option" where
  "lr_lfq_peek s = (case s of (m, q) \<Rightarrow> load_next m (q_head q))"

definition lr_lfq_count :: "qstate \<Rightarrow> u32" where
  "lr_lfq_count s = q_count (snd s)"

definition lr_lfq_is_empty :: "qstate \<Rightarrow> lf_error + bool" where
  "lr_lfq_is_empty s = (case lr_lfq_peek s of Inl e \<Rightarrow> Inl e | Inr r \<Rightarrow> Inr (r = None))"

definition lr_lfq_drain :: "bool \<Rightarrow> qstate \<Rightarrow> lf_error + (qstate \<times> nat option)" where
  "lr_lfq_drain mem_ok s =
     (case s of (m, q) \<Rightarrow>
        (case load_next m (q_head q) of
           Inl e \<Rightarrow> Inl e
         | Inr all \<Rightarrow>
             (let (m1, q1) = (if mem_ok then (let (m1, stub) = calloc_node m
                                              in (m1, q\<lparr>q_head := Some stub, q_tail := Some stub, q_count := 0\<rparr>))
                              else (m, q))
              in Inr ((free_node m1 (the (q_head q)), q1), all))))"

text \<open>The walk of \<open>lr_lfq_destroy\<close> with a \<open>free_data\<close> that frees the node, or none; a freed node is never reached again.\<close>

fun destroy_loop :: "nat \<Rightarrow> bool \<Rightarrow> lf_mem \<Rightarrow> nat option \<Rightarrow> lf_error + lf_mem" where
  "destroy_loop fuel frees m None = Inr m"
| "destroy_loop 0 frees m (Some a) = Inr m"
| "destroy_loop (Suc k) frees m (Some a) =
     (case load_next m (Some a) of
        Inl e \<Rightarrow> Inl e
      | Inr n \<Rightarrow> destroy_loop k frees (if frees then free_node m a else m) n)"

definition lr_lfq_destroy :: "nat \<Rightarrow> bool \<Rightarrow> qstate \<Rightarrow> lf_error + qstate" where
  "lr_lfq_destroy fuel frees s =
     (case s of (m, q) \<Rightarrow>
        (case destroy_loop fuel frees m (q_head q) of
           Inl e \<Rightarrow> Inl e | Inr m1 \<Rightarrow> Inr (m1, q\<lparr>q_head := None, q_tail := None, q_count := 0\<rparr>)))"

section \<open>The contents of a queue\<close>

fun chain :: "(nat \<rightharpoonup> nat option) \<Rightarrow> nat \<Rightarrow> nat list \<Rightarrow> bool" where
  "chain nx h [] \<longleftrightarrow> nx h = Some None"
| "chain nx h (x # xs) \<longleftrightarrow> nx h = Some (Some x) \<and> chain nx x xs"

text \<open>\<open>holds s xs\<close>: the queue contains the nodes \<open>xs\<close>, the oldest first, behind a stub, and the tail is the last of them.\<close>

definition holds :: "qstate \<Rightarrow> nat list \<Rightarrow> bool" where
  "holds s xs \<longleftrightarrow> (\<exists>h. q_head (snd s) = Some h \<and> chain (m_next (fst s)) h xs \<and> distinct (h # xs)
     \<and> q_tail (snd s) = Some (last (h # xs)) \<and> q_count (snd s) = word_of_nat (length xs)
     \<and> (\<forall>a\<in>dom (m_next (fst s)). a < m_fresh (fst s)))"

lemma chain_dom: "chain nx h xs \<Longrightarrow> set (h # xs) \<subseteq> dom nx"
  by (induction xs arbitrary: h) auto

lemma chain_upd: "a \<notin> set (h # xs) \<Longrightarrow> chain (nx(a := v)) h xs = chain nx h xs"
  by (induction xs arbitrary: h) auto

lemma chain_last: "chain nx h xs \<Longrightarrow> nx (last (h # xs)) = Some None"
  by (induction xs arbitrary: h) auto

lemma chain_link:
  "chain nx h xs \<Longrightarrow> distinct (h # xs) \<Longrightarrow> n \<notin> set (h # xs) \<Longrightarrow> nx n = Some None \<Longrightarrow>
    chain (nx(last (h # xs) \<mapsto> Some n)) h (xs @ [n])"
proof (induction xs arbitrary: h)
  case (Cons x xs)
  then have c: "chain (nx(last (x # xs) \<mapsto> Some n)) x (xs @ [n])" by (intro Cons.IH) simp_all
  have "last (x # xs) \<noteq> h" using Cons.prems(2) last_in_set [of "x # xs"] by auto
  then have "(nx(last (x # xs) \<mapsto> Some n)) h = Some (Some x)" using Cons.prems(1) by (subst fun_upd_other) simp_all
  moreover have "last (h # x # xs) = last (x # xs)" by simp
  ultimately show ?case using c unfolding append_Cons chain.simps by presburger
qed simp

lemma nxt_store [simp]: "m_next (store_next m a v) = (m_next m)(a \<mapsto> v)" "m_fresh (store_next m a v) = m_fresh m"
  by (simp_all add: store_next_def)

lemma push_spec:
  assumes "holds (m, q) xs" "n \<in> dom (m_next m)" "\<And>h. q_head q = Some h \<Longrightarrow> n \<notin> set (h # xs)"
  shows "\<exists>s1. lr_lfq_push (m, q) n = Some (Inr s1) \<and> holds s1 (xs @ [n]) \<and> dom (m_next (fst s1)) = dom (m_next m)"
proof -
  obtain h where h: "q_head q = Some h" "chain (m_next m) h xs" "distinct (h # xs)" "q_tail q = Some (last (h # xs))"
    "q_count q = word_of_nat (length xs)" "\<forall>a\<in>dom (m_next m). a < m_fresh m"
    using assms(1) by (auto simp: holds_def)
  have n: "n \<notin> set (h # xs)" using assms(3) [OF h(1)] .
  let ?t = "last (h # xs)"
  let ?m1 = "store_next m n None"
  let ?m2 = "store_next ?m1 ?t (Some n)" and ?q2 = "q\<lparr>q_tail := Some n, q_count := q_count q + 1\<rparr>"
  have c: "chain (m_next ?m1) h xs" using chain_upd [OF n] h(2) by simp
  have t: "m_next ?m1 ?t = Some None" "m_next m n \<noteq> None" using chain_last [OF c] assms(2) by auto
  have f: "(5 :: nat) = Suc (Suc (Suc (Suc (Suc 0))))" by simp
  have "lr_lfq_push (m, q) n = Some (Inr (?m2, ?q2))"
    using t h(4) by (auto simp: lr_lfq_push_def f push_step_def load_next_def split: option.splits if_splits)
  moreover have "chain (m_next ?m2) h (xs @ [n])" using chain_link [OF c h(3) n] by simp
  moreover have "?t \<in> dom (m_next m)" using chain_dom [OF h(2)] last_in_set [of "h # xs"] by blast
  ultimately show ?thesis using h assms(2) n
    by (intro exI [of _ "(?m2, ?q2)"]) (auto simp: holds_def)
qed

lemma pop_empty: "holds (m, q) [] \<Longrightarrow> lr_lfq_pop b (m, q) = Inr ((m, q), None)"
  by (auto simp: holds_def lr_lfq_pop_def eval_nat_numeral pop_step_def load_next_def)

lemma pop_spec:
  assumes "holds (m, q) (x # xs)"
  shows "\<exists>s1. lr_lfq_pop b (m, q) = Inr (s1, Some x) \<and> holds s1 xs \<and> dom (m_next m) \<subseteq> dom (m_next (fst s1))"
proof -
  obtain h where h: "q_head q = Some h" "chain (m_next m) h (x # xs)" "distinct (h # x # xs)" "q_tail q = Some (last (h # x # xs))"
    "q_count q = word_of_nat (length (x # xs))" "\<forall>a\<in>dom (m_next m). a < m_fresh m"
    using assms by (auto simp: holds_def)
  have f: "(7 :: nat) = Suc (Suc (Suc (Suc (Suc (Suc (Suc 0))))))" by simp
  have adv: "holds (m, q\<lparr>q_head := Some x, q_count := q_count q - 1\<rparr>) xs" using h by (auto simp: holds_def)
  show ?thesis
  proof (cases "xs = [] \<and> b")
    case False
    then have "lr_lfq_pop b (m, q) = Inr ((m, q\<lparr>q_head := Some x, q_count := q_count q - 1\<rparr>), Some x)"
      using h by (cases xs) (simp_all add: lr_lfq_pop_def f pop_step_def load_next_def)
    then show ?thesis using adv by auto
  next
    case True
    let ?s = "m_fresh m"
    let ?m1 = "(store_next m ?s None)\<lparr>m_fresh := ?s + 1\<rparr>"
    let ?q1 = "q\<lparr>q_head := Some ?s, q_tail := Some ?s, q_count := q_count q - 1\<rparr>"
    have "lr_lfq_pop b (m, q) = Inr ((?m1, ?q1), Some x)"
      using h True by (simp add: lr_lfq_pop_def f pop_step_def load_next_def calloc_node_def)
    moreover have "holds (?m1, ?q1) xs" using h True by (auto simp: holds_def less_Suc_eq)
    ultimately show ?thesis by auto
  qed
qed


section \<open>A queue and its clients\<close>

text \<open>What a client relies on: push appends a new node, pop takes the oldest.\<close>

locale node_queue =
  fixes has :: "'s \<Rightarrow> 'n list \<Rightarrow> bool" and push :: "'s \<Rightarrow> 'n \<Rightarrow> 's option" and pop :: "'s \<Rightarrow> ('s \<times> 'n option) option"
    and avail :: "'s \<Rightarrow> 'n \<Rightarrow> bool"
  assumes push_has: "has s xs \<Longrightarrow> avail s n \<Longrightarrow> \<exists>s1. push s n = Some s1 \<and> has s1 (xs @ [n]) \<and> (\<forall>k. k \<noteq> n \<longrightarrow> avail s k \<longrightarrow> avail s1 k)"
    and pop_has: "has s (x # xs) \<Longrightarrow> \<exists>s1. pop s = Some (s1, Some x) \<and> has s1 xs"
    and pop_none: "has s [] \<Longrightarrow> pop s = Some (s, None)"
begin

fun push_all :: "'s \<Rightarrow> 'n list \<Rightarrow> 's option" where
  "push_all s [] = Some s"
| "push_all s (n # ns) = (case push s n of None \<Rightarrow> None | Some s1 \<Rightarrow> push_all s1 ns)"

fun pop_all :: "nat \<Rightarrow> 's \<Rightarrow> 'n list option" where
  "pop_all 0 s = Some []"
| "pop_all (Suc k) s =
     (case pop s of
        Some (s1, Some x) \<Rightarrow> (case pop_all k s1 of Some xs \<Rightarrow> Some (x # xs) | None \<Rightarrow> None)
      | Some (s1, None) \<Rightarrow> Some []
      | None \<Rightarrow> None)"

lemma push_all_has: "has s xs \<Longrightarrow> distinct ns \<Longrightarrow> \<forall>n\<in>set ns. avail s n \<Longrightarrow> \<exists>s1. push_all s ns = Some s1 \<and> has s1 (xs @ ns)"
proof (induction ns arbitrary: s xs)
  case (Cons n ns)
  obtain s1 where s1: "push s n = Some s1" "has s1 (xs @ [n])" "\<forall>k. k \<noteq> n \<longrightarrow> avail s k \<longrightarrow> avail s1 k"
    using push_has [OF Cons.prems(1), of n] Cons.prems(3) by auto
  then have "\<forall>k\<in>set ns. avail s1 k" using Cons.prems(2,3) by auto
  then show ?case using Cons.IH [OF s1(2)] Cons.prems(2) s1(1) by simp
qed simp

lemma pop_all_has: "has s xs \<Longrightarrow> length xs < k \<Longrightarrow> pop_all k s = Some xs"
proof (induction k arbitrary: s xs)
  case (Suc k)
  show ?case
  proof (cases xs)
    case Nil
    then show ?thesis using pop_none Suc.prems(1) by simp
  next
    case (Cons x ys)
    then obtain s1 where "pop s = Some (s1, Some x)" "has s1 ys" using pop_has Suc.prems(1) by blast
    then show ?thesis using Suc.IH [of s1 ys] Suc.prems(2) Cons by simp
  qed
qed simp

theorem fifo: "has s [] \<Longrightarrow> distinct ns \<Longrightarrow> \<forall>n\<in>set ns. avail s n \<Longrightarrow> \<exists>s1. push_all s ns = Some s1 \<and> pop_all (Suc (length ns)) s1 = Some ns"
proof -
  assume a: "has s []" "distinct ns" "\<forall>n\<in>set ns. avail s n"
  then obtain s1 where s1: "push_all s ns = Some s1" "has s1 ns" using push_all_has [of s "[]" ns] by auto
  then show ?thesis using pop_all_has [OF s1(2), of "Suc (length ns)"] by simp
qed

end

definition outside :: "qstate \<Rightarrow> nat \<Rightarrow> bool" where
  "outside s n \<longleftrightarrow> n \<in> dom (m_next (fst s)) \<and> (\<forall>h xs. holds s xs \<longrightarrow> q_head (snd s) = Some h \<longrightarrow> n \<notin> set (h # xs))"

definition push_opt :: "qstate \<Rightarrow> nat \<Rightarrow> qstate option" where
  "push_opt s n = (case lr_lfq_push s n of Some (Inr s1) \<Rightarrow> Some s1 | _ \<Rightarrow> None)"

definition pop_opt :: "qstate \<Rightarrow> (qstate \<times> nat option) option" where
  "pop_opt s = (case lr_lfq_pop True s of Inr r \<Rightarrow> Some r | Inl _ \<Rightarrow> None)"

lemma chain_unique: "chain nx h xs \<Longrightarrow> chain nx h ys \<Longrightarrow> xs = ys"
proof (induction xs arbitrary: h ys)
  case Nil
  then show ?case by (cases ys) simp_all
next
  case (Cons x xs)
  then show ?case by (cases ys) auto
qed

lemma holds_unique: "holds s xs \<Longrightarrow> holds s ys \<Longrightarrow> xs = ys"
  by (auto simp: holds_def dest: chain_unique)

lemma outside_push:
  assumes "holds s xs" "outside s n"
  shows "\<exists>s1. push_opt s n = Some s1 \<and> holds s1 (xs @ [n]) \<and> (\<forall>k. k \<noteq> n \<longrightarrow> outside s k \<longrightarrow> outside s1 k)"
proof -
  obtain m q where s: "s = (m, q)" by fastforce
  obtain h where h: "q_head q = Some h" using assms(1) by (auto simp: holds_def s)
  have a: "n \<in> dom (m_next m)" "\<And>h. q_head q = Some h \<Longrightarrow> n \<notin> set (h # xs)"
    using assms by (auto simp: outside_def s)
  obtain s1 where s1: "lr_lfq_push s n = Some (Inr s1)" "holds s1 (xs @ [n])" "dom (m_next (fst s1)) = dom (m_next m)"
    using push_spec [of m q xs n] assms(1) a s by auto
  have hd: "q_head (snd s1) = q_head q"
    using s1(1) unfolding lr_lfq_push_def s
    by (auto simp: eval_nat_numeral push_step_def load_next_def split: sum.splits option.splits pusher.splits if_splits prod.splits)
  have "outside s1 k" if "k \<noteq> n" "outside s k" for k
    unfolding outside_def
  proof (intro conjI allI impI)
    show "k \<in> dom (m_next (fst s1))" using that(2) s1(3) by (simp add: outside_def s)
    fix g ys
    assume "holds s1 ys" "q_head (snd s1) = Some g"
    then have "ys = xs @ [n]" "q_head q = Some g" using holds_unique [OF s1(2)] hd by auto
    then show "k \<notin> set (g # ys)" using that assms(1) by (auto simp: outside_def s)
  qed
  then show ?thesis using s1(1,2) by (auto simp: push_opt_def)
qed

interpretation lfq: node_queue holds push_opt pop_opt outside
proof
  fix s xs n
  assume "holds s xs" "outside s n"
  then show "\<exists>s1. push_opt s n = Some s1 \<and> holds s1 (xs @ [n]) \<and> (\<forall>k. k \<noteq> n \<longrightarrow> outside s k \<longrightarrow> outside s1 k)"
    by (rule outside_push)
next
  fix s x xs
  assume "holds s (x # xs)"
  then show "\<exists>s1. pop_opt s = Some (s1, Some x) \<and> holds s1 xs"
    using pop_spec [of "fst s" "snd s" x xs True] by (auto simp: pop_opt_def)
next
  fix s
  assume "holds s []"
  then show "pop_opt s = Some (s, None)" using pop_empty [of "fst s" "snd s" True] by (simp add: pop_opt_def)
qed


lemma lfq_fifo:
  "holds s [] \<Longrightarrow> distinct ns \<Longrightarrow> \<forall>n\<in>set ns. outside s n \<Longrightarrow>
    \<exists>s1. lfq.push_all s ns = Some s1 \<and> lfq.pop_all (Suc (length ns)) s1 = Some ns"
  by (rule lfq.fifo)

lemma peek_spec: "holds s xs \<Longrightarrow> lr_lfq_peek s = Inr (case xs of [] \<Rightarrow> None | x # _ \<Rightarrow> Some x)"
  by (cases s; cases xs) (auto simp: holds_def lr_lfq_peek_def load_next_def)

text \<open>(C6) Without interference the queue is a first-in first-out queue: push of a node that is not in it returns and appends
  the node, pop returns the oldest node or NULL, peek returns that node and leaves it, and the emptiness test and the counter
  tell the contents (the counter modulo \<open>2\<^sup>3\<^sup>2\<close>).\<close>

theorem lfq_refines_queue:
  assumes "holds s xs"
  shows "(outside s n \<longrightarrow> (\<exists>s1. lr_lfq_push s n = Some (Inr s1) \<and> holds s1 (xs @ [n])))
    \<and> (case xs of [] \<Rightarrow> lr_lfq_pop b s = Inr (s, None) | x # ys \<Rightarrow> \<exists>s1. lr_lfq_pop b s = Inr (s1, Some x) \<and> holds s1 ys)
    \<and> lr_lfq_peek s = Inr (case xs of [] \<Rightarrow> None | x # _ \<Rightarrow> Some x)
    \<and> lr_lfq_is_empty s = Inr (xs = []) \<and> lr_lfq_count s = word_of_nat (length xs)"
proof (intro conjI impI)
  show "\<exists>s1. lr_lfq_push s n = Some (Inr s1) \<and> holds s1 (xs @ [n])" if "outside s n"
    using lfq.push_has [OF assms that] by (auto simp: push_opt_def split: option.splits sum.splits)
  show "case xs of [] \<Rightarrow> lr_lfq_pop b s = Inr (s, None) | x # ys \<Rightarrow> \<exists>s1. lr_lfq_pop b s = Inr (s1, Some x) \<and> holds s1 ys"
  proof (cases xs)
    case Nil
    then show ?thesis using assms pop_empty [of "fst s" "snd s" b] by simp
  next
    case (Cons x ys)
    then show ?thesis using assms pop_spec [of "fst s" "snd s" x ys b] by auto
  qed
  show "lr_lfq_peek s = Inr (case xs of [] \<Rightarrow> None | x # _ \<Rightarrow> Some x)"
    by (rule peek_spec [OF assms])
  show "lr_lfq_is_empty s = Inr (xs = [])"
    using peek_spec [OF assms] by (simp add: lr_lfq_is_empty_def split: list.split)
  show "lr_lfq_count s = word_of_nat (length xs)" using assms by (auto simp: holds_def lr_lfq_count_def)
qed

text \<open>A queue with node 0 as its stub and a free node 1.\<close>

definition lfq_sample :: qstate where
  "lfq_sample = (\<lparr>m_next = [0 \<mapsto> None, 1 \<mapsto> None, 2 \<mapsto> None], m_fresh = 3\<rparr>, \<lparr>q_head = Some 0, q_tail = Some 0, q_count = 0\<rparr>)"

lemma lfq_sample_holds: "holds lfq_sample []" "outside lfq_sample 1" "outside lfq_sample 2"
proof -
  show h: "holds lfq_sample []" by (auto simp: holds_def lfq_sample_def)
  show "outside lfq_sample 1" "outside lfq_sample 2"
    using holds_unique [OF h] by (force simp: outside_def lfq_sample_def)+
qed

theorem lfq_refines_queue_witness:
  "\<exists>s1. lr_lfq_push lfq_sample 1 = Some (Inr s1) \<and> holds s1 [1]"
  using lfq_refines_queue [OF lfq_sample_holds(1), of 1 True] lfq_sample_holds(2) by simp

section \<open>Interleavings\<close>

text \<open>A schedule names the thread of each step: a producer by its number, or the consumer with the outcome of its \<open>calloc\<close>.\<close>

datatype lf_thread = Producer nat | Consumer bool

fun run_threads :: "lf_thread list \<Rightarrow> qstate \<Rightarrow> pusher list \<Rightarrow> popper \<Rightarrow> lf_error + (qstate \<times> pusher list \<times> popper)" where
  "run_threads [] s ps c = Inr (s, ps, c)"
| "run_threads (Producer i # ts) s ps c =
     (if i < length ps
      then (case push_step s (ps ! i) of Inl e \<Rightarrow> Inl e | Inr (s1, p1) \<Rightarrow> run_threads ts s1 (ps[i := p1]) c)
      else run_threads ts s ps c)"
| "run_threads (Consumer b # ts) s ps c =
     (case pop_step b s c of Inl e \<Rightarrow> Inl e | Inr (s1, c1) \<Rightarrow> run_threads ts s1 ps c1)"

fun node_of :: "pusher \<Rightarrow> nat" where
  "node_of (P_start n) = n" | "node_of (P_load n) = n" | "node_of (P_cas n _) = n" | "node_of (P_tail n _) = n"
| "node_of (P_count n) = n" | "node_of (P_done n) = n"

fun linked :: "pusher \<Rightarrow> bool" where
  "linked (P_tail _ _) = True" | "linked (P_count _) = True" | "linked (P_done _) = True" | "linked _ = False"

text \<open>The invariant of the producers: the queue is a chain of the old nodes and of the linked ones.\<close>

definition pusher_ok :: "(nat \<rightharpoonup> nat option) \<Rightarrow> nat list \<Rightarrow> pusher \<Rightarrow> bool" where
  "pusher_ok nx zs p \<longleftrightarrow> node_of p \<in> dom nx \<and> (linked p \<longleftrightarrow> node_of p \<in> set zs)
     \<and> (case p of P_load n \<Rightarrow> nx n = Some None | P_cas n prev \<Rightarrow> nx n = Some None \<and> (\<exists>a\<in>set zs. prev = Some a) | _ \<Rightarrow> True)"

definition pushers_inv :: "qstate \<Rightarrow> pusher list \<Rightarrow> nat \<Rightarrow> nat list \<Rightarrow> bool" where
  "pushers_inv s ps h zs \<longleftrightarrow> q_head (snd s) = Some h \<and> chain (m_next (fst s)) h zs \<and> distinct (h # zs)
     \<and> (\<exists>t\<in>set (h # zs). q_tail (snd s) = Some t) \<and> distinct (map node_of ps) \<and> list_all (pusher_ok (m_next (fst s)) (h # zs)) ps"

lemma chain_None_last: "chain nx h xs \<Longrightarrow> a \<in> set (h # xs) \<Longrightarrow> nx a = Some None \<Longrightarrow> a = last (h # xs)"
  by (induction xs arbitrary: h) auto

lemma pusher_ok_other:
  assumes "pusher_ok nx zs p" "node_of p \<noteq> n" "a \<noteq> node_of p" "set zs \<subseteq> set zs'" "node_of p \<in> set zs' \<longrightarrow> node_of p \<in> set zs"
  shows "pusher_ok (nx(a \<mapsto> v)) zs' p"
  using assms by (cases p) (auto simp: pusher_ok_def)

lemma pushers_step:
  assumes "pushers_inv s ps h zs" "i < length ps"
  shows "\<exists>s1 p1 ws. push_step s (ps ! i) = Inr (s1, p1) \<and> pushers_inv s1 (ps[i := p1]) h (zs @ ws)
    \<and> node_of p1 = node_of (ps ! i) \<and> set ws \<subseteq> {node_of (ps ! i)}"
proof -
  obtain m q where s: "s = (m, q)" by fastforce
  obtain t where inv: "q_head q = Some h" "chain (m_next m) h zs" "distinct (h # zs)" "t \<in> set (h # zs)" "q_tail q = Some t"
    "distinct (map node_of ps)" "list_all (pusher_ok (m_next m) (h # zs)) ps"
    using assms(1) by (auto simp: pushers_inv_def s)
  have ok: "pusher_ok (m_next m) (h # zs) (ps ! i)" using inv(7) assms(2) by (simp add: list_all_length)
  have oth: "node_of (ps ! j) \<noteq> node_of (ps ! i)" if "j < length ps" "j \<noteq> i" for j
    using inv(6) assms(2) that by (simp add: distinct_conv_nth)
  have keep: "pushers_inv (m, q') (ps[i := p1]) h zs"
    if "q_head q' = Some h" "\<exists>t\<in>set (h # zs). q_tail q' = Some t" "node_of p1 = node_of (ps ! i)" "pusher_ok (m_next m) (h # zs) p1" for q' p1
  proof -
    have "map node_of (ps[i := p1]) = map node_of ps" using that(3) assms(2) by (simp add: map_update list_update_same_conv)
    moreover have "list_all (pusher_ok (m_next m) (h # zs)) (ps[i := p1])"
      unfolding list_all_length
    proof (intro allI impI)
      fix j
      assume j: "j < length (ps[i := p1])"
      show "pusher_ok (m_next m) (h # zs) (ps[i := p1] ! j)"
        using inv(7) that(4) j by (cases "j = i") (simp_all add: list_all_length)
    qed
    ultimately show ?thesis using that inv by (simp add: pushers_inv_def)
  qed
  show ?thesis
  proof (cases "ps ! i")
    case (P_start n)
    have n: "n \<in> dom (m_next m)" "n \<notin> set (h # zs)" using ok P_start by (simp_all add: pusher_ok_def)
    have c: "chain (m_next (store_next m n None)) h zs" using chain_upd [OF n(2)] inv(2) by simp
    have "list_all (pusher_ok (m_next (store_next m n None)) (h # zs)) (ps[i := P_load n])"
      unfolding list_all_length
    proof (intro allI impI)
      fix j
      assume j: "j < length (ps[i := P_load n])"
      show "pusher_ok (m_next (store_next m n None)) (h # zs) (ps[i := P_load n] ! j)"
      proof (cases "j = i")
        case True
        then show ?thesis using j n by (simp add: pusher_ok_def)
      next
        case False
        then show ?thesis using j oth [of j] inv(7) P_start pusher_ok_other [of "m_next m" "h # zs" "ps ! j" n n "h # zs" None]
          by (auto simp: list_all_length)
      qed
    qed
    moreover have "map node_of (ps[i := P_load n]) = map node_of ps"
      using P_start assms(2) by (simp add: map_update list_update_same_conv)
    ultimately have "pushers_inv (store_next m n None, q) (ps[i := P_load n]) h zs"
      using inv c by (simp add: pushers_inv_def)
    then show ?thesis using P_start n(1) s by (intro exI [of _ "(store_next m n None, q)"] exI [of _ "P_load n"] exI [of _ "[]"])
        (auto simp: push_step_def)
  next
    case (P_load n)
    have "pushers_inv (m, q) (ps[i := P_cas n (q_tail q)]) h zs"
      using ok P_load inv by (intro keep) (auto simp: pusher_ok_def)
    then show ?thesis using P_load s by (intro exI [of _ "(m, q)"] exI [of _ "P_cas n (q_tail q)"] exI [of _ "[]"]) (simp add: push_step_def)
  next
    case (P_cas n prev)
    obtain a where a: "prev = Some a" "a \<in> set (h # zs)" "m_next m n = Some None" "n \<notin> set (h # zs)"
      "n \<in> dom (m_next m)"
      using ok P_cas by (auto simp: pusher_ok_def)
    have "a \<in> dom (m_next m)" using chain_dom [OF inv(2)] a(2) by blast
    then obtain v where v: "m_next m a = Some v" by auto
    show ?thesis
    proof (cases v)
      case None
      have la: "a = last (h # zs)" using chain_None_last [OF inv(2) a(2)] v None by simp
      let ?m1 = "store_next m a (Some n)"
      have c: "chain (m_next ?m1) h (zs @ [n])" using chain_link [OF inv(2,3) a(4,3)] la by simp
      have "list_all (pusher_ok (m_next ?m1) (h # zs @ [n])) (ps[i := P_tail n prev])"
        unfolding list_all_length
      proof (intro allI impI)
        fix j
        assume j: "j < length (ps[i := P_tail n prev])"
        show "pusher_ok (m_next ?m1) (h # zs @ [n]) (ps[i := P_tail n prev] ! j)"
        proof (cases "j = i")
          case True
          then show ?thesis using j a by (simp add: pusher_ok_def)
        next
          case False
          have o: "pusher_ok (m_next m) (h # zs) (ps ! j)" using inv(7) j by (simp add: list_all_length)
          have nn: "node_of (ps ! j) \<noteq> n" using oth [of j] False j P_cas by simp
          show ?thesis
          proof (cases "a = node_of (ps ! j)")
            case True
            then have "linked (ps ! j)" using o a(2) by (simp add: pusher_ok_def)
            then show ?thesis using o nn False j by (cases "ps ! j") (auto simp: pusher_ok_def)
          next
            case False
            then show ?thesis using pusher_ok_other [OF o nn False, of "h # zs @ [n]" "Some n"] \<open>j \<noteq> i\<close> nn j by auto
          qed
        qed
      qed
      moreover have "map node_of (ps[i := P_tail n prev]) = map node_of ps"
        using P_cas assms(2) by (simp add: map_update list_update_same_conv)
      ultimately have "pushers_inv (?m1, q) (ps[i := P_tail n prev]) h (zs @ [n])"
        using inv c a(4) by (auto simp: pushers_inv_def)
      then show ?thesis using P_cas s a(1) v None
        by (intro exI [of _ "(?m1, q)"] exI [of _ "P_tail n prev"] exI [of _ "[n]"]) (simp add: push_step_def load_next_def)
    next
      case (Some w)
      have "pushers_inv (m, q) (ps[i := P_load n]) h zs" using ok P_cas inv a by (intro keep) (auto simp: pusher_ok_def)
      then show ?thesis using P_cas s a(1) v Some
        by (intro exI [of _ "(m, q)"] exI [of _ "P_load n"] exI [of _ "[]"]) (simp add: push_step_def load_next_def)
    qed
  next
    case (P_tail n prev)
    let ?q1 = "if q_tail q = prev then q\<lparr>q_tail := Some n\<rparr> else q"
    have "pushers_inv (m, ?q1) (ps[i := P_count n]) h zs" using ok P_tail inv by (intro keep) (auto simp: pusher_ok_def)
    then show ?thesis using P_tail s by (intro exI [of _ "(m, ?q1)"] exI [of _ "P_count n"] exI [of _ "[]"]) (simp add: push_step_def)
  next
    case (P_count n)
    have "pushers_inv (m, q\<lparr>q_count := q_count q + 1\<rparr>) (ps[i := P_done n]) h zs"
      using ok P_count inv by (intro keep) (auto simp: pusher_ok_def)
    then show ?thesis using P_count s
      by (intro exI [of _ "(m, q\<lparr>q_count := q_count q + 1\<rparr>)"] exI [of _ "P_done n"] exI [of _ "[]"]) (simp add: push_step_def)
  next
    case (P_done n)
    have "ps[i := P_done n] = ps" using P_done assms(2) by (metis list_update_id)
    then show ?thesis using P_done s assms(1) by (intro exI [of _ "(m, q)"] exI [of _ "P_done n"] exI [of _ "[]"]) (simp add: push_step_def)
  qed
qed

text \<open>The producers that have linked their node, the node of every producer that has returned among them.\<close>

lemma run_producers_inv:
  assumes "pushers_inv s ps h zs" "\<forall>t\<in>set ts. \<exists>i. t = Producer i"
  shows "\<exists>s1 ps1 ws. run_threads ts s ps c = Inr (s1, ps1, c) \<and> pushers_inv s1 ps1 h (zs @ ws)
    \<and> map node_of ps1 = map node_of ps \<and> set ws \<subseteq> set (map node_of ps)"
  using assms
proof (induction ts arbitrary: s ps zs)
  case Nil
  then show ?case by (intro exI [of _ s] exI [of _ ps] exI [of _ "[]"]) simp
next
  case (Cons t ts)
  then obtain i where t: "t = Producer i" by auto
  show ?case
  proof (cases "i < length ps")
    case False
    then show ?thesis using Cons.IH [OF Cons.prems(1)] Cons.prems(2) t by simp
  next
    case True
    then obtain s1 p1 ws where s1: "push_step s (ps ! i) = Inr (s1, p1)" "pushers_inv s1 (ps[i := p1]) h (zs @ ws)"
        "node_of p1 = node_of (ps ! i)" "set ws \<subseteq> {node_of (ps ! i)}"
      using pushers_step [OF Cons.prems(1)] by blast
    have nodes: "map node_of (ps[i := p1]) = map node_of ps" using s1(3) True by (simp add: map_update list_update_same_conv)
    have "\<forall>u\<in>set ts. \<exists>k. u = Producer k" using Cons.prems(2) by simp
    from Cons.IH [OF s1(2) this] obtain s2 ps2 vs where
        r: "run_threads ts s1 (ps[i := p1]) c = Inr (s2, ps2, c)" "pushers_inv s2 ps2 h ((zs @ ws) @ vs)"
        "map node_of ps2 = map node_of ps" "set vs \<subseteq> set (map node_of ps)"
      unfolding nodes by blast
    have "set ws \<subseteq> set (map node_of ps)" using s1(4) True by auto
    then show ?thesis using r s1(1) t True
      by (intro exI [of _ s2] exI [of _ ps2] exI [of _ "ws @ vs"]) auto
  qed
qed

lemma pushers_start:
  assumes "holds s xs" "distinct ns" "\<forall>n\<in>set ns. outside s n"
  shows "\<exists>h. pushers_inv s (map P_start ns) h xs"
proof -
  obtain h where h: "q_head (snd s) = Some h" "chain (m_next (fst s)) h xs" "distinct (h # xs)" "q_tail (snd s) = Some (last (h # xs))"
    using assms(1) by (auto simp: holds_def)
  have "n \<in> dom (m_next (fst s))" "n \<notin> set (h # xs)" if "n \<in> set ns" for n
    using assms(1,3) h(1) that by (auto simp: outside_def)
  then have "list_all (pusher_ok (m_next (fst s)) (h # xs)) (map P_start ns)"
    by (auto simp: list_all_iff pusher_ok_def)
  moreover have "map (node_of \<circ> P_start) ns = ns" by (induction ns) auto
  moreover have "\<exists>t\<in>set (h # xs). q_tail (snd s) = Some t" using h(4) last_in_set [of "h # xs"] by blast
  ultimately show ?thesis using h assms(2) unfolding pushers_inv_def by auto
qed

text \<open>The nodes that a queue's head reaches.\<close>

definition queued :: "qstate \<Rightarrow> nat list \<Rightarrow> bool" where
  "queued s xs \<longleftrightarrow> (\<exists>h. q_head (snd s) = Some h \<and> chain (m_next (fst s)) h xs \<and> distinct (h # xs))"

text \<open>(C34) Concurrent pushes lose no node: whatever the schedule of any number of producers with distinct nodes, no step
  fails, the queue is the old one followed by the nodes that were linked, each once, and the node of every push that has
  returned is one of them.\<close>

theorem producers_never_lose:
  assumes "holds s xs" "distinct ns" "\<forall>n\<in>set ns. outside s n" "\<forall>t\<in>set ts. \<exists>i. t = Producer i"
  shows "\<exists>s1 ps1 ys. run_threads ts s (map P_start ns) c = Inr (s1, ps1, c) \<and> queued s1 (xs @ ys)
    \<and> set ys = node_of ` {p \<in> set ps1. linked p} \<and> map node_of ps1 = ns"
proof -
  have id: "map (node_of \<circ> P_start) ns = ns" by (induction ns) auto
  obtain h where "pushers_inv s (map P_start ns) h xs" using pushers_start [OF assms(1-3)] by blast
  from run_producers_inv [OF this assms(4), of c] obtain s1 ps1 ys where
      r: "run_threads ts s (map P_start ns) c = Inr (s1, ps1, c)" "pushers_inv s1 ps1 h (xs @ ys)" "map node_of ps1 = ns" "set ys \<subseteq> set ns"
    by (auto simp: id)
  have ok: "linked p \<longleftrightarrow> node_of p \<in> set (h # xs @ ys)" if "p \<in> set ps1" for p
    using r(2) that by (auto simp: pushers_inv_def list_all_iff pusher_ok_def)
  obtain h' where h': "q_head (snd s) = Some h'" using assms(1) by (auto simp: holds_def)
  then have disj: "n \<notin> set (h' # xs)" if "n \<in> set ns" for n using assms(1,3) that by (auto simp: outside_def)
  have "h = h'" using \<open>pushers_inv s (map P_start ns) h xs\<close> h' by (simp add: pushers_inv_def)
  then have lk: "linked p \<longleftrightarrow> node_of p \<in> set ys" if "p \<in> set ps1" for p
    using ok [OF that] disj [of "node_of p"] r(3) that by auto
  have "set ys = node_of ` {p \<in> set ps1. linked p}"
  proof
    show "set ys \<subseteq> node_of ` {p \<in> set ps1. linked p}"
    proof
      fix y
      assume y: "y \<in> set ys"
      then have "y \<in> node_of ` set ps1" using r(3,4) by auto
      then show "y \<in> node_of ` {p \<in> set ps1. linked p}" using lk y by auto
    qed
  qed (use lk in auto)
  moreover have "queued s1 (xs @ ys)" using r(2) unfolding queued_def pushers_inv_def by blast
  ultimately show ?thesis using r(1,3) by blast
qed

theorem producers_never_lose_witness:
  "\<exists>s1 ps1 ys. run_threads [Producer 0, Producer 1, Producer 0, Producer 1, Producer 0, Producer 0, Producer 1] lfq_sample
      (map P_start [1, 2]) C_start = Inr (s1, ps1, C_start) \<and> queued s1 ([] @ ys)
    \<and> set ys = node_of ` {p \<in> set ps1. linked p} \<and> map node_of ps1 = [1, 2]"
  by (rule producers_never_lose) (use lfq_sample_holds in auto)

section \<open>What the queue does not promise\<close>

lemma holds_parts:
  assumes "holds s xs"
  obtains m q h where "s = (m, q)" "q_head q = Some h" "chain (m_next m) h xs" "distinct (h # xs)" "q_tail q = Some (last (h # xs))"
    "q_count q = word_of_nat (length xs)" "\<forall>a\<in>dom (m_next m). a < m_fresh m"
  using assms by (cases s) (auto simp: holds_def)

lemma outside_parts:
  assumes "holds s xs" "outside s n"
  shows "m_next (fst s) n \<noteq> None" "q_head (snd s) = Some h \<Longrightarrow> n \<noteq> h \<and> n \<notin> set xs"
  using assms by (auto simp: outside_def)

text \<open>A producer whose tail's successor is set reads the same tail again, as long as nobody else moves.\<close>

lemma run_push_spins:
  assumes "q_tail q = Some t" "m_next m t = Some (Some n)"
  shows "\<exists>p. run_push k (m, q) (P_load x) = Inr ((m, q), p) \<and> p \<noteq> P_done x"
    and "\<exists>p. run_push k (m, q) (P_cas x (Some t)) = Inr ((m, q), p) \<and> p \<noteq> P_done x"
  using assms by (induction k) (auto simp: push_step_def load_next_def)

text \<open>Push is not wait-free: a producer that has linked its node and is then descheduled keeps every other producer in
  its loop, for any number of steps.\<close>

theorem stalled_push_blocks:
  assumes "holds s xs" "outside s a" "outside s b" "a \<noteq> b"
  shows "\<exists>s1 p. run_push 3 s (P_start a) = Inr (s1, p) \<and> linked p
    \<and> (\<forall>k. \<exists>s2 p2. run_push k s1 (P_start b) = Inr (s2, p2) \<and> p2 \<noteq> P_done b)"
proof -
  obtain m q h where q: "s = (m, q)" "q_head q = Some h" "chain (m_next m) h xs" "distinct (h # xs)" "q_tail q = Some (last (h # xs))"
    using assms(1) by (rule holds_parts)
  let ?t = "last (h # xs)"
  have n: "m_next m a \<noteq> None" "m_next m b \<noteq> None" "a \<notin> set (h # xs)" "b \<notin> set (h # xs)"
    using outside_parts [OF assms(1,2)] outside_parts [OF assms(1,3)] q(1,2) by auto
  have t: "m_next m ?t = Some None" "a \<noteq> ?t" "b \<noteq> ?t"
    using chain_last [OF q(3)] n(3,4) last_in_set [of "h # xs"] by blast+
  let ?m1 = "store_next (store_next m a None) ?t (Some a)"
  have "run_push 3 s (P_start a) = Inr ((?m1, q), P_tail a (Some ?t))"
    using n(1) t q(1,5) by (auto simp: eval_nat_numeral push_step_def load_next_def)
  moreover have "\<exists>s2 p2. run_push k (?m1, q) (P_start b) = Inr (s2, p2) \<and> p2 \<noteq> P_done b" for k
  proof (cases k)
    case (Suc j)
    have "m_next (store_next ?m1 b None) ?t = Some (Some a)" using t by simp
    from run_push_spins(1) [OF q(5) this, of j b] show ?thesis using Suc n(2) t assms(4) by (auto simp: push_step_def)
  qed simp
  ultimately show ?thesis by auto
qed

theorem stalled_push_blocks_witness:
  "\<exists>s1 p. run_push 3 lfq_sample (P_start 1) = Inr (s1, p) \<and> linked p
    \<and> (\<forall>k. \<exists>s2 p2. run_push k s1 (P_start 2) = Inr (s2, p2) \<and> p2 \<noteq> P_done 2)"
  by (rule stalled_push_blocks [OF lfq_sample_holds]) simp

text \<open>(C35) A push can be lost: the consumer reads that its node is the last one, a producer links after it and returns, and the
  new stub of the consumer leaves that node behind. The queue is then empty with a counter of one.\<close>

theorem push_lost_behind_stub:
  assumes "holds s [x]" "outside s n"
  shows "\<exists>s1. run_threads (replicate 3 (Consumer True) @ replicate 5 (Producer 0) @ replicate 4 (Consumer True)) s [P_start n] C_start
      = Inr (s1, [P_done n], C_done (Some x))
    \<and> lr_lfq_pop b s1 = Inr (s1, None) \<and> lr_lfq_is_empty s1 = Inr True \<and> lr_lfq_count s1 = 1"
proof -
  obtain m q h where q: "s = (m, q)" "q_head q = Some h" "m_next m h = Some (Some x)" "m_next m x = Some None" "h \<noteq> x"
      "q_tail q = Some x" "q_count q = 1" "\<forall>a\<in>dom (m_next m). a < m_fresh m"
    using holds_parts [OF assms(1)] by simp metis
  have n: "m_next m n \<noteq> None" "n \<noteq> h" "n \<noteq> x" using outside_parts [OF assms] q(1,2) by auto
  let ?f = "m_fresh m"
  have "x < ?f" "n < ?f" using q(4,8) n(1) by auto
  let ?m1 = "(store_next (store_next (store_next m n None) x (Some n)) ?f None)\<lparr>m_fresh := ?f + 1\<rparr>"
  let ?q1 = "q\<lparr>q_head := Some ?f, q_tail := Some ?f, q_count := 1\<rparr>"
  have "run_threads (replicate 3 (Consumer True) @ replicate 5 (Producer 0) @ replicate 4 (Consumer True)) s [P_start n] C_start
      = Inr ((?m1, ?q1), [P_done n], C_done (Some x))"
    using q n by (auto simp: eval_nat_numeral pop_step_def push_step_def load_next_def calloc_node_def)
  moreover have "lr_lfq_pop b (?m1, ?q1) = Inr ((?m1, ?q1), None)"
    by (simp add: lr_lfq_pop_def eval_nat_numeral pop_step_def load_next_def)
  ultimately show ?thesis
    by (intro exI [of _ "(?m1, ?q1)"]) (simp add: lr_lfq_is_empty_def lr_lfq_peek_def lr_lfq_count_def load_next_def)
qed

definition lfq_one :: qstate where
  "lfq_one = (\<lparr>m_next = [0 \<mapsto> Some 1, 1 \<mapsto> None, 2 \<mapsto> None, 3 \<mapsto> None], m_fresh = 4\<rparr>, \<lparr>q_head = Some 0, q_tail = Some 1, q_count = 1\<rparr>)"

definition lfq_two :: qstate where
  "lfq_two = (\<lparr>m_next = [0 \<mapsto> Some 1, 1 \<mapsto> Some 2, 2 \<mapsto> None, 3 \<mapsto> None], m_fresh = 4\<rparr>, \<lparr>q_head = Some 0, q_tail = Some 2, q_count = 2\<rparr>)"

lemma lfq_one_holds: "holds lfq_one [1]" "outside lfq_one 2"
proof -
  show h: "holds lfq_one [1]" by (auto simp: holds_def lfq_one_def)
  show "outside lfq_one 2" using holds_unique [OF h] by (force simp: outside_def lfq_one_def)
qed

lemma lfq_two_holds: "holds lfq_two [1, 2]"
  by (auto simp: holds_def lfq_two_def)

theorem push_lost_behind_stub_witness:
  "\<exists>s1. run_threads (replicate 3 (Consumer True) @ replicate 5 (Producer 0) @ replicate 4 (Consumer True)) lfq_one [P_start 2] C_start
      = Inr (s1, [P_done 2], C_done (Some 1))
    \<and> lr_lfq_pop True s1 = Inr (s1, None) \<and> lr_lfq_is_empty s1 = Inr True \<and> lr_lfq_count s1 = 1"
  by (rule push_lost_behind_stub [OF lfq_one_holds])

text \<open>The returned node is still the queue's stub when more nodes follow it: a consumer that frees it, as every client does,
  makes the next pop, peek and emptiness test read freed memory.\<close>

theorem pop_then_free_breaks_queue:
  assumes "holds s (x # y # ys)"
  shows "\<exists>m q. lr_lfq_pop b s = Inr ((m, q), Some x) \<and> lr_lfq_pop b (free_node m x, q) = Inl Use_after_free
    \<and> lr_lfq_peek (free_node m x, q) = Inl Use_after_free \<and> lr_lfq_is_empty (free_node m x, q) = Inl Use_after_free"
proof -
  obtain m q h where q: "s = (m, q)" "q_head q = Some h" "chain (m_next m) h (x # y # ys)"
    using holds_parts [OF assms] by metis
  let ?q1 = "q\<lparr>q_head := Some x, q_count := q_count q - 1\<rparr>"
  have "lr_lfq_pop b s = Inr ((m, ?q1), Some x)"
    using q by (simp add: lr_lfq_pop_def eval_nat_numeral pop_step_def load_next_def)
  moreover have "lr_lfq_pop b (free_node m x, ?q1) = Inl Use_after_free"
    by (simp add: lr_lfq_pop_def eval_nat_numeral pop_step_def load_next_def free_node_def)
  ultimately show ?thesis
    by (intro exI [of _ m] exI [of _ ?q1]) (simp add: lr_lfq_is_empty_def lr_lfq_peek_def load_next_def free_node_def)
qed

theorem pop_then_free_breaks_queue_witness:
  "\<exists>m q. lr_lfq_pop True lfq_two = Inr ((m, q), Some 1) \<and> lr_lfq_pop True (free_node m 1, q) = Inl Use_after_free
    \<and> lr_lfq_peek (free_node m 1, q) = Inl Use_after_free \<and> lr_lfq_is_empty (free_node m 1, q) = Inl Use_after_free"
  by (rule pop_then_free_breaks_queue [OF lfq_two_holds])

end
