(* ===== verification/LR_Pool.thy ===== *)
theory LR_Pool
  imports LR_Queue
begin

text \<open>
  The thread pool, \<^verbatim>\<open>src/lr_thread_pool.c\<close>: tasks with an embedded queue node, round-robin submission, the turn of a worker with
  work stealing, and the shutdown. Tasks and stubs live on the heap of \<^verbatim>\<open>LR_Queue\<close>; a task is addressed by its node. Every
  queue call runs without interference here. What a task computes, and the allocations, are arguments; sleeping and
  waking have no effect on the state.
\<close>

section \<open>State\<close>

datatype task_type = TASK_EVAL | TASK_EVAL_FILE | TASK_CALLBACK | TASK_RENDER | TASK_TERMINATE

record task =
  t_type :: task_type
  t_id :: u32
  t_work :: nat

record worker =
  wk_queue :: lfqueue
  wk_running :: bool
  wk_should_stop :: bool
  wk_completed :: u64

record pool =
  p_running :: bool
  p_rr :: u32
  p_workers :: "worker list"
  p_steal_attempts :: u64
  p_steal_successes :: u64
  p_next_id :: u32
  p_pending :: u64
  p_submitted :: u64
  p_mem :: lf_mem
  p_tasks :: "nat \<rightharpoonup> task"

datatype pool_error = Queue_error lf_error | Push_spins | Worker_index

definition put_worker :: "pool \<Rightarrow> nat \<Rightarrow> worker \<Rightarrow> pool" where
  "put_worker p i w = p\<lparr>p_workers := (p_workers p)[i := w]\<rparr>"

section \<open>Tasks\<close>

definition lr_task_create :: "pool \<Rightarrow> task_type \<Rightarrow> nat \<Rightarrow> pool \<times> nat" where
  "lr_task_create p ty work =
     (let (m, a) = calloc_node (p_mem p) in (p\<lparr>p_mem := m, p_tasks := (p_tasks p)(a \<mapsto> \<lparr>t_type = ty, t_id = -1, t_work = work\<rparr>)\<rparr>, a))"

definition lr_task_free :: "pool \<Rightarrow> nat \<Rightarrow> pool" where
  "lr_task_free p a = p\<lparr>p_mem := free_node (p_mem p) a, p_tasks := (p_tasks p)(a := None)\<rparr>"

section \<open>Submission\<close>

text \<open>A worker with an empty queue. The stub of each queue is allocated in order.\<close>

fun create_workers :: "nat \<Rightarrow> lf_mem \<Rightarrow> lf_mem \<times> worker list" where
  "create_workers 0 m = (m, [])"
| "create_workers (Suc k) m =
     (let (m1, q) = lr_lfq_init True (m, \<lparr>q_head = None, q_tail = None, q_count = 0\<rparr>);
          (m2, ws) = create_workers k m1
      in (m2, \<lparr>wk_queue = q, wk_running = True, wk_should_stop = False, wk_completed = 0\<rparr> # ws))"

definition lr_thread_pool_create :: "int \<Rightarrow> pool" where
  "lr_thread_pool_create num_workers =
     (let n = nat (if num_workers \<le> 0 then 1 else if num_workers > 128 then 128 else num_workers);
          (m, ws) = create_workers n \<lparr>m_next = Map.empty, m_fresh = 0\<rparr>
      in \<lparr>p_running = True, p_rr = 0, p_workers = ws, p_steal_attempts = 0, p_steal_successes = 0, p_next_id = 1,
          p_pending = 0, p_submitted = 0, p_mem = m, p_tasks = Map.empty\<rparr>)"

definition lr_thread_pool_enqueue :: "pool \<Rightarrow> nat \<Rightarrow> nat \<Rightarrow> pool_error + pool" where
  "lr_thread_pool_enqueue p i a =
     (let w = p_workers p ! i in
      case lr_lfq_push (p_mem p, wk_queue w) a of
        None \<Rightarrow> Inl Push_spins
      | Some (Inl e) \<Rightarrow> Inl (Queue_error e)
      | Some (Inr (m, q)) \<Rightarrow> Inr (put_worker (p\<lparr>p_mem := m\<rparr>) i (w\<lparr>wk_queue := q\<rparr>)))"

definition assign_id :: "pool \<Rightarrow> nat \<Rightarrow> pool" where
  "assign_id p a =
     p\<lparr>p_tasks := (p_tasks p)(a := map_option (\<lambda>t. t\<lparr>t_id := p_next_id p\<rparr>) (p_tasks p a)), p_next_id := p_next_id p + 1,
       p_submitted := p_submitted p + 1, p_pending := p_pending p + 1\<rparr>"

text \<open>\<open>%\<close> of C truncates toward zero: a negative counter gives a negative index.\<close>

definition rr_index :: "pool \<Rightarrow> int" where
  "rr_index p =
     (let i = sint (p_rr p); n = int (length (p_workers p)) in if i < 0 then - ((- i) mod n) else i mod n)"

definition lr_thread_pool_submit :: "pool \<Rightarrow> nat \<Rightarrow> pool_error + (pool \<times> u32)" where
  "lr_thread_pool_submit p a =
     (if \<not> p_running p then Inr (p, -1)
      else
        (let idx = rr_index p; p1 = (assign_id p a)\<lparr>p_rr := p_rr p + 1\<rparr> in
         if idx < 0 then Inl Worker_index
         else case lr_thread_pool_enqueue p1 (nat idx) a of Inl e \<Rightarrow> Inl e | Inr p2 \<Rightarrow> Inr (p2, p_next_id p)))"

definition lr_thread_pool_submit_to :: "pool \<Rightarrow> int \<Rightarrow> nat \<Rightarrow> pool_error + (pool \<times> u32)" where
  "lr_thread_pool_submit_to p worker_id a =
     (if \<not> p_running p \<or> worker_id < 0 \<or> worker_id \<ge> int (length (p_workers p)) then Inr (p, -1)
      else case lr_thread_pool_enqueue (assign_id p a) (nat worker_id) a of Inl e \<Rightarrow> Inl e | Inr p2 \<Rightarrow> Inr (p2, p_next_id p))"

section \<open>A worker's turn\<close>

text \<open>Up to two victims after a start that depends on the worker's number. The result says whether a task was stolen.\<close>

fun steal :: "bool \<Rightarrow> pool \<Rightarrow> nat \<Rightarrow> u32 \<Rightarrow> nat list \<Rightarrow> pool_error + (pool \<times> bool)" where
  "steal mem p i probe [] = Inr (p, False)"
| "steal mem p i probe (k # ks) =
     (let v = unat ((probe + word_of_nat k) mod word_of_nat (length (p_workers p))); vw = p_workers p ! v in
      if v = i \<or> \<not> wk_running vw then steal mem p i probe ks
      else
        (case lr_lfq_pop mem (p_mem p, wk_queue vw) of
           Inl e \<Rightarrow> Inl (Queue_error e)
         | Inr ((m, q), Some a) \<Rightarrow>
             (case lr_thread_pool_enqueue (put_worker (p\<lparr>p_mem := m\<rparr>) v (vw\<lparr>wk_queue := q\<rparr>)) i a of
                Inl e \<Rightarrow> Inl e
              | Inr p1 \<Rightarrow> Inr (p1\<lparr>p_steal_attempts := p_steal_attempts p1 + 1, p_steal_successes := p_steal_successes p1 + 1\<rparr>, True))
         | Inr ((m, q), None) \<Rightarrow>
             steal mem ((put_worker (p\<lparr>p_mem := m\<rparr>) v (vw\<lparr>wk_queue := q\<rparr>))\<lparr>p_steal_attempts := p_steal_attempts p + 1\<rparr>) i probe ks))"

text \<open>One round of the worker's loop: the pool and the task that was run.\<close>

definition worker_turn :: "bool \<Rightarrow> pool \<Rightarrow> nat \<Rightarrow> pool_error + (pool \<times> task option)" where
  "worker_turn mem p i =
     (let w = p_workers p ! i; n = length (p_workers p) in
      if wk_should_stop w then Inr (put_worker p i (w\<lparr>wk_running := False\<rparr>), None)
      else
        (case lr_lfq_pop mem (p_mem p, wk_queue w) of
           Inl e \<Rightarrow> Inl (Queue_error e)
         | Inr ((m, q), Some a) \<Rightarrow>
             (let p1 = put_worker (p\<lparr>p_mem := m\<rparr>) i (w\<lparr>wk_queue := q\<rparr>) in
              case p_tasks p a of
                None \<Rightarrow> Inl (Queue_error Use_after_free)
              | Some t \<Rightarrow>
                  if t_type t = TASK_TERMINATE
                  then Inr (lr_task_free (put_worker p1 i (w\<lparr>wk_queue := q, wk_running := False\<rparr>)) a, None)
                  else Inr (lr_task_free ((put_worker p1 i (w\<lparr>wk_queue := q, wk_completed := wk_completed w + 1\<rparr>))
                         \<lparr>p_pending := p_pending p - 1\<rparr>) a, Some t))
         | Inr ((m, q), None) \<Rightarrow>
             (let p1 = put_worker (p\<lparr>p_mem := m\<rparr>) i (w\<lparr>wk_queue := q\<rparr>) in
              if n > 1 \<and> sint (p_pending p) > 0 then
                (case steal mem p1 i (word_of_nat i * 2654435761) [0..<(if n < 3 then n else 2)] of
                   Inl e \<Rightarrow> Inl e | Inr (p2, stolen) \<Rightarrow> Inr (p2, None))
              else Inr (p1, None))))"

section \<open>Shutdown and statistics\<close>

text \<open>\<open>lr_thread_pool_destroy\<close> up to the join: every running worker is told to stop and gets a terminate task.\<close>

fun stop_workers :: "pool \<Rightarrow> nat list \<Rightarrow> pool_error + pool" where
  "stop_workers p [] = Inr p"
| "stop_workers p (i # is) =
     (let w = p_workers p ! i in
      if \<not> wk_running w then stop_workers p is
      else
        (let p1 = put_worker p i (w\<lparr>wk_should_stop := True\<rparr>);
             (p2, a) = lr_task_create p1 TASK_TERMINATE 0
         in case lr_thread_pool_enqueue p2 i a of Inl e \<Rightarrow> Inl e | Inr p3 \<Rightarrow> stop_workers p3 is))"

text \<open>The loop after the join that frees what is left in a queue.\<close>

fun drain_worker :: "nat \<Rightarrow> bool \<Rightarrow> pool \<Rightarrow> nat \<Rightarrow> pool_error + pool" where
  "drain_worker 0 mem p i = Inr p"
| "drain_worker (Suc k) mem p i =
     (case lr_lfq_pop mem (p_mem p, wk_queue (p_workers p ! i)) of
        Inl e \<Rightarrow> Inl (Queue_error e)
      | Inr ((m, q), None) \<Rightarrow> Inr p
      | Inr ((m, q), Some a) \<Rightarrow>
          drain_worker k mem (lr_task_free (put_worker (p\<lparr>p_mem := m\<rparr>) i ((p_workers p ! i)\<lparr>wk_queue := q\<rparr>)) a) i)"

definition lr_thread_pool_stats :: "pool \<Rightarrow> int \<times> u64" where
  "lr_thread_pool_stats p =
     (sum_list (map (\<lambda>w. sint (lr_lfq_count (p_mem p, wk_queue w))) (p_workers p)), sum_list (map wk_completed (p_workers p)))"

section \<open>Shared results\<close>

record shared_results =
  sr_entries :: "string option list"
  sr_count :: u32
  sr_write_idx :: u32

definition lr_shared_results_create :: "int \<Rightarrow> shared_results" where
  "lr_shared_results_create capacity =
     \<lparr>sr_entries = replicate (nat (if capacity < 1 then 64 else capacity)) None, sr_count = 0, sr_write_idx = 0\<rparr>"

text \<open>\<open>Inl\<close> is a write before the array, after the index has wrapped.\<close>

definition lr_shared_results_append :: "shared_results \<Rightarrow> string \<Rightarrow> int + (shared_results \<times> int)" where
  "lr_shared_results_append sr s =
     (let idx = sint (sr_write_idx sr); sr1 = sr\<lparr>sr_write_idx := sr_write_idx sr + 1\<rparr> in
      if idx \<ge> int (length (sr_entries sr)) then Inr (sr1, -1)
      else if idx < 0 then Inl idx
      else Inr (sr1\<lparr>sr_entries := (sr_entries sr)[nat idx := Some s], sr_count := sr_count sr + 1\<rparr>, idx))"

section \<open>Lemmas on the queue\<close>

lemma pop_of_many:
  assumes "holds (m, q) (x # y # ys)"
  shows "lr_lfq_pop b (m, q) = Inr ((m, q\<lparr>q_head := Some x, q_count := q_count q - 1\<rparr>), Some x)"
  using assms by (auto simp: holds_def lr_lfq_pop_def eval_nat_numeral pop_step_def load_next_def)

lemma pop_of_freed: "q_head q = Some x \<Longrightarrow> lr_lfq_pop b (free_node m x, q) = Inl Use_after_free"
  by (simp add: lr_lfq_pop_def eval_nat_numeral pop_step_def load_next_def free_node_def)

lemma pop_of_one:
  assumes "holds (m, q) [x]"
  shows "\<exists>m1 q1. lr_lfq_pop True (m, q) = Inr ((m1, q1), Some x) \<and> holds (free_node m1 x, q1) []"
proof -
  obtain h where h: "q_head q = Some h" "m_next m h = Some (Some x)" "m_next m x = Some None" "h \<noteq> x" "q_count q = 1"
      "\<forall>a\<in>dom (m_next m). a < m_fresh m"
    using assms by (auto simp: holds_def)
  let ?s = "m_fresh m"
  have "x < ?s" using h(3,6) by auto
  have "lr_lfq_pop True (m, q) = Inr (((store_next m ?s None)\<lparr>m_fresh := ?s + 1\<rparr>,
      q\<lparr>q_head := Some ?s, q_tail := Some ?s, q_count := q_count q - 1\<rparr>), Some x)"
    using h by (simp add: lr_lfq_pop_def eval_nat_numeral pop_step_def load_next_def calloc_node_def)
  moreover have "holds (free_node ((store_next m ?s None)\<lparr>m_fresh := ?s + 1\<rparr>) x,
      q\<lparr>q_head := Some ?s, q_tail := Some ?s, q_count := q_count q - 1\<rparr>) []"
    using \<open>x < ?s\<close> h(5,6) by (auto simp: holds_def free_node_def less_Suc_eq)
  ultimately show ?thesis by blast
qed

lemma put_worker_sel [simp]:
  "p_workers (put_worker p i w) = (p_workers p)[i := w]" "p_mem (put_worker p i w) = p_mem p" "p_tasks (put_worker p i w) = p_tasks p"
  "p_pending (put_worker p i w) = p_pending p" "p_running (put_worker p i w) = p_running p"
  by (simp_all add: put_worker_def)

lemma task_free_sel [simp]:
  "p_workers (lr_task_free p a) = p_workers p" "p_mem (lr_task_free p a) = free_node (p_mem p) a" "p_pending (lr_task_free p a) = p_pending p"
  by (simp_all add: lr_task_free_def)

section \<open>A worker that keeps up\<close>

text \<open>(C40) A task submitted to a worker whose queue is empty is run by the worker's next turn, with the number that the submission
  returned; the pending counter is back, the task is freed and the queue is empty again.\<close>

theorem submitted_task_runs:
  assumes "p_running p" "0 \<le> rr_index p" "nat (rr_index p) = i" "i < length (p_workers p)" "\<not> wk_should_stop (p_workers p ! i)"
    "holds (p_mem p, wk_queue (p_workers p ! i)) []" "outside (p_mem p, wk_queue (p_workers p ! i)) a"
    "p_tasks p a = Some t" "t_type t \<noteq> TASK_TERMINATE"
  shows "\<exists>p1 p2. lr_thread_pool_submit p a = Inr (p1, p_next_id p)
    \<and> worker_turn True p1 i = Inr (p2, Some (t\<lparr>t_id := p_next_id p\<rparr>))
    \<and> p_pending p2 = p_pending p \<and> wk_completed (p_workers p2 ! i) = wk_completed (p_workers p ! i) + 1
    \<and> holds (p_mem p2, wk_queue (p_workers p2 ! i)) [] \<and> p_tasks p2 a = None"
proof -
  let ?w = "p_workers p ! i"
  obtain s1 where "lr_lfq_push (p_mem p, wk_queue ?w) a = Some (Inr s1)" "holds s1 ([] @ [a])"
    using lfq.push_has [OF assms(6,7)] by (auto simp: push_opt_def split: option.splits sum.splits)
  then obtain m q where q: "lr_lfq_push (p_mem p, wk_queue ?w) a = Some (Inr (m, q))" "holds (m, q) [a]" by (cases s1) auto
  let ?p0 = "(assign_id p a)\<lparr>p_rr := p_rr p + 1\<rparr>"
  let ?p1 = "put_worker (?p0\<lparr>p_mem := m\<rparr>) i (?w\<lparr>wk_queue := q\<rparr>)"
  have submit: "lr_thread_pool_submit p a = Inr (?p1, p_next_id p)"
    using assms(1-4) q(1) by (simp add: lr_thread_pool_submit_def lr_thread_pool_enqueue_def assign_id_def Let_def)
  obtain m1 q1 where pop: "lr_lfq_pop True (m, q) = Inr ((m1, q1), Some a)" "holds (free_node m1 a, q1) []"
    using pop_of_one [OF q(2)] by blast
  have w1: "p_workers ?p1 ! i = ?w\<lparr>wk_queue := q\<rparr>" "p_mem ?p1 = m" "p_tasks ?p1 a = Some (t\<lparr>t_id := p_next_id p\<rparr>)"
    "p_pending ?p1 = p_pending p + 1" "i < length (p_workers ?p1)"
    using assms(4,8) by (simp_all add: assign_id_def)
  let ?w2 = "?w\<lparr>wk_queue := q1, wk_completed := wk_completed ?w + 1\<rparr>"
  let ?p2 = "lr_task_free ((put_worker (put_worker (?p1\<lparr>p_mem := m1\<rparr>) i (?w\<lparr>wk_queue := q1\<rparr>)) i ?w2)\<lparr>p_pending := p_pending ?p1 - 1\<rparr>) a"
  have "worker_turn True ?p1 i = Inr (?p2, Some (t\<lparr>t_id := p_next_id p\<rparr>))"
    unfolding worker_turn_def Let_def w1(1,2) using assms(5,9) pop(1) w1(3) by simp
  moreover have "p_pending ?p2 = p_pending p" "wk_completed (p_workers ?p2 ! i) = wk_completed ?w + 1"
    "holds (p_mem ?p2, wk_queue (p_workers ?p2 ! i)) []" "p_tasks ?p2 a = None"
    using w1(4,5) pop(2) by (simp_all add: lr_task_free_def)
  ultimately show ?thesis using submit by blast
qed

section \<open>Where the pool goes wrong\<close>

text \<open>A worker that finds two or more tasks in its queue runs the first one, frees it and reads the freed node in its next
  turn: the node of a popped task stays the head of the queue.\<close>

theorem second_task_reads_freed_memory:
  assumes "i < length (p_workers p)" "\<not> wk_should_stop (p_workers p ! i)"
    "holds (p_mem p, wk_queue (p_workers p ! i)) (x # y # ys)" "p_tasks p x = Some t" "t_type t \<noteq> TASK_TERMINATE"
  shows "\<exists>p1. worker_turn mem p i = Inr (p1, Some t) \<and> worker_turn mem' p1 i = Inl (Queue_error Use_after_free)"
proof -
  let ?w = "p_workers p ! i"
  let ?q = "(wk_queue ?w)\<lparr>q_head := Some x, q_count := q_count (wk_queue ?w) - 1\<rparr>"
  let ?p1 = "lr_task_free ((put_worker (put_worker (p\<lparr>p_mem := p_mem p\<rparr>) i (?w\<lparr>wk_queue := ?q\<rparr>)) i
      (?w\<lparr>wk_queue := ?q, wk_completed := wk_completed ?w + 1\<rparr>))\<lparr>p_pending := p_pending p - 1\<rparr>) x"
  have "worker_turn mem p i = Inr (?p1, Some t)"
    using assms(2,4,5) pop_of_many [OF assms(3), of mem] by (simp add: worker_turn_def Let_def)
  moreover have "p_workers ?p1 ! i = ?w\<lparr>wk_queue := ?q, wk_completed := wk_completed ?w + 1\<rparr>" using assms(1) by simp
  then have "worker_turn mem' ?p1 i = Inl (Queue_error Use_after_free)"
    using assms(2) pop_of_freed [of ?q x mem' "p_mem p"] by (simp add: worker_turn_def Let_def)
  ultimately show ?thesis by blast
qed

text \<open>The round-robin counter is a signed int: once it has wrapped, the index is negative unless the number of workers divides
  the counter, and the submission reads before the array of workers.\<close>

theorem submit_after_wrap:
  assumes "p_running p" "p_workers p \<noteq> []" "sint (p_rr p) < 0" "\<not> int (length (p_workers p)) dvd sint (p_rr p)"
  shows "lr_thread_pool_submit p a = Inl Worker_index"
proof -
  have "(- sint (p_rr p)) mod int (length (p_workers p)) \<noteq> 0" using assms(4) by (metis dvd_minus_iff mod_0_imp_dvd)
  moreover have "0 \<le> (- sint (p_rr p)) mod int (length (p_workers p))" using assms(2) by simp
  ultimately have "0 < (- sint (p_rr p)) mod int (length (p_workers p))" by linarith
  then have "rr_index p < 0" using assms(3) by (simp add: rr_index_def Let_def)
  then show ?thesis using assms(1) by (simp add: lr_thread_pool_submit_def Let_def rr_index_def assign_id_def)
qed

section \<open>Samples\<close>

text \<open>A pool of two workers with a task that is not submitted yet, and a pool of one worker with two queued tasks.\<close>

definition sample_pool :: pool where
  "sample_pool = fst (lr_task_create (lr_thread_pool_create 2) TASK_CALLBACK 7)"

definition pool_two :: pool where
  "pool_two = sample_pool\<lparr>p_mem := fst lfq_two,
     p_workers := [\<lparr>wk_queue = snd lfq_two, wk_running = True, wk_should_stop = False, wk_completed = 0\<rparr>],
     p_tasks := [1 \<mapsto> \<lparr>t_type = TASK_CALLBACK, t_id = 1, t_work = 5\<rparr>, 2 \<mapsto> \<lparr>t_type = TASK_CALLBACK, t_id = 2, t_work = 6\<rparr>]\<rparr>"

lemma sample_pool_sel:
  "p_running sample_pool" "p_rr sample_pool = 0" "p_next_id sample_pool = 1" "p_pending sample_pool = 0"
  "p_mem sample_pool = \<lparr>m_next = [0 \<mapsto> None, 1 \<mapsto> None, 2 \<mapsto> None], m_fresh = 3\<rparr>"
  "p_tasks sample_pool = [2 \<mapsto> \<lparr>t_type = TASK_CALLBACK, t_id = -1, t_work = 7\<rparr>]"
  "length (p_workers sample_pool) = 2"
  "p_workers sample_pool ! 0 = \<lparr>wk_queue = \<lparr>q_head = Some 0, q_tail = Some 0, q_count = 0\<rparr>, wk_running = True, wk_should_stop = False,
     wk_completed = 0\<rparr>"
  by (simp_all add: sample_pool_def lr_thread_pool_create_def lr_task_create_def calloc_node_def store_next_def lr_lfq_init_def
      eval_nat_numeral)

theorem submitted_task_runs_witness:
  "\<exists>p1 p2 t. lr_thread_pool_submit sample_pool 2 = Inr (p1, 1) \<and> worker_turn True p1 0 = Inr (p2, Some t) \<and> t_work t = 7 \<and> p_pending p2 = 0"
proof -
  let ?t = "\<lparr>t_type = TASK_CALLBACK, t_id = -1, t_work = 7\<rparr>"
  let ?s = "(p_mem sample_pool, wk_queue (p_workers sample_pool ! 0))"
  have h: "holds ?s []" by (auto simp: holds_def sample_pool_sel)
  have o: "outside ?s 2" using holds_unique [OF h] by (force simp: outside_def sample_pool_sel)
  have "rr_index sample_pool = 0" by (simp add: rr_index_def sample_pool_sel)
  then show ?thesis using submitted_task_runs [of sample_pool 0 2 ?t] h o by (auto simp: sample_pool_sel)
qed

theorem second_task_reads_freed_memory_witness:
  "\<exists>p1 t. worker_turn True pool_two 0 = Inr (p1, Some t) \<and> worker_turn True p1 0 = Inl (Queue_error Use_after_free)"
  using second_task_reads_freed_memory [of 0 pool_two 1 2 "[]" "\<lparr>t_type = TASK_CALLBACK, t_id = 1, t_work = 5\<rparr>" True True] lfq_two_holds
  by (auto simp: pool_two_def)

theorem submit_after_wrap_witness: "lr_thread_pool_submit (sample_pool\<lparr>p_rr := 0x80000001\<rparr>) 2 = Inl Worker_index"
  by (rule submit_after_wrap) (use sample_pool_sel in auto)

end
