(* ===== verification/LR_Archive.thy ===== *)
theory LR_Archive
  imports LR_Emit LR_Ops "HOL-Library.List_Lexorder"
begin

unbundle bit_operations_syntax

text \<open>
  The contents of the result cache's archives, \<^verbatim>\<open>src/lr_iome586.c\<close>: the hash and checksum functions, the growing byte
  buffer, the stream of named entries, and the snapshot of the global variables with its restore. A C string is its
  bytes up to the first zero byte. What \<open>malloc\<close> and \<open>realloc\<close> answer is an argument.
\<close>

section \<open>Hashes and checksums\<close>

definition lr_iome586_hash64 :: "bytes \<Rightarrow> u64" where
  "lr_iome586_hash64 data = fold (\<lambda>b h. (h XOR ucast b) * 0x100000001b3) data 0xcbf29ce484222325"

definition fnv1a_32 :: "bytes \<Rightarrow> u32" where
  "fnv1a_32 data = fold (\<lambda>b h. (h XOR ucast b) * 0x01000193) data 0x811c9dc5"

definition crc_bit :: "u32 \<Rightarrow> u32" where
  "crc_bit c = (if c AND 1 \<noteq> 0 then 0xEDB88320 XOR drop_bit 1 c else drop_bit 1 c)"

definition crc_table :: "u32 list" where
  "crc_table = map (\<lambda>i. (crc_bit ^^ 8) (word_of_nat i)) [0..<256]"

definition crc_step :: "byte \<Rightarrow> u32 \<Rightarrow> u32" where
  "crc_step b crc = crc_table ! unat ((crc XOR ucast b) AND 0xFF) XOR drop_bit 8 crc"

definition lr_iome586_crc32 :: "bytes \<Rightarrow> u32" where
  "lr_iome586_crc32 data = fold crc_step data 0xFFFFFFFF XOR 0xFFFFFFFF"

definition engine_version_id :: "bytes \<Rightarrow> u32" where
  "engine_version_id version = fnv1a_32 version"

definition xor_key :: "bytes \<Rightarrow> u64 \<Rightarrow> bytes" where
  "xor_key data key = map (\<lambda>i. data ! i XOR le_bytes 8 key ! (i mod 8)) [0..<length data]"

section \<open>The checksum bit by bit\<close>

text \<open>The shift register without the table.\<close>

definition crc_reference :: "bytes \<Rightarrow> u32" where
  "crc_reference data = fold (\<lambda>b c. (crc_bit ^^ 8) (c XOR ucast b)) data 0xFFFFFFFF XOR 0xFFFFFFFF"

lemma crc_bit_bits: "crc_bit c = (if bit c 0 then 0xEDB88320 else 0) XOR drop_bit 1 c"
  by (simp add: crc_bit_def and_one_eq odd_iff_mod_2_eq_one [symmetric] bit_0)

lemma crc_bit_xor: "crc_bit (a XOR b) = crc_bit a XOR crc_bit b"
  by (auto simp: crc_bit_bits bit_simps xor.assoc xor.left_commute xor.commute drop_bit_xor)

lemma crc_bits_xor: "(crc_bit ^^ n) (a XOR b) = (crc_bit ^^ n) a XOR (crc_bit ^^ n) b"
  by (induction n) (simp_all add: crc_bit_xor)

lemma crc_bits_shift: "(\<And>k. k < n \<Longrightarrow> \<not> bit c k) \<Longrightarrow> (crc_bit ^^ n) c = drop_bit n c"
proof (induction n)
  case (Suc n)
  then have "(crc_bit ^^ n) c = drop_bit n c" by simp
  moreover have "\<not> bit (drop_bit n c) 0" using Suc.prems [of n] by (simp add: bit_drop_bit_eq)
  then have "crc_bit (drop_bit n c) = drop_bit (Suc n) c" by (simp add: crc_bit_bits [of "drop_bit n c"] drop_bit_drop_bit)
  then show ?case using \<open>(crc_bit ^^ n) c = drop_bit n c\<close> by simp
qed simp

lemma crc_split: "c = (c AND 0xFF) XOR (c AND NOT 0xFF)" for c :: u32
  by (rule bit_word_eqI) (auto simp: bit_simps)

lemma unat_and_ff: "unat (x AND 0xFF) < 256" for x :: u32
proof -
  have "x AND 0xFF \<le> 0xFF" using word_and_le1 word_and_le2 by metis
  then have "unat (x AND 0xFF) \<le> unat (0xFF :: u32)" by (simp only: word_le_nat_alt)
  then show ?thesis by simp
qed

lemma xor_cancel: "a XOR c = b XOR c \<longleftrightarrow> a = b" "c XOR a = c XOR b \<longleftrightarrow> a = b" for a b c :: "'a::len word"
  by (metis xor.assoc xor_self_eq xor.right_neutral) (metis xor.assoc xor_self_eq xor.left_neutral)

lemma crc_table_nth: "n < 256 \<Longrightarrow> crc_table ! n = (crc_bit ^^ 8) (word_of_nat n)"
  by (simp add: crc_table_def del: funpow.simps)

lemma crc_step_bits: "crc_step b c = (crc_bit ^^ 8) (c XOR ucast b)"
proof -
  let ?x = "c XOR ucast b"
  have "(crc_bit ^^ 8) ?x = (crc_bit ^^ 8) (?x AND 0xFF) XOR (crc_bit ^^ 8) (?x AND NOT 0xFF)"
    using crc_split [of ?x] crc_bits_xor by metis
  moreover have "(crc_bit ^^ 8) (?x AND NOT 0xFF) = drop_bit 8 (?x AND NOT 0xFF)"
    by (rule crc_bits_shift) (auto simp: bit_simps mask_byte)
  moreover have "drop_bit 8 (?x AND NOT 0xFF) = drop_bit 8 c"
    by (rule bit_word_eqI) (auto simp: bit_simps mask_byte dest: bit_imp_le_length)
  moreover have "unat (?x AND 0xFF) < 256"
    by (metis unat_and_ff)
  then have "crc_table ! unat (?x AND 0xFF) = (crc_bit ^^ 8) (?x AND 0xFF)"
    by (simp add: crc_table_nth del: funpow.simps)
  ultimately show ?thesis by (simp add: crc_step_def del: funpow.simps)
qed

text \<open>The table-driven checksum is the bitwise one.\<close>

theorem crc32_table_correct: "lr_iome586_crc32 data = crc_reference data"
  by (simp add: lr_iome586_crc32_def crc_reference_def crc_step_bits [abs_def] del: funpow.simps)

lemma crc_bit_inj: "crc_bit a = crc_bit b \<Longrightarrow> a = b"
proof -
  assume eq: "crc_bit a = crc_bit b"
  have top: "bit (crc_bit c) 31 = bit c 0" for c
    by (auto simp: crc_bit_bits bit_simps dest: bit_imp_le_length)
  have z: "bit a 0 = bit b 0" using top eq by metis
  then have d: "drop_bit 1 a = drop_bit 1 b"
    using eq by (auto simp: crc_bit_bits xor_cancel split: if_splits)
  show "a = b"
  proof (rule bit_word_eqI)
    fix n
    show "bit a n = bit b n"
      using z d by (cases n) (auto simp: bit_drop_bit_eq dest: arg_cong [of _ _ "\<lambda>w. bit w (n - 1)"])
  qed
qed

lemma crc_bits_inj: "(crc_bit ^^ n) a = (crc_bit ^^ n) b \<Longrightarrow> a = b"
  by (induction n) (auto dest: crc_bit_inj)

lemma crc_steps_inj: "fold crc_step xs a = fold crc_step xs b \<Longrightarrow> a = b"
proof (induction xs arbitrary: a b)
  case (Cons x xs)
  then have "(crc_bit ^^ 8) (a XOR ucast x) = (crc_bit ^^ 8) (b XOR ucast x)" by (simp add: crc_step_bits del: funpow.simps)
  then have "a XOR ucast x = b XOR ucast x" by (rule crc_bits_inj)
  then have "(a XOR ucast x) XOR ucast x = (b XOR ucast x) XOR ucast x" by simp
  then show ?case by (simp add: xor.assoc)
qed simp

lemma crc_bytes_differ:
  assumes "a \<noteq> b"
  shows "lr_iome586_crc32 (xs @ a # ys) \<noteq> lr_iome586_crc32 (xs @ b # ys)"
proof
  assume "lr_iome586_crc32 (xs @ a # ys) = lr_iome586_crc32 (xs @ b # ys)"
  then have "fold crc_step ys (crc_step a (fold crc_step xs 0xFFFFFFFF)) = fold crc_step ys (crc_step b (fold crc_step xs 0xFFFFFFFF))"
    by (simp add: lr_iome586_crc32_def xor_cancel)
  then have "crc_step a (fold crc_step xs 0xFFFFFFFF) = crc_step b (fold crc_step xs 0xFFFFFFFF)" by (rule crc_steps_inj)
  then have "fold crc_step xs 0xFFFFFFFF XOR ucast a = fold crc_step xs 0xFFFFFFFF XOR (ucast b :: u32)"
    by (auto simp: crc_step_bits simp del: funpow.simps dest: crc_bits_inj)
  then have "(ucast a :: u32) = ucast b" by (simp only: xor_cancel)
  then have "(ucast (ucast a :: u32) :: byte) = ucast (ucast b :: u32)" by simp
  moreover have "(ucast (ucast c :: u32) :: byte) = c" for c by (rule bit_word_eqI) (simp add: bit_simps)
  ultimately have "a = b" by simp
  with assms show False ..
qed

text \<open>Changing one byte of the data changes the checksum.\<close>

theorem crc32_detects_byte:
  assumes "a \<noteq> b"
  shows "lr_iome586_crc32 (xs @ a # ys) \<noteq> lr_iome586_crc32 (xs @ b # ys)"
  using assms by (rule crc_bytes_differ)

theorem crc32_detects_byte_witness: "lr_iome586_crc32 [1, 2, 3] \<noteq> lr_iome586_crc32 [1, 7, 3]"
  using crc32_detects_byte [of 2 7 "[1]" "[3]"] by simp

lemma xor_key_involution: "xor_key (xor_key data key) key = data"
  by (rule nth_equalityI) (simp_all add: xor_key_def xor.assoc)

section \<open>The byte buffer\<close>

definition cstring :: "bytes \<Rightarrow> bytes" where
  "cstring s = takeWhile (\<lambda>b. b \<noteq> 0) s"

definition str :: "string \<Rightarrow> bytes" where
  "str s = map of_char s"

record blob =
  b_data :: bytes
  b_cap :: nat
  b_error :: bool

definition empty_blob :: blob where
  "empty_blob = \<lparr>b_data = [], b_cap = 0, b_error = False\<rparr>"

text \<open>The doubling loop; the capacity it starts from is never 0.\<close>

function grow_cap :: "nat \<Rightarrow> nat \<Rightarrow> nat" where
  "grow_cap nc needed = (if nc = 0 \<or> needed \<le> nc then nc else grow_cap (nc * 2) needed)"
  by pat_completeness auto
termination
  by (relation "measure (\<lambda>(nc, needed). needed - nc)") auto

declare grow_cap.simps [simp del]

definition blob_ensure :: "(nat \<Rightarrow> bool) \<Rightarrow> blob \<Rightarrow> nat \<Rightarrow> blob" where
  "blob_ensure mem b needed =
     (if b_error b \<or> b_cap b \<ge> needed then b
      else (let nc = grow_cap (if b_cap b \<noteq> 0 then b_cap b else 2048) needed
            in if mem nc then b\<lparr>b_cap := nc\<rparr> else b\<lparr>b_error := True\<rparr>))"

definition blob_put :: "(nat \<Rightarrow> bool) \<Rightarrow> bytes \<Rightarrow> blob \<Rightarrow> blob" where
  "blob_put mem src b =
     (if b_error b then b
      else (let b1 = blob_ensure mem b (length (b_data b) + length src)
            in if b_error b1 then b1 else b1\<lparr>b_data := b_data b1 @ src\<rparr>))"

definition blob_u8 :: "(nat \<Rightarrow> bool) \<Rightarrow> byte \<Rightarrow> blob \<Rightarrow> blob" where
  "blob_u8 mem v = blob_put mem [v]"

definition blob_u16 :: "(nat \<Rightarrow> bool) \<Rightarrow> nat \<Rightarrow> blob \<Rightarrow> blob" where
  "blob_u16 mem v = blob_put mem (put_u16 (int v))"

definition blob_u32 :: "(nat \<Rightarrow> bool) \<Rightarrow> u32 \<Rightarrow> blob \<Rightarrow> blob" where
  "blob_u32 mem v = blob_put mem (put_u32 v)"

definition blob_u64 :: "(nat \<Rightarrow> bool) \<Rightarrow> u64 \<Rightarrow> blob \<Rightarrow> blob" where
  "blob_u64 mem v = blob_put mem (le_bytes 8 v)"

definition entry_add :: "(nat \<Rightarrow> bool) \<Rightarrow> bytes \<Rightarrow> bytes \<Rightarrow> blob \<Rightarrow> blob" where
  "entry_add mem name data b =
     (let b1 = blob_u32 mem (word_of_nat (length data)) (blob_put mem name (blob_u16 mem (length name) b))
      in if length data \<noteq> 0 then blob_put mem data b1 else b1)"

definition entry_add_text :: "(nat \<Rightarrow> bool) \<Rightarrow> bytes \<Rightarrow> bytes \<Rightarrow> blob \<Rightarrow> blob" where
  "entry_add_text mem name text b = entry_add mem name (cstring text) b"

text \<open>A buffer operation appends its bytes, or the buffer is in error.\<close>

definition puts :: "(blob \<Rightarrow> blob) \<Rightarrow> bytes \<Rightarrow> bool" where
  "puts f xs \<longleftrightarrow> (\<forall>b. (b_error b \<longrightarrow> b_error (f b)) \<and> (\<not> b_error (f b) \<longrightarrow> b_data (f b) = b_data b @ xs))"

named_theorems puts_rules \<open>the bytes a buffer operation appends\<close>

lemma puts_put [puts_rules]: "puts (blob_put mem xs) xs"
  by (auto simp: puts_def blob_put_def blob_ensure_def Let_def)

lemma puts_comp: "puts f xs \<Longrightarrow> puts g ys \<Longrightarrow> puts (\<lambda>b. g (f b)) (xs @ ys)"
  by (auto simp: puts_def)

lemma puts_id: "puts (\<lambda>b. b) []"
  by (simp add: puts_def)

lemma puts_ints [puts_rules]:
  "puts (blob_u8 mem v) [v]" "puts (blob_u16 mem n) (put_u16 (int n))" "puts (blob_u32 mem w) (put_u32 w)"
  "puts (blob_u64 mem d) (le_bytes 8 d)"
  by (simp_all add: blob_u8_def blob_u16_def blob_u32_def blob_u64_def puts_put)

definition entry_bytes :: "bytes \<Rightarrow> bytes \<Rightarrow> bytes" where
  "entry_bytes name data = put_u16 (int (length name)) @ name @ put_u32 (word_of_nat (length data)) @ data"

lemma puts_entry [puts_rules]: "puts (entry_add mem name data) (entry_bytes name data)"
proof (cases "data = []")
  case True
  have "puts (\<lambda>b. blob_u32 mem 0 (blob_put mem name (blob_u16 mem (length name) b))) ((put_u16 (int (length name)) @ name) @ put_u32 0)"
    by (intro puts_comp puts_rules)
  then show ?thesis using True by (simp add: entry_add_def [abs_def] entry_bytes_def)
next
  case False
  have "puts (\<lambda>b. blob_put mem data (blob_u32 mem (word_of_nat (length data)) (blob_put mem name (blob_u16 mem (length name) b))))
     (((put_u16 (int (length name)) @ name) @ put_u32 (word_of_nat (length data))) @ data)"
    by (intro puts_comp puts_rules)
  then show ?thesis using False by (simp add: entry_add_def [abs_def] entry_bytes_def Let_def)
qed

lemma puts_entry_text [puts_rules]: "puts (entry_add_text mem name text) (entry_bytes name (cstring text))"
  by (simp add: entry_add_text_def [abs_def] puts_entry)

lemma grow_cap_mem: "(\<And>n. mem n) \<Longrightarrow> b_error (blob_put mem xs b) = b_error b"
  by (simp add: blob_put_def blob_ensure_def Let_def)

section \<open>Values\<close>

text \<open>The address of an object is not written: tag 6 only.\<close>

fun blob_value :: "(nat \<Rightarrow> bool) \<Rightarrow> lr_value \<Rightarrow> blob \<Rightarrow> blob" where
  "blob_value mem LR_UNDEFINED b = blob_u8 mem 0 b"
| "blob_value mem LR_NULL b = blob_u8 mem 1 b"
| "blob_value mem (LR_BOOL v) b = blob_u8 mem (if v then 1 else 0) (blob_u8 mem 2 b)"
| "blob_value mem (LR_INT32 i) b = blob_u32 mem i (blob_u8 mem 3 b)"
| "blob_value mem (LR_FLOAT64 d) b = blob_u64 mem d (blob_u8 mem 4 b)"
| "blob_value mem (LR_STRING s) b =
     (let t = cstring s; b1 = blob_u32 mem (word_of_nat (length t)) (blob_u8 mem 5 b)
      in if length t \<noteq> 0 then blob_put mem t b1 else b1)"
| "blob_value mem _ b = blob_u8 mem 6 b"

fun value_bytes :: "lr_value \<Rightarrow> bytes" where
  "value_bytes LR_UNDEFINED = [0]"
| "value_bytes LR_NULL = [1]"
| "value_bytes (LR_BOOL v) = [2, if v then 1 else 0]"
| "value_bytes (LR_INT32 i) = 3 # put_u32 i"
| "value_bytes (LR_FLOAT64 d) = 4 # le_bytes 8 d"
| "value_bytes (LR_STRING s) = 5 # put_u32 (word_of_nat (length (cstring s))) @ cstring s"
| "value_bytes _ = [6]"

lemma puts_value [puts_rules]: "puts (blob_value mem v) (value_bytes v)"
proof (cases v)
  case (LR_STRING s)
  have "puts (\<lambda>b. blob_u32 mem w (blob_u8 mem 5 b)) ([5] @ put_u32 w)"
    "puts (\<lambda>b. blob_put mem t (blob_u32 mem w (blob_u8 mem 5 b))) (([5] @ put_u32 w) @ t)" for w t
    by (intro puts_comp puts_rules)+
  then show ?thesis using LR_STRING by (auto simp: puts_def Let_def)
next
  case (LR_BOOL x)
  have "puts (\<lambda>b. blob_u8 mem y (blob_u8 mem 2 b)) ([2] @ [y])" for y by (intro puts_comp puts_rules)
  then show ?thesis using LR_BOOL by (auto simp: puts_def)
next
  case (LR_INT32 x)
  have "puts (\<lambda>b. blob_u32 mem y (blob_u8 mem 3 b)) ([3] @ put_u32 y)" for y by (intro puts_comp puts_rules)
  then show ?thesis using LR_INT32 by (auto simp: puts_def)
next
  case (LR_FLOAT64 x)
  have "puts (\<lambda>b. blob_u64 mem y (blob_u8 mem 4 b)) ([4] @ le_bytes 8 y)" for y by (intro puts_comp puts_rules)
  then show ?thesis using LR_FLOAT64 by (auto simp: puts_def)
qed (use puts_ints(1) in \<open>auto simp: puts_def\<close>)

section \<open>Names of the engine\<close>

text \<open>\<open>bsearch\<close> of the C library over an array of strings.\<close>

function bsearch_loop :: "bytes list \<Rightarrow> bytes \<Rightarrow> nat \<Rightarrow> nat \<Rightarrow> bool" where
  "bsearch_loop xs key l u =
     (if l < u then
        (let i = (l + u) div 2 in
         if key < xs ! i then bsearch_loop xs key l i
         else if xs ! i < key then bsearch_loop xs key (i + 1) u
         else True)
      else False)"
  by pat_completeness auto
termination
  by (relation "measure (\<lambda>(xs, key, l, u). u - l)") auto

declare bsearch_loop.simps [simp del]

definition bsearch :: "bytes \<Rightarrow> bytes list \<Rightarrow> bool" where
  "bsearch key xs = bsearch_loop xs key 0 (length xs)"

definition builtin_globals_sorted :: "bytes list" where
  "builtin_globals_sorted = map str
     [''AbortController'', ''AbortSignal'', ''AggregateError'', ''Array'', ''ArrayBuffer'', ''BigInt'', ''BigInt64Array'',
      ''BigUint64Array'', ''Boolean'', ''CustomEvent'', ''DataView'', ''Date'', ''Error'', ''EvalError'', ''Event'',
      ''EventTarget'', ''FinalizationRegistry'', ''Float32Array'', ''Float64Array'', ''Function'', ''Infinity'',
      ''Int16Array'', ''Int32Array'', ''Int8Array'', ''Intl'', ''JSON'', ''Map'', ''Math'', ''NaN'', ''Number'', ''Object'',
      ''Promise'', ''Proxy'', ''RangeError'', ''Reflect'', ''RegExp'', ''ReferenceError'', ''Set'', ''SharedArrayBuffer'',
      ''String'', ''Symbol'', ''SyntaxError'', ''TypeError'', ''URIError'', ''Uint16Array'', ''Uint32Array'', ''Uint8Array'',
      ''Uint8ClampedArray'', ''URL'', ''URLSearchParams'', ''WeakMap'', ''WeakRef'', ''WeakSet'', ''WebSocket'', ''Worker'',
      ''atob'', ''btoa'', ''clearInterval'', ''clearTimeout'', ''console'', ''crypto'', ''decodeURI'', ''decodeURIComponent'',
      ''encodeURI'', ''encodeURIComponent'', ''escape'', ''eval'', ''fetch'', ''fs'', ''globalThis'', ''isFinite'', ''isNaN'',
      ''localStorage'', ''navigator'', ''os'', ''parseFloat'', ''parseInt'', ''performance'', ''queueMicrotask'',
      ''sessionStorage'', ''setInterval'', ''setTimeout'', ''structuredClone'', ''terminal'', ''TextDecoder'',
      ''TextEncoder'', ''undefined'', ''unescape'']"

definition is_builtin_global :: "bytes \<Rightarrow> bool" where
  "is_builtin_global name = bsearch name builtin_globals_sorted"

text \<open>The baseline is \<open>None\<close> before a capture.\<close>

definition in_engine_namespace :: "bytes list option \<Rightarrow> bytes \<Rightarrow> bool" where
  "in_engine_namespace baseline name =
     (case baseline of
        Some names \<Rightarrow> if names \<noteq> [] then bsearch name names else is_builtin_global name
      | None \<Rightarrow> is_builtin_global name)"

text \<open>The names captured right after the registration of the builtins, those whose copy fails left out.\<close>

definition lr_iome586_capture_baseline :: "(bytes \<Rightarrow> bool) \<Rightarrow> bytes list \<Rightarrow> bytes list" where
  "lr_iome586_capture_baseline strdup_ok names = sort (filter strdup_ok (map cstring names))"

lemma bsearch_unfold:
  "bsearch_loop xs key l u =
     (if l < u then
        (if key < xs ! ((l + u) div 2) then bsearch_loop xs key l ((l + u) div 2)
         else if xs ! ((l + u) div 2) < key then bsearch_loop xs key ((l + u) div 2 + 1) u
         else True)
      else False)"
  by (simp add: bsearch_loop.simps [of xs key l u] Let_def)

lemma bsearch_loop_complete:
  "sorted xs \<Longrightarrow> u \<le> length xs \<Longrightarrow> bsearch_loop xs key l u \<longleftrightarrow> (\<exists>i. l \<le> i \<and> i < u \<and> xs ! i = key)"
proof (induction xs key l u rule: bsearch_loop.induct)
  case (1 xs key l u)
  show ?case
  proof (cases "l < u")
    case False
    then show ?thesis by (simp add: bsearch_loop.simps [of xs key l u])
  next
    case True
    let ?i = "(l + u) div 2"
    have i: "l \<le> ?i" "?i < u" using True by auto
    have mono: "xs ! j \<le> xs ! k" if "j \<le> k" "k < u" for j k
      using 1(3,4) that by (simp add: sorted_nth_mono)
    consider "key < xs ! ?i" | "xs ! ?i < key" | "xs ! ?i = key" by (meson less_linear)
    then show ?thesis
    proof cases
      case A: 1
      have "bsearch_loop xs key l u = bsearch_loop xs key l ?i" using A True by (simp add: bsearch_unfold [of xs key l u])
      also have "\<dots> \<longleftrightarrow> (\<exists>j. l \<le> j \<and> j < ?i \<and> xs ! j = key)" using 1 A True i by auto
      also have "\<dots> \<longleftrightarrow> (\<exists>j. l \<le> j \<and> j < u \<and> xs ! j = key)"
      proof -
        have "j < ?i" if "j < u" "xs ! j = key" for j
        proof (rule ccontr)
          assume "\<not> j < ?i"
          then have "xs ! ?i \<le> key" using mono [of ?i j] that by simp
          with A show False by simp
        qed
        then show ?thesis using i by fastforce
      qed
      finally show ?thesis .
    next
      case A: 2
      then have "\<not> key < xs ! ?i" by simp
      then have "bsearch_loop xs key l u = bsearch_loop xs key (?i + 1) u"
        using A True by (simp add: bsearch_unfold [of xs key l u])
      also have "\<dots> \<longleftrightarrow> (\<exists>j. ?i + 1 \<le> j \<and> j < u \<and> xs ! j = key)" using 1 A True \<open>\<not> key < xs ! ?i\<close> by auto
      also have "\<dots> \<longleftrightarrow> (\<exists>j. l \<le> j \<and> j < u \<and> xs ! j = key)"
      proof -
        have "?i < j" if "xs ! j = key" for j
        proof (rule ccontr)
          assume "\<not> ?i < j"
          then have "key \<le> xs ! ?i" using mono [of j ?i] that i by simp
          with A show False by simp
        qed
        then have "?i + 1 \<le> j \<and> j < u \<and> xs ! j = key \<longleftrightarrow> l \<le> j \<and> j < u \<and> xs ! j = key" for j
          using i by fastforce
        then show ?thesis by simp
      qed
      finally show ?thesis .
    next
      case A: 3
      then show ?thesis using True i by (auto simp: bsearch_unfold [of xs key l u])
    qed
  qed
qed

lemma bsearch_sorted: "sorted xs \<Longrightarrow> bsearch key xs \<longleftrightarrow> key \<in> set xs"
  by (auto simp: bsearch_def bsearch_loop_complete in_set_conv_nth)

text \<open>With a captured baseline the test is membership.\<close>

theorem captured_namespace:
  assumes "names \<noteq> []"
  shows "in_engine_namespace (Some (lr_iome586_capture_baseline (\<lambda>_. True) names)) name \<longleftrightarrow> name \<in> cstring ` set names"
proof -
  have "sort (map cstring names) \<noteq> []" using assms by (metis Nil_is_map_conv length_0_conv length_sort)
  then show ?thesis by (simp add: in_engine_namespace_def lr_iome586_capture_baseline_def bsearch_sorted)
qed

theorem captured_namespace_witness:
  "in_engine_namespace (Some (lr_iome586_capture_baseline (\<lambda>_. True) [str ''os'', str ''Map''])) (str ''os'')"
  using captured_namespace [of "[str ''os'', str ''Map'']" "str ''os''"] by (simp add: str_def cstring_def)

text \<open>The static list is not sorted, so the binary search of the fallback misses names that are in it.\<close>

lemma builtin_probes:
  "length builtin_globals_sorted = 88"
  "builtin_globals_sorted ! 22 = str ''Int32Array''"
  "builtin_globals_sorted ! 33 = str ''RangeError''"
  "builtin_globals_sorted ! 36 = str ''ReferenceError''"
  "builtin_globals_sorted ! 37 = str ''Set''"
  "builtin_globals_sorted ! 38 = str ''SharedArrayBuffer''"
  "builtin_globals_sorted ! 39 = str ''String''"
  "builtin_globals_sorted ! 41 = str ''SyntaxError''"
  "builtin_globals_sorted ! 42 = str ''TypeError''"
  "builtin_globals_sorted ! 43 = str ''URIError''"
  "builtin_globals_sorted ! 44 = str ''Uint16Array''"
  by (simp_all add: builtin_globals_sorted_def)

lemmas builtin_keys = builtin_probes [unfolded str_def, simplified]

lemma builtin_missed:
  "\<not> is_builtin_global (str ''URL'')" "\<not> is_builtin_global (str ''RegExp'')" "\<not> is_builtin_global (str ''TextDecoder'')"
  by (simp add: is_builtin_global_def bsearch_def builtin_keys str_def,
      (subst bsearch_unfold, simp add: builtin_keys)+)+

theorem builtin_names_missed:
  assumes "n \<in> {''URL'', ''RegExp'', ''TextDecoder''}"
  shows "str n \<in> set builtin_globals_sorted \<and> \<not> is_builtin_global (str n)"
proof
  show "str n \<in> set builtin_globals_sorted" using assms by (auto simp: builtin_globals_sorted_def)
  show "\<not> is_builtin_global (str n)" using assms builtin_missed by auto
qed

section \<open>Sensitive names\<close>

fun strstr :: "bytes \<Rightarrow> bytes \<Rightarrow> bool" where
  "strstr [] needle = (needle = [])"
| "strstr (x # xs) needle = (take (length needle) (x # xs) = needle \<or> strstr xs needle)"

definition needles :: "bytes list" where
  "needles = map str [''token'', ''secret'', ''passw'', ''credential'', ''apikey'', ''api_key'', ''auth'', ''bearer'', ''cookie'',
     ''session'', ''private'']"

definition is_sensitive_global :: "bytes \<Rightarrow> bool" where
  "is_sensitive_global name =
     (let low = map (\<lambda>ch. if 65 \<le> ch \<and> ch \<le> 90 then ch + 32 else ch) (take 511 name) in list_ex (strstr low) needles)"

section \<open>The snapshot of the globals\<close>

text \<open>The global object as the archive code sees it: the own string-keyed names in order with their enumerability, what a
  property read returns, and whether a property write succeeds.\<close>

record js_global =
  g_names :: "(bytes \<times> bool) list"
  g_get :: "bytes \<Rightarrow> lr_value"
  g_set_ok :: "bytes \<Rightarrow> lr_value \<Rightarrow> bool"

definition is_string :: "lr_value \<Rightarrow> bool" where
  "is_string v = (case v of LR_STRING _ \<Rightarrow> True | _ \<Rightarrow> False)"

definition put_binding :: "(nat \<Rightarrow> bool) \<Rightarrow> bool \<Rightarrow> bytes \<Rightarrow> lr_value \<Rightarrow> blob \<Rightarrow> blob" where
  "put_binding mem allow_strings name v b =
     (let b1 = blob_put mem name (blob_u16 mem (length name) b)
      in if is_sensitive_global name \<or> (\<not> allow_strings \<and> is_string v) then blob_u8 mem 6 b1 else blob_value mem v b1)"

fun snapshot_loop :: "(nat \<Rightarrow> bool) \<Rightarrow> js_global \<Rightarrow> bytes list option \<Rightarrow> bool \<Rightarrow> (bytes \<times> bool) list \<Rightarrow> blob \<Rightarrow> u32 \<Rightarrow> blob \<times> u32" where
  "snapshot_loop mem g baseline allow [] body count = (body, count)"
| "snapshot_loop mem g baseline allow ((name, enumerable) # tab) body count =
     (if \<not> enumerable \<or> in_engine_namespace baseline name \<or> g_get g name = LR_EXCEPTION
      then snapshot_loop mem g baseline allow tab body count
      else snapshot_loop mem g baseline allow tab (put_binding mem allow name (g_get g name) body) (count + 1))"

definition snapshot_globals :: "(nat \<Rightarrow> bool) \<Rightarrow> js_global \<Rightarrow> bytes list option \<Rightarrow> bool \<Rightarrow> blob \<Rightarrow> blob" where
  "snapshot_globals mem g baseline allow out =
     (let (body, count) = snapshot_loop mem g baseline allow (g_names g) empty_blob 0;
          out1 = blob_u32 mem count out
      in if b_cap body \<noteq> 0 then blob_put mem (b_data body) out1 else out1)"

text \<open>A top-level node as the engine describes it: AST type, line and the name it binds.\<close>

type_synonym node_info = "nat \<times> u32 \<times> bytes option"

fun nodes_loop :: "(nat \<Rightarrow> bool) \<Rightarrow> js_global \<Rightarrow> bool \<Rightarrow> node_info list \<Rightarrow> blob \<Rightarrow> blob" where
  "nodes_loop mem g allow [] out = out"
| "nodes_loop mem g allow ((ty, line, name) # nodes) out =
     (let out1 = blob_u8 mem 1 (blob_u32 mem line (blob_u16 mem ty out)) in
      case name of
        Some (c # cs) \<Rightarrow> nodes_loop mem g allow nodes (put_binding mem allow (c # cs) (g_get g (c # cs)) (blob_u8 mem 1 out1))
      | _ \<Rightarrow> nodes_loop mem g allow nodes (blob_u8 mem 0 out1))"

definition snapshot_nodes :: "(nat \<Rightarrow> bool) \<Rightarrow> js_global \<Rightarrow> node_info list \<Rightarrow> bool \<Rightarrow> blob \<Rightarrow> blob" where
  "snapshot_nodes mem g program allow out =
     nodes_loop mem g allow program (blob_u32 mem (word_of_nat (length program)) out)"

section \<open>Restoring the globals\<close>

text \<open>A value at an offset: \<open>None\<close> for what cannot be restored, and the offset after what was read.\<close>

definition restore_value :: "(nat \<Rightarrow> bool) \<Rightarrow> bytes \<Rightarrow> nat \<Rightarrow> byte \<Rightarrow> lr_value option \<times> nat" where
  "restore_value mem p off tag =
     (if tag = 0 then (Some LR_UNDEFINED, off)
      else if tag = 1 then (Some LR_NULL, off)
      else if tag = 2 then (if off + 1 > length p then (None, off) else (Some (LR_BOOL (p ! off \<noteq> 0)), off + 1))
      else if tag = 3 then (if off + 4 > length p then (None, off) else (Some (LR_INT32 (get_u32 p off)), off + 4))
      else if tag = 4 then (if off + 8 > length p then (None, off) else (Some (LR_FLOAT64 (get_u64 p off)), off + 8))
      else if tag = 5 then
        (if off + 4 > length p then (None, off)
         else (let slen = unat (get_u32 p off); off1 = off + 4 in
               if off1 + slen > length p then (None, off1)
               else if \<not> mem (slen + 1) then (None, off1 + slen)
               else (Some (LR_STRING (cstring (take slen (drop off1 p)))), off1 + slen)))
      else (None, off))"

text \<open>The loop returns the bindings written, in order, and how many writes succeeded.\<close>

fun restore_loop :: "(nat \<Rightarrow> bool) \<Rightarrow> js_global \<Rightarrow> bytes list option \<Rightarrow> bytes \<Rightarrow> nat \<Rightarrow> nat \<Rightarrow> (bytes \<times> lr_value) list" where
  "restore_loop mem g baseline p 0 off = []"
| "restore_loop mem g baseline p (Suc k) off =
     (if off + 3 > length p then []
      else
        (let nlen = get_u16 p off; off1 = off + 2 in
         if off1 + nlen + 1 > length p then []
         else
           (let name = cstring (take (if nlen < 511 then nlen else 511) (drop off1 p));
                (v, off2) = restore_value mem p (off1 + nlen + 1) (p ! (off1 + nlen))
            in case v of
                 None \<Rightarrow> restore_loop mem g baseline p k off2
               | Some w \<Rightarrow>
                   if in_engine_namespace baseline name then restore_loop mem g baseline p k off2
                   else (name, w) # restore_loop mem g baseline p k off2)))"

text \<open>\<open>None\<close> is the return value -1; otherwise the property writes and the number of those that succeeded.\<close>

definition lr_iome586_restore_globals ::
  "(nat \<Rightarrow> bool) \<Rightarrow> js_global \<Rightarrow> bytes list option \<Rightarrow> bytes option \<Rightarrow> ((bytes \<times> lr_value) list \<times> nat) option" where
  "lr_iome586_restore_globals mem g baseline globals =
     (case globals of
        None \<Rightarrow> None
      | Some p \<Rightarrow>
          if length p < 4 then None
          else (let sets = restore_loop mem g baseline p (unat (get_u32 p 0)) 4
                in Some (sets, length (filter (\<lambda>(n, v). g_set_ok g n v) sets))))"

text \<open>Restoring an archive never writes a name of the engine, whatever its bytes are.\<close>

theorem restore_protects_engine:
  assumes "lr_iome586_restore_globals mem g baseline globals = Some (sets, k)" "(name, v) \<in> set sets"
  shows "\<not> in_engine_namespace baseline name"
proof -
  have "\<forall>b\<in>set (restore_loop mem g baseline p k off). \<not> in_engine_namespace baseline (fst b)" for p k off
    by (induction k arbitrary: off) (simp_all add: Let_def split_beta split: option.split)
  then show ?thesis using assms
    by (fastforce simp: lr_iome586_restore_globals_def Let_def split: option.splits if_splits)
qed

section \<open>Snapshot and restore\<close>

text \<open>The bindings a snapshot records, and what restoring one gives.\<close>

definition kept :: "js_global \<Rightarrow> bytes list option \<Rightarrow> (bytes \<times> bool) list \<Rightarrow> (bytes \<times> lr_value) list" where
  "kept g baseline tab =
     map (\<lambda>(n, e). (n, g_get g n)) (filter (\<lambda>(n, e). e \<and> \<not> in_engine_namespace baseline n \<and> g_get g n \<noteq> LR_EXCEPTION) tab)"

definition opaque :: "bool \<Rightarrow> bytes \<times> lr_value \<Rightarrow> bool" where
  "opaque allow b \<longleftrightarrow> is_sensitive_global (fst b) \<or> (\<not> allow \<and> is_string (snd b))"

definition binding_bytes :: "bool \<Rightarrow> bytes \<times> lr_value \<Rightarrow> bytes" where
  "binding_bytes allow b = put_u16 (int (length (fst b))) @ fst b @ (if opaque allow b then [6] else value_bytes (snd b))"

fun primitive :: "lr_value \<Rightarrow> lr_value option" where
  "primitive (LR_STRING s) = Some (LR_STRING (cstring s))"
| "primitive (LR_OBJECT _) = None" | "primitive (LR_SYMBOL _) = None" | "primitive LR_EXCEPTION = None"
| "primitive v = Some v"

definition restored :: "bool \<Rightarrow> (bytes \<times> lr_value) list \<Rightarrow> (bytes \<times> lr_value) list" where
  "restored allow bs =
     concat (map (\<lambda>b. if opaque allow b then [] else case primitive (snd b) of None \<Rightarrow> [] | Some v \<Rightarrow> [(fst b, v)]) bs)"

lemma puts_binding [puts_rules]: "puts (put_binding mem allow n v) (binding_bytes allow (n, v))"
proof -
  have "puts (\<lambda>b. blob_u8 mem 6 (blob_put mem n (blob_u16 mem (length n) b))) ((put_u16 (int (length n)) @ n) @ [6])"
    "puts (\<lambda>b. blob_value mem v (blob_put mem n (blob_u16 mem (length n) b))) ((put_u16 (int (length n)) @ n) @ value_bytes v)"
    by (intro puts_comp puts_rules)+
  then show ?thesis by (auto simp: puts_def put_binding_def binding_bytes_def opaque_def Let_def)
qed

definition safe_blob :: "blob \<Rightarrow> bool" where
  "safe_blob b \<longleftrightarrow> \<not> b_error b \<and> length (b_data b) \<le> b_cap b"

lemma grow_cap_ge: "0 < nc \<Longrightarrow> needed \<le> grow_cap nc needed"
  by (induction nc needed rule: grow_cap.induct) (subst grow_cap.simps, auto)

lemma safe_put: "(\<And>n. mem n) \<Longrightarrow> safe_blob b \<Longrightarrow> safe_blob (blob_put mem xs b)"
  using grow_cap_ge [of "if b_cap b \<noteq> 0 then b_cap b else 2048" "length (b_data b) + length xs"]
  by (auto simp: safe_blob_def blob_put_def blob_ensure_def Let_def split: if_splits)

lemma safe_binding: "(\<And>n. mem n) \<Longrightarrow> safe_blob b \<Longrightarrow> safe_blob (put_binding mem allow n v b)"
  by (cases v) (simp_all add: put_binding_def blob_u8_def blob_u16_def blob_u32_def blob_u64_def Let_def safe_put)

lemma snapshot_loop_spec:
  "(\<And>n. mem n) \<Longrightarrow> safe_blob body \<Longrightarrow>
    case snapshot_loop mem g bl allow tab body count of (body1, count1) \<Rightarrow>
      safe_blob body1 \<and> b_data body1 = b_data body @ concat (map (binding_bytes allow) (kept g bl tab))
      \<and> count1 = count + word_of_nat (length (kept g bl tab))"
proof (induction tab arbitrary: body count)
  case (Cons ne tab)
  obtain n e where ne: "ne = (n, e)" by fastforce
  show ?case
  proof (cases "\<not> e \<or> in_engine_namespace bl n \<or> g_get g n = LR_EXCEPTION")
    case True
    then have "kept g bl (ne # tab) = kept g bl tab" by (auto simp: kept_def ne)
    then show ?thesis using Cons.IH [OF Cons.prems, of count] True by (simp add: ne)
  next
    case False
    let ?b = "put_binding mem allow n (g_get g n) body"
    have k: "kept g bl ((n, True) # tab) = (n, g_get g n) # kept g bl tab" using False by (simp add: kept_def)
    have s: "safe_blob ?b" using Cons.prems by (rule safe_binding)
    then have "b_data ?b = b_data body @ binding_bytes allow (n, g_get g n)"
      using puts_binding [of mem allow n "g_get g n"] by (simp add: puts_def safe_blob_def)
    then show ?thesis using Cons.IH [OF Cons.prems(1) s, of "count + 1"] False by (simp add: ne k split_beta)
  qed
qed (simp add: kept_def)

lemma snapshot_spec:
  assumes "\<And>n. mem n" "safe_blob out"
  shows "safe_blob (snapshot_globals mem g bl allow out)"
    and "b_data (snapshot_globals mem g bl allow out) = b_data out @ put_u32 (word_of_nat (length (kept g bl (g_names g))))
      @ concat (map (binding_bytes allow) (kept g bl (g_names g)))"
proof -
  obtain body count where b: "snapshot_loop mem g bl allow (g_names g) empty_blob 0 = (body, count)" by fastforce
  have e: "safe_blob empty_blob" by (simp add: safe_blob_def empty_blob_def)
  have s: "safe_blob body" "b_data body = concat (map (binding_bytes allow) (kept g bl (g_names g)))"
    "count = word_of_nat (length (kept g bl (g_names g)))"
    using snapshot_loop_spec [where mem = mem and body = empty_blob and g = g and bl = bl and allow = allow and tab = "g_names g" and count = 0, OF assms(1) e] b by (simp_all add: empty_blob_def)
  have z: "b_cap body = 0 \<Longrightarrow> b_data body = []" using s(1) by (simp add: safe_blob_def)
  have p: "puts (\<lambda>x. blob_put mem (b_data body) (blob_u32 mem count x)) (put_u32 count @ b_data body)"
    by (intro puts_comp puts_rules)
  have q: "safe_blob (blob_u32 mem count out)" "safe_blob (blob_put mem (b_data body) (blob_u32 mem count out))"
    using assms by (simp_all add: blob_u32_def safe_put)
  show "safe_blob (snapshot_globals mem g bl allow out)" using b q by (simp add: snapshot_globals_def Let_def)
  show "b_data (snapshot_globals mem g bl allow out) = b_data out @ put_u32 (word_of_nat (length (kept g bl (g_names g))))
      @ concat (map (binding_bytes allow) (kept g bl (g_names g)))"
    using b s z p q puts_ints(3) [of mem count] by (auto simp: snapshot_globals_def puts_def safe_blob_def Let_def)
qed

lemma cstring_zero_free: "0 \<notin> set (cstring s)"
  by (auto simp: cstring_def dest: set_takeWhileD)

lemma cstring_id: "0 \<notin> set s \<Longrightarrow> cstring s = s"
  by (auto simp: cstring_def takeWhile_eq_all_conv)

lemma restore_value_bytes:
  assumes "\<And>n. mem n" "length (value_bytes v) < 2 ^ 32" "p = pre @ value_bytes v @ post"
  shows "restore_value mem p (length pre + 1) (p ! length pre) = (primitive v, length pre + length (value_bytes v))"
proof (cases v)
  case (LR_INT32 i)
  then show ?thesis using get_put_u32 [of "pre @ [3]" i post] assms(3) by (simp add: restore_value_def)
next
  case (LR_FLOAT64 d)
  then show ?thesis using get_u64_le_bytes [of "pre @ [4]" d post] assms(3) by (simp add: restore_value_def le_bytes_8)
next
  case (LR_STRING s)
  let ?t = "cstring s"
  have n: "unat (word_of_nat (length ?t) :: u32) = length ?t" using assms(2) LR_STRING by (simp add: unat_of_nat)
  have "get_u32 p (length pre + 1) = word_of_nat (length ?t)"
    using get_put_u32 [of "pre @ [5]" "word_of_nat (length ?t)" "?t @ post"] assms(3) LR_STRING by simp
  then have "restore_value mem p (length pre + 1) 5
      = (Some (LR_STRING (cstring (take (length ?t) (drop (length pre + 5) p)))), length pre + 5 + length ?t)"
    using assms(1,3) LR_STRING n by (simp add: restore_value_def Let_def)
  moreover have "take (length ?t) (drop (length pre + 5) p) = ?t" using assms(3) LR_STRING by simp
  ultimately show ?thesis using assms(3) LR_STRING by (simp add: cstring_id cstring_zero_free nth_append)
qed (use assms(3) in \<open>simp_all add: restore_value_def nth_append\<close>)

lemma value_bytes_pos: "value_bytes v \<noteq> []"
  by (cases v) simp_all

lemma binding_bytes_long: "3 \<le> length (binding_bytes allow b)"
  using value_bytes_pos [of "snd b"] by (cases "value_bytes (snd b)") (simp_all add: binding_bytes_def put_u16_def)

lemma restore_one:
  assumes "\<And>n. mem n" "length (fst b) \<le> 511" "0 \<notin> set (fst b)" "length (value_bytes (snd b)) < 2 ^ 32"
    "\<not> in_engine_namespace bl (fst b)" "p = pre @ binding_bytes allow b @ post"
  shows "restore_loop mem g bl p (Suc k) (length pre)
    = restored allow [b] @ restore_loop mem g bl p k (length (pre @ binding_bytes allow b))"
proof -
  let ?n = "fst b"
  let ?v = "if opaque allow b then [6] else value_bytes (snd b)"
  let ?q = "pre @ put_u16 (int (length ?n)) @ ?n"
  have p: "p = ?q @ ?v @ post" using assms(6) by (simp add: binding_bytes_def)
  have u: "get_u16 p (length pre) = length ?n"
    using get_u16_put [of "int (length ?n)" "length pre" pre "?n @ ?v @ post"] assms(2) p by simp
  have q: "length ?q = length pre + 2 + length ?n" by (simp add: put_u16_def)
  have v: "?v \<noteq> []" using value_bytes_pos [of "snd b"] by simp
  then have len: "\<not> length p < length pre + 3" "\<not> length p < length pre + 2 + length ?n + 1"
    unfolding p by (cases ?v; simp add: put_u16_def)+
  have nm: "cstring (take (if length ?n < 511 then length ?n else 511) (drop (length pre + 2) p)) = ?n"
    using assms(2,3) p by (simp add: cstring_id put_u16_def)
  have val: "restore_value mem p (length pre + 2 + length ?n + 1) (p ! (length pre + 2 + length ?n))
      = (if opaque allow b then None else primitive (snd b), length (pre @ binding_bytes allow b))"
  proof (cases "opaque allow b")
    case True
    then show ?thesis using q p by (simp add: restore_value_def nth_append binding_bytes_def)
  next
    case False
    then show ?thesis using restore_value_bytes [OF assms(1,4), of p ?q post] q p by (simp add: binding_bytes_def)
  qed
  have "restore_loop mem g bl p (Suc k) (length pre)
      = (case (if opaque allow b then None else primitive (snd b)) of
           None \<Rightarrow> restore_loop mem g bl p k (length (pre @ binding_bytes allow b))
         | Some w \<Rightarrow> (?n, w) # restore_loop mem g bl p k (length (pre @ binding_bytes allow b)))"
    using u len nm val assms(5) by (simp add: Let_def split: option.split)
  then show ?thesis by (simp add: restored_def split: option.split)
qed

definition storable :: "bytes list option \<Rightarrow> bytes \<times> lr_value \<Rightarrow> bool" where
  "storable bl b \<longleftrightarrow> length (fst b) \<le> 511 \<and> 0 \<notin> set (fst b) \<and> length (value_bytes (snd b)) < 2 ^ 32 \<and> \<not> in_engine_namespace bl (fst b)"

lemma restore_all:
  "(\<And>n. mem n) \<Longrightarrow> list_all (storable bl) bs \<Longrightarrow> p = pre @ concat (map (binding_bytes allow) bs) \<Longrightarrow>
    restore_loop mem g bl p (length bs) (length pre) = restored allow bs"
proof (induction bs arbitrary: pre)
  case (Cons b bs)
  let ?pre = "pre @ binding_bytes allow b"
  have "restore_loop mem g bl p (length bs) (length ?pre) = restored allow bs"
    using Cons.prems by (intro Cons.IH) simp_all
  moreover have "restore_loop mem g bl p (Suc (length bs)) (length pre) = restored allow [b] @ restore_loop mem g bl p (length bs) (length ?pre)"
    using Cons.prems by (intro restore_one) (simp_all add: storable_def)
  ultimately show ?case by (simp add: restored_def del: restore_loop.simps)
qed (simp add: restored_def)

text \<open>(C38) With memory for every copy, restoring a snapshot of fewer than \<open>2^32\<close> bindings writes back, in order and with their
  values, exactly the recorded bindings (\<open>kept\<close>: enumerable, not an engine name, readable) that are primitive and not opaque
  (\<open>restored\<close>): a sensitive name is opaque, and so is every string when strings are not allowed; a string comes back up to its
  first zero byte. The recorded names have at most 511 bytes and no zero byte, and the values fit 32-bit lengths (\<open>storable\<close>).\<close>

theorem globals_roundtrip:
  assumes "\<And>n. mem n" "list_all (storable bl) (kept g bl (g_names g))" "length (g_names g) < 2 ^ 32"
  shows "\<exists>k. lr_iome586_restore_globals mem g' bl (Some (b_data (snapshot_globals mem g bl allow empty_blob)))
    = Some (restored allow (kept g bl (g_names g)), k)"
proof -
  let ?ks = "kept g bl (g_names g)"
  let ?p = "put_u32 (word_of_nat (length ?ks)) @ concat (map (binding_bytes allow) ?ks)"
  have "safe_blob empty_blob" by (simp add: safe_blob_def empty_blob_def)
  then have d: "b_data (snapshot_globals mem g bl allow empty_blob) = ?p"
    using snapshot_spec(2) [where mem = mem and out = empty_blob and g = g and bl = bl and allow = allow, OF assms(1)] by (simp add: empty_blob_def)
  have "length ?ks < 2 ^ 32" using assms(3) by (simp add: kept_def) (meson le_less_trans length_filter_le)
  then have "unat (get_u32 ?p 0) = length ?ks"
    using get_put_u32 [of "[]" "word_of_nat (length ?ks)"] by (simp add: unat_of_nat)
  moreover have "restore_loop mem g' bl ?p (length ?ks) (length (put_u32 (word_of_nat (length ?ks)))) = restored allow ?ks"
    using assms(1,2) by (rule restore_all) simp
  ultimately show ?thesis unfolding d by (simp add: lr_iome586_restore_globals_def Let_def)
qed

definition sample_global :: js_global where
  "sample_global = \<lparr>g_names = [(str ''n'', True), (str ''token'', True), (str ''f'', True), (str ''os'', True)],
     g_get = (\<lambda>n. if n = str ''n'' then LR_INT32 7 else if n = str ''f'' then LR_OBJECT 4096 else LR_STRING (str ''x'')),
     g_set_ok = (\<lambda>_ _. True)\<rparr>"

lemma namespace_singleton: "in_engine_namespace (Some [x]) n \<longleftrightarrow> n = x"
  by (simp add: in_engine_namespace_def bsearch_sorted)

lemma sample_kept: "kept sample_global (Some [str ''os'']) (g_names sample_global)
    = [(str ''n'', LR_INT32 7), (str ''token'', LR_STRING (str ''x'')), (str ''f'', LR_OBJECT 4096)]"
  by code_simp

theorem globals_roundtrip_witness:
  "\<exists>k. lr_iome586_restore_globals (\<lambda>_. True) sample_global (Some [str ''os''])
      (Some (b_data (snapshot_globals (\<lambda>_. True) sample_global (Some [str ''os'']) True empty_blob)))
    = Some ([(str ''n'', LR_INT32 7)], k)"
proof -
  have "restored True (kept sample_global (Some [str ''os'']) (g_names sample_global)) = [(str ''n'', LR_INT32 7)]"
    unfolding sample_kept by code_simp
  moreover have "list_all (storable (Some [str ''os''])) (kept sample_global (Some [str ''os'']) (g_names sample_global))"
    unfolding sample_kept by (simp add: storable_def namespace_singleton str_def cstring_def)
  moreover have "length (g_names sample_global) < 2 ^ 32" by (simp add: sample_global_def)
  ultimately show ?thesis
    using globals_roundtrip [where mem = "\<lambda>_. True" and bl = "Some [str ''os'']" and g = sample_global and g' = sample_global and allow = True]
    by simp
qed

text \<open>Two globals that differ only in sensitive values and, with strings switched off, in the contents of strings.\<close>

definition same_public :: "bool \<Rightarrow> js_global \<Rightarrow> js_global \<Rightarrow> bool" where
  "same_public allow g1 g2 \<longleftrightarrow> g_names g1 = g_names g2
     \<and> (\<forall>n. (g_get g1 n = LR_EXCEPTION) = (g_get g2 n = LR_EXCEPTION)
          \<and> (g_get g1 n = g_get g2 n \<or> is_sensitive_global n
             \<or> (\<not> allow \<and> is_string (g_get g1 n) \<and> is_string (g_get g2 n))))"

lemma put_binding_public: "same_public allow g1 g2 \<Longrightarrow> put_binding mem allow n (g_get g1 n) = put_binding mem allow n (g_get g2 n)"
proof -
  assume "same_public allow g1 g2"
  then consider "g_get g1 n = g_get g2 n" | "is_sensitive_global n" | "\<not> allow" "is_string (g_get g1 n)" "is_string (g_get g2 n)"
    by (auto simp: same_public_def)
  then show ?thesis by cases (simp_all add: put_binding_def fun_eq_iff)
qed

lemma snapshot_loop_public:
  "same_public allow g1 g2 \<Longrightarrow> snapshot_loop mem g1 bl allow tab body count = snapshot_loop mem g2 bl allow tab body count"
proof (induction tab arbitrary: body count)
  case (Cons t tab)
  obtain n e where t: "t = (n, e)" by fastforce
  have "(g_get g1 n = LR_EXCEPTION) = (g_get g2 n = LR_EXCEPTION)" using Cons.prems by (simp add: same_public_def)
  then show ?case using Cons.IH [OF Cons.prems] put_binding_public [OF Cons.prems, of mem n] by (simp add: t)
qed simp

lemma nodes_loop_public: "same_public allow g1 g2 \<Longrightarrow> nodes_loop mem g1 allow ns out = nodes_loop mem g2 allow ns out"
proof (induction ns arbitrary: out)
  case (Cons t ns)
  then show ?case using put_binding_public [OF Cons.prems] by (cases t) (auto simp: Let_def split: option.split list.split)
qed simp

text \<open>(C39) The value of a binding with a sensitive name never reaches an archive: two runs that differ only in such values (and,
  with strings switched off, in the contents of strings) write the same snapshots.\<close>

theorem sensitive_values_not_stored:
  assumes "same_public allow g1 g2"
  shows "snapshot_globals mem g1 bl allow out = snapshot_globals mem g2 bl allow out
    \<and> snapshot_nodes mem g1 program allow out = snapshot_nodes mem g2 program allow out"
  using assms snapshot_loop_public [OF assms, of mem bl] nodes_loop_public [OF assms]
  by (simp add: snapshot_globals_def snapshot_nodes_def same_public_def)

definition sample_global2 :: js_global where
  "sample_global2 = sample_global\<lparr>g_get := (g_get sample_global)(str ''token'' := LR_STRING (str ''y''))\<rparr>"

theorem sensitive_values_not_stored_witness:
  "snapshot_globals (\<lambda>_. True) sample_global None True empty_blob = snapshot_globals (\<lambda>_. True) sample_global2 None True empty_blob
    \<and> snapshot_nodes (\<lambda>_. True) sample_global [(7, 1, Some (str ''token''))] True empty_blob
        = snapshot_nodes (\<lambda>_. True) sample_global2 [(7, 1, Some (str ''token''))] True empty_blob"
proof (rule sensitive_values_not_stored)
  have "is_sensitive_global (str ''token'')" by code_simp
  then show "same_public True sample_global sample_global2"
    by (auto simp: same_public_def sample_global_def sample_global2_def)
qed

theorem restore_protects_engine_witness: "\<not> in_engine_namespace (Some [str ''os'']) [110]"
proof (rule restore_protects_engine)
  show "lr_iome586_restore_globals (\<lambda>_. True) sample_global (Some [str ''os'']) (Some [1, 0, 0, 0, 1, 0, 110, 1]) = Some ([([110], LR_NULL)], 1)"
    by (simp add: lr_iome586_restore_globals_def get_u32_def le32_def get_u16_def restore_value_def namespace_singleton str_def cstring_def
        sample_global_def)
qed simp

end
