(* ===== verification/LR_Cache.thy ===== *)
theory LR_Cache
  imports LR_Archive LR_Compress LR_Float
begin

unbundle bit_operations_syntax

text \<open>
  The result cache IOME586, \<^verbatim>\<open>src/lr_iome586.c\<close>: the container format, the two-phase store (begin, then commit or abort), the
  loader with its validation, and the maintenance operations, over a file system that maps paths to contents and
  modification times. What the operating system answers is an argument.
\<close>

section \<open>The file system\<close>

type_synonym fsys = "bytes \<rightharpoonup> bytes \<times> u64"

text \<open>The outcomes of \<open>malloc\<close>, of writing a file (\<open>None\<close> when \<open>fopen\<close> fails, else the count \<open>fwrite\<close> returns and the number of
  bytes in the file once \<open>fclose\<close> has flushed what it could) and of \<open>rename\<close>, the clock and its formatted reading, the version string of the build, and the memory of the LZ4 wrappers.\<close>

record io_env =
  io_mem :: "nat \<Rightarrow> bool"
  io_write :: "bytes \<Rightarrow> bytes \<Rightarrow> (nat \<times> nat) option"
  io_rename :: "bytes \<Rightarrow> bytes \<Rightarrow> bool"
  io_now :: u64
  io_localtime :: "u64 \<Rightarrow> bytes"
  io_version :: bytes
  io_copy :: bool
  io_buf :: bool
  io_table :: bool

definition file_mtime :: "fsys \<Rightarrow> bytes \<Rightarrow> u64" where
  "file_mtime fs path = (case fs path of None \<Rightarrow> 0 | Some (d, t) \<Rightarrow> t)"

definition file_exists :: "fsys \<Rightarrow> bytes \<Rightarrow> bool" where
  "file_exists fs path \<longleftrightarrow> fs path \<noteq> None"

definition read_all :: "io_env \<Rightarrow> fsys \<Rightarrow> bytes \<Rightarrow> bytes option" where
  "read_all io fs path =
     (case fs path of
        None \<Rightarrow> None
      | Some (d, t) \<Rightarrow> if d = [] then None else if io_mem io (length d) then Some d else None)"

text \<open>The result is that of \<open>fwrite\<close>: the result of \<open>fclose\<close> is ignored, so a file that is cut short when its buffer is flushed
  counts as written.\<close>

definition write_all :: "io_env \<Rightarrow> fsys \<Rightarrow> bytes \<Rightarrow> bytes \<Rightarrow> fsys \<times> bool" where
  "write_all io fs path data =
     (case io_write io path data of
        None \<Rightarrow> (fs, False)
      | Some (n, flushed) \<Rightarrow> (fs(path \<mapsto> (take flushed data, io_now io)), n = length data))"

definition remove_file :: "fsys \<Rightarrow> bytes \<Rightarrow> fsys" where
  "remove_file fs path = fs(path := None)"

definition move_file :: "io_env \<Rightarrow> fsys \<Rightarrow> bytes \<Rightarrow> bytes \<Rightarrow> fsys \<times> bool" where
  "move_file io fs src dst =
     (let fs1 = remove_file fs dst in
      case fs1 src of
        None \<Rightarrow> (fs1, False)
      | Some f \<Rightarrow> if io_rename io src dst then (fs1(src := None, dst \<mapsto> f), True) else (fs1, False))"

section \<open>The cache and its paths\<close>

record rt_config =
  rc_strict_mode :: int
  rc_memory_limit :: nat
  rc_gc_mode :: int
  rc_log_level :: int
  rc_timeout_ms :: int

record iome_cache =
  k_dir :: "bytes option"
  k_enabled :: bool
  k_compression :: bool
  k_snapshot_strings :: bool
  k_restore_globals :: bool
  k_baseline :: "bytes list option"
  k_hits :: u64
  k_misses :: u64
  k_stores :: u64
  k_skips :: u64
  k_invalid :: u64
  k_reverts :: u64
  k_stored :: u64
  k_loaded :: u64
  k_saved :: u64
  k_runtime :: "rt_config option"

definition lr_iome586_init :: "rt_config option \<Rightarrow> bytes option \<Rightarrow> iome_cache" where
  "lr_iome586_init rt dir =
     (let on = (case dir of Some (d # ds) \<Rightarrow> True | _ \<Rightarrow> False) in
      \<lparr>k_dir = (if on then dir else None), k_enabled = on, k_compression = True, k_snapshot_strings = True,
       k_restore_globals = False, k_baseline = None, k_hits = 0, k_misses = 0, k_stores = 0, k_skips = 0, k_invalid = 0,
       k_reverts = 0, k_stored = 0, k_loaded = 0, k_saved = 0, k_runtime = rt\<rparr>)"

definition lr_iome586_destroy :: "iome_cache \<Rightarrow> iome_cache" where
  "lr_iome586_destroy c = c\<lparr>k_dir := None, k_baseline := None\<rparr>"

definition lr_iome586_set_dir :: "iome_cache \<Rightarrow> bytes option \<Rightarrow> iome_cache" where
  "lr_iome586_set_dir c dir =
     (case dir of
        Some (d # ds) \<Rightarrow> c\<lparr>k_dir := dir, k_enabled := True\<rparr>
      | _ \<Rightarrow> c\<lparr>k_dir := None, k_enabled := False\<rparr>)"

definition lr_iome586_clear :: "iome_cache \<Rightarrow> iome_cache" where
  "lr_iome586_clear c = c\<lparr>k_stores := 0, k_stored := 0\<rparr>"

text \<open>\<open>%016llx\<close>\<close>

definition hex16 :: "u64 \<Rightarrow> bytes" where
  "hex16 h = map (\<lambda>i. str ''0123456789abcdef'' ! unat (drop_bit (60 - 4 * i) h AND 0xF)) [0..<16]"

text \<open>\<open>snprintf\<close> into a buffer of a size.\<close>

definition sn :: "nat \<Rightarrow> bytes \<Rightarrow> bytes" where
  "sn cap s = take (cap - 1) s"

definition archive_path :: "iome_cache \<Rightarrow> u64 \<Rightarrow> bool \<Rightarrow> bytes" where
  "archive_path c hash lz4 =
     sn 4096 (the (k_dir c) @ str ''/'' @ hex16 hash @ str ''.lrfile'' @ (if lz4 then str ''.lz4'' else []))"

definition backup_path :: "iome_cache \<Rightarrow> u64 \<Rightarrow> bytes" where
  "backup_path c hash = sn 4096 (the (k_dir c) @ str ''/'' @ hex16 hash @ str ''.lrfile.bak'')"

definition named_script :: "bytes option \<Rightarrow> bool" where
  "named_script path = (case path of Some (x # xs) \<Rightarrow> x \<noteq> 0x3C | _ \<Rightarrow> False)"

definition script_name_hash :: "bytes option \<Rightarrow> bytes \<Rightarrow> u64" where
  "script_name_hash path src = (if named_script path then lr_iome586_hash64 (the path) else lr_iome586_hash64 src)"

definition script_mtime :: "fsys \<Rightarrow> bytes option \<Rightarrow> u64" where
  "script_mtime fs path =
     (case path of Some p \<Rightarrow> if take 1 p \<noteq> [0x3C] then file_mtime fs p else 0 | None \<Rightarrow> 0)"

section \<open>The writer\<close>

record iome_writer =
  w_active :: bool
  w_hash :: u64
  w_mtime :: u64
  w_src_size :: u64
  w_created :: u64
  w_flags :: u32
  w_parse_us :: int
  w_script :: bytes
  w_final :: bytes
  w_bak :: bytes
  w_have_bak :: bool
  w_ast :: "bytes option"
  w_bc :: "bytes option"
  w_mir :: "bytes option"

definition zero_writer :: iome_writer where
  "zero_writer = \<lparr>w_active = False, w_hash = 0, w_mtime = 0, w_src_size = 0, w_created = 0, w_flags = 0, w_parse_us = 0,
     w_script = [], w_final = [], w_bak = [], w_have_bak = False, w_ast = None, w_bc = None, w_mir = None\<rparr>"

section \<open>Texts\<close>

definition line :: "string \<Rightarrow> bytes" where
  "line s = str s @ [10]"

text \<open>\<open>%.6f\<close> of a finite double, rounded to even.\<close>

definition fmt_f6 :: "u64 \<Rightarrow> bytes" where
  "fmt_f6 d =
     (case f64_decode d of
        F_fin s m e \<Rightarrow>
          (let n = (if e \<ge> 0 then m * 2 ^ nat e * 1000000 else round_half_even (m * 1000000) (nat (- e)));
               frac = dec_digits (n mod 1000000)
           in (if s then [45] else []) @ dec_digits (n div 1000000) @ [46] @ replicate (6 - length frac) 48 @ frac)
      | F_inf s \<Rightarrow> (if s then str ''-inf'' else str ''inf'')
      | F_nan \<Rightarrow> str ''nan'')"

definition desc_text :: "io_env \<Rightarrow> iome_writer \<Rightarrow> bytes" where
  "desc_text io w =
     sn 768 (line ''IOME586 archive'' @ str ''script='' @ w_script w @ [10] @ str ''created='' @ io_localtime io (w_created w) @ [10]
       @ str ''engine=L/R_JS v'' @ io_version io @ [10])"

definition meta_head :: "iome_writer \<Rightarrow> string \<Rightarrow> bytes" where
  "meta_head w status =
     line ''name=IOME586'' @ str ''script='' @ w_script w @ [10] @ str ''hash='' @ hex16 (w_hash w) @ [10]
       @ str ''status='' @ line status @ str ''created='' @ fmt_d (sint (w_created w)) @ [10]"

definition meta_tail :: "io_env \<Rightarrow> bytes" where
  "meta_tail io = str ''version='' @ io_version io @ [10] @ line ''container=1''"

section \<open>The container\<close>

definition iome_magic :: bytes where
  "iome_magic = str ''IOME586'' @ [0]"

abbreviation STATUS_WRITING :: u32 where "STATUS_WRITING \<equiv> 1"
abbreviation STATUS_ARCHIVED :: u32 where "STATUS_ARCHIVED \<equiv> 2"
abbreviation FLAG_MODULE :: u32 where "FLAG_MODULE \<equiv> 2"
abbreviation FLAG_COMPRESSED :: u32 where "FLAG_COMPRESSED \<equiv> 4"
abbreviation FLAG_KEYED :: u32 where "FLAG_KEYED \<equiv> 8"

text \<open>\<open>(double)csize / (double)len > 0.90\<close>\<close>

definition over_090 :: "nat \<Rightarrow> nat \<Rightarrow> bool" where
  "over_090 csize len = f64_lt 0x3FECCCCCCCCCCCCD (f64_div (f64_of_int (int csize)) (f64_of_int (int len)))"

text \<open>\<open>(uint32_t)(opt_ratio * 1e6)\<close>\<close>

definition ratio_u32 :: "u64 \<Rightarrow> u32" where
  "ratio_u32 r = word_of_int (f64_cast 64 (f64_mul r 0x412E848000000000))"

definition put_header ::
  "(nat \<Rightarrow> bool) \<Rightarrow> u32 \<Rightarrow> u32 \<Rightarrow> u32 \<Rightarrow> iome_writer \<Rightarrow> u32 \<Rightarrow> u32 \<Rightarrow> u32 \<Rightarrow> u32 \<Rightarrow> u32 \<Rightarrow> blob \<Rightarrow> blob" where
  "put_header mem engine status flags w ratio crc stored_len raw_len desc_len b =
     blob_u32 mem desc_len (blob_u32 mem raw_len (blob_u32 mem stored_len (blob_u32 mem crc (blob_u32 mem ratio
       (blob_u64 mem (w_src_size w) (blob_u64 mem (w_mtime w) (blob_u64 mem (w_hash w) (blob_u64 mem (w_created w)
         (blob_u32 mem flags (blob_u32 mem status (blob_u32 mem engine (blob_u32 mem 1 (blob_put mem iome_magic b)))))))))))))"

text \<open>\<open>None\<close>: the compressor does not return, see \<^verbatim>\<open>LR_Compress\<close>.\<close>

definition store_payload :: "io_env \<Rightarrow> iome_cache \<Rightarrow> bytes \<Rightarrow> (bytes \<times> bool) option option" where
  "store_payload io c payload =
     (let plain = (if io_mem io (if length payload \<noteq> 0 then length payload else 1) then Some (payload, False) else None) in
      if k_compression c \<and> length payload > 256 then
        (case lr_compress_if_beneficial (io_copy io) (io_buf io) (io_table io) over_090 payload of
           None \<Rightarrow> None
         | Some (None, was, n) \<Rightarrow> Some plain
         | Some (Some stored, was, n) \<Rightarrow> Some (Some (stored, was)))
      else Some plain)"

definition write_container ::
  "io_env \<Rightarrow> iome_cache \<Rightarrow> fsys \<Rightarrow> bytes \<Rightarrow> u32 \<Rightarrow> u32 \<Rightarrow> iome_writer \<Rightarrow> u64 \<Rightarrow> bytes \<Rightarrow> (fsys \<times> iome_cache \<times> bool) option" where
  "write_container io c fs path status flags w ratio payload =
     (case store_payload io c payload of
        None \<Rightarrow> None
      | Some None \<Rightarrow> Some (fs, c, False)
      | Some (Some (stored, compressed)) \<Rightarrow>
          (let flags1 = (if compressed then flags OR FLAG_COMPRESSED else flags);
               c1 = (if compressed then c\<lparr>k_saved := k_saved c + word_of_nat (length payload) - word_of_nat (length stored)\<rparr> else c);
               desc = desc_text io w;
               f = blob_put (io_mem io) stored (blob_put (io_mem io) desc
                     (put_header (io_mem io) (engine_version_id (io_version io)) status flags1 w (ratio_u32 ratio)
                        (lr_iome586_crc32 payload) (word_of_nat (length stored)) (word_of_nat (length payload))
                        (word_of_nat (length desc)) empty_blob))
           in if b_error f then Some (fs, c1, False)
              else (let (fs1, ok) = write_all io fs path (b_data f)
                    in Some (fs1, if ok then c1\<lparr>k_stored := k_stored c1 + word_of_nat (length (b_data f))\<rparr> else c1, ok))))"

section \<open>Storing\<close>

text \<open>The previous archive, under either name, becomes the backup.\<close>

definition keep_backup :: "io_env \<Rightarrow> fsys \<Rightarrow> bytes \<Rightarrow> bytes \<Rightarrow> bytes \<Rightarrow> fsys \<times> bool" where
  "keep_backup io fs final alt bak =
     (if file_exists fs final then move_file io fs final bak
      else if file_exists fs alt then move_file io fs alt bak
      else (fs, False))"

definition begin_payload :: "io_env \<Rightarrow> iome_writer \<Rightarrow> bytes \<Rightarrow> blob" where
  "begin_payload io w ast =
     entry_add (io_mem io) (str ''ast'') ast
       (entry_add_text (io_mem io) (str ''path'')
          (line ''method=ast-treewalk-direct'' @ line ''format=LRA1'' @ line ''pipeline=lex>parse>serialize>exec'')
          (entry_add_text (io_mem io) (str ''meta'') (sn 1024 (meta_head w ''writing'' @ meta_tail io)) empty_blob))"

definition new_writer ::
  "io_env \<Rightarrow> iome_cache \<Rightarrow> fsys \<Rightarrow> bytes option \<Rightarrow> bytes \<Rightarrow> bytes \<Rightarrow> u32 \<Rightarrow> int \<Rightarrow> iome_writer" where
  "new_writer io c fs script src ast flags parse_us =
     (let nh = script_name_hash script src in
      zero_writer\<lparr>w_hash := lr_iome586_hash64 src, w_mtime := script_mtime fs script, w_src_size := word_of_nat (length src),
        w_created := io_now io, w_flags := flags, w_parse_us := parse_us, w_ast := Some ast,
        w_script := sn 512 (case script of Some p \<Rightarrow> p | None \<Rightarrow> str ''<anonymous>''),
        w_final := archive_path c nh False, w_bak := backup_path c nh\<rparr>)"

definition lr_iome586_begin ::
  "io_env \<Rightarrow> iome_cache \<Rightarrow> fsys \<Rightarrow> bytes option \<Rightarrow> bytes \<Rightarrow> bytes option \<Rightarrow> u32 \<Rightarrow> int
    \<Rightarrow> (fsys \<times> iome_cache \<times> iome_writer \<times> bool) option" where
  "lr_iome586_begin io c fs script src ast_bc flags parse_us =
     (if \<not> k_enabled c \<or> k_dir c = None \<or> ast_bc = None then Some (fs, c, zero_writer, False)
      else
        (let ast = the ast_bc;
             w = new_writer io c fs script src ast flags parse_us;
             alt = archive_path c (script_name_hash script src) True;
             (fs1, bak) = keep_backup io fs (w_final w) alt (w_bak w);
             w1 = w\<lparr>w_have_bak := bak\<rparr>;
             payload = begin_payload io w1 ast
         in case (if b_error payload then Some (fs1, c, False)
                  else write_container io c fs1 (w_final w1) STATUS_WRITING flags w1 0 (b_data payload)) of
              None \<Rightarrow> None
            | Some (fs2, c1, ok) \<Rightarrow>
                if ok then Some (fs2, c1, w1\<lparr>w_active := True\<rparr>, True)
                else Some (if bak then fst (move_file io fs2 (w_bak w1) (w_final w1)) else fs2, c1, zero_writer, False)))"

text \<open>The share of the run time that a warm start saves, as a double.\<close>

definition expected_gain :: "int \<Rightarrow> int \<Rightarrow> u64" where
  "expected_gain parse_us exec_us =
     (let total = f64_of_int (parse_us + exec_us) in
      if f64_lt 0 total then f64_div (f64_of_int parse_us) total else 0)"

abbreviation MIN_GAIN :: u64 where "MIN_GAIN \<equiv> 0x3FC3333333333333"

definition roll_back :: "io_env \<Rightarrow> fsys \<Rightarrow> iome_writer \<Rightarrow> fsys" where
  "roll_back io fs w =
     (let fs1 = remove_file fs (w_final w) in if w_have_bak w then fst (move_file io fs1 (w_bak w) (w_final w)) else fs1)"

definition config_text :: "iome_cache \<Rightarrow> iome_writer \<Rightarrow> bytes" where
  "config_text c w =
     sn 512 (case k_runtime c of
        None \<Rightarrow> line ''unknown=1''
      | Some rt \<Rightarrow>
          str ''strict_mode='' @ fmt_d (rc_strict_mode rt) @ [10] @ str ''memory_limit='' @ fmt_d (int (rc_memory_limit rt)) @ [10]
          @ str ''gc_mode='' @ fmt_d (rc_gc_mode rt) @ [10] @ str ''log_level='' @ fmt_d (rc_log_level rt) @ [10]
          @ str ''timeout_ms='' @ fmt_d (rc_timeout_ms rt) @ [10]
          @ str ''module='' @ (if w_flags w AND FLAG_MODULE \<noteq> 0 then str ''1'' else str ''0'') @ [10])"

definition init_text :: "js_global \<Rightarrow> bytes" where
  "init_text g =
     sn 512 (str ''builtins=console,timers,fetch,url,encoding,event,performance,''
       @ str ''crypto,storage,ws,worker,fs,terminal,sysinfo,promise,proxy,'' @ str ''reflect,map,set,core,extra'' @ [10]
       @ str ''global_props='' @ fmt_d (int (length (g_names g))) @ [10] @ line ''result=ok'')"

definition state_text :: "iome_writer \<Rightarrow> int \<Rightarrow> u64 \<Rightarrow> bytes" where
  "state_text w exec_us gain =
     sn 512 (line ''state_machine=idle'' @ line ''run_status=completed'' @ line ''exception=0''
       @ str ''parse_us='' @ fmt_d (w_parse_us w) @ [10] @ str ''exec_us='' @ fmt_d exec_us @ [10]
       @ str ''total_us='' @ fmt_d (w_parse_us w + exec_us) @ [10] @ str ''opt_ratio='' @ fmt_f6 gain @ [10])"

definition opt_entry :: "(nat \<Rightarrow> bool) \<Rightarrow> bytes \<Rightarrow> bytes option \<Rightarrow> blob \<Rightarrow> blob" where
  "opt_entry mem name data b = (case data of Some (x # xs) \<Rightarrow> entry_add mem name (x # xs) b | _ \<Rightarrow> b)"

definition put_commit_entries ::
  "io_env \<Rightarrow> iome_cache \<Rightarrow> iome_writer \<Rightarrow> js_global \<Rightarrow> node_info list \<Rightarrow> int \<Rightarrow> blob \<Rightarrow> blob" where
  "put_commit_entries io c w g program exec_us b =
     (let mem = io_mem io;
          gain = expected_gain (w_parse_us w) exec_us;
          b1 = entry_add_text mem (str ''meta'')
                 (sn 1024 (meta_head w ''archived'' @ str ''opt_ratio='' @ fmt_f6 gain @ [10] @ meta_tail io)) b;
          b2 = entry_add_text mem (str ''path'')
                 (line ''method=ast-treewalk-direct'' @ line ''format=LRA1'' @ line ''pipeline=lex>parse>serialize>exec''
                    @ line ''warm=deserialize>exec'') b1;
          b3 = entry_add_text mem (str ''init'') (init_text g) (entry_add_text mem (str ''config'') (config_text c w) b2);
          b4 = entry_add mem (str ''ast'') (case w_ast w of Some a \<Rightarrow> a | None \<Rightarrow> []) b3;
          b5 = entry_add mem (str ''nodes'') (b_data (snapshot_nodes mem g program (k_snapshot_strings c) empty_blob)) b4;
          b6 = entry_add mem (str ''globals'')
                 (b_data (snapshot_globals mem g (k_baseline c) (k_snapshot_strings c) empty_blob)) b5;
          b7 = entry_add_text mem (str ''state'') (state_text w exec_us gain) b6
      in opt_entry mem (str ''mir'') (w_mir w) (opt_entry mem (str ''bytecode'') (w_bc w) b7))"

definition commit_payload :: "io_env \<Rightarrow> iome_cache \<Rightarrow> iome_writer \<Rightarrow> js_global \<Rightarrow> node_info list \<Rightarrow> int \<Rightarrow> blob" where
  "commit_payload io c w g program exec_us = put_commit_entries io c w g program exec_us empty_blob"

text \<open>The result is 0 (committed), 1 (below the 15% rule) or -1.\<close>

definition lr_iome586_commit ::
  "io_env \<Rightarrow> iome_cache \<Rightarrow> fsys \<Rightarrow> iome_writer \<Rightarrow> js_global \<Rightarrow> node_info list \<Rightarrow> int
    \<Rightarrow> (fsys \<times> iome_cache \<times> iome_writer \<times> int) option" where
  "lr_iome586_commit io c fs w g program exec_us =
     (if \<not> w_active w then Some (fs, c, w, -1)
      else
        (let w1 = w\<lparr>w_active := False\<rparr>; gain = expected_gain (w_parse_us w) exec_us in
         if f64_lt gain MIN_GAIN then
           Some (roll_back io fs w1, c\<lparr>k_skips := k_skips c + 1\<rparr>, w1\<lparr>w_ast := None, w_mir := None\<rparr>, 1)
         else
           (let payload = commit_payload io c w1 g program exec_us;
                w2 = w1\<lparr>w_ast := None, w_bc := None\<rparr>
            in case (if b_error payload then Some (fs, c, False)
                     else write_container io c fs (w_final w1) STATUS_ARCHIVED (w_flags w1) w1 gain (b_data payload)) of
                 None \<Rightarrow> None
               | Some (fs1, c1, ok) \<Rightarrow>
                   if ok then Some (fs1, c1\<lparr>k_stores := k_stores c1 + 1\<rparr>, w2, 0)
                   else Some (roll_back io fs1 w1, c1, w2, -1))))"

definition lr_iome586_set_bytecode :: "(nat \<Rightarrow> bool) \<Rightarrow> iome_writer \<Rightarrow> bytes \<Rightarrow> iome_writer" where
  "lr_iome586_set_bytecode mem w data = (if data = [] then w else w\<lparr>w_bc := (if mem (length data) then Some data else None)\<rparr>)"

definition lr_iome586_set_mir :: "(nat \<Rightarrow> bool) \<Rightarrow> iome_writer \<Rightarrow> bytes \<Rightarrow> iome_writer" where
  "lr_iome586_set_mir mem w data = (if data = [] then w else w\<lparr>w_mir := (if mem (length data) then Some data else None)\<rparr>)"

definition lr_iome586_abort :: "io_env \<Rightarrow> iome_cache \<Rightarrow> fsys \<Rightarrow> iome_writer \<Rightarrow> fsys \<times> iome_cache \<times> iome_writer" where
  "lr_iome586_abort io c fs w =
     (if \<not> w_active w then (fs, c, w)
      else (roll_back io fs w, if w_have_bak w then c\<lparr>k_reverts := k_reverts c + 1\<rparr> else c,
            w\<lparr>w_active := False, w_ast := None, w_bc := None, w_mir := None\<rparr>))"

section \<open>Loading\<close>

record iome_manifest =
  m_container_version :: u32
  m_engine_version :: u32
  m_status :: u32
  m_flags :: u32
  m_created :: u64
  m_hash :: u64
  m_mtime :: u64
  m_size :: u64
  m_ratio :: u64
  m_checksum :: u32
  m_desc :: "bytes option"
  m_meta :: "bytes option"
  m_path :: "bytes option"
  m_config :: "bytes option"
  m_init :: "bytes option"
  m_state :: "bytes option"
  m_ast :: "bytes option"
  m_nodes :: "bytes option"
  m_globals :: "bytes option"
  m_bytecode :: "bytes option"
  m_mir :: "bytes option"

text \<open>The header fields in the order of the file; the last three are the lengths of the stored payload, of the raw payload and of
  the description. Every read is checked against the length of the file, which the code does not do for the last one.\<close>

record iome_header =
  h_container :: u32
  h_engine :: u32
  h_status :: u32
  h_flags :: u32
  h_created :: u64
  h_hash :: u64
  h_mtime :: u64
  h_size :: u64
  h_ratio :: u32
  h_checksum :: u32
  h_stored :: u32
  h_raw :: u32
  h_desc :: u32

datatype iome_error = Iome_overread | Iome_decoder

definition read_header :: "bytes \<Rightarrow> iome_error + iome_header" where
  "read_header d =
     (if length d < 76 then Inl Iome_overread
      else Inr \<lparr>h_container = get_u32 d 8, h_engine = get_u32 d 12, h_status = get_u32 d 16, h_flags = get_u32 d 20,
        h_created = get_u64 d 24, h_hash = get_u64 d 32, h_mtime = get_u64 d 40, h_size = get_u64 d 48,
        h_ratio = get_u32 d 56, h_checksum = get_u32 d 60, h_stored = get_u32 d 64, h_raw = get_u32 d 68, h_desc = get_u32 d 72\<rparr>)"

definition header_manifest :: "iome_header \<Rightarrow> iome_manifest" where
  "header_manifest h = \<lparr>m_container_version = h_container h, m_engine_version = h_engine h, m_status = h_status h,
     m_flags = h_flags h, m_created = h_created h, m_hash = h_hash h, m_mtime = h_mtime h, m_size = h_size h,
     m_ratio = f64_div (f64_of_int (uint (h_ratio h))) 0x412E848000000000, m_checksum = h_checksum h, m_desc = None, m_meta = None,
     m_path = None, m_config = None, m_init = None, m_state = None, m_ast = None, m_nodes = None, m_globals = None,
     m_bytecode = None, m_mir = None\<rparr>"

definition is_stale :: "io_env \<Rightarrow> fsys \<Rightarrow> bytes option \<Rightarrow> bytes \<Rightarrow> iome_header \<Rightarrow> bool" where
  "is_stale io fs script src h \<longleftrightarrow>
     h_container h \<noteq> 1 \<or> h_engine h \<noteq> engine_version_id (io_version io) \<or> h_status h \<noteq> STATUS_ARCHIVED
     \<or> h_hash h \<noteq> lr_iome586_hash64 src \<or> h_size h \<noteq> word_of_nat (length src)
     \<or> (case script of
          Some p \<Rightarrow> take 1 p \<noteq> [0x3C] \<and> h_mtime h \<noteq> 0 \<and> sint (file_mtime fs p) > 0 \<and> file_mtime fs p \<noteq> h_mtime h
        | None \<Rightarrow> False)"

text \<open>\<open>dup_text\<close> and the copies of the binary entries.\<close>

definition dup_text :: "(nat \<Rightarrow> bool) \<Rightarrow> bytes \<Rightarrow> bytes option" where
  "dup_text mem d = (if mem (length d + 1) then Some d else None)"

definition dup_data :: "(nat \<Rightarrow> bool) \<Rightarrow> bytes \<Rightarrow> bytes option" where
  "dup_data mem d = (if mem (if length d \<noteq> 0 then length d else 1) then Some d else None)"

definition manifest_entry :: "(nat \<Rightarrow> bool) \<Rightarrow> bytes \<Rightarrow> bytes \<Rightarrow> iome_manifest \<Rightarrow> iome_manifest" where
  "manifest_entry mem name d mf =
     (if name = str ''meta'' then mf\<lparr>m_meta := dup_text mem d\<rparr>
      else if name = str ''path'' then mf\<lparr>m_path := dup_text mem d\<rparr>
      else if name = str ''config'' then mf\<lparr>m_config := dup_text mem d\<rparr>
      else if name = str ''init'' then mf\<lparr>m_init := dup_text mem d\<rparr>
      else if name = str ''state'' then mf\<lparr>m_state := dup_text mem d\<rparr>
      else if name = str ''ast'' then mf\<lparr>m_ast := dup_data mem d\<rparr>
      else if name = str ''nodes'' then mf\<lparr>m_nodes := dup_data mem d\<rparr>
      else if name = str ''globals'' then mf\<lparr>m_globals := dup_data mem d\<rparr>
      else if name = str ''bytecode'' then mf\<lparr>m_bytecode := dup_data mem d\<rparr>
      else if name = str ''mir'' then mf\<lparr>m_mir := dup_data mem d\<rparr>
      else mf)"

function parse_entries :: "(nat \<Rightarrow> bool) \<Rightarrow> bytes \<Rightarrow> nat \<Rightarrow> iome_manifest \<Rightarrow> iome_manifest" where
  "parse_entries mem raw p mf =
     (if p + 6 \<le> length raw then
        (let nlen = get_u16 raw p; p1 = p + 2 in
         if p1 + nlen + 4 > length raw then mf
         else
           (let name = cstring (take (if nlen < 63 then nlen else 63) (drop p1 raw));
                dlen = unat (get_u32 raw (p1 + nlen));
                p2 = p1 + nlen + 4
            in if p2 + dlen > length raw then mf
               else parse_entries mem raw (p2 + dlen) (manifest_entry mem name (take dlen (drop p2 raw)) mf)))
      else mf)"
  by pat_completeness auto
termination
  by (relation "measure (\<lambda>(mem, raw, p, mf). length raw - p)") auto

declare parse_entries.simps [simp del]

text \<open>The payload: \<open>Inr None\<close> is the jump to \<open>corrupt\<close>.\<close>

definition decode_payload :: "io_env \<Rightarrow> bytes \<Rightarrow> iome_header \<Rightarrow> bytes \<Rightarrow> iome_error + bytes option" where
  "decode_payload io d h src =
     (let start = 76 + unat (h_desc h);
          stored0 = take (unat (h_stored h)) (drop start d);
          stored = (if h_flags h AND FLAG_KEYED \<noteq> 0 then xor_key stored0 (lr_iome586_hash64 src) else stored0)
      in if \<not> io_mem io (if h_stored h \<noteq> 0 then unat (h_stored h) else 1) then Inr None
         else if h_flags h AND FLAG_COMPRESSED \<noteq> 0 then
           (case lr_decompress_if_needed (io_copy io) (io_buf io) stored True of
              Inl e \<Rightarrow> Inl Iome_decoder
            | Inr None \<Rightarrow> Inr None
            | Inr (Some raw) \<Rightarrow>
                if length raw \<noteq> unat (h_raw h) then Inr None
                else if lr_iome586_crc32 raw \<noteq> h_checksum h then Inr None else Inr (Some raw))
         else if lr_iome586_crc32 stored \<noteq> h_checksum h then Inr None else Inr (Some stored))"

datatype verdict = Hit iome_manifest | Miss | Stale | Corrupt

definition examine :: "io_env \<Rightarrow> fsys \<Rightarrow> bytes option \<Rightarrow> bytes \<Rightarrow> bytes \<Rightarrow> iome_error + verdict" where
  "examine io fs script src d =
     (if length d < 72 \<or> take 8 d \<noteq> iome_magic then Inr Corrupt
      else case read_header d of
        Inl e \<Rightarrow> Inl e
      | Inr h \<Rightarrow>
          if is_stale io fs script src h then Inr Stale
          else if 76 + unat (h_desc h) + unat (h_stored h) > length d then Inr Corrupt
          else case decode_payload io d h src of
            Inl e \<Rightarrow> Inl e
          | Inr None \<Rightarrow> Inr Corrupt
          | Inr (Some raw) \<Rightarrow>
              (let desc = take (unat (h_desc h)) (drop 76 d);
                   mf = parse_entries (io_mem io) raw 0 ((header_manifest h)\<lparr>m_desc := dup_text (io_mem io) desc\<rparr>)
               in Inr (if m_ast mf = None then Miss else Hit mf)))"

definition lr_iome586_load ::
  "io_env \<Rightarrow> iome_cache \<Rightarrow> fsys \<Rightarrow> bytes option \<Rightarrow> bytes \<Rightarrow> iome_error + (fsys \<times> iome_cache \<times> iome_manifest option)" where
  "lr_iome586_load io c fs script src =
     (if \<not> k_enabled c \<or> k_dir c = None then Inr (fs, c, None)
      else
        (let nh = script_name_hash script src;
             final = archive_path c nh False;
             path = (if read_all io fs final \<noteq> None then final else archive_path c nh True)
         in case read_all io fs path of
              None \<Rightarrow> Inr (fs, c\<lparr>k_misses := k_misses c + 1\<rparr>, None)
            | Some d \<Rightarrow>
                (case examine io fs script src d of
                   Inl e \<Rightarrow> Inl e
                 | Inr (Hit mf) \<Rightarrow>
                     Inr (fs, c\<lparr>k_hits := k_hits c + 1, k_loaded := k_loaded c + word_of_nat (length d)\<rparr>, Some mf)
                 | Inr Miss \<Rightarrow> Inr (fs, c\<lparr>k_misses := k_misses c + 1\<rparr>, None)
                 | Inr Stale \<Rightarrow>
                     (let (fs1, ok) = move_file io fs path (backup_path c nh)
                      in Inr (if ok then fs1 else remove_file fs1 path, c\<lparr>k_invalid := k_invalid c + 1\<rparr>, None))
                 | Inr Corrupt \<Rightarrow> Inr (remove_file fs path, c\<lparr>k_invalid := k_invalid c + 1\<rparr>, None))))"

section \<open>Maintenance\<close>

definition hash_for_script :: "bytes option \<Rightarrow> u64 option" where
  "hash_for_script script = (case script of Some (x # xs) \<Rightarrow> Some (lr_iome586_hash64 (x # xs)) | _ \<Rightarrow> None)"

definition lr_iome586_revert :: "io_env \<Rightarrow> iome_cache \<Rightarrow> fsys \<Rightarrow> bytes option \<Rightarrow> fsys \<times> iome_cache \<times> bool" where
  "lr_iome586_revert io c fs script =
     (if \<not> k_enabled c \<or> k_dir c = None then (fs, c, False)
      else case hash_for_script script of
        None \<Rightarrow> (fs, c, False)
      | Some hash \<Rightarrow>
          (let bak = backup_path c hash; final = archive_path c hash False in
           if file_exists fs bak then
             (let (fs1, ok) = move_file io fs bak final in (fs1, if ok then c\<lparr>k_reverts := k_reverts c + 1\<rparr> else c, ok))
           else (fs, c, False)))"

definition lr_iome586_invalidate :: "iome_cache \<Rightarrow> fsys \<Rightarrow> bytes option \<Rightarrow> fsys \<times> iome_cache" where
  "lr_iome586_invalidate c fs script =
     (if \<not> k_enabled c \<or> k_dir c = None then (fs, c)
      else case hash_for_script script of
        None \<Rightarrow> (fs, c)
      | Some hash \<Rightarrow>
          (remove_file (remove_file (remove_file fs (archive_path c hash True)) (archive_path c hash False)) (backup_path c hash),
           c\<lparr>k_invalid := k_invalid c + 1\<rparr>))"

section \<open>Reading what was written\<close>

lemma get_u32_at: "take 4 (drop p d) = put_u32 v \<Longrightarrow> get_u32 d p = v"
proof -
  assume t: "take 4 (drop p d) = put_u32 v"
  then have "length (take 4 (drop p d)) = 4" by simp
  then have l: "p \<le> length d" by simp
  have "d = take p d @ put_u32 v @ drop 4 (drop p d)" by (metis append_take_drop_id t)
  then show ?thesis using get_put_u32 [of "take p d" v "drop 4 (drop p d)"] l by simp
qed

lemma get_u64_at: "take 8 (drop p d) = le_bytes 8 v \<Longrightarrow> get_u64 d p = v"
proof -
  assume t: "take 8 (drop p d) = le_bytes 8 v"
  then have "length (take 8 (drop p d)) = 8" by simp
  then have l: "p \<le> length d" by simp
  have "d = take p d @ le_bytes 8 v @ drop 8 (drop p d)" by (metis append_take_drop_id t)
  then show ?thesis using get_u64_le_bytes [of "take p d" v "drop 8 (drop p d)"] l by simp
qed

definition header_bytes :: "u32 \<Rightarrow> u32 \<Rightarrow> u32 \<Rightarrow> iome_writer \<Rightarrow> u32 \<Rightarrow> u32 \<Rightarrow> u32 \<Rightarrow> u32 \<Rightarrow> u32 \<Rightarrow> bytes" where
  "header_bytes engine status flags w ratio crc stored_len raw_len desc_len =
     iome_magic @ put_u32 1 @ put_u32 engine @ put_u32 status @ put_u32 flags @ le_bytes 8 (w_created w) @ le_bytes 8 (w_hash w)
     @ le_bytes 8 (w_mtime w) @ le_bytes 8 (w_src_size w) @ put_u32 ratio @ put_u32 crc @ put_u32 stored_len @ put_u32 raw_len
     @ put_u32 desc_len"

lemma iome_magic_length [simp]: "length iome_magic = 8"
  by (simp add: iome_magic_def str_def)

lemma length_header_bytes [simp]: "length (header_bytes e s f w r c sl rl dl) = 76"
  by (simp add: header_bytes_def)

lemma puts_after:
  "puts f xs \<Longrightarrow> puts (\<lambda>b. blob_u32 mem v (f b)) (xs @ put_u32 v)"
  "puts f xs \<Longrightarrow> puts (\<lambda>b. blob_u64 mem d (f b)) (xs @ le_bytes 8 d)"
  "puts f xs \<Longrightarrow> puts (\<lambda>b. blob_put mem ys (f b)) (xs @ ys)"
  by (auto intro: puts_comp puts_rules)

lemma puts_header: "puts (put_header mem e s f w r c sl rl dl) (header_bytes e s f w r c sl rl dl)"
proof -
  have "puts (put_header mem e s f w r c sl rl dl)
     (((((((((((((iome_magic @ put_u32 1) @ put_u32 e) @ put_u32 s) @ put_u32 f) @ le_bytes 8 (w_created w)) @ le_bytes 8 (w_hash w))
       @ le_bytes 8 (w_mtime w)) @ le_bytes 8 (w_src_size w)) @ put_u32 r) @ put_u32 c) @ put_u32 sl) @ put_u32 rl) @ put_u32 dl)"
    unfolding put_header_def [abs_def] by (intro puts_after puts_put)
  then show ?thesis by (simp add: header_bytes_def)
qed

definition written_header :: "io_env \<Rightarrow> u32 \<Rightarrow> u32 \<Rightarrow> iome_writer \<Rightarrow> u32 \<Rightarrow> bytes \<Rightarrow> bytes \<Rightarrow> iome_header" where
  "written_header io status flags w ratio payload stored =
     \<lparr>h_container = 1, h_engine = engine_version_id (io_version io), h_status = status, h_flags = flags, h_created = w_created w,
      h_hash = w_hash w, h_mtime = w_mtime w, h_size = w_src_size w, h_ratio = ratio, h_checksum = lr_iome586_crc32 payload,
      h_stored = word_of_nat (length stored), h_raw = word_of_nat (length payload), h_desc = word_of_nat (length (desc_text io w))\<rparr>"

definition container_bytes :: "io_env \<Rightarrow> u32 \<Rightarrow> u32 \<Rightarrow> iome_writer \<Rightarrow> u32 \<Rightarrow> bytes \<Rightarrow> bytes \<Rightarrow> bytes" where
  "container_bytes io status flags w ratio payload stored =
     header_bytes (engine_version_id (io_version io)) status flags w ratio (lr_iome586_crc32 payload) (word_of_nat (length stored))
       (word_of_nat (length payload)) (word_of_nat (length (desc_text io w))) @ desc_text io w @ stored"

lemma read_header_container:
  "read_header (container_bytes io status flags w ratio payload stored) = Inr (written_header io status flags w ratio payload stored)"
  unfolding read_header_def written_header_def
  by (simp add: container_bytes_def, intro conjI get_u32_at get_u64_at) (simp_all add: header_bytes_def)

text \<open>An operating system and a heap that never fail.\<close>

definition io_good :: "io_env \<Rightarrow> bool" where
  "io_good io \<longleftrightarrow> (\<forall>n. io_mem io n) \<and> (\<forall>p d. io_write io p d = Some (length d, length d)) \<and> (\<forall>a b. io_rename io a b) \<and> io_copy io \<and> io_buf io"

definition same_place :: "iome_cache \<Rightarrow> iome_cache \<Rightarrow> bool" where
  "same_place c c1 \<longleftrightarrow> k_dir c1 = k_dir c \<and> k_enabled c1 = k_enabled c \<and> k_baseline c1 = k_baseline c
     \<and> k_snapshot_strings c1 = k_snapshot_strings c \<and> k_runtime c1 = k_runtime c \<and> k_compression c1 = k_compression c"

lemma desc_text_length: "length (desc_text io w) \<le> 767"
  by (simp add: desc_text_def sn_def)

lemma store_payload_good:
  assumes "io_good io" "length payload < 2 ^ 31"
  shows "\<exists>stored was. store_payload io c payload = Some (Some (stored, was)) \<and> (\<not> was \<longrightarrow> stored = payload)
    \<and> length stored < 2 ^ 32 \<and> (was \<longrightarrow> lr_decompress_if_needed (io_copy io) (io_buf io) stored True = Inr (Some payload))"
proof -
  have g: "io_copy io" "io_buf io" "\<And>n. io_mem io n" using assms(1) by (simp_all add: io_good_def)
  obtain buf was n where b: "lr_compress_if_beneficial True True (io_table io) over_090 payload = Some (Some buf, was, n)"
      "lr_decompress_if_needed True True buf was = Inr (Some payload)" "\<not> was \<longrightarrow> buf = payload"
      "length buf \<le> LR_LZ4_COMPRESS_BOUND (length payload) + 4"
    using compress_wrapper_ok [OF assms(2), of True "io_table io" over_090] by blast
  have l: "length buf < 2 ^ 32" using b(4) assms(2) by (simp add: LR_LZ4_COMPRESS_BOUND_def)
  show ?thesis
  proof (cases "k_compression c \<and> length payload > 256")
    case True
    then have "store_payload io c payload = Some (Some (buf, was))" using b(1) g by (simp add: store_payload_def)
    then show ?thesis using b(2,3) l g by auto
  next
    case False
    then show ?thesis using g assms(2) by (auto simp: store_payload_def)
  qed
qed

lemma blob_put_error [simp]: "\<forall>n. mem n \<Longrightarrow> b_error (blob_put mem xs b) = b_error b"
  by (simp add: grow_cap_mem)

lemma blob_int_error [simp]:
  "\<forall>n. mem n \<Longrightarrow> b_error (blob_u8 mem v b) = b_error b" "\<forall>n. mem n \<Longrightarrow> b_error (blob_u16 mem k b) = b_error b"
  "\<forall>n. mem n \<Longrightarrow> b_error (blob_u32 mem w b) = b_error b" "\<forall>n. mem n \<Longrightarrow> b_error (blob_u64 mem d b) = b_error b"
  by (simp_all add: blob_u8_def blob_u16_def blob_u32_def blob_u64_def)

lemma entry_error [simp]:
  "\<forall>n. mem n \<Longrightarrow> b_error (entry_add mem name data b) = b_error b"
  "\<forall>n. mem n \<Longrightarrow> b_error (entry_add_text mem name text b) = b_error b"
  "\<forall>n. mem n \<Longrightarrow> b_error (opt_entry mem name od b) = b_error b"
  by (simp_all add: entry_add_def entry_add_text_def opt_entry_def Let_def split: option.split list.split)

lemma write_container_good:
  assumes "io_good io" "length payload < 2 ^ 31"
  shows "\<exists>stored was c1. write_container io c fs path status flags w ratio payload
      = Some (fs(path \<mapsto> (container_bytes io status (if was then flags OR 4 else flags) w (ratio_u32 ratio) payload stored, io_now io)), c1, True)
    \<and> same_place c c1 \<and> (\<not> was \<longrightarrow> stored = payload) \<and> length stored < 2 ^ 32
    \<and> (was \<longrightarrow> lr_decompress_if_needed (io_copy io) (io_buf io) stored True = Inr (Some payload))"
proof -
  have g: "\<forall>n. io_mem io n" "\<And>p d. io_write io p d = Some (length d, length d)" using assms(1) by (simp_all add: io_good_def)
  obtain stored was where s: "store_payload io c payload = Some (Some (stored, was))" "\<not> was \<longrightarrow> stored = payload" "length stored < 2 ^ 32"
      "was \<longrightarrow> lr_decompress_if_needed (io_copy io) (io_buf io) stored True = Inr (Some payload)"
    using store_payload_good [OF assms] by blast
  let ?fl = "if was then flags OR 4 else flags"
  let ?f = "blob_put (io_mem io) stored (blob_put (io_mem io) (desc_text io w)
       (put_header (io_mem io) (engine_version_id (io_version io)) status ?fl w (ratio_u32 ratio)
          (lr_iome586_crc32 payload) (word_of_nat (length stored)) (word_of_nat (length payload))
          (word_of_nat (length (desc_text io w))) empty_blob))"
  have e: "\<not> b_error ?f" using g(1) by (simp add: put_header_def) (simp add: empty_blob_def)
  have "puts (\<lambda>b. blob_put (io_mem io) stored (blob_put (io_mem io) (desc_text io w)
       (put_header (io_mem io) (engine_version_id (io_version io)) status ?fl w (ratio_u32 ratio)
          (lr_iome586_crc32 payload) (word_of_nat (length stored)) (word_of_nat (length payload))
          (word_of_nat (length (desc_text io w))) b)))
     ((header_bytes (engine_version_id (io_version io)) status ?fl w (ratio_u32 ratio)
          (lr_iome586_crc32 payload) (word_of_nat (length stored)) (word_of_nat (length payload))
          (word_of_nat (length (desc_text io w))) @ desc_text io w) @ stored)"
    by (intro puts_after puts_header)
  then have d: "b_data ?f = container_bytes io status ?fl w (ratio_u32 ratio) payload stored"
    using e by (simp add: puts_def container_bytes_def empty_blob_def)
  let ?c = "if was then c\<lparr>k_saved := k_saved c + word_of_nat (length payload) - word_of_nat (length stored)\<rparr> else c"
  let ?c1 = "?c\<lparr>k_stored := k_stored ?c + word_of_nat (length (b_data ?f))\<rparr>"
  have "write_container io c fs path status flags w ratio payload
      = Some (fs(path \<mapsto> (container_bytes io status ?fl w (ratio_u32 ratio) payload stored, io_now io)), ?c1, True)"
    unfolding write_container_def s(1) Let_def write_all_def g(2) by (simp only: e d option.case prod.case) simp
  moreover have "same_place c ?c1" by (simp add: same_place_def)
  ultimately show ?thesis using s(2-4) by blast
qed

section \<open>Entries\<close>

definition entry_ok :: "bytes \<times> bytes \<Rightarrow> bool" where
  "entry_ok e \<longleftrightarrow> length (fst e) \<le> 62 \<and> 0 \<notin> set (fst e) \<and> length (snd e) < 2 ^ 32"

definition stream :: "(bytes \<times> bytes) list \<Rightarrow> bytes" where
  "stream es = concat (map (\<lambda>(n, d). entry_bytes n d) es)"

lemma parse_entry:
  assumes "entry_ok (name, data)"
  shows "parse_entries mem (pre @ entry_bytes name data @ post) (length pre) mf
    = parse_entries mem (pre @ entry_bytes name data @ post) (length (pre @ entry_bytes name data)) (manifest_entry mem name data mf)"
proof -
  let ?raw = "pre @ entry_bytes name data @ post"
  have raw: "?raw = pre @ put_u16 (int (length name)) @ name @ put_u32 (word_of_nat (length data)) @ data @ post"
    by (simp add: entry_bytes_def)
  have n: "length name \<le> 62" "cstring name = name" "unat (word_of_nat (length data) :: u32) = length data"
    using assms by (simp_all add: entry_ok_def cstring_id unat_of_nat)
  have l2: "length (put_u16 v) = 2" for v by (simp add: put_u16_def)
  have a: "get_u16 ?raw (length pre) = length name"
    unfolding raw using get_u16_put [of "int (length name)" "length pre" pre] n(1) by simp
  have b: "get_u32 ?raw (length pre + 2 + length name) = word_of_nat (length data)"
    using get_put_u32 [of "pre @ put_u16 (int (length name)) @ name" "word_of_nat (length data)" "data @ post"]
    unfolding raw by (simp add: l2 add.assoc)
  have c: "cstring (take (if length name < 63 then length name else 63) (drop (length pre + 2) ?raw)) = name"
    unfolding raw using n(1,2) by (simp add: l2)
  have d: "take (length data) (drop (length pre + 2 + length name + 4) ?raw) = data"
    unfolding raw by (simp add: l2)
  have e: "length ?raw = length pre + 6 + length name + length data + length post" "length (entry_bytes name data) = 6 + length name + length data"
    by (simp_all add: entry_bytes_def l2)
  show ?thesis
    unfolding parse_entries.simps [of mem ?raw "length pre" mf] Let_def a b c n(3) d
    by (simp add: e) (simp add: add.commute add.left_commute)
qed

lemma parse_stream:
  "list_all entry_ok es \<Longrightarrow> parse_entries mem (pre @ stream es) (length pre) mf = fold (\<lambda>(n, d). manifest_entry mem n d) es mf"
proof (induction es arbitrary: pre mf)
  case Nil
  then show ?case by (simp add: stream_def parse_entries.simps)
next
  case (Cons e es)
  obtain n d where e: "e = (n, d)" by fastforce
  have "stream (e # es) = entry_bytes n d @ stream es" by (simp add: stream_def e)
  then show ?case
    using parse_entry [of n d mem pre "stream es" mf] Cons.IH [of "pre @ entry_bytes n d" "manifest_entry mem n d mf"] Cons.prems
    by (simp add: e)
qed

text \<open>The entries of a committed archive.\<close>

definition opt_entries :: "bytes \<Rightarrow> bytes option \<Rightarrow> (bytes \<times> bytes) list" where
  "opt_entries name data = (case data of Some (x # xs) \<Rightarrow> [(name, x # xs)] | _ \<Rightarrow> [])"

definition meta_text :: "io_env \<Rightarrow> iome_writer \<Rightarrow> u64 \<Rightarrow> bytes" where
  "meta_text io w gain = cstring (sn 1024 (meta_head w ''archived'' @ str ''opt_ratio='' @ fmt_f6 gain @ [10] @ meta_tail io))"

definition path_text :: bytes where
  "path_text = cstring (line ''method=ast-treewalk-direct'' @ line ''format=LRA1'' @ line ''pipeline=lex>parse>serialize>exec''
     @ line ''warm=deserialize>exec'')"

definition commit_entries :: "io_env \<Rightarrow> iome_cache \<Rightarrow> iome_writer \<Rightarrow> js_global \<Rightarrow> node_info list \<Rightarrow> int \<Rightarrow> (bytes \<times> bytes) list" where
  "commit_entries io c w g program exec_us =
     [(str ''meta'', meta_text io w (expected_gain (w_parse_us w) exec_us)), (str ''path'', path_text),
      (str ''config'', cstring (config_text c w)), (str ''init'', cstring (init_text g)),
      (str ''ast'', case w_ast w of Some a \<Rightarrow> a | None \<Rightarrow> []),
      (str ''nodes'', b_data (snapshot_nodes (io_mem io) g program (k_snapshot_strings c) empty_blob)),
      (str ''globals'', b_data (snapshot_globals (io_mem io) g (k_baseline c) (k_snapshot_strings c) empty_blob)),
      (str ''state'', cstring (state_text w exec_us (expected_gain (w_parse_us w) exec_us)))]
     @ opt_entries (str ''bytecode'') (w_bc w) @ opt_entries (str ''mir'') (w_mir w)"

lemma puts_entries:
  "puts f xs \<Longrightarrow> puts (\<lambda>b. entry_add mem n d (f b)) (xs @ entry_bytes n d)"
  "puts f xs \<Longrightarrow> puts (\<lambda>b. entry_add_text mem n t (f b)) (xs @ entry_bytes n (cstring t))"
  "puts f xs \<Longrightarrow> puts (\<lambda>b. opt_entry mem n od (f b)) (xs @ stream (opt_entries n od))"
proof -
  show "puts f xs \<Longrightarrow> puts (\<lambda>b. entry_add mem n d (f b)) (xs @ entry_bytes n d)" for d by (intro puts_comp puts_rules)
  moreover show "puts f xs \<Longrightarrow> puts (\<lambda>b. entry_add_text mem n t (f b)) (xs @ entry_bytes n (cstring t))" by (intro puts_comp puts_rules)
  ultimately show "puts f xs \<Longrightarrow> puts (\<lambda>b. opt_entry mem n od (f b)) (xs @ stream (opt_entries n od))"
    by (auto simp: opt_entry_def opt_entries_def stream_def split: option.split list.split)
qed

lemma puts_stream:
  "puts f (stream es) \<Longrightarrow> puts (\<lambda>b. entry_add mem n d (f b)) (stream (es @ [(n, d)]))"
  "puts f (stream es) \<Longrightarrow> puts (\<lambda>b. entry_add_text mem n t (f b)) (stream (es @ [(n, cstring t)]))"
  "puts f (stream es) \<Longrightarrow> puts (\<lambda>b. opt_entry mem n od (f b)) (stream (es @ opt_entries n od))"
  using puts_entries [of f "stream es"] by (simp_all add: stream_def)

lemma puts_commit: "puts (put_commit_entries io c w g program exec_us) (stream (commit_entries io c w g program exec_us))"
proof -
  let ?gain = "expected_gain (w_parse_us w) exec_us"
  have "puts (\<lambda>b. b) (stream [])" by (simp add: stream_def puts_id)
  have "commit_entries io c w g program exec_us =
      (((((((((([] @ [(str ''meta'', meta_text io w ?gain)]) @ [(str ''path'', path_text)]) @ [(str ''config'', cstring (config_text c w))])
      @ [(str ''init'', cstring (init_text g))]) @ [(str ''ast'', case w_ast w of Some a \<Rightarrow> a | None \<Rightarrow> [])])
      @ [(str ''nodes'', b_data (snapshot_nodes (io_mem io) g program (k_snapshot_strings c) empty_blob))])
      @ [(str ''globals'', b_data (snapshot_globals (io_mem io) g (k_baseline c) (k_snapshot_strings c) empty_blob))])
      @ [(str ''state'', cstring (state_text w exec_us ?gain))]) @ opt_entries (str ''bytecode'') (w_bc w)) @ opt_entries (str ''mir'') (w_mir w))"
    by (simp add: commit_entries_def)
  moreover have "puts (put_commit_entries io c w g program exec_us) (stream \<dots>)"
    unfolding put_commit_entries_def [abs_def] Let_def meta_text_def path_text_def by (intro puts_stream) fact
  ultimately show ?thesis by simp
qed

lemma commit_payload_good:
  assumes "\<forall>n. io_mem io n"
  shows "\<not> b_error (commit_payload io c w g program exec_us)"
    and "b_data (commit_payload io c w g program exec_us) = stream (commit_entries io c w g program exec_us)"
proof -
  show e: "\<not> b_error (commit_payload io c w g program exec_us)"
    using assms by (simp add: commit_payload_def put_commit_entries_def Let_def) (simp add: empty_blob_def)
  have "b_data empty_blob = []" by (simp add: empty_blob_def)
  then show "b_data (commit_payload io c w g program exec_us) = stream (commit_entries io c w g program exec_us)"
    using puts_commit [of io c w g program exec_us] e by (simp add: puts_def commit_payload_def)
qed

section \<open>Paths\<close>

lemma str_append: "str (a @ b) = str a @ str b"
  by (simp add: str_def)

lemma length_hex16 [simp]: "length (hex16 h) = 16"
  by (simp add: hex16_def)

lemma paths:
  assumes "k_dir c = Some d" "length d \<le> 4000"
  shows "archive_path c h False = d @ str ''/'' @ hex16 h @ str ''.lrfile''"
    and "archive_path c h True = d @ str ''/'' @ hex16 h @ str ''.lrfile'' @ str ''.lz4''"
    and "backup_path c h = d @ str ''/'' @ hex16 h @ str ''.lrfile'' @ str ''.bak''"
  using assms by (simp_all add: archive_path_def backup_path_def sn_def str_def)

lemma paths_distinct:
  assumes "k_dir c = Some d" "length d \<le> 4000"
  shows "archive_path c h False \<noteq> backup_path c h" "archive_path c h True \<noteq> backup_path c h" "archive_path c h False \<noteq> archive_path c h True"
  unfolding paths [OF assms] by (simp_all add: str_def)

section \<open>The life of an archive\<close>

lemma examine_written:
  assumes "io_good io" "length stored < 2 ^ 32" "\<not> was \<longrightarrow> stored = payload"
    "was \<longrightarrow> lr_decompress_if_needed (io_copy io) (io_buf io) stored True = Inr (Some payload)" "length payload < 2 ^ 31"
    "flags AND FLAG_COMPRESSED = 0 \<and> flags AND FLAG_KEYED = 0" "w_hash w = lr_iome586_hash64 src" "w_src_size w = word_of_nat (length src)"
    "\<And>p. script = Some p \<Longrightarrow> take 1 p \<noteq> [0x3C] \<Longrightarrow> w_mtime w = file_mtime fs p"
  shows "\<exists>h. examine io fs script src (container_bytes io STATUS_ARCHIVED (if was then flags OR 4 else flags) w r payload stored)
    = Inr (let mf = parse_entries (io_mem io) payload 0 h in if m_ast mf = None then Miss else Hit mf)
    \<and> m_hash h = lr_iome586_hash64 src \<and> m_status h = STATUS_ARCHIVED \<and> m_ast h = None \<and> m_bytecode h = None"
proof -
  let ?d = "container_bytes io STATUS_ARCHIVED (if was then flags OR 4 else flags) w r payload stored"
  let ?h = "written_header io STATUS_ARCHIVED (if was then flags OR 4 else flags) w r payload stored"
  have g: "\<And>n. io_mem io n" using assms(1) by (simp add: io_good_def)
  have fl: "flags AND 4 = 0" "flags AND 8 = 0" using assms(6) by simp_all
  have kd: "(if was then flags OR 4 else flags) AND 8 = 0" using fl(2) by (simp add: bit.conj_disj_distrib2)
  have cp: "((if was then flags OR 4 else flags) AND 4 \<noteq> 0) = was" using fl(1) by (simp add: bit.conj_disj_distrib2)
  have hdr: "read_header ?d = Inr ?h" by (rule read_header_container)
  have n: "unat (h_desc ?h) = length (desc_text io w)" "unat (h_stored ?h) = length stored" "unat (h_raw ?h) = length payload"
    using desc_text_length [of io w] assms(2,5) by (simp_all add: written_header_def unat_of_nat)
  have body: "drop 76 ?d = desc_text io w @ stored" by (simp add: container_bytes_def)
  have st: "take (length stored) (drop (76 + length (desc_text io w)) ?d) = stored"
    unfolding add.commute [of 76] drop_drop [symmetric] body by simp
  have dec: "decode_payload io ?d ?h src = Inr (Some payload)"
    unfolding decode_payload_def Let_def n st using kd cp assms(3,4) g by (auto simp: written_header_def unat_of_nat)
  have len: "length ?d = 76 + length (desc_text io w) + length stored" by (simp add: container_bytes_def)
  have magic: "take 8 ?d = iome_magic" by (simp add: container_bytes_def header_bytes_def)
  have fresh: "\<not> is_stale io fs script src ?h"
    using assms(7-9) by (auto simp: is_stale_def written_header_def split: option.split)
  show ?thesis
    by (rule exI [of _ "(header_manifest ?h)\<lparr>m_desc := dup_text (io_mem io) (take (unat (h_desc ?h)) (drop 76 ?d))\<rparr>"],
        simp add: examine_def magic hdr fresh dec n len Let_def,
        simp add: header_manifest_def written_header_def assms(7))
qed

lemma begin_good:
  assumes "io_good io" "k_enabled c" "k_dir c = Some d" "length d \<le> 4000" "length ast < 2 ^ 30"
  shows "\<exists>fs1 c1 stored was. lr_iome586_begin io c fs script src (Some ast) flags parse_us = Some
      (fs1, c1, (new_writer io c fs script src ast flags parse_us)\<lparr>w_have_bak := snd (keep_backup io fs
          (archive_path c (script_name_hash script src) False) (archive_path c (script_name_hash script src) True)
          (backup_path c (script_name_hash script src))), w_active := True\<rparr>, True)
    \<and> same_place c c1
    \<and> (\<exists>w0 p0. fs1 = (fst (keep_backup io fs (archive_path c (script_name_hash script src) False)
        (archive_path c (script_name_hash script src) True) (backup_path c (script_name_hash script src))))
        (archive_path c (script_name_hash script src) False \<mapsto> (container_bytes io STATUS_WRITING (if was then flags OR 4 else flags) w0 (ratio_u32 0) p0 stored, io_now io)))"
proof -
  let ?nh = "script_name_hash script src"
  let ?w = "new_writer io c fs script src ast flags parse_us"
  let ?kb = "keep_backup io fs (archive_path c ?nh False) (archive_path c ?nh True) (backup_path c ?nh)"
  let ?w1 = "?w\<lparr>w_have_bak := snd ?kb\<rparr>"
  have mem: "\<forall>n. io_mem io n" using assms(1) by (simp add: io_good_def)
  let ?es = "[(str ''meta'', cstring (sn 1024 (meta_head ?w1 ''writing'' @ meta_tail io))),
      (str ''path'', cstring (line ''method=ast-treewalk-direct'' @ line ''format=LRA1'' @ line ''pipeline=lex>parse>serialize>exec'')),
      (str ''ast'', ast)]"
  have e: "\<not> b_error (begin_payload io ?w1 ast)" using mem by (simp add: begin_payload_def) (simp add: empty_blob_def)
  have id: "puts (\<lambda>b. b) (stream [])" by (simp add: stream_def puts_id)
  have "puts (\<lambda>b. entry_add (io_mem io) (str ''ast'') ast
       (entry_add_text (io_mem io) (str ''path'')
          (line ''method=ast-treewalk-direct'' @ line ''format=LRA1'' @ line ''pipeline=lex>parse>serialize>exec'')
          (entry_add_text (io_mem io) (str ''meta'') (sn 1024 (meta_head ?w1 ''writing'' @ meta_tail io)) b))) (stream ((([] @ [?es ! 0]) @ [?es ! 1]) @ [?es ! 2]))"
    by (simp only: nth_Cons_0 nth_Cons_Suc One_nat_def numeral_2_eq_2) (intro puts_stream id)
  then have "b_data (begin_payload io ?w1 ast) = stream ?es"
    using e by (simp add: puts_def begin_payload_def) (simp add: empty_blob_def)
  moreover have "length (cstring s) \<le> length s" for s by (simp add: cstring_def length_takeWhile_le)
  then have cs: "length (cstring (sn 1024 s)) \<le> 1023" "length (cstring (line ''method=ast-treewalk-direct'' @ line ''format=LRA1''
      @ line ''pipeline=lex>parse>serialize>exec'')) \<le> 100" for s
    by (rule order_trans, simp add: sn_def line_def str_def)+
  have "length (stream [(x, a), (y, b), (z, d)]) = 18 + length x + length a + length y + length b + length z + length d" for x a y b z d
    by (simp add: stream_def entry_bytes_def put_u16_def)
  then have "length (stream ?es) < 2 ^ 31"
    using assms(5) cs(1) [of "meta_head ?w1 ''writing'' @ meta_tail io"] cs(2) by (simp add: str_def)
  ultimately have p: "length (b_data (begin_payload io ?w1 ast)) < 2 ^ 31" by simp
  from write_container_good [OF assms(1) p, of c "fst ?kb" "w_final ?w1" STATUS_WRITING flags ?w1 0]
  obtain stored was c1 where wc: "write_container io c (fst ?kb) (w_final ?w1) STATUS_WRITING flags ?w1 0 (b_data (begin_payload io ?w1 ast))
      = Some ((fst ?kb)(w_final ?w1 \<mapsto> (container_bytes io STATUS_WRITING (if was then flags OR 4 else flags) ?w1 (ratio_u32 0)
          (b_data (begin_payload io ?w1 ast)) stored, io_now io)), c1, True)" "same_place c c1"
    by blast
  have fin: "w_final ?w1 = archive_path c ?nh False" "w_bak ?w = backup_path c ?nh" "w_final ?w = archive_path c ?nh False"
    by (simp_all add: new_writer_def Let_def)
  have "lr_iome586_begin io c fs script src (Some ast) flags parse_us = Some
      ((fst ?kb)(archive_path c ?nh False \<mapsto> (container_bytes io STATUS_WRITING (if was then flags OR 4 else flags) ?w1 (ratio_u32 0)
          (b_data (begin_payload io ?w1 ast)) stored, io_now io)), c1, ?w1\<lparr>w_active := True\<rparr>, True)"
    using wc(1) e assms(2,3) unfolding lr_iome586_begin_def by (simp add: Let_def split_beta fin)
  then show ?thesis using wc(2) by blast
qed

lemma keep_backup_other: "p \<notin> {final, alt, bak} \<Longrightarrow> fst (keep_backup io fs final alt bak) p = fs p"
  by (auto simp: keep_backup_def move_file_def remove_file_def Let_def split: option.split)

lemma entry_length: "e \<in> set es \<Longrightarrow> length (snd e) \<le> length (stream es)"
  by (induction es) (auto simp: stream_def entry_bytes_def)

lemma commit_entries_ok:
  assumes "length (stream (commit_entries io c w g program exec_us)) < 2 ^ 31"
  shows "list_all entry_ok (commit_entries io c w g program exec_us)"
  unfolding list_all_iff
proof
  fix e
  assume e: "e \<in> set (commit_entries io c w g program exec_us)"
  then have "length (snd e) < 2 ^ 32" using entry_length [OF e] assms by simp
  moreover have "fst e \<in> str ` {''meta'', ''path'', ''config'', ''init'', ''ast'', ''nodes'', ''globals'', ''state'', ''bytecode'', ''mir''}"
    using e by (auto simp: commit_entries_def opt_entries_def split: option.splits list.splits)
  then have "length (fst e) \<le> 62 \<and> 0 \<notin> set (fst e)" by (auto simp: str_def)
  ultimately show "entry_ok e" by (simp add: entry_ok_def)
qed

lemma commit_fields:
  fixes io c w g program exec_us h
  assumes "\<forall>n. mem n" "m_bytecode h = None"
  defines "mf \<equiv> fold (\<lambda>(n, d). manifest_entry mem n d) (commit_entries io c w g program exec_us) h"
  shows "m_ast mf = Some (case w_ast w of Some a \<Rightarrow> a | None \<Rightarrow> [])" "m_hash mf = m_hash h" "m_status mf = m_status h"
    "m_bytecode mf = (if w_bc w = Some [] then None else w_bc w)"
    "m_globals mf = Some (b_data (snapshot_globals (io_mem io) g (k_baseline c) (k_snapshot_strings c) empty_blob))"
  using assms(1,2) unfolding mf_def
  by (auto simp: commit_entries_def opt_entries_def manifest_entry_def str_def dup_text_def dup_data_def split: option.split list.split)

lemma stream_simps: "stream [] = []" "stream (e # es) = entry_bytes (fst e) (snd e) @ stream es" "stream (es @ es') = stream es @ stream es'"
  "length (entry_bytes n x) = 6 + length n + length x"
  by (simp_all add: stream_def entry_bytes_def put_u16_def split_beta)

lemma sn_length: "length (cstring (sn k s)) \<le> k - 1"
proof -
  have "length (cstring (sn k s)) \<le> length (sn k s)" by (simp add: cstring_def length_takeWhile_le)
  then show ?thesis by (rule order_trans) (simp add: sn_def)
qed

lemma commit_length:
  assumes "w_mir w = None"
  shows "length (stream (commit_entries io c w g program exec_us))
    \<le> 3000 + length (case w_ast w of Some a \<Rightarrow> a | None \<Rightarrow> []) + length (case w_bc w of Some b \<Rightarrow> b | None \<Rightarrow> [])
      + length (b_data (snapshot_nodes (io_mem io) g program (k_snapshot_strings c) empty_blob))
      + length (b_data (snapshot_globals (io_mem io) g (k_baseline c) (k_snapshot_strings c) empty_blob))"
proof -
  let ?g = "expected_gain (w_parse_us w) exec_us"
  have m: "length (meta_text io w ?g) \<le> 1023" using sn_length [of 1024] by (simp add: meta_text_def)
  have p: "length path_text \<le> 120"
    unfolding path_text_def cstring_def by (rule order_trans [OF length_takeWhile_le]) (simp add: line_def str_def)
  have t: "length (cstring (config_text c w)) \<le> 511" "length (cstring (init_text g)) \<le> 511" "length (cstring (state_text w exec_us ?g)) \<le> 511"
    using sn_length [of 512] by (simp_all add: config_text_def init_text_def state_text_def)
  have o: "length (stream (opt_entries (str ''bytecode'') (w_bc w))) \<le> 14 + length (case w_bc w of Some b \<Rightarrow> b | None \<Rightarrow> [])"
    by (auto simp: opt_entries_def stream_simps str_def split: option.split list.split)
  have n: "length (str ''meta'') = 4" "length (str ''path'') = 4" "length (str ''config'') = 6" "length (str ''init'') = 4"
    "length (str ''ast'') = 3" "length (str ''nodes'') = 5" "length (str ''globals'') = 7" "length (str ''state'') = 5"
    by (simp_all add: str_def)
  have "opt_entries (str ''mir'') (w_mir w) = []" using assms by (simp add: opt_entries_def)
  then show ?thesis using m p t o by (simp add: commit_entries_def stream_simps n)
qed

lemma commit_then_load:
  assumes "io_good io" "k_enabled c" "k_dir c = Some d" "length d \<le> 4000"
    "flags AND FLAG_COMPRESSED = 0 \<and> flags AND FLAG_KEYED = 0"
    "lr_iome586_begin io c fs script src (Some ast) flags parse_us = Some (fs1, c1, w, True)"
    "\<not> f64_lt (expected_gain parse_us exec_us) MIN_GAIN"
    "length ast + length bc + length (b_data (snapshot_nodes (io_mem io) g program (k_snapshot_strings c) empty_blob))
      + length (b_data (snapshot_globals (io_mem io) g (k_baseline c) (k_snapshot_strings c) empty_blob)) < 2 ^ 30"
    "\<And>p. script = Some p \<Longrightarrow> p \<notin> {archive_path c (script_name_hash script src) False, archive_path c (script_name_hash script src) True,
       backup_path c (script_name_hash script src)}"
  shows "\<exists>fs2 c2 w2 c3 mf. lr_iome586_commit io c1 fs1 (lr_iome586_set_bytecode (io_mem io) w bc) g program exec_us = Some (fs2, c2, w2, 0)
    \<and> lr_iome586_load io c2 fs2 script src = Inr (fs2, c3, Some mf)
    \<and> m_ast mf = Some ast \<and> m_bytecode mf = (if bc = [] then None else Some bc)
    \<and> m_globals mf = Some (b_data (snapshot_globals (io_mem io) g (k_baseline c) (k_snapshot_strings c) empty_blob))
    \<and> m_hash mf = lr_iome586_hash64 src \<and> m_status mf = STATUS_ARCHIVED"
proof -
  let ?nh = "script_name_hash script src"
  let ?f = "archive_path c ?nh False" and ?a = "archive_path c ?nh True" and ?b = "backup_path c ?nh"
  let ?kb = "keep_backup io fs ?f ?a ?b"
  have mem: "\<forall>n. io_mem io n" using assms(1) by (simp add: io_good_def)
  have ast: "length ast < 2 ^ 30" using assms(8) by simp
  obtain x where b: "w = (new_writer io c fs script src ast flags parse_us)\<lparr>w_have_bak := snd ?kb, w_active := True\<rparr>"
      "same_place c c1" "fs1 = (fst ?kb)(?f \<mapsto> x)"
    using begin_good [OF assms(1-4) ast, of fs script src flags parse_us] assms(6) by auto
  let ?w = "lr_iome586_set_bytecode (io_mem io) w bc"
  let ?w1 = "?w\<lparr>w_active := False\<rparr>"
  let ?P = "b_data (commit_payload io c1 ?w1 g program exec_us)"
  have w: "w_active ?w" "w_parse_us ?w = parse_us" "w_final ?w1 = ?f" "w_hash ?w1 = lr_iome586_hash64 src" "w_ast ?w1 = Some ast"
    "w_src_size ?w1 = word_of_nat (length src)" "w_mtime ?w1 = script_mtime fs script" "w_flags ?w1 = flags"
    "w_bc ?w1 = (if bc = [] then None else Some bc)"
    using mem by (simp_all add: lr_iome586_set_bytecode_def b(1) new_writer_def zero_writer_def Let_def)
  have P: "\<not> b_error (commit_payload io c1 ?w1 g program exec_us)" "?P = stream (commit_entries io c1 ?w1 g program exec_us)"
    using commit_payload_good [OF mem] by blast+
  have "w_mir ?w1 = None" by (simp add: lr_iome586_set_bytecode_def b(1) new_writer_def zero_writer_def Let_def)
  then have len: "length ?P < 2 ^ 31"
    using commit_length [of ?w1 io c1 g program exec_us] assms(8) b(2) w(5,9) unfolding P(2)
    by (cases "bc = []") (simp_all add: same_place_def)
  obtain stored was c2 where wc: "write_container io c1 fs1 ?f STATUS_ARCHIVED flags ?w1 (expected_gain parse_us exec_us) ?P
      = Some (fs1(?f \<mapsto> (container_bytes io STATUS_ARCHIVED (if was then flags OR 4 else flags) ?w1 (ratio_u32 (expected_gain parse_us exec_us)) ?P stored,
          io_now io)), c2, True)" "same_place c1 c2" "\<not> was \<longrightarrow> stored = ?P" "length stored < 2 ^ 32"
      "was \<longrightarrow> lr_decompress_if_needed (io_copy io) (io_buf io) stored True = Inr (Some ?P)"
    using write_container_good [OF assms(1) len] by blast
  let ?d = "container_bytes io STATUS_ARCHIVED (if was then flags OR 4 else flags) ?w1 (ratio_u32 (expected_gain parse_us exec_us)) ?P stored"
  let ?fs2 = "fs1(?f \<mapsto> (?d, io_now io))"
  let ?c2 = "c2\<lparr>k_stores := k_stores c2 + 1\<rparr>"
  have commit: "lr_iome586_commit io c1 fs1 ?w g program exec_us = Some (?fs2, ?c2, ?w1\<lparr>w_ast := None, w_bc := None\<rparr>, 0)"
    using w(1-3,8) assms(7) P(1) wc(1) by (simp add: lr_iome586_commit_def Let_def)
  have sp: "same_place c ?c2" using b(2) wc(2) by (simp add: same_place_def)
  then have ap: "archive_path ?c2 = archive_path c" "k_enabled ?c2" "k_dir ?c2 = Some d"
    using assms(2,3) by (auto simp: same_place_def archive_path_def fun_eq_iff)
  have mt: "w_mtime ?w1 = file_mtime ?fs2 p" if "script = Some p" "take 1 p \<noteq> [0x3C]" for p
    using assms(9) [OF that(1)] keep_backup_other [of p ?f ?a ?b io fs] that w(7) b(3) by (auto simp: script_mtime_def file_mtime_def)
  obtain h where h: "examine io ?fs2 script src ?d
      = Inr (let mf = parse_entries (io_mem io) ?P 0 h in if m_ast mf = None then Miss else Hit mf)"
      "m_hash h = lr_iome586_hash64 src" "m_status h = STATUS_ARCHIVED" "m_ast h = None" "m_bytecode h = None"
    using examine_written [OF assms(1) wc(4,3,5) len assms(5) w(4,6) mt] by blast
  let ?mf = "fold (\<lambda>(n, d). manifest_entry (io_mem io) n d) (commit_entries io c1 ?w1 g program exec_us) h"
  have "list_all entry_ok (commit_entries io c1 ?w1 g program exec_us)" using commit_entries_ok len unfolding P(2) by blast
  from parse_stream [OF this, of "io_mem io" "[]" h] have pe: "parse_entries (io_mem io) ?P 0 h = ?mf" unfolding P(2) by simp
  note mf = commit_fields [OF mem h(5), of io c1 ?w1 g program exec_us]
  have hit: "examine io ?fs2 script src ?d = Inr (Hit ?mf)" using h(1) mf(1) unfolding pe by (simp add: Let_def)
  have "read_all io ?fs2 ?f = Some ?d"
    using mem by (simp add: read_all_def container_bytes_def header_bytes_def iome_magic_def)
  then have "lr_iome586_load io ?c2 ?fs2 script src
      = Inr (?fs2, ?c2\<lparr>k_hits := k_hits ?c2 + 1, k_loaded := k_loaded ?c2 + word_of_nat (length ?d)\<rparr>, Some ?mf)"
    using hit unfolding lr_iome586_load_def ap(1) by (simp add: ap(2,3) Let_def)
  moreover have "m_bytecode ?mf = (if bc = [] then None else Some bc)"
    unfolding mf(4) unfolding w(9) by simp
  moreover have "m_ast ?mf = Some ast"
    "m_globals ?mf = Some (b_data (snapshot_globals (io_mem io) g (k_baseline c) (k_snapshot_strings c) empty_blob))"
    "m_hash ?mf = lr_iome586_hash64 src" "m_status ?mf = STATUS_ARCHIVED"
    using mf(1-3,5) w(5) h(2,3) b(2) by (simp_all add: same_place_def)
  ultimately show ?thesis using commit by blast
qed

text \<open>(C5) A committed archive is loaded back: after begin and a commit that passes the 15% rule, the loader finds the file valid
  for the unchanged script and returns the serialised program, the bytecode and the snapshot of the globals.\<close>

theorem committed_archive_loads:
  assumes "io_good io" "k_enabled c" "k_dir c = Some d" "length d \<le> 4000"
    "flags AND FLAG_COMPRESSED = 0 \<and> flags AND FLAG_KEYED = 0"
    "lr_iome586_begin io c fs script src (Some ast) flags parse_us = Some (fs1, c1, w, True)"
    "\<not> f64_lt (expected_gain parse_us exec_us) MIN_GAIN"
    "length ast + length bc + length (b_data (snapshot_nodes (io_mem io) g program (k_snapshot_strings c) empty_blob))
      + length (b_data (snapshot_globals (io_mem io) g (k_baseline c) (k_snapshot_strings c) empty_blob)) < 2 ^ 30"
    "\<And>p. script = Some p \<Longrightarrow> p \<notin> {archive_path c (script_name_hash script src) False, archive_path c (script_name_hash script src) True,
       backup_path c (script_name_hash script src)}"
  shows "\<exists>fs2 c2 w2 c3 mf. lr_iome586_commit io c1 fs1 (lr_iome586_set_bytecode (io_mem io) w bc) g program exec_us = Some (fs2, c2, w2, 0)
    \<and> lr_iome586_load io c2 fs2 script src = Inr (fs2, c3, Some mf)
    \<and> m_ast mf = Some ast \<and> m_bytecode mf = (if bc = [] then None else Some bc)
    \<and> m_globals mf = Some (b_data (snapshot_globals (io_mem io) g (k_baseline c) (k_snapshot_strings c) empty_blob))
    \<and> m_hash mf = lr_iome586_hash64 src \<and> m_status mf = STATUS_ARCHIVED"
  using assms by (rule commit_then_load)

section \<open>Roll back\<close>

lemma roll_back_backup:
  assumes "io_rename io (w_bak w) (w_final w)" "w_have_bak w" "fs (w_bak w) = Some f" "w_final w \<noteq> w_bak w"
  shows "roll_back io fs w = fs(w_bak w := None, w_final w \<mapsto> f)"
  using assms by (simp add: roll_back_def move_file_def remove_file_def Let_def fun_upd_twist)

lemma write_container_touches:
  assumes "write_container io c fs path status flags w ratio payload = Some (fs', c', ok)"
  shows "\<exists>y. fs' = fs(path := y)"
proof -
  have wa: "\<exists>y. fst (write_all io fs path d) = fs(path := y)" for d
    by (cases "io_write io path d") (auto simp: write_all_def split: prod.splits intro: exI [of _ "fs path"])
  have "fs' = fs \<or> (\<exists>d. fs' = fst (write_all io fs path d))"
  proof (cases "store_payload io c payload")
    case None
    then show ?thesis using assms by (simp add: write_container_def)
  next
    case (Some a)
    then show ?thesis using assms
      by (cases a) (auto simp: write_container_def Let_def split_beta split: prod.splits if_splits)
  qed
  then show ?thesis using wa by (metis fun_upd_triv)
qed

lemma begin_over_archive:
  assumes "io_good io" "k_enabled c" "k_dir c = Some d" "length d \<le> 4000" "length ast < 2 ^ 30"
    "lr_iome586_begin io c fs script src (Some ast) flags parse_us = Some (fs1, c1, w, True)"
    "fs (archive_path c (script_name_hash script src) False) = Some f"
  obtains x where "fs1 = fs(backup_path c (script_name_hash script src) \<mapsto> f, archive_path c (script_name_hash script src) False \<mapsto> x)"
    "w_active w" "w_have_bak w" "w_final w = archive_path c (script_name_hash script src) False"
    "w_bak w = backup_path c (script_name_hash script src)" "w_parse_us w = parse_us" "same_place c c1"
    "\<exists>fl w0 p0 stored. x = (container_bytes io STATUS_WRITING fl w0 (ratio_u32 0) p0 stored, io_now io)"
proof -
  let ?f = "archive_path c (script_name_hash script src) False" and ?b = "backup_path c (script_name_hash script src)"
  have "?f \<noteq> ?b" using paths_distinct(1) [OF assms(3,4)] .
  then have "keep_backup io fs ?f alt ?b = (fs(?f := None, ?b \<mapsto> f), True)" for alt
    using assms(1,7) by (simp add: keep_backup_def file_exists_def move_file_def remove_file_def io_good_def Let_def fun_upd_twist)
  then obtain c2 w0 p0 stored fl where b: "w = (new_writer io c fs script src ast flags parse_us)\<lparr>w_have_bak := True, w_active := True\<rparr>"
      "same_place c c1" "fs1 = (fs(?f := None, ?b \<mapsto> f))(?f \<mapsto> (container_bytes io STATUS_WRITING fl w0 (ratio_u32 0) p0 stored, io_now io))"
    using begin_good [OF assms(1-5), of fs script src flags parse_us] assms(6) by auto
  have "(fs(?f := None, ?b \<mapsto> f))(?f \<mapsto> x) = fs(?b \<mapsto> f, ?f \<mapsto> x)" for x using \<open>?f \<noteq> ?b\<close> by auto
  with b show ?thesis by (intro that) (auto simp: new_writer_def zero_writer_def Let_def)
qed

text \<open>(C36) After a store has begun over an archive of the primary name (\<open>.lrfile\<close>), with nothing touching the files since and
  no rename failing, aborting it, missing the 15% rule or failing to write at the commit leaves the previous archive under its
  name, byte for byte, and no backup.\<close>

theorem unfinished_store_rolls_back:
  assumes "io_good io" "k_enabled c" "k_dir c = Some d" "length d \<le> 4000" "length ast < 2 ^ 30"
    "lr_iome586_begin io c fs script src (Some ast) flags parse_us = Some (fs1, c1, w, True)"
    "fs (archive_path c (script_name_hash script src) False) = Some f"
    "\<And>a b. io_rename io2 a b"
  shows "fst (lr_iome586_abort io2 c1 fs1 w) = fs(backup_path c (script_name_hash script src) := None)
    \<and> (lr_iome586_commit io2 c1 fs1 w g program exec_us = Some (fs2, c2, w2, rc) \<and> rc \<noteq> 0
        \<longrightarrow> fs2 = fs(backup_path c (script_name_hash script src) := None))"
proof -
  let ?f = "archive_path c (script_name_hash script src) False" and ?b = "backup_path c (script_name_hash script src)"
  obtain x where b: "fs1 = fs(?b \<mapsto> f, ?f \<mapsto> x)" "w_active w" "w_have_bak w" "w_final w = ?f" "w_bak w = ?b"
    using begin_over_archive [OF assms(1-7)] by metis
  have ne: "?f \<noteq> ?b" using paths_distinct(1) [OF assms(3,4)] .
  have rb: "roll_back io2 (fs1(?f := y)) w1 = fs(?b := None)"
    if "w_final w1 = ?f" "w_bak w1 = ?b" "w_have_bak w1" for y w1
  proof -
    have "roll_back io2 (fs1(?f := y)) w1 = (fs1(?f := y))(?b := None, ?f \<mapsto> f)"
      using roll_back_backup [of io2 w1 "fs1(?f := y)" f] that assms(8) ne b(1) by simp
    also have "\<dots> = fs(?b := None)" using ne assms(7) b(1) by (auto simp: fun_eq_iff)
    finally show ?thesis .
  qed
  have same: "fs1(?f := fs1 ?f) = fs1" by simp
  have "fst (lr_iome586_abort io2 c1 fs1 w) = fs(?b := None)"
    using rb [of w "fs1 ?f"] b(2-5) by (simp add: lr_iome586_abort_def)
  moreover have "fs2 = fs(?b := None)" if "lr_iome586_commit io2 c1 fs1 w g program exec_us = Some (fs2, c2, w2, rc)" "rc \<noteq> 0"
  proof (cases "f64_lt (expected_gain (w_parse_us w) exec_us) MIN_GAIN")
    case True
    then show ?thesis using that b(2-5) rb [of "w\<lparr>w_active := False\<rparr>" "fs1 ?f"] by (simp add: lr_iome586_commit_def Let_def)
  next
    case False
    let ?w1 = "w\<lparr>w_active := False\<rparr>"
    obtain fs3 c3 where w: "(if b_error (commit_payload io2 c1 ?w1 g program exec_us) then Some (fs1, c1, False)
         else write_container io2 c1 fs1 (w_final w) STATUS_ARCHIVED (w_flags w) ?w1 (expected_gain (w_parse_us w) exec_us)
           (b_data (commit_payload io2 c1 ?w1 g program exec_us))) = Some (fs3, c3, False)" "fs2 = roll_back io2 fs3 ?w1"
    proof -
      define wc where "wc = (if b_error (commit_payload io2 c1 ?w1 g program exec_us) then Some (fs1, c1, False)
         else write_container io2 c1 fs1 (w_final w) STATUS_ARCHIVED (w_flags w) ?w1 (expected_gain (w_parse_us w) exec_us)
           (b_data (commit_payload io2 c1 ?w1 g program exec_us)))"
      have "lr_iome586_commit io2 c1 fs1 w g program exec_us =
          (case wc of None \<Rightarrow> None
           | Some (fs1, c1, ok) \<Rightarrow>
               if ok then Some (fs1, c1\<lparr>k_stores := k_stores c1 + 1\<rparr>, ?w1\<lparr>w_ast := None, w_bc := None\<rparr>, 0)
               else Some (roll_back io2 fs1 ?w1, c1, ?w1\<lparr>w_ast := None, w_bc := None\<rparr>, -1))"
        using False b(2) by (simp add: lr_iome586_commit_def Let_def wc_def)
      then show ?thesis using that \<open>rc \<noteq> 0\<close> \<open>lr_iome586_commit io2 c1 fs1 w g program exec_us = Some (fs2, c2, w2, rc)\<close>
        unfolding wc_def [symmetric] by (auto split: option.splits if_splits)
    qed
    have "\<exists>y. fs3 = fs1(?f := y)"
    proof (cases "b_error (commit_payload io2 c1 ?w1 g program exec_us)")
      case True
      then show ?thesis using w(1) same by (intro exI [of _ "fs1 ?f"]) simp
    next
      case False
      then show ?thesis using w(1) write_container_touches b(4) by simp
    qed
    then show ?thesis using w(2) rb [of ?w1] b(3-5) by auto
  qed
  ultimately show ?thesis by blast
qed

text \<open>A loader that meets the unfinished archive destroys the backup: between begin and abort, a load of the same script
  moves the unfinished file over the backup of the previous archive, and the abort then puts the unfinished file back under
  the archive's name. The previous archive is gone.\<close>

theorem load_during_store_loses_archive:
  assumes "io_good io" "k_enabled c" "k_dir c = Some d" "length d \<le> 4000" "length ast < 2 ^ 30"
    "lr_iome586_begin io c fs script src (Some ast) flags parse_us = Some (fs1, c1, w, True)"
    "fs (archive_path c (script_name_hash script src) False) = Some f"
  shows "\<exists>fs2 c2 x h. lr_iome586_load io c1 fs1 script src = Inr (fs2, c2, None)
    \<and> fst (lr_iome586_abort io c2 fs2 w)
        = fs(backup_path c (script_name_hash script src) := None, archive_path c (script_name_hash script src) False \<mapsto> x)
    \<and> read_header (fst x) = Inr h \<and> h_status h = STATUS_WRITING"
proof -
  let ?f = "archive_path c (script_name_hash script src) False" and ?b = "backup_path c (script_name_hash script src)"
  obtain x where b: "fs1 = fs(?b \<mapsto> f, ?f \<mapsto> x)" "w_active w" "w_have_bak w" "w_final w = ?f" "w_bak w = ?b" "same_place c c1"
      "\<exists>fl w0 p0 stored. x = (container_bytes io STATUS_WRITING fl w0 (ratio_u32 0) p0 stored, io_now io)"
    using begin_over_archive [OF assms(1-7)] by metis
  obtain fl w0 p0 stored where x: "x = (container_bytes io STATUS_WRITING fl w0 (ratio_u32 0) p0 stored, io_now io)" using b(7) by blast
  let ?d = "container_bytes io STATUS_WRITING fl w0 (ratio_u32 0) p0 stored"
  have ne: "?f \<noteq> ?b" using paths_distinct(1) [OF assms(3,4)] .
  have g: "\<And>n. io_mem io n" "\<And>a b. io_rename io a b" using assms(1) by (simp_all add: io_good_def)
  have p: "archive_path c1 = archive_path c" "backup_path c1 = backup_path c" "k_enabled c1" "k_dir c1 = Some d"
    using b(6) assms(2,3) by (auto simp: same_place_def archive_path_def backup_path_def fun_eq_iff)
  have r: "read_all io fs1 ?f = Some ?d"
    using g(1) by (simp add: read_all_def b(1) x container_bytes_def header_bytes_def iome_magic_def)
  have "take 8 ?d = iome_magic" "72 \<le> length ?d" by (simp_all add: container_bytes_def header_bytes_def)
  then have s: "examine io fs1 script src ?d = Inr Stale"
    by (simp add: examine_def read_header_container is_stale_def written_header_def)
  let ?fs2 = "fs1(?f := None, ?b \<mapsto> x)"
  have "move_file io fs1 ?f ?b = (?fs2, True)"
    using g(2) ne by (simp add: move_file_def remove_file_def b(1) Let_def fun_upd_twist)
  then have l: "lr_iome586_load io c1 fs1 script src = Inr (?fs2, c1\<lparr>k_invalid := k_invalid c1 + 1\<rparr>, None)"
    using r s by (simp add: lr_iome586_load_def p Let_def)
  have "fst (lr_iome586_abort io (c1\<lparr>k_invalid := k_invalid c1 + 1\<rparr>) ?fs2 w) = ?fs2(?b := None, ?f \<mapsto> x)"
    using roll_back_backup [of io w ?fs2 x] b(2-5) g(2) ne by (simp add: lr_iome586_abort_def)
  also have "\<dots> = fs(?b := None, ?f \<mapsto> x)" using ne b(1) by (auto simp: fun_eq_iff)
  finally have a: "fst (lr_iome586_abort io (c1\<lparr>k_invalid := k_invalid c1 + 1\<rparr>) ?fs2 w) = fs(?b := None, ?f \<mapsto> x)" .
  have "read_header (fst x) = Inr (written_header io STATUS_WRITING fl w0 (ratio_u32 0) p0 stored)"
    by (simp add: x read_header_container)
  then show ?thesis using l a by (intro exI conjI) (assumption, assumption, assumption, simp add: written_header_def)
qed

section \<open>What the loader accepts\<close>

text \<open>(C37) The loader returns a manifest only for a file of the script's name that is a finished archive of this container and
  engine version, whose recorded 64-bit hash and length are those of the source and whose recorded modification time does
  not contradict the script's, with a payload that has the recorded checksum; the manifest is then what that header and that
  payload say, with an \<open>ast\<close> entry, and the files are left alone. (Another source of the same length and hash is accepted too.)\<close>

theorem load_validates:
  assumes "lr_iome586_load io c fs script src = Inr (fs1, c1, Some mf)"
  shows "fs1 = fs \<and> (\<exists>lz4 d t h raw. fs (archive_path c (script_name_hash script src) lz4) = Some (d, t) \<and> take 8 d = iome_magic
    \<and> read_header d = Inr h \<and> h_container h = 1 \<and> h_engine h = engine_version_id (io_version io) \<and> h_status h = STATUS_ARCHIVED
    \<and> h_hash h = lr_iome586_hash64 src \<and> h_size h = word_of_nat (length src) \<and> \<not> is_stale io fs script src h
    \<and> 76 + unat (h_desc h) + unat (h_stored h) \<le> length d
    \<and> decode_payload io d h src = Inr (Some raw) \<and> lr_iome586_crc32 raw = h_checksum h
    \<and> mf = parse_entries (io_mem io) raw 0
        ((header_manifest h)\<lparr>m_desc := dup_text (io_mem io) (take (unat (h_desc h)) (drop 76 d))\<rparr>)
    \<and> m_ast mf \<noteq> None)"
proof -
  let ?nh = "script_name_hash script src"
  define lz4 where "lz4 = (read_all io fs (archive_path c ?nh False) = None)"
  let ?p = "archive_path c ?nh lz4"
  have path: "(if read_all io fs (archive_path c ?nh False) \<noteq> None then archive_path c ?nh False else archive_path c ?nh True) = ?p"
    by (auto simp: lz4_def)
  have on: "k_enabled c" "k_dir c \<noteq> None" using assms by (auto simp: lr_iome586_load_def split: if_splits)
  obtain d where d: "read_all io fs ?p = Some d" "fs1 = fs" "examine io fs script src d = Inr (Hit mf)"
    using assms on unfolding lr_iome586_load_def Let_def path
    by (auto split: option.splits sum.splits verdict.splits prod.splits)
  obtain t where t: "fs ?p = Some (d, t)" using d(1) by (auto simp: read_all_def split: option.splits if_splits)
  from d(3) have magic: "take 8 d = iome_magic" by (auto simp: examine_def split: if_splits)
  from d(3) obtain h where h: "read_header d = Inr h" "\<not> is_stale io fs script src h" "76 + unat (h_desc h) + unat (h_stored h) \<le> length d"
    by (auto simp: examine_def split: if_splits sum.splits)
  with d(3) obtain raw where raw: "decode_payload io d h src = Inr (Some raw)"
      "mf = parse_entries (io_mem io) raw 0
        ((header_manifest h)\<lparr>m_desc := dup_text (io_mem io) (take (unat (h_desc h)) (drop 76 d))\<rparr>)" "m_ast mf \<noteq> None"
    by (auto simp: examine_def Let_def split: if_splits sum.splits option.splits)
  then have "lr_iome586_crc32 raw = h_checksum h"
    by (auto simp: decode_payload_def Let_def split: if_splits sum.splits option.splits)
  moreover have "h_container h = 1" "h_engine h = engine_version_id (io_version io)" "h_status h = STATUS_ARCHIVED"
      "h_hash h = lr_iome586_hash64 src" "h_size h = word_of_nat (length src)"
    using h(2) by (simp_all add: is_stale_def)
  ultimately show ?thesis using d(2) t magic h raw by blast
qed

lemma get_u32_upd: "p + 4 \<le> length pre \<Longrightarrow> get_u32 (pre @ xs) p = get_u32 pre p"
  by (simp add: get_u32_def nth_append)

lemma read_header_prefix: "76 \<le> length pre \<Longrightarrow> read_header (pre @ xs) = read_header (pre @ ys)"
  by (simp add: read_header_def get_u64_def get_u32_upd)

text \<open>A loaded uncompressed archive with one byte of its payload changed is rejected as corrupt.\<close>

theorem damaged_payload_rejected:
  assumes "examine io fs script src (pre @ b # post) = Inr (Hit mf)" "read_header (pre @ b # post) = Inr h"
    "h_flags h AND FLAG_COMPRESSED = 0" "h_flags h AND FLAG_KEYED = 0"
    "76 + unat (h_desc h) \<le> length pre" "length pre < 76 + unat (h_desc h) + unat (h_stored h)" "b' \<noteq> b"
  shows "examine io fs script src (pre @ b' # post) = Inr Corrupt"
proof -
  let ?start = "76 + unat (h_desc h)"
  let ?k = "length pre - ?start"
  have h': "read_header (pre @ b' # post) = Inr h" using read_header_prefix [of pre "b' # post" "b # post"] assms(2,5) by simp
  have m: "take 8 (pre @ x # post) = take 8 pre" for x using assms(5) by simp
  have d: "\<not> length (pre @ b # post) < 72" "take 8 pre = iome_magic" "\<not> is_stale io fs script src h"
    "76 + unat (h_desc h) + unat (h_stored h) \<le> length (pre @ b # post)"
    using assms(1,2) unfolding examine_def m by (auto split: if_splits)
  have st: "take (unat (h_stored h)) (drop ?start (pre @ x # post)) = drop ?start pre @ x # take (unat (h_stored h) - ?k - 1) post" for x
    using assms(5,6) by (simp add: take_Cons')
  obtain raw where "decode_payload io (pre @ b # post) h src = Inr (Some raw)"
    using assms(1,2) d unfolding examine_def m
    by (cases "decode_payload io (pre @ b # post) h src") (auto split: option.splits)
  then have "io_mem io (if h_stored h \<noteq> 0 then unat (h_stored h) else 1)"
    "lr_iome586_crc32 (drop ?start pre @ b # take (unat (h_stored h) - ?k - 1) post) = h_checksum h"
    using assms(3,4) unfolding decode_payload_def Let_def st by (simp_all split: if_splits)
  then have "decode_payload io (pre @ b' # post) h src = Inr None"
    using assms(3,4) crc_bytes_differ [OF assms(7), of "drop ?start pre" "take (unat (h_stored h) - ?k - 1) post"]
    unfolding decode_payload_def Let_def st by simp
  then show ?thesis using d h' unfolding examine_def m by simp
qed

text \<open>A file of 72 to 75 bytes that begins with the magic passes the size test, which counts one header field too few, and the
  loader reads past the end of its buffer.\<close>

theorem short_header_overread:
  assumes "k_enabled c" "k_dir c = Some dir" "72 \<le> length d" "length d < 76" "take 8 d = iome_magic" "io_mem io (length d)"
    "fs (archive_path c (script_name_hash script src) False) = Some (d, t)"
  shows "lr_iome586_load io c fs script src = Inl Iome_overread"
proof -
  have "read_all io fs (archive_path c (script_name_hash script src) False) = Some d"
    using assms(3,6,7) by (auto simp: read_all_def)
  moreover have "examine io fs script src d = Inl Iome_overread"
    using assms(3-5) by (simp add: examine_def read_header_def)
  ultimately show ?thesis using assms(1,2) by (simp add: lr_iome586_load_def Let_def)
qed

section \<open>Samples\<close>

definition sample_io :: io_env where
  "sample_io = \<lparr>io_mem = (\<lambda>_. True), io_write = (\<lambda>_ d. Some (length d, length d)), io_rename = (\<lambda>_ _. True), io_now = 9,
     io_localtime = (\<lambda>_. []), io_version = str ''1'', io_copy = True, io_buf = True, io_table = True\<rparr>"

definition sample_cache :: iome_cache where
  "sample_cache = lr_iome586_init None (Some (str ''d''))"

definition sample_path :: bytes where
  "sample_path = archive_path sample_cache (script_name_hash None []) False"

lemma sample_io_good: "io_good sample_io"
  by (simp add: io_good_def sample_io_def)

lemma sample_cache_on: "k_enabled sample_cache" "k_dir sample_cache = Some (str ''d'')" "length (str ''d'') \<le> 4000"
  by (simp_all add: sample_cache_def lr_iome586_init_def str_def)

lemma sample_begin:
  "\<exists>fs1 c1 w. lr_iome586_begin sample_io sample_cache fs None [] (Some [1]) 0 1 = Some (fs1, c1, w, True)"
  using begin_good [OF sample_io_good sample_cache_on, of "[1]" fs None "[]" 0 1] by auto

lemma sample_gain: "\<not> f64_lt (expected_gain 1 0) MIN_GAIN"
  by code_simp

definition empty_global :: js_global where
  "empty_global = \<lparr>g_names = [], g_get = (\<lambda>_. LR_NULL), g_set_ok = (\<lambda>_ _. True)\<rparr>"

lemma sample_payload:
  "length [1 :: byte] + length [7 :: byte]
      + length (b_data (snapshot_nodes (io_mem sample_io) empty_global [] (k_snapshot_strings sample_cache) empty_blob))
      + length (b_data (snapshot_globals (io_mem sample_io) empty_global (k_baseline sample_cache) (k_snapshot_strings sample_cache) empty_blob)) < 2 ^ 30"
  by (simp add: snapshot_nodes_def snapshot_globals_def sample_io_def empty_blob_def blob_u32_def blob_put_def blob_ensure_def empty_global_def Let_def)

theorem committed_archive_loads_witness:
  "\<exists>fs1 c1 w fs2 c2 w2 c3 mf. lr_iome586_begin sample_io sample_cache Map.empty None [] (Some [1]) 0 1 = Some (fs1, c1, w, True)
    \<and> lr_iome586_commit sample_io c1 fs1 (lr_iome586_set_bytecode (io_mem sample_io) w [7]) empty_global [] 0 = Some (fs2, c2, w2, 0)
    \<and> lr_iome586_load sample_io c2 fs2 None [] = Inr (fs2, c3, Some mf) \<and> m_ast mf = Some [1] \<and> m_bytecode mf = Some [7]"
proof -
  obtain fs1 c1 w where b: "lr_iome586_begin sample_io sample_cache Map.empty None [] (Some [1]) 0 1 = Some (fs1, c1, w, True)"
    using sample_begin by blast
  from committed_archive_loads [OF sample_io_good sample_cache_on _ b sample_gain sample_payload] b show ?thesis by fastforce
qed

theorem load_validates_witness:
  "\<exists>fs c c1 mf lz4 d t h. lr_iome586_load sample_io c fs None [] = Inr (fs, c1, Some mf)
    \<and> fs (archive_path c (script_name_hash None []) lz4) = Some (d, t) \<and> read_header d = Inr h \<and> h_status h = STATUS_ARCHIVED"
proof -
  obtain fs1 c1 w where b: "lr_iome586_begin sample_io sample_cache Map.empty None [] (Some [1]) 0 1 = Some (fs1, c1, w, True)"
    using sample_begin by blast
  from commit_then_load [OF sample_io_good sample_cache_on _ b sample_gain sample_payload]
  obtain fs2 c2 c3 mf where l: "lr_iome586_load sample_io c2 fs2 None [] = Inr (fs2, c3, Some mf)" by auto
  from load_validates [OF l] obtain lz4 d t h where
      "fs2 (archive_path c2 (script_name_hash None []) lz4) = Some (d, t)" "read_header d = Inr h" "h_status h = STATUS_ARCHIVED"
    by blast
  then show ?thesis using l by blast
qed

theorem unfinished_store_rolls_back_witness:
  "\<exists>fs1 c1 w. lr_iome586_begin sample_io sample_cache [sample_path \<mapsto> ([5], 1)] None [] (Some [1]) 0 1 = Some (fs1, c1, w, True)
    \<and> fst (lr_iome586_abort sample_io c1 fs1 w) = [sample_path \<mapsto> ([5], 1)](backup_path sample_cache (script_name_hash None []) := None)"
proof -
  obtain fs1 c1 w where b: "lr_iome586_begin sample_io sample_cache [sample_path \<mapsto> ([5], 1)] None [] (Some [1]) 0 1 = Some (fs1, c1, w, True)"
    using sample_begin by blast
  have "io_rename sample_io x y" for x y by (simp add: sample_io_def)
  then show ?thesis using unfinished_store_rolls_back [OF sample_io_good sample_cache_on _ b] b by (simp add: sample_path_def)
qed

theorem load_during_store_loses_archive_witness:
  "\<exists>fs1 c1 w fs2 c2 x h. lr_iome586_begin sample_io sample_cache [sample_path \<mapsto> ([5], 1)] None [] (Some [1]) 0 1 = Some (fs1, c1, w, True)
    \<and> lr_iome586_load sample_io c1 fs1 None [] = Inr (fs2, c2, None)
    \<and> fst (lr_iome586_abort sample_io c2 fs2 w) sample_path = Some x \<and> read_header (fst x) = Inr h \<and> h_status h = STATUS_WRITING"
proof -
  obtain fs1 c1 w where b: "lr_iome586_begin sample_io sample_cache [sample_path \<mapsto> ([5], 1)] None [] (Some [1]) 0 1 = Some (fs1, c1, w, True)"
    using sample_begin by blast
  have "[sample_path \<mapsto> ([5], 1)] (archive_path sample_cache (script_name_hash None []) False) = Some ([5], 1)" by (simp add: sample_path_def)
  from load_during_store_loses_archive [OF sample_io_good sample_cache_on _ b this] b show ?thesis
    by (auto simp: sample_path_def [symmetric])
qed

theorem short_header_overread_witness:
  "lr_iome586_load sample_io sample_cache [sample_path \<mapsto> (iome_magic @ replicate 64 0, 1)] None [] = Inl Iome_overread"
  by (rule short_header_overread [OF sample_cache_on(1,2)]) (simp_all add: sample_path_def sample_io_def)

end
