(* ===== verification/LR_Promise.thy ===== *)
theory LR_Promise
  imports LR_Prelude
begin

text \<open>
  Promises, \<^verbatim>\<open>src/lr_promise.c\<close>, with the job queue and the call operator of \<^verbatim>\<open>engine/lr_engine.c\<close> they run on and
  the \<open>await\<close> of \<^verbatim>\<open>engine/lr_interp.c\<close>. What a script function does is an argument of the model: the calls it makes, each
  continuing with the result of the call. A call may nest, so it has fuel. Memory is never short, and the lifetime of
  the shared resolve data is not modelled. Objects other than arrays and the plain objects have no \<open>length\<close> here.
\<close>

section \<open>Values\<close>

text \<open>
  A C function object is the function with its captured data. \<open>INSTANCE\<close> is what \<open>lr_call_constructor\<close> passes as
  \<open>this\<close>: an object with \<open>Promise.prototype\<close> as its prototype. \<open>ENTRY\<close> is a result object of \<open>Promise.allSettled\<close>.
\<close>

datatype pval =
    UNDEF
  | NUM int
  | TEXT string
  | EXC
  | PROMISE nat
  | ARRAY nat
  | PLAIN nat
  | INSTANCE
  | TYPE_ERROR string
  | ENTRY bool pval
  | FUNC pfun
and pfun =
    Resolve_func nat
  | Reject_func nat
  | Identity
  | Thrower
  | Finally_fulfill pval
  | Finally_reject pval
  | All_fulfill nat nat pval
  | All_reject nat
  | Promise_ctor
  | Promise_then
  | Promise_catch
  | Promise_finally
  | Static_resolve
  | Static_reject
  | Static_all
  | Static_race
  | Static_all_settled
  | Static_any
  | Queue_microtask
  | User nat

datatype promise_state = PENDING | FULFILLED | REJECTED

record preaction =
  r_handler :: pval
  r_resolve :: pval
  r_reject :: pval
  r_promise :: pval
  r_type :: nat

record promise_data =
  pd_state :: promise_state
  pd_result :: pval
  pd_has_handler :: bool
  pd_fulfill :: "preaction list"
  pd_fulfill_capacity :: nat
  pd_reject :: "preaction list"
  pd_reject_capacity :: nat
  pd_proto :: bool

datatype pjob = Reaction_job nat pval pval pval pval | Function_job pval

record all_data =
  pad_remaining :: int
  pad_total :: nat
  pad_arr :: nat
  pad_reject :: pval
  pad_rejected :: bool

record pobject =
  o_then :: pval
  o_items :: "pval list"

text \<open>
  \<open>w_ran\<close> records the resolve function of each reaction job that was started, \<open>w_derived\<close> each promise that \<open>then\<close> returned
  after it had found the promise it was called on, and \<open>w_thrown\<close> each promise whose thenable threw. No operation reads them.
\<close>

record pworld =
  w_promises :: "nat \<Rightarrow> promise_data option"
  w_next :: nat
  w_jobs :: "pjob list"
  w_ran :: "pval list"
  w_derived :: "nat list"
  w_thrown :: "nat list"
  w_arrays :: "nat \<Rightarrow> pval list"
  w_next_array :: nat
  w_pads :: "nat \<Rightarrow> all_data option"
  w_next_pad :: nat
  w_objects :: "nat \<Rightarrow> pobject"
  w_exception :: pval

text \<open>A script function: what it returns, throws, calls and awaits.\<close>

datatype script =
    Return pval
  | Throw pval
  | Call pval pval "pval list" "pval \<Rightarrow> script"
  | Await pval "pval \<Rightarrow> script"

type_synonym pcaller = "pworld \<Rightarrow> pval \<Rightarrow> pval \<Rightarrow> pval list \<Rightarrow> (pworld \<times> pval) option"

definition is_obj :: "pval \<Rightarrow> bool" where
  "is_obj v = (case v of UNDEF \<Rightarrow> False | NUM _ \<Rightarrow> False | TEXT _ \<Rightarrow> False | EXC \<Rightarrow> False | _ \<Rightarrow> True)"

definition is_func :: "pval \<Rightarrow> bool" where
  "is_func v = (case v of FUNC _ \<Rightarrow> True | _ \<Rightarrow> False)"

definition argn :: "nat \<Rightarrow> pval list \<Rightarrow> pval" where
  "argn i args = (if i < length args then args ! i else UNDEF)"

definition get_then :: "pworld \<Rightarrow> pval \<Rightarrow> pval" where
  "get_then w v =
     (case v of
        PROMISE p \<Rightarrow> (case w_promises w p of Some pd \<Rightarrow> if pd_proto pd then FUNC Promise_then else UNDEF | None \<Rightarrow> UNDEF)
      | INSTANCE \<Rightarrow> FUNC Promise_then
      | PLAIN i \<Rightarrow> o_then (w_objects w i)
      | _ \<Rightarrow> UNDEF)"

definition throw_type_error :: "pworld \<Rightarrow> string \<Rightarrow> pworld \<times> pval" where
  "throw_type_error w msg = (w\<lparr>w_exception := TYPE_ERROR msg\<rparr>, EXC)"

section \<open>Promise data\<close>

definition promise_data_new :: promise_data where
  "promise_data_new =
     \<lparr>pd_state = PENDING, pd_result = UNDEF, pd_has_handler = False, pd_fulfill = [], pd_fulfill_capacity = 4,
      pd_reject = [], pd_reject_capacity = 4, pd_proto = False\<rparr>"

definition lr_new_promise :: "pworld \<Rightarrow> pworld \<times> nat" where
  "lr_new_promise w =
     (w\<lparr>w_promises := (w_promises w)(w_next w \<mapsto> promise_data_new), w_next := w_next w + 1\<rparr>, w_next w)"

definition upd_promise :: "pworld \<Rightarrow> nat \<Rightarrow> (promise_data \<Rightarrow> promise_data) \<Rightarrow> pworld" where
  "upd_promise w p f =
     (case w_promises w p of None \<Rightarrow> w | Some pd \<Rightarrow> w\<lparr>w_promises := (w_promises w)(p \<mapsto> f pd)\<rparr>)"

definition set_prototype :: "pworld \<Rightarrow> nat \<Rightarrow> bool \<Rightarrow> pworld" where
  "set_prototype w p b = (if b then upd_promise w p (\<lambda>pd. pd\<lparr>pd_proto := True\<rparr>) else w)"

definition lr_promise_get_result :: "pworld \<Rightarrow> pval \<Rightarrow> pval" where
  "lr_promise_get_result w v =
     (case v of PROMISE p \<Rightarrow> (case w_promises w p of Some pd \<Rightarrow> pd_result pd | None \<Rightarrow> UNDEF) | _ \<Rightarrow> UNDEF)"

definition add_fulfill_reaction :: "pworld \<Rightarrow> nat \<Rightarrow> preaction \<Rightarrow> pworld" where
  "add_fulfill_reaction w p r = upd_promise w p (\<lambda>pd.
     let cap = (if length (pd_fulfill pd) \<ge> pd_fulfill_capacity pd then pd_fulfill_capacity pd * 2 else pd_fulfill_capacity pd)
     in pd\<lparr>pd_fulfill := pd_fulfill pd @ [r\<lparr>r_type := 0\<rparr>], pd_fulfill_capacity := cap\<rparr>)"

definition add_reject_reaction :: "pworld \<Rightarrow> nat \<Rightarrow> preaction \<Rightarrow> pworld" where
  "add_reject_reaction w p r = upd_promise w p (\<lambda>pd.
     let cap = (if length (pd_reject pd) \<ge> pd_reject_capacity pd then pd_reject_capacity pd * 2 else pd_reject_capacity pd)
     in pd\<lparr>pd_reject := pd_reject pd @ [r\<lparr>r_type := 1\<rparr>], pd_reject_capacity := cap\<rparr>)"

definition enqueue_job :: "pworld \<Rightarrow> pjob \<Rightarrow> pworld" where
  "enqueue_job w j = w\<lparr>w_jobs := w_jobs w @ [j]\<rparr>"

definition lr_promise_trigger_reaction :: "pworld \<Rightarrow> preaction \<Rightarrow> pval \<Rightarrow> pworld" where
  "lr_promise_trigger_reaction w r v =
     enqueue_job w (Reaction_job (r_type r) (r_handler r) v (r_resolve r) (r_reject r))"

section \<open>Settling\<close>

definition set_settled :: "pworld \<Rightarrow> nat \<Rightarrow> promise_state \<Rightarrow> pval \<Rightarrow> pworld" where
  "set_settled w p s v = upd_promise w p (\<lambda>pd. pd\<lparr>pd_state := s, pd_result := v\<rparr>)"

definition trigger_all :: "pworld \<Rightarrow> nat \<Rightarrow> pworld" where
  "trigger_all w p =
     (case w_promises w p of
        None \<Rightarrow> w
      | Some pd \<Rightarrow>
          let rs = (if pd_state pd = FULFILLED then pd_fulfill pd else pd_reject pd);
              w1 = fold (\<lambda>r w. lr_promise_trigger_reaction w r (pd_result pd)) rs w
          in upd_promise w1 p (\<lambda>pd. pd\<lparr>pd_fulfill := [], pd_reject := []\<rparr>))"

definition settle :: "pworld \<Rightarrow> nat \<Rightarrow> promise_state \<Rightarrow> pval \<Rightarrow> pworld" where
  "settle w p s v = trigger_all (set_settled w p s v) p"

definition is_pending :: "pworld \<Rightarrow> nat \<Rightarrow> bool" where
  "is_pending w p = (case w_promises w p of Some pd \<Rightarrow> pd_state pd = PENDING | None \<Rightarrow> False)"

definition lr_promise_resolve_internal :: "pcaller \<Rightarrow> pworld \<Rightarrow> nat \<Rightarrow> pval \<Rightarrow> pworld option" where
  "lr_promise_resolve_internal call w p v =
     (if \<not> is_pending w p then Some w
      else if v = PROMISE p then Some (settle w p REJECTED (TEXT ''Chaining cycle detected for promise''))
      else if is_obj v \<and> is_func (get_then w v)
      then (case call w (get_then w v) v [FUNC (Resolve_func p), FUNC (Reject_func p)] of
              None \<Rightarrow> None
            | Some (w1, r) \<Rightarrow> Some (if r = EXC then settle (w1\<lparr>w_thrown := w_thrown w1 @ [p]\<rparr>) p REJECTED EXC else w1))
      else Some (settle w p FULFILLED v))"

definition lr_promise_reject_internal :: "pworld \<Rightarrow> nat \<Rightarrow> pval \<Rightarrow> pworld" where
  "lr_promise_reject_internal w p v = (if is_pending w p then settle w p REJECTED v else w)"

section \<open>Constructor and prototype methods\<close>

definition js_promise_constructor :: "pcaller \<Rightarrow> pworld \<Rightarrow> pval \<Rightarrow> pval list \<Rightarrow> (pworld \<times> pval) option" where
  "js_promise_constructor call w this args =
     (let (w0, p) = lr_new_promise w; w1 = set_prototype w0 p (this = INSTANCE) in
      if \<not> is_func (argn 0 args) then Some (throw_type_error w1 ''Promise resolver undefined is not a function'')
      else case call w1 (argn 0 args) UNDEF [FUNC (Resolve_func p), FUNC (Reject_func p)] of
          None \<Rightarrow> None
        | Some (w2, r) \<Rightarrow> Some (if r = EXC then lr_promise_reject_internal w2 p EXC else w2, PROMISE p))"

definition js_promise_then :: "pworld \<Rightarrow> pval \<Rightarrow> pval list \<Rightarrow> pworld \<times> pval" where
  "js_promise_then w this args =
     (case this of
        PROMISE q \<Rightarrow>
          (let on_fulfilled = (if is_func (argn 0 args) then argn 0 args else FUNC Identity);
               on_rejected = (if is_func (argn 1 args) then argn 1 args else FUNC Thrower);
               (w0, d) = lr_new_promise w; w1 = set_prototype w0 d True;
               fr = \<lparr>r_handler = on_fulfilled, r_resolve = FUNC (Resolve_func d), r_reject = FUNC (Reject_func d),
                     r_promise = PROMISE d, r_type = 0\<rparr>;
               rr = \<lparr>r_handler = on_rejected, r_resolve = FUNC (Resolve_func d), r_reject = FUNC (Reject_func d),
                     r_promise = PROMISE d, r_type = 1\<rparr>
           in case w_promises w1 q of
                None \<Rightarrow> (w1, UNDEF)
              | Some pd \<Rightarrow>
                  let w2 = upd_promise (w1\<lparr>w_derived := w_derived w1 @ [d]\<rparr>) q (\<lambda>pd. pd\<lparr>pd_has_handler := True\<rparr>) in
                  ((case pd_state pd of
                      PENDING \<Rightarrow> add_reject_reaction (add_fulfill_reaction w2 q fr) q rr
                    | FULFILLED \<Rightarrow> lr_promise_trigger_reaction w2 fr (pd_result pd)
                    | REJECTED \<Rightarrow> lr_promise_trigger_reaction w2 rr (pd_result pd)), PROMISE d))
      | _ \<Rightarrow> throw_type_error w ''Method Promise.prototype.then called on incompatible receiver'')"

definition js_promise_catch :: "pworld \<Rightarrow> pval \<Rightarrow> pval list \<Rightarrow> pworld \<times> pval" where
  "js_promise_catch w this args =
     (case this of
        PROMISE _ \<Rightarrow> js_promise_then w this [UNDEF, argn 0 args]
      | _ \<Rightarrow> throw_type_error w ''Method Promise.prototype.catch called on incompatible receiver'')"

definition finally_fulfill_wrapper :: "pcaller \<Rightarrow> pworld \<Rightarrow> pval \<Rightarrow> pval list \<Rightarrow> (pworld \<times> pval) option" where
  "finally_fulfill_wrapper call w f args =
     (case call w f UNDEF [] of
        None \<Rightarrow> None
      | Some (w1, r) \<Rightarrow> Some (w1, if r = EXC then w_exception w1 else argn 0 args))"

definition finally_reject_wrapper :: "pcaller \<Rightarrow> pworld \<Rightarrow> pval \<Rightarrow> pval list \<Rightarrow> (pworld \<times> pval) option" where
  "finally_reject_wrapper call w f args =
     (case call w f UNDEF [] of
        None \<Rightarrow> None
      | Some (w1, r) \<Rightarrow> Some (if r = EXC then (w1, w_exception w1) else throw_type_error w1 ''finally rejected''))"

definition js_promise_finally :: "pworld \<Rightarrow> pval \<Rightarrow> pval list \<Rightarrow> pworld \<times> pval" where
  "js_promise_finally w this args =
     (case this of
        PROMISE _ \<Rightarrow>
          if is_func (argn 0 args)
          then js_promise_then w this [FUNC (Finally_fulfill (argn 0 args)), FUNC (Finally_reject (argn 0 args))]
          else js_promise_then w this args
      | _ \<Rightarrow> throw_type_error w ''Method Promise.prototype.finally called on incompatible receiver'')"

section \<open>Static methods\<close>

definition js_promise_resolve :: "pworld \<Rightarrow> pval \<Rightarrow> pval list \<Rightarrow> pworld \<times> pval" where
  "js_promise_resolve w this args =
     (case argn 0 args of
        PROMISE q \<Rightarrow> (w, PROMISE q)
      | v \<Rightarrow> (let (w0, p) = lr_new_promise w
              in (set_settled (set_prototype w0 p (this = FUNC Promise_ctor)) p FULFILLED v, PROMISE p)))"

definition js_promise_reject :: "pworld \<Rightarrow> pval \<Rightarrow> pval list \<Rightarrow> pworld \<times> pval" where
  "js_promise_reject w this args =
     (let (w0, p) = lr_new_promise w
      in (set_settled (set_prototype w0 p (this = FUNC Promise_ctor)) p REJECTED (argn 0 args), PROMISE p))"

definition arr_get :: "pworld \<Rightarrow> nat \<Rightarrow> nat \<Rightarrow> pval" where
  "arr_get w a i = argn i (w_arrays w a)"

definition arr_set :: "pworld \<Rightarrow> nat \<Rightarrow> nat \<Rightarrow> pval \<Rightarrow> pworld" where
  "arr_set w a i v =
     w\<lparr>w_arrays := (w_arrays w)(a := (w_arrays w a @ replicate (i + 1 - length (w_arrays w a)) UNDEF)[i := v])\<rparr>"

definition arr_set_length :: "pworld \<Rightarrow> nat \<Rightarrow> nat \<Rightarrow> pworld" where
  "arr_set_length w a n =
     w\<lparr>w_arrays := (w_arrays w)(a := take n (w_arrays w a) @ replicate (n - length (w_arrays w a)) UNDEF)\<rparr>"

definition new_array :: "pworld \<Rightarrow> pval list \<Rightarrow> pworld \<times> nat" where
  "new_array w vs = (w\<lparr>w_arrays := (w_arrays w)(w_next_array w := vs), w_next_array := w_next_array w + 1\<rparr>, w_next_array w)"

text \<open>An array is used as it is, not copied.\<close>

definition to_array :: "pworld \<Rightarrow> pval \<Rightarrow> pworld \<times> nat" where
  "to_array w v =
     (case v of ARRAY a \<Rightarrow> (w, a) | PLAIN i \<Rightarrow> new_array w (o_items (w_objects w i)) | _ \<Rightarrow> new_array w [])"

definition promise_all_fulfill :: "pcaller \<Rightarrow> pworld \<Rightarrow> nat \<Rightarrow> nat \<Rightarrow> pval \<Rightarrow> pval list \<Rightarrow> (pworld \<times> pval) option" where
  "promise_all_fulfill call w k index resolve_fn args =
     (case w_pads w k of
        None \<Rightarrow> Some (w, UNDEF)
      | Some pad \<Rightarrow>
          if pad_rejected pad then Some (w, UNDEF)
          else
            let w1 = arr_set w (pad_arr pad) index (argn 0 args);
                pad1 = pad\<lparr>pad_remaining := pad_remaining pad - 1\<rparr>;
                w2 = w1\<lparr>w_pads := (w_pads w1)(k \<mapsto> pad1)\<rparr>
            in if pad_remaining pad1 \<le> 0
               then map_option (\<lambda>(w3, _). (w3, UNDEF))
                      (call (arr_set_length w2 (pad_arr pad) (pad_total pad)) resolve_fn UNDEF [ARRAY (pad_arr pad)])
               else Some (w2, UNDEF))"

definition promise_all_reject :: "pcaller \<Rightarrow> pworld \<Rightarrow> nat \<Rightarrow> pval list \<Rightarrow> (pworld \<times> pval) option" where
  "promise_all_reject call w k args =
     (case w_pads w k of
        None \<Rightarrow> Some (w, UNDEF)
      | Some pad \<Rightarrow>
          if pad_rejected pad then Some (w, UNDEF)
          else map_option (\<lambda>(w1, _). (w1, UNDEF))
                 (call (w\<lparr>w_pads := (w_pads w)(k \<mapsto> pad\<lparr>pad_rejected := True\<rparr>)\<rparr>) (pad_reject pad) UNDEF [argn 0 args]))"

text \<open>One element of \<open>Promise.all\<close>: wrapped with the \<open>resolve\<close> of the constructor unless it is a promise, then subscribed to.\<close>

definition all_step :: "pcaller \<Rightarrow> pval \<Rightarrow> nat \<Rightarrow> nat \<Rightarrow> pval \<Rightarrow> nat \<Rightarrow> pworld \<Rightarrow> pworld option" where
  "all_step call this a k resolve_fn i w =
     (let item = arr_get w a i;
          wrapped = (case item of
             PROMISE _ \<Rightarrow> Some (w, item)
           | _ \<Rightarrow> call w (if this = FUNC Promise_ctor then FUNC Static_resolve else UNDEF) this [item])
      in case wrapped of
           None \<Rightarrow> None
         | Some (w1, q) \<Rightarrow>
             if is_func (get_then w1 q)
             then map_option fst (call w1 (get_then w1 q) q [FUNC (All_fulfill k i resolve_fn), FUNC (All_reject k)])
             else Some w1)"

fun all_loop :: "pcaller \<Rightarrow> pval \<Rightarrow> nat \<Rightarrow> nat \<Rightarrow> pval \<Rightarrow> nat list \<Rightarrow> pworld \<Rightarrow> pworld option" where
  "all_loop call this a k resolve_fn [] w = Some w"
| "all_loop call this a k resolve_fn (i # is) w =
     (case all_step call this a k resolve_fn i w of None \<Rightarrow> None | Some w1 \<Rightarrow> all_loop call this a k resolve_fn is w1)"

definition js_promise_all :: "pcaller \<Rightarrow> pworld \<Rightarrow> pval \<Rightarrow> pval list \<Rightarrow> (pworld \<times> pval) option" where
  "js_promise_all call w this args =
     (let (w0, p) = lr_new_promise w; w1 = set_prototype w0 p (this = FUNC Promise_ctor);
          (w2, a) = to_array w1 (argn 0 args); total = length (w_arrays w2 a)
      in if total = 0 then map_option (\<lambda>w3. (w3, PROMISE p)) (lr_promise_resolve_internal call w2 p (ARRAY a))
         else
           let k = w_next_pad w2;
               pad = \<lparr>pad_remaining = int total, pad_total = total, pad_arr = a, pad_reject = FUNC (Reject_func p), pad_rejected = False\<rparr>;
               w3 = w2\<lparr>w_pads := (w_pads w2)(k \<mapsto> pad), w_next_pad := k + 1\<rparr>
           in map_option (\<lambda>w4. (w4, PROMISE p)) (all_loop call this a k (FUNC (Resolve_func p)) [0..<total] w3))"

definition js_promise_race :: "pcaller \<Rightarrow> pworld \<Rightarrow> pval list \<Rightarrow> (pworld \<times> pval) option" where
  "js_promise_race call w args =
     (let (w1, p) = lr_new_promise w; (w2, a) = to_array w1 (argn 0 args)
      in if length (w_arrays w2 a) > 0
         then map_option (\<lambda>w3. (w3, PROMISE p)) (lr_promise_resolve_internal call w2 p (arr_get w2 a 0))
         else Some (w2, PROMISE p))"

definition settled_entry :: "pworld \<Rightarrow> pval \<Rightarrow> pval" where
  "settled_entry w item =
     (case item of
        PROMISE q \<Rightarrow> (case w_promises w q of
            Some pd \<Rightarrow> (case pd_state pd of
                FULFILLED \<Rightarrow> ENTRY True (pd_result pd) | REJECTED \<Rightarrow> ENTRY False (pd_result pd) | PENDING \<Rightarrow> ENTRY True UNDEF)
          | None \<Rightarrow> ENTRY True UNDEF)
      | _ \<Rightarrow> ENTRY True item)"

definition js_promise_all_settled :: "pcaller \<Rightarrow> pworld \<Rightarrow> pval list \<Rightarrow> (pworld \<times> pval) option" where
  "js_promise_all_settled call w args =
     (let (w1, p) = lr_new_promise w; (w2, a) = to_array w1 (argn 0 args)
      in if w_arrays w2 a = [] then map_option (\<lambda>w3. (w3, PROMISE p)) (lr_promise_resolve_internal call w2 p (ARRAY a))
         else let (w3, b) = new_array w2 (map (settled_entry w2) (w_arrays w2 a))
              in map_option (\<lambda>w4. (w4, PROMISE p)) (lr_promise_resolve_internal call w3 p (ARRAY b)))"

fun any_pick :: "pworld \<Rightarrow> pval list \<Rightarrow> pval option" where
  "any_pick w [] = None"
| "any_pick w (item # items) =
     (case item of
        PROMISE q \<Rightarrow> (case w_promises w q of
            Some pd \<Rightarrow> if pd_state pd = FULFILLED then Some (pd_result pd) else any_pick w items
          | None \<Rightarrow> any_pick w items)
      | _ \<Rightarrow> Some item)"

definition js_promise_any :: "pcaller \<Rightarrow> pworld \<Rightarrow> pval list \<Rightarrow> (pworld \<times> pval) option" where
  "js_promise_any call w args =
     (let (w1, p) = lr_new_promise w; (w2, a) = to_array w1 (argn 0 args)
      in case any_pick w2 (w_arrays w2 a) of
           Some v \<Rightarrow> map_option (\<lambda>w3. (w3, PROMISE p)) (lr_promise_resolve_internal call w2 p v)
         | None \<Rightarrow> Some (lr_promise_reject_internal w2 p (TEXT ''All promises were rejected''), PROMISE p))"

section \<open>Jobs\<close>

text \<open>\<open>job_fulfill_reaction\<close> and \<open>job_reject_reaction\<close> have the same body.\<close>

definition job_reaction :: "pcaller \<Rightarrow> pworld \<Rightarrow> pval \<Rightarrow> pval \<Rightarrow> pval \<Rightarrow> pval \<Rightarrow> pworld option" where
  "job_reaction call w handler v resolve reject =
     (case call w handler UNDEF [v] of
        None \<Rightarrow> None
      | Some (w1, r) \<Rightarrow>
          map_option fst (if r = EXC then call w1 reject UNDEF [w_exception w1] else call w1 resolve UNDEF [r]))"

definition execute_pending_job :: "pcaller \<Rightarrow> pworld \<Rightarrow> pworld option" where
  "execute_pending_job call w =
     (case w_jobs w of
        [] \<Rightarrow> Some w
      | Reaction_job ty h v res rej # js \<Rightarrow> job_reaction call (w\<lparr>w_jobs := js, w_ran := w_ran w @ [res]\<rparr>) h v res rej
      | Function_job f # js \<Rightarrow> map_option fst (call (w\<lparr>w_jobs := js\<rparr>) f UNDEF []))"

text \<open>The job loop after a script, which stops after a number of jobs (1000 in \<^verbatim>\<open>lr_eval\<close>).\<close>

fun run_jobs :: "nat \<Rightarrow> pcaller \<Rightarrow> pworld \<Rightarrow> pworld option" where
  "run_jobs 0 call w = Some w"
| "run_jobs (Suc n) call w =
     (if w_jobs w = [] then Some w
      else case execute_pending_job call w of None \<Rightarrow> None | Some w1 \<Rightarrow> run_jobs n call w1)"

fun await_jobs :: "nat \<Rightarrow> pcaller \<Rightarrow> nat \<Rightarrow> pworld \<Rightarrow> pworld option" where
  "await_jobs 0 call p w = Some w"
| "await_jobs (Suc guard) call p w =
     (if is_pending w p \<and> w_jobs w \<noteq> []
      then (case execute_pending_job call w of None \<Rightarrow> None | Some w1 \<Rightarrow> await_jobs guard call p w1)
      else Some w)"

text \<open>\<open>eval_await\<close>: a rejection is thrown, anything but a promise is its own value.\<close>

definition eval_await :: "nat \<Rightarrow> pcaller \<Rightarrow> pworld \<Rightarrow> pval \<Rightarrow> (pworld \<times> pval) option" where
  "eval_await guard call w v =
     (case v of
        PROMISE p \<Rightarrow>
          (case await_jobs guard call p w of
             None \<Rightarrow> None
           | Some w1 \<Rightarrow> Some
               (case w_promises w1 p of
                  None \<Rightarrow> (w1, UNDEF)
                | Some pd \<Rightarrow> if pd_state pd = REJECTED then (w1\<lparr>w_exception := pd_result pd\<rparr>, EXC) else (w1, pd_result pd)))
      | _ \<Rightarrow> Some (w, v))"

section \<open>Calls\<close>

primrec run_script :: "pcaller \<Rightarrow> script \<Rightarrow> pworld \<Rightarrow> (pworld \<times> pval) option" where
  "run_script call (Return v) w = Some (w, v)"
| "run_script call (Throw v) w = Some (w\<lparr>w_exception := v\<rparr>, EXC)"
| "run_script call (Call f this args k) w =
     (case call w f this args of None \<Rightarrow> None | Some (w1, r) \<Rightarrow> run_script call (k r) w1)"
| "run_script call (Await v k) w =
     (case eval_await 100000 call w v of None \<Rightarrow> None | Some (w1, r) \<Rightarrow> run_script call (k r) w1)"

definition call_func :: "(nat \<Rightarrow> pval \<Rightarrow> pval list \<Rightarrow> script) \<Rightarrow> pcaller \<Rightarrow> pworld \<Rightarrow> pfun \<Rightarrow> pval \<Rightarrow> pval list \<Rightarrow> (pworld \<times> pval) option" where
  "call_func user call w g this args =
     (case g of
        Resolve_func p \<Rightarrow> map_option (\<lambda>w1. (w1, UNDEF)) (lr_promise_resolve_internal call w p (argn 0 args))
      | Reject_func p \<Rightarrow> Some (lr_promise_reject_internal w p (argn 0 args), UNDEF)
      | Identity \<Rightarrow> Some (w, argn 0 args)
      | Thrower \<Rightarrow> Some (throw_type_error w ''rejected'')
      | Finally_fulfill f \<Rightarrow> finally_fulfill_wrapper call w f args
      | Finally_reject f \<Rightarrow> finally_reject_wrapper call w f args
      | All_fulfill k i r \<Rightarrow> promise_all_fulfill call w k i r args
      | All_reject k \<Rightarrow> promise_all_reject call w k args
      | Promise_ctor \<Rightarrow> js_promise_constructor call w this args
      | Promise_then \<Rightarrow> Some (js_promise_then w this args)
      | Promise_catch \<Rightarrow> Some (js_promise_catch w this args)
      | Promise_finally \<Rightarrow> Some (js_promise_finally w this args)
      | Static_resolve \<Rightarrow> Some (js_promise_resolve w this args)
      | Static_reject \<Rightarrow> Some (js_promise_reject w this args)
      | Static_all \<Rightarrow> js_promise_all call w this args
      | Static_race \<Rightarrow> js_promise_race call w args
      | Static_all_settled \<Rightarrow> js_promise_all_settled call w args
      | Static_any \<Rightarrow> js_promise_any call w args
      | Queue_microtask \<Rightarrow>
          Some (if is_func (argn 0 args) then (enqueue_job w (Function_job (argn 0 args)), UNDEF)
                else throw_type_error w ''queueMicrotask: argument must be a function'')
      | User i \<Rightarrow> run_script call (user i this args) w)"

text \<open>\<open>lr_call\<close>: no value but an object is callable, and an object that is no function gives undefined.\<close>

fun promise_call :: "(nat \<Rightarrow> pval \<Rightarrow> pval list \<Rightarrow> script) \<Rightarrow> nat \<Rightarrow> pcaller" where
  "promise_call user 0 w f this args = None"
| "promise_call user (Suc n) w f this args =
     (if \<not> is_obj f then Some (w, EXC)
      else case f of FUNC g \<Rightarrow> call_func user (promise_call user n) w g this args | _ \<Rightarrow> Some (w, UNDEF))"

definition eval_program :: "(nat \<Rightarrow> pval \<Rightarrow> pval list \<Rightarrow> script) \<Rightarrow> nat \<Rightarrow> nat \<Rightarrow> script \<Rightarrow> pworld \<Rightarrow> pworld option" where
  "eval_program user n k s w =
     (case run_script (promise_call user n) s w of
        None \<Rightarrow> None
      | Some (w1, _) \<Rightarrow> run_jobs k (promise_call user n) w1)"

definition init_world :: "(nat \<Rightarrow> pobject) \<Rightarrow> (nat \<Rightarrow> pval list) \<Rightarrow> nat \<Rightarrow> pworld" where
  "init_world objs arrs n =
     \<lparr>w_promises = (\<lambda>_. None), w_next = 0, w_jobs = [], w_ran = [], w_derived = [], w_thrown = [], w_arrays = arrs, w_next_array = n,
      w_pads = (\<lambda>_. None), w_next_pad = 0, w_objects = objs, w_exception = UNDEF\<rparr>"

section \<open>Relations that every call keeps\<close>

text \<open>
  A relation between the worlds before and after that holds for the elementary changes holds for every call, job and
  await, however deeply scripts, thenables and handlers nest.
\<close>

definition same_promises :: "pworld \<Rightarrow> pworld \<Rightarrow> bool" where
  "same_promises w w1 \<longleftrightarrow>
     w_promises w1 = w_promises w \<and> w_next w1 = w_next w \<and> w_jobs w1 = w_jobs w \<and> w_ran w1 = w_ran w
     \<and> w_derived w1 = w_derived w \<and> w_thrown w1 = w_thrown w"

locale promise_relation =
  fixes R :: "pworld \<Rightarrow> pworld \<Rightarrow> bool"
  assumes trans: "R w1 w2 \<Longrightarrow> R w2 w3 \<Longrightarrow> R w1 w3"
    and frame: "same_promises w w1 \<Longrightarrow> R w w1"
    and subscribe: "R w (fst (js_promise_then w this args))"
    and settle_pending: "is_pending w p \<Longrightarrow> s \<noteq> PENDING \<Longrightarrow> R w (settle w p s v)"
    and overwrite: "R w (settle (w\<lparr>w_thrown := w_thrown w @ [p]\<rparr>) p REJECTED EXC)"
    and create: "R w (fst (lr_new_promise w))"
    and proto: "R w (set_prototype w p b)"
    and settle_new: "w_promises w p = Some promise_data_new \<or> w_promises w p = Some (promise_data_new\<lparr>pd_proto := True\<rparr>)
      \<Longrightarrow> s \<noteq> PENDING \<Longrightarrow> R w (set_settled w p s v)"
    and enqueue: "R w (enqueue_job w (Function_job f))"
    and start_reaction: "w_jobs w = Reaction_job ty h v res rej # js \<Longrightarrow> R w (w\<lparr>w_jobs := js, w_ran := w_ran w @ [res]\<rparr>)"
    and start_function: "w_jobs w = Function_job f # js \<Longrightarrow> R w (w\<lparr>w_jobs := js\<rparr>)"
begin

definition keeps :: "pcaller \<Rightarrow> bool" where
  "keeps call \<longleftrightarrow> (\<forall>w f this args w1 r. call w f this args = Some (w1, r) \<longrightarrow> R w w1)"

lemma keepsD: "keeps call \<Longrightarrow> call w f this args = Some (w1, r) \<Longrightarrow> R w w1"
  unfolding keeps_def by blast

lemma refl: "R w w"
  by (simp add: frame same_promises_def)

lemma after_frame: "R w w1 \<Longrightarrow> same_promises w1 w2 \<Longrightarrow> R w w2"
  by (blast intro: trans frame)

lemma frame_then: "R w0 w1 \<Longrightarrow> same_promises w w0 \<Longrightarrow> R w w1"
  by (blast intro: trans frame)

lemma throws: "R w (fst (throw_type_error w msg))"
  by (simp add: throw_type_error_def frame same_promises_def)

lemma resolve_keeps:
  assumes "keeps call" "lr_promise_resolve_internal call w p v = Some w1"
  shows "R w w1"
  using assms(2)
  by (auto simp: lr_promise_resolve_internal_def refl settle_pending split: if_splits option.splits
      dest!: keepsD [OF assms(1)] intro: trans [OF _ overwrite])

lemma reject_keeps: "R w (lr_promise_reject_internal w p v)"
  by (simp add: lr_promise_reject_internal_def refl settle_pending)

lemma created: "lr_new_promise w = (w1, p) \<Longrightarrow> R w (set_prototype w1 p b)"
  using create [of w] by (auto intro: trans proto)

lemma constructor_keeps:
  assumes "keeps call" "js_promise_constructor call w this args = Some (w1, r)"
  shows "R w w1"
proof -
  obtain w0 p where new: "lr_new_promise w = (w0, p)"
    by fastforce
  note base = created [OF new, of "this = INSTANCE"]
  define w2 where "w2 = set_prototype w0 p (this = INSTANCE)"
  have "R w2 w1"
    using assms(2)
    by (auto simp: js_promise_constructor_def new throw_type_error_def same_promises_def Let_def w2_def [symmetric]
        split: if_splits option.splits dest!: keepsD [OF assms(1)] intro: trans [OF _ reject_keeps] frame)
  with base show ?thesis
    unfolding w2_def by (rule trans)
qed

lemma catch_keeps: "R w (fst (js_promise_catch w this args))"
  by (cases this) (simp_all add: js_promise_catch_def subscribe throws)

lemma finally_keeps: "R w (fst (js_promise_finally w this args))"
  by (cases this) (simp_all add: js_promise_finally_def subscribe throws)

lemma new_data: "lr_new_promise w = (w1, p) \<Longrightarrow> w_promises w1 p = Some promise_data_new"
  by (auto simp: lr_new_promise_def)

lemma static_settled: "lr_new_promise w = (w1, p) \<Longrightarrow> s \<noteq> PENDING \<Longrightarrow> R w (set_settled (set_prototype w1 p b) p s v)"
  by (rule trans [OF created settle_new]) (auto simp: set_prototype_def upd_promise_def dest: new_data)

lemma static_resolve_keeps: "R w (fst (js_promise_resolve w this args))"
  by (cases "argn 0 args"; cases "lr_new_promise w")
    (simp_all add: js_promise_resolve_def refl static_settled)

lemma static_reject_keeps: "R w (fst (js_promise_reject w this args))"
  by (cases "lr_new_promise w") (simp add: js_promise_reject_def static_settled)

lemma to_array_frame: "to_array w v = (w1, a) \<Longrightarrow> same_promises w w1"
  by (auto simp: to_array_def new_array_def same_promises_def split: pval.splits)

lemma all_fulfill_keeps:
  assumes "keeps call" "promise_all_fulfill call w k i f args = Some (w1, r)"
  shows "R w w1"
  using assms(2)
  by (auto simp: promise_all_fulfill_def refl Let_def same_promises_def arr_set_def arr_set_length_def
      split: option.splits if_splits dest!: keepsD [OF assms(1)] intro: frame elim!: frame_then)

lemma all_reject_keeps:
  assumes "keeps call" "promise_all_reject call w k args = Some (w1, r)"
  shows "R w w1"
  using assms(2)
  by (auto simp: promise_all_reject_def refl same_promises_def
      split: option.splits if_splits dest!: keepsD [OF assms(1)] elim!: frame_then)

lemma all_step_keeps:
  assumes call: "keeps call" and st: "all_step call this a k f i w = Some w1"
  shows "R w w1"
proof -
  define item where "item = arr_get w a i"
  obtain w0 q where q: "(case item of PROMISE x \<Rightarrow> Some (w, item)
        | _ \<Rightarrow> call w (if this = FUNC Promise_ctor then FUNC Static_resolve else UNDEF) this [item]) = Some (w0, q)"
    using st unfolding all_step_def Let_def item_def [symmetric] by (cases item) (auto split: option.splits)
  then have w0: "R w w0"
    by (cases item) (auto simp: refl dest: keepsD [OF call])
  moreover have "R w0 w1"
    using st unfolding all_step_def Let_def item_def [symmetric] q
    by (auto simp: refl split: if_splits dest: keepsD [OF call])
  ultimately show ?thesis
    by (rule trans)
qed

lemma all_loop_keeps:
  assumes "keeps call"
  shows "all_loop call this a k f is w = Some w1 \<Longrightarrow> R w w1"
proof (induction "is" arbitrary: w)
  case (Cons i "is")
  then show ?case
    by (auto split: option.splits intro: trans all_step_keeps [OF assms])
qed (simp add: refl)

lemma combinator_start:
  assumes "lr_new_promise w = (w0, p)" "to_array (set_prototype w0 p b) v = (w1, a)"
  shows "R w w1"
  using assms by (blast intro: after_frame created to_array_frame)

lemma combinator_start_bare:
  assumes "lr_new_promise w = (w0, p)" "to_array w0 v = (w1, a)"
  shows "R w w1"
  using combinator_start [of w w0 p False v] assms by (simp add: set_prototype_def)

lemma all_keeps:
  assumes call: "keeps call" and all: "js_promise_all call w this args = Some (w1, r)"
  shows "R w w1"
proof -
  obtain w0 p where new: "lr_new_promise w = (w0, p)"
    by fastforce
  obtain w2 a where arr: "to_array (set_prototype w0 p (this = FUNC Promise_ctor)) (argn 0 args) = (w2, a)"
    by fastforce
  note base = combinator_start [OF new arr]
  have "R w2 w1"
  proof (cases "w_arrays w2 a = []")
    case True
    then show ?thesis
      using all by (auto simp: js_promise_all_def new arr dest: resolve_keeps [OF call])
  next
    case False
    define w3 where "w3 = w2\<lparr>w_pads := (w_pads w2)(w_next_pad w2 \<mapsto>
        \<lparr>pad_remaining = int (length (w_arrays w2 a)), pad_total = length (w_arrays w2 a), pad_arr = a,
         pad_reject = FUNC (Reject_func p), pad_rejected = False\<rparr>), w_next_pad := w_next_pad w2 + 1\<rparr>"
    have "all_loop call this a (w_next_pad w2) (FUNC (Resolve_func p)) [0..<length (w_arrays w2 a)] w3 = Some w1"
      using all False by (auto simp: js_promise_all_def new arr Let_def w3_def)
    then have "R w3 w1"
      by (rule all_loop_keeps [OF call])
    moreover have "R w2 w3"
      by (simp add: frame same_promises_def w3_def)
    ultimately show ?thesis
      by (blast intro: trans)
  qed
  with base show ?thesis
    by (rule trans)
qed

lemma race_keeps:
  assumes "keeps call" "js_promise_race call w args = Some (w1, r)"
  shows "R w w1"
proof -
  obtain w0 p where new: "lr_new_promise w = (w0, p)"
    by fastforce
  obtain w2 a where arr: "to_array w0 (argn 0 args) = (w2, a)"
    by fastforce
  have "R w2 w1"
    using assms(2) by (auto simp: js_promise_race_def new arr refl split: if_splits dest: resolve_keeps [OF assms(1)])
  with combinator_start_bare [OF new arr] show ?thesis
    by (rule trans)
qed

lemma all_settled_keeps:
  assumes "keeps call" "js_promise_all_settled call w args = Some (w1, r)"
  shows "R w w1"
proof -
  obtain w0 p where new: "lr_new_promise w = (w0, p)"
    by fastforce
  obtain w2 a where arr: "to_array w0 (argn 0 args) = (w2, a)"
    by fastforce
  have "R w2 w1"
    using assms(2)
    by (auto simp: js_promise_all_settled_def new arr new_array_def same_promises_def split: if_splits
        dest!: resolve_keeps [OF assms(1)] elim!: frame_then)
  with combinator_start_bare [OF new arr] show ?thesis
    by (rule trans)
qed

lemma any_keeps:
  assumes "keeps call" "js_promise_any call w args = Some (w1, r)"
  shows "R w w1"
proof -
  obtain w0 p where new: "lr_new_promise w = (w0, p)"
    by fastforce
  obtain w2 a where arr: "to_array w0 (argn 0 args) = (w2, a)"
    by fastforce
  have "R w2 w1"
    using assms(2)
    by (auto simp: js_promise_any_def new arr reject_keeps split: option.splits dest: resolve_keeps [OF assms(1)])
  with combinator_start_bare [OF new arr] show ?thesis
    by (rule trans)
qed

lemma thrown_keeps: "R w w1 \<Longrightarrow> R w (w1\<lparr>w_exception := v\<rparr>)"
  by (erule after_frame) (simp add: same_promises_def)

lemma wrapper_keeps:
  assumes "keeps call"
  shows "finally_fulfill_wrapper call w f args = Some (w1, r) \<Longrightarrow> R w w1"
    "finally_reject_wrapper call w f args = Some (w1, r) \<Longrightarrow> R w w1"
  by (auto simp: finally_fulfill_wrapper_def finally_reject_wrapper_def throw_type_error_def same_promises_def
      split: option.splits if_splits dest!: keepsD [OF assms] intro!: thrown_keeps)

lemma job_keeps:
  assumes "keeps call" "job_reaction call w h v res rej = Some w1"
  shows "R w w1"
  using assms(2)
  by (auto simp: job_reaction_def split: option.splits if_splits dest!: keepsD [OF assms(1)] intro: trans)

lemma execute_keeps:
  assumes call: "keeps call" and ex: "execute_pending_job call w = Some w1"
  shows "R w w1"
proof (cases "w_jobs w")
  case Nil
  then show ?thesis
    using ex by (simp add: execute_pending_job_def refl)
next
  case (Cons j js)
  show ?thesis
  proof (cases j)
    case (Reaction_job ty h v res rej)
    then have "R (w\<lparr>w_jobs := js, w_ran := w_ran w @ [res]\<rparr>) w1"
      using ex Cons by (auto simp: execute_pending_job_def dest: job_keeps [OF call])
    with start_reaction Cons Reaction_job show ?thesis
      by (blast intro: trans)
  next
    case (Function_job f)
    then have "R (w\<lparr>w_jobs := js\<rparr>) w1"
      using ex Cons by (auto simp: execute_pending_job_def dest: keepsD [OF call])
    with start_function Cons Function_job show ?thesis
      by (blast intro: trans)
  qed
qed

lemma run_jobs_keeps:
  assumes "keeps call"
  shows "run_jobs n call w = Some w1 \<Longrightarrow> R w w1"
proof (induction n arbitrary: w)
  case (Suc n)
  then show ?case
    by (auto simp: refl split: if_splits option.splits dest!: execute_keeps [OF assms] intro: trans)
qed (simp add: refl split: if_splits)

lemma await_jobs_keeps:
  assumes "keeps call"
  shows "await_jobs n call p w = Some w1 \<Longrightarrow> R w w1"
proof (induction n arbitrary: w)
  case (Suc n)
  then show ?case
    by (auto simp: refl split: if_splits option.splits dest!: execute_keeps [OF assms] intro: trans)
qed (simp add: refl)

lemma await_keeps:
  assumes "keeps call" "eval_await n call w v = Some (w1, r)"
  shows "R w w1"
  using assms(2)
  by (auto simp: eval_await_def refl same_promises_def split: pval.splits option.splits if_splits
      dest!: await_jobs_keeps [OF assms(1)] intro!: thrown_keeps)

lemma script_keeps:
  assumes "keeps call"
  shows "run_script call s w = Some (w1, r) \<Longrightarrow> R w w1"
proof (induction s arbitrary: w)
  case (Throw v)
  then show ?case
    by (auto intro: frame simp: same_promises_def)
next
  case (Call f this args k)
  then show ?case
    by (auto split: option.splits dest!: keepsD [OF assms] Call.IH [OF rangeI] intro: trans)
next
  case (Await v k)
  then show ?case
    by (auto split: option.splits dest!: await_keeps [OF assms] Await.IH [OF rangeI] intro: trans)
qed (simp add: refl)

lemmas call_keeps = resolve_keeps constructor_keeps all_fulfill_keeps all_reject_keeps all_keeps race_keeps
  all_settled_keeps any_keeps wrapper_keeps script_keeps

lemma fst_keeps: "R w (fst x) \<Longrightarrow> x = (w1, r) \<Longrightarrow> R w w1"
  by simp

lemma func_keeps:
  assumes call: "keeps call" and r: "call_func user call w g this args = Some (w1, r)"
  shows "R w w1"
proof (cases g)
  case (Resolve_func p)
  then show ?thesis
    using r by (auto simp: call_func_def dest: resolve_keeps [OF call])
next
  case Thrower
  then show ?thesis
    using r fst_keeps [OF throws] by (auto simp: call_func_def)
next
  case Queue_microtask
  then show ?thesis
    using r by (auto simp: call_func_def throw_type_error_def same_promises_def split: if_splits intro: enqueue frame)
qed (use r in \<open>auto simp: call_func_def refl reject_keeps
    dest: call_keeps [OF call] intro: fst_keeps [OF subscribe] fst_keeps [OF catch_keeps] fst_keeps [OF finally_keeps]
      fst_keeps [OF static_resolve_keeps] fst_keeps [OF static_reject_keeps]\<close>)

lemma promise_call_keeps: "keeps (promise_call user n)"
proof (induction n)
  case (Suc n)
  show ?case
    unfolding keeps_def by (auto simp: refl split: if_splits pval.splits dest: func_keeps [OF Suc.IH])
qed (simp add: keeps_def)

lemma program_keeps: "eval_program user n k s w = Some w1 \<Longrightarrow> R w w1"
  by (auto simp: eval_program_def split: option.splits dest!: script_keeps [OF promise_call_keeps]
      run_jobs_keeps [OF promise_call_keeps] intro: trans)

end

section \<open>A settled promise stays settled\<close>

definition reaction_job :: "pval \<Rightarrow> preaction \<Rightarrow> pjob" where
  "reaction_job v r = Reaction_job (r_type r) (r_handler r) v (r_resolve r) (r_reject r)"

lemma fold_trigger:
  "fold (\<lambda>r w. lr_promise_trigger_reaction w r v) rs w = w\<lparr>w_jobs := w_jobs w @ map (reaction_job v) rs\<rparr>"
  by (induction rs arbitrary: w) (simp_all add: lr_promise_trigger_reaction_def enqueue_job_def reaction_job_def)

lemma settle_None: "w_promises w p = None \<Longrightarrow> settle w p s v = w"
  by (simp add: settle_def set_settled_def upd_promise_def trigger_all_def)

lemma settle_Some:
  "w_promises w p = Some pd \<Longrightarrow>
   settle w p s v = w\<lparr>w_promises := (w_promises w)(p \<mapsto> pd\<lparr>pd_state := s, pd_result := v, pd_fulfill := [], pd_reject := []\<rparr>),
     w_jobs := w_jobs w @ map (reaction_job v) (if s = FULFILLED then pd_fulfill pd else pd_reject pd)\<rparr>"
  by (simp add: settle_def set_settled_def upd_promise_def trigger_all_def fold_trigger)

definition fresh_next :: "pworld \<Rightarrow> bool" where
  "fresh_next w \<longleftrightarrow> (\<forall>p \<ge> w_next w. w_promises w p = None)"

text \<open>The outcome of a promise, and the one way it can still change: a throwing thenable makes it a rejection with the marker.\<close>

definition outcome :: "pworld \<Rightarrow> nat \<Rightarrow> (promise_state \<times> pval) option" where
  "outcome w p = (case w_promises w p of
     Some pd \<Rightarrow> if pd_state pd = PENDING then None else Some (pd_state pd, pd_result pd) | None \<Rightarrow> None)"

definition settled_kept :: "pworld \<Rightarrow> pworld \<Rightarrow> bool" where
  "settled_kept w w1 \<longleftrightarrow> (fresh_next w \<longrightarrow> fresh_next w1 \<and> set (w_thrown w) \<subseteq> set (w_thrown w1) \<and>
     (\<forall>p x. outcome w p = Some x \<longrightarrow> outcome w1 p = Some x \<or> p \<in> set (w_thrown w1) \<and> outcome w1 p = Some (REJECTED, EXC)))"

lemma upd_outcome:
  assumes "\<And>pd. w_promises w p = Some pd \<Longrightarrow> pd_state (f pd) = pd_state pd \<and> pd_result (f pd) = pd_result pd"
  shows "outcome (upd_promise w p f) q = outcome w q" "fresh_next (upd_promise w p f) = fresh_next w"
  using assms by (auto simp: outcome_def fresh_next_def upd_promise_def split: option.splits)

lemma trigger_outcome: "outcome (lr_promise_trigger_reaction w r v) q = outcome w q"
  "fresh_next (lr_promise_trigger_reaction w r v) = fresh_next w"
  by (simp_all add: lr_promise_trigger_reaction_def enqueue_job_def outcome_def fresh_next_def)

lemma add_outcome: "outcome (add_fulfill_reaction w p r) q = outcome w q" "outcome (add_reject_reaction w p r) q = outcome w q"
  "fresh_next (add_fulfill_reaction w p r) = fresh_next w" "fresh_next (add_reject_reaction w p r) = fresh_next w"
  by (auto simp: add_fulfill_reaction_def add_reject_reaction_def Let_def upd_outcome)

lemma create_outcome:
  assumes "fresh_next w"
  shows "fresh_next (fst (lr_new_promise w))" "outcome (fst (lr_new_promise w)) p = outcome w p"
  using assms by (auto simp: fresh_next_def lr_new_promise_def outcome_def promise_data_new_def)

lemma proto_outcome: "outcome (set_prototype w p b) q = outcome w q" "fresh_next (set_prototype w p b) = fresh_next w"
  by (auto simp: set_prototype_def upd_outcome)

lemma derived_outcome [simp]: "outcome (w\<lparr>w_derived := ds\<rparr>) p = outcome w p" "fresh_next (w\<lparr>w_derived := ds\<rparr>) = fresh_next w"
  by (simp_all add: outcome_def fresh_next_def)

lemma then_outcome:
  assumes "fresh_next w"
  shows "outcome (fst (js_promise_then w this args)) p = outcome w p" "fresh_next (fst (js_promise_then w this args))"
  using assms
  by (auto simp: js_promise_then_def Let_def case_prod_beta throw_type_error_def add_outcome trigger_outcome upd_outcome
      proto_outcome create_outcome split: pval.splits option.splits promise_state.splits)
     (simp_all add: outcome_def fresh_next_def)

lemma settle_outcome:
  assumes "s \<noteq> PENDING"
  shows "outcome (settle w p s v) q = (if q = p \<and> w_promises w p \<noteq> None then Some (s, v) else outcome w q)"
    "fresh_next (settle w p s v) = fresh_next w"
  using assms by (cases "w_promises w p"; auto simp: settle_None settle_Some outcome_def fresh_next_def)+

lemma same_outcome: "same_promises w w1 \<Longrightarrow> outcome w1 p = outcome w p \<and> fresh_next w1 = fresh_next w"
  by (simp add: same_promises_def outcome_def fresh_next_def)

lemma job_outcome [simp]:
  "outcome (w\<lparr>w_jobs := js\<rparr>) p = outcome w p" "outcome (w\<lparr>w_ran := rs\<rparr>) p = outcome w p"
  "outcome (w\<lparr>w_thrown := ts\<rparr>) p = outcome w p" "fresh_next (w\<lparr>w_thrown := ts\<rparr>) = fresh_next w"
  "fresh_next (w\<lparr>w_jobs := js\<rparr>) = fresh_next w" "fresh_next (w\<lparr>w_ran := rs\<rparr>) = fresh_next w"
  by (simp_all add: outcome_def fresh_next_def)

lemma settled_keptI:
  assumes "fresh_next w \<Longrightarrow> fresh_next w1" "w_thrown w1 = w_thrown w"
    "\<And>p x. fresh_next w \<Longrightarrow> outcome w p = Some x \<Longrightarrow> outcome w1 p = Some x"
  shows "settled_kept w w1"
  using assms by (simp add: settled_kept_def)

lemma upd_thrown: "w_thrown (upd_promise w p f) = w_thrown w" "w_derived (upd_promise w p f) = w_derived w"
  by (simp_all add: upd_promise_def split: option.split)

lemma op_thrown:
  "w_thrown (settle w p s v) = w_thrown w" "w_thrown (set_settled w p s v) = w_thrown w"
  "w_thrown (set_prototype w p b) = w_thrown w" "w_thrown (fst (lr_new_promise w)) = w_thrown w"
  "w_thrown (lr_promise_trigger_reaction w r v) = w_thrown w" "w_thrown (enqueue_job w k) = w_thrown w"
  "w_thrown (add_fulfill_reaction w p r) = w_thrown w" "w_thrown (add_reject_reaction w p r) = w_thrown w"
  by (cases "w_promises w p") (simp_all add: settle_None settle_Some set_settled_def set_prototype_def upd_thrown lr_new_promise_def
      lr_promise_trigger_reaction_def enqueue_job_def add_fulfill_reaction_def add_reject_reaction_def)


lemma then_thrown: "w_thrown (fst (js_promise_then w this args)) = w_thrown w"
  using op_thrown(4) [of w]
  by (auto simp: js_promise_then_def Let_def case_prod_beta throw_type_error_def op_thrown upd_thrown
      split: pval.splits option.splits promise_state.splits)

interpretation stays: promise_relation settled_kept
proof
  fix w1 w2 w3 :: pworld
  assume a: "settled_kept w1 w2" and b: "settled_kept w2 w3"
  show "settled_kept w1 w3"
    unfolding settled_kept_def
  proof (intro impI conjI allI)
    assume f: "fresh_next w1"
    note a = a [unfolded settled_kept_def, rule_format, OF f]
    note b = b [unfolded settled_kept_def, rule_format, OF conjunct1 [OF a]]
    show "fresh_next w3" "set (w_thrown w1) \<subseteq> set (w_thrown w3)"
      using a b by auto
    show "outcome w3 p = Some x \<or> p \<in> set (w_thrown w3) \<and> outcome w3 p = Some (REJECTED, EXC)" if "outcome w1 p = Some x" for p x
      using a b that by blast
  qed
next
  fix w :: pworld and p v and s :: promise_state
  assume "is_pending w p" "s \<noteq> PENDING"
  then show "settled_kept w (settle w p s v)"
    by (intro settled_keptI) (auto simp: settle_outcome op_thrown, auto simp: outcome_def is_pending_def split: option.splits)
next
  fix w :: pworld and p v and s :: promise_state
  assume "w_promises w p = Some promise_data_new \<or> w_promises w p = Some (promise_data_new\<lparr>pd_proto := True\<rparr>)" "s \<noteq> PENDING"
  then show "settled_kept w (set_settled w p s v)"
    by (intro settled_keptI)
      (auto simp: set_settled_def upd_promise_def outcome_def fresh_next_def promise_data_new_def split: if_splits)
next
  fix w w1 :: pworld
  assume "same_promises w w1"
  then show "settled_kept w w1"
    by (intro settled_keptI) (simp_all add: same_outcome [of w w1], simp add: same_promises_def)
next
  fix w :: pworld and p
  show "settled_kept w (settle (w\<lparr>w_thrown := w_thrown w @ [p]\<rparr>) p REJECTED EXC)"
    by (auto simp: settled_kept_def settle_outcome op_thrown)
qed (auto simp: then_outcome then_thrown create_outcome proto_outcome op_thrown enqueue_job_def intro!: settled_keptI)

section \<open>Each reaction runs once\<close>

text \<open>
  The tickets of a promise made by \<open>then\<close>: its reaction records that wait in promises, its queued jobs, and the jobs
  that were started.
\<close>

definition key_count :: "preaction list \<Rightarrow> nat \<Rightarrow> nat" where
  "key_count rs d = count_list (map r_resolve rs) (FUNC (Resolve_func d))"

definition waiting :: "pworld \<Rightarrow> nat \<Rightarrow> nat" where
  "waiting w d = (\<Sum>p<w_next w. case w_promises w p of Some pd \<Rightarrow> key_count (pd_fulfill pd) d | None \<Rightarrow> 0)"

fun job_key :: "pjob \<Rightarrow> pval" where
  "job_key (Reaction_job ty h v res rej) = res"
| "job_key (Function_job f) = UNDEF"

definition queued :: "pworld \<Rightarrow> nat \<Rightarrow> nat" where
  "queued w d = count_list (map job_key (w_jobs w)) (FUNC (Resolve_func d))"

definition started :: "pworld \<Rightarrow> nat \<Rightarrow> nat" where
  "started w d = count_list (w_ran w) (FUNC (Resolve_func d))"

definition tickets :: "pworld \<Rightarrow> nat \<Rightarrow> nat" where
  "tickets w d = waiting w d + queued w d + started w d"

definition promise_ok :: "promise_data \<Rightarrow> bool" where
  "promise_ok pd \<longleftrightarrow>
     (pd_state pd \<noteq> PENDING \<longrightarrow> pd_fulfill pd = []) \<and> map r_resolve (pd_fulfill pd) = map r_resolve (pd_reject pd) \<and>
     length (pd_fulfill pd) \<le> pd_fulfill_capacity pd \<and> length (pd_reject pd) \<le> pd_reject_capacity pd \<and>
     0 < pd_fulfill_capacity pd \<and> 0 < pd_reject_capacity pd"

definition world_ok :: "pworld \<Rightarrow> bool" where
  "world_ok w \<longleftrightarrow> fresh_next w \<and> (\<forall>p pd. w_promises w p = Some pd \<longrightarrow> promise_ok pd) \<and> (\<forall>d \<ge> w_next w. tickets w d = 0)"






lemma waiting_fields [simp]:
  "waiting (w\<lparr>w_jobs := js\<rparr>) d = waiting w d" "waiting (w\<lparr>w_ran := rs\<rparr>) d = waiting w d"
  "queued (w\<lparr>w_promises := ps\<rparr>) d = queued w d" "queued (w\<lparr>w_ran := rs\<rparr>) d = queued w d"
  "started (w\<lparr>w_promises := ps\<rparr>) d = started w d" "started (w\<lparr>w_jobs := js\<rparr>) d = started w d"
  "waiting (w\<lparr>w_thrown := ts\<rparr>) d = waiting w d" "queued (w\<lparr>w_thrown := ts\<rparr>) d = queued w d"
  "started (w\<lparr>w_thrown := ts\<rparr>) d = started w d"
  "waiting (w\<lparr>w_derived := ts\<rparr>) d = waiting w d" "queued (w\<lparr>w_derived := ts\<rparr>) d = queued w d"
  "started (w\<lparr>w_derived := ts\<rparr>) d = started w d"
  by (simp_all add: waiting_def queued_def started_def)





















lemma world_ok_derived [simp]: "world_ok (w\<lparr>w_derived := ds\<rparr>) = world_ok w" "tickets (w\<lparr>w_derived := ds\<rparr>) d = tickets w d"
  by (simp_all add: world_ok_def fresh_next_def tickets_def)










section \<open>Properties\<close>

lemmas promise_simps = eval_program_def call_func_def execute_pending_job_def job_reaction_def eval_await_def
  js_promise_resolve_def js_promise_reject_def js_promise_then_def js_promise_catch_def js_promise_finally_def
  js_promise_constructor_def finally_fulfill_wrapper_def finally_reject_wrapper_def lr_promise_resolve_internal_def
  lr_promise_reject_internal_def settle_def set_settled_def trigger_all_def lr_promise_trigger_reaction_def
  enqueue_job_def add_fulfill_reaction_def add_reject_reaction_def upd_promise_def set_prototype_def lr_new_promise_def
  promise_data_new_def is_pending_def argn_def is_obj_def is_func_def get_then_def throw_type_error_def Let_def


text \<open>(C12) A settled promise keeps its state and its result whatever scripts, thenables, handlers and jobs do, with one
  exception: when a thenable that it was resolved with throws (\<open>w_thrown\<close> lists these promises), the promise becomes a
  rejection with the exception marker even if it was settled (\<open>thenable_throw_unsettles\<close>).\<close>
lemma settled_promise_stays:
  assumes "fresh_next w" "eval_program user n k s w = Some w1" "outcome w p = Some x"
  shows "outcome w1 p = Some x \<or> p \<in> set (w_thrown w1) \<and> outcome w1 p = Some (REJECTED, EXC)"
  using stays.program_keeps [OF assms(2)] assms(1,3) unfolding settled_kept_def by blast




text \<open>A promise resolved with 3, the subscription of a handler that returns 5, and the job.\<close>

abbreviation plain_objects :: "nat \<Rightarrow> pobject" where
  "plain_objects \<equiv> \<lambda>_. \<lparr>o_then = UNDEF, o_items = []\<rparr>"

abbreviation world0 :: pworld where
  "world0 \<equiv> init_world plain_objects (\<lambda>_. []) 0"

abbreviation returns5 :: "nat \<Rightarrow> pval \<Rightarrow> pval list \<Rightarrow> script" where
  "returns5 \<equiv> \<lambda>i this args. Return (NUM 5)"

lemma settled_promise_stays_witness:
  "\<exists>w1. eval_program returns5 (Suc (Suc 0)) (Suc 0) (Call (FUNC Promise_then) (PROMISE 0) [FUNC (User 0)] Return)
          (fst (js_promise_resolve world0 (FUNC Promise_ctor) [NUM 3])) = Some w1
     \<and> (outcome w1 0 = Some (FULFILLED, NUM 3) \<or> 0 \<in> set (w_thrown w1) \<and> outcome w1 0 = Some (REJECTED, EXC))
     \<and> outcome w1 1 = Some (FULFILLED, NUM 5)"
proof -
  let ?w = "fst (js_promise_resolve world0 (FUNC Promise_ctor) [NUM 3])"
  obtain w1 where w1: "eval_program returns5 (Suc (Suc 0)) (Suc 0)
      (Call (FUNC Promise_then) (PROMISE 0) [FUNC (User 0)] Return) ?w = Some w1" and o1: "outcome w1 1 = Some (FULFILLED, NUM 5)"
    by (simp add: promise_simps init_world_def outcome_def)
  have "fresh_next ?w" "outcome ?w 0 = Some (FULFILLED, NUM 3)"
    by (simp_all add: promise_simps init_world_def outcome_def fresh_next_def)
  from settled_promise_stays [OF this(1) w1 this(2)] w1 o1 show ?thesis
    by blast
qed


text \<open>The thenable 0 of this world calls its first argument with 1 and then throws 2.\<close>

definition throwing_thenable :: "nat \<Rightarrow> pval \<Rightarrow> pval list \<Rightarrow> script" where
  "throwing_thenable i this args = (if i = 0 then Call (argn 0 args) UNDEF [NUM 1] (\<lambda>_. Throw (NUM 2)) else Return (argn 0 args))"

lemma thenable_throw_unsettles:
  "\<exists>w1 w2. eval_program throwing_thenable (Suc (Suc (Suc 0))) 0
        (Call (FUNC Promise_then) (PROMISE 0) [FUNC (User 1)] (\<lambda>_. Call (FUNC (Resolve_func 0)) UNDEF [NUM 1] Return))
        (fst (lr_new_promise (init_world (\<lambda>_. \<lparr>o_then = FUNC (User 0), o_items = []\<rparr>) (\<lambda>_. []) 0))) = Some w1
      \<and> outcome w1 0 = Some (FULFILLED, NUM 1)
      \<and> eval_program throwing_thenable (Suc (Suc (Suc (Suc 0)))) (Suc 0)
        (Call (FUNC Promise_then) (PROMISE 0) [FUNC (User 1)] (\<lambda>_. Call (FUNC (Resolve_func 0)) UNDEF [PLAIN 0] Return))
        (fst (lr_new_promise (init_world (\<lambda>_. \<lparr>o_then = FUNC (User 0), o_items = []\<rparr>) (\<lambda>_. []) 0))) = Some w2
      \<and> outcome w2 0 = Some (REJECTED, EXC) \<and> outcome w2 1 = Some (FULFILLED, NUM 1)"
  by (simp add: promise_simps init_world_def outcome_def throwing_thenable_def)

section \<open>Chains\<close>

definition bare :: "pworld \<Rightarrow> nat \<Rightarrow> bool" where
  "bare w d \<longleftrightarrow> (\<exists>pd. w_promises w d = Some pd \<and> pd_state pd = PENDING \<and> pd_fulfill pd = [] \<and> pd_reject pd = [])"

lemma bare_pending: "bare w d \<Longrightarrow> is_pending w d"
  by (auto simp: bare_def is_pending_def)

text \<open>\<open>then\<close> on a settled promise queues one job and calls nothing.\<close>

lemma then_settled:
  assumes "outcome w p = Some (s, v)" "fresh_next w"
  obtains w1 where "js_promise_then w (PROMISE p) args = (w1, PROMISE (w_next w))"
    "w_jobs w1 = w_jobs w @ [if s = FULFILLED
       then Reaction_job 0 (if is_func (argn 0 args) then argn 0 args else FUNC Identity) v
              (FUNC (Resolve_func (w_next w))) (FUNC (Reject_func (w_next w)))
       else Reaction_job 1 (if is_func (argn 1 args) then argn 1 args else FUNC Thrower) v
              (FUNC (Resolve_func (w_next w))) (FUNC (Reject_func (w_next w)))]"
    "bare w1 (w_next w)" "w_arrays w1 = w_arrays w" "w_pads w1 = w_pads w" "w_next w1 = w_next w + 1" "fresh_next w1"
    "\<And>q. q < w_next w \<Longrightarrow> outcome w1 q = outcome w q" "\<And>q. q < w_next w \<Longrightarrow> bare w1 q = bare w q"
    "\<And>q. q < w_next w \<Longrightarrow> get_then w1 (PROMISE q) = get_then w (PROMISE q)"
proof -
  obtain pd where pd: "w_promises w p = Some pd" "pd_state pd = s" "pd_result pd = v" "s \<noteq> PENDING"
    using assms(1) by (auto simp: outcome_def split: option.splits if_splits)
  have p: "p < w_next w"
    using pd(1) assms(2) by (force simp: fresh_next_def not_less [symmetric])
  show ?thesis
    by (rule that [of "fst (js_promise_then w (PROMISE p) args)"])
      (use pd p assms(2) in \<open>auto simp: js_promise_then_def lr_new_promise_def set_prototype_def upd_promise_def Let_def
        lr_promise_trigger_reaction_def enqueue_job_def bare_def promise_data_new_def outcome_def fresh_next_def get_then_def
        split: promise_state.splits option.splits\<close>)
qed

text \<open>Settling a promise without reactions touches nothing else.\<close>

lemma settle_bare:
  assumes "bare w d" "s \<noteq> PENDING"
  shows "outcome (settle w d s v) d = Some (s, v)" "w_jobs (settle w d s v) = w_jobs w"
    "w_arrays (settle w d s v) = w_arrays w" "w_pads (settle w d s v) = w_pads w"
    "q \<noteq> d \<Longrightarrow> bare (settle w d s v) q = bare w q" "q \<noteq> d \<Longrightarrow> outcome (settle w d s v) q = outcome w q"
  using assms by (auto simp: bare_def settle_Some outcome_def)

lemma call_resolve:
  assumes "bare w d" "\<not> is_obj v"
  shows "promise_call user (Suc n) w (FUNC (Resolve_func d)) this [v] = Some (settle w d FULFILLED v, UNDEF)"
  using assms bare_pending [OF assms(1)]
  by (auto simp: is_obj_def call_func_def lr_promise_resolve_internal_def argn_def)

lemma call_reject:
  assumes "bare w d"
  shows "promise_call user (Suc n) w (FUNC (Reject_func d)) this [v] = Some (settle w d REJECTED v, UNDEF)"
  using bare_pending [OF assms] by (simp add: is_obj_def call_func_def lr_promise_reject_internal_def argn_def)

text \<open>A handler is called once with the result; its return value settles the derived promise.\<close>

lemma then_runs_handler:
  assumes "outcome w p = Some (FULFILLED, v)" "fresh_next w" "w_jobs w = []" "is_func f"
    and step: "js_promise_then w (PROMISE p) [f] = (w1, PROMISE d)"
    and handler: "promise_call user (Suc n) (w1\<lparr>w_jobs := [], w_ran := w_ran w1 @ [FUNC (Resolve_func d)]\<rparr>) f UNDEF [v] = Some (w2, r)"
    and quiet: "bare w2 d" "\<not> is_obj r"
  shows "\<exists>w3. run_jobs 1 (promise_call user (Suc n)) w1 = Some w3
    \<and> outcome w3 d = Some (if r = EXC then (REJECTED, w_exception w2) else (FULFILLED, r))"
proof -
  have job: "w_jobs w1 = [Reaction_job 0 f v (FUNC (Resolve_func d)) (FUNC (Reject_func d))]"
    using then_settled [OF assms(1,2), of "[f]"] step assms(3,4) by (force simp: argn_def)
  show ?thesis
    using call_resolve [OF quiet, of user n UNDEF] call_reject [OF quiet(1), of user n UNDEF "w_exception w2"] handler
    by (auto simp: execute_pending_job_def job job_reaction_def settle_bare [OF quiet(1)])
qed

text \<open>The default rejection handler does not pass the reason on.\<close>

lemma rejection_reason_lost:
  assumes "outcome w p = Some (REJECTED, reason)" "fresh_next w" "w_jobs w = []"
    and step: "js_promise_then w (PROMISE p) [f] = (w1, PROMISE d)"
  shows "\<exists>w3. run_jobs 1 (promise_call user (Suc n)) w1 = Some w3 \<and> outcome w3 d = Some (REJECTED, TYPE_ERROR ''rejected'')"
proof -
  obtain "w_jobs w1 = [Reaction_job 1 (FUNC Thrower) reason (FUNC (Resolve_func d)) (FUNC (Reject_func d))]" and b: "bare w1 d"
    using then_settled [OF assms(1,2), of "[f]"] step assms(3) by (auto simp: argn_def is_func_def)
  moreover define w2 where "w2 = w1\<lparr>w_jobs := [], w_ran := w_ran w1 @ [FUNC (Resolve_func d)], w_exception := TYPE_ERROR ''rejected''\<rparr>"
  moreover have "bare w2 d"
    using b by (simp add: w2_def bare_def)
  ultimately show ?thesis
    using call_reject [of w2 d user n UNDEF "TYPE_ERROR ''rejected''"]
    by (simp add: execute_pending_job_def job_reaction_def is_obj_def call_func_def throw_type_error_def settle_bare)
qed

section \<open>Promise.all\<close>

text \<open>Promises are added; what \<open>w\<close> has is unchanged up to subscriptions to settled promises.\<close>

definition extends :: "pworld \<Rightarrow> pworld \<Rightarrow> bool" where
  "extends w w1 \<longleftrightarrow> fresh_next w1 \<and> w_next w \<le> w_next w1 \<and> w_arrays w1 = w_arrays w \<and> w_pads w1 = w_pads w
     \<and> (\<forall>q < w_next w. outcome w1 q = outcome w q \<and> bare w1 q = bare w q \<and> get_then w1 (PROMISE q) = get_then w (PROMISE q))"

lemma extends_trans: "extends w1 w2 \<Longrightarrow> extends w2 w3 \<Longrightarrow> extends w1 w3"
  by (auto simp: extends_def)

lemma outcome_below: "outcome w q = Some x \<Longrightarrow> fresh_next w \<Longrightarrow> q < w_next w"
  by (force simp: outcome_def fresh_next_def not_less [symmetric] split: option.splits)

text \<open>An element whose promise is already fulfilled with \<open>v\<close>, or that is no promise.\<close>

definition item_value :: "pworld \<Rightarrow> pval \<Rightarrow> pval \<Rightarrow> bool" where
  "item_value w item v =
     (case item of PROMISE q \<Rightarrow> outcome w q = Some (FULFILLED, v) \<and> get_then w item = FUNC Promise_then | _ \<Rightarrow> v = item)"

lemma item_value_extends: "item_value w item v \<Longrightarrow> fresh_next w \<Longrightarrow> extends w w1 \<Longrightarrow> item_value w1 item v"
  by (cases item) (auto simp: item_value_def extends_def dest: outcome_below)

definition element_job :: "nat \<Rightarrow> pval \<Rightarrow> nat \<Rightarrow> pval \<Rightarrow> nat \<Rightarrow> pjob" where
  "element_job k rf i v d = Reaction_job 0 (FUNC (All_fulfill k i rf)) v (FUNC (Resolve_func d)) (FUNC (Reject_func d))"

lemma subscribe_element:
  assumes "outcome w q = Some (FULFILLED, v)" "fresh_next w"
  obtains w1 where "js_promise_then w (PROMISE q) [FUNC (All_fulfill k i rf), FUNC (All_reject k)] = (w1, PROMISE (w_next w))"
    "w_jobs w1 = w_jobs w @ [element_job k rf i v (w_next w)]" "bare w1 (w_next w)" "extends w w1" "w_next w1 = w_next w + 1"
  by (rule then_settled [OF assms, of "[FUNC (All_fulfill k i rf), FUNC (All_reject k)]"])
    (auto simp: argn_def is_func_def element_job_def extends_def intro: that)

lemma resolve_value:
  "\<forall>q. item \<noteq> PROMISE q \<Longrightarrow> js_promise_resolve w (FUNC Promise_ctor) [item] =
     (w\<lparr>w_promises := (w_promises w)(w_next w \<mapsto> promise_data_new\<lparr>pd_proto := True, pd_state := FULFILLED, pd_result := item\<rparr>),
        w_next := w_next w + 1\<rparr>, PROMISE (w_next w))"
  by (cases item) (simp_all add: js_promise_resolve_def argn_def lr_new_promise_def set_prototype_def upd_promise_def set_settled_def)

lemma wrap_element:
  assumes "fresh_next w" "\<forall>q. item \<noteq> PROMISE q"
  obtains w0 where "js_promise_resolve w (FUNC Promise_ctor) [item] = (w0, PROMISE (w_next w))"
    "outcome w0 (w_next w) = Some (FULFILLED, item)" "get_then w0 (PROMISE (w_next w)) = FUNC Promise_then"
    "w_jobs w0 = w_jobs w" "extends w w0" "w_next w0 = w_next w + 1"
  using assms(1)
  by (intro that [OF resolve_value [OF assms(2)]])
    (auto simp: outcome_def get_then_def extends_def fresh_next_def bare_def promise_data_new_def)

lemma all_step_subscribes:
  assumes item: "item_value w (arr_get w a i) v" and fresh: "fresh_next w"
  obtains w1 d where "all_step (promise_call user (Suc m)) (FUNC Promise_ctor) a k rf i w = Some w1"
    "w_jobs w1 = w_jobs w @ [element_job k rf i v d]" "bare w1 d" "w_next w \<le> d" "d < w_next w1" "extends w w1"
proof (cases "\<exists>q. arr_get w a i = PROMISE q")
  case True
  then obtain q where q: "arr_get w a i = PROMISE q"
    by blast
  then have o: "outcome w q = Some (FULFILLED, v)" "get_then w (PROMISE q) = FUNC Promise_then"
    using item by (auto simp: item_value_def)
  obtain w1 where w1: "js_promise_then w (PROMISE q) [FUNC (All_fulfill k i rf), FUNC (All_reject k)] = (w1, PROMISE (w_next w))"
      "w_jobs w1 = w_jobs w @ [element_job k rf i v (w_next w)]" "bare w1 (w_next w)" "extends w w1" "w_next w1 = w_next w + 1"
    using subscribe_element [OF o(1) fresh] by blast
  show ?thesis
    by (rule that [OF _ w1(2,3)])
      (use w1 o(2) q in \<open>auto simp: all_step_def is_func_def is_obj_def call_func_def\<close>)
next
  case False
  then have v: "v = arr_get w a i"
    using item by (cases "arr_get w a i") (auto simp: item_value_def)
  obtain w0 where w0: "js_promise_resolve w (FUNC Promise_ctor) [arr_get w a i] = (w0, PROMISE (w_next w))"
      "outcome w0 (w_next w) = Some (FULFILLED, arr_get w a i)" "get_then w0 (PROMISE (w_next w)) = FUNC Promise_then"
      "w_jobs w0 = w_jobs w" "extends w w0" "w_next w0 = w_next w + 1"
    using wrap_element [OF fresh, of "arr_get w a i"] False by blast
  have f0: "fresh_next w0"
    using w0(5) by (simp add: extends_def)
  obtain w1 where w1: "js_promise_then w0 (PROMISE (w_next w)) [FUNC (All_fulfill k i rf), FUNC (All_reject k)] = (w1, PROMISE (w_next w0))"
      "w_jobs w1 = w_jobs w0 @ [element_job k rf i (arr_get w a i) (w_next w0)]" "bare w1 (w_next w0)" "extends w0 w1"
      "w_next w1 = w_next w0 + 1"
    using subscribe_element [OF w0(2) f0] by blast
  have "all_step (promise_call user (Suc m)) (FUNC Promise_ctor) a k rf i w = Some w1"
    using False w0(1,3) w1(1)
    by (cases "arr_get w a i") (auto simp: all_step_def is_func_def is_obj_def call_func_def)
  then show ?thesis
    by (rule that [where d = "w_next w0"]) (use w0 w1 v extends_trans in auto)
qed

lemma all_loop_subscribes:
  assumes "\<forall>j < length vs. item_value w (arr_get w a (i + j)) (vs ! j)" "fresh_next w"
  shows "\<exists>w1 ds. all_loop (promise_call user (Suc m)) (FUNC Promise_ctor) a k rf [i..<i + length vs] w = Some w1
    \<and> length ds = length vs \<and> distinct ds \<and> (\<forall>d \<in> set ds. bare w1 d \<and> w_next w \<le> d)
    \<and> w_jobs w1 = w_jobs w @ map (\<lambda>j. element_job k rf (i + j) (vs ! j) (ds ! j)) [0..<length vs] \<and> extends w w1"
  using assms
proof (induction vs arbitrary: i w)
  case Nil
  then show ?case
    by (auto simp: extends_def)
next
  case (Cons v vs)
  have "item_value w (arr_get w a i) v"
    using Cons.prems(1) [rule_format, of 0] by simp
  then obtain w0 d where w0: "all_step (promise_call user (Suc m)) (FUNC Promise_ctor) a k rf i w = Some w0"
      "w_jobs w0 = w_jobs w @ [element_job k rf i v d]" "bare w0 d" "w_next w \<le> d" "d < w_next w0" "extends w w0"
    using all_step_subscribes Cons.prems(2) by blast
  have arr: "arr_get w0 a j = arr_get w a j" for j
    using w0(6) by (simp add: extends_def arr_get_def)
  have "\<forall>j < length vs. item_value w0 (arr_get w0 a (Suc i + j)) (vs ! j)"
  proof (intro allI impI)
    fix j assume "j < length vs"
    then have "item_value w (arr_get w a (i + Suc j)) ((v # vs) ! Suc j)"
      by (intro Cons.prems(1) [rule_format]) simp
    then show "item_value w0 (arr_get w0 a (Suc i + j)) (vs ! j)"
      unfolding arr by (intro item_value_extends [OF _ Cons.prems(2) w0(6)]) simp
  qed
  moreover have "fresh_next w0"
    using w0(6) by (simp add: extends_def)
  ultimately obtain w1 ds where
    w1: "all_loop (promise_call user (Suc m)) (FUNC Promise_ctor) a k rf [Suc i..<Suc i + length vs] w0 = Some w1"
      "length ds = length vs" "distinct ds" "\<forall>d \<in> set ds. bare w1 d \<and> w_next w0 \<le> d"
      "w_jobs w1 = w_jobs w0 @ map (\<lambda>j. element_job k rf (Suc i + j) (vs ! j) (ds ! j)) [0..<length vs]" "extends w0 w1"
    using Cons.IH [of w0 "Suc i"] by blast
  have "bare w1 d"
    using w1(6) w0(3,5) by (simp add: extends_def)
  moreover have "d \<notin> set ds"
    using w1(4) w0(5) by force
  moreover have "[i..<i + length (v # vs)] = i # [Suc i..<Suc i + length vs]"
    by (simp add: upt_conv_Cons del: upt_Suc)
  moreover have "w_jobs w1 = w_jobs w @ map (\<lambda>j. element_job k rf (i + j) ((v # vs) ! j) ((d # ds) ! j)) [0..<length (v # vs)]"
    using w1(5) w0(2) by (simp add: map_upt_Suc del: upt_Suc)
  moreover have "w_next w \<le> w_next w0"
    using w0(6) by (simp add: extends_def)
  ultimately show ?case
    using w0 w1 extends_trans [OF w0(6) w1(6)]
    by (intro exI [of _ w1] exI [of _ "d # ds"]) (auto simp del: upt_Suc promise_call.simps)
qed

text \<open>The job of one element: it stores the value and, when it is the last, fulfils the result with the array.\<close>

lemma call_resolve_array:
  assumes "bare w p"
  shows "promise_call user (Suc n) w (FUNC (Resolve_func p)) this [ARRAY a] = Some (settle w p FULFILLED (ARRAY a), UNDEF)"
  using bare_pending [OF assms]
  by (simp add: is_obj_def call_func_def lr_promise_resolve_internal_def argn_def get_then_def is_func_def)

lemma element_handler:
  fixes v :: pval
  assumes "w_pads w k = Some pad" "\<not> pad_rejected pad" "pad_arr pad = a" "bare w p" "i < length (w_arrays w a)"
    "pad_total pad = length (w_arrays w a)"
  defines "w1 \<equiv> w\<lparr>w_arrays := (w_arrays w)(a := (w_arrays w a)[i := v]),
      w_pads := (w_pads w)(k \<mapsto> pad\<lparr>pad_remaining := pad_remaining pad - 1\<rparr>)\<rparr>"
  shows "promise_call user (Suc (Suc m)) w (FUNC (All_fulfill k i (FUNC (Resolve_func p)))) UNDEF [v]
    = Some (if pad_remaining pad \<le> 1 then settle w1 p FULFILLED (ARRAY a) else w1, UNDEF)"
proof -
  have b: "bare w1 p"
    using assms(4) by (simp add: w1_def bare_def)
  have set: "arr_set w a i v = w\<lparr>w_arrays := (w_arrays w)(a := (w_arrays w a)[i := v])\<rparr>"
    using assms(5) by (simp add: arr_set_def)
  have len: "arr_set_length w1 a (length (w_arrays w a)) = w1"
    by (simp add: arr_set_length_def w1_def)
  define call where "call = promise_call user (Suc m)"
  have c: "call w1 (FUNC (Resolve_func p)) UNDEF [ARRAY a] = Some (settle w1 p FULFILLED (ARRAY a), UNDEF)"
    unfolding call_def by (rule call_resolve_array [OF b])
  have "promise_all_fulfill call w k i (FUNC (Resolve_func p)) [v]
      = Some (if pad_remaining pad \<le> 1 then settle w1 p FULFILLED (ARRAY a) else w1, UNDEF)"
    using assms(1-3,6) c len by (simp add: promise_all_fulfill_def Let_def argn_def set w1_def)
  then show ?thesis
    by (simp add: is_obj_def call_func_def call_def)
qed

lemma element_job_runs:
  assumes jobs: "w_jobs w = element_job k (FUNC (Resolve_func p)) i v d # js"
    and pad: "w_pads w k = Some pad" "\<not> pad_rejected pad" "pad_arr pad = a" "pad_total pad = length (w_arrays w a)"
    and bare: "bare w d" "bare w p" "d \<noteq> p" and i: "i < length (w_arrays w a)"
  obtains w1 where "execute_pending_job (promise_call user (Suc (Suc m))) w = Some w1" "w_jobs w1 = js"
    "w_arrays w1 a = (w_arrays w a)[i := v]" "w_pads w1 k = Some (pad\<lparr>pad_remaining := pad_remaining pad - 1\<rparr>)"
    "if pad_remaining pad \<le> 1 then outcome w1 p = Some (FULFILLED, ARRAY a) else bare w1 p"
    "\<And>q. q \<noteq> d \<Longrightarrow> q \<noteq> p \<Longrightarrow> bare w1 q = bare w q"
proof -
  define w0 where "w0 = w\<lparr>w_jobs := js, w_ran := w_ran w @ [FUNC (Resolve_func d)]\<rparr>"
  define w1 where "w1 = w0\<lparr>w_arrays := (w_arrays w0)(a := (w_arrays w0 a)[i := v]),
      w_pads := (w_pads w0)(k \<mapsto> pad\<lparr>pad_remaining := pad_remaining pad - 1\<rparr>)\<rparr>"
  define w2 where "w2 = (if pad_remaining pad \<le> 1 then settle w1 p FULFILLED (ARRAY a) else w1)"
  have b1: "bare w1 q = bare w q" for q
    by (simp add: w1_def w0_def bare_def)
  then have b0: "bare w0 p"
    using bare(2) by (simp add: w0_def bare_def)
  have h: "promise_call user (Suc (Suc m)) w0 (FUNC (All_fulfill k i (FUNC (Resolve_func p)))) UNDEF [v] = Some (w2, UNDEF)"
    unfolding w2_def w1_def by (rule element_handler) (use pad b0 i in \<open>auto simp: w0_def\<close>)
  have p1: "bare w1 p" "bare w1 d"
    using b1 bare by simp_all
  have w2: "bare w2 d" "w_jobs w2 = js" "w_arrays w2 a = (w_arrays w a)[i := v]"
      "w_pads w2 k = Some (pad\<lparr>pad_remaining := pad_remaining pad - 1\<rparr>)"
      "if pad_remaining pad \<le> 1 then outcome w2 p = Some (FULFILLED, ARRAY a) else bare w2 p"
      "\<And>q. q \<noteq> p \<Longrightarrow> bare w2 q = bare w q"
    using settle_bare [OF p1(1), where s = FULFILLED and v = "ARRAY a"] p1 bare(3) b1
    by (simp_all add: w2_def) (simp_all add: w1_def w0_def)
  note r = call_resolve [OF w2(1), of UNDEF user "Suc m" UNDEF]
  note s = settle_bare [OF w2(1), where s = FULFILLED and v = UNDEF]
  show ?thesis
  proof (rule that [of "settle w2 d FULFILLED UNDEF"])
    show "execute_pending_job (promise_call user (Suc (Suc m))) w = Some (settle w2 d FULFILLED UNDEF)"
      using h r by (simp add: execute_pending_job_def jobs element_job_def job_reaction_def w0_def is_obj_def del: promise_call.simps)
  qed (use s w2 bare(3) in \<open>auto split: if_splits\<close>)
qed

lemma element_jobs_run:
  assumes "w_jobs w = map (\<lambda>j. element_job k (FUNC (Resolve_func p)) (i + j) (vs ! j) (ds ! j)) [0..<length vs]"
    and "w_pads w k = Some pad" "\<not> pad_rejected pad" "pad_arr pad = a" "pad_total pad = length (w_arrays w a)"
    and "pad_remaining pad = int (length vs)" "i + length vs = length (w_arrays w a)" "vs \<noteq> []"
    and "length ds = length vs" "distinct ds" "p \<notin> set ds" "\<forall>d \<in> set ds. bare w d" "bare w p"
  shows "\<exists>w1. run_jobs (length vs) (promise_call user (Suc (Suc m))) w = Some w1
    \<and> outcome w1 p = Some (FULFILLED, ARRAY a) \<and> w_arrays w1 a = take i (w_arrays w a) @ vs"
  using assms
proof (induction vs arbitrary: w i ds pad)
  case (Cons v vs)
  obtain d ds' where ds: "ds = d # ds'"
    using Cons.prems(9) by (cases ds) auto
  have jobs: "w_jobs w = element_job k (FUNC (Resolve_func p)) i v d
      # map (\<lambda>j. element_job k (FUNC (Resolve_func p)) (Suc i + j) (vs ! j) (ds' ! j)) [0..<length vs]"
    using Cons.prems(1) by (simp add: ds map_upt_Suc del: upt_Suc)
  have i: "i < length (w_arrays w a)"
    using Cons.prems(7) by simp
  have bares: "bare w d" "d \<noteq> p"
    using Cons.prems(11,12) ds by auto
  obtain w1 where w1: "execute_pending_job (promise_call user (Suc (Suc m))) w = Some w1"
      "w_jobs w1 = map (\<lambda>j. element_job k (FUNC (Resolve_func p)) (Suc i + j) (vs ! j) (ds' ! j)) [0..<length vs]"
      "w_arrays w1 a = (w_arrays w a)[i := v]" "w_pads w1 k = Some (pad\<lparr>pad_remaining := pad_remaining pad - 1\<rparr>)"
      "if pad_remaining pad \<le> 1 then outcome w1 p = Some (FULFILLED, ARRAY a) else bare w1 p"
      "\<And>q. q \<noteq> d \<Longrightarrow> q \<noteq> p \<Longrightarrow> bare w1 q = bare w q"
    by (rule element_job_runs [OF jobs Cons.prems(2-5) bares(1) Cons.prems(13) bares(2) i]) blast
  have step: "run_jobs (length (v # vs)) (promise_call user (Suc (Suc m))) w = run_jobs (length vs) (promise_call user (Suc (Suc m))) w1"
    using jobs w1(1) by (simp del: promise_call.simps)
  show ?case
  proof (cases "vs = []")
    case True
    then show ?thesis
      unfolding step using w1 Cons.prems(6,7)
      by (intro exI [of _ w1]) (simp del: promise_call.simps, metis Suc_eq_plus1 append_Nil2 i take_all order_refl length_list_update take_Suc_conv_app_nth nth_list_update_eq take_update_cancel)
  next
    case False
    have rest: "\<forall>x \<in> set ds'. bare w1 x"
    proof
      fix x assume x: "x \<in> set ds'"
      then have "x \<noteq> d" "x \<noteq> p" "bare w x"
        using Cons.prems(10-12) ds by auto
      then show "bare w1 x"
        by (simp add: w1(6))
    qed
    have "\<exists>w2. run_jobs (length vs) (promise_call user (Suc (Suc m))) w1 = Some w2
        \<and> outcome w2 p = Some (FULFILLED, ARRAY a) \<and> w_arrays w2 a = take (Suc i) (w_arrays w1 a) @ vs"
      by (rule Cons.IH [OF w1(2) w1(4)])
        (use Cons.prems False w1(3,5) rest ds in \<open>auto simp del: promise_call.simps split: if_splits\<close>)
    moreover have "take (Suc i) (w_arrays w1 a) @ vs = take i (w_arrays w a) @ v # vs"
      using i by (simp add: w1(3) take_Suc_conv_app_nth)
    ultimately show ?thesis
      unfolding step by simp
  qed
qed simp

lemma new_bare:
  assumes "fresh_next w"
  shows "bare (set_prototype (fst (lr_new_promise w)) (w_next w) b) (w_next w)"
    "extends w (set_prototype (fst (lr_new_promise w)) (w_next w) b)"
    "w_jobs (set_prototype (fst (lr_new_promise w)) (w_next w) b) = w_jobs w"
    "w_next (set_prototype (fst (lr_new_promise w)) (w_next w) b) = w_next w + 1"
  using assms
  by (auto simp: lr_new_promise_def set_prototype_def upd_promise_def bare_def promise_data_new_def extends_def
      outcome_def fresh_next_def get_then_def)

text \<open>(C11) \<open>Promise.all\<close> on an array of plain values and fulfilled promises gives a pending promise; after one job per element it
  is fulfilled with the array, which then holds the values in order.\<close>
lemma promise_all_collects:
  fixes user :: "nat \<Rightarrow> pval \<Rightarrow> pval list \<Rightarrow> script" and m :: nat
  assumes fresh: "fresh_next w" and jobs: "w_jobs w = []" and arr: "w_arrays w a = items" "items \<noteq> []"
    and vals: "length vs = length items" "\<forall>i < length items. item_value w (items ! i) (vs ! i)"
  defines "call \<equiv> promise_call user (Suc (Suc m))"
  shows "\<exists>w1 p w2. js_promise_all call w (FUNC Promise_ctor) [ARRAY a] = Some (w1, PROMISE p) \<and> is_pending w1 p
    \<and> run_jobs (length items) call w1 = Some w2 \<and> outcome w2 p = Some (FULFILLED, ARRAY a) \<and> w_arrays w2 a = vs"
proof -
  define p where "p = w_next w"
  define w0 where "w0 = set_prototype (fst (lr_new_promise w)) p True"
  define pad where "pad = \<lparr>pad_remaining = int (length items), pad_total = length items, pad_arr = a,
      pad_reject = FUNC (Reject_func p), pad_rejected = False\<rparr>"
  define k where "k = w_next_pad w0"
  define w3 where "w3 = w0\<lparr>w_pads := (w_pads w0)(k \<mapsto> pad), w_next_pad := k + 1\<rparr>"
  note n = new_bare [OF fresh, of True, folded p_def, folded w0_def]
  have arr0: "w_arrays w0 = w_arrays w" "fresh_next w0"
    using n(2) by (auto simp: extends_def)
  have same: "outcome w3 q = outcome w0 q" "bare w3 q = bare w0 q" "get_then w3 (PROMISE q) = get_then w0 (PROMISE q)" for q
    by (simp_all add: w3_def outcome_def bare_def get_then_def)
  have items: "\<forall>j < length vs. item_value w3 (arr_get w3 a (0 + j)) (vs ! j)"
  proof (intro allI impI)
    fix j assume j: "j < length vs"
    then have "item_value w0 (items ! j) (vs ! j)"
      using vals by (intro item_value_extends [OF _ fresh n(2)]) simp
    then have "item_value w3 (items ! j) (vs ! j)"
      by (cases "items ! j") (simp_all add: item_value_def same)
    moreover have "arr_get w3 a (0 + j) = items ! j"
      using j vals(1) arr arr0 by (simp add: arr_get_def argn_def w3_def)
    ultimately show "item_value w3 (arr_get w3 a (0 + j)) (vs ! j)"
      by simp
  qed
  have f3: "fresh_next w3"
    using arr0(2) by (simp add: w3_def fresh_next_def)
  obtain w1 ds where w1: "all_loop call (FUNC Promise_ctor) a k (FUNC (Resolve_func p)) [0..<0 + length vs] w3 = Some w1"
      "length ds = length vs" "distinct ds" "\<forall>d \<in> set ds. bare w1 d \<and> w_next w3 \<le> d"
      "w_jobs w1 = w_jobs w3 @ map (\<lambda>j. element_job k (FUNC (Resolve_func p)) (0 + j) (vs ! j) (ds ! j)) [0..<length vs]"
      "extends w3 w1"
    using all_loop_subscribes [OF items f3, of user "Suc m" k "FUNC (Resolve_func p)"] unfolding call_def by blast
  have next3: "w_next w3 = p + 1"
    using n(4) by (simp add: w3_def p_def)
  have all: "js_promise_all call w (FUNC Promise_ctor) [ARRAY a] = Some (w1, PROMISE p)"
    using w1(1) arr arr0 vals(1)
    by (simp add: js_promise_all_def lr_new_promise_def p_def w0_def [unfolded lr_new_promise_def p_def, simplified]
        argn_def to_array_def Let_def w3_def pad_def k_def)
  have p: "bare w1 p" "p \<notin> set ds"
    using w1(4,6) n(1) next3 same(2) [of p] by (force simp: extends_def)+
  have pads: "w_pads w1 k = Some pad" "w_arrays w1 a = items"
    using w1(6) arr arr0 by (simp_all add: extends_def w3_def)
  have "w_jobs w3 = []"
    using n(3) jobs by (simp add: w3_def)
  then have "\<exists>w2. run_jobs (length vs) call w1 = Some w2
      \<and> outcome w2 p = Some (FULFILLED, ARRAY a) \<and> w_arrays w2 a = take 0 (w_arrays w1 a) @ vs"
    unfolding call_def
    by (intro element_jobs_run [where ds = ds and pad = pad and k = k])
      (use w1 p pads vals arr in \<open>auto simp: pad_def simp del: promise_call.simps\<close>)
  with all p(1) vals(1) show ?thesis
    by (auto simp: bare_pending)
qed

text \<open>Promise 0 is fulfilled with 7; the array holds it and the plain value 8.\<close>

abbreviation world7 :: pworld where
  "world7 \<equiv> fst (js_promise_resolve (init_world plain_objects (\<lambda>_. [PROMISE 0, NUM 8]) 1) (FUNC Promise_ctor) [NUM 7])"

lemma world7_facts: "fresh_next world7" "w_jobs world7 = []" "w_arrays world7 0 = [PROMISE 0, NUM 8]"
  "outcome world7 0 = Some (FULFILLED, NUM 7)" "get_then world7 (PROMISE 0) = FUNC Promise_then"
  by (simp_all add: promise_simps init_world_def fresh_next_def outcome_def)

lemma promise_all_collects_witness:
  "\<exists>w1 p w2. js_promise_all (promise_call returns5 (Suc (Suc 0))) world7 (FUNC Promise_ctor) [ARRAY 0] = Some (w1, PROMISE p)
    \<and> is_pending w1 p \<and> run_jobs 2 (promise_call returns5 (Suc (Suc 0))) w1 = Some w2
    \<and> outcome w2 p = Some (FULFILLED, ARRAY 0) \<and> w_arrays w2 0 = [NUM 7, NUM 8]"
proof -
  have "\<forall>i < length [PROMISE 0, NUM 8]. item_value world7 ([PROMISE 0, NUM 8] ! i) ([NUM 7, NUM 8] ! i)"
    using world7_facts(4,5) by (auto simp: item_value_def less_Suc_eq)
  from promise_all_collects [OF world7_facts(1-3) _ _ this, of returns5 0] show ?thesis
    by (simp add: numeral_2_eq_2 del: promise_call.simps run_jobs.simps)
qed

lemma then_runs_handler_witness:
  "\<exists>w3. run_jobs 1 (promise_call returns5 (Suc (Suc 0))) (fst (js_promise_then world7 (PROMISE 0) [FUNC (User 0)])) = Some w3
    \<and> outcome w3 1 = Some (FULFILLED, NUM 5)"
proof -
  let ?w1 = "fst (js_promise_then world7 (PROMISE 0) [FUNC (User 0)])"
  let ?w2 = "?w1\<lparr>w_jobs := [], w_ran := w_ran ?w1 @ [FUNC (Resolve_func 1)]\<rparr>"
  have "js_promise_then world7 (PROMISE 0) [FUNC (User 0)] = (?w1, PROMISE 1)" "is_func (FUNC (User 0))"
    "promise_call returns5 (Suc (Suc 0)) ?w2 (FUNC (User 0)) UNDEF [NUM 7] = Some (?w2, NUM 5)"
    "bare ?w2 1" "\<not> is_obj (NUM 5)"
    by (simp_all add: promise_simps init_world_def bare_def)
  from then_runs_handler [OF world7_facts(4,1,2) this(2,1,3,4,5)] show ?thesis
    by (simp del: promise_call.simps)
qed

abbreviation world_rejected :: pworld where
  "world_rejected \<equiv> fst (js_promise_reject world0 (FUNC Promise_ctor) [TEXT ''reason''])"

lemma rejection_reason_lost_witness:
  "\<exists>w3. run_jobs 1 (promise_call returns5 (Suc (Suc 0))) (fst (js_promise_then world_rejected (PROMISE 0) [FUNC (User 0)])) = Some w3
    \<and> outcome w3 1 = Some (REJECTED, TYPE_ERROR ''rejected'')"
proof -
  have "outcome world_rejected 0 = Some (REJECTED, TEXT ''reason'')" "fresh_next world_rejected" "w_jobs world_rejected = []"
    "js_promise_then world_rejected (PROMISE 0) [FUNC (User 0)]
      = (fst (js_promise_then world_rejected (PROMISE 0) [FUNC (User 0)]), PROMISE 1)"
    by (simp_all add: promise_simps init_world_def outcome_def fresh_next_def)
  from rejection_reason_lost [OF this] show ?thesis
    by (simp del: promise_call.simps)
qed

section \<open>The simplified combinators\<close>

text \<open>
  \<open>Promise.race\<close> only looks at the first element, and its result has no \<open>then\<close>. \<open>allSettled\<close> reports a pending element
  as fulfilled with undefined, and \<open>any\<close> rejects while elements are pending.
\<close>

lemma race_waits_for_first:
  assumes "fresh_next w" "bare w p" "get_then w (PROMISE p) = FUNC Promise_then" "w_arrays w a = PROMISE p # rest"
  shows "\<exists>w1. js_promise_race (promise_call user (Suc n)) w [ARRAY a] = Some (w1, PROMISE (w_next w))
    \<and> is_pending w1 (w_next w) \<and> w_jobs w1 = w_jobs w \<and> get_then w1 (PROMISE (w_next w)) = UNDEF"
proof -
  obtain pd where pd: "w_promises w p = Some pd" "pd_state pd = PENDING" "pd_proto pd"
    using assms(2,3) by (auto simp: bare_def get_then_def split: if_splits)
  have p: "p < w_next w"
    using pd(1) assms(1) by (force simp: fresh_next_def not_less [symmetric])
  then show ?thesis
    using pd assms(1,4)
    by (simp add: js_promise_race_def to_array_def arr_get_def promise_simps fresh_next_def)
qed

lemma race_waits_for_first_witness:
  "\<exists>w1. js_promise_race (promise_call returns5 (Suc 0))
      (set_prototype (fst (lr_new_promise (init_world plain_objects (\<lambda>_. [PROMISE 0, NUM 8]) 1))) 0 True) [ARRAY 0] = Some (w1, PROMISE 1)
    \<and> is_pending w1 1 \<and> w_jobs w1 = [] \<and> get_then w1 (PROMISE 1) = UNDEF"
proof -
  let ?w = "set_prototype (fst (lr_new_promise (init_world plain_objects (\<lambda>_. [PROMISE 0, NUM 8]) 1))) 0 True"
  have "fresh_next ?w" "bare ?w 0" "get_then ?w (PROMISE 0) = FUNC Promise_then" "w_arrays ?w 0 = [PROMISE 0, NUM 8]"
    "w_next ?w = 1" "w_jobs ?w = []"
    by (simp_all add: promise_simps init_world_def fresh_next_def bare_def)
  with race_waits_for_first [OF this(1-4), of returns5 0] show ?thesis
    by (simp del: promise_call.simps)
qed

lemma all_settled_hides_pending: "is_pending w p \<Longrightarrow> settled_entry w (PROMISE p) = ENTRY True UNDEF"
  by (auto simp: is_pending_def settled_entry_def split: option.splits)

lemma any_skips_pending: "is_pending w p \<Longrightarrow> any_pick w [PROMISE p] = None"
  by (auto simp: is_pending_def split: option.splits)

end
