(* ===== verification/Spec2Isabelle.thy ===== *)
theory Spec2Isabelle
  imports LR_Prelude LR_Compress LR_Map LR_Set LR_Bytecode LR_Emit LR_GC LR_Scheduler LR_Timers
    LR_Ops LR_VM LR_Ast LR_Compile LR_Run LR_Eval LR_Correct LR_Diverge LR_Stmt LR_Typed LR_Encoding LR_Queue LR_Pool LR_Archive LR_Cache LR_Promise
begin

text \<open>
  LR_JS is a JavaScript runtime in C: a lexer and parser build a syntax tree, a compiler turns it into bytecode for a stack
  machine, and around the engine stand builtins, an event loop with timers and promises, a thread pool, a scheduler, a
  garbage-collection controller and an on-disk result cache. This development models the parts of it that carry logic of
  their own, each as definitions that follow the C function they are named after, and proves what makes them correct. All
  paths below are under \<^verbatim>\<open>src/src/\<close>.

  \<^bold>\<open>The parts and how they interact.\<close> A script is parsed, compiled (\<^verbatim>\<open>engine/lr_bytecode_compile.c\<close>, through the emitter
  \<^verbatim>\<open>engine/lr_bytecode_emit.c\<close>) and executed (\<^verbatim>\<open>engine/lr_bytecode_exec.c\<close>, whose handlers fall back to the operator routines of
  \<^verbatim>\<open>engine/lr_bytecode_value.c\<close>). Before that, the result cache (\<^verbatim>\<open>lr_iome586.c\<close>) is asked for an archive of the source; it holds the
  compressed (\<^verbatim>\<open>lr_compress.c\<close>) tree, the serialised bytecode (\<^verbatim>\<open>engine/lr_bytecode_serialize.c\<close>) and a snapshot of the globals.
  After the script, the event loop (\<^verbatim>\<open>lr_runtime.c\<close>) drains the job queue of the engine (\<^verbatim>\<open>engine/lr_engine.c\<close>), which promises
  (\<^verbatim>\<open>lr_promise.c\<close>) and \<open>queueMicrotask\<close> fill, and runs due timers (\<^verbatim>\<open>lr_timers.c\<close>). Native tasks go through the scheduler
  (\<^verbatim>\<open>lr_scheduler.c\<close>) to the workers of the thread pool (\<^verbatim>\<open>lr_thread_pool.c\<close>), whose mailboxes are the lock-free queues of
  \<^verbatim>\<open>lr_lockfree_queue.h\<close>.

  \<^bold>\<open>Theories.\<close>
  \<^item> \<open>LR_Prelude\<close>: machine types, little-endian fields, lemmas on lists and words that all parts share.
  \<^item> \<open>LR_Compress\<close> (\<^verbatim>\<open>lr_compress.c\<close>): both directions of the LZ4 block codec, loop by loop, and the two wrappers. Round trips, the
    size bound of the compressor, the bound on what the decompressor writes on any input, and where it reads too far.
  \<^item> \<open>LR_Value\<close>, \<open>LR_Table\<close>, \<open>LR_Map\<close>, \<open>LR_Set\<close> (\<^verbatim>\<open>engine/lr_engine.h\<close>, \<^verbatim>\<open>lr_map.c\<close>, \<^verbatim>\<open>lr_set.c\<close>): tagged values, key hashing and
    SameValueZero, the probe loops, resizing, all prototype methods, constructors and iterators. The locale \<open>key_table\<close> is the
    contract of a table; Map and Set are interpretations of it. Table invariant over every reachable object, refinement of a
    finite map with the exact condition under which \<open>set\<close> stores, completeness of iteration, and what tombstones break.
  \<^item> \<open>LR_Bytecode\<close>, \<open>LR_Emit\<close> (\<^verbatim>\<open>engine/lr_bytecode_serialize.c\<close>, \<^verbatim>\<open>lr_bytecode_disasm.c\<close>, \<^verbatim>\<open>lr_bytecode_cache.c\<close>, \<^verbatim>\<open>lr_bytecode_emit.c\<close>): programs,
    image format, loader with its failed allocations, disassembler, emission with the \<open>LOAD_PROP\<close>/\<open>ADD\<close> peephole, jumps, loops, pool.
  \<^item> \<open>LR_Float\<close>, \<open>LR_Convert\<close>, \<open>LR_Ops\<close> (\<^verbatim>\<open>engine/lr_bytecode_value.c\<close>, conversions of \<^verbatim>\<open>engine/lr_engine.c\<close>): IEEE doubles on bit patterns,
    conversions, every operator with its fast paths; the fast paths agree with the general one.
  \<^item> \<open>LR_VM\<close> (\<^verbatim>\<open>engine/lr_bytecode_exec.c\<close>): the stack machine for stack, slots, constants, operators and jumps, with the inlined fast
    paths of the handlers.
  \<^item> \<open>LR_Ast\<close>, \<open>LR_Compile\<close>, \<open>LR_Stmt\<close> (\<^verbatim>\<open>engine/lr_ast.h\<close>, \<^verbatim>\<open>engine/lr_bytecode_compile.c\<close>): syntax trees, the expression and statement
    compiler, hoisting, the entry points.
  \<^item> \<open>LR_Run\<close>, \<open>LR_Eval\<close>, \<open>LR_Gen\<close>, \<open>LR_Correct\<close>, \<open>LR_Diverge\<close>: a reference evaluator (the specification), composition of code
    sequences, the correctness of the expression compiler on the fragment \<open>compilable\<close> (slots, literals, operators, conditionals,
    assignments that are not fused), and expressions outside it on which compiled code and source order differ.
  \<^item> \<open>LR_Typed\<close>: a bytecode verifier and the proof that everything the compiler accepts passes it, and is listed correctly.
  \<^item> \<open>LR_GC\<close> (\<^verbatim>\<open>lr_gc.c\<close>): nursery with its address arithmetic, pause statistics, minor, full and incremental collections.
  \<^item> \<open>LR_Scheduler\<close> (\<^verbatim>\<open>lr_scheduler.c\<close>): the sorted task list and the pass over it.
  \<^item> \<open>LR_Timers\<close> (\<^verbatim>\<open>lr_timers.c\<close>, the loops of \<^verbatim>\<open>lr_runtime.c\<close>, the job queue of \<^verbatim>\<open>engine/lr_engine.c\<close>): timers with callbacks that call back
    into the timer functions, as a step relation \<open>timers_step\<close> with its reachable states.
  \<^item> \<open>LR_Encoding\<close> (\<^verbatim>\<open>lr_encoding.c\<close>): base64 and the text encoder, with their reads and writes checked.
  \<^item> \<open>LR_Queue\<close>, \<open>LR_Pool\<close> (\<^verbatim>\<open>lr_lockfree_queue.h\<close>, \<^verbatim>\<open>lr_thread_pool.c\<close>): the queue as single atomic steps over a heap of nodes, so that
    interleavings can be stated; the locale \<open>node_queue\<close> is its contract without interference, which the pool uses.
  \<^item> \<open>LR_Archive\<close>, \<open>LR_Cache\<close> (\<^verbatim>\<open>lr_iome586.c\<close>): hashes, snapshots of globals and nodes, the container, and begin, commit, abort, load and
    revert over a file system whose operations can fail.
  \<^item> \<open>LR_Promise\<close> (\<^verbatim>\<open>lr_promise.c\<close>, \<open>lr_call\<close> and the job loop of \<^verbatim>\<open>engine/lr_engine.c\<close>, \<open>eval_await\<close>): all promise functions over a world of
    promises, jobs and arrays. What script functions do is an argument: a tree of calls. The locale \<open>promise_relation\<close> lifts a
    relation that the elementary changes keep to every call, job and program; it has two interpretations.

  \<^bold>\<open>Conventions.\<close> A struct is a record, an enum a datatype, a buffer a list of bytes and a pointer into it an offset; 32- and 64-bit
  fields are words where wrap-around matters, and otherwise integers or naturals with the bound stated where it is used. A failing
  call is a value of an option or of a sum; undefined behaviour that the C code can reach is a value of its own and never a
  result (\<open>Out_of_bounds\<close>, \<open>Null_deref\<close>, \<open>Overrun\<close>, \<open>Op_trap\<close>, the errors of the codec and of the queue). Outcomes of \<open>malloc\<close>, of the
  file system, the clock, and functions of the C library that the code only calls are arguments. Ghost fields that no operation
  reads record history: \<open>fired\<close>, \<open>clears\<close> and \<open>id_overflow\<close> of the timers, \<open>w_ran\<close>, \<open>w_derived\<close> and \<open>w_thrown\<close> of the promises.

  \<^bold>\<open>Bounds and fuel.\<close> Loops over a finite structure are structural or have a measure. Fuel stands only for loops that the code itself
  may not end: the machine (\<open>bc_execute\<close>; the correctness theorem gives a bound from which every amount is enough), the collector's step
  loops (four steps are enough, \<open>gc_loops_return\<close>), a scheduler pass (twice the list and one, \<open>process_runs_due_tasks\<close>), iteration over
  a Map (capacity and one, \<open>map_iteration_complete\<close>), the event loops, the prototype walk of \<open>instanceof\<close>, and calls between promise
  functions and scripts. \<open>None\<close> is always running out. Theorems of the form ``a program that returns'' (the promise invariants) are
  about safety; \<open>promise_all_collects\<close>, \<open>then_runs_handler\<close> and the witnesses show that programs do return. Results limited to sizes
  below 2 or 4 GiB, to ids below the overflow of a counter, or to \<open>size_t\<close> sums that do not wrap say so in their hypotheses.

  \<^bold>\<open>Not modelled.\<close> Reference counts and the lifetime of engine objects (so not the resolve data that the two functions of a promise
  share, nor double releases such as the one in the fallback of \<open>mul_self\<close>); the object model, property access and calls of
  the machine; the parser; the tree-walking interpreter, except for template unescaping, the arguments scan and await; the JIT;
  memory orders weaker than sequential consistency; times and task ids of the scheduler as fixed-width integers; threads that wait on
  condition variables; registration of builtins; host input and output, graphics, workers, URL and storage glue. The manifest lists
  every part with the reason.
\<close>

end
